(* ===== verification/Prelude.thy ===== *)
theory Prelude
  imports Main "HOL-Library.Word" "HOL-Library.Monad_Syntax"
begin

text \<open>
  Shared vocabulary of the development: the machine types, blocks of C memory, the
  bounds-checked memory operations, and the generic facts the component theories use.

  Conventions.  A C function that may have undefined behaviour (an access outside a block, a failed
  \<open>assert\<close>) or that may not return is a function into \<open>option\<close>, and \<open>None\<close> is exactly that
  outcome; the error codes a function returns are ordinary values.  A \<open>size_t\<close> that only counts
  bytes of live memory is a \<open>nat\<close>; an integer whose width matters is a \<open>w word\<close>.  A block of heap
  memory is a list of cells, and a cell that was allocated but never written is \<open>None\<close>.
\<close>

unbundle bit_operations_syntax

type_synonym u8 = "8 word"
type_synonym u16 = "16 word"
type_synonym u32 = "32 word"
type_synonym u64 = "64 word"
type_synonym bytes = "u8 list"
type_synonym block = "u8 option list"

named_theorems mem_simps \<open>equations of the memory operations\<close>
named_theorems mem_defs \<open>definitions of the memory operations\<close>

section \<open>Blocks of memory\<close>

text \<open>An assertion, or a bounds check that the C code relies on.\<close>

definition guard :: "bool \<Rightarrow> unit option" where
  "guard b = (if b then Some () else None)"

text \<open>\<open>mem_malloc\<close> of \<open>utility_t.c\<close>: a fresh block, nothing of it initialised.\<close>

definition mem_malloc :: "nat \<Rightarrow> block" where
  "mem_malloc n = replicate n None"

text \<open>\<open>mem_realloc\<close>: the old prefix is kept, the rest is uninitialised.\<close>

definition mem_realloc :: "block \<Rightarrow> nat \<Rightarrow> block" where
  "mem_realloc b n = take n b @ replicate (n - length b) None"

text \<open>The source side of a \<open>memcpy\<close>: \<open>n\<close> cells from offset \<open>off\<close>, which must lie in the block.\<close>

definition mem_load :: "block \<Rightarrow> nat \<Rightarrow> nat \<Rightarrow> block option" where
  "mem_load b off n = (if off + n \<le> length b then Some (take n (drop off b)) else None)"

text \<open>The target side of a \<open>memcpy\<close>: the cells \<open>xs\<close> stored from offset \<open>off\<close>.\<close>

definition mem_store :: "block \<Rightarrow> nat \<Rightarrow> block \<Rightarrow> block option" where
  "mem_store b off xs =
     (if off + length xs \<le> length b then Some (take off b @ xs @ drop (off + length xs) b) else None)"

lemmas [mem_defs] = guard_def mem_malloc_def mem_realloc_def mem_load_def mem_store_def

lemma guard_simps [simp]:
  "guard True = Some ()" "guard False = None"
  by (simp_all add: guard_def)

lemma guard_eq_Some [simp]: "guard b = Some u \<longleftrightarrow> b"
  by (simp add: guard_def)

lemma length_mem_malloc [simp]: "length (mem_malloc n) = n"
  by (simp add: mem_malloc_def)

lemma length_mem_realloc [simp]: "length (mem_realloc b n) = n"
  by (simp add: mem_realloc_def)

lemma mem_realloc_prefix: "length b \<le> n \<Longrightarrow> take (length b) (mem_realloc b n) = b"
  by (simp add: mem_realloc_def)

lemma mem_load_Some [mem_simps]:
  "off + n \<le> length b \<Longrightarrow> mem_load b off n = Some (take n (drop off b))"
  by (simp add: mem_load_def)

lemma mem_store_Some [mem_simps]:
  "off + length xs \<le> length b \<Longrightarrow>
    mem_store b off xs = Some (take off b @ xs @ drop (off + length xs) b)"
  by (simp add: mem_store_def)

lemma mem_store_length: "mem_store b off xs = Some b' \<Longrightarrow> length b' = length b"
  by (auto simp: mem_store_def split: if_splits)

lemma mem_store_is_None: "mem_store b off xs = None \<longleftrightarrow> length b < off + length xs"
  by (auto simp: mem_store_def)

lemma mem_load_is_None: "mem_load b off n = None \<longleftrightarrow> length b < off + n"
  by (auto simp: mem_load_def)

section \<open>Rounding a size up\<close>

text \<open>
  The macro \<open>align_size(n, alignment)\<close> of \<open>utility_t.h\<close>, on \<open>size_t\<close>.  The components use it with
  alignment 256; \<open>align_size_unat\<close> shows that it rounds up to a multiple, so the nat version is what
  the code computes as long as the sum does not wrap.
\<close>

definition align_size_w :: "u64 \<Rightarrow> u64 \<Rightarrow> u64" where
  "align_size_w n alignment = (n + alignment - 1) AND NOT (alignment - 1)"

definition align_size :: "nat \<Rightarrow> nat \<Rightarrow> nat" where
  "align_size n alignment = (n + alignment - 1) div alignment * alignment"

lemma align_size_ge: "0 < a \<Longrightarrow> n \<le> align_size n a"
proof -
  assume a: "0 < a"
  have "(n + a - 1) mod a \<le> a - 1" using a by (simp add: less_Suc_eq_le [symmetric])
  moreover have "(n + a - 1) div a * a + (n + a - 1) mod a = n + a - 1" by simp
  ultimately show ?thesis using a unfolding align_size_def by linarith
qed

lemma align_size_pos: "0 < a \<Longrightarrow> 0 < n \<Longrightarrow> 0 < align_size n a"
  using align_size_ge [of a n] by linarith

lemma and_not_255: "x AND NOT 255 = push_bit 8 (drop_bit 8 x)" for x :: u64
proof -
  have "(255::u64) = mask 8" by (simp add: mask_eq_exp_minus_1)
  then show ?thesis by (simp add: bit_eq_iff bit_simps) (auto simp: bit_simps)
qed

lemma align_size_unat:
  assumes "unat n + 255 < 2 ^ 64"
  shows "unat (align_size_w n 256) = align_size (unat n) 256"
proof -
  have s: "unat (n + 255) = unat n + 255"
    using assms by (simp add: unat_word_ariths)
  have "align_size_w n 256 = push_bit 8 (drop_bit 8 (n + 255))"
    by (simp only: align_size_w_def and_not_255 [symmetric]) (simp add: add.commute)
  moreover have "(unat n + 255) div 256 * 256 < 2 ^ 64" using assms by linarith
  ultimately show ?thesis
    by (simp add: push_bit_eq_mult unat_word_ariths unat_drop_bit_eq drop_bit_eq_div s align_size_def mod_less)
qed

section \<open>Small values in words\<close>

lemma uint_eq_sint: "0 \<le> sint v \<Longrightarrow> uint v = sint v" for v :: u64
proof -
  assume "0 \<le> sint v"
  moreover have "sint v < 2 ^ 63" using sint_lt [of v] by simp
  ultimately show ?thesis using uint_sint [of v] by (simp add: take_bit_int_eq_self)
qed

lemma take_bit_small: "uint v < 2 ^ n \<Longrightarrow> take_bit n v = v" for v :: "'a::len word"
  by (simp add: word_uint_eq_iff unsigned_take_bit_eq take_bit_int_eq_self)

lemma signed_take_bit_small:
  fixes v :: "'a::len word"
  assumes "- (2 ^ n) \<le> sint v" "sint v < 2 ^ n"
  shows "signed_take_bit n v = v"
proof -
  have "signed_take_bit n (word_of_int (sint v)) = (word_of_int (sint v) :: 'a word)"
    using assms by (simp only: signed_take_bit_of_int signed_take_bit_int_eq_self)
  then show ?thesis by simp
qed

end
