(* ===== verification/Interfaces.thy ===== *)
theory Interfaces
  imports Prelude
begin

text \<open>
  Contracts between the components, as locales: a simulation of operation sequences by an abstract
  machine, and the reachability of a step relation.  The theories of the components that provide a
  contract interpret it on their own definitions.
\<close>

section \<open>Sequences of operations\<close>

text \<open>Run operations one after another, collecting their results; \<open>None\<close> when one is undefined.\<close>

fun run_ops :: "('s \<Rightarrow> 'o \<Rightarrow> ('r \<times> 's) option) \<Rightarrow> 's \<Rightarrow> 'o list \<Rightarrow> ('r list \<times> 's) option" where
  "run_ops step s [] = Some ([], s)"
| "run_ops step s (a # as) = do {
     (r, s) \<leftarrow> step s a;
     (rs, s) \<leftarrow> run_ops step s as;
     Some (r # rs, s) }"

lemma run_ops_append:
  "run_ops step s (as @ bs) = do {
     (rs, s) \<leftarrow> run_ops step s as; (rs', s) \<leftarrow> run_ops step s bs; Some (rs @ rs', s) }"
  by (induction as arbitrary: s) (auto split: Option.bind_splits)

text \<open>
  A concrete machine refines an abstract one when every abstract step that is defined is matched:
  the concrete step is defined, returns the image of the abstract result and stays related.
\<close>

locale op_refinement =
  fixes cstep :: "'c \<Rightarrow> 'o \<Rightarrow> ('rc \<times> 'c) option"
    and astep :: "'a \<Rightarrow> 'o \<Rightarrow> ('ra \<times> 'a) option"
    and rel :: "'c \<Rightarrow> 'a \<Rightarrow> bool"
    and out :: "'ra \<Rightarrow> 'rc"
  assumes sim: "rel c a \<Longrightarrow> astep a op = Some (r, a') \<Longrightarrow> \<exists>c'. cstep c op = Some (out r, c') \<and> rel c' a'"
begin

lemma run_sim:
  "rel c a \<Longrightarrow> run_ops astep a ops = Some (rs, a') \<Longrightarrow>
    \<exists>c'. run_ops cstep c ops = Some (map out rs, c') \<and> rel c' a'"
proof (induction ops arbitrary: c a rs)
  case Nil
  then show ?case by auto
next
  case (Cons op ops)
  from Cons.prems(2) obtain r a1 rs1 where r: "astep a op = Some (r, a1)"
    "run_ops astep a1 ops = Some (rs1, a')" "rs = r # rs1"
    by (auto split: Option.bind_splits)
  from sim [OF Cons.prems(1) r(1)] obtain c1 where c1: "cstep c op = Some (out r, c1)" "rel c1 a1" by blast
  from Cons.IH [OF c1(2) r(2)] c1 r show ?case by auto
qed

end

section \<open>Codecs\<close>

text \<open>
  An encoder of items and a decoder that takes one item off the front and returns the rest.  From the
  round trip of one item with any bytes behind it follow the unambiguity of the encoding and the round
  trip of sequences.
\<close>

fun decode_n :: "('b list \<Rightarrow> ('a \<times> 'b list) option) \<Rightarrow> nat \<Rightarrow> 'b list \<Rightarrow> ('a list \<times> 'b list) option" where
  "decode_n dec 0 bs = Some ([], bs)"
| "decode_n dec (Suc n) bs = do {
     (a, bs) \<leftarrow> dec bs;
     (as, bs) \<leftarrow> decode_n dec n bs;
     Some (a # as, bs) }"

locale item_codec =
  fixes enc :: "'a \<Rightarrow> 'b list"
    and ok :: "'a \<Rightarrow> bool"
    and dec :: "'b list \<Rightarrow> ('a \<times> 'b list) option"
  assumes roundtrip: "ok a \<Longrightarrow> dec (enc a @ rest) = Some (a, rest)"
    and nonempty: "ok a \<Longrightarrow> enc a \<noteq> []"
begin

lemma prefix_free: "ok a \<Longrightarrow> ok b \<Longrightarrow> enc a @ r = enc b @ r' \<Longrightarrow> a = b \<and> r = r'"
  by (metis roundtrip option.inject prod.inject)

lemma decode_sequence:
  "list_all ok as \<Longrightarrow> decode_n dec (length as) (concat (map enc as) @ rest) = Some (as, rest)"
  by (induction as) (simp_all add: roundtrip)

lemma sequence_unambiguous:
  "list_all ok as \<Longrightarrow> list_all ok bs \<Longrightarrow> concat (map enc as) = concat (map enc bs) \<Longrightarrow> as = bs"
proof (induction as arbitrary: bs)
  case Nil
  then show ?case using nonempty by (cases bs) auto
next
  case (Cons a as)
  from Cons.prems nonempty [of a] obtain b bs' where bs: "bs = b # bs'" by (cases bs) auto
  from Cons.prems bs prefix_free [of a b "concat (map enc as)" "concat (map enc bs')"]
  show ?case using Cons.IH [of bs'] by simp
qed

end

section \<open>Sources of bytes\<close>

text \<open>
  What the codecs rely on when they read from a queue or a slice: with bytes there, a read yields as
  many as asked for and available, a peek changes nothing, and with none it returns \<open>false\<close>.
\<close>

locale byte_source =
  fixes rep :: "'s \<Rightarrow> bytes \<Rightarrow> bool"
    and get :: "'s \<Rightarrow> nat \<Rightarrow> bool \<Rightarrow> (block option \<times> 's) option"
  assumes peek: "rep s xs \<Longrightarrow> xs \<noteq> [] \<Longrightarrow> 0 < n \<Longrightarrow> get s n True = Some (Some (map Some (take n xs)), s)"
    and take_off: "rep s xs \<Longrightarrow> xs \<noteq> [] \<Longrightarrow> 0 < n \<Longrightarrow>
      \<exists>s'. get s n False = Some (Some (map Some (take n xs)), s') \<and> rep s' (drop n xs)"
    and exhausted: "rep s xs \<Longrightarrow> xs = [] \<or> n = 0 \<Longrightarrow> get s n b = Some (None, s)"
begin

text \<open>Reads of any sizes one after another yield the bytes in order, and nothing twice.\<close>

lemma reads_in_order:
  "rep s xs \<Longrightarrow> \<exists>rs s'. run_ops (\<lambda>s n. get s n False) s ns = Some (rs, s') \<and>
     rep s' (drop (sum_list ns) xs) \<and>
     concat (map (\<lambda>r. case r of None \<Rightarrow> [] | Some b \<Rightarrow> b) rs) = map Some (take (sum_list ns) xs)"
proof (induction ns arbitrary: s xs)
  case Nil
  then show ?case by auto
next
  case (Cons n ns)
  show ?case
  proof (cases "xs = [] \<or> n = 0")
    case True
    with Cons.IH [OF Cons.prems] Cons.prems exhausted [OF Cons.prems True, of False] show ?thesis by auto
  next
    case False
    with take_off [OF Cons.prems, of n] obtain s1 where
      s1: "get s n False = Some (Some (map Some (take n xs)), s1)" "rep s1 (drop n xs)" by auto
    from Cons.IH [OF s1(2)] s1 show ?thesis
      by (auto simp: add.commute take_add map_append [symmetric] simp del: map_append)
  qed
qed

end

section \<open>Framed streams\<close>

text \<open>
  A frame parser looks at the bytes received so far: they hold no whole frame yet, they are not a frame,
  or they begin with one.  \<open>drain\<close> takes all whole frames off the front (\<open>n\<close> bounds their number), and
  \<open>feed\<close> does so after every chunk that arrives.
\<close>

datatype 'a frame = FrameNeed | FrameBad | FrameGot 'a bytes

fun drain :: "(bytes \<Rightarrow> 'a frame) \<Rightarrow> nat \<Rightarrow> bytes \<Rightarrow> 'a list \<times> bytes" where
  "drain parse 0 bs = ([], bs)"
| "drain parse (Suc n) bs =
     (case parse bs of
        FrameGot a rest \<Rightarrow> (let (as, r) = drain parse n rest in (a # as, r))
      | _ \<Rightarrow> ([], bs))"

fun feed :: "(bytes \<Rightarrow> 'a frame) \<Rightarrow> bytes \<Rightarrow> bytes list \<Rightarrow> 'a list \<times> bytes" where
  "feed parse bs [] = ([], bs)"
| "feed parse bs (c # cs) =
     (let (as, r) = drain parse (length (bs @ c)) (bs @ c); (as', r') = feed parse r cs in (as @ as', r'))"

locale framing =
  fixes enc :: "'a \<Rightarrow> bytes"
    and ok :: "'a \<Rightarrow> bool"
    and parse :: "bytes \<Rightarrow> 'a frame"
  assumes whole: "ok a \<Longrightarrow> parse (enc a @ rest) = FrameGot a rest"
    and partial: "ok a \<Longrightarrow> k < length (enc a) \<Longrightarrow> parse (take k (enc a)) = FrameNeed"
    and empty: "parse [] = FrameNeed"
begin

lemma enc_nonempty: "ok a \<Longrightarrow> enc a \<noteq> []"
  using whole [of a "[]"] empty by auto

text \<open>The buffer holds less than the next frame, or nothing is left.\<close>

definition pending :: "bytes \<Rightarrow> 'a list \<Rightarrow> bool" where
  "pending bs as \<longleftrightarrow> (case as of [] \<Rightarrow> bs = [] | a # _ \<Rightarrow> length bs < length (enc a))"

lemma drain_pending:
  "list_all ok as \<Longrightarrow> bs @ zs = concat (map enc as) \<Longrightarrow> length bs \<le> n \<Longrightarrow>
    \<exists>as1 as2 r. as = as1 @ as2 \<and> drain parse n bs = (as1, r) \<and> r @ zs = concat (map enc as2) \<and> pending r as2"
proof (induction n arbitrary: as bs)
  case 0
  then have "bs = []" by simp
  moreover have "pending [] as" using 0 enc_nonempty by (auto simp: pending_def split: list.splits)
  ultimately show ?case using 0 by auto
next
  case (Suc n)
  show ?case
  proof (cases as)
    case Nil
    with Suc.prems empty show ?thesis by (auto simp: pending_def)
  next
    case (Cons a as')
    then have a: "ok a" "list_all ok as'" using Suc.prems by auto
    show ?thesis
    proof (cases "length bs < length (enc a)")
      case True
      then have "bs = take (length bs) (enc a)"
        using Suc.prems(2) Cons by (metis append_eq_append_conv_if list.simps(9) concat.simps(2) nless_le)
      with partial [OF a(1) True] have "parse bs = FrameNeed" by simp
      with True Cons Suc.prems have "as = [] @ as \<and> drain parse (Suc n) bs = ([], bs) \<and>
        bs @ zs = concat (map enc as) \<and> pending bs as" by (simp add: pending_def)
      then show ?thesis by blast
    next
      case False
      with Suc.prems(2) Cons obtain bs' where bs': "bs = enc a @ bs'" "bs' @ zs = concat (map enc as')"
      proof -
        have "enc a @ concat (map enc as') = bs @ zs" using Suc.prems(2) Cons by simp
        with False have "enc a = take (length (enc a)) bs \<and> concat (map enc as') = drop (length (enc a)) bs @ zs"
          unfolding append_eq_append_conv_if not_less by (simp only: if_True)
        then show ?thesis using that [of "drop (length (enc a)) bs"] by (metis append_take_drop_id)
      qed
      have "length bs' \<le> n" using bs' Suc.prems(3) enc_nonempty [OF a(1)] by (cases "enc a") auto
      from Suc.IH [OF a(2) bs'(2) this] obtain as1 as2 r where
        "as' = as1 @ as2" "drain parse n bs' = (as1, r)" "r @ zs = concat (map enc as2)" "pending r as2" by blast
      with Cons bs' whole [OF a(1), of bs'] have "as = (a # as1) @ as2 \<and>
        drain parse (Suc n) bs = (a # as1, r) \<and> r @ zs = concat (map enc as2) \<and> pending r as2" by simp
      then show ?thesis by blast
    qed
  qed
qed

lemma feed_pending:
  "list_all ok as \<Longrightarrow> bs @ concat cs = concat (map enc as) \<Longrightarrow> pending bs as \<Longrightarrow> feed parse bs cs = (as, [])"
proof (induction cs arbitrary: bs as)
  case Nil
  then show ?case by (auto simp: pending_def split: list.splits)
next
  case (Cons c cs)
  from drain_pending [of as "bs @ c" "concat cs" "length (bs @ c)"] Cons.prems
  obtain as1 as2 r where d: "as = as1 @ as2" "drain parse (length (bs @ c)) (bs @ c) = (as1, r)"
    "r @ concat cs = concat (map enc as2)" "pending r as2" by auto
  with Cons.IH [of as2 r] Cons.prems show ?case by simp
qed

text \<open>However a stream of frames is cut into chunks, exactly its frames come out, in order.\<close>

lemma chunking_independent:
  "list_all ok as \<Longrightarrow> concat cs = concat (map enc as) \<Longrightarrow> feed parse [] cs = (as, [])"
  by (rule feed_pending) (use enc_nonempty in \<open>auto simp: pending_def split: list.splits\<close>)

end

text \<open>A framing gives a codec.\<close>

definition frame_dec :: "(bytes \<Rightarrow> 'a frame) \<Rightarrow> bytes \<Rightarrow> ('a \<times> bytes) option" where
  "frame_dec parse bs = (case parse bs of FrameGot a rest \<Rightarrow> Some (a, rest) | _ \<Rightarrow> None)"

sublocale framing \<subseteq> codec: item_codec enc ok "frame_dec parse"
  by unfold_locales (simp_all add: frame_dec_def whole enc_nonempty)

section \<open>Concurrent steps\<close>

text \<open>The states that steps of any threads, interleaved in any order, reach from an initial state.\<close>

inductive reachable :: "('s \<Rightarrow> bool) \<Rightarrow> ('s \<Rightarrow> 's \<Rightarrow> bool) \<Rightarrow> 's \<Rightarrow> bool" for init step where
  reach_init: "init s \<Longrightarrow> reachable init step s"
| reach_step: "reachable init step s \<Longrightarrow> step s s' \<Longrightarrow> reachable init step s'"

text \<open>What a component with atomic steps owes its users: an invariant that every step of every thread keeps,
  and that implies the guarantee they rely on.\<close>

locale step_invariant =
  fixes init :: "'s \<Rightarrow> bool" and step :: "'s \<Rightarrow> 's \<Rightarrow> bool" and inv :: "'s \<Rightarrow> bool" and guarantee :: "'s \<Rightarrow> bool"
  assumes init_inv: "init s \<Longrightarrow> inv s"
    and step_inv: "inv s \<Longrightarrow> step s s' \<Longrightarrow> inv s'"
    and inv_guarantee: "inv s \<Longrightarrow> guarantee s"
begin

lemma reachable_inv: "reachable init step s \<Longrightarrow> inv s"
  by (induction rule: reachable.induct) (auto intro: init_inv step_inv)

lemma always: "reachable init step s \<Longrightarrow> guarantee s"
  using reachable_inv inv_guarantee by blast

end

section \<open>Handle tables\<close>

text \<open>A table gives out ids for handles.  What its users see of one operation: a new id for a handle (\<open>None\<close>
  when the table is full), whether an id was closed, which handle an id has.\<close>

datatype ('i, 'h) table_event =
    Opened "'i option" 'h
  | Closed 'i bool
  | Found 'i "'h option"

text \<open>The answers of a map from ids to handles; \<open>None\<close> at the first event it does not allow.\<close>

fun map_answers :: "('i \<Rightarrow> 'h option) \<Rightarrow> ('i, 'h) table_event list \<Rightarrow> ('i \<Rightarrow> 'h option) option" where
  "map_answers m [] = Some m"
| "map_answers m (Opened None h # es) = map_answers m es"
| "map_answers m (Opened (Some i) h # es) = (if m i = None then map_answers (m(i \<mapsto> h)) es else None)"
| "map_answers m (Closed i b # es) = (if b \<longleftrightarrow> m i \<noteq> None then map_answers (m(i := None)) es else None)"
| "map_answers m (Found i r # es) = (if r = m i then map_answers m es else None)"

text \<open>Any sequence of operations, each within its precondition at the time.\<close>

inductive table_run ::
  "('w \<Rightarrow> 'h \<Rightarrow> ('i option \<times> 'w) option) \<Rightarrow> ('w \<Rightarrow> 'i \<Rightarrow> (bool \<times> 'w) option) \<Rightarrow>
   ('w \<Rightarrow> 'i \<Rightarrow> ('h option \<times> 'w) option) \<Rightarrow> ('w \<Rightarrow> 'h \<Rightarrow> bool) \<Rightarrow> ('w \<Rightarrow> 'i \<Rightarrow> bool) \<Rightarrow>
   'w \<Rightarrow> ('i, 'h) table_event list \<Rightarrow> 'w \<Rightarrow> bool"
  for opn cls fnd fresh known where
  run_nil: "table_run opn cls fnd fresh known w [] w"
| run_open: "fresh w h \<Longrightarrow> opn w h = Some (r, w') \<Longrightarrow> table_run opn cls fnd fresh known w' es w'' \<Longrightarrow>
    table_run opn cls fnd fresh known w (Opened r h # es) w''"
| run_close: "known w i \<Longrightarrow> cls w i = Some (b, w') \<Longrightarrow> table_run opn cls fnd fresh known w' es w'' \<Longrightarrow>
    table_run opn cls fnd fresh known w (Closed i b # es) w''"
| run_find: "known w i \<Longrightarrow> fnd w i = Some (r, w') \<Longrightarrow> table_run opn cls fnd fresh known w' es w'' \<Longrightarrow>
    table_run opn cls fnd fresh known w (Found i r # es) w''"

inductive_simps table_run_Nil [simp]: "table_run opn cls fnd fresh known w [] w'"
inductive_simps table_run_Opened: "table_run opn cls fnd fresh known w (Opened r h # es) w'"
inductive_simps table_run_Closed: "table_run opn cls fnd fresh known w (Closed i b # es) w'"
inductive_simps table_run_Found: "table_run opn cls fnd fresh known w (Found i r # es) w'"

lemma table_run_append:
  "table_run opn cls fnd fresh known w (es @ es') w'' \<longleftrightarrow>
   (\<exists>w'. table_run opn cls fnd fresh known w es w' \<and> table_run opn cls fnd fresh known w' es' w'')"
proof (induction es arbitrary: w)
  case (Cons e es)
  then show ?case by (cases e) (auto simp: table_run_Opened table_run_Closed table_run_Found)
qed simp

text \<open>In a map, a closed id stays closed until it is opened again.\<close>

lemma not_opened:
  "map_answers m es \<noteq> None \<Longrightarrow> m i = None \<Longrightarrow> \<forall>h. Opened (Some i) h \<notin> set es \<Longrightarrow>
   Found i (Some q) \<notin> set es \<and> Closed i True \<notin> set es"
  by (induction m es rule: map_answers.induct) (auto split: if_splits)

lemma closed_stays:
  "map_answers m (es @ Closed i True # es') \<noteq> None \<Longrightarrow> \<forall>h. Opened (Some i) h \<notin> set es' \<Longrightarrow>
   Found i (Some q) \<notin> set es' \<and> Closed i True \<notin> set es'"
proof (induction m es rule: map_answers.induct)
  case (1 m)
  then show ?case using not_opened [of "m(i := None)" es' i q] by (auto split: if_splits)
qed (auto split: if_splits)

locale handle_table =
  fixes opn :: "'w \<Rightarrow> 'h \<Rightarrow> ('i option \<times> 'w) option" and cls :: "'w \<Rightarrow> 'i \<Rightarrow> (bool \<times> 'w) option"
    and fnd :: "'w \<Rightarrow> 'i \<Rightarrow> ('h option \<times> 'w) option" and fresh :: "'w \<Rightarrow> 'h \<Rightarrow> bool"
    and known :: "'w \<Rightarrow> 'i \<Rightarrow> bool" and inv :: "'w \<Rightarrow> bool" and entries :: "'w \<Rightarrow> 'i \<Rightarrow> 'h option"
  assumes opn_law: "inv w \<Longrightarrow> fresh w h \<Longrightarrow> \<exists>r w'. opn w h = Some (r, w') \<and> inv w' \<and>
      (case r of None \<Rightarrow> entries w' = entries w
       | Some i \<Rightarrow> entries w i = None \<and> known w' i \<and> entries w' = (entries w)(i \<mapsto> h))"
    and cls_law: "inv w \<Longrightarrow> known w i \<Longrightarrow>
      \<exists>w'. cls w i = Some (entries w i \<noteq> None, w') \<and> inv w' \<and> entries w' = (entries w)(i := None)"
    and fnd_law: "inv w \<Longrightarrow> known w i \<Longrightarrow> \<exists>w'. fnd w i = Some (entries w i, w') \<and> inv w' \<and> entries w' = entries w"
begin

lemma run_map:
  "table_run opn cls fnd fresh known w es w' \<Longrightarrow> inv w \<Longrightarrow> inv w' \<and> map_answers (entries w) es = Some (entries w')"
proof (induction rule: table_run.induct)
  case (run_open w h r w' es w'')
  from opn_law [OF run_open.prems run_open.hyps(1)] run_open show ?case by (cases r) (auto simp: fun_upd_def)
next
  case (run_close w i b w' es w'')
  from cls_law [OF run_close.prems run_close.hyps(1)] run_close show ?case by (auto simp: fun_upd_def)
next
  case (run_find w i r w' es w'')
  from fnd_law [OF run_find.prems run_find.hyps(1)] run_find show ?case by auto
qed simp

text \<open>No operation within its precondition is undefined.\<close>

lemma progress:
  "inv w \<Longrightarrow> (fresh w h \<longrightarrow> opn w h \<noteq> None) \<and> (known w i \<longrightarrow> cls w i \<noteq> None \<and> fnd w i \<noteq> None)"
  using opn_law cls_law fnd_law by (metis option.distinct(1))

end

section \<open>Intrusive queues\<close>

text \<open>What the queue of a service needs of the linked lists it is made of: \<open>rep m h xs\<close> says that the queue with
  head \<open>h\<close> holds the nodes \<open>xs\<close>.  A producer appends; the consumer moves the queue to a head of its own and takes the
  nodes from there.\<close>

fun insert_all :: "('m \<Rightarrow> 'p \<Rightarrow> 'p \<Rightarrow> 'm option) \<Rightarrow> 'm \<Rightarrow> 'p \<Rightarrow> 'p list \<Rightarrow> 'm option" where
  "insert_all tail m h [] = Some m"
| "insert_all tail m h (q # qs) = Option.bind (tail m h q) (\<lambda>m. insert_all tail m h qs)"

fun take_all ::
  "('m \<Rightarrow> 'p \<Rightarrow> bool option) \<Rightarrow> ('m \<Rightarrow> 'p \<Rightarrow> 'p option) \<Rightarrow> ('m \<Rightarrow> 'p \<Rightarrow> 'm option) \<Rightarrow> nat \<Rightarrow> 'm \<Rightarrow> 'p \<Rightarrow> ('p list \<times> 'm) option"
  where
  "take_all emp front rmv 0 m h = None"
| "take_all emp front rmv (Suc n) m h =
     Option.bind (emp m h) (\<lambda>e. if e then Some ([], m)
       else Option.bind (front m h) (\<lambda>q. Option.bind (rmv m q) (\<lambda>m.
         map_option (\<lambda>(qs, m). (q # qs, m)) (take_all emp front rmv n m h))))"

locale intrusive_queue =
  fixes rep :: "'m \<Rightarrow> 'p \<Rightarrow> 'p list \<Rightarrow> bool" and avail :: "'m \<Rightarrow> 'p set"
    and emp :: "'m \<Rightarrow> 'p \<Rightarrow> bool option" and front :: "'m \<Rightarrow> 'p \<Rightarrow> 'p option" and rmv :: "'m \<Rightarrow> 'p \<Rightarrow> 'm option"
    and tail :: "'m \<Rightarrow> 'p \<Rightarrow> 'p \<Rightarrow> 'm option" and mov :: "'m \<Rightarrow> 'p \<Rightarrow> 'p \<Rightarrow> 'm option"
  assumes emp_law: "rep m h xs \<Longrightarrow> emp m h = Some (xs = [])"
    and front_law: "rep m h (x # xs) \<Longrightarrow> front m h = Some x"
    and rem_law: "rep m h (x # xs) \<Longrightarrow> \<exists>m'. rmv m x = Some m' \<and> rep m' h xs \<and> avail m' = avail m"
    and tail_law: "rep m h xs \<Longrightarrow> q \<in> avail m \<Longrightarrow> q \<notin> set (h # xs) \<Longrightarrow>
      \<exists>m'. tail m h q = Some m' \<and> rep m' h (xs @ [q]) \<and> avail m' = avail m"
    and mov_law: "rep m h xs \<Longrightarrow> n \<in> avail m \<Longrightarrow> n \<notin> set (h # xs) \<Longrightarrow>
      \<exists>m'. mov m h n = Some m' \<and> rep m' h [] \<and> rep m' n xs \<and> avail m' = avail m"
begin

lemma insert_all_rep:
  "rep m h xs \<Longrightarrow> set qs \<subseteq> avail m \<Longrightarrow> distinct qs \<Longrightarrow> set qs \<inter> set (h # xs) = {} \<Longrightarrow>
   \<exists>m'. insert_all tail m h qs = Some m' \<and> rep m' h (xs @ qs) \<and> avail m' = avail m"
proof (induction qs arbitrary: m xs)
  case (Cons q qs)
  then obtain m1 where m1: "tail m h q = Some m1" "rep m1 h (xs @ [q])" "avail m1 = avail m"
    using tail_law [of m h xs q] by auto
  with Cons.IH [of m1 "xs @ [q]"] Cons.prems show ?case by auto
qed simp

lemma take_all_rep:
  "rep m h xs \<Longrightarrow> length xs < n \<Longrightarrow> \<exists>m'. take_all emp front rmv n m h = Some (xs, m') \<and> rep m' h []"
proof (induction n arbitrary: m xs)
  case (Suc n)
  show ?case
  proof (cases xs)
    case Nil
    with Suc.prems emp_law [OF Suc.prems(1)] show ?thesis by auto
  next
    case (Cons x ys)
    from rem_law Suc.prems(1) Cons obtain m1 where m1: "rmv m x = Some m1" "rep m1 h ys" by blast
    from Suc.IH [OF m1(2)] Suc.prems(2) Cons obtain m2 where "take_all emp front rmv n m1 h = Some (ys, m2)" "rep m2 h []" by auto
    with m1 Cons emp_law [OF Suc.prems(1)] front_law Suc.prems(1) show ?thesis by auto
  qed
qed simp

text \<open>First in, first out: what is appended is taken in the same order, and nothing stays behind.\<close>

lemma fifo:
  assumes "rep m h []" "set qs \<subseteq> avail m" "distinct qs" "h \<notin> set qs" "n \<in> avail m" "n \<notin> set (h # qs)"
  shows "\<exists>m1 m2 m3. insert_all tail m h qs = Some m1 \<and> mov m1 h n = Some m2 \<and>
    take_all emp front rmv (Suc (length qs)) m2 n = Some (qs, m3) \<and> rep m2 h [] \<and> rep m3 n []"
proof -
  from insert_all_rep [OF assms(1-3)] assms(4) obtain m1 where
    m1: "insert_all tail m h qs = Some m1" "rep m1 h qs" "avail m1 = avail m" by auto
  from assms(5) m1(3) have "n \<in> avail m1" by simp
  from mov_law [OF m1(2) this assms(6)] obtain m2 where m2: "mov m1 h n = Some m2" "rep m2 h []" "rep m2 n qs" by blast
  from take_all_rep [OF m2(3), of "Suc (length qs)"] m1 m2 show ?thesis by auto
qed

end

section \<open>Priority queues\<close>

text \<open>\<open>holds key s S\<close>: the queue \<open>s\<close> holds the elements \<open>S\<close>, arranged by \<open>key\<close>.  The key of an element that is not
  in the queue may change.  \<open>cap\<close> bounds the number of elements.\<close>

locale min_queue =
  fixes holds :: "('a \<Rightarrow> 'k::linorder) \<Rightarrow> 's \<Rightarrow> 'a set \<Rightarrow> bool"
    and front :: "'s \<Rightarrow> 'a option"
    and ins :: "('a \<Rightarrow> 'a \<Rightarrow> bool) \<Rightarrow> 's \<Rightarrow> 'a \<Rightarrow> 's option"
    and rmv :: "('a \<Rightarrow> 'a \<Rightarrow> bool) \<Rightarrow> 's \<Rightarrow> 'a \<Rightarrow> 's option"
    and cap :: nat
  assumes front_law: "holds key s S \<Longrightarrow>
      (case front s of None \<Rightarrow> S = {} | Some p \<Rightarrow> p \<in> S \<and> (\<forall>q\<in>S. key p \<le> key q))"
    and ins_law: "holds key s S \<Longrightarrow> p \<notin> S \<Longrightarrow> card S < cap \<Longrightarrow>
      \<exists>s'. ins (\<lambda>a b. key a < key b) s p = Some s' \<and> holds key s' (insert p S)"
    and rmv_law: "holds key s S \<Longrightarrow> p \<in> S \<Longrightarrow>
      \<exists>s'. rmv (\<lambda>a b. key a < key b) s p = Some s' \<and> holds key s' (S - {p})"
    and key_law: "holds key s S \<Longrightarrow> \<forall>a\<in>S. key' a = key a \<Longrightarrow> holds key' s S"
    and finite_law: "holds key s S \<Longrightarrow> finite S"
begin

lemma front_None: "holds key s S \<Longrightarrow> front s = None \<longleftrightarrow> S = {}"
  using front_law [of key s S] by (auto split: option.splits)

lemma front_Some: "holds key s S \<Longrightarrow> front s = Some p \<Longrightarrow> p \<in> S \<and> (\<forall>q\<in>S. key p \<le> key q)"
  using front_law [of key s S] by simp

text \<open>When the least element is not due, nothing is.\<close>

lemma nothing_due:
  "holds key s S \<Longrightarrow> front s = Some p \<Longrightarrow> \<not> due (key p) \<Longrightarrow> (\<And>k k'. k \<le> k' \<Longrightarrow> due k' \<Longrightarrow> due k) \<Longrightarrow> q \<in> S \<Longrightarrow> \<not> due (key q)"
  using front_Some [of key s S p] by blast

text \<open>An element is taken out and put back with another key.\<close>

lemma rekey:
  assumes "holds key s S" "p \<in> S" "card (S - {p}) < cap" "\<And>q. q \<noteq> p \<Longrightarrow> key' q = key q"
  shows "\<exists>s1 s2. rmv (\<lambda>a b. key a < key b) s p = Some s1 \<and> ins (\<lambda>a b. key' a < key' b) s1 p = Some s2 \<and> holds key' s2 S"
proof -
  from rmv_law [OF assms(1,2)] obtain s1 where s1: "rmv (\<lambda>a b. key a < key b) s p = Some s1" "holds key s1 (S - {p})" by blast
  from key_law [OF s1(2), of key'] assms(4) have "holds key' s1 (S - {p})" by auto
  from ins_law [OF this, of p] assms(2,3) obtain s2 where "ins (\<lambda>a b. key' a < key' b) s1 p = Some s2" "holds key' s2 (insert p (S - {p}))" by auto
  with s1 assms(2) show ?thesis by (auto simp: insert_absorb)
qed

end

end
