(* ===== verification/ByteQueue.thy ===== *)
theory ByteQueue
  imports Interfaces
begin

text \<open>
  The byte ring buffer of \<open>core/include/byteQueue_t.h\<close> and \<open>core/source/detail/byteQueue_t.c\<close>:
  the record and every operation, the representation invariant \<open>bq_rep\<close> (the queue holds exactly a
  given byte string, all of it initialised), the effect of each operation on it, and the refinement
  of arbitrary operation sequences to a FIFO of bytes.

  A pointer into \<open>pBuffer\<close> that an operation returns is the offset from its start; a null \<open>pBuffer\<close>
  is the empty block.  \<open>size_t\<close> values are naturals: a capacity stays far below \<open>2^63\<close>.
\<close>

section \<open>State and accessors\<close>

record byteQueue =
  bq_pBuffer :: block
  bq_nCapacity :: nat
  bq_nReadIndex :: nat
  bq_nWriteIndex :: nat

definition byteQueue_init :: "nat \<Rightarrow> byteQueue" where
  "byteQueue_init nCapacity =
     \<lparr>bq_pBuffer = (if nCapacity \<noteq> 0 then mem_malloc nCapacity else []),
      bq_nCapacity = nCapacity, bq_nReadIndex = nCapacity, bq_nWriteIndex = 0\<rparr>"

definition byteQueue_clear :: "byteQueue \<Rightarrow> byteQueue" where
  "byteQueue_clear q = q\<lparr>bq_nReadIndex := 0, bq_nWriteIndex := 0, bq_nCapacity := 0, bq_pBuffer := []\<rparr>"

definition byteQueue_empty :: "byteQueue \<Rightarrow> bool" where
  "byteQueue_empty q = (bq_nReadIndex q = bq_nCapacity q)"

definition byteQueue_getBytesReadable :: "byteQueue \<Rightarrow> nat" where
  "byteQueue_getBytesReadable q =
     (if bq_nWriteIndex q > bq_nReadIndex q
      then bq_nWriteIndex q - bq_nReadIndex q
      else bq_nWriteIndex q + (bq_nCapacity q - bq_nReadIndex q))"

definition byteQueue_getBytesWritable :: "byteQueue \<Rightarrow> nat" where
  "byteQueue_getBytesWritable q =
     (if bq_nReadIndex q \<ge> bq_nWriteIndex q
      then bq_nReadIndex q - bq_nWriteIndex q
      else bq_nReadIndex q + (bq_nCapacity q - bq_nWriteIndex q))"

definition byteQueue_getCapacity :: "byteQueue \<Rightarrow> nat" where
  "byteQueue_getCapacity q = bq_nCapacity q"

definition byteQueue_getBuffer :: "byteQueue \<Rightarrow> block" where
  "byteQueue_getBuffer q = bq_pBuffer q"

text \<open>The two \<open>peekContiguous\<close> functions return the offset of the region and its length.\<close>

definition byteQueue_peekContiguousBytesRead :: "byteQueue \<Rightarrow> nat \<times> nat" where
  "byteQueue_peekContiguousBytesRead q =
     (bq_nReadIndex q,
      if bq_nWriteIndex q > bq_nReadIndex q
      then bq_nWriteIndex q - bq_nReadIndex q
      else bq_nCapacity q - bq_nReadIndex q)"

definition byteQueue_peekContiguousBytesWrite :: "byteQueue \<Rightarrow> nat \<times> nat" where
  "byteQueue_peekContiguousBytesWrite q =
     (bq_nWriteIndex q,
      if bq_nReadIndex q \<ge> bq_nWriteIndex q
      then bq_nReadIndex q - bq_nWriteIndex q
      else bq_nCapacity q - bq_nWriteIndex q)"

definition byteQueue_readOffset :: "byteQueue \<Rightarrow> nat \<Rightarrow> byteQueue option" where
  "byteQueue_readOffset q nLength = do {
     guard (byteQueue_getBytesReadable q \<ge> nLength);
     if byteQueue_getBytesReadable q = nLength
     then Some (q\<lparr>bq_nReadIndex := bq_nCapacity q, bq_nWriteIndex := 0\<rparr>)
     else do {
       guard (bq_nCapacity q \<noteq> 0);
       Some (q\<lparr>bq_nReadIndex := (bq_nReadIndex q + nLength) mod bq_nCapacity q\<rparr>) } }"

text \<open>
  The tail that \<open>writeOffset\<close>, \<open>writeChar\<close>, \<open>write\<close> and \<open>writeBytes\<close> share: advance the write index
  (a zero divisor is undefined) and leave the empty state.
\<close>

definition byteQueue_advance :: "byteQueue \<Rightarrow> nat \<Rightarrow> byteQueue option" where
  "byteQueue_advance q nLength = do {
     guard (bq_nCapacity q \<noteq> 0);
     let q = q\<lparr>bq_nWriteIndex := (bq_nWriteIndex q + nLength) mod bq_nCapacity q\<rparr> in
     Some (if bq_nReadIndex q = bq_nCapacity q then q\<lparr>bq_nReadIndex := 0\<rparr> else q) }"

definition byteQueue_writeOffset :: "byteQueue \<Rightarrow> nat \<Rightarrow> byteQueue option" where
  "byteQueue_writeOffset q nLength = do {
     guard (nLength \<noteq> 0);
     guard (byteQueue_getBytesWritable q \<ge> nLength);
     byteQueue_advance q nLength }"

section \<open>Writing\<close>

text \<open>
  The two copies that move the readable bytes to the start of a new block (the same statements in
  \<open>writeChar\<close>, \<open>write\<close>, \<open>writeBytes\<close> and \<open>reserve\<close>).
\<close>

definition byteQueue_copyReadable :: "byteQueue \<Rightarrow> block \<Rightarrow> block option" where
  "byteQueue_copyReadable q pBuffer =
     (let nWritten = byteQueue_getBytesReadable q;
          (pRead, nReadBytes) = byteQueue_peekContiguousBytesRead q
      in do {
        xs \<leftarrow> mem_load (bq_pBuffer q) pRead nReadBytes;
        pBuffer \<leftarrow> mem_store pBuffer 0 xs;
        if nReadBytes \<noteq> nWritten then do {
          ys \<leftarrow> mem_load (bq_pBuffer q) 0 (nWritten - nReadBytes);
          mem_store pBuffer nReadBytes ys }
        else Some pBuffer })"

text \<open>Growing to \<open>nNewCapacity\<close> before a write that does not fit.\<close>

definition byteQueue_regrow :: "byteQueue \<Rightarrow> nat \<Rightarrow> byteQueue option" where
  "byteQueue_regrow q nNewCapacity =
     (let pBuffer = mem_malloc nNewCapacity in
      if bq_nReadIndex q \<noteq> bq_nCapacity q
      then do {
        pBuffer \<leftarrow> byteQueue_copyReadable q pBuffer;
        Some (q\<lparr>bq_nReadIndex := 0, bq_nWriteIndex := byteQueue_getBytesReadable q,
                bq_nCapacity := nNewCapacity, bq_pBuffer := pBuffer\<rparr>) }
      else Some (q\<lparr>bq_nReadIndex := nNewCapacity, bq_nWriteIndex := 0,
                   bq_nCapacity := nNewCapacity, bq_pBuffer := pBuffer\<rparr>))"

text \<open>The first allocation, when the capacity is zero; the write index is left as it is.\<close>

definition byteQueue_first :: "byteQueue \<Rightarrow> nat \<Rightarrow> byteQueue" where
  "byteQueue_first q nCapacity =
     q\<lparr>bq_nCapacity := nCapacity, bq_pBuffer := mem_malloc nCapacity, bq_nReadIndex := nCapacity\<rparr>"

text \<open>The second half of \<open>write\<close> and \<open>writeBytes\<close>: one or two copies, then the indices.\<close>

definition byteQueue_put :: "byteQueue \<Rightarrow> bytes \<Rightarrow> byteQueue option" where
  "byteQueue_put q pInBytes =
     (let nLength = length pInBytes;
          (pWrite, nWriteBytes) = byteQueue_peekContiguousBytesWrite q
      in do {
        pBuffer \<leftarrow>
          (if nWriteBytes \<ge> nLength
           then mem_store (bq_pBuffer q) pWrite (map Some pInBytes)
           else do {
             pBuffer \<leftarrow> mem_store (bq_pBuffer q) pWrite (map Some (take nWriteBytes pInBytes));
             mem_store pBuffer 0 (map Some (drop nWriteBytes pInBytes)) });
        byteQueue_advance (q\<lparr>bq_pBuffer := pBuffer\<rparr>) nLength })"

definition byteQueue_writeChar :: "byteQueue \<Rightarrow> u8 \<Rightarrow> byteQueue option" where
  "byteQueue_writeChar q c = do {
     let nBytesWritable = byteQueue_getBytesWritable q;
     q \<leftarrow> (if bq_nCapacity q = 0 then Some (byteQueue_first q 256)
          else if bq_nCapacity q = 0 \<or> 1 > nBytesWritable
          then byteQueue_regrow q (align_size (2 * bq_nCapacity q + 1) 256)
          else Some q);
     pBuffer \<leftarrow> mem_store (bq_pBuffer q) (bq_nWriteIndex q) [Some c];
     byteQueue_advance (q\<lparr>bq_pBuffer := pBuffer\<rparr>) 1 }"

definition byteQueue_write :: "byteQueue \<Rightarrow> bytes \<Rightarrow> byteQueue option" where
  "byteQueue_write q pInBytes = do {
     let nLength = length pInBytes;
     guard (nLength \<noteq> 0);
     q \<leftarrow> (if bq_nCapacity q = 0 then Some (byteQueue_first q (align_size nLength 256))
          else let nBytesWritable = byteQueue_getBytesWritable q in
            if nLength > nBytesWritable
            then byteQueue_regrow q (align_size (2 * bq_nCapacity q + (nLength - nBytesWritable)) 256)
            else Some q);
     byteQueue_put q pInBytes }"

definition byteQueue_writeBytes :: "byteQueue \<Rightarrow> bytes \<Rightarrow> byteQueue option" where
  "byteQueue_writeBytes q pInBytes = do {
     let nLength = length pInBytes;
     guard (nLength \<noteq> 0);
     q \<leftarrow> (if bq_nCapacity q = 0 then Some (byteQueue_first q nLength)
          else let nBytesWritable = byteQueue_getBytesWritable q in
            if nLength > nBytesWritable
            then byteQueue_regrow q (bq_nCapacity q + (nLength - nBytesWritable))
            else Some q);
     byteQueue_put q pInBytes }"

section \<open>Reading, resetting, reserving\<close>

text \<open>The bytes copied to \<open>pOutBytes\<close>, or \<open>None\<close> for the result \<open>false\<close>, and the queue.\<close>

definition byteQueue_readBytes :: "byteQueue \<Rightarrow> nat \<Rightarrow> bool \<Rightarrow> (block option \<times> byteQueue) option" where
  "byteQueue_readBytes q nMaxLengthToRead bPeek =
     (let nBytesWritten = byteQueue_getBytesReadable q;
          nBytesToRead = (if nBytesWritten < nMaxLengthToRead then nBytesWritten else nMaxLengthToRead)
      in if nBytesToRead = 0 then Some (None, q)
      else let (pRead, nReadBytes) = byteQueue_peekContiguousBytesRead q in do {
        pOutBytes \<leftarrow>
          (if nReadBytes \<ge> nBytesToRead
           then mem_load (bq_pBuffer q) pRead nBytesToRead
           else do {
             xs \<leftarrow> mem_load (bq_pBuffer q) pRead nReadBytes;
             ys \<leftarrow> mem_load (bq_pBuffer q) 0 (nBytesToRead - nReadBytes);
             Some (xs @ ys) });
        q \<leftarrow> (if \<not> bPeek then byteQueue_readOffset q nBytesToRead else Some q);
        Some (Some pOutBytes, q) })"

definition byteQueue_reset :: "byteQueue \<Rightarrow> byteQueue" where
  "byteQueue_reset q = q\<lparr>bq_nReadIndex := bq_nCapacity q, bq_nWriteIndex := 0\<rparr>"

definition byteQueue_reserve :: "byteQueue \<Rightarrow> nat \<Rightarrow> byteQueue option" where
  "byteQueue_reserve q nCapacity =
     (let nWritten = byteQueue_getBytesReadable q in
      if nWritten > nCapacity then Some q
      else do {
        q \<leftarrow> (if bq_nReadIndex q \<noteq> bq_nCapacity q
             then do {
               pBuffer \<leftarrow> byteQueue_copyReadable q (mem_malloc nCapacity);
               Some (q\<lparr>bq_nReadIndex := 0, bq_nWriteIndex := nWritten, bq_pBuffer := pBuffer\<rparr>) }
             else Some (q\<lparr>bq_pBuffer := mem_realloc (bq_pBuffer q) nCapacity,
                          bq_nReadIndex := nCapacity, bq_nWriteIndex := 0\<rparr>));
        Some (q\<lparr>bq_nCapacity := nCapacity\<rparr>) })"

definition byteQueue_swapToReset :: "byteQueue \<Rightarrow> byteQueue \<Rightarrow> byteQueue \<times> byteQueue" where
  "byteQueue_swapToReset q pRhs =
     (q\<lparr>bq_pBuffer := bq_pBuffer pRhs, bq_nReadIndex := bq_nReadIndex pRhs,
        bq_nWriteIndex := bq_nWriteIndex pRhs, bq_nCapacity := bq_nCapacity pRhs\<rparr>,
      pRhs\<lparr>bq_pBuffer := bq_pBuffer q, bq_nCapacity := bq_nCapacity q,
           bq_nReadIndex := bq_nCapacity q, bq_nWriteIndex := bq_nCapacity q\<rparr>)"

definition byteQueue_swapBuffer :: "byteQueue \<Rightarrow> block \<Rightarrow> nat \<Rightarrow> byteQueue \<times> block \<times> nat" where
  "byteQueue_swapBuffer q pBuffer nCapacity =
     (q\<lparr>bq_pBuffer := pBuffer, bq_nReadIndex := nCapacity, bq_nWriteIndex := nCapacity,
        bq_nCapacity := nCapacity\<rparr>,
      bq_pBuffer q, bq_nCapacity q)"

section \<open>The representation\<close>

text \<open>The cells that are readable, in reading order, and the well-formed states.\<close>

definition bq_cells :: "byteQueue \<Rightarrow> block" where
  "bq_cells q =
     (if bq_nWriteIndex q > bq_nReadIndex q
      then take (bq_nWriteIndex q - bq_nReadIndex q) (drop (bq_nReadIndex q) (bq_pBuffer q))
      else drop (bq_nReadIndex q) (bq_pBuffer q) @ take (bq_nWriteIndex q) (bq_pBuffer q))"

definition bq_shape :: "byteQueue \<Rightarrow> bool" where
  "bq_shape q \<longleftrightarrow>
     length (bq_pBuffer q) = bq_nCapacity q \<and> bq_nReadIndex q \<le> bq_nCapacity q \<and>
     bq_nWriteIndex q \<le> bq_nCapacity q \<and>
     (bq_nReadIndex q = bq_nCapacity q \<longrightarrow> bq_nWriteIndex q = 0)"

definition bq_rep :: "byteQueue \<Rightarrow> bytes \<Rightarrow> bool" where
  "bq_rep q xs \<longleftrightarrow> bq_shape q \<and> bq_cells q = map Some xs"

lemma length_bq_cells: "bq_shape q \<Longrightarrow> length (bq_cells q) = byteQueue_getBytesReadable q"
  by (auto simp: bq_shape_def bq_cells_def byteQueue_getBytesReadable_def)

lemma readable_writable:
  "bq_shape q \<Longrightarrow> byteQueue_getBytesReadable q + byteQueue_getBytesWritable q = bq_nCapacity q"
  by (auto simp: bq_shape_def byteQueue_getBytesReadable_def byteQueue_getBytesWritable_def)

lemma bq_empty_iff: "bq_shape q \<Longrightarrow> byteQueue_empty q \<longleftrightarrow> bq_cells q = []"
  by (auto simp: bq_shape_def byteQueue_empty_def bq_cells_def split: if_splits)

lemma copyReadable:
  assumes "bq_shape q" "byteQueue_getBytesReadable q \<le> length b"
  shows "byteQueue_copyReadable q b = Some (bq_cells q @ drop (byteQueue_getBytesReadable q) b)"
proof (cases "bq_nWriteIndex q > bq_nReadIndex q")
  case True
  then have "min (bq_nCapacity q - bq_nReadIndex q) (bq_nWriteIndex q - bq_nReadIndex q) =
      bq_nWriteIndex q - bq_nReadIndex q" using assms by (auto simp: bq_shape_def)
  with assms True show ?thesis
    by (simp add: byteQueue_copyReadable_def byteQueue_peekContiguousBytesRead_def bq_shape_def
        byteQueue_getBytesReadable_def bq_cells_def mem_simps Let_def)
next
  case False
  with assms show ?thesis
    by (auto simp add: byteQueue_copyReadable_def byteQueue_peekContiguousBytesRead_def bq_shape_def
        byteQueue_getBytesReadable_def bq_cells_def mem_simps Let_def)
qed

lemma regrow:
  assumes "bq_shape q" "bq_nCapacity q < n"
  shows "\<exists>q'. byteQueue_regrow q n = Some q' \<and> bq_shape q' \<and> bq_cells q' = bq_cells q \<and>
     bq_nCapacity q' = n"
proof -
  have r: "byteQueue_getBytesReadable q \<le> n"
    using readable_writable [OF assms(1)] assms(2) by linarith
  show ?thesis
  proof (cases "bq_nReadIndex q = bq_nCapacity q")
    case True
    with assms show ?thesis
      by (auto simp: byteQueue_regrow_def bq_shape_def bq_cells_def)
  next
    case False
    let ?n = "byteQueue_getBytesReadable q"
    have "?n = length (bq_cells q)" by (simp add: length_bq_cells assms)
    moreover have "0 < ?n" using assms False 
      by (auto simp: bq_shape_def byteQueue_getBytesReadable_def)
    ultimately show ?thesis using False assms r
      by (simp add: byteQueue_regrow_def copyReadable, simp add: bq_shape_def bq_cells_def)
  qed
qed

lemma first_alloc:
  "bq_shape q \<Longrightarrow> bq_nCapacity q = 0 \<Longrightarrow> 0 < n \<Longrightarrow> 
   bq_shape (byteQueue_first q n) \<and> bq_cells (byteQueue_first q n) = bq_cells q"
  by (auto simp: byteQueue_first_def bq_shape_def bq_cells_def)

lemma mod_add_wrap: "w \<le> (C::nat) \<Longrightarrow> n < C \<Longrightarrow> (w + n) mod C = (if w + n < C then w + n else w + n - C)"
  by (simp add: mod_if)

lemma put_fits_before:
  assumes "bq_shape q" "ys \<noteq> []" "bq_nWriteIndex q \<le> bq_nReadIndex q"
    "bq_nWriteIndex q + length ys \<le> bq_nReadIndex q"
  shows "\<exists>q'. byteQueue_put q ys = Some q' \<and> bq_shape q' \<and> bq_cells q' = bq_cells q @ map Some ys \<and>
    bq_nCapacity q' = bq_nCapacity q"
proof -
  let ?w = "bq_nWriteIndex q" and ?r = "bq_nReadIndex q" and ?C = "bq_nCapacity q" and ?n = "length ys"
  let ?b = "take ?w (bq_pBuffer q) @ map Some ys @ drop (?w + ?n) (bq_pBuffer q)"
  have n: "0 < ?n" using assms(2) by simp
  have C: "?w + ?n \<le> ?C" "0 < ?C" "?n \<le> ?r - ?w" using assms n unfolding bq_shape_def by linarith+
  have "byteQueue_put q ys = byteQueue_advance (q\<lparr>bq_pBuffer := ?b\<rparr>) ?n"
    using assms C by (simp add: byteQueue_put_def byteQueue_peekContiguousBytesWrite_def mem_simps
        bq_shape_def Let_def)
  then show ?thesis
    using assms n C unfolding bq_shape_def byteQueue_advance_def bq_cells_def
    by (cases "?r = ?C"; cases "?w + ?n = ?C") (auto simp: Let_def)
qed

lemma put_fits_after:
  assumes "bq_shape q" "ys \<noteq> []" "bq_nReadIndex q < bq_nWriteIndex q"
    "bq_nWriteIndex q + length ys \<le> bq_nCapacity q"
  shows "\<exists>q'. byteQueue_put q ys = Some q' \<and> bq_shape q' \<and> bq_cells q' = bq_cells q @ map Some ys \<and>
    bq_nCapacity q' = bq_nCapacity q"
proof -
  let ?w = "bq_nWriteIndex q" and ?r = "bq_nReadIndex q" and ?C = "bq_nCapacity q" and ?n = "length ys"
  let ?b = "take ?w (bq_pBuffer q) @ map Some ys @ drop (?w + ?n) (bq_pBuffer q)"
  have n: "0 < ?n" "?n \<le> ?C - ?w" using assms by auto
  have "byteQueue_put q ys = byteQueue_advance (q\<lparr>bq_pBuffer := ?b\<rparr>) ?n"
    using assms n by (simp add: byteQueue_put_def byteQueue_peekContiguousBytesWrite_def mem_simps
        bq_shape_def Let_def)
  then show ?thesis
    using assms n unfolding bq_shape_def byteQueue_advance_def bq_cells_def
    by (cases "?w + ?n = ?C") (auto simp: Let_def drop_take)
qed

lemma put_wraps:
  assumes "bq_shape q" "bq_nReadIndex q < bq_nWriteIndex q"
    "bq_nCapacity q < bq_nWriteIndex q + length ys"
    "bq_nWriteIndex q + length ys \<le> bq_nCapacity q + bq_nReadIndex q"
  shows "\<exists>q'. byteQueue_put q ys = Some q' \<and> bq_shape q' \<and> bq_cells q' = bq_cells q @ map Some ys \<and>
    bq_nCapacity q' = bq_nCapacity q"
proof -
  let ?w = "bq_nWriteIndex q" and ?r = "bq_nReadIndex q" and ?C = "bq_nCapacity q" and ?n = "length ys"
  let ?k = "?C - ?w"
  let ?b = "map Some (drop ?k ys) @ drop (?n - ?k) (take ?w (bq_pBuffer q) @ map Some (take ?k ys))"
  have C: "?k \<le> ?n" "?n - ?k \<le> ?r" "?w \<le> ?C" "length (bq_pBuffer q) = ?C" "?n - ?k \<le> ?w" "\<not> ?n \<le> ?k"
    using assms by (auto simp: bq_shape_def)
  have "byteQueue_put q ys = byteQueue_advance (q\<lparr>bq_pBuffer := ?b\<rparr>) ?n"
    using assms C by (simp add: byteQueue_put_def byteQueue_peekContiguousBytesWrite_def mem_simps
        bq_shape_def Let_def)
  moreover have "(?w + ?n) mod ?C = ?n - ?k"
  proof -
    have "?w + ?n = (?n - ?k) + ?C" "?n - ?k < ?C" using assms C by linarith+
    then show ?thesis by (metis mod_add_self2 mod_less)
  qed
  ultimately show ?thesis
    using assms C unfolding bq_shape_def byteQueue_advance_def bq_cells_def
    by (auto simp: Let_def map_append[symmetric] drop_take simp del: map_append)
qed

lemma put_appends:
  assumes "bq_shape q" "ys \<noteq> []" "length ys \<le> byteQueue_getBytesWritable q"
  shows "\<exists>q'. byteQueue_put q ys = Some q' \<and> bq_shape q' \<and> bq_cells q' = bq_cells q @ map Some ys \<and>
    bq_nCapacity q' = bq_nCapacity q"
proof (cases "bq_nWriteIndex q \<le> bq_nReadIndex q")
  case True
  then show ?thesis using assms put_fits_before [of q ys]
    by (simp add: byteQueue_getBytesWritable_def)
next
  case False
  then show ?thesis using assms put_fits_after [of q ys] put_wraps [of q ys]
    by (cases "bq_nWriteIndex q + length ys \<le> bq_nCapacity q")
      (auto simp: byteQueue_getBytesWritable_def bq_shape_def)
qed

text \<open>What a write leaves: the old bytes followed by the new ones.\<close>

definition bq_appended :: "byteQueue \<Rightarrow> bytes \<Rightarrow> byteQueue option \<Rightarrow> bool" where
  "bq_appended q ys r \<longleftrightarrow> (\<exists>q'. r = Some q' \<and> bq_shape q' \<and> bq_cells q' = bq_cells q @ map Some ys)"

lemma put_appended:
  "bq_shape q \<Longrightarrow> ys \<noteq> [] \<Longrightarrow> length ys \<le> byteQueue_getBytesWritable q \<Longrightarrow> bq_cells q = bq_cells q0 \<Longrightarrow>
    bq_appended q0 ys (byteQueue_put q ys)"
  using put_appends unfolding bq_appended_def by fastforce

lemma first_writable:
  "bq_shape q \<Longrightarrow> bq_nCapacity q = 0 \<Longrightarrow> byteQueue_getBytesWritable (byteQueue_first q n) = n"
  by (simp add: byteQueue_first_def bq_shape_def byteQueue_getBytesWritable_def)

lemma regrow_put:
  assumes "bq_shape q" "ys \<noteq> []" "bq_nCapacity q + (length ys - byteQueue_getBytesWritable q) \<le> n"
    "byteQueue_getBytesWritable q < length ys"
  shows "bq_appended q ys (byteQueue_regrow q n \<bind> (\<lambda>q. byteQueue_put q ys))"
proof -
  have "bq_nCapacity q < n" using assms by linarith
  with regrow [OF assms(1)] obtain q' where q': "byteQueue_regrow q n = Some q'" "bq_shape q'"
    "bq_cells q' = bq_cells q" "bq_nCapacity q' = n" by blast
  have "byteQueue_getBytesReadable q' = byteQueue_getBytesReadable q"
    using q' assms(1) by (metis length_bq_cells)
  with readable_writable [OF q'(2)] readable_writable [OF assms(1)] assms q'
  have "length ys \<le> byteQueue_getBytesWritable q'" by linarith
  with q' assms show ?thesis by (simp add: put_appended)
qed

lemma write_appended:
  assumes "bq_shape q" "ys \<noteq> []"
  shows "bq_appended q ys (byteQueue_write q ys)"
proof (cases "bq_nCapacity q = 0")
  case True
  then show ?thesis using assms first_alloc [of q "align_size (length ys) 256"] 
    by (simp add: byteQueue_write_def put_appended first_writable align_size_ge align_size_pos Let_def)
next
  case False
  define n where "n = align_size (2 * bq_nCapacity q + (length ys - byteQueue_getBytesWritable q)) 256"
  have "bq_nCapacity q + (length ys - byteQueue_getBytesWritable q) \<le> n"
    using align_size_ge [of 256 "2 * bq_nCapacity q + (length ys - byteQueue_getBytesWritable q)"]
    by (simp add: n_def)
  then show ?thesis
    using False assms regrow_put [OF assms, of n] put_appended [of q ys q]
    unfolding byteQueue_write_def Let_def n_def [symmetric] by simp
qed

lemma writeBytes_appended:
  assumes "bq_shape q" "ys \<noteq> []"
  shows "bq_appended q ys (byteQueue_writeBytes q ys)"
  using assms first_alloc [of q "length ys"] regrow_put [OF assms] 
  by (simp add: byteQueue_writeBytes_def put_appended first_writable Let_def)

lemma put_single: 
  "bq_shape q \<Longrightarrow> 0 < byteQueue_getBytesWritable q \<Longrightarrow> bq_nWriteIndex q < bq_nCapacity q \<Longrightarrow> 
    mem_store (bq_pBuffer q) (bq_nWriteIndex q) [Some c] \<bind> (\<lambda>b. byteQueue_advance (q\<lparr>bq_pBuffer := b\<rparr>) 1)
    = byteQueue_put q [c]"
  by (auto simp: byteQueue_put_def byteQueue_peekContiguousBytesWrite_def Let_def bq_shape_def 
    byteQueue_getBytesWritable_def split: if_splits)

lemma writeChar_appended:
  assumes "bq_shape q" "bq_nWriteIndex q < bq_nCapacity q \<or> byteQueue_getBytesWritable q = 0"
  shows "bq_appended q [c] (byteQueue_writeChar q c)"
proof -
  have eq: "mem_store (bq_pBuffer q') (bq_nWriteIndex q') [Some c] \<bind> (\<lambda>b. byteQueue_advance (q'\<lparr>bq_pBuffer := b\<rparr>) 1)
    = byteQueue_put q' [c]" if "bq_shape q'" "0 < byteQueue_getBytesWritable q'" "bq_nWriteIndex q' < bq_nCapacity q'" for q'
    using that by (rule put_single)
  show ?thesis
  proof (cases "bq_nCapacity q = 0")
    case True
    have "bq_nWriteIndex (byteQueue_first q 256) < bq_nCapacity (byteQueue_first q 256)"
      using True assms by (simp add: byteQueue_first_def bq_shape_def)
    with True assms first_alloc [OF assms(1), of 256] first_writable [OF assms(1), of 256]
      eq [of "byteQueue_first q 256"] show ?thesis 
      by (simp add: byteQueue_writeChar_def put_appended Let_def)
  next
    case False
    show ?thesis
    proof (cases "byteQueue_getBytesWritable q = 0")
      case nw: True
      define n where "n = align_size (2 * bq_nCapacity q + 1) 256"
      have n: "bq_nCapacity q < n"
        using align_size_ge [of 256 "2 * bq_nCapacity q + 1"] by (simp add: n_def)
      with regrow [OF assms(1)] obtain q' where q': "byteQueue_regrow q n = Some q'" "bq_shape q'"
        "bq_cells q' = bq_cells q" "bq_nCapacity q' = n" by blast
      have "byteQueue_getBytesReadable q' = byteQueue_getBytesReadable q"
        using q' assms(1) by (metis length_bq_cells)
      then have w: "0 < byteQueue_getBytesWritable q'"
        using readable_writable [OF q'(2)] readable_writable [OF assms(1)] n q' nw by linarith
      have "bq_nWriteIndex q' = 0 \<or> bq_nWriteIndex q' = byteQueue_getBytesReadable q"
        using q'(1) by (auto simp: byteQueue_regrow_def Let_def bind_eq_Some_conv split: if_splits)
      then have "bq_nWriteIndex q' < bq_nCapacity q'"
        using readable_writable [OF assms(1)] n q' nw by linarith
      with q' w eq [of q'] nw False show ?thesis
        unfolding byteQueue_writeChar_def Let_def n_def [symmetric] 
        by (simp add: put_appended)
    next
      case nw: False
      with assms False eq [of q] show ?thesis
        by (simp add: byteQueue_writeChar_def put_appended)
    qed
  qed
qed

lemma readOffset_cells:
  assumes "bq_shape q" "n \<le> byteQueue_getBytesReadable q"
  shows "\<exists>q'. byteQueue_readOffset q n = Some q' \<and> bq_shape q' \<and> bq_cells q' = drop n (bq_cells q) \<and>
    bq_nCapacity q' = bq_nCapacity q \<and> bq_nWriteIndex q' \<in> {0, bq_nWriteIndex q}"
proof (cases "byteQueue_getBytesReadable q = n")
  case True
  with assms length_bq_cells [OF assms(1)] show ?thesis
    by (auto simp: byteQueue_readOffset_def bq_shape_def bq_cells_def)
next
  case False
  with assms have n: "n < byteQueue_getBytesReadable q" by simp
  then have c: "0 < bq_nCapacity q" using readable_writable [OF assms(1)] by linarith
  let ?r = "(bq_nReadIndex q + n) mod bq_nCapacity q"
  have eq: "byteQueue_readOffset q n = Some (q\<lparr>bq_nReadIndex := ?r\<rparr>)"
    using n c by (simp add: byteQueue_readOffset_def)
  have lt: "?r < bq_nCapacity q" using c by simp
  have l: "length (bq_pBuffer q) = bq_nCapacity q" using assms by (simp add: bq_shape_def)
  have "bq_cells (q\<lparr>bq_nReadIndex := ?r\<rparr>) = drop n (bq_cells q)"
  proof (cases "bq_nReadIndex q < bq_nWriteIndex q")
    case True
    then have "?r = bq_nReadIndex q + n" "bq_nReadIndex q + n < bq_nWriteIndex q" 
      using n assms by (auto simp: bq_shape_def byteQueue_getBytesReadable_def)
    with True show ?thesis
      by (simp add: bq_cells_def drop_take add.commute)
  next
    case False
    show ?thesis
    proof (cases "bq_nReadIndex q + n < bq_nCapacity q")
      case True
      with False l show ?thesis by (simp add: bq_cells_def add.commute)
    next
      case wrap: False
      have k: "bq_nReadIndex q + n = (bq_nReadIndex q + n - bq_nCapacity q) + bq_nCapacity q" 
        "bq_nReadIndex q + n - bq_nCapacity q < bq_nWriteIndex q"
        using wrap False n assms unfolding bq_shape_def byteQueue_getBytesReadable_def by auto
      then have "?r = bq_nReadIndex q + n - bq_nCapacity q"
        using assms by (metis bq_shape_def le_trans mod_add_self2 mod_less nless_le not_le False)
      moreover have "n - (bq_nCapacity q - bq_nReadIndex q) = bq_nReadIndex q + n - bq_nCapacity q"
        "bq_nWriteIndex q + (bq_nCapacity q - bq_nReadIndex q) - n =
         bq_nWriteIndex q - (bq_nReadIndex q + n - bq_nCapacity q)"
        "bq_nCapacity q - bq_nReadIndex q \<le> n"
        using assms wrap unfolding bq_shape_def by linarith+
      ultimately show ?thesis using False l k(2)
        by (simp add: bq_cells_def drop_take)
    qed
  qed
  with eq assms lt show ?thesis by (auto simp: bq_shape_def)
qed

lemma peek_cells:
  assumes "bq_shape q" "byteQueue_getBytesReadable q = m"
  shows "byteQueue_readBytes q n b = 
    (if min n m = 0 then Some (None, q)
     else (if b then Some q else byteQueue_readOffset q (min n m)) \<bind>
       (\<lambda>q'. Some (Some (take (min n m) (bq_cells q)), q')))"
proof -
  have m: "(if m < n then m else n) = min n m" by simp
  have l: "length (bq_pBuffer q) = bq_nCapacity q" "bq_nReadIndex q \<le> bq_nCapacity q"
    "bq_nWriteIndex q \<le> bq_nCapacity q" using assms by (auto simp: bq_shape_def)
  show ?thesis
  proof (cases "bq_nReadIndex q < bq_nWriteIndex q")
    case True
    then have "bq_nWriteIndex q - bq_nReadIndex q = m" using assms(2) by (simp add: byteQueue_getBytesReadable_def)
    with True l assms(2) show ?thesis
      by (auto simp: byteQueue_readBytes_def Let_def m byteQueue_peekContiguousBytesRead_def mem_simps bq_cells_def min_def)
  next
    case False
    then have "bq_nWriteIndex q + (bq_nCapacity q - bq_nReadIndex q) = m" using assms(2) by (simp add: byteQueue_getBytesReadable_def)
    with False l assms(2) show ?thesis
      by (auto simp: byteQueue_readBytes_def Let_def byteQueue_peekContiguousBytesRead_def mem_simps bq_cells_def min_def)
  qed
qed

lemma readBytes_cells:
  assumes "bq_shape q" "bq_cells q \<noteq> []" "0 < n"
  shows "\<exists>q'. byteQueue_readBytes q n b = Some (Some (take n (bq_cells q)), q') \<and> bq_shape q' \<and>
     bq_cells q' = (if b then bq_cells q else drop n (bq_cells q)) \<and> bq_nCapacity q' = bq_nCapacity q \<and>
     bq_nWriteIndex q' \<in> {0, bq_nWriteIndex q}"
proof -
  let ?m = "byteQueue_getBytesReadable q"
  have l: "length (bq_cells q) = ?m" using assms length_bq_cells by blast
  with assms have z: "0 < n \<and> 0 < ?m" by (metis length_greater_0_conv)
  have t: "take (min n ?m) (bq_cells q) = take n (bq_cells q)" "drop (min n ?m) (bq_cells q) = drop n (bq_cells q)"
    using l by (simp_all add: min_def)
  show ?thesis
  proof (cases b)
    case True
    with z t assms show ?thesis by (simp add: peek_cells [OF assms(1) refl])
  next
    case False
    from readOffset_cells [OF assms(1), of "min n ?m"] obtain q' where 
      "byteQueue_readOffset q (min n ?m) = Some q'" "bq_shape q'" "bq_cells q' = drop (min n ?m) (bq_cells q)"
      "bq_nCapacity q' = bq_nCapacity q" "bq_nWriteIndex q' \<in> {0, bq_nWriteIndex q}" by auto
    with False z t assms show ?thesis by (simp add: peek_cells [OF assms(1) refl])
  qed
qed

lemma readBytes_none:
  assumes "bq_shape q" "bq_cells q = [] \<or> n = 0"
  shows "byteQueue_readBytes q n b = Some (None, q)"
proof -
  have "min n (byteQueue_getBytesReadable q) = 0"
    using assms length_bq_cells [OF assms(1)] by auto
  then show ?thesis by (simp add: peek_cells [OF assms(1) refl])
qed

lemma reserve_cells:
  assumes "bq_shape q"
  shows "\<exists>q'. byteQueue_reserve q n = Some q' \<and> bq_shape q' \<and> bq_cells q' = bq_cells q \<and>
    bq_nCapacity q' = (if length (bq_cells q) \<le> n then n else bq_nCapacity q)"
proof (cases "byteQueue_getBytesReadable q > n")
  case True
  with assms show ?thesis by (simp add: byteQueue_reserve_def length_bq_cells)
next
  case False
  then have le: "length (bq_cells q) \<le> n" using assms length_bq_cells by simp
  show ?thesis
  proof (cases "bq_nReadIndex q = bq_nCapacity q")
    case True
    with False assms le show ?thesis
      by (auto simp: byteQueue_reserve_def bq_shape_def bq_cells_def byteQueue_getBytesReadable_def)
  next
    case ne: False
    let ?m = "byteQueue_getBytesReadable q"
    let ?q = "q\<lparr>bq_nReadIndex := 0, bq_nWriteIndex := ?m,
      bq_pBuffer := bq_cells q @ drop ?m (mem_malloc n), bq_nCapacity := n\<rparr>"
    have m: "0 < ?m" using assms ne by (auto simp: bq_shape_def byteQueue_getBytesReadable_def)
    have l: "length (bq_cells q) = ?m" using assms by (rule length_bq_cells)
    have "byteQueue_reserve q n = Some ?q"
      using ne False assms by (simp add: byteQueue_reserve_def copyReadable Let_def)
    moreover have "bq_shape ?q" using m l le by (simp add: bq_shape_def)
    moreover have "bq_cells ?q = bq_cells q" by (subst bq_cells_def) (use m l in simp)
    ultimately show ?thesis using le by simp
  qed
qed

lemma reset_cells: "bq_shape q \<Longrightarrow> bq_shape (byteQueue_reset q) \<and> bq_cells (byteQueue_reset q) = []"
  by (simp add: byteQueue_reset_def bq_shape_def bq_cells_def)

lemma clear_cells: "bq_shape (byteQueue_clear q) \<and> bq_cells (byteQueue_clear q) = []"
  by (simp add: byteQueue_clear_def bq_shape_def bq_cells_def)

lemma init_cells: "bq_shape (byteQueue_init n) \<and> bq_cells (byteQueue_init n) = []"
  by (simp add: byteQueue_init_def bq_shape_def bq_cells_def)

section \<open>Refinement to a FIFO of bytes\<close>

text \<open>
  The write index reaches the capacity only after \<open>byteQueue_reserve\<close> to exactly the number of
  readable bytes.  The other states are the strict ones.
\<close>

definition bq_strict :: "byteQueue \<Rightarrow> bool" where
  "bq_strict q \<longleftrightarrow> bq_nWriteIndex q < bq_nCapacity q \<or> bq_nCapacity q = 0"

lemma advance_strict: "byteQueue_advance q n = Some q' \<Longrightarrow> bq_strict q'"
  by (auto simp: byteQueue_advance_def bq_strict_def Let_def bind_eq_Some_conv split: if_splits)

lemma put_strict: "byteQueue_put q ys = Some q' \<Longrightarrow> bq_strict q'"
  by (auto simp: byteQueue_put_def Let_def bind_eq_Some_conv split: prod.splits dest: advance_strict)

lemma write_strict:
  "byteQueue_write q ys = Some q' \<Longrightarrow> bq_strict q'"
  "byteQueue_writeBytes q ys = Some q' \<Longrightarrow> bq_strict q'"
  "byteQueue_writeChar q c = Some q' \<Longrightarrow> bq_strict q'"
  by (auto simp: byteQueue_write_def byteQueue_writeBytes_def byteQueue_writeChar_def Let_def
      bind_eq_Some_conv dest: put_strict advance_strict)

lemma reserve_strict:
  assumes "bq_shape q" "bq_strict q" "bq_cells q = [] \<or> length (bq_cells q) \<noteq> n"
    "byteQueue_reserve q n = Some q'"
  shows "bq_strict q'"
proof -
  have l: "length (bq_cells q) = byteQueue_getBytesReadable q" using assms by (simp add: length_bq_cells)
  have "bq_cells q = [] \<Longrightarrow> bq_nReadIndex q = bq_nCapacity q" 
    using assms(1) by (auto simp: bq_cells_def bq_shape_def split: if_splits)
  with l assms show ?thesis
    by (auto simp: byteQueue_reserve_def bq_strict_def Let_def bind_eq_Some_conv split: if_splits)
qed

datatype bq_op =
    BqWrite bytes | BqWriteBytes bytes | BqWriteChar u8
  | BqReadBytes nat bool | BqReadOffset nat | BqReserve nat | BqReset | BqClear

text \<open>A step of the queue, with what \<open>readBytes\<close> copied out as its result.\<close>

fun bq_step :: "byteQueue \<Rightarrow> bq_op \<Rightarrow> (block option \<times> byteQueue) option" where
  "bq_step q (BqWrite ys) = map_option (Pair None) (byteQueue_write q ys)"
| "bq_step q (BqWriteBytes ys) = map_option (Pair None) (byteQueue_writeBytes q ys)"
| "bq_step q (BqWriteChar c) = map_option (Pair None) (byteQueue_writeChar q c)"
| "bq_step q (BqReadBytes n b) = byteQueue_readBytes q n b"
| "bq_step q (BqReadOffset n) = map_option (Pair None) (byteQueue_readOffset q n)"
| "bq_step q (BqReserve n) = map_option (Pair None) (byteQueue_reserve q n)"
| "bq_step q BqReset = Some (None, byteQueue_reset q)"
| "bq_step q BqClear = Some (None, byteQueue_clear q)"

text \<open>
  The specification: a byte string.  A step is defined when the caller keeps to the contract of the
  operation (the \<open>assert\<close>s of the code, and no \<open>reserve\<close> to exactly the readable length).
\<close>

fun fifo_step :: "bytes \<Rightarrow> bq_op \<Rightarrow> (bytes option \<times> bytes) option" where
  "fifo_step xs (BqWrite ys) = (if ys = [] then None else Some (None, xs @ ys))"
| "fifo_step xs (BqWriteBytes ys) = (if ys = [] then None else Some (None, xs @ ys))"
| "fifo_step xs (BqWriteChar c) = Some (None, xs @ [c])"
| "fifo_step xs (BqReadBytes n b) =
     (if xs = [] \<or> n = 0 then Some (None, xs)
      else Some (Some (take n xs), if b then xs else drop n xs))"
| "fifo_step xs (BqReadOffset n) = (if n \<le> length xs then Some (None, drop n xs) else None)"
| "fifo_step xs (BqReserve n) = (if xs \<noteq> [] \<and> n = length xs then None else Some (None, xs))"
| "fifo_step xs BqReset = Some (None, [])"
| "fifo_step xs BqClear = Some (None, [])"

definition bq_fifo :: "byteQueue \<Rightarrow> bytes \<Rightarrow> bool" where
  "bq_fifo q xs \<longleftrightarrow> bq_rep q xs \<and> bq_strict q"

lemma bq_fifoE [elim]:
  "bq_fifo q xs \<Longrightarrow> (bq_shape q \<Longrightarrow> bq_cells q = map Some xs \<Longrightarrow> bq_strict q \<Longrightarrow> thesis) \<Longrightarrow> thesis"
  by (simp add: bq_fifo_def bq_rep_def)

lemma appended_fifo:
  assumes "bq_appended q ys r" "bq_fifo q xs" "\<And>q'. r = Some q' \<Longrightarrow> bq_strict q'"
  shows "\<exists>q'. r = Some q' \<and> bq_fifo q' (xs @ ys)"
  using assms by (auto simp: bq_appended_def bq_fifo_def bq_rep_def)

lemma writable_or_full: "bq_strict q \<Longrightarrow> bq_shape q \<Longrightarrow>
    bq_nWriteIndex q < bq_nCapacity q \<or> byteQueue_getBytesWritable q = 0"
  by (auto simp: bq_strict_def bq_shape_def byteQueue_getBytesWritable_def)

lemma fifo_step_sim:
  assumes f: "bq_fifo q xs" and s: "fifo_step xs op = Some (r, xs')"
  shows "\<exists>q'. bq_step q op = Some (map_option (map Some) r, q') \<and> bq_fifo q' xs'"
proof -
  from f have q: "bq_shape q" "bq_cells q = map Some xs" "bq_strict q" by auto
  show ?thesis
  proof (cases op)
    case (BqWrite ys)
    with s q show ?thesis
      using appended_fifo [OF write_appended f write_strict(1)] by (auto split: if_splits)
  next
    case (BqWriteBytes ys)
    with s q show ?thesis
      using appended_fifo [OF writeBytes_appended f write_strict(2)] by (auto split: if_splits)
  next
    case (BqWriteChar c)
    with s q show ?thesis
      using appended_fifo [OF writeChar_appended f write_strict(3)] writable_or_full by auto
  next
    case (BqReadBytes n b)
    with s q show ?thesis
      using readBytes_cells [OF q(1), of n b] readBytes_none [OF q(1), of n b]
      by (auto simp: bq_fifo_def bq_rep_def take_map drop_map bq_strict_def split: if_splits)
  next
    case (BqReadOffset n)
    with s q show ?thesis
      using readOffset_cells [OF q(1), of n] length_bq_cells [OF q(1)]
      by (auto simp: bq_fifo_def bq_rep_def drop_map bq_strict_def split: if_splits)
  next
    case (BqReserve n)
    with s q show ?thesis
      using reserve_cells [OF q(1), of n] reserve_strict [OF q(1) q(3), of n]
      by (auto simp: bq_fifo_def bq_rep_def split: if_splits)
  next
    case BqReset
    with s q show ?thesis
      using reset_cells [OF q(1)] by (auto simp: bq_fifo_def bq_rep_def bq_strict_def byteQueue_reset_def)
  next
    case BqClear
    with s q show ?thesis
      using clear_cells [of q] by (auto simp: bq_fifo_def bq_rep_def bq_strict_def byteQueue_clear_def)
  qed
qed

interpretation bq: op_refinement bq_step fifo_step bq_fifo "map_option (map Some)"
  by unfold_locales (rule fifo_step_sim)

lemma init_fifo: "bq_fifo (byteQueue_init n) []"
  using init_cells [of n] by (auto simp: bq_fifo_def bq_rep_def bq_strict_def byteQueue_init_def)

lemma fifo_counts:
  "bq_fifo q xs \<Longrightarrow> byteQueue_getBytesReadable q = length xs \<and>
    byteQueue_getBytesWritable q = byteQueue_getCapacity q - length xs \<and> (byteQueue_empty q \<longleftrightarrow> xs = [])"
  using length_bq_cells [of q] readable_writable [of q] bq_empty_iff [of q]
  by (auto simp: byteQueue_getCapacity_def)

lemma reserve_exact:
  assumes "bq_rep q xs" "xs \<noteq> []"
  obtains b where "byteQueue_reserve q (length xs) = Some (q\<lparr>bq_nReadIndex := 0, 
    bq_nWriteIndex := length xs, bq_pBuffer := b, bq_nCapacity := length xs\<rparr>)" "length b = length xs"
proof -
  from assms have q: "bq_shape q" "bq_cells q = map Some xs" by (auto simp: bq_rep_def)
  have l: "byteQueue_getBytesReadable q = length xs" using length_bq_cells [OF q(1)] q by simp
  have "bq_nReadIndex q \<noteq> bq_nCapacity q" using bq_empty_iff [OF q(1)] q assms(2)
    by (simp add: byteQueue_empty_def)
  with q l that show ?thesis by (simp add: byteQueue_reserve_def copyReadable Let_def)
qed

text \<open>The queue as a source of bytes.\<close>

lemma bq_repD: "bq_rep q xs \<Longrightarrow> bq_shape q \<and> bq_cells q = map Some xs"
  by (simp add: bq_rep_def)

interpretation bq_source: byte_source bq_rep byteQueue_readBytes
proof
  fix q xs and n :: nat and b
  assume r: "bq_rep q xs"
  note q = bq_repD [OF r]
  show "byteQueue_readBytes q n True = Some (Some (map Some (take n xs)), q)" if "xs \<noteq> []" "0 < n"
  proof -
    have l: "byteQueue_getBytesReadable q = length xs" using q length_bq_cells [of q] by simp
    with q that have "min n (length xs) \<noteq> 0" "take (min n (length xs)) (bq_cells q) = map Some (take n xs)"
      by (simp_all add: take_map min_def)
    then show ?thesis by (simp add: peek_cells [OF _ l] q)
  qed
  show "\<exists>s'. byteQueue_readBytes q n False = Some (Some (map Some (take n xs)), s') \<and> bq_rep s' (drop n xs)"
    if "xs \<noteq> []" "0 < n"
    using readBytes_cells [of q n False] q that by (auto simp: bq_rep_def take_map drop_map)
  show "byteQueue_readBytes q n b = Some (None, q)" if "xs = [] \<or> n = 0"
    using readBytes_none [of q n b] q that by auto
qed

lemma rep_readable: "bq_rep q xs \<Longrightarrow> byteQueue_getBytesReadable q = length xs"
  using length_bq_cells [of q] by (simp add: bq_rep_def)

lemma rep_readOffset:
  "bq_rep q xs \<Longrightarrow> n \<le> length xs \<Longrightarrow> \<exists>q'. byteQueue_readOffset q n = Some q' \<and> bq_rep q' (drop n xs)"
  using readOffset_cells [of q n] rep_readable [of q xs] by (auto simp: bq_rep_def drop_map)

lemma rep_write:
  "bq_rep q xs \<Longrightarrow> ys \<noteq> [] \<Longrightarrow> \<exists>q'. byteQueue_write q ys = Some q' \<and> bq_rep q' (xs @ ys)"
  using write_appended [of q ys] by (auto simp: bq_appended_def bq_rep_def)

section \<open>Properties\<close>

text \<open>C12: Any sequence of \<open>write\<close>, \<open>writeBytes\<close>, \<open>writeChar\<close>, \<open>readBytes\<close>, \<open>readOffset\<close>,
  \<open>reserve\<close>, \<open>reset\<close> and \<open>clear\<close> on a fresh queue of any capacity that keeps to the callers'
  contract runs without leaving its memory and without an uninitialised byte coming out: what it
  reads is what a FIFO of bytes yields, and the counts of readable and writable bytes agree with it.\<close>

theorem byteQueue_refines_fifo:
  assumes "run_ops fifo_step [] ops = Some (rs, xs)"
  shows "\<exists>q. run_ops bq_step (byteQueue_init nCapacity) ops = Some (map (map_option (map Some)) rs, q) \<and>
    byteQueue_getBytesReadable q = length xs \<and>
    byteQueue_getBytesWritable q = byteQueue_getCapacity q - length xs \<and>
    (byteQueue_empty q \<longleftrightarrow> xs = []) \<and> bq_cells q = map Some xs"
  using bq.run_sim [OF init_fifo assms, of nCapacity] fifo_counts by blast

lemma byteQueue_refines_fifo_witness:
  "\<exists>q. run_ops bq_step (byteQueue_init 4)
      [BqWriteBytes [1, 2, 3], BqReadBytes 2 False, BqWriteBytes [4, 5], BqReserve 9, BqWriteChar 6, BqReadBytes 8 False] =
     Some (map (map_option (map Some)) [None, Some [1, 2], None, None, None, Some [3, 4, 5, 6]], q) \<and>
    byteQueue_getBytesReadable q = length ([] :: bytes) \<and>
    byteQueue_getBytesWritable q = byteQueue_getCapacity q - length ([] :: bytes) \<and>
    (byteQueue_empty q \<longleftrightarrow> ([] :: bytes) = []) \<and> bq_cells q = map Some []"
  by (rule byteQueue_refines_fifo) simp

text \<open>After a \<open>reserve\<close> to exactly the number of readable bytes and a partial read, \<open>writeChar\<close>
  stores its byte one past the end of the buffer: the write index is then the capacity, and
  \<open>writeChar\<close>, unlike the block writes, does not wrap it before the store.\<close>

theorem writeChar_after_exact_reserve_overflows:
  assumes "bq_rep q xs" "0 < k" "k < length xs"
  shows "(byteQueue_reserve q (length xs) \<bind> (\<lambda>q. byteQueue_readOffset q k)) \<noteq> None \<and>
    (byteQueue_reserve q (length xs) \<bind> (\<lambda>q. byteQueue_readOffset q k) \<bind> (\<lambda>q. byteQueue_writeChar q c)) = None"
proof -
  from assms have "xs \<noteq> []" by auto
  from reserve_exact [OF assms(1) this] obtain b where 
    "byteQueue_reserve q (length xs) = Some (q\<lparr>bq_nReadIndex := 0, bq_nWriteIndex := length xs,
       bq_pBuffer := b, bq_nCapacity := length xs\<rparr>)" "length b = length xs" .
  with assms show ?thesis
    by (auto simp: byteQueue_readOffset_def byteQueue_getBytesReadable_def byteQueue_writeChar_def
        byteQueue_getBytesWritable_def mem_store_def Let_def)
qed

lemma writeChar_after_exact_reserve_overflows_witness:
  "\<exists>q. byteQueue_write (byteQueue_init 0) [7, 8, 9] = Some q \<and>
     (byteQueue_reserve q (length [7, 8, 9 :: u8]) \<bind> (\<lambda>q. byteQueue_readOffset q 1) \<bind> (\<lambda>q. byteQueue_writeChar q 5)) = None"
proof -
  obtain q where q: "byteQueue_write (byteQueue_init 0) [7, 8, 9] = Some q" "bq_rep q [7, 8, 9]"
    using write_appended [of "byteQueue_init 0" "[7, 8, 9]"] init_cells [of 0]
    by (auto simp: bq_appended_def bq_rep_def)
  with writeChar_after_exact_reserve_overflows [OF q(2), of 1 5] show ?thesis by fastforce
qed

text \<open>\<open>swapBuffer\<close> (and the right-hand side of \<open>swapToReset\<close>) leaves both indices at the capacity:
  the queue then calls itself empty while it reports the whole buffer, whatever its cells hold, as
  readable and nothing as writable.\<close>

theorem swapBuffer_inconsistent:
  "byteQueue_swapBuffer q pBuffer nCapacity = (q', pOld, nOld) \<Longrightarrow>
    byteQueue_empty q' \<and> byteQueue_getBytesReadable q' = nCapacity \<and> byteQueue_getBytesWritable q' = 0 \<and>
    pOld = bq_pBuffer q \<and> nOld = bq_nCapacity q"
  by (auto simp: byteQueue_swapBuffer_def byteQueue_empty_def byteQueue_getBytesReadable_def
      byteQueue_getBytesWritable_def)

lemma swapBuffer_inconsistent_witness:
  "\<exists>q' pOld nOld. byteQueue_swapBuffer (byteQueue_init 2) [Some 1, None, None] 3 = (q', pOld, nOld) \<and>
     byteQueue_empty q' \<and> byteQueue_getBytesReadable q' = 3 \<and> bq_cells q' = [Some 1, None, None]"
proof -
  obtain q' pOld nOld where e: "byteQueue_swapBuffer (byteQueue_init 2) [Some 1, None, None] 3 = (q', pOld, nOld)"
    by (metis prod_cases3)
  with swapBuffer_inconsistent [OF e] show ?thesis
    by (auto simp: byteQueue_swapBuffer_def bq_cells_def)
qed

end
