(* ===== verification/Buffers.thy ===== *)
theory Buffers
  imports Interfaces
begin

text \<open>
  The small buffer types of the core library: \<open>slice_t.h\<close> (a view of bytes that is consumed from the
  front) and \<open>cbuf_t.h\<close> (an owned buffer).  The data pointer of a slice is modelled by the bytes it
  points to, of which the first \<open>nLength\<close> are the slice's own; a null pointer is the empty list.
\<close>

section \<open>Slices\<close>

record slice =
  sl_szData :: bytes
  sl_nLength :: nat

definition slice_clear :: "slice \<Rightarrow> slice" where
  "slice_clear s = s\<lparr>sl_szData := [], sl_nLength := 0\<rparr>"

definition slice_set :: "slice \<Rightarrow> bytes \<Rightarrow> nat \<Rightarrow> slice" where
  "slice_set s szData n = s\<lparr>sl_szData := szData, sl_nLength := n\<rparr>"

definition slice_getData :: "slice \<Rightarrow> bytes" where "slice_getData s = sl_szData s"

definition slice_getLength :: "slice \<Rightarrow> nat" where "slice_getLength s = sl_nLength s"

definition slice_empty :: "slice \<Rightarrow> bool" where "slice_empty s = (sl_nLength s = 0)"

text \<open>\<open>memcmp\<close> of the C library on \<open>n\<close> bytes: the sign of the first difference.\<close>

fun memcmp :: "bytes \<Rightarrow> bytes \<Rightarrow> nat \<Rightarrow> int option" where
  "memcmp xs ys 0 = Some 0"
| "memcmp (x # xs) (y # ys) (Suc n) = (if x = y then memcmp xs ys n else if x < y then Some (-1) else Some 1)"
| "memcmp _ _ (Suc n) = None"

definition slice_compare :: "slice \<Rightarrow> slice \<Rightarrow> int option" where
  "slice_compare s p = do {
     let nMinLen = (if sl_nLength s < sl_nLength p then sl_nLength s else sl_nLength p);
     r \<leftarrow> memcmp (sl_szData s) (sl_szData p) nMinLen;
     Some (if r = 0
           then if sl_nLength s < sl_nLength p then -1
                else if sl_nLength s > sl_nLength p then 1 else r
           else r) }"

definition slice_toString :: "slice \<Rightarrow> block option option" where
  "slice_toString s =
     (if sl_nLength s > 0 then do {
        xs \<leftarrow> mem_load (map Some (sl_szData s)) 0 (sl_nLength s);
        p \<leftarrow> mem_store (mem_malloc (sl_nLength s)) 0 xs;
        Some (Some p) }
      else Some None)"

definition slice_removeSuffix :: "slice \<Rightarrow> nat \<Rightarrow> slice option" where
  "slice_removeSuffix s n = do {
     guard (n \<le> sl_nLength s);
     Some (s\<lparr>sl_nLength := sl_nLength s - n\<rparr>) }"

definition slice_readOffset :: "slice \<Rightarrow> nat \<Rightarrow> slice option" where
  "slice_readOffset s n = do {
     guard (n \<le> sl_nLength s);
     Some (s\<lparr>sl_szData := drop n (sl_szData s), sl_nLength := sl_nLength s - n\<rparr>) }"

text \<open>As \<open>byteQueue_readBytes\<close>: the bytes copied out, or \<open>None\<close> for \<open>false\<close>, and the slice.\<close>

definition slice_readBytes :: "slice \<Rightarrow> nat \<Rightarrow> bool \<Rightarrow> (block option \<times> slice) option" where
  "slice_readBytes s nMaxLengthToRead bPeek =
     (let nBytesToRead = (if sl_nLength s < nMaxLengthToRead then sl_nLength s else nMaxLengthToRead)
      in if nBytesToRead = 0 then Some (None, s)
      else do {
        xs \<leftarrow> mem_load (map Some (sl_szData s)) 0 nBytesToRead;
        Some (Some xs,
          if \<not> bPeek
          then s\<lparr>sl_szData := drop nBytesToRead (sl_szData s), sl_nLength := sl_nLength s - nBytesToRead\<rparr>
          else s) })"

section \<open>Owned buffers\<close>

record cbuf =
  cb_pBuffer :: block
  cb_nLength :: nat

definition cbuf_init :: "nat \<Rightarrow> cbuf" where
  "cbuf_init nLength =
     \<lparr>cb_pBuffer = (if nLength \<noteq> 0 then mem_malloc nLength else []), cb_nLength = nLength\<rparr>"

definition cbuf_clear :: "cbuf \<Rightarrow> cbuf" where
  "cbuf_clear b = b\<lparr>cb_nLength := 0, cb_pBuffer := []\<rparr>"

definition cbuf_buffer :: "cbuf \<Rightarrow> block" where "cbuf_buffer b = cb_pBuffer b"

definition cbuf_length :: "cbuf \<Rightarrow> nat" where "cbuf_length b = cb_nLength b"

definition cbuf_empty :: "cbuf \<Rightarrow> bool" where "cbuf_empty b = (cb_nLength b = 0)"

definition cbuf_swapToReset :: "cbuf \<Rightarrow> cbuf \<Rightarrow> cbuf \<times> cbuf" where
  "cbuf_swapToReset b pRhs =
     (b\<lparr>cb_pBuffer := cb_pBuffer pRhs, cb_nLength := cb_nLength pRhs\<rparr>,
      pRhs\<lparr>cb_pBuffer := cb_pBuffer b, cb_nLength := cb_nLength b\<rparr>)"

definition cbuf_swap :: "cbuf \<Rightarrow> block \<Rightarrow> nat \<Rightarrow> cbuf \<times> block \<times> nat" where
  "cbuf_swap b pBuffer nLength =
     (b\<lparr>cb_pBuffer := pBuffer, cb_nLength := nLength\<rparr>, cb_pBuffer b, cb_nLength b)"

section \<open>The order on slices\<close>

text \<open>A slice that lies in the bytes it points to, and its contents.\<close>

definition slice_rep :: "slice \<Rightarrow> bytes \<Rightarrow> bool" where
  "slice_rep s xs \<longleftrightarrow> sl_nLength s \<le> length (sl_szData s) \<and> xs = take (sl_nLength s) (sl_szData s)"

interpretation slice_source: byte_source slice_rep slice_readBytes
  by unfold_locales
    (auto simp: slice_rep_def slice_readBytes_def mem_load_def take_map drop_map min_def Let_def take_drop)


text \<open>The order of byte strings, as the sign that C comparisons return.\<close>

definition bytes_sign :: "bytes \<Rightarrow> bytes \<Rightarrow> int" where
  "bytes_sign xs ys = (if xs = ys then 0 else if ord_class.lexordp xs ys then -1 else 1)"

lemma memcmp_sign:
  "\<exists>r. memcmp (xs @ a) (ys @ b) (min (length xs) (length ys)) = Some r \<and>
     (if r = 0 then if length xs < length ys then -1 else if length ys < length xs then 1 else 0 else r)
       = bytes_sign xs ys"
proof (induction xs ys rule: list_induct2')
  case (4 x xs y ys)
  then show ?case by (auto simp: bytes_sign_def min_def split: if_splits)
qed (auto simp: bytes_sign_def)

lemma compare_sign:
  assumes "slice_rep s xs" "slice_rep p ys"
  shows "slice_compare s p = Some (bytes_sign xs ys)"
proof -
  from assms obtain a b where x: "sl_szData s = xs @ a" "sl_nLength s = length xs"
    and y: "sl_szData p = ys @ b" "sl_nLength p = length ys"
    unfolding slice_rep_def by (metis append_take_drop_id length_take min.absorb2)
  have m: "(if length xs < length ys then length xs else length ys) = min (length xs) (length ys)" by simp
  from memcmp_sign [of xs a ys b] obtain r where
    "memcmp (xs @ a) (ys @ b) (min (length xs) (length ys)) = Some r"
    "(if r = 0 then if length xs < length ys then -1 else if length ys < length xs then 1 else 0 else r)
       = bytes_sign xs ys" by blast
  then show ?thesis unfolding slice_compare_def Let_def x y m by (simp split: if_splits)
qed

lemma bytes_sign_0: "bytes_sign xs ys = 0 \<longleftrightarrow> xs = ys"
  by (simp add: bytes_sign_def)

lemma bytes_sign_less: "bytes_sign xs ys = -1 \<longleftrightarrow> ord_class.lexordp xs ys"
  using lexordp_irreflexive' [of xs] by (auto simp: bytes_sign_def)

lemma bytes_sign_neg: "bytes_sign ys xs = - bytes_sign xs ys"
proof -
  have "\<not> (ord_class.lexordp xs ys \<and> ord_class.lexordp ys xs)" using lexordp_antisym by blast
  with lexordp_linear [of xs ys] show ?thesis by (auto simp: bytes_sign_def)
qed

section \<open>Properties\<close>

text \<open>\<open>slice_compare\<close> is the sign of a strict linear order on the contents of slices: zero exactly on
  equal contents, antisymmetric and transitive, a proper prefix before what extends it; it depends on
  nothing behind the slices and stays inside them.\<close>

theorem slice_compare_order:
  assumes "slice_rep s xs" "slice_rep p ys" "slice_rep t zs"
  shows "(slice_compare s p = Some 0 \<longleftrightarrow> xs = ys) \<and>
    slice_compare p s = map_option uminus (slice_compare s p) \<and>
    (slice_compare s p = Some (-1) \<and> slice_compare p t = Some (-1) \<longrightarrow> slice_compare s t = Some (-1)) \<and>
    (slice_compare s p = Some (-1) \<longleftrightarrow> ord_class.lexordp xs ys)"
  using bytes_sign_0 [of xs ys] bytes_sign_neg [of ys xs] bytes_sign_less [of xs ys] bytes_sign_less [of ys zs]
    bytes_sign_less [of xs zs] lexordp_trans [of xs ys zs]
  by (simp add: compare_sign [OF assms(1,2)] compare_sign [OF assms(2,1)] compare_sign [OF assms(1,3)]
      compare_sign [OF assms(2,3)])

lemma slice_compare_order_witness:
  "slice_compare \<lparr>sl_szData = [1, 2, 9], sl_nLength = 2\<rparr> \<lparr>sl_szData = [1, 2, 3], sl_nLength = 3\<rparr> = Some (-1)"
  using slice_compare_order [of "\<lparr>sl_szData = [1, 2, 9], sl_nLength = 2\<rparr>" "[1, 2]"
      "\<lparr>sl_szData = [1, 2, 3], sl_nLength = 3\<rparr>" "[1, 2, 3]" "\<lparr>sl_szData = [], sl_nLength = 0\<rparr>" "[]"]
  by (simp add: slice_rep_def)

end
