(* ===== verification/MsgpackEncode.thy ===== *)
theory MsgpackEncode
  imports Interfaces
begin

text \<open>
  The MessagePack encoder of \<open>core/source/msgpack/msgpackEncode_t.c\<close> and its header: the growing
  buffer with its optional expansion callback, and every write operation.

  \<open>fnExpand\<close> is a callback of the client and a parameter of the model: given the old block, the number
  of bytes in use and the new length it returns the new block (\<open>pExpandData\<close> is what it captures).  A
  null block is \<open>[]\<close>.  An \<open>int64_t\<close> is a \<open>64 word\<close> read through \<open>sint\<close>.  The doubling loop of
  \<open>msgpackEncode_append\<close> need not end, so it is a partial function and \<open>None\<close> is its divergence.
\<close>

section \<open>State and buffer\<close>

record msgpackEncode =
  me_fnExpand :: "(block \<Rightarrow> nat \<Rightarrow> nat \<Rightarrow> block) option"
  me_pBuffer :: block
  me_nLength :: nat
  me_nOffset :: nat

text \<open>The \<open>while\<close> loop of \<open>msgpackEncode_append\<close>.\<close>

partial_function (option) me_double :: "nat \<Rightarrow> nat \<Rightarrow> nat option" where
  "me_double nNeed nLength = (if nNeed > nLength then me_double nNeed (nLength * 2) else Some nLength)"

definition me_expand :: "msgpackEncode \<Rightarrow> nat \<Rightarrow> block" where
  "me_expand me nLength =
     (case me_fnExpand me of
        Some fnExpand \<Rightarrow> fnExpand (me_pBuffer me) (me_nOffset me) nLength
      | None \<Rightarrow> mem_realloc (me_pBuffer me) nLength)"

definition msgpackEncode_append :: "msgpackEncode \<Rightarrow> nat \<Rightarrow> msgpackEncode option" where
  "msgpackEncode_append me nLength =
     (if nLength + me_nOffset me > me_nLength me
      then do {
        n \<leftarrow> me_double (nLength + me_nOffset me) (me_nLength me);
        Some (me\<lparr>me_nLength := n, me_pBuffer := me_expand me n\<rparr>) }
      else Some me)"

text \<open>The statements that follow every \<open>append\<close>: store the bytes at the offset and advance it.\<close>

definition me_store :: "msgpackEncode \<Rightarrow> bytes \<Rightarrow> msgpackEncode option" where
  "me_store me bs = do {
     b \<leftarrow> mem_store (me_pBuffer me) (me_nOffset me) (map Some bs);
     Some (me\<lparr>me_pBuffer := b, me_nOffset := me_nOffset me + length bs\<rparr>) }"

definition msgpackEncode_init :: "block option \<Rightarrow> nat \<Rightarrow> (block \<Rightarrow> nat \<Rightarrow> nat \<Rightarrow> block) option \<Rightarrow> msgpackEncode" where
  "msgpackEncode_init pBuffer nLength fnExpand =
     (case pBuffer of
        None \<Rightarrow>
          (let n = max nLength 256 in
           \<lparr>me_fnExpand = fnExpand,
            me_pBuffer = (case fnExpand of Some f \<Rightarrow> f [] 0 n | None \<Rightarrow> mem_malloc n),
            me_nLength = n, me_nOffset = 0\<rparr>)
      | Some b \<Rightarrow> \<lparr>me_fnExpand = fnExpand, me_pBuffer = b, me_nLength = nLength, me_nOffset = 0\<rparr>)"

definition msgpackEncode_clear :: "msgpackEncode \<Rightarrow> msgpackEncode" where
  "msgpackEncode_clear me = (if me_pBuffer me \<noteq> [] then me\<lparr>me_pBuffer := []\<rparr> else me)"

definition msgpackEncode_getWritten :: "msgpackEncode \<Rightarrow> nat" where
  "msgpackEncode_getWritten me = me_nOffset me"

text \<open>\<open>swap\<close> exchanges the buffer, the length and, when given, the offset with the caller's.\<close>

definition msgpackEncode_swap ::
  "msgpackEncode \<Rightarrow> block \<Rightarrow> nat \<Rightarrow> nat option \<Rightarrow> msgpackEncode \<times> block \<times> nat \<times> nat option" where
  "msgpackEncode_swap me pBuffer nLength pOffset =
     (case pOffset of
        Some nOffset \<Rightarrow>
          (me\<lparr>me_pBuffer := pBuffer, me_nLength := nLength, me_nOffset := nOffset\<rparr>,
           me_pBuffer me, me_nLength me, Some (me_nOffset me))
      | None \<Rightarrow> (me\<lparr>me_pBuffer := pBuffer, me_nLength := nLength\<rparr>, me_pBuffer me, me_nLength me, None))"

section \<open>The write operations\<close>

text \<open>The big-endian stores of \<open>msgpackEncode_t.c\<close>, written out as the code does.\<close>

definition be16_code :: "u64 \<Rightarrow> bytes" where
  "be16_code v = [ucast (drop_bit 8 (v AND 0xff00)), ucast (v AND 0xff)]"

definition be32_code :: "u64 \<Rightarrow> bytes" where
  "be32_code v =
     [ucast (drop_bit 24 (v AND 0xff000000)), ucast (drop_bit 16 (v AND 0xff0000)),
      ucast (drop_bit 8 (v AND 0xff00)), ucast (v AND 0xff)]"

definition be64_code :: "u64 \<Rightarrow> bytes" where
  "be64_code v =
     [ucast (drop_bit 56 (v AND 0xff00000000000000)), ucast (drop_bit 48 (v AND 0xff000000000000)),
      ucast (drop_bit 40 (v AND 0xff0000000000)), ucast (drop_bit 32 (v AND 0xff00000000)),
      ucast (drop_bit 24 (v AND 0xff000000)), ucast (drop_bit 16 (v AND 0xff0000)),
      ucast (drop_bit 8 (v AND 0xff00)), ucast (v AND 0xff)]"

definition me_write :: "msgpackEncode \<Rightarrow> bytes \<Rightarrow> msgpackEncode option" where
  "me_write me bs = do { me \<leftarrow> msgpackEncode_append me (length bs); me_store me bs }"

definition msgpackEncode_writeInteger :: "msgpackEncode \<Rightarrow> u64 \<Rightarrow> msgpackEncode option" where
  "msgpackEncode_writeInteger me iValue =
     (if sint iValue \<ge> 0 then
        (if sint iValue \<le> 127 then me_write me [ucast (iValue AND 0x7f)]
         else if sint iValue \<le> 0xff then me_write me [0xcc, ucast (iValue AND 0xff)]
         else if sint iValue \<le> 0xffff then me_write me (0xcd # be16_code iValue)
         else if sint iValue \<le> 0xffffffff then me_write me (0xce # be32_code iValue)
         else me_write me (0xcf # be64_code iValue))
      else
        (if sint iValue \<ge> -32 then me_write me [ucast iValue]
         else if sint iValue \<ge> -128 then me_write me [0xd0, ucast (iValue AND 0xff)]
         else if sint iValue \<ge> -32768 then me_write me (0xd1 # be16_code iValue)
         else if sint iValue \<ge> -2147483648 then me_write me (0xd2 # be32_code iValue)
         else me_write me (0xd3 # be64_code iValue)))"

definition msgpackEncode_writeBoolean :: "msgpackEncode \<Rightarrow> bool \<Rightarrow> msgpackEncode option" where
  "msgpackEncode_writeBoolean me bValue = me_write me [if bValue then 0xc3 else 0xc2]"

definition msgpackEncode_writeNil :: "msgpackEncode \<Rightarrow> msgpackEncode option" where
  "msgpackEncode_writeNil me = me_write me [0xc0]"

text \<open>The payload of a string or binary follows its header when it is not empty.\<close>

definition me_payload :: "msgpackEncode \<Rightarrow> bytes \<Rightarrow> msgpackEncode option" where
  "me_payload me szValue = (if length szValue > 0 then me_write me szValue else Some me)"

definition msgpackEncode_writeString :: "msgpackEncode \<Rightarrow> bytes \<Rightarrow> msgpackEncode option" where
  "msgpackEncode_writeString me szValue = do {
     let nLength = length szValue;
     let n = (of_nat nLength :: u64);
     me \<leftarrow> (if nLength < 32 then me_write me [0xa0 OR ucast (n AND 0xff)]
           else if nLength \<le> 0xff then me_write me [0xd9, ucast n]
           else if nLength \<le> 0xffff then me_write me (0xda # be16_code n)
           else me_write me (0xdb # be32_code n));
     me_payload me szValue }"

definition msgpackEncode_writeBinary :: "msgpackEncode \<Rightarrow> bytes \<Rightarrow> msgpackEncode option" where
  "msgpackEncode_writeBinary me pValue = do {
     let nLength = length pValue;
     let n = (of_nat nLength :: u64);
     me \<leftarrow> (if nLength \<le> 0xff then me_write me [0xc4, ucast n]
           else if nLength \<le> 0xffff then me_write me (0xc5 # be16_code n)
           else me_write me (0xc6 # be32_code n));
     me_payload me pValue }"

definition msgpackEncode_writeArray :: "msgpackEncode \<Rightarrow> u64 \<Rightarrow> msgpackEncode option" where
  "msgpackEncode_writeArray me iValue =
     (if sint iValue \<le> 15 then me_write me [0x90 OR ucast (iValue AND 0xf)]
      else if sint iValue \<le> 0xffff then me_write me (0xdc # be16_code iValue)
      else me_write me (0xdd # be32_code iValue))"

definition msgpackEncode_writeMap :: "msgpackEncode \<Rightarrow> u64 \<Rightarrow> msgpackEncode option" where
  "msgpackEncode_writeMap me iValue =
     (if sint iValue \<le> 15 then me_write me [0x80 OR ucast (iValue AND 0xf)]
      else if sint iValue \<le> 0xffff then me_write me (0xde # be16_code iValue)
      else me_write me (0xdf # be32_code iValue))"

text \<open>The branch for \<open>DEF_PLATFORM_64BITS\<close>.\<close>

definition msgpackEncode_writeUserPointer :: "msgpackEncode \<Rightarrow> u64 \<Rightarrow> msgpackEncode option" where
  "msgpackEncode_writeUserPointer me nValue =
     (if nValue \<le> 0xffff then me_write me (0xc7 # be16_code nValue)
      else if nValue \<le> 0xffffffff then me_write me (0xc8 # be32_code nValue)
      else me_write me (0xc9 # be64_code nValue))"

section \<open>Growth and the written bytes\<close>


lemma me_double_grows: "0 < n \<Longrightarrow> \<exists>m. me_double k n = Some m \<and> k \<le> m \<and> n \<le> m"
proof (induction "k - n" arbitrary: n rule: less_induct)
  case less
  show ?case
  proof (cases "k > n")
    case True
    then have "k - n * 2 < k - n" using less.prems by linarith
    from less.hyps [OF this] less.prems obtain m where "me_double k (n * 2) = Some m" "k \<le> m" "n * 2 \<le> m" by auto
    with True show ?thesis by (subst me_double.simps) auto
  next
    case False
    then show ?thesis by (subst me_double.simps) auto
  qed
qed

lemma me_double_zero: "0 < k \<Longrightarrow> me_double k 0 = None"
proof -
  have "k \<le> m \<and> (n = 0 \<longrightarrow> m = 0)" if "me_double k n = Some m" for k n m
    using that by (rule me_double.raw_induct [rotated]) (auto split: if_splits)
  then show "0 < k \<Longrightarrow> me_double k 0 = None" by (cases "me_double k 0") auto
qed

text \<open>
  What the client's callback must do, as \<open>mem_realloc\<close> does: return a block of the length asked for
  that keeps the bytes in use.
\<close>

definition expand_ok :: "(block \<Rightarrow> nat \<Rightarrow> nat \<Rightarrow> block) option \<Rightarrow> bool" where
  "expand_ok fo \<longleftrightarrow>
     (case fo of None \<Rightarrow> True
      | Some f \<Rightarrow> \<forall>b off n. off \<le> length b \<longrightarrow> off \<le> n \<longrightarrow> length (f b off n) = n \<and> take off (f b off n) = take off b)"

definition me_holds :: "msgpackEncode \<Rightarrow> bytes \<Rightarrow> bool" where
  "me_holds me xs \<longleftrightarrow>
     length (me_pBuffer me) = me_nLength me \<and> 0 < me_nLength me \<and> me_nOffset me \<le> me_nLength me \<and>
     expand_ok (me_fnExpand me) \<and> take (me_nOffset me) (me_pBuffer me) = map Some xs"

lemma me_holds_length:
  assumes "me_holds me xs"
  shows "length xs = me_nOffset me"
proof -
  have "length (take (me_nOffset me) (me_pBuffer me)) = length (map Some xs)"
    using assms by (simp only: me_holds_def)
  then show ?thesis using assms by (simp add: me_holds_def)
qed

lemma me_expand:
  assumes "expand_ok (me_fnExpand me)" "me_nOffset me \<le> length (me_pBuffer me)" "length (me_pBuffer me) \<le> n"
  shows "length (me_expand me n) = n" "take (me_nOffset me) (me_expand me n) = take (me_nOffset me) (me_pBuffer me)"
  using assms
  by (auto simp: me_expand_def expand_ok_def mem_realloc_def split: option.splits)

lemma append_holds:
  assumes "me_holds me xs"
  shows "\<exists>me'. msgpackEncode_append me k = Some me' \<and> me_holds me' xs \<and> 
     me_nOffset me' = me_nOffset me \<and> me_nOffset me + k \<le> me_nLength me'"
proof (cases "k + me_nOffset me > me_nLength me")
  case True
  from assms have "0 < me_nLength me" by (simp add: me_holds_def)
  from me_double_grows [OF this, of "k + me_nOffset me"] obtain m where
    "me_double (k + me_nOffset me) (me_nLength me) = Some m" "k + me_nOffset me \<le> m" "me_nLength me \<le> m" by blast
  with True assms me_expand [of me m] show ?thesis
    by (auto simp: msgpackEncode_append_def me_holds_def)
next
  case False
  with assms show ?thesis by (auto simp: msgpackEncode_append_def)
qed

lemma write_holds:
  assumes "me_holds me xs"
  shows "\<exists>me'. me_write me bs = Some me' \<and> me_holds me' (xs @ bs) \<and> 
    me_nOffset me' = me_nOffset me + length bs"
proof -
  from append_holds [OF assms, of "length bs"] obtain me1 where
    "msgpackEncode_append me (length bs) = Some me1" "me_holds me1 xs" "me_nOffset me1 = me_nOffset me"
    "me_nOffset me + length bs \<le> me_nLength me1" by blast
  with me_holds_length [of me1 xs] show ?thesis
    by (auto simp: me_write_def me_store_def mem_simps me_holds_def)
qed

section \<open>The wire format\<close>

text \<open>Byte \<open>k\<close> of a word, counted from the least significant, and \<open>n\<close> bytes in network order.\<close>

definition byte_at :: "nat \<Rightarrow> u64 \<Rightarrow> u8" where
  "byte_at k v = ucast (drop_bit (8 * k) v)"

definition be :: "nat \<Rightarrow> u64 \<Rightarrow> bytes" where
  "be n v = map (\<lambda>i. byte_at i v) (rev [0..<n])"

lemma length_be [simp]: "length (be n v) = n"
  by (simp add: be_def)

lemma byte_mask: "k + 8 \<le> 64 \<Longrightarrow> ucast (drop_bit k (v AND push_bit k 0xff)) = (ucast (drop_bit k v) :: u8)" for v :: u64
proof -
  have m: "(0xff :: u64) = mask 8" by (simp add: mask_eq_exp_minus_1)
  show "k + 8 \<le> 64 \<Longrightarrow> ?thesis" unfolding m by (intro bit_word_eqI) (auto simp: bit_simps)
qed

lemma masks:
  "(0xff00 :: u64) = push_bit 8 0xff" "(0xff0000 :: u64) = push_bit 16 0xff"
  "(0xff000000 :: u64) = push_bit 24 0xff" "(0xff00000000 :: u64) = push_bit 32 0xff"
  "(0xff0000000000 :: u64) = push_bit 40 0xff" "(0xff000000000000 :: u64) = push_bit 48 0xff"
  "(0xff00000000000000 :: u64) = push_bit 56 0xff"
  by (simp_all add: push_bit_eq_mult)

lemma byte_low: "ucast (v AND 0xff) = (ucast v :: u8)" for v :: u64
  using byte_mask [of 0 v] by simp

lemma be_codes: "be16_code v = be 2 v" "be32_code v = be 4 v" "be64_code v = be 8 v"
  unfolding be16_code_def be32_code_def be64_code_def masks
  by (simp_all only: byte_mask byte_low) (simp_all add: be_def byte_at_def upt_rec)

lemma be_1 [simp]: "be 1 v = [ucast v]" "be (Suc 0) v = [ucast v]"
  by (simp_all add: be_def byte_at_def)

text \<open>The encodings that the writers produce, as in the MessagePack specification.\<close>

definition wire_int :: "u64 \<Rightarrow> bytes" where
  "wire_int v =
     (let i = sint v in
      if -32 \<le> i \<and> i < 2 ^ 7 then be 1 v
      else if 0 \<le> i then
        (if i < 2 ^ 8 then 0xcc # be 1 v else if i < 2 ^ 16 then 0xcd # be 2 v
         else if i < 2 ^ 32 then 0xce # be 4 v else 0xcf # be 8 v)
      else
        (if - (2 ^ 7) \<le> i then 0xd0 # be 1 v else if - (2 ^ 15) \<le> i then 0xd1 # be 2 v
         else if - (2 ^ 31) \<le> i then 0xd2 # be 4 v else 0xd3 # be 8 v))"

definition wire_length :: "(u8 \<times> nat) \<Rightarrow> u8 \<Rightarrow> u8 \<Rightarrow> u8 \<Rightarrow> nat \<Rightarrow> bytes" where
  "wire_length fix f1 f2 f4 n =
     (let v = of_nat n in
      if n < snd fix then [fst fix OR ucast v]
      else if n < 2 ^ 8 then f1 # be 1 v
      else if n < 2 ^ 16 then f2 # be 2 v
      else f4 # be 4 v)"

definition wire_count :: "u8 \<Rightarrow> u8 \<Rightarrow> u8 \<Rightarrow> u64 \<Rightarrow> bytes" where
  "wire_count fix f2 f4 v =
     (if sint v < 16 then [fix OR ucast (v AND 0xf)]
      else if sint v < 2 ^ 16 then f2 # be 2 v
      else f4 # be 4 v)"

definition wire_pointer :: "u64 \<Rightarrow> bytes" where
  "wire_pointer v = (if v < 2 ^ 16 then 0xc7 # be 2 v else if v < 2 ^ 32 then 0xc8 # be 4 v else 0xc9 # be 8 v)"

datatype mp_item =
    MpInteger u64 | MpBoolean bool | MpNil | MpString bytes | MpBinary bytes
  | MpArray u64 | MpMap u64 | MpUserPointer u64

fun wire :: "mp_item \<Rightarrow> bytes" where
  "wire (MpInteger v) = wire_int v"
| "wire (MpBoolean b) = [if b then 0xc3 else 0xc2]"
| "wire MpNil = [0xc0]"
| "wire (MpString s) = wire_length (0xa0, 32) 0xd9 0xda 0xdb (length s) @ s"
| "wire (MpBinary s) = wire_length (0, 0) 0xc4 0xc5 0xc6 (length s) @ s"
| "wire (MpArray v) = wire_count 0x90 0xdc 0xdd v"
| "wire (MpMap v) = wire_count 0x80 0xde 0xdf v"
| "wire (MpUserPointer v) = wire_pointer v"

text \<open>The writer that the client calls for an item.\<close>

fun write_item :: "msgpackEncode \<Rightarrow> mp_item \<Rightarrow> msgpackEncode option" where
  "write_item me (MpInteger v) = msgpackEncode_writeInteger me v"
| "write_item me (MpBoolean b) = msgpackEncode_writeBoolean me b"
| "write_item me MpNil = msgpackEncode_writeNil me"
| "write_item me (MpString s) = msgpackEncode_writeString me s"
| "write_item me (MpBinary s) = msgpackEncode_writeBinary me s"
| "write_item me (MpArray v) = msgpackEncode_writeArray me v"
| "write_item me (MpMap v) = msgpackEncode_writeMap me v"
| "write_item me (MpUserPointer v) = msgpackEncode_writeUserPointer me v"

lemma low7: "0 \<le> sint v \<Longrightarrow> sint v < 2 ^ 7 \<Longrightarrow> ucast (v AND 0x7f) = (ucast v :: u8)" for v :: u64
  using uint_eq_sint [of v] take_bit_small [of v 7] 
  by (simp add: take_bit_eq_mask mask_eq_exp_minus_1)

lemma writeInteger_wire: "msgpackEncode_writeInteger me v = me_write me (wire_int v)"
  using low7 [of v]
  by (auto simp: msgpackEncode_writeInteger_def wire_int_def Let_def byte_low be_codes)

lemma payload_write:
  assumes "me_holds me xs"
  shows "\<exists>me'. (me_write me hdr \<bind> (\<lambda>me. me_payload me s)) = Some me' \<and> me_holds me' (xs @ hdr @ s)"
proof -
  from write_holds [OF assms, of hdr] obtain me1 where me1: "me_write me hdr = Some me1" "me_holds me1 (xs @ hdr)" by blast
  show ?thesis
  proof (cases "s = []")
    case False
    with write_holds [OF me1(2), of s] me1 show ?thesis by (auto simp: me_payload_def)
  qed (use me1 in \<open>auto simp: me_payload_def\<close>)
qed

lemma wire_length_code:
  "me_write me (wire_length (0xa0, 32) 0xd9 0xda 0xdb n) =
     (if n < 32 then me_write me [0xa0 OR ucast ((of_nat n :: u64) AND 0xff)]
           else if n \<le> 0xff then me_write me [0xd9, ucast (of_nat n :: u64)]
           else if n \<le> 0xffff then me_write me (0xda # be16_code (of_nat n))
           else me_write me (0xdb # be32_code (of_nat n)))"
  "me_write me (wire_length (0, 0) 0xc4 0xc5 0xc6 n) =
     (if n \<le> 0xff then me_write me [0xc4, ucast (of_nat n :: u64)]
           else if n \<le> 0xffff then me_write me (0xc5 # be16_code (of_nat n))
           else me_write me (0xc6 # be32_code (of_nat n)))"
  by (simp_all add: wire_length_def Let_def byte_low be_codes less_Suc_eq_le [symmetric])

lemma write_item_holds:
  assumes "me_holds me xs"
  shows "\<exists>me'. write_item me i = Some me' \<and> me_holds me' (xs @ wire i)"
proof -
  have w: "\<exists>me'. me_write me bs = Some me' \<and> me_holds me' (xs @ bs)" for bs
    using write_holds [OF assms] by blast
  show ?thesis
  proof (cases i)
    case (MpString s)
    with payload_write [OF assms, of "wire_length (0xa0, 32) 0xd9 0xda 0xdb (length s)" s] show ?thesis
      by (simp add: msgpackEncode_writeString_def Let_def wire_length_code)
  next
    case (MpBinary s)
    with payload_write [OF assms, of "wire_length (0, 0) 0xc4 0xc5 0xc6 (length s)" s] show ?thesis
      by (simp add: msgpackEncode_writeBinary_def Let_def wire_length_code)
  next
    case (MpArray v)
    have "msgpackEncode_writeArray me v = me_write me (wire_count 0x90 0xdc 0xdd v)"
      by (simp add: msgpackEncode_writeArray_def wire_count_def be_codes)
    with MpArray w show ?thesis by simp
  next
    case (MpMap v)
    have "msgpackEncode_writeMap me v = me_write me (wire_count 0x80 0xde 0xdf v)"
      by (simp add: msgpackEncode_writeMap_def wire_count_def be_codes)
    with MpMap w show ?thesis by simp
  next
    case (MpUserPointer v)
    have "v \<le> 0xffff \<longleftrightarrow> v < 2 ^ 16" "v \<le> 0xffffffff \<longleftrightarrow> v < 2 ^ 32"
      by (auto simp: word_le_nat_alt word_less_nat_alt)
    then have "msgpackEncode_writeUserPointer me v = me_write me (wire_pointer v)"
      by (simp add: msgpackEncode_writeUserPointer_def wire_pointer_def be_codes)
    with MpUserPointer w show ?thesis by simp
  qed (use w in \<open>auto simp: writeInteger_wire msgpackEncode_writeBoolean_def msgpackEncode_writeNil_def\<close>)
qed

section \<open>Properties\<close>

fun write_items :: "msgpackEncode \<Rightarrow> mp_item list \<Rightarrow> msgpackEncode option" where
  "write_items me [] = Some me"
| "write_items me (i # is) = do { me \<leftarrow> write_item me i; write_items me is }"

lemma write_items_holds:
  "me_holds me xs \<Longrightarrow> \<exists>me'. write_items me is = Some me' \<and> me_holds me' (xs @ concat (map wire is))"
proof (induction "is" arbitrary: me xs)
  case (Cons i "is")
  from write_item_holds [OF Cons.prems] obtain me1 where 
    "write_item me i = Some me1" "me_holds me1 (xs @ wire i)" by blast
  with Cons.IH [of me1 "xs @ wire i"] show ?case by auto
qed auto

lemma init_holds:
  "expand_ok f \<Longrightarrow> (\<And>b. pBuffer = Some b \<Longrightarrow> 0 < nLength \<and> length b = nLength) \<Longrightarrow>
    me_holds (msgpackEncode_init pBuffer nLength f) []"
  by (auto simp: msgpackEncode_init_def me_holds_def expand_ok_def Let_def split: option.splits)

text \<open>From a fresh encoder, with a null buffer or one of the stated non-zero length, any sequence of
  items is written without leaving the buffer, which grows as needed through \<open>mem_realloc\<close> or through a
  callback that keeps the bytes in use: the bytes written are the concatenation of the items' MessagePack
  encodings and \<open>getWritten\<close> is their number.\<close>

theorem encode_writes_wire:
  assumes "expand_ok f" "\<And>b. pBuffer = Some b \<Longrightarrow> 0 < nLength \<and> length b = nLength"
  shows "\<exists>me. write_items (msgpackEncode_init pBuffer nLength f) is = Some me \<and>
    msgpackEncode_getWritten me = length (concat (map wire is)) \<and>
    take (msgpackEncode_getWritten me) (me_pBuffer me) = map Some (concat (map wire is))"
proof -
  have "me_holds (msgpackEncode_init pBuffer nLength f) []"
    by (rule init_holds [OF assms])
  from write_items_holds [OF this, of "is"] obtain me where me:
    "write_items (msgpackEncode_init pBuffer nLength f) is = Some me" "me_holds me (concat (map wire is))"
    by auto
  with me_holds_length [OF me(2)] show ?thesis
    by (auto simp: msgpackEncode_getWritten_def me_holds_def)
qed

lemma encode_writes_wire_witness:
  "\<exists>me. write_items (msgpackEncode_init (Some [None, None]) 2 (Some (\<lambda>b off n. take off b @ replicate (n - off) None)))
      [MpArray 2, MpInteger (-3), MpString [104, 105]] = Some me \<and>
    msgpackEncode_getWritten me = length [0x92, 0xfd, 0xa2, 104, 105 :: u8] \<and>
    take (msgpackEncode_getWritten me) (me_pBuffer me) = map Some [0x92, 0xfd, 0xa2, 104, 105]"
proof -
  have "expand_ok (Some (\<lambda>b off n. take off b @ replicate (n - off) None))"
    by (auto simp: expand_ok_def)
  moreover have w: "concat (map wire [MpArray 2, MpInteger (-3), MpString [104, 105]]) = [0x92, 0xfd, 0xa2, 104, 105]"
    by code_simp
  ultimately show ?thesis
    using encode_writes_wire [of "Some (\<lambda>b off n. take off b @ replicate (n - off) None)" "Some [None, None]" 2
        "[MpArray 2, MpInteger (-3), MpString [104, 105]]"] unfolding w by auto
qed

text \<open>An encoder initialised on a caller's buffer of length zero never returns from its first
  write: doubling zero never reaches the length needed.\<close>

theorem encode_zero_length_diverges:
  "write_item (msgpackEncode_init (Some []) 0 f) i = None"
proof -
  have "bs \<noteq> [] \<Longrightarrow> me_write (msgpackEncode_init (Some []) 0 f) bs = None" for bs
    by (simp add: me_write_def msgpackEncode_append_def msgpackEncode_init_def me_double_zero)
  then show ?thesis
    by (cases i) (simp_all add: msgpackEncode_writeBoolean_def msgpackEncode_writeNil_def
        msgpackEncode_writeInteger_def msgpackEncode_writeString_def msgpackEncode_writeBinary_def
        msgpackEncode_writeArray_def msgpackEncode_writeMap_def msgpackEncode_writeUserPointer_def Let_def)
qed

end
