(* ===== verification/MsgpackDecode.thy ===== *)
theory MsgpackDecode
  imports Interfaces
begin

text \<open>
  The MessagePack decoder of \<open>core/source/msgpack/msgpackDecode_t.c\<close>: every operation except
  \<open>readReal\<close>, which computes in floating point.  The outer \<open>option\<close> of a result is undefined behaviour
  (a read outside the buffer); the inner one is the C result, \<open>None\<close> for \<open>false\<close> or a length of -1.  The
  pointer that \<open>readString\<close> and \<open>readBinary\<close> return is modelled by the bytes it points to.
\<close>

section \<open>State and access\<close>

record msgpackDecode =
  md_pBuffer :: bytes
  md_nLength :: nat
  md_nOffset :: nat

datatype enMsgpackValueType =
    eMsgpackInteger | eMsgpackBoolean | eMsgpackReal | eMsgpackString | eMsgpackBinary
  | eMsgpackArray | eMsgpackMap | eMsgpackNil | eMsgpackUserPointer | eMsgpackInvalid

definition msgpackDecode_init :: "bytes \<Rightarrow> nat \<Rightarrow> nat \<Rightarrow> msgpackDecode" where
  "msgpackDecode_init pBuffer nLength nOffset =
     \<lparr>md_pBuffer = pBuffer, md_nLength = nLength, md_nOffset = nOffset\<rparr>"

definition msgpackDecode_clear :: "msgpackDecode \<Rightarrow> msgpackDecode" where
  "msgpackDecode_clear md = md\<lparr>md_pBuffer := [], md_nOffset := 0, md_nLength := 0\<rparr>"

text \<open>\<open>n\<close> bytes of the buffer from \<open>getBuffer(md) + off\<close>.\<close>

definition md_load :: "msgpackDecode \<Rightarrow> nat \<Rightarrow> nat \<Rightarrow> bytes option" where
  "md_load md off n =
     (if md_nOffset md + off + n \<le> length (md_pBuffer md)
      then Some (take n (drop (md_nOffset md + off) (md_pBuffer md))) else None)"

definition md_forward :: "msgpackDecode \<Rightarrow> nat \<Rightarrow> msgpackDecode" where
  "md_forward md n = md\<lparr>md_nOffset := md_nOffset md + n\<rparr>"

type_synonym 'a md_result = "('a option \<times> msgpackDecode) option"

text \<open>The common prologue: nothing left is a failure, else the code switches on the first byte.\<close>

definition md_switch :: "msgpackDecode \<Rightarrow> (u8 \<Rightarrow> 'a md_result) \<Rightarrow> 'a md_result" where
  "md_switch md f =
     (if md_nLength md \<le> md_nOffset md then Some (None, md)
      else do { p \<leftarrow> md_load md 0 1; f (p ! 0) })"

text \<open>A case that checks for \<open>n\<close> bytes in all, converts them, and advances.\<close>

definition md_take :: "msgpackDecode \<Rightarrow> nat \<Rightarrow> (bytes \<Rightarrow> 'a) \<Rightarrow> 'a md_result" where
  "md_take md n conv =
     (if md_nOffset md + n > md_nLength md then Some (None, md)
      else do { p \<leftarrow> md_load md 0 n; Some (Some (conv p), md_forward md n) })"

text \<open>A payload of \<open>nLen\<close> bytes after a header of \<open>hdr\<close> bytes.\<close>

definition md_payload :: "msgpackDecode \<Rightarrow> nat \<Rightarrow> nat \<Rightarrow> bytes md_result" where
  "md_payload md hdr nLen =
     (if md_nOffset md + hdr + nLen > md_nLength md then Some (None, md)
      else do { s \<leftarrow> md_load md hdr nLen; Some (Some s, md_forward md (hdr + nLen)) })"

section \<open>Conversions\<close>

text \<open>The shifts and casts of the code; the second operand of \<open>uint16_t << 8\<close> is promoted to \<open>int\<close>.\<close>

definition join16 :: "bytes \<Rightarrow> u64" where
  "join16 p = push_bit 8 (ucast (p ! 1)) OR ucast (p ! 2)"

definition join32 :: "bytes \<Rightarrow> u32" where
  "join32 p = push_bit 24 (ucast (p ! 1)) OR push_bit 16 (ucast (p ! 2)) OR
     push_bit 8 (ucast (p ! 3)) OR ucast (p ! 4)"

definition join64 :: "bytes \<Rightarrow> u64" where
  "join64 p = push_bit 56 (ucast (p ! 1)) OR push_bit 48 (ucast (p ! 2)) OR
     push_bit 40 (ucast (p ! 3)) OR push_bit 32 (ucast (p ! 4)) OR
     push_bit 24 (ucast (p ! 5)) OR push_bit 16 (ucast (p ! 6)) OR
     push_bit 8 (ucast (p ! 7)) OR ucast (p ! 8)"

definition cast_i8 :: "u8 \<Rightarrow> u64" where "cast_i8 b = scast b"
definition cast_i16 :: "u64 \<Rightarrow> u64" where "cast_i16 v = scast (ucast v :: u16)"
definition cast_i32 :: "u32 \<Rightarrow> u64" where "cast_i32 v = scast v"
definition cast_u32 :: "u32 \<Rightarrow> u64" where "cast_u32 v = ucast v"

section \<open>Reading\<close>

text \<open>In the case \<open>0xd2\<close> the code shifts an \<open>int32_t\<close> of 128 or more by 24, which C leaves undefined; the model has the value that compilers give.\<close>

definition msgpackDecode_readInteger :: "msgpackDecode \<Rightarrow> u64 md_result" where
  "msgpackDecode_readInteger md = md_switch md (\<lambda>flag.
     if flag = 0xcc then md_take md 2 (\<lambda>p. ucast (p ! 1))
     else if flag = 0xd0 then md_take md 2 (\<lambda>p. cast_i8 (p ! 1))
     else if flag = 0xcd then md_take md 3 join16
     else if flag = 0xd1 then md_take md 3 (\<lambda>p. cast_i16 (join16 p))
     else if flag = 0xce then md_take md 5 (\<lambda>p. cast_u32 (join32 p))
     else if flag = 0xd2 then md_take md 5 (\<lambda>p. cast_i32 (join32 p))
     else if flag = 0xcf then md_take md 9 join64
     else if flag = 0xd3 then md_take md 9 join64
     else if flag AND 0x80 = 0 then Some (Some (ucast flag), md_forward md 1)
     else if flag AND 0xe0 = 0xe0 then Some (Some (cast_i8 flag), md_forward md 1)
     else Some (None, md))"

text \<open>\<open>peekInteger\<close> is the same switch with no advance.\<close>

definition md_peek :: "msgpackDecode \<Rightarrow> nat \<Rightarrow> (bytes \<Rightarrow> 'a) \<Rightarrow> 'a md_result" where
  "md_peek md n conv =
     (if md_nOffset md + n > md_nLength md then Some (None, md)
      else do { p \<leftarrow> md_load md 0 n; Some (Some (conv p), md) })"

definition msgpackDecode_peekInteger :: "msgpackDecode \<Rightarrow> u64 md_result" where
  "msgpackDecode_peekInteger md = md_switch md (\<lambda>flag.
     if flag = 0xcc then md_peek md 2 (\<lambda>p. ucast (p ! 1))
     else if flag = 0xd0 then md_peek md 2 (\<lambda>p. cast_i8 (p ! 1))
     else if flag = 0xcd then md_peek md 3 join16
     else if flag = 0xd1 then md_peek md 3 (\<lambda>p. cast_i16 (join16 p))
     else if flag = 0xce then md_peek md 5 (\<lambda>p. cast_u32 (join32 p))
     else if flag = 0xd2 then md_peek md 5 (\<lambda>p. cast_i32 (join32 p))
     else if flag = 0xcf then md_peek md 9 join64
     else if flag = 0xd3 then md_peek md 9 join64
     else if flag AND 0x80 = 0 then Some (Some (ucast flag), md)
     else if flag AND 0xe0 = 0xe0 then Some (Some (cast_i8 flag), md)
     else Some (None, md))"

definition msgpackDecode_readBoolean :: "msgpackDecode \<Rightarrow> bool md_result" where
  "msgpackDecode_readBoolean md = md_switch md (\<lambda>flag.
     if flag = 0xc3 then Some (Some True, md_forward md 1)
     else if flag = 0xc2 then Some (Some False, md_forward md 1)
     else Some (None, md))"

text \<open>The length field of \<open>n - 1\<close> bytes is read only after the check that \<open>n\<close> bytes are there.\<close>

definition md_sized :: "msgpackDecode \<Rightarrow> nat \<Rightarrow> (bytes \<Rightarrow> nat) \<Rightarrow> bytes md_result" where
  "md_sized md n conv =
     (if md_nOffset md + n > md_nLength md then Some (None, md)
      else do { p \<leftarrow> md_load md 0 n; md_payload md n (conv p) })"

definition msgpackDecode_readString :: "msgpackDecode \<Rightarrow> bytes md_result" where
  "msgpackDecode_readString md = md_switch md (\<lambda>flag.
     if flag = 0xd9 then md_sized md 2 (\<lambda>p. unat (p ! 1))
     else if flag = 0xda then md_sized md 3 (\<lambda>p. unat (join16 p))
     else if flag = 0xdb then md_sized md 5 (\<lambda>p. unat (join32 p))
     else if flag AND 0xe0 = 0xa0 then md_payload md 1 (unat (flag AND 0x1f))
     else Some (None, md))"

text \<open>In the case \<open>0xc4\<close> the code reads the length byte without a check that it is there.\<close>

definition msgpackDecode_readBinary :: "msgpackDecode \<Rightarrow> bytes md_result" where
  "msgpackDecode_readBinary md = md_switch md (\<lambda>flag.
     if flag = 0xc4 then do { p \<leftarrow> md_load md 0 2; md_payload md 2 (unat (p ! 1)) }
     else if flag = 0xc5 then md_sized md 3 (\<lambda>p. unat (join16 p))
     else if flag = 0xc6 then md_sized md 5 (\<lambda>p. unat (join32 p))
     else Some (None, md))"

definition msgpackDecode_readArray :: "msgpackDecode \<Rightarrow> u64 md_result" where
  "msgpackDecode_readArray md = md_switch md (\<lambda>flag.
     if flag = 0xdc then md_take md 3 join16
     else if flag = 0xdd then md_take md 5 (\<lambda>p. cast_u32 (join32 p))
     else if flag AND 0xf0 = 0x90 then Some (Some (ucast (flag AND 0xf)), md_forward md 1)
     else Some (None, md))"

definition msgpackDecode_readMap :: "msgpackDecode \<Rightarrow> u64 md_result" where
  "msgpackDecode_readMap md = md_switch md (\<lambda>flag.
     if flag = 0xde then md_take md 3 join16
     else if flag = 0xdf then md_take md 5 (\<lambda>p. cast_u32 (join32 p))
     else if flag AND 0xf0 = 0x80 then Some (Some (ucast (flag AND 0xf)), md_forward md 1)
     else Some (None, md))"

definition msgpackDecode_readUserPointer :: "msgpackDecode \<Rightarrow> u64 md_result" where
  "msgpackDecode_readUserPointer md = md_switch md (\<lambda>flag.
     if flag = 0xc7 then md_take md 3 join16
     else if flag = 0xc8 then md_take md 5 (\<lambda>p. cast_u32 (join32 p))
     else if flag = 0xc9 then md_take md 9 join64
     else Some (None, md))"

section \<open>Skipping\<close>

text \<open>A skip returns \<open>true\<close> (here \<open>Some ()\<close>) or \<open>false\<close>.\<close>

definition md_skip :: "msgpackDecode \<Rightarrow> nat \<Rightarrow> unit md_result" where
  "md_skip md n =
     (if md_nOffset md + n > md_nLength md then Some (None, md) else Some (Some (), md_forward md n))"

definition md_skip_sized :: "msgpackDecode \<Rightarrow> nat \<Rightarrow> (bytes \<Rightarrow> nat) \<Rightarrow> unit md_result" where
  "md_skip_sized md n conv =
     (if md_nOffset md + n > md_nLength md then Some (None, md)
      else do { p \<leftarrow> md_load md 0 n; md_skip md (n + conv p) })"

definition msgpackDecode_skipInteger :: "msgpackDecode \<Rightarrow> unit md_result" where
  "msgpackDecode_skipInteger md = md_switch md (\<lambda>flag.
     if flag = 0xcc \<or> flag = 0xd0 then md_skip md 2
     else if flag = 0xcd then md_skip md 3
     else if flag = 0xd1 then md_skip md 3
     else if flag = 0xce then md_skip md 5
     else if flag = 0xd2 then md_skip md 5
     else if flag = 0xcf then md_skip md 9
     else if flag = 0xd3 then md_skip md 9
     else if flag AND 0x80 = 0 then Some (Some (), md_forward md 1)
     else if flag AND 0xe0 = 0xe0 then Some (Some (), md_forward md 1)
     else Some (None, md))"

definition msgpackDecode_skipBoolean :: "msgpackDecode \<Rightarrow> unit md_result" where
  "msgpackDecode_skipBoolean md = md_switch md (\<lambda>flag.
     if flag = 0xc3 then Some (Some (), md_forward md 1)
     else if flag = 0xc2 then Some (Some (), md_forward md 1)
     else Some (None, md))"

definition msgpackDecode_skipReal :: "msgpackDecode \<Rightarrow> unit md_result" where
  "msgpackDecode_skipReal md = md_switch md (\<lambda>flag.
     if flag = 0xcc \<or> flag = 0xd0 then md_skip md 2
     else if flag = 0xcd \<or> flag = 0xd1 then md_skip md 3
     else if flag = 0xce \<or> flag = 0xd2 then md_skip md 5
     else if flag = 0xcf \<or> flag = 0xd3 then md_skip md 9
     else if flag = 0xca then md_skip md 5
     else if flag = 0xcb then md_skip md 9
     else if flag AND 0x80 = 0 then Some (Some (), md_forward md 1)
     else if flag AND 0xe0 = 0xe0 then Some (Some (), md_forward md 1)
     else Some (None, md))"

definition msgpackDecode_skipString :: "msgpackDecode \<Rightarrow> unit md_result" where
  "msgpackDecode_skipString md = md_switch md (\<lambda>flag.
     if flag = 0xd9 then md_skip_sized md 2 (\<lambda>p. unat (p ! 1))
     else if flag = 0xda then md_skip_sized md 3 (\<lambda>p. unat (join16 p))
     else if flag = 0xdb then md_skip_sized md 5 (\<lambda>p. unat (join32 p))
     else if flag AND 0xe0 = 0xa0 then md_skip md (1 + unat (flag AND 0x1f))
     else Some (None, md))"

definition msgpackDecode_skipBinary :: "msgpackDecode \<Rightarrow> unit md_result" where
  "msgpackDecode_skipBinary md = md_switch md (\<lambda>flag.
     if flag = 0xc4 then md_skip_sized md 2 (\<lambda>p. unat (p ! 1))
     else if flag = 0xc5 then md_skip_sized md 3 (\<lambda>p. unat (join16 p))
     else if flag = 0xc6 then md_skip_sized md 5 (\<lambda>p. unat (join32 p))
     else Some (None, md))"

definition msgpackDecode_skipNil :: "msgpackDecode \<Rightarrow> unit md_result" where
  "msgpackDecode_skipNil md = md_switch md (\<lambda>flag.
     if flag = 0xc0 then Some (Some (), md_forward md 1) else Some (None, md))"

section \<open>Inspecting\<close>

definition msgpackDecode_isEnd :: "msgpackDecode \<Rightarrow> bool" where
  "msgpackDecode_isEnd md = (md_nLength md = md_nOffset md)"

definition md_type :: "u8 \<Rightarrow> enMsgpackValueType" where
  "md_type flag =
     (if flag \<in> {0xcc, 0xd0, 0xcd, 0xd1, 0xce, 0xd2, 0xcf, 0xd3} then eMsgpackInteger
      else if flag = 0xc3 \<or> flag = 0xc2 then eMsgpackBoolean
      else if flag = 0xca \<or> flag = 0xcb then eMsgpackReal
      else if flag = 0xd9 \<or> flag = 0xda \<or> flag = 0xdb then eMsgpackString
      else if flag = 0xc4 \<or> flag = 0xc5 \<or> flag = 0xc6 then eMsgpackBinary
      else if flag = 0xc7 \<or> flag = 0xc8 \<or> flag = 0xc9 then eMsgpackUserPointer
      else if flag = 0xdc \<or> flag = 0xdd then eMsgpackArray
      else if flag = 0xde \<or> flag = 0xdf then eMsgpackMap
      else if flag = 0xc0 then eMsgpackNil
      else if flag AND 0x80 = 0 then eMsgpackInteger
      else if flag AND 0xe0 = 0xe0 then eMsgpackInteger
      else if flag AND 0xe0 = 0xa0 then eMsgpackString
      else if flag AND 0xf0 = 0x90 then eMsgpackArray
      else if flag AND 0xf0 = 0x80 then eMsgpackMap
      else eMsgpackInvalid)"

definition msgpackDecode_getType :: "msgpackDecode \<Rightarrow> enMsgpackValueType option" where
  "msgpackDecode_getType md =
     (if md_nLength md \<le> md_nOffset md then Some eMsgpackInvalid
      else do { p \<leftarrow> md_load md 0 1; Some (md_type (p ! 0)) })"

section \<open>Conversions of small values\<close>

lemma cast_i8_small: "- (2 ^ 7) \<le> sint v \<Longrightarrow> sint v < 2 ^ 7 \<Longrightarrow> cast_i8 (ucast v) = v"
proof -
  have "cast_i8 (ucast v) = signed_take_bit 7 v"
    unfolding cast_i8_def by (rule bit_word_eqI) (auto simp: bit_simps)
  then show "- (2 ^ 7) \<le> sint v \<Longrightarrow> sint v < 2 ^ 7 \<Longrightarrow> ?thesis" by (simp add: signed_take_bit_small)
qed

lemma cast_i16_small: "- (2 ^ 15) \<le> sint v \<Longrightarrow> sint v < 2 ^ 15 \<Longrightarrow> cast_i16 (take_bit 16 v) = v"
proof -
  have "cast_i16 (take_bit 16 v) = signed_take_bit 15 v"
    unfolding cast_i16_def by (rule bit_word_eqI) (auto simp: bit_simps)
  then show "- (2 ^ 15) \<le> sint v \<Longrightarrow> sint v < 2 ^ 15 \<Longrightarrow> ?thesis" by (simp add: signed_take_bit_small)
qed

lemma cast_i32_small: "- (2 ^ 31) \<le> sint v \<Longrightarrow> sint v < 2 ^ 31 \<Longrightarrow> cast_i32 (ucast v) = v"
proof -
  have "cast_i32 (ucast v) = signed_take_bit 31 v"
    unfolding cast_i32_def by (rule bit_word_eqI) (auto simp: bit_simps)
  then show "- (2 ^ 31) \<le> sint v \<Longrightarrow> sint v < 2 ^ 31 \<Longrightarrow> ?thesis" by (simp add: signed_take_bit_small)
qed

lemma cast_u32_small: "uint v < 2 ^ 32 \<Longrightarrow> cast_u32 (ucast v) = v"
proof -
  have "cast_u32 (ucast v) = take_bit 32 v"
    unfolding cast_u32_def by (rule bit_word_eqI) (auto simp: bit_simps)
  then show "uint v < 2 ^ 32 \<Longrightarrow> ?thesis" by (simp add: take_bit_small)
qed

lemma ucast_byte_small: "uint v < 2 ^ 8 \<Longrightarrow> ucast (ucast v :: u8) = v" for v :: u64
proof -
  have "ucast (ucast v :: u8) = take_bit 8 v" by (rule bit_word_eqI) (auto simp: bit_simps)
  then show "uint v < 2 ^ 8 \<Longrightarrow> ?thesis" by (simp add: take_bit_small)
qed

section \<open>The decoder at a position\<close>

text \<open>A decoder whose unread bytes are \<open>xs\<close>, after \<open>pre\<close>.\<close>

definition md_at :: "bytes \<Rightarrow> bytes \<Rightarrow> msgpackDecode" where
  "md_at pre xs = \<lparr>md_pBuffer = pre @ xs, md_nLength = length (pre @ xs), md_nOffset = length pre\<rparr>"

lemma md_at_exists: 
  "md_nLength md = length (md_pBuffer md) \<Longrightarrow> md_nOffset md \<le> md_nLength md \<Longrightarrow>
    md = md_at (take (md_nOffset md) (md_pBuffer md)) (drop (md_nOffset md) (md_pBuffer md))"
  by (simp add: md_at_def)

lemma md_load_at: "md_load (md_at pre xs) off n = (if off + n \<le> length xs then Some (take n (drop off xs)) else None)"
  by (auto simp: md_load_def md_at_def)

lemma md_forward_at: "n \<le> length xs \<Longrightarrow> md_forward (md_at pre xs) n = md_at (pre @ take n xs) (drop n xs)"
  by (simp add: md_forward_def md_at_def)

lemma md_switch_at:
  "md_switch (md_at pre []) f = Some (None, md_at pre [])"
  "md_switch (md_at pre (b # xs)) f = f b"
  by (auto simp: md_switch_def md_load_at) (auto simp: md_at_def)

lemma md_take_at:
  "md_take (md_at pre xs) n conv =
    (if n \<le> length xs then Some (Some (conv (take n xs)), md_at (pre @ take n xs) (drop n xs))
     else Some (None, md_at pre xs))"
  by (auto simp: md_take_def md_load_at md_forward_at) (auto simp: md_at_def)

lemma md_peek_at:
  "md_peek (md_at pre xs) n conv =
    (if n \<le> length xs then Some (Some (conv (take n xs)), md_at pre xs) else Some (None, md_at pre xs))"
  by (auto simp: md_peek_def md_load_at) (auto simp: md_at_def)

lemma md_payload_at:
  "md_payload (md_at pre xs) h n =
    (if h + n \<le> length xs then Some (Some (take n (drop h xs)), md_at (pre @ take (h + n) xs) (drop (h + n) xs))
     else Some (None, md_at pre xs))"
  by (auto simp: md_payload_def md_load_at md_forward_at) (auto simp: md_at_def)

lemma md_sized_at:
  "md_sized (md_at pre xs) n conv =
    (if n \<le> length xs then md_payload (md_at pre xs) n (conv (take n xs)) else Some (None, md_at pre xs))"
  by (auto simp: md_sized_def md_load_at) (auto simp: md_at_def)

lemma md_skip_at:
  "md_skip (md_at pre xs) n =
    (if n \<le> length xs then Some (Some (), md_at (pre @ take n xs) (drop n xs)) else Some (None, md_at pre xs))"
  by (auto simp: md_skip_def md_forward_at) (auto simp: md_at_def)

lemma md_skip_sized_at:
  "md_skip_sized (md_at pre xs) n conv =
    (if n \<le> length xs then md_skip (md_at pre xs) (n + conv (take n xs)) else Some (None, md_at pre xs))"
  by (auto simp: md_skip_sized_def md_load_at) (auto simp: md_at_def)

lemmas md_at_simps = md_switch_at md_take_at md_peek_at md_payload_at md_sized_at md_skip_at md_skip_sized_at

section \<open>Safety and progress\<close>

text \<open>
  A result that is defined, and either fails with the decoder as it was or consumes at least one and
  at most all of the unread bytes \<open>xs\<close>.
\<close>

definition md_fine :: "bytes \<Rightarrow> bytes \<Rightarrow> 'a md_result \<Rightarrow> bool" where
  "md_fine pre xs r \<longleftrightarrow> r = Some (None, md_at pre xs) \<or>
     (\<exists>v n. 0 < n \<and> n \<le> length xs \<and> r = Some (Some v, md_at (pre @ take n xs) (drop n xs)))"

named_theorems md_fine_intros

lemma md_fine_fail [md_fine_intros]: "md_fine pre xs (Some (None, md_at pre xs))"
  by (simp add: md_fine_def)

lemma md_fine_one [md_fine_intros]: "xs \<noteq> [] \<Longrightarrow> md_fine pre xs (Some (Some v, md_forward (md_at pre xs) 1))"
  by (cases xs) (auto simp: md_fine_def md_forward_at intro!: exI [of _ 1])

lemma md_fine_take [md_fine_intros]: "0 < n \<Longrightarrow> md_fine pre xs (md_take (md_at pre xs) n conv)"
  by (auto simp: md_fine_def md_take_at)

lemma md_fine_payload [md_fine_intros]: "0 < h \<Longrightarrow> md_fine pre xs (md_payload (md_at pre xs) h n)"
  by (auto simp: md_fine_def md_payload_at intro!: exI [of _ "h + n"])

lemma md_fine_sized [md_fine_intros]: "0 < n \<Longrightarrow> md_fine pre xs (md_sized (md_at pre xs) n conv)"
  by (simp add: md_sized_at md_fine_payload md_fine_fail)

lemma md_fine_skip [md_fine_intros]: "0 < n \<Longrightarrow> md_fine pre xs (md_skip (md_at pre xs) n)"
  by (auto simp: md_fine_def md_skip_at)

lemma md_fine_skip_sized [md_fine_intros]: "0 < n \<Longrightarrow> md_fine pre xs (md_skip_sized (md_at pre xs) n conv)"
  by (simp add: md_skip_sized_at md_fine_skip md_fine_fail)

lemma md_fine_if [md_fine_intros]:
  "(c \<Longrightarrow> md_fine pre xs r) \<Longrightarrow> (\<not> c \<Longrightarrow> md_fine pre xs r') \<Longrightarrow> md_fine pre xs (if c then r else r')"
  by simp

lemma md_fine_switch:
  "(\<And>b. xs \<noteq> [] \<Longrightarrow> md_fine pre xs (f b)) \<Longrightarrow> md_fine pre xs (md_switch (md_at pre xs) f)"
  by (cases xs) (auto simp: md_switch_at md_fine_fail)

lemma reads_fine:
  "md_fine pre xs (msgpackDecode_readInteger (md_at pre xs))"
  "md_fine pre xs (msgpackDecode_readBoolean (md_at pre xs))"
  "md_fine pre xs (msgpackDecode_readString (md_at pre xs))"
  "md_fine pre xs (msgpackDecode_readArray (md_at pre xs))"
  "md_fine pre xs (msgpackDecode_readMap (md_at pre xs))"
  "md_fine pre xs (msgpackDecode_readUserPointer (md_at pre xs))"
  unfolding msgpackDecode_readInteger_def msgpackDecode_readBoolean_def msgpackDecode_readString_def
    msgpackDecode_readArray_def msgpackDecode_readMap_def msgpackDecode_readUserPointer_def
  by (rule md_fine_switch, (rule md_fine_intros | simp (no_asm) | assumption)+)+

lemma skips_fine:
  "md_fine pre xs (msgpackDecode_skipInteger (md_at pre xs))"
  "md_fine pre xs (msgpackDecode_skipBoolean (md_at pre xs))"
  "md_fine pre xs (msgpackDecode_skipReal (md_at pre xs))"
  "md_fine pre xs (msgpackDecode_skipString (md_at pre xs))"
  "md_fine pre xs (msgpackDecode_skipBinary (md_at pre xs))"
  "md_fine pre xs (msgpackDecode_skipNil (md_at pre xs))"
  unfolding msgpackDecode_skipInteger_def msgpackDecode_skipBoolean_def msgpackDecode_skipReal_def
    msgpackDecode_skipString_def msgpackDecode_skipBinary_def msgpackDecode_skipNil_def
  by (rule md_fine_switch, (rule md_fine_intros | simp (no_asm) | assumption)+)+

lemma binary_fine: "xs \<noteq> [0xc4] \<Longrightarrow> md_fine pre xs (msgpackDecode_readBinary (md_at pre xs))"
  unfolding msgpackDecode_readBinary_def
  by (cases xs)
    (auto simp: md_switch_at md_load_at Suc_le_eq neq_Nil_conv intro: md_fine_intros)

lemma binary_undefined: "msgpackDecode_readBinary (md_at pre [0xc4]) = None"
  by (simp add: msgpackDecode_readBinary_def md_switch_at md_load_at)

text \<open>The result of a read with its value dropped, to compare with the skip.\<close>

definition forget :: "'a md_result \<Rightarrow> unit md_result" where
  "forget r = map_option (map_prod (map_option (\<lambda>_. ())) id) r"

lemma forget_simps [simp]:
  "forget (Some (None, md)) = Some (None, md)" "forget (Some (Some v, md)) = Some (Some (), md)"
  by (simp_all add: forget_def)

lemma forget_if [simp]: "forget (if c then r else r') = (if c then forget r else forget r')"
  by simp

lemma forget_take [simp]: "forget (md_take (md_at pre xs) n conv) = md_skip (md_at pre xs) n"
  by (simp add: md_take_at md_skip_at)

lemma forget_payload [simp]: "forget (md_payload (md_at pre xs) h n) = md_skip (md_at pre xs) (h + n)"
  by (simp add: md_payload_at md_skip_at)

lemma forget_sized [simp]: "forget (md_sized (md_at pre xs) n conv) = md_skip_sized (md_at pre xs) n conv"
  by (simp add: md_sized_at md_skip_sized_at)

lemma forget_switch: "(\<And>b. forget (f b) = g b) \<Longrightarrow> forget (md_switch (md_at pre xs) f) = md_switch (md_at pre xs) g"
  by (cases xs) (simp_all add: md_switch_at)

lemma skip_forget:
  "msgpackDecode_skipInteger (md_at pre xs) = forget (msgpackDecode_readInteger (md_at pre xs))"
  "msgpackDecode_skipBoolean (md_at pre xs) = forget (msgpackDecode_readBoolean (md_at pre xs))"
  "msgpackDecode_skipString (md_at pre xs) = forget (msgpackDecode_readString (md_at pre xs))"
  unfolding msgpackDecode_skipInteger_def msgpackDecode_readInteger_def msgpackDecode_skipBoolean_def
    msgpackDecode_readBoolean_def msgpackDecode_skipString_def msgpackDecode_readString_def
  by (rule forget_switch [symmetric], simp)+

lemma skipBinary_forget:
  "xs \<noteq> [0xc4] \<Longrightarrow> msgpackDecode_skipBinary (md_at pre xs) = forget (msgpackDecode_readBinary (md_at pre xs))"
  unfolding msgpackDecode_skipBinary_def msgpackDecode_readBinary_def
  by (cases xs) (auto simp: md_switch_at md_load_at md_skip_sized_at Suc_le_eq)

text \<open>A read that succeeds is of the type that \<open>getType\<close> reports.\<close>

lemma switch_Some:
  "md_switch (md_at pre xs) f = Some (Some v, md') \<Longrightarrow> \<exists>b ys. xs = b # ys \<and> f b = Some (Some v, md')"
  by (cases xs) (simp_all add: md_switch_at)

lemma getType_at: "msgpackDecode_getType (md_at pre (b # xs)) = Some (md_type b)"
  by (auto simp: msgpackDecode_getType_def md_load_at) (auto simp: md_at_def)

lemma and_masks: "b AND 0x80 = (b AND 0xe0) AND 0x80" "b AND 0x80 = (b AND 0xf0) AND 0x80"
  "b AND 0xe0 = (b AND 0xf0) AND 0xe0" for b :: u8
  by (simp_all add: and.assoc)

lemma md_type_fix:
  "b AND 0x80 = 0 \<Longrightarrow> md_type b = eMsgpackInteger"
  "b AND 0xe0 = 0xe0 \<Longrightarrow> md_type b = eMsgpackInteger"
  "b AND 0xe0 = 0xa0 \<Longrightarrow> md_type b = eMsgpackString"
  "b AND 0xf0 = 0x90 \<Longrightarrow> md_type b = eMsgpackArray"
  "b AND 0xf0 = 0x80 \<Longrightarrow> md_type b = eMsgpackMap"
  using and_masks [of b]
  by (auto simp: md_type_def)

lemma md_type_simps [simp]:
  "md_type 0xcc = eMsgpackInteger" "md_type 0xcd = eMsgpackInteger" "md_type 0xce = eMsgpackInteger"
  "md_type 0xcf = eMsgpackInteger" "md_type 0xd0 = eMsgpackInteger" "md_type 0xd1 = eMsgpackInteger"
  "md_type 0xd2 = eMsgpackInteger" "md_type 0xd3 = eMsgpackInteger"
  "md_type 0xc2 = eMsgpackBoolean" "md_type 0xc3 = eMsgpackBoolean" "md_type 0xc0 = eMsgpackNil"
  "md_type 0xd9 = eMsgpackString" "md_type 0xda = eMsgpackString" "md_type 0xdb = eMsgpackString"
  "md_type 0xc4 = eMsgpackBinary" "md_type 0xc5 = eMsgpackBinary" "md_type 0xc6 = eMsgpackBinary"
  "md_type 0xc7 = eMsgpackUserPointer" "md_type 0xc8 = eMsgpackUserPointer" "md_type 0xc9 = eMsgpackUserPointer"
  "md_type 0xdc = eMsgpackArray" "md_type 0xdd = eMsgpackArray"
  "md_type 0xde = eMsgpackMap" "md_type 0xdf = eMsgpackMap"
  by (simp_all add: md_type_def)

lemma read_types:
  "msgpackDecode_readInteger (md_at pre xs) = Some (Some v, md') \<Longrightarrow> msgpackDecode_getType (md_at pre xs) = Some eMsgpackInteger"
  "msgpackDecode_readBoolean (md_at pre xs) = Some (Some b, md') \<Longrightarrow> msgpackDecode_getType (md_at pre xs) = Some eMsgpackBoolean"
  "msgpackDecode_readString (md_at pre xs) = Some (Some s, md') \<Longrightarrow> msgpackDecode_getType (md_at pre xs) = Some eMsgpackString"
  "msgpackDecode_readBinary (md_at pre xs) = Some (Some s, md') \<Longrightarrow> msgpackDecode_getType (md_at pre xs) = Some eMsgpackBinary"
  "msgpackDecode_readArray (md_at pre xs) = Some (Some v, md') \<Longrightarrow> msgpackDecode_getType (md_at pre xs) = Some eMsgpackArray"
  "msgpackDecode_readMap (md_at pre xs) = Some (Some v, md') \<Longrightarrow> msgpackDecode_getType (md_at pre xs) = Some eMsgpackMap"
  "msgpackDecode_readUserPointer (md_at pre xs) = Some (Some v, md') \<Longrightarrow> msgpackDecode_getType (md_at pre xs) = Some eMsgpackUserPointer"
  "msgpackDecode_skipNil (md_at pre xs) = Some (Some u, md') \<Longrightarrow> msgpackDecode_getType (md_at pre xs) = Some eMsgpackNil"
  unfolding msgpackDecode_readInteger_def msgpackDecode_readBoolean_def msgpackDecode_readString_def
    msgpackDecode_readBinary_def msgpackDecode_skipNil_def
    msgpackDecode_readArray_def msgpackDecode_readMap_def msgpackDecode_readUserPointer_def
  by (drule switch_Some, elim exE conjE, simp add: getType_at md_type_fix split: if_splits)+

section \<open>Properties\<close>

text \<open>A decoder on a whole buffer, at a position inside it.\<close>

definition md_valid :: "msgpackDecode \<Rightarrow> bool" where
  "md_valid md \<longleftrightarrow> md_nLength md = length (md_pBuffer md) \<and> md_nOffset md \<le> md_nLength md"

text \<open>A result that is defined, keeps the decoder valid and on its buffer, leaves it as it was on failure
  and advances it on success.\<close>

definition md_progress :: "msgpackDecode \<Rightarrow> 'a md_result \<Rightarrow> bool" where
  "md_progress md r \<longleftrightarrow> (case r of None \<Rightarrow> False | Some (res, md') \<Rightarrow>
     md_valid md' \<and> md_pBuffer md' = md_pBuffer md \<and>
     (case res of None \<Rightarrow> md' = md | Some _ \<Rightarrow> md_nOffset md < md_nOffset md'))"

lemma md_validE:
  assumes "md_valid md"
  obtains "md = md_at (take (md_nOffset md) (md_pBuffer md)) (drop (md_nOffset md) (md_pBuffer md))"
  using assms md_at_exists by (auto simp: md_valid_def)

lemma fine_progress: "md_fine pre xs r \<Longrightarrow> md_progress (md_at pre xs) r"
  by (auto simp: md_fine_def md_progress_def md_valid_def md_at_def)

text \<open>\<open>peekInteger\<close> gives what \<open>readInteger\<close> gives, and stays where it is.\<close>

lemma peek_at: "md_peek (md_at pre xs) n conv = map_option (\<lambda>(r, _). (r, md_at pre xs)) (md_take (md_at pre xs) n conv)"
  by (simp add: md_peek_at md_take_at)

lemma if_map: "(if c then map_option f x else map_option f y) = map_option f (if c then x else y)"
  by simp

lemma peek_read: "msgpackDecode_peekInteger (md_at pre xs) = map_option (\<lambda>(r, _). (r, md_at pre xs)) (msgpackDecode_readInteger (md_at pre xs))"
proof (cases xs)
  case Nil
  then show ?thesis by (simp add: msgpackDecode_peekInteger_def msgpackDecode_readInteger_def md_switch_at)
next
  case (Cons b ys)
  show ?thesis unfolding Cons
    by (simp only: msgpackDecode_peekInteger_def msgpackDecode_readInteger_def md_switch_at list.case peek_at if_map [symmetric] option.map prod.case)
qed

lemma getType_defined: "msgpackDecode_getType (md_at pre xs) \<noteq> None"
  by (cases xs) (simp_all add: getType_at, simp add: msgpackDecode_getType_def md_at_def)

text \<open>C32: On any bytes whatever, every reading and skipping operation of the decoder (but \<open>readReal\<close>, which is not modelled) stays inside the buffer,
  leaves the decoder untouched when it fails, and otherwise moves forward without passing the end; only \<open>readBinary\<close> reads one byte past the end when the
  rest of the buffer is the byte \<open>0xc4\<close>.  \<open>getType\<close> and \<open>peekInteger\<close> stay inside the buffer and do not move.\<close>

theorem decoder_safe:
  assumes "md_valid md"
  shows "md_progress md (msgpackDecode_readInteger md) \<and> md_progress md (msgpackDecode_readBoolean md) \<and>
    md_progress md (msgpackDecode_readString md) \<and> md_progress md (msgpackDecode_readArray md) \<and>
    md_progress md (msgpackDecode_readMap md) \<and> md_progress md (msgpackDecode_readUserPointer md) \<and>
    md_progress md (msgpackDecode_skipInteger md) \<and> md_progress md (msgpackDecode_skipBoolean md) \<and>
    md_progress md (msgpackDecode_skipReal md) \<and> md_progress md (msgpackDecode_skipString md) \<and>
    md_progress md (msgpackDecode_skipBinary md) \<and> md_progress md (msgpackDecode_skipNil md) \<and>
    (if drop (md_nOffset md) (md_pBuffer md) = [0xc4] then msgpackDecode_readBinary md = None
     else md_progress md (msgpackDecode_readBinary md)) \<and>
    msgpackDecode_getType md \<noteq> None \<and>
    (\<exists>v. msgpackDecode_peekInteger md = Some (v, md) \<and> map_option fst (msgpackDecode_readInteger md) = Some v)"
proof (rule md_validE [OF assms])
  let ?p = "take (md_nOffset md) (md_pBuffer md)" and ?x = "drop (md_nOffset md) (md_pBuffer md)"
  assume e: "md = md_at ?p ?x"
  have reads: "md_progress md (msgpackDecode_readInteger md)" "md_progress md (msgpackDecode_readBoolean md)"
    "md_progress md (msgpackDecode_readString md)" "md_progress md (msgpackDecode_readArray md)"
    "md_progress md (msgpackDecode_readMap md)" "md_progress md (msgpackDecode_readUserPointer md)"
    using e by (metis fine_progress reads_fine)+
  have skips: "md_progress md (msgpackDecode_skipInteger md)" "md_progress md (msgpackDecode_skipBoolean md)"
    "md_progress md (msgpackDecode_skipReal md)" "md_progress md (msgpackDecode_skipString md)"
    "md_progress md (msgpackDecode_skipBinary md)" "md_progress md (msgpackDecode_skipNil md)"
    using e by (metis fine_progress skips_fine)+
  have bin: "if ?x = [0xc4] then msgpackDecode_readBinary md = None else md_progress md (msgpackDecode_readBinary md)"
  proof (cases "?x = [0xc4]")
    case True
    with e binary_undefined [of ?p] show ?thesis by simp
  next
    case False
    from fine_progress [OF binary_fine [OF this, of ?p]] e False show ?thesis by metis
  qed
  have type: "msgpackDecode_getType md \<noteq> None" using e getType_defined by metis
  obtain v md' where r: "msgpackDecode_readInteger md = Some (v, md')"
    using reads(1) by (auto simp: md_progress_def split: option.splits)
  have "msgpackDecode_peekInteger md = map_option (\<lambda>(r, _). (r, md)) (msgpackDecode_readInteger md)" using e peek_read by metis
  with r have "\<exists>v. msgpackDecode_peekInteger md = Some (v, md) \<and> map_option fst (msgpackDecode_readInteger md) = Some v" by simp
  with reads skips bin type show ?thesis by blast
qed

lemma decoder_safe_witness:
  "md_progress \<lparr>md_pBuffer = [0xd9, 200, 1], md_nLength = 3, md_nOffset = 0\<rparr>
     (msgpackDecode_readString \<lparr>md_pBuffer = [0xd9, 200, 1], md_nLength = 3, md_nOffset = 0\<rparr>)"
  using decoder_safe [of "\<lparr>md_pBuffer = [0xd9, 200, 1], md_nLength = 3, md_nOffset = 0\<rparr>"]
  by (simp add: md_valid_def)

text \<open>\<open>readBinary\<close> reads one byte past the buffer exactly when the byte \<open>0xc4\<close> is the last one of it;
  otherwise it is safe in the same sense.\<close>

theorem readBinary_overread:
  assumes "md_valid md"
  shows "(msgpackDecode_readBinary md = None \<longleftrightarrow> drop (md_nOffset md) (md_pBuffer md) = [0xc4]) \<and>
    (drop (md_nOffset md) (md_pBuffer md) \<noteq> [0xc4] \<longrightarrow> md_progress md (msgpackDecode_readBinary md))"
proof (rule md_validE [OF assms])
  let ?p = "take (md_nOffset md) (md_pBuffer md)" and ?x = "drop (md_nOffset md) (md_pBuffer md)"
  assume e: "md = md_at ?p ?x"
  show ?thesis
  proof (cases "?x = [0xc4]")
    case True
    with e binary_undefined [of ?p] show ?thesis by simp
  next
    case False
    from binary_fine [OF this, of ?p] have "md_fine ?p ?x (msgpackDecode_readBinary md)" using e by simp
    then have "md_progress md (msgpackDecode_readBinary md)" using fine_progress e by metis
    with False show ?thesis by (auto simp: md_progress_def split: option.splits)
  qed
qed

lemma readBinary_overread_witness:
  "msgpackDecode_readBinary \<lparr>md_pBuffer = [0xc0, 0xc4], md_nLength = 2, md_nOffset = 1\<rparr> = None"
  using readBinary_overread [of "\<lparr>md_pBuffer = [0xc0, 0xc4], md_nLength = 2, md_nOffset = 1\<rparr>"]
  by (simp add: md_valid_def)

text \<open>Skipping does what reading does: on any valid decoder each skip returns success and moves exactly
  as the read of its type; for binaries this needs the case in which \<open>readBinary\<close> overreads excluded.\<close>

theorem skip_is_read:
  assumes "md_valid md"
  shows "msgpackDecode_skipInteger md = forget (msgpackDecode_readInteger md) \<and>
    msgpackDecode_skipBoolean md = forget (msgpackDecode_readBoolean md) \<and>
    msgpackDecode_skipString md = forget (msgpackDecode_readString md) \<and>
    (drop (md_nOffset md) (md_pBuffer md) \<noteq> [0xc4] \<longrightarrow>
      msgpackDecode_skipBinary md = forget (msgpackDecode_readBinary md))"
  by (rule md_validE [OF assms]) (metis skip_forget skipBinary_forget)

lemma skip_is_read_witness:
  "msgpackDecode_skipString \<lparr>md_pBuffer = [0xa1, 7, 9], md_nLength = 3, md_nOffset = 0\<rparr> =
     forget (msgpackDecode_readString \<lparr>md_pBuffer = [0xa1, 7, 9], md_nLength = 3, md_nOffset = 0\<rparr>)"
  using skip_is_read [of "\<lparr>md_pBuffer = [0xa1, 7, 9], md_nLength = 3, md_nOffset = 0\<rparr>"]
  by (simp add: md_valid_def)

definition md_succeeds :: "'a md_result \<Rightarrow> bool" where
  "md_succeeds r = (case r of Some (Some v, _) \<Rightarrow> True | _ \<Rightarrow> False)"

lemma md_succeedsE: "md_succeeds r \<Longrightarrow> (\<And>v md'. r = Some (Some v, md') \<Longrightarrow> thesis) \<Longrightarrow> thesis"
  by (auto simp: md_succeeds_def split: option.splits prod.splits)

text \<open>\<open>getType\<close> and the reads agree: on a valid decoder a read that succeeds is one of the type that
  \<open>getType\<close> reports there, so a client that dispatches on it never needs another read.\<close>

theorem getType_sound:
  assumes "md_valid md"
  shows "(md_succeeds (msgpackDecode_readInteger md) \<longrightarrow> msgpackDecode_getType md = Some eMsgpackInteger) \<and>
    (md_succeeds (msgpackDecode_readBoolean md) \<longrightarrow> msgpackDecode_getType md = Some eMsgpackBoolean) \<and>
    (md_succeeds (msgpackDecode_readString md) \<longrightarrow> msgpackDecode_getType md = Some eMsgpackString) \<and>
    (md_succeeds (msgpackDecode_readBinary md) \<longrightarrow> msgpackDecode_getType md = Some eMsgpackBinary) \<and>
    (md_succeeds (msgpackDecode_readArray md) \<longrightarrow> msgpackDecode_getType md = Some eMsgpackArray) \<and>
    (md_succeeds (msgpackDecode_readMap md) \<longrightarrow> msgpackDecode_getType md = Some eMsgpackMap) \<and>
    (md_succeeds (msgpackDecode_readUserPointer md) \<longrightarrow> msgpackDecode_getType md = Some eMsgpackUserPointer) \<and>
    (md_succeeds (msgpackDecode_skipNil md) \<longrightarrow> msgpackDecode_getType md = Some eMsgpackNil)"
  by (rule md_validE [OF assms]) (metis md_succeedsE read_types)

lemma getType_sound_witness:
  "msgpackDecode_getType \<lparr>md_pBuffer = [0xd1, 1, 2], md_nLength = 3, md_nOffset = 0\<rparr> = Some eMsgpackInteger"
proof -
  have "md_succeeds (msgpackDecode_readInteger \<lparr>md_pBuffer = [0xd1, 1, 2], md_nLength = 3, md_nOffset = 0\<rparr>)"
    by (simp add: md_succeeds_def msgpackDecode_readInteger_def md_switch_def md_load_def md_take_def)
  with getType_sound [of "\<lparr>md_pBuffer = [0xd1, 1, 2], md_nLength = 3, md_nOffset = 0\<rparr>"] show ?thesis
    by (simp add: md_valid_def)
qed

end
