(* ===== verification/Msgpack.thy ===== *)
theory Msgpack
  imports MsgpackEncode MsgpackDecode
begin

text \<open>The encoder and the decoder of MessagePack together.\<close>

section \<open>Joining what was split\<close>

lemma ucast_byte: "ucast (byte_at k v) = take_bit 8 (drop_bit (8 * k) v)" if "LENGTH('a::len) \<ge> 8"
  for v :: u64
  unfolding byte_at_def by (rule bit_word_eqI) (auto simp: bit_simps)

lemma be_expand:
  "be 2 v = [byte_at 1 v, byte_at 0 v]"
  "be 4 v = [byte_at 3 v, byte_at 2 v, byte_at 1 v, byte_at 0 v]"
  "be 8 v = [byte_at 7 v, byte_at 6 v, byte_at 5 v, byte_at 4 v, byte_at 3 v, byte_at 2 v, byte_at 1 v, byte_at 0 v]"
  by (simp_all add: be_def upt_rec eval_nat_numeral)

lemma byte_0: "ucast (byte_at 0 v) = take_bit 8 v" 
  unfolding byte_at_def by (rule bit_word_eqI) (auto simp: bit_simps)

lemma join_step: "m = k + 8 \<Longrightarrow> 8 * j = k \<Longrightarrow> push_bit k (ucast (byte_at j v)) OR take_bit k v = take_bit m v"
  unfolding byte_at_def by (rule bit_word_eqI) (auto simp: bit_simps)

lemma join16_be: "join16 (f # be 2 v @ xs) = take_bit 16 v"
  by (simp add: join16_def be_expand byte_0 join_step)

lemma join64_be: "join64 (f # be 8 v @ xs) = v"
proof -
  have "join64 (f # be 8 v @ xs) = take_bit 64 v"
    by (simp add: join64_def be_expand byte_0 join_step or.assoc del: take_bit_length_eq)
  also have "\<dots> = v" by (rule bit_word_eqI) (simp add: bit_simps)
  finally show ?thesis .
qed

lemma byte_0_32: "ucast (byte_at 0 v) = (take_bit 8 (ucast v) :: u32)"
  unfolding byte_at_def by (rule bit_word_eqI) (auto simp: bit_simps)

lemma join_step_32: "m = k + 8 \<Longrightarrow> 8 * j = k \<Longrightarrow>
   push_bit k (ucast (byte_at j v)) OR take_bit k (ucast v) = (take_bit m (ucast v) :: u32)"
  unfolding byte_at_def by (rule bit_word_eqI) (auto simp: bit_simps)

lemma join32_be: "join32 (f # be 4 v @ xs) = ucast v"
proof -
  have "join32 (f # be 4 v @ xs) = take_bit 32 (ucast v)"
    by (simp add: join32_def be_expand byte_0_32 join_step_32 or.assoc del: take_bit_length_eq)
  also have "\<dots> = ucast v" by (rule bit_word_eqI) (simp add: bit_simps)
  finally show ?thesis .
qed

section \<open>Reading back what was written\<close>

text \<open>The reader a client calls for the type that \<open>getType\<close> announces.\<close>

definition read_item :: "msgpackDecode \<Rightarrow> mp_item md_result" where
  "read_item md = do {
     t \<leftarrow> msgpackDecode_getType md;
     (case t of
        eMsgpackInteger \<Rightarrow> map_option (map_prod (map_option MpInteger) id) (msgpackDecode_readInteger md)
      | eMsgpackBoolean \<Rightarrow> map_option (map_prod (map_option MpBoolean) id) (msgpackDecode_readBoolean md)
      | eMsgpackString \<Rightarrow> map_option (map_prod (map_option MpString) id) (msgpackDecode_readString md)
      | eMsgpackBinary \<Rightarrow> map_option (map_prod (map_option MpBinary) id) (msgpackDecode_readBinary md)
      | eMsgpackArray \<Rightarrow> map_option (map_prod (map_option MpArray) id) (msgpackDecode_readArray md)
      | eMsgpackMap \<Rightarrow> map_option (map_prod (map_option MpMap) id) (msgpackDecode_readMap md)
      | eMsgpackNil \<Rightarrow> map_option (map_prod (map_option (\<lambda>_. MpNil)) id) (msgpackDecode_skipNil md)
      | eMsgpackUserPointer \<Rightarrow> map_option (map_prod (map_option MpUserPointer) id) (msgpackDecode_readUserPointer md)
      | _ \<Rightarrow> Some (None, md)) }"

fun item_ok :: "mp_item \<Rightarrow> bool" where
  "item_ok (MpString s) = (length s < 2 ^ 32)"
| "item_ok (MpBinary s) = (length s < 2 ^ 32)"
| "item_ok (MpArray v) = (0 \<le> sint v \<and> sint v < 2 ^ 32)"
| "item_ok (MpMap v) = (0 \<le> sint v \<and> sint v < 2 ^ 32)"
| "item_ok _ = True"

lemma take_be [simp]: "take n (be n v @ xs) = be n v" "drop n (be n v @ xs) = xs"
  by simp_all

lemma join_be: "join16 (f # be 2 v) = take_bit 16 v" "join32 (f # be 4 v) = ucast v" "join64 (f # be 8 v) = v"
  using join16_be [of f v "[]"] join32_be [of f v "[]"] join64_be [of f v "[]"] by simp_all

lemma and_0x80: "b AND 0x80 = 0 \<longleftrightarrow> \<not> bit b 7" for b :: u8
  using and_exp_eq_0_iff_not_bit [of b 7] by simp

lemma fix_positive:
  fixes v :: u64
  assumes "0 \<le> sint v" "sint v < 2 ^ 7"
  shows "(ucast v :: u8) AND 0x80 = 0" "ucast (ucast v :: u8) = v"
    "(ucast v :: u8) \<notin> {0xcc, 0xd0, 0xcd, 0xd1, 0xce, 0xd2, 0xcf, 0xd3}"
proof -
  have u: "uint v < 2 ^ 7" using assms uint_eq_sint by simp
  then have t: "take_bit 7 v = v" by (rule take_bit_small)
  have nb: "\<not> bit v n" if "7 \<le> n" for n
  proof -
    have "bit v n = bit (take_bit 7 v) n" by (simp only: t)
    then show ?thesis using that by (simp add: bit_simps)
  qed
  show z: "(ucast v :: u8) AND 0x80 = 0"
    by (simp add: and_0x80 bit_simps nb)
  then show "(ucast v :: u8) \<notin> {0xcc, 0xd0, 0xcd, 0xd1, 0xce, 0xd2, 0xcf, 0xd3}"
    by auto
  show "ucast (ucast v :: u8) = v" using u by (simp add: ucast_byte_small)
qed

lemma fix_negative:
  fixes v :: u64
  assumes "-32 \<le> sint v" "sint v < 0"
  shows "(ucast v :: u8) AND 0xe0 = 0xe0" "cast_i8 (ucast v) = v"
    "(ucast v :: u8) AND 0x80 \<noteq> 0"
    "(ucast v :: u8) \<notin> {0xcc, 0xd0, 0xcd, 0xd1, 0xce, 0xd2, 0xcf, 0xd3}"
proof -
  have s: "signed_take_bit 5 v = v" by (rule signed_take_bit_small) (use assms in simp_all)
  have same: "bit v n = bit v 5" if "5 \<le> n" "n < 64" for n
  proof -
    have "bit v n = bit (signed_take_bit 5 v) n" by (simp only: s)
    with that show ?thesis by (simp add: bit_simps min_def)
  qed
  have "bit v 63" using assms bit_last_iff [of v] by simp
  then have b: "bit v n" if "5 \<le> n" "n < 64" for n
    using same [of 63] same [of n] that by simp
  have m: "(0xe0 :: u8) = push_bit 5 (mask 3)" by (simp add: push_bit_eq_mult mask_eq_exp_minus_1)
  show e: "(ucast v :: u8) AND 0xe0 = 0xe0"
    unfolding m by (rule bit_word_eqI) (auto simp: bit_simps b)
  show "cast_i8 (ucast v) = v" using assms by (simp add: cast_i8_small)
  show "(ucast v :: u8) AND 0x80 \<noteq> 0"
    by (simp add: and_0x80 bit_simps b)
  show "(ucast v :: u8) \<notin> {0xcc, 0xd0, 0xcd, 0xd1, 0xce, 0xd2, 0xcf, 0xd3}"
    using e by auto
qed

lemma integer_roundtrip:
  "msgpackDecode_readInteger (md_at pre (wire_int v @ post)) = Some (Some v, md_at (pre @ wire_int v) post)"
  "\<exists>b xs. wire_int v = b # xs \<and> md_type b = eMsgpackInteger"
proof -
  let ?i = "sint v"
  have u: "0 \<le> ?i \<Longrightarrow> uint v = ?i" by (rule uint_eq_sint)
  consider "0 \<le> ?i" "?i < 2 ^ 7" | "-32 \<le> ?i" "?i < 0" | "2 ^ 7 \<le> ?i" "?i < 2 ^ 8" | "2 ^ 8 \<le> ?i" "?i < 2 ^ 16"
    | "2 ^ 16 \<le> ?i" "?i < 2 ^ 32" | "2 ^ 32 \<le> ?i" | "?i < -32" "- (2 ^ 7) \<le> ?i" 
    | "?i < - (2 ^ 7)" "- (2 ^ 15) \<le> ?i" | "?i < - (2 ^ 15)" "- (2 ^ 31) \<le> ?i" | "?i < - (2 ^ 31)" by linarith
  then have "msgpackDecode_readInteger (md_at pre (wire_int v @ post)) = Some (Some v, md_at (pre @ wire_int v) post) \<and>
    (\<exists>b xs. wire_int v = b # xs \<and> md_type b = eMsgpackInteger)"
  proof cases
    case 1
    with fix_positive [OF 1] show ?thesis
      by (simp add: wire_int_def msgpackDecode_readInteger_def md_at_simps md_forward_at md_type_fix)
  next
    case 2
    with fix_negative [OF 2] show ?thesis
      by (simp add: wire_int_def msgpackDecode_readInteger_def md_at_simps md_forward_at md_type_fix)
  next
    case 3
    with u show ?thesis
      by (simp add: wire_int_def msgpackDecode_readInteger_def md_at_simps ucast_byte_small)
  next
    case 4
    with u show ?thesis
      by (simp add: wire_int_def msgpackDecode_readInteger_def md_at_simps join_be take_bit_small)
  next
    case 5
    with u show ?thesis
      by (simp add: wire_int_def msgpackDecode_readInteger_def md_at_simps join_be cast_u32_small)
  next
    case 6
    then show ?thesis
      by (simp add: wire_int_def msgpackDecode_readInteger_def md_at_simps join_be)
  next
    case 7
    then show ?thesis
      by (simp add: wire_int_def msgpackDecode_readInteger_def md_at_simps cast_i8_small)
  next
    case 8
    then show ?thesis
      by (simp add: wire_int_def msgpackDecode_readInteger_def md_at_simps join_be cast_i16_small)
  next
    case 9
    then show ?thesis
      by (simp add: wire_int_def msgpackDecode_readInteger_def md_at_simps join_be cast_i32_small)
  next
    case 10
    then show ?thesis
      by (simp add: wire_int_def msgpackDecode_readInteger_def md_at_simps join_be)
  qed
  then show "msgpackDecode_readInteger (md_at pre (wire_int v @ post)) = Some (Some v, md_at (pre @ wire_int v) post)"
    "\<exists>b xs. wire_int v = b # xs \<and> md_type b = eMsgpackInteger" by blast+
qed

lemma fix_length:
  assumes "n < 32"
  defines "x \<equiv> 0xa0 OR ucast (of_nat n :: u64) :: u8"
  shows "x AND 0xe0 = 0xa0" "unat (x AND 0x1f) = n"
proof -
  let ?y = "of_nat n :: u8"
  have y: "ucast (of_nat n :: u64) = ?y" by (rule bit_word_eqI) (auto simp: bit_simps)
  have u: "uint ?y = int n" using assms by (simp add: uint_nat unat_of_nat)
  then have t: "?y = ?y AND 0x1f"
    using assms take_bit_small [of ?y 5] by (simp add: take_bit_eq_mask mask_eq_exp_minus_1)
  have z: "?y AND 0xe0 = 0" by (subst t) (simp add: and.assoc)
  show "x AND 0xe0 = 0xa0" unfolding x_def y by (simp add: bit.conj_disj_distrib2 z)
  have "x AND 0x1f = ?y" unfolding x_def y by (simp add: bit.conj_disj_distrib2 t [symmetric])
  then show "unat (x AND 0x1f) = n" using u by (simp add: unat_eq_nat_uint)
qed

lemma fix_count:
  fixes v :: u64
  assumes "0 \<le> sint v" "sint v < 16" "c \<in> {0x80, 0x90 :: u8}"
  defines "x \<equiv> c OR ucast (v AND 0xf)"
  shows "x AND 0xf0 = c" "ucast (x AND 0xf) = v"
proof -
  let ?y = "ucast v :: u8"
  have uv: "uint v < 16" using assms uint_eq_sint by simp
  then have v: "v AND 0xf = v" using take_bit_small [of v 4] by (simp add: take_bit_eq_mask mask_eq_exp_minus_1)
  have uy: "uint ?y = uint v" using uv by (simp add: unsigned_ucast_eq take_bit_int_eq_self)
  then have t: "?y = ?y AND 0xf"
    using uv take_bit_small [of ?y 4] by (simp add: take_bit_eq_mask mask_eq_exp_minus_1)
  have z: "?y AND 0xf0 = 0" by (subst t) (simp add: and.assoc)
  show "x AND 0xf0 = c" unfolding x_def v using assms(3) by (auto simp: bit.conj_disj_distrib2 z)
  have "x AND 0xf = ?y" unfolding x_def v using assms(3) by (auto simp: bit.conj_disj_distrib2 t [symmetric])
  then show "ucast (x AND 0xf) = v" using uv by (simp add: ucast_byte_small)
qed

lemma unat_lengths:
  "n < 2 ^ 8 \<Longrightarrow> unat (ucast (of_nat n :: u64) :: u8) = n"
  "n < 2 ^ 16 \<Longrightarrow> unat (take_bit 16 (of_nat n :: u64)) = n"
  "n < 2 ^ 32 \<Longrightarrow> unat (ucast (of_nat n :: u64) :: u32) = n"
  by (simp_all add: unsigned_ucast_eq unsigned_take_bit_eq unsigned_of_nat take_bit_nat_eq_self)

lemma take_header:
  "take (3 + n) (f # be 2 v @ xs) = f # be 2 v @ take n xs" "drop (3 + n) (f # be 2 v @ xs) = drop n xs"
  "take (5 + n) (f # be 4 v @ xs) = f # be 4 v @ take n xs" "drop (5 + n) (f # be 4 v @ xs) = drop n xs"
  by (simp_all add: take_Cons' drop_Cons')

lemma readString_fix:
  "b AND 0xe0 = 0xa0 \<Longrightarrow> msgpackDecode_readString (md_at pre (b # xs)) =
    md_payload (md_at pre (b # xs)) 1 (unat (b AND 0x1f))"
  by (auto simp: msgpackDecode_readString_def md_switch_at)

lemma string_roundtrip:
  assumes "length s < 2 ^ 32"
  shows "msgpackDecode_readString (md_at pre (wire (MpString s) @ post)) =
      Some (Some s, md_at (pre @ wire (MpString s)) post)"
    "\<exists>b xs. wire (MpString s) = b # xs \<and> md_type b = eMsgpackString"
proof -
  consider "length s < 32" | "32 \<le> length s" "length s < 2 ^ 8" | "2 ^ 8 \<le> length s" "length s < 2 ^ 16"
    | "2 ^ 16 \<le> length s" by linarith
  then have "msgpackDecode_readString (md_at pre (wire (MpString s) @ post)) =
      Some (Some s, md_at (pre @ wire (MpString s)) post) \<and>
    (\<exists>b xs. wire (MpString s) = b # xs \<and> md_type b = eMsgpackString)"
  proof cases
    case 1
    define b :: u8 where "b = 0xa0 OR ucast (of_nat (length s) :: u64)"
    from fix_length [OF 1] have b: "b AND 0xe0 = 0xa0" "unat (b AND 0x1f) = length s"
      by (simp_all only: b_def)
    from 1 have w: "wire (MpString s) = b # s" by (simp add: wire_length_def b_def)
    show ?thesis unfolding w by (simp add: readString_fix b md_payload_at md_type_fix(3))
  next
    case 2
    with unat_lengths(1) [of "length s"] show ?thesis
      by (simp add: wire_length_def msgpackDecode_readString_def md_at_simps)
  next
    case 3
    with unat_lengths(2) [of "length s"] show ?thesis
      by (simp add: wire_length_def msgpackDecode_readString_def md_at_simps join_be take_header)
  next
    case 4
    with unat_lengths(3) [of "length s"] assms show ?thesis
      by (simp add: wire_length_def msgpackDecode_readString_def md_at_simps join_be take_header)
  qed
  then show "msgpackDecode_readString (md_at pre (wire (MpString s) @ post)) =
      Some (Some s, md_at (pre @ wire (MpString s)) post)"
    "\<exists>b xs. wire (MpString s) = b # xs \<and> md_type b = eMsgpackString" by blast+
qed

lemma binary_roundtrip:
  assumes "length s < 2 ^ 32"
  shows "msgpackDecode_readBinary (md_at pre (wire (MpBinary s) @ post)) =
      Some (Some s, md_at (pre @ wire (MpBinary s)) post)"
    "\<exists>b xs. wire (MpBinary s) = b # xs \<and> md_type b = eMsgpackBinary"
proof -
  consider "length s < 2 ^ 8" | "2 ^ 8 \<le> length s" "length s < 2 ^ 16" | "2 ^ 16 \<le> length s" by linarith
  then have "msgpackDecode_readBinary (md_at pre (wire (MpBinary s) @ post)) =
      Some (Some s, md_at (pre @ wire (MpBinary s)) post) \<and>
    (\<exists>b xs. wire (MpBinary s) = b # xs \<and> md_type b = eMsgpackBinary)"
  proof cases
    case 1
    with unat_lengths(1) [of "length s"] show ?thesis
      by (simp add: wire_length_def msgpackDecode_readBinary_def md_at_simps md_load_at)
  next
    case 2
    with unat_lengths(2) [of "length s"] show ?thesis
      by (simp add: wire_length_def msgpackDecode_readBinary_def md_at_simps join_be take_header)
  next
    case 3
    with unat_lengths(3) [of "length s"] assms show ?thesis
      by (simp add: wire_length_def msgpackDecode_readBinary_def md_at_simps join_be take_header)
  qed
  then show "msgpackDecode_readBinary (md_at pre (wire (MpBinary s) @ post)) =
      Some (Some s, md_at (pre @ wire (MpBinary s)) post)"
    "\<exists>b xs. wire (MpBinary s) = b # xs \<and> md_type b = eMsgpackBinary" by blast+
qed

lemma count_roundtrip:
  assumes "0 \<le> sint v" "sint v < 2 ^ 32"
  shows "msgpackDecode_readArray (md_at pre (wire (MpArray v) @ post)) = Some (Some v, md_at (pre @ wire (MpArray v)) post) \<and>
      (\<exists>b xs. wire (MpArray v) = b # xs \<and> md_type b = eMsgpackArray)" (is ?arr)
    "msgpackDecode_readMap (md_at pre (wire (MpMap v) @ post)) = Some (Some v, md_at (pre @ wire (MpMap v)) post) \<and>
      (\<exists>b xs. wire (MpMap v) = b # xs \<and> md_type b = eMsgpackMap)" (is ?map)
proof -
  have u: "uint v = sint v" using assms uint_eq_sint by simp
  consider "sint v < 16" | "16 \<le> sint v" "sint v < 2 ^ 16" | "2 ^ 16 \<le> sint v" by linarith
  then have "?arr \<and> ?map"
  proof cases
    case 1
    from fix_count [OF assms(1) 1, of "0x80"] fix_count [OF assms(1) 1, of "0x90"] show ?thesis using 1
      by (auto simp: wire_count_def msgpackDecode_readArray_def msgpackDecode_readMap_def md_at_simps
          md_forward_at md_type_fix)
  next
    case 2
    with u show ?thesis
      by (simp add: wire_count_def msgpackDecode_readArray_def msgpackDecode_readMap_def md_at_simps
          join_be take_bit_small)
  next
    case 3
    with u assms show ?thesis
      by (simp add: wire_count_def msgpackDecode_readArray_def msgpackDecode_readMap_def md_at_simps
          join_be cast_u32_small)
  qed
  then show ?arr ?map by blast+
qed

lemma pointer_roundtrip:
  "msgpackDecode_readUserPointer (md_at pre (wire (MpUserPointer v) @ post)) =
     Some (Some v, md_at (pre @ wire (MpUserPointer v)) post)"
  "\<exists>b xs. wire (MpUserPointer v) = b # xs \<and> md_type b = eMsgpackUserPointer"
proof -
  consider "v < 2 ^ 16" | "\<not> v < 2 ^ 16" "v < 2 ^ 32" | "\<not> v < 2 ^ 16" "\<not> v < 2 ^ 32" by blast
  then have "msgpackDecode_readUserPointer (md_at pre (wire (MpUserPointer v) @ post)) =
     Some (Some v, md_at (pre @ wire (MpUserPointer v)) post) \<and>
     (\<exists>b xs. wire (MpUserPointer v) = b # xs \<and> md_type b = eMsgpackUserPointer)"
    by cases (simp_all add: wire_pointer_def msgpackDecode_readUserPointer_def md_at_simps join_be
        take_bit_small cast_u32_small word_less_def)
  then show "msgpackDecode_readUserPointer (md_at pre (wire (MpUserPointer v) @ post)) =
     Some (Some v, md_at (pre @ wire (MpUserPointer v)) post)"
  "\<exists>b xs. wire (MpUserPointer v) = b # xs \<and> md_type b = eMsgpackUserPointer" by blast+
qed

lemma read_item_at:
  assumes "item_ok i"
  shows "read_item (md_at pre (wire i @ post)) = Some (Some i, md_at (pre @ wire i) post)"
proof (cases i)
  case (MpInteger v)
  with integer_roundtrip(1) [of pre v post] integer_roundtrip(2) [of v] show ?thesis
    by (auto simp: read_item_def getType_at)
next
  case (MpString s)
  with assms string_roundtrip(1) [of s pre post] string_roundtrip(2) [of s] show ?thesis
    by (auto simp: read_item_def getType_at simp del: wire.simps)
next
  case (MpBinary s)
  with assms binary_roundtrip(1) [of s pre post] binary_roundtrip(2) [of s] show ?thesis
    by (auto simp: read_item_def getType_at simp del: wire.simps)
next
  case (MpArray v)
  with assms count_roundtrip(1) [of v pre post] count_roundtrip(2) [of v pre post] show ?thesis
    by (auto simp: read_item_def getType_at simp del: wire.simps)
next
  case (MpMap v)
  with assms count_roundtrip(1) [of v pre post] count_roundtrip(2) [of v pre post] show ?thesis
    by (auto simp: read_item_def getType_at simp del: wire.simps)
next
  case (MpUserPointer v)
  with pointer_roundtrip(1) [of pre v post] pointer_roundtrip(2) [of v] show ?thesis
    by (auto simp: read_item_def getType_at simp del: wire.simps)
next
  case (MpBoolean b)
  then show ?thesis
    by (simp add: read_item_def getType_at msgpackDecode_readBoolean_def md_at_simps md_forward_at)
next
  case MpNil
  then show ?thesis
    by (simp add: read_item_def getType_at msgpackDecode_skipNil_def md_at_simps md_forward_at)
qed

text \<open>The items as a codec: the decoder on a fresh buffer, and what it leaves.\<close>

definition mp_dec :: "bytes \<Rightarrow> (mp_item \<times> bytes) option" where
  "mp_dec bs = (case read_item (msgpackDecode_init bs (length bs) 0) of
     Some (Some i, md) \<Rightarrow> Some (i, drop (md_nOffset md) bs) | _ \<Rightarrow> None)"

lemma init_at: "msgpackDecode_init bs (length bs) 0 = md_at [] bs"
  by (simp add: msgpackDecode_init_def md_at_def)

lemma wire_nonempty: "wire i \<noteq> []"
  by (cases i) (auto simp: wire_int_def wire_length_def wire_count_def wire_pointer_def Let_def)

interpretation mp: item_codec wire item_ok mp_dec
proof
  show "mp_dec (wire a @ rest) = Some (a, rest)" if "item_ok a" for a rest
    unfolding mp_dec_def init_at read_item_at [OF that, of "[]" rest] by (simp add: md_at_def)
qed (rule wire_nonempty)

section \<open>Properties\<close>

text \<open>Reading until the end of the buffer, as the clients do; the fuel is the number of items allowed.\<close>

fun read_all :: "nat \<Rightarrow> msgpackDecode \<Rightarrow> mp_item list option" where
  "read_all 0 md = None"
| "read_all (Suc n) md =
     (if msgpackDecode_isEnd md then Some []
      else do {
        (r, md) \<leftarrow> read_item md;
        i \<leftarrow> r;
        is \<leftarrow> read_all n md;
        Some (i # is) })"

lemma isEnd_at: "msgpackDecode_isEnd (md_at pre xs) \<longleftrightarrow> xs = []"
  by (simp add: msgpackDecode_isEnd_def md_at_def)

lemma read_all_at:
  "list_all item_ok is \<Longrightarrow> length is < n \<Longrightarrow> read_all n (md_at pre (concat (map wire is))) = Some is"
proof (induction "is" arbitrary: n pre)
  case Nil
  then show ?case by (cases n) (simp_all add: isEnd_at)
next
  case (Cons i "is")
  then obtain m where "n = Suc m" "length is < m" by (cases n) auto
  with Cons.prems Cons.IH [of m] read_item_at [of i pre "concat (map wire is)"] show ?case
    by (simp add: isEnd_at wire_nonempty)
qed

text \<open>C13: What the encoder writes the decoder reads back: for every sequence of integers, booleans, nils, pointers,
  strings and binaries below \<open>2 ^ 32\<close> bytes, and headers of arrays and maps with counts from 0 to \<open>2 ^ 32 - 1\<close> (a longer string or a negative count is not), an encoder that starts without a
  buffer of the caller writes them, and the bytes in its buffer decode to the same sequence, whereupon the decoder reports the end.\<close>

theorem msgpack_roundtrip:
  assumes "list_all item_ok is"
  shows "\<exists>me. write_items (msgpackEncode_init None nLength None) is = Some me \<and>
    read_all (Suc (length is))
      (msgpackDecode_init (map the (take (msgpackEncode_getWritten me) (me_pBuffer me))) (msgpackEncode_getWritten me) 0)
      = Some is"
proof -
  have "me_holds (msgpackEncode_init None nLength None) []" by (rule init_holds) (simp_all add: expand_ok_def)
  from write_items_holds [OF this, of "is"] obtain me where me:
    "write_items (msgpackEncode_init None nLength None) is = Some me" "me_holds me (concat (map wire is))" by auto
  from me(2) me_holds_length [OF me(2)]
  have "map the (take (msgpackEncode_getWritten me) (me_pBuffer me)) = concat (map wire is)"
    "msgpackEncode_getWritten me = length (concat (map wire is))"
    by (simp_all add: me_holds_def msgpackEncode_getWritten_def comp_def)
  with me read_all_at [OF assms, of "Suc (length is)" "[]"] show ?thesis
    by (metis init_at lessI)
qed

lemma msgpack_roundtrip_witness:
  "\<exists>me. write_items (msgpackEncode_init None 0 None)
       [MpMap 1, MpString [97], MpInteger (-40000), MpBinary [], MpUserPointer 0xdeadbeef00] = Some me \<and>
    read_all (Suc (length [MpMap 1, MpString [97], MpInteger (-40000), MpBinary [], MpUserPointer 0xdeadbeef00]))
      (msgpackDecode_init (map the (take (msgpackEncode_getWritten me) (me_pBuffer me))) (msgpackEncode_getWritten me) 0) =
      Some [MpMap 1, MpString [97], MpInteger (-40000), MpBinary [], MpUserPointer 0xdeadbeef00]"
  by (rule msgpack_roundtrip) simp

text \<open>The encoding is unambiguous: two sequences of items whose encodings are the same bytes are the
  same sequence, and no item's encoding is a proper prefix of another's.\<close>

theorem msgpack_unambiguous:
  assumes "list_all item_ok is" "list_all item_ok js"
  shows "(concat (map wire is) = concat (map wire js) \<longleftrightarrow> is = js) \<and>
    (item_ok i \<and> item_ok j \<and> wire i @ r = wire j @ r' \<longrightarrow> i = j)"
  using mp.sequence_unambiguous [OF assms] mp.prefix_free [of i j r r'] by blast

lemma msgpack_unambiguous_witness:
  "concat (map wire [MpInteger 5, MpNil]) \<noteq> concat (map wire [MpInteger 5, MpBoolean True])"
  using msgpack_unambiguous [of "[MpInteger 5, MpNil]" "[MpInteger 5, MpBoolean True]"] by simp

end
