(* ===== verification/Tpack.thy ===== *)
theory Tpack
  imports ByteQueue Buffers
begin

text \<open>
  The tpack frame format of \<open>core/source/codec/tpack_t.c\<close>: decoding a frame head and a frame from a byte
  queue, and encoding a message into frames, from one buffer or from a vector of buffers.

  A frame is a byte of final bit and opcode, a length byte (or \<open>0xff\<close> and two bytes, most significant
  first), four bytes of token for the opcodes that carry one, and the payload.  A message of more than
  65534 bytes is cut into fragments of 65535.
\<close>

section \<open>Decoding\<close>

record tpackHead =
  th_uiPayloadLen :: nat
  th_uiFlag :: u8
  th_uiOffset :: nat

text \<open>The bytes a queue read copies out; reading an uninitialised byte is undefined.\<close>

definition bq_read :: "byteQueue \<Rightarrow> nat \<Rightarrow> bool \<Rightarrow> (bytes \<times> byteQueue) option" where
  "bq_read q n bPeek = do {
     (r, q) \<leftarrow> byteQueue_readBytes q n bPeek;
     b \<leftarrow> r;
     bs \<leftarrow> those b;
     Some (bs, q) }"

text \<open>The \<open>switch\<close> on the opcode: the flag, or \<open>None\<close> for the result -1.\<close>

definition tp_flag :: "u8 \<Rightarrow> u8 option" where
  "tp_flag opcode =
     (if opcode = 0 then Some 0
      else if opcode = 1 then Some 0x10
      else if opcode = 2 then Some 0x20
      else if opcode = 3 then Some 0x30
      else if opcode = 4 then Some 0x40
      else if opcode = 5 then Some 0x50
      else if opcode = 6 then Some 0x60
      else if opcode = 7 then Some 0x70
      else None)"

definition tp_has_token :: "u8 \<Rightarrow> bool" where
  "tp_has_token uiFlag \<longleftrightarrow> uiFlag = 0x30 \<or> uiFlag = 0x40 \<or> uiFlag = 0x50 \<or> uiFlag = 0x60 \<or> uiFlag = 0x70"

text \<open>The checks that a whole frame is there: the head grows by 4 for a token.\<close>

definition tp_complete :: "tpackHead \<Rightarrow> nat \<Rightarrow> nat \<Rightarrow> u8 \<Rightarrow> int \<times> tpackHead" where
  "tp_complete head nPlain nBytesWritten b0 =
     (let nHead = (if tp_has_token (th_uiFlag head) then nPlain + 4 else nPlain) in
      if th_uiPayloadLen head + nHead > nBytesWritten then (0, head)
      else
        (1, head\<lparr>th_uiOffset := nHead,
                 th_uiFlag := (if b0 AND 0x80 = 0x80 then th_uiFlag head OR 0x80 else th_uiFlag head)\<rparr>))"

text \<open>Every path of the \<open>while\<close> loop returns, so its body runs at most once.\<close>

definition tpack_decodeHead :: "byteQueue \<Rightarrow> tpackHead \<Rightarrow> (int \<times> tpackHead) option" where
  "tpack_decodeHead q head =
     (let nBytesWritten = byteQueue_getBytesReadable q; head = head\<lparr>th_uiOffset := 0\<rparr> in
      if nBytesWritten \<ge> 2 then do {
        (sz, _) \<leftarrow> bq_read q 2 True;
        (case tp_flag (sz ! 0 AND 0x0f) of
           None \<Rightarrow> Some (-1, head)
         | Some uiFlag \<Rightarrow>
             let head = head\<lparr>th_uiFlag := uiFlag, th_uiPayloadLen := unat (sz ! 1)\<rparr> in
             if th_uiPayloadLen head < 0xff then Some (tp_complete head 2 nBytesWritten (sz ! 0))
             else if nBytesWritten < 4 then Some (0, head)
             else do {
               (sz, _) \<leftarrow> bq_read q 4 True;
               let head = head\<lparr>th_uiPayloadLen := unat (push_bit 8 (ucast (sz ! 2)) OR ucast (sz ! 3) :: u16)\<rparr>;
               Some (tp_complete head 4 nBytesWritten (sz ! 0)) }) }
      else Some (0, head))"

text \<open>On success the payload goes to \<open>pOutBuf\<close>; the result also holds the flag and the token.\<close>

record tpackFrame =
  tf_pOutBuf :: cbuf
  tf_uiFlag :: u8
  tf_uiToken :: u32

definition tp_join :: "bytes \<Rightarrow> u32" where
  "tp_join szToken = push_bit 24 (ucast (szToken ! 0)) OR push_bit 16 (ucast (szToken ! 1)) OR
     push_bit 8 (ucast (szToken ! 2)) OR ucast (szToken ! 3)"

definition tpack_decode :: "byteQueue \<Rightarrow> cbuf \<Rightarrow> (int \<times> byteQueue \<times> tpackFrame option) option" where
  "tpack_decode q pOutBuf = do {
     (r, head) \<leftarrow> tpack_decodeHead q \<lparr>th_uiPayloadLen = 0, th_uiFlag = 0, th_uiOffset = 0\<rparr>;
     if r = 1 then do {
       (q, uiToken) \<leftarrow>
         (if th_uiOffset head > 4 then do {
            q \<leftarrow> byteQueue_readOffset q (th_uiOffset head - 4);
            (szToken, q) \<leftarrow> bq_read q 4 False;
            Some (q, tp_join szToken) }
          else do {
            q \<leftarrow> byteQueue_readOffset q (th_uiOffset head);
            Some (q, 0) });
       (q, pPackBuffer) \<leftarrow>
         (if th_uiPayloadLen head > 0 then do {
            (b, q) \<leftarrow> byteQueue_readBytes q (th_uiPayloadLen head) False;
            p \<leftarrow> b;
            Some (q, p) }
          else Some (q, []));
       Some (r, q, Some \<lparr>tf_pOutBuf = fst (cbuf_swap pOutBuf pPackBuffer (th_uiPayloadLen head)),
                         tf_uiFlag = th_uiFlag head, tf_uiToken = uiToken\<rparr>) }
     else Some (r, q, None) }"

section \<open>Encoding\<close>

text \<open>The \<open>switch\<close> on the flag: the opcode, and whether four bytes of token follow.\<close>

definition tp_opcode :: "u8 \<Rightarrow> u8 \<times> bool" where
  "tp_opcode uiFlag =
     (if uiFlag = 0x10 then (1, False)
      else if uiFlag = 0x20 then (2, False)
      else if uiFlag = 0x30 then (3, True)
      else if uiFlag = 0x40 then (4, True)
      else if uiFlag = 0x50 then (5, True)
      else if uiFlag = 0x60 then (6, True)
      else if uiFlag = 0x70 then (7, True)
      else (0, False))"

definition tp_token :: "u32 \<Rightarrow> bytes" where
  "tp_token uiToken =
     [ucast (drop_bit 24 uiToken AND 0xff), ucast (drop_bit 16 uiToken AND 0xff),
      ucast (drop_bit 8 uiToken AND 0xff), ucast (uiToken AND 0xff)]"

text \<open>The length of the head of a frame of \<open>n\<close> payload bytes, so \<open>iLength - n\<close> in the code.\<close>

definition tp_head_length :: "nat \<Rightarrow> bool \<Rightarrow> nat" where
  "tp_head_length n bToken = (if n < 0xff then (if bToken then 6 else 2) else (if bToken then 8 else 4))"

text \<open>
  The stores that fill the head of a block: the token, the length, then the first byte.  (The code of a
  full fragment writes the constants \<open>0xff\<close>, which are what these stores give for 65535.)
\<close>

definition tp_fill_head :: "block \<Rightarrow> u8 \<Rightarrow> nat \<Rightarrow> bool \<Rightarrow> u32 \<Rightarrow> block option" where
  "tp_fill_head b b0 n bToken uiToken =
     (let w = (of_nat n :: u64) in
      if n < 0xff then do {
        b \<leftarrow> (if bToken then mem_store b 2 (map Some (tp_token uiToken)) else Some b);
        b \<leftarrow> mem_store b 1 [Some (ucast (w AND 0xff))];
        mem_store b 0 [Some b0] }
      else do {
        b \<leftarrow> (if bToken then mem_store b 4 (map Some (tp_token uiToken)) else Some b);
        b \<leftarrow> mem_store b 1 [Some 0xff];
        b \<leftarrow> mem_store b 2 [Some (ucast (drop_bit 8 w AND 0xff))];
        b \<leftarrow> mem_store b 3 [Some (ucast (w AND 0xff))];
        mem_store b 0 [Some b0] })"

text \<open>One output buffer: a block of \<open>nAlloc\<close> bytes, its head, and \<open>n\<close> bytes of \<open>pBuffer\<close> from \<open>nFrom\<close>.\<close>

definition tp_frame :: "nat \<Rightarrow> u8 \<Rightarrow> bool \<Rightarrow> u32 \<Rightarrow> bytes \<Rightarrow> nat \<Rightarrow> nat \<Rightarrow> (block \<times> nat) option" where
  "tp_frame nAlloc b0 bToken uiToken pBuffer nFrom n = do {
     b \<leftarrow> tp_fill_head (mem_malloc nAlloc) b0 n bToken uiToken;
     xs \<leftarrow> mem_load (map Some pBuffer) nFrom n;
     b \<leftarrow> mem_store b (tp_head_length n bToken) xs;
     Some (b, tp_head_length n bToken + n) }"

text \<open>The allocation of the last fragment, and of the others.\<close>

definition tp_alloc_last :: "nat \<Rightarrow> bool \<Rightarrow> nat" where
  "tp_alloc_last n bToken =
     (if n < 0xff then (if bToken then 6 + n else 2) else (if bToken then 8 + n else 4 + n))"

definition tp_alloc_full :: "bool \<Rightarrow> nat" where
  "tp_alloc_full bToken = (if bToken then 8 else 4 + 0xffff)"

text \<open>\<open>j\<close> and \<open>j * 0xffff\<close> are \<open>int32_t\<close>: the product is undefined from \<open>2 ^ 31\<close> on.\<close>

definition tp_fragment :: "bytes \<Rightarrow> u8 \<Rightarrow> bool \<Rightarrow> u32 \<Rightarrow> nat \<Rightarrow> nat \<Rightarrow> (block \<times> nat) option" where
  "tp_fragment pBuffer uiOpcode bToken uiToken iFragmentCount j =
     (if 2 ^ 31 \<le> j * 0xffff then None
      else if j = iFragmentCount - 1 then
        (let n = length pBuffer - j * 0xffff in
         tp_frame (tp_alloc_last n bToken) 0x80 bToken uiToken pBuffer (j * 0xffff) n)
      else tp_frame (tp_alloc_full bToken) (if j = 0 then uiOpcode else 0) bToken uiToken pBuffer
             (j * 0xffff) 0xffff)"

text \<open>The loop over the fragments from \<open>j\<close>.\<close>

fun tp_fragments :: "(nat \<Rightarrow> (block \<times> nat) option) \<Rightarrow> nat list \<Rightarrow> (block \<times> nat) list option" where
  "tp_fragments frag [] = Some []"
| "tp_fragments frag (j # js) = do { f \<leftarrow> frag j; fs \<leftarrow> tp_fragments frag js; Some (f # fs) }"

definition tpack_encode :: "bytes \<Rightarrow> u8 \<Rightarrow> u32 \<Rightarrow> (block \<times> nat) list option" where
  "tpack_encode pBuffer uiFlag uiToken =
     (let nLength = length pBuffer; (uiOpcode, bToken) = tp_opcode uiFlag;
          iFragmentCount = nLength div 0xffff + 1
      in if iFragmentCount = 1 then do {
           f \<leftarrow> tp_frame (tp_head_length nLength bToken + nLength) (uiOpcode OR 0x80) bToken uiToken pBuffer 0 nLength;
           Some [f] }
         else tp_fragments (tp_fragment pBuffer uiOpcode bToken uiToken iFragmentCount) [0..<iFragmentCount])"

definition tpack_encodeBufCount :: "nat \<Rightarrow> nat" where
  "tpack_encodeBufCount nLength = nLength div 0xffff + 1"

text \<open>A buffer vector, of buffers below \<open>2 ^ 31\<close> bytes, as their lengths are \<open>int32_t\<close>: the fragment is gathered from the rest of the vector, at an offset in its first
  buffer.  Reading past the last buffer of the vector is undefined.\<close>

fun tp_gather :: "bytes list \<Rightarrow> nat \<Rightarrow> block \<Rightarrow> nat \<Rightarrow> nat \<Rightarrow> (block \<times> bytes list \<times> nat) option" where
  "tp_gather [] nSrcBufOffset b nOffset iLength = None"
| "tp_gather (x # xs) nSrcBufOffset b nOffset iLength =
     (if length x - nSrcBufOffset > iLength - nOffset then do {
        ys \<leftarrow> mem_load (map Some x) nSrcBufOffset (iLength - nOffset);
        b \<leftarrow> mem_store b nOffset ys;
        Some (b, x # xs, nSrcBufOffset + (iLength - nOffset)) }
      else do {
        ys \<leftarrow> mem_load (map Some x) nSrcBufOffset (length x - nSrcBufOffset);
        b \<leftarrow> mem_store b nOffset ys;
        let nOffset = nOffset + (length x - nSrcBufOffset);
        if nOffset = iLength then Some (b, xs, 0) else tp_gather xs 0 b nOffset iLength })"

definition tp_vec_fragment ::
  "nat \<Rightarrow> u8 \<Rightarrow> bool \<Rightarrow> u32 \<Rightarrow> nat \<Rightarrow> nat \<Rightarrow> bytes list \<times> nat \<Rightarrow> ((block \<times> nat) \<times> bytes list \<times> nat) option" where
  "tp_vec_fragment nLength uiOpcode bToken uiToken iFragmentCount j src =
     (let n = (if j = iFragmentCount - 1 then nLength - j * 0xffff else 0xffff);
          b0 = (if j = iFragmentCount - 1 then 0x80 else if j = 0 then uiOpcode else 0);
          iLength = tp_head_length n bToken + n
      in if j = iFragmentCount - 1 \<and> 2 ^ 31 \<le> j * 0xffff then None
      else do {
        b \<leftarrow> tp_fill_head (mem_malloc iLength) b0 n bToken uiToken;
        (b, src) \<leftarrow> tp_gather (fst src) (snd src) b (iLength - n) iLength;
        Some ((b, iLength), src) })"

text \<open>The single frame copies every buffer in turn.\<close>

fun tp_copy_all :: "bytes list \<Rightarrow> block \<Rightarrow> nat \<Rightarrow> block option" where
  "tp_copy_all [] b nOffset = Some b"
| "tp_copy_all (x # xs) b nOffset = do {
     b \<leftarrow> mem_store b nOffset (map Some x);
     tp_copy_all xs b (nOffset + length x) }"

definition tpack_encodeVec :: "bytes list \<Rightarrow> u8 \<Rightarrow> u32 \<Rightarrow> (block \<times> nat) list option" where
  "tpack_encodeVec pInBufVec uiFlag uiToken =
     (let nLength = sum_list (map length pInBufVec); (uiOpcode, bToken) = tp_opcode uiFlag;
          iFragmentCount = nLength div 0xffff + 1
      in if iFragmentCount = 1 then do {
           let iLength = tp_head_length nLength bToken + nLength;
           b \<leftarrow> tp_fill_head (mem_malloc iLength) (uiOpcode OR 0x80) nLength bToken uiToken;
           b \<leftarrow> tp_copy_all pInBufVec b (iLength - nLength);
           Some [(b, iLength)] }
         else map_option fst (run_ops
           (\<lambda>src j. tp_vec_fragment nLength uiOpcode bToken uiToken iFragmentCount j src)
           (pInBufVec, 0) [0..<iFragmentCount]))"

definition tpack_encodeVecBufCount :: "bytes list \<Rightarrow> nat" where
  "tpack_encodeVecBufCount pInBufVec = sum_list (map length pInBufVec) div 0xffff + 1"

section \<open>The frame format\<close>

text \<open>A frame as its receiver sees it: the flag with its final bit, the token, the payload.\<close>

datatype tp_msg = TpMsg (tp_uiFlag: u8) (tp_uiToken: u32) (tp_payload: bytes)

text \<open>The head of \<open>n\<close> bytes of payload, and the frame, as bytes on the wire.\<close>

definition tp_head :: "u8 \<Rightarrow> nat \<Rightarrow> bool \<Rightarrow> u32 \<Rightarrow> bytes" where
  "tp_head b0 n bToken uiToken =
     b0 # (if n < 0xff then [of_nat n] else [0xff, of_nat (n div 256), of_nat n]) @
     (if bToken then tp_token uiToken else [])"

definition tp_first :: "u8 \<Rightarrow> u8" where
  "tp_first uiFlag = (uiFlag AND 0x80) OR drop_bit 4 (uiFlag AND 0x70)"

definition tp_enc :: "tp_msg \<Rightarrow> bytes" where
  "tp_enc m = tp_head (tp_first (tp_uiFlag m)) (length (tp_payload m)) (tp_has_token (tp_uiFlag m AND 0x70))
     (tp_uiToken m) @ tp_payload m"

definition tp_ok :: "tp_msg \<Rightarrow> bool" where
  "tp_ok m \<longleftrightarrow> tp_uiFlag m \<in> {0, 0x10, 0x20, 0x30, 0x40, 0x50, 0x60, 0x70,
       0x80, 0x90, 0xa0, 0xb0, 0xc0, 0xd0, 0xe0, 0xf0} \<and>
     length (tp_payload m) < 2 ^ 16 \<and>
     (\<not> tp_has_token (tp_uiFlag m AND 0x70) \<longrightarrow> tp_uiToken m = 0)"

text \<open>What the decoder does, on the bytes of the queue.\<close>

definition tp_body :: "bytes \<Rightarrow> u8 \<Rightarrow> nat \<Rightarrow> nat \<Rightarrow> tp_msg frame" where
  "tp_body bs uiFlag nPlain n =
     (let nHead = (if tp_has_token uiFlag then nPlain + 4 else nPlain) in
      if n + nHead > length bs then FrameNeed
      else FrameGot
        (TpMsg (if bs ! 0 AND 0x80 = 0x80 then uiFlag OR 0x80 else uiFlag)
           (if tp_has_token uiFlag then tp_join (drop nPlain bs) else 0) (take n (drop nHead bs)))
        (drop (nHead + n) bs))"

definition tp_parse :: "bytes \<Rightarrow> tp_msg frame" where
  "tp_parse bs =
     (if length bs < 2 then FrameNeed
      else case tp_flag (bs ! 0 AND 0x0f) of
        None \<Rightarrow> FrameBad
      | Some uiFlag \<Rightarrow>
          if bs ! 1 \<noteq> 0xff then tp_body bs uiFlag 2 (unat (bs ! 1))
          else if length bs < 4 then FrameNeed
          else tp_body bs uiFlag 4 (unat (bs ! 2) * 256 + unat (bs ! 3)))"

lemma those_Some [simp]: "those (map Some xs) = Some xs"
  by (induction xs) simp_all

lemma bq_read_peek:
  "bq_rep q xs \<Longrightarrow> 0 < n \<Longrightarrow> n \<le> length xs \<Longrightarrow> bq_read q n True = Some (take n xs, q)"
  using bq_source.peek [of q xs n] by (cases xs) (simp_all add: bq_read_def)

lemma bq_read_take:
  "bq_rep q xs \<Longrightarrow> 0 < n \<Longrightarrow> n \<le> length xs \<Longrightarrow>
     \<exists>q'. bq_read q n False = Some (take n xs, q') \<and> bq_rep q' (drop n xs)"
  using bq_source.take_off [of q xs n] by (cases xs) (auto simp: bq_read_def)

lemma join_nat: "unat (push_bit 8 (ucast a) OR ucast b :: u16) = unat a * 256 + unat b" for a b :: u8
proof -
  have "push_bit 8 (ucast a :: u16) AND ucast b = 0"
    by (rule bit_word_eqI) (auto simp: bit_simps dest: bit_imp_le_length)
  then have "push_bit 8 (ucast a) OR ucast b = push_bit 8 (ucast a :: u16) + ucast b"
    by (simp add: disjunctive_add_eq_or)
  moreover have "unat a < 256" "unat b < 256" using unsigned_less [of a] unsigned_less [of b] by simp_all
  ultimately show ?thesis
    by (simp add: push_bit_eq_mult unat_word_ariths unsigned_ucast_eq take_bit_nat_eq_self)
qed

lemma unat_byte: "unat (b :: u8) < 256"
  using unsigned_less [of b, where 'a = nat] by simp

lemma unat_byte_255: "b \<noteq> 0xff \<Longrightarrow> unat (b :: u8) < 255"
proof -
  assume "b \<noteq> 0xff"
  then have "unat b \<noteq> unat (0xff :: u8)" by (metis word_unat_eq_iff)
  then have "unat b \<noteq> 255" by simp
  with unat_byte [of b] show ?thesis by linarith
qed

text \<open>The head that \<open>decodeHead\<close> reports agrees with the parse of the bytes of the queue.\<close>

definition head_agrees :: "bytes \<Rightarrow> int \<Rightarrow> tpackHead \<Rightarrow> tp_msg frame \<Rightarrow> bool" where
  "head_agrees xs r head p \<longleftrightarrow>
     (case p of FrameNeed \<Rightarrow> r = 0 | FrameBad \<Rightarrow> r = -1
      | FrameGot m rest \<Rightarrow>
          let h = th_uiOffset head; n = th_uiPayloadLen head in
          r = 1 \<and> h \<in> {2, 4, 6, 8} \<and> h + n \<le> length xs \<and> th_uiFlag head = tp_uiFlag m \<and>
          tp_payload m = take n (drop h xs) \<and> rest = drop (h + n) xs \<and>
          tp_uiToken m = (if h > 4 then tp_join (drop (h - 4) xs) else 0))"

lemma complete_agrees:
  assumes "nPlain \<in> {2, 4}"
  shows "head_agrees xs (fst (tp_complete head nPlain (length xs) (xs ! 0)))
    (snd (tp_complete head nPlain (length xs) (xs ! 0)))
    (tp_body xs (th_uiFlag head) nPlain (th_uiPayloadLen head))"
proof -
  obtain h where h: "h = (if tp_has_token (th_uiFlag head) then nPlain + 4 else nPlain)" by blast
  show ?thesis
  proof (cases "th_uiPayloadLen head + h > length xs")
    case True
    then show ?thesis by (simp add: head_agrees_def tp_complete_def tp_body_def h [symmetric])
  next
    case False
    moreover have "h \<in> {2, 4, 6, 8}" "h > 4 \<longleftrightarrow> tp_has_token (th_uiFlag head)" "h > 4 \<Longrightarrow> h - 4 = nPlain"
      using assms by (auto simp: h)
    ultimately show ?thesis
      by (auto simp add: head_agrees_def tp_complete_def tp_body_def h [symmetric] Let_def add.commute)
  qed
qed

lemma decodeHead_rep:
  assumes "bq_rep q xs"
  shows "\<exists>r head'. tpack_decodeHead q head = Some (r, head') \<and> head_agrees xs r head' (tp_parse xs)"
proof -
  have r: "byteQueue_getBytesReadable q = length xs" using assms by (rule rep_readable)
  show ?thesis
  proof (cases "length xs < 2")
    case True
    then show ?thesis by (simp add: tpack_decodeHead_def r tp_parse_def head_agrees_def)
  next
    case False
    then have p2: "bq_read q 2 True = Some (take 2 xs, q)" using bq_read_peek [OF assms] by simp
    show ?thesis
    proof (cases "tp_flag (xs ! 0 AND 0x0f)")
      case None
      with False show ?thesis by (simp add: tpack_decodeHead_def r p2 tp_parse_def head_agrees_def)
    next
      case (Some f)
      show ?thesis
      proof (cases "xs ! 1 = 0xff")
        case short: False
        let ?h = "head\<lparr>th_uiOffset := 0, th_uiFlag := f, th_uiPayloadLen := unat (xs ! 1)\<rparr>"
        have "tpack_decodeHead q head = Some (tp_complete ?h 2 (length xs) (xs ! 0))"
          using unat_byte_255 [OF short] Some False by (simp add: tpack_decodeHead_def r p2)
        moreover have "head_agrees xs (fst (tp_complete ?h 2 (length xs) (xs ! 0)))
            (snd (tp_complete ?h 2 (length xs) (xs ! 0))) (tp_parse xs)"
          using complete_agrees [of 2 xs ?h] short Some False by (simp add: tp_parse_def)
        ultimately show ?thesis by (metis prod.collapse)
      next
        case long: True
        show ?thesis
        proof (cases "length xs < 4")
          case True
          with long Some False show ?thesis
            by (simp add: tpack_decodeHead_def r p2 tp_parse_def Let_def head_agrees_def)
        next
          case l4: False
          then have p4: "bq_read q 4 True = Some (take 4 xs, q)" using bq_read_peek [OF assms] by simp
          let ?h = "head\<lparr>th_uiOffset := 0, th_uiFlag := f,
            th_uiPayloadLen := unat (xs ! 2) * 256 + unat (xs ! 3)\<rparr>"
          have "tpack_decodeHead q head = Some (tp_complete ?h 4 (length xs) (xs ! 0))"
            using long Some False l4 by (simp add: tpack_decodeHead_def r p2 p4 join_nat)
          moreover have "head_agrees xs (fst (tp_complete ?h 4 (length xs) (xs ! 0)))
              (snd (tp_complete ?h 4 (length xs) (xs ! 0))) (tp_parse xs)"
            using complete_agrees [of 4 xs ?h] long Some False l4 by (simp add: tp_parse_def)
          ultimately show ?thesis by (metis prod.collapse)
        qed
      qed
    qed
  qed
qed

lemma decode_rep:
  assumes "bq_rep q xs"
  shows "\<exists>r q' f. tpack_decode q pOutBuf = Some (r, q', f) \<and>
    (case tp_parse xs of
       FrameNeed \<Rightarrow> r = 0 \<and> q' = q \<and> f = None
     | FrameBad \<Rightarrow> r = -1 \<and> q' = q \<and> f = None
     | FrameGot m rest \<Rightarrow> r = 1 \<and> bq_rep q' rest \<and>
         (\<exists>fr. f = Some fr \<and> cb_pBuffer (tf_pOutBuf fr) = map Some (tp_payload m) \<and>
           cb_nLength (tf_pOutBuf fr) = length (tp_payload m) \<and>
           tf_uiFlag fr = tp_uiFlag m \<and> tf_uiToken fr = tp_uiToken m))"
proof -
  from decodeHead_rep [OF assms] obtain r h where h:
    "tpack_decodeHead q \<lparr>th_uiPayloadLen = 0, th_uiFlag = 0, th_uiOffset = 0\<rparr> = Some (r, h)"
    "head_agrees xs r h (tp_parse xs)" by blast
  show ?thesis
  proof (cases "tp_parse xs")
    case FrameNeed
    with h show ?thesis by (simp add: tpack_decode_def head_agrees_def)
  next
    case FrameBad
    with h show ?thesis by (simp add: tpack_decode_def head_agrees_def)
  next
    case (FrameGot m rest)
    let ?o = "th_uiOffset h" and ?n = "th_uiPayloadLen h"
    from h FrameGot have a: "r = 1" "?o \<in> {2, 4, 6, 8}" "?o + ?n \<le> length xs" "th_uiFlag h = tp_uiFlag m"
      "tp_payload m = take ?n (drop ?o xs)" "rest = drop (?o + ?n) xs"
      "tp_uiToken m = (if ?o > 4 then tp_join (drop (?o - 4) xs) else 0)"
      by (simp_all add: head_agrees_def Let_def)
    have lp: "length (tp_payload m) = ?n" using a by simp
    obtain q1 where q1: "(if ?o > 4 then do {
            q \<leftarrow> byteQueue_readOffset q (?o - 4);
            (szToken, q) \<leftarrow> bq_read q 4 False;
            Some (q, tp_join szToken) }
          else do {
            q \<leftarrow> byteQueue_readOffset q ?o;
            Some (q, 0) }) = Some (q1, tp_uiToken m)" "bq_rep q1 (drop ?o xs)"
    proof (cases "?o > 4")
      case True
      from rep_readOffset [OF assms, of "?o - 4"] a obtain q0 where
        q0: "byteQueue_readOffset q (?o - 4) = Some q0" "bq_rep q0 (drop (?o - 4) xs)" by auto
      have "4 \<le> length (drop (?o - 4) xs)" using a(2,3) True by auto
      from bq_read_take [OF q0(2) _ this] a(2) True obtain q2 where
        "bq_read q0 4 False = Some (take 4 (drop (?o - 4) xs), q2)" "bq_rep q2 (drop 4 (drop (?o - 4) xs))" by auto
      moreover have "tp_join (take 4 (drop (?o - 4) xs)) = tp_join (drop (?o - 4) xs)"
        by (simp add: tp_join_def)
      ultimately show ?thesis using True a(2,7) q0 that by simp
    next
      case False
      from rep_readOffset [OF assms, of ?o] a False show ?thesis using that by auto
    qed
    obtain q2 where q2: "(if ?n > 0 then do {
            (b, q) \<leftarrow> byteQueue_readBytes q1 ?n False;
            p \<leftarrow> b;
            Some (q, p) }
          else Some (q1, [])) = Some (q2, map Some (tp_payload m))" "bq_rep q2 rest"
    proof (cases "?n > 0")
      case True
      with a have "drop ?o xs \<noteq> []" by auto
      from bq_source.take_off [OF q1(2) this True] obtain q2 where
        "byteQueue_readBytes q1 ?n False = Some (Some (map Some (take ?n (drop ?o xs))), q2)"
        "bq_rep q2 (drop ?n (drop ?o xs))" by blast
      with True a(5,6) that show ?thesis by (simp add: add.commute)
    next
      case False
      with a(5,6) q1 that show ?thesis by simp
    qed
    from h q1 q2 a FrameGot lp show ?thesis
      by (simp add: tpack_decode_def cbuf_swap_def)
  qed
qed

section \<open>What the encoder writes\<close>

lemma store_prefix:
  "off + length ys \<le> length xs \<Longrightarrow> mem_store (xs @ zs) off ys = map_option (\<lambda>b. b @ zs) (mem_store xs off ys)"
  by (simp add: mem_store_def)

lemma byte_of_nat:
  "ucast ((of_nat n :: u64) AND 0xff) = (of_nat n :: u8)"
  "n < 2 ^ 16 \<Longrightarrow> ucast (drop_bit 8 (of_nat n :: u64) AND 0xff) = (of_nat (n div 256) :: u8)"
proof -
  have m: "(0xff :: u64) = mask 8" by (simp add: mask_eq_exp_minus_1)
  show "ucast ((of_nat n :: u64) AND 0xff) = (of_nat n :: u8)"
    unfolding m by (rule bit_word_eqI) (auto simp: bit_simps)
  have "(of_nat (n div 256) :: u8) = of_nat (drop_bit 8 n)" by (simp add: drop_bit_eq_div)
  then show "ucast (drop_bit 8 (of_nat n :: u64) AND 0xff) = (of_nat (n div 256) :: u8)"
    unfolding m by (simp only:) (rule bit_word_eqI, auto simp: bit_simps)
qed

lemma fill_head:
  assumes "n < 2 ^ 16"
  shows "tp_fill_head (mem_malloc (tp_head_length n bToken + k)) b0 n bToken uiToken =
    Some (map Some (tp_head b0 n bToken uiToken) @ replicate k None)"
proof -
  have r: "replicate (Suc (Suc 0)) (None :: u8 option) = [None, None]" 
    "mem_malloc (Suc (Suc k)) = [None, None] @ replicate k None"
    "mem_malloc (2 + k) = [None, None] @ replicate k None"
    "mem_malloc (4 + k) = [None, None, None, None] @ replicate k None"
    "mem_malloc (6 + k) = [None, None, None, None, None, None] @ replicate k None"
    "mem_malloc (8 + k) = [None, None, None, None, None, None, None, None] @ replicate k None"
    by (simp_all add: mem_malloc_def numeral_eq_Suc)
  note b = byte_of_nat(1) [of n] byte_of_nat(2) [OF assms]
  show ?thesis
    by (cases "n < 0xff"; cases bToken)
      (simp_all add: tp_fill_head_def tp_head_length_def r store_prefix Let_def b tp_token_def
        tp_head_def mem_store_def del: append_Cons)
qed

lemma length_tp_head [simp]: "length (tp_head b0 n bToken uiToken) = tp_head_length n bToken"
  by (simp add: tp_head_def tp_head_length_def tp_token_def)

lemma frame_ok:
  assumes "n < 2 ^ 16" "nFrom + n \<le> length pBuffer"
  shows "tp_frame (tp_head_length n bToken + n) b0 bToken uiToken pBuffer nFrom n =
    Some (map Some (tp_head b0 n bToken uiToken @ take n (drop nFrom pBuffer)), tp_head_length n bToken + n)"
  using assms fill_head [OF assms(1), of bToken n b0 uiToken]
  by (simp add: tp_frame_def mem_load_def mem_store_def take_map drop_map)

lemma frame_alloc:
  assumes "n < 2 ^ 16" "nFrom + n \<le> length pBuffer"
  shows "tp_frame (tp_head_length n bToken + k) b0 bToken uiToken pBuffer nFrom n =
    (if n \<le> k then Some (map Some (tp_head b0 n bToken uiToken @ take n (drop nFrom pBuffer)) @ replicate (k - n) None,
       tp_head_length n bToken + n) else None)"
  using assms fill_head [OF assms(1), of bToken k b0 uiToken]
  by (simp add: tp_frame_def mem_load_def mem_store_def take_map drop_map)

text \<open>The bytes that a list of output buffers sends.\<close>

definition tp_sent :: "(block \<times> nat) list \<Rightarrow> block" where
  "tp_sent fs = concat (map (\<lambda>(b, iLength). take iLength b) fs)"

text \<open>The frames of a message: one, or fragments of 65535 bytes and the rest, of which only the first has
  the opcode and only the last the final bit.\<close>

definition tp_fragment_head :: "nat \<Rightarrow> u8 \<Rightarrow> nat \<Rightarrow> u8 \<times> nat" where
  "tp_fragment_head nLength uiOpcode j =
     (if j = nLength div 0xffff then (0x80, nLength mod 0xffff) else (if j = 0 then uiOpcode else 0, 0xffff))"

definition tp_fragment_wire :: "bytes \<Rightarrow> u8 \<Rightarrow> bool \<Rightarrow> u32 \<Rightarrow> nat \<Rightarrow> bytes" where
  "tp_fragment_wire p uiOpcode bToken uiToken j =
     (let (b0, n) = tp_fragment_head (length p) uiOpcode j in
      tp_head b0 n bToken uiToken @ take n (drop (j * 0xffff) p))"

definition tp_message_wire :: "bytes \<Rightarrow> u8 \<Rightarrow> u32 \<Rightarrow> bytes" where
  "tp_message_wire p uiFlag uiToken =
     (let (uiOpcode, bToken) = tp_opcode uiFlag in
      if length p < 0xffff then tp_head (uiOpcode OR 0x80) (length p) bToken uiToken @ p
      else concat (map (tp_fragment_wire p uiOpcode bToken uiToken) [0..<length p div 0xffff + 1]))"

lemma fragments_Some:
  "(\<And>j. j \<in> set js \<Longrightarrow> frag j = Some (g j)) \<Longrightarrow> tp_fragments frag js = Some (map g js)"
  by (induction js) simp_all

lemma fragments_None: "j \<in> set js \<Longrightarrow> frag j = None \<Longrightarrow> tp_fragments frag js = None"
  by (induction js) (auto simp: bind_eq_None_conv)

lemma alloc_head:
  "tp_alloc_last n bToken = tp_head_length n bToken + (if n < 0xff \<and> \<not> bToken then 0 else n)"
  "tp_alloc_full bToken = tp_head_length 0xffff bToken + (if bToken then 0 else 0xffff)"
  by (simp_all add: tp_alloc_last_def tp_alloc_full_def tp_head_length_def)

text \<open>The offset of the last fragment is not an \<open>int32_t\<close>.\<close>

definition tp_big :: "nat \<Rightarrow> bool" where
  "tp_big n \<longleftrightarrow> 2 ^ 31 \<le> n div 0xffff * 0xffff"

lemma tp_big_less: "tp_big n \<longleftrightarrow> 32769 * 0xffff \<le> n"
proof -
  have "2 ^ 31 \<le> k * 0xffff \<longleftrightarrow> 32769 \<le> k" for k :: nat by auto
  then have "tp_big n \<longleftrightarrow> 32769 \<le> n div 0xffff" by (simp only: tp_big_def)
  also have "\<dots> \<longleftrightarrow> 32769 * 0xffff \<le> n" by (rule less_eq_div_iff_mult_less_eq) simp
  finally show ?thesis .
qed

lemma fragment_last:
  assumes "j = length p div 0xffff" "\<not> tp_big (length p)"
  shows "tp_fragment p uiOpcode bToken uiToken (length p div 0xffff + 1) j =
    (if length p mod 0xffff = 0 \<or> bToken \<or> 0xff \<le> length p mod 0xffff
     then Some (map Some (tp_fragment_wire p uiOpcode bToken uiToken j),
       length (tp_fragment_wire p uiOpcode bToken uiToken j))
     else None)"
proof -
  have n: "length p - j * 0xffff = length p mod 0xffff" using assms by (simp add: modulo_nat_def)
  have b: "length p mod 0xffff < 2 ^ 16" "j * 0xffff + length p mod 0xffff \<le> length p"
    using assms by (simp_all add: mod_less_divisor [THEN less_trans])
  have h: "tp_fragment_head (length p) uiOpcode j = (0x80, length p mod 0xffff)"
    using assms by (simp add: tp_fragment_head_def)
  have "tp_fragment p uiOpcode bToken uiToken (length p div 0xffff + 1) j =
      tp_frame (tp_alloc_last (length p mod 0xffff) bToken) 0x80 bToken uiToken p (j * 0xffff) (length p mod 0xffff)"
    unfolding tp_fragment_def n Let_def using assms by (simp add: tp_big_def)
  moreover have "length p mod 0xffff = 0 \<Longrightarrow> length p \<le> j * 0xffff" using n by simp
  ultimately show ?thesis
    by (auto simp add: alloc_head frame_alloc [OF b] tp_fragment_wire_def h n)
qed

lemma fragment_full:
  assumes "j < length p div 0xffff" "\<not> tp_big (length p)"
  shows "tp_fragment p uiOpcode bToken uiToken (length p div 0xffff + 1) j =
    (if bToken then None
     else Some (map Some (tp_fragment_wire p uiOpcode bToken uiToken j),
       length (tp_fragment_wire p uiOpcode bToken uiToken j)))"
proof -
  have small: "j * 0xffff < 2 ^ 31" using assms mult_le_mono1 [of j "length p div 0xffff" "0xffff"] by (simp add: tp_big_def)
  from assms have "j + 1 \<le> length p div 0xffff" by simp
  then have "(j + 1) * 0xffff \<le> length p" by (metis div_times_less_eq_dividend le_trans mult_le_mono1)
  then have b: "(0xffff :: nat) < 2 ^ 16" "j * 0xffff + 0xffff \<le> length p" by simp_all
  show ?thesis
    using assms(1) small b(2) frame_alloc [OF b]
    by (simp add: tp_fragment_def alloc_head tp_fragment_wire_def tp_fragment_head_def min_absorb2)
qed

lemma encode_code:
  "tpack_encode p uiFlag uiToken =
    (if length p < 0xffff \<or> \<not> tp_big (length p) \<and> \<not> snd (tp_opcode uiFlag) \<and> (length p mod 0xffff = 0 \<or> 0xff \<le> length p mod 0xffff)
     then Some (if length p < 0xffff then [(map Some (tp_message_wire p uiFlag uiToken), length (tp_message_wire p uiFlag uiToken))]
       else map (\<lambda>j. (map Some (tp_fragment_wire p (fst (tp_opcode uiFlag)) (snd (tp_opcode uiFlag)) uiToken j),
              length (tp_fragment_wire p (fst (tp_opcode uiFlag)) (snd (tp_opcode uiFlag)) uiToken j)))
              [0..<length p div 0xffff + 1])
     else None)"
proof -
  obtain oc tk where o: "tp_opcode uiFlag = (oc, tk)" by fastforce
  let ?c = "length p div 0xffff + 1"
  show ?thesis
  proof (cases "length p < 0xffff")
    case True
    then have "length p div 0xffff = 0" by simp
    with True frame_alloc [of "length p" 0 p tk "length p"] show ?thesis
      by (simp add: tpack_encode_def o tp_message_wire_def Let_def)
  next
    case False
    then have c: "length p div 0xffff \<noteq> 0" by (simp add: div_eq_0_iff)
    show ?thesis
    proof (cases "\<not> tp_big (length p) \<and> \<not> tk \<and> (length p mod 0xffff = 0 \<or> 0xff \<le> length p mod 0xffff)")
      case True
      have "tp_fragment p oc tk uiToken ?c j = Some (map Some (tp_fragment_wire p oc tk uiToken j),
              length (tp_fragment_wire p oc tk uiToken j))" if "j \<in> set [0..<?c]" for j
        using True that fragment_last [of j p oc tk uiToken] fragment_full [of j p oc tk uiToken]
        by (cases "j = length p div 0xffff") auto
      then have "tp_fragments (tp_fragment p oc tk uiToken ?c) [0..<?c] = Some (map (\<lambda>j. (map Some (tp_fragment_wire p oc tk uiToken j),
              length (tp_fragment_wire p oc tk uiToken j))) [0..<?c])"
        by (rule fragments_Some)
      with True False c show ?thesis by (simp add: tpack_encode_def o Let_def)
    next
      case bad: False
      have "\<exists>j \<in> set [0..<?c]. tp_fragment p oc tk uiToken ?c j = None"
      proof -
        consider "tp_big (length p)" | "\<not> tp_big (length p)" tk | "\<not> tp_big (length p)" "\<not> tk" by blast
        then show ?thesis
      proof cases
        case 1
        then have "tp_fragment p oc tk uiToken ?c (length p div 0xffff) = None" by (simp add: tp_fragment_def tp_big_def)
        then show ?thesis by (intro bexI [of _ "length p div 0xffff"]) auto
      next
        case 2
        with c fragment_full [of 0 p oc tk uiToken] show ?thesis by (intro bexI [of _ 0]) auto
      next
        case 3
        with bad fragment_last [of "length p div 0xffff" p oc tk uiToken] show ?thesis
          by (intro bexI [of _ "length p div 0xffff"]) auto
      qed
      qed
      then have "tp_fragments (tp_fragment p oc tk uiToken ?c) [0..<?c] = None" using fragments_None by blast
      with bad False c show ?thesis by (simp add: tpack_encode_def o Let_def)
    qed
  qed
qed

section \<open>The frames as a framing\<close>

lemma tp_first_flag:
  assumes "uiFlag \<in> {0, 0x10, 0x20, 0x30, 0x40, 0x50, 0x60, 0x70, 0x80, 0x90, 0xa0, 0xb0, 0xc0, 0xd0, 0xe0, 0xf0}"
  shows "tp_flag (tp_first uiFlag AND 0x0f) = Some (uiFlag AND 0x70)"
    "(if tp_first uiFlag AND 0x80 = 0x80 then (uiFlag AND 0x70) OR 0x80 else uiFlag AND 0x70) = uiFlag"
  using assms by (auto simp: tp_first_def tp_flag_def)

lemma token_step:
  fixes t :: u32
  shows "ucast (ucast (t AND 0xff) :: u8) = take_bit 8 t"
    "push_bit 8 (take_bit 8 (drop_bit 8 t)) OR take_bit 8 t = take_bit 16 t"
    "push_bit 16 (take_bit 8 (drop_bit 16 t)) OR take_bit 16 t = take_bit 24 t"
    "push_bit 24 (take_bit 8 (drop_bit 24 t)) OR take_bit 24 t = t"
proof -
  have m: "(0xff :: u32) = mask 8" by (simp add: mask_eq_exp_minus_1)
  show "ucast (ucast (t AND 0xff) :: u8) = take_bit 8 t"
    unfolding m by (rule bit_word_eqI) (auto simp: bit_simps)
qed (rule bit_word_eqI, auto simp: bit_simps)+

lemma tp_join_token: "tp_join (tp_token t @ xs) = t"
proof -
  have n: "(tp_token t @ xs) ! 0 = ucast (drop_bit 24 t AND 0xff)" "(tp_token t @ xs) ! 1 = ucast (drop_bit 16 t AND 0xff)"
    "(tp_token t @ xs) ! 2 = ucast (drop_bit 8 t AND 0xff)" "(tp_token t @ xs) ! 3 = ucast (t AND 0xff)"
    by (simp_all add: tp_token_def)
  show ?thesis unfolding tp_join_def n by (simp only: or.assoc token_step)
qed

lemma byte_pair: "n < 2 ^ 16 \<Longrightarrow> unat (of_nat (n div 256) :: u8) * 256 + unat (of_nat n :: u8) = n"
  by (simp add: unat_of_nat div_less_iff_less_mult)

lemma byte_255: "n < 0xff \<Longrightarrow> (of_nat n :: u8) \<noteq> 0xff"
proof
  assume "n < 0xff" "(of_nat n :: u8) = 0xff"
  then have "unat (of_nat n :: u8) = unat (0xff :: u8)" by simp
  with \<open>n < 0xff\<close> show False by (simp add: unat_of_nat)
qed

lemma head_cases:
  assumes "tp_ok m"
  obtains f n where "tp_flag (tp_first (tp_uiFlag m) AND 0x0f) = Some f" "n = length (tp_payload m)" "n < 2 ^ 16"
    "f = tp_uiFlag m AND 0x70"
    "(if tp_first (tp_uiFlag m) AND 0x80 = 0x80 then f OR 0x80 else f) = tp_uiFlag m"
    "\<not> tp_has_token f \<Longrightarrow> tp_uiToken m = 0"
    "tp_enc m = tp_head (tp_first (tp_uiFlag m)) n (tp_has_token f) (tp_uiToken m) @ tp_payload m"
  using assms that tp_first_flag [of "tp_uiFlag m"] unfolding tp_ok_def tp_enc_def by metis

lemma body_whole:
  assumes "bs = hd1 @ (if tp_has_token f then tp_token t else []) @ pl @ rest" "length hd1 = nPlain"
    "bs ! 0 = b0" "(if b0 AND 0x80 = 0x80 then f OR 0x80 else f) = g" "\<not> tp_has_token f \<Longrightarrow> t = 0"
  shows "tp_body bs f nPlain (length pl) = FrameGot (TpMsg g t pl) rest"
proof -
  have l: "length (tp_token t) = 4" by (simp add: tp_token_def)
  show ?thesis
  proof (cases "tp_has_token f")
    case True
    then have "drop nPlain bs = tp_token t @ pl @ rest" "drop (nPlain + 4) bs = pl @ rest"
      "length bs = nPlain + 4 + length pl + length rest"
      using assms(1,2) l by simp_all
    moreover from this(2) have "drop (nPlain + 4 + length pl) bs = rest"
      by (metis add.commute append_eq_conv_conj drop_drop)
    ultimately show ?thesis using True assms(3,4) by (simp add: tp_body_def tp_join_token)
  next
    case False
    then have "drop nPlain bs = pl @ rest" "length bs = nPlain + length pl + length rest"
      using assms(1,2) by simp_all
    moreover from this(1) have "drop (nPlain + length pl) bs = rest"
      by (metis add.commute append_eq_conv_conj drop_drop)
    ultimately show ?thesis using False assms(3,4,5) by (simp add: tp_body_def)
  qed
qed

lemma parse_whole:
  assumes "tp_ok m"
  shows "tp_parse (tp_enc m @ rest) = FrameGot m rest"
proof -
  from head_cases [OF assms] obtain f n where h: "tp_flag (tp_first (tp_uiFlag m) AND 0x0f) = Some f"
    "n = length (tp_payload m)" "n < 2 ^ 16" "f = tp_uiFlag m AND 0x70"
    "(if tp_first (tp_uiFlag m) AND 0x80 = 0x80 then f OR 0x80 else f) = tp_uiFlag m"
    "\<not> tp_has_token f \<Longrightarrow> tp_uiToken m = 0"
    "tp_enc m = tp_head (tp_first (tp_uiFlag m)) n (tp_has_token f) (tp_uiToken m) @ tp_payload m" by metis
  let ?b0 = "tp_first (tp_uiFlag m)" and ?bs = "tp_enc m @ rest"
  show ?thesis
  proof (cases "n < 0xff")
    case True
    then have n: "unat (of_nat n :: u8) = length (tp_payload m)" using h(2) by (simp add: unat_of_nat)
    have bs: "?bs = [?b0, of_nat n] @ (if tp_has_token f then tp_token (tp_uiToken m) else []) @ tp_payload m @ rest"
      using True by (simp add: h(7) tp_head_def)
    have "tp_body ?bs f 2 (length (tp_payload m)) = FrameGot (TpMsg (tp_uiFlag m) (tp_uiToken m) (tp_payload m)) rest"
      by (rule body_whole [OF bs]) (use h bs in simp_all)
    moreover have "tp_parse ?bs = tp_body ?bs f 2 (length (tp_payload m))"
      using h(1) byte_255 [OF True] n by (simp add: tp_parse_def bs)
    ultimately show ?thesis by simp
  next
    case False
    have n: "unat (of_nat (n div 256) :: u8) * 256 + unat (of_nat n :: u8) = length (tp_payload m)"
      using byte_pair [OF h(3)] h(2) by simp
    have bs: "?bs = [?b0, 0xff, of_nat (n div 256), of_nat n] @ (if tp_has_token f then tp_token (tp_uiToken m) else []) @
        tp_payload m @ rest"
      using False by (simp add: h(7) tp_head_def)
    have "tp_body ?bs f 4 (length (tp_payload m)) = FrameGot (TpMsg (tp_uiFlag m) (tp_uiToken m) (tp_payload m)) rest"
      by (rule body_whole [OF bs]) (use h bs in simp_all)
    moreover have "tp_parse ?bs = tp_body ?bs f 4 (length (tp_payload m))"
      using h(1) n by (simp add: tp_parse_def bs)
    ultimately show ?thesis by simp
  qed
qed

lemma parse_take:
  assumes "tp_parse bs = FrameGot m rest" "k < length bs - length rest"
  shows "tp_parse (take k bs) = FrameNeed"
proof -
  have body: "tp_body (take k bs) f nPlain n = FrameNeed"
    if "tp_body bs f nPlain n = FrameGot m rest" for f nPlain n
    using that assms(2) by (auto simp: tp_body_def Let_def split: if_splits)
  show ?thesis
    using assms(1) body unfolding tp_parse_def
    by (auto split: if_splits option.splits simp: not_less)
qed

interpretation tp: framing tp_enc tp_ok tp_parse
proof
  show "tp_parse (take k (tp_enc a)) = FrameNeed" if "tp_ok a" "k < length (tp_enc a)" for a k
    using parse_take [OF parse_whole [OF that(1), of "[]"], of k] that(2) by simp
qed (simp_all add: parse_whole, simp add: tp_parse_def)

section \<open>Gathering from a vector\<close>

text \<open>A position in the vector \<open>bufs\<close>: the rest of the vector and the offset in its first buffer, with
  the bytes \<open>S\<close> still to come.  The rest is empty only if the last buffer was not.\<close>

definition tp_source :: "bytes list \<Rightarrow> bytes \<Rightarrow> bytes list \<times> nat \<Rightarrow> bool" where
  "tp_source bufs S src \<longleftrightarrow> (case src of (xs, off) \<Rightarrow>
     drop off (concat xs) = S \<and>
     (case xs of [] \<Rightarrow> off = 0 \<and> last bufs \<noteq> []
      | x # _ \<Rightarrow> last xs = last bufs \<and> (off = 0 \<or> off < length x)))"

lemma gather:
  assumes "tp_source bufs S (xs, off)" "xs \<noteq> []" "length pre = nOff" "m \<le> length S"
  shows "\<exists>src. tp_gather xs off (map Some pre @ replicate m None) nOff (nOff + m) =
        Some (map Some (pre @ take m S), src) \<and> (0 < m \<longrightarrow> tp_source bufs (drop m S) src)"
  using assms
proof (induction xs arbitrary: off pre nOff m S)
  case Nil
  then show ?case by simp
next
  case (Cons x xs)
  from Cons.prems(1) have off: "off \<le> length x" and S: "S = drop off x @ concat xs"
    and l: "last (x # xs) = last bufs"
    by (auto simp: tp_source_def)
  let ?d = "length x - off"
  show ?case
  proof (cases "?d > m")
    case True
    then have "take m S = take m (drop off x)" "drop m S = drop (off + m) (concat (x # xs))"
      using off S by (simp_all add: add.commute)
    with True off Cons.prems(3) l show ?thesis
      by (auto simp: mem_load_def mem_store_def take_map drop_map tp_source_def)
  next
    case False
    then have st: "mem_store (map Some pre @ replicate m None) nOff (map Some (drop off x)) =
        Some (map Some (pre @ drop off x) @ replicate (m - ?d) None)"
      using Cons.prems(3) by (simp add: mem_store_def)
    have ld: "mem_load (map Some x) off ?d = Some (map Some (drop off x))"
      using off by (simp add: mem_load_def drop_map)
    show ?thesis
    proof (cases "?d = m")
      case True
      then have "take m S = drop off x" "drop m S = concat xs" using S by auto
      moreover have "0 < m \<longrightarrow> tp_source bufs (concat xs) (xs, 0)"
        using True l by (auto simp: tp_source_def split: list.splits)
      ultimately show ?thesis using False True st ld by simp
    next
      case ne: False
      with False have d: "?d < m" by simp
      have xs: "xs \<noteq> []" using d S Cons.prems(4) by auto
      have "tp_source bufs (concat xs) (xs, 0)"
        using l xs by (auto simp: tp_source_def split: list.splits)
      have md: "m - ?d \<le> length (concat xs)" using Cons.prems(4) S d by simp
      from Cons.IH [OF \<open>tp_source bufs (concat xs) (xs, 0)\<close> xs _ md, of "pre @ drop off x" "nOff + ?d"] Cons.prems(3) d
      obtain src where "tp_gather xs 0 (map Some (pre @ drop off x) @ replicate (m - ?d) None) (nOff + ?d) (nOff + ?d + (m - ?d)) =
          Some (map Some (pre @ drop off x @ take (m - ?d) (concat xs)), src)" "tp_source bufs (drop (m - ?d) (concat xs)) src"
        by auto
      moreover have "take m S = drop off x @ take (m - ?d) (concat xs)" "drop m S = drop (m - ?d) (concat xs)"
        using S d by simp_all
      ultimately show ?thesis using ne False d st ld by simp
    qed
  qed
qed

lemma source_exhausted: "tp_source bufs [] (xs, off) \<Longrightarrow> xs = [] \<longleftrightarrow> last bufs \<noteq> []"
proof (cases xs)
  case (Cons x ys)
  assume s: "tp_source bufs [] (xs, off)"
  then have "drop off (concat xs) = []" "last xs = last bufs" "off = 0 \<or> off < length x"
    using Cons by (auto simp: tp_source_def)
  then have "off = 0" "concat xs = []" using Cons by auto
  with Cons have "last xs = []" using last_in_set [of xs] by auto
  then show ?thesis using Cons \<open>last xs = last bufs\<close> by simp
qed (auto simp: tp_source_def)

lemma copy_all:
  "length pre = nOff \<Longrightarrow> tp_copy_all xs (map Some pre @ replicate (length (concat xs)) None) nOff =
    Some (map Some (pre @ concat xs))"
proof (induction xs arbitrary: pre nOff)
  case (Cons x xs)
  then have "mem_store (map Some pre @ replicate (length (concat (x # xs))) None) nOff (map Some x) =
      Some (map Some (pre @ x) @ replicate (length (concat xs)) None)"
    by (simp add: mem_store_def)
  with Cons.IH [of "pre @ x" "nOff + length x"] Cons.prems show ?case by simp
qed simp

lemma full_fits: "j < n div K \<Longrightarrow> j * K + K \<le> n" for n :: nat
proof -
  assume "j < n div K"
  then have "Suc j * K \<le> n div K * K" by (intro mult_le_mono1) simp
  also have "\<dots> \<le> n" by simp
  finally show ?thesis by (simp add: add.commute)
qed

lemma length_wire: "j \<le> length p div 0xffff \<Longrightarrow> length (tp_fragment_wire p uiOpcode bToken uiToken j) =
   tp_head_length (snd (tp_fragment_head (length p) uiOpcode j)) bToken + snd (tp_fragment_head (length p) uiOpcode j)"
proof -
  assume j: "j \<le> length p div 0xffff"
  have "j * 0xffff + snd (tp_fragment_head (length p) uiOpcode j) \<le> length p"
  proof (cases "j = length p div 0xffff")
    case False
    with j have "j < length p div 0xffff" by simp
    from full_fits [OF this] False show ?thesis by (simp add: tp_fragment_head_def)
  qed (simp add: tp_fragment_head_def)
  then show ?thesis by (cases "tp_fragment_head (length p) uiOpcode j") (simp add: tp_fragment_wire_def)
qed

lemma vec_fragment:
  assumes "tp_source bufs (drop (j * 0xffff) p) src" "fst src \<noteq> []" "j \<le> length p div 0xffff"
    and small: "j = length p div 0xffff \<Longrightarrow> \<not> tp_big (length p)"
  shows "\<exists>src'. tp_vec_fragment (length p) uiOpcode bToken uiToken (length p div 0xffff + 1) j src =
      Some ((map Some (tp_fragment_wire p uiOpcode bToken uiToken j), length (tp_fragment_wire p uiOpcode bToken uiToken j)), src') \<and>
    (j < length p div 0xffff \<longrightarrow> tp_source bufs (drop (Suc j * 0xffff) p) src')"
proof -
  obtain b0 n where bn: "tp_fragment_head (length p) uiOpcode j = (b0, n)" by fastforce
  have n: "(if j = length p div 0xffff + 1 - 1 then length p - j * 0xffff else 0xffff) = n"
    "(if j = length p div 0xffff + 1 - 1 then 0x80 else if j = 0 then uiOpcode else 0) = b0"
    using bn by (auto simp: tp_fragment_head_def modulo_nat_def split: if_splits)
  have "n \<le> 0xffff" using bn by (auto simp: tp_fragment_head_def split: if_splits)
  then have n16: "n < 2 ^ 16" by simp
  let ?S = "drop (j * 0xffff) p" and ?h = "tp_head b0 n bToken uiToken"
  have w: "tp_fragment_wire p uiOpcode bToken uiToken j = ?h @ take n ?S" by (simp add: tp_fragment_wire_def bn)
  have lw: "length (tp_fragment_wire p uiOpcode bToken uiToken j) = tp_head_length n bToken + n"
    using length_wire [OF assms(3), of uiOpcode bToken uiToken] bn by simp
  then have "n \<le> length ?S" by (simp add: w)
  from gather [of bufs ?S "fst src" "snd src" ?h "tp_head_length n bToken" n] this assms(1,2)
  obtain src' where g: "tp_gather (fst src) (snd src) (map Some ?h @ replicate n None) (tp_head_length n bToken)
        (tp_head_length n bToken + n) = Some (map Some (?h @ take n ?S), src')" "0 < n \<longrightarrow> tp_source bufs (drop n ?S) src'"
    by auto
  have "tp_vec_fragment (length p) uiOpcode bToken uiToken (length p div 0xffff + 1) j src =
      Some ((map Some (?h @ take n ?S), tp_head_length n bToken + n), src')"
    unfolding tp_vec_fragment_def n Let_def using small fill_head [OF n16, of bToken n b0 uiToken] g(1) by (auto simp: tp_big_def)
  moreover have "j < length p div 0xffff \<longrightarrow> tp_source bufs (drop (Suc j * 0xffff) p) src'"
    using g(2) bn by (auto simp: tp_fragment_head_def add.commute split: if_splits)
  ultimately show ?thesis using w lw by auto
qed

lemma vec_run:
  assumes "tp_source bufs p src" "k \<le> length p div 0xffff"
  shows "\<exists>src'. run_ops (\<lambda>src j. tp_vec_fragment (length p) uiOpcode bToken uiToken (length p div 0xffff + 1) j src)
      src [0..<k] = Some (map (\<lambda>j. (map Some (tp_fragment_wire p uiOpcode bToken uiToken j),
        length (tp_fragment_wire p uiOpcode bToken uiToken j))) [0..<k], src') \<and>
    tp_source bufs (drop (k * 0xffff) p) src'"
  using assms(2)
proof (induction k)
  case 0
  then show ?case using assms(1) by simp
next
  case (Suc k)
  then obtain src1 where s1: "run_ops (\<lambda>src j. tp_vec_fragment (length p) uiOpcode bToken uiToken (length p div 0xffff + 1) j src)
      src [0..<k] = Some (map (\<lambda>j. (map Some (tp_fragment_wire p uiOpcode bToken uiToken j),
        length (tp_fragment_wire p uiOpcode bToken uiToken j))) [0..<k], src1)"
    "tp_source bufs (drop (k * 0xffff) p) src1" by auto
  have "k * 0xffff + 0xffff \<le> length p" by (rule full_fits) (use Suc.prems in simp)
  then have "drop (k * 0xffff) p \<noteq> []" by simp
  then have "fst src1 \<noteq> []" using s1(2) by (auto simp: tp_source_def split: prod.splits list.splits)
  from vec_fragment [OF s1(2) this, of uiOpcode bToken uiToken] Suc.prems s1(1) show ?case
    by (auto simp: run_ops_append)
qed

lemma encodeVec_code:
  fixes bufs :: "bytes list"
  defines "p \<equiv> concat bufs"
  shows "tpack_encodeVec bufs uiFlag uiToken =
    (if length p < 0xffff \<or> \<not> tp_big (length p) \<and> (length p mod 0xffff \<noteq> 0 \<or> last bufs = [])
     then Some (if length p < 0xffff then [(map Some (tp_message_wire p uiFlag uiToken), length (tp_message_wire p uiFlag uiToken))]
       else map (\<lambda>j. (map Some (tp_fragment_wire p (fst (tp_opcode uiFlag)) (snd (tp_opcode uiFlag)) uiToken j),
              length (tp_fragment_wire p (fst (tp_opcode uiFlag)) (snd (tp_opcode uiFlag)) uiToken j)))
              [0..<length p div 0xffff + 1])
     else None)"
proof -
  obtain oc tk where o: "tp_opcode uiFlag = (oc, tk)" by fastforce
  let ?k = "length p div 0xffff"
  have T: "sum_list (map length bufs) = length p" by (simp add: p_def length_concat)
  show ?thesis
  proof (cases "length p < 0xffff")
    case True
    then have z: "?k = 0" and n16: "length p < 2 ^ 16" by simp_all
    have "tp_copy_all bufs (map Some (tp_head (oc OR 0x80) (length p) tk uiToken) @ replicate (length p) None)
        (tp_head_length (length p) tk) = Some (map Some (tp_head (oc OR 0x80) (length p) tk uiToken @ p))"
      unfolding p_def by (rule copy_all) simp
    with True z fill_head [OF n16, of tk "length p" "oc OR 0x80" uiToken] show ?thesis
      unfolding tpack_encodeVec_def T o by (simp add: tp_message_wire_def o Let_def)
  next
    case False
    then have k: "?k \<noteq> 0" by (simp add: div_eq_0_iff)
    let ?f = "\<lambda>src j. tp_vec_fragment (length p) oc tk uiToken (?k + 1) j src"
    let ?g = "\<lambda>j. (map Some (tp_fragment_wire p oc tk uiToken j), length (tp_fragment_wire p oc tk uiToken j))"
    have "bufs \<noteq> []" using False p_def by auto
    then have "tp_source bufs p (bufs, 0)" by (cases bufs) (simp_all add: tp_source_def p_def)
    from vec_run [OF this le_refl, of oc tk uiToken] obtain src where
      r: "run_ops ?f (bufs, 0) [0..<?k] = Some (map ?g [0..<?k], src)" "tp_source bufs (drop (?k * 0xffff) p) src" by blast
    have d: "length (drop (?k * 0xffff) p) = length p mod 0xffff" by (simp add: modulo_nat_def)
    have u: "tpack_encodeVec bufs uiFlag uiToken =
        map_option (\<lambda>(f, _). map ?g [0..<?k] @ [f]) (?f src ?k)"
      using False k unfolding tpack_encodeVec_def T o
      by (cases "?f src ?k") (simp_all add: run_ops_append r(1) [unfolded Suc_eq_plus1 [symmetric]] Let_def split: prod.splits)
    show ?thesis
    proof -
      consider "tp_big (length p)" | "\<not> tp_big (length p)" "fst src = []" | "\<not> tp_big (length p)" "fst src \<noteq> []" by blast
      then show ?thesis
    proof cases
      case big: 1
      then have "?f src ?k = None" by (simp add: tp_vec_fragment_def tp_big_def Let_def)
      then show ?thesis using False big u by simp
    next
      case 2
      note True = 2(2)
      from 2 have "length p mod 0xffff = 0" "last bufs \<noteq> []"
        using r(2) d by (auto simp: tp_source_def split: prod.splits)
      moreover have "?f src ?k = None"
        using True fill_head [of 0 tk 0 "0x80" uiToken] \<open>length p mod 0xffff = 0\<close>
        by (simp add: tp_vec_fragment_def modulo_nat_def Let_def)
      ultimately show ?thesis using False u by simp
    next
      case 3
      then have small: "\<not> tp_big (length p)" and ne: "fst src \<noteq> []" by simp_all
      from vec_fragment [OF r(2) ne le_refl small, of oc tk uiToken] u
      have "tpack_encodeVec bufs uiFlag uiToken = Some (map ?g [0..<?k + 1])" by auto
      moreover have "length p mod 0xffff \<noteq> 0 \<or> last bufs = []"
      proof -
        have "last bufs = []" if "length p mod 0xffff = 0"
        proof -
          have "drop (?k * 0xffff) p = []" using d that by (metis length_0_conv)
          with r(2) have "tp_source bufs [] (fst src, snd src)" by (simp only: prod.collapse)
          from source_exhausted [OF this] ne show ?thesis by blast
        qed
        then show ?thesis by blast
      qed
      ultimately show ?thesis using False o small by simp
    qed
    qed
  qed
qed

section \<open>Messages\<close>

definition tp_plain_msg :: "bytes \<Rightarrow> u8 \<Rightarrow> nat \<Rightarrow> tp_msg" where
  "tp_plain_msg p uiFlag j =
     (let n = snd (tp_fragment_head (length p) 0 j) in
      TpMsg (if j = length p div 0xffff then 0x80 else if j = 0 then uiFlag else 0) 0 (take n (drop (j * 0xffff) p)))"

definition tp_plain_msgs :: "bytes \<Rightarrow> u8 \<Rightarrow> tp_msg list" where
  "tp_plain_msgs p uiFlag =
     (if length p < 0xffff then [TpMsg (uiFlag OR 0x80) 0 p]
      else map (tp_plain_msg p uiFlag) [0..<length p div 0xffff + 1])"

lemma plain_msg_enc:
  assumes "uiFlag \<in> {0x10, 0x20}" "j \<le> length p div 0xffff" "length p div 0xffff \<noteq> 0"
  shows "tp_ok (tp_plain_msg p uiFlag j)"
    "tp_enc (tp_plain_msg p uiFlag j) = tp_fragment_wire p (fst (tp_opcode uiFlag)) (snd (tp_opcode uiFlag)) uiToken j"
proof -
  let ?n = "snd (tp_fragment_head (length p) 0 j)"
  have n: "?n \<le> 0xffff" by (simp add: tp_fragment_head_def less_imp_le)
  have fits: "j * 0xffff + ?n \<le> length p"
    using assms(2) full_fits [of j "length p" "0xffff"] by (auto simp: tp_fragment_head_def)
  show "tp_ok (tp_plain_msg p uiFlag j)"
    using assms(1) n by (auto simp: tp_plain_msg_def tp_ok_def tp_has_token_def Let_def)
  have l: "length (tp_payload (tp_plain_msg p uiFlag j)) = ?n" using fits by (simp add: tp_plain_msg_def Let_def)
  have f: "tp_first (tp_uiFlag (tp_plain_msg p uiFlag j)) = fst (tp_fragment_head (length p) (fst (tp_opcode uiFlag)) j)"
    "\<not> tp_has_token (tp_uiFlag (tp_plain_msg p uiFlag j) AND 0x70)" "\<not> snd (tp_opcode uiFlag)"
    using assms(1,3) by (auto simp: tp_plain_msg_def tp_fragment_head_def tp_first_def tp_opcode_def tp_has_token_def Let_def)
  have s: "snd (tp_fragment_head (length p) (fst (tp_opcode uiFlag)) j) = ?n" by (simp add: tp_fragment_head_def)
  have "tp_payload (tp_plain_msg p uiFlag j) = take ?n (drop (j * 0xffff) p)" by (simp add: tp_plain_msg_def Let_def)
  moreover have "tp_fragment_wire p (fst (tp_opcode uiFlag)) (snd (tp_opcode uiFlag)) uiToken j =
      tp_head (fst (tp_fragment_head (length p) (fst (tp_opcode uiFlag)) j)) ?n (snd (tp_opcode uiFlag)) uiToken @
      take ?n (drop (j * 0xffff) p)"
    unfolding s [symmetric] by (simp add: tp_fragment_wire_def case_prod_beta)
  ultimately show "tp_enc (tp_plain_msg p uiFlag j) =
      tp_fragment_wire p (fst (tp_opcode uiFlag)) (snd (tp_opcode uiFlag)) uiToken j"
    using l f by (simp add: tp_enc_def tp_head_def)
qed

lemma plain_msgs_enc:
  assumes "uiFlag \<in> {0x10, 0x20}"
  shows "list_all tp_ok (tp_plain_msgs p uiFlag)"
    "tp_message_wire p uiFlag uiToken = concat (map tp_enc (tp_plain_msgs p uiFlag))"
proof -
  show "list_all tp_ok (tp_plain_msgs p uiFlag)"
    using assms plain_msg_enc(1) [OF assms]
    by (auto simp: tp_plain_msgs_def list_all_iff tp_ok_def tp_has_token_def div_eq_0_iff)
  show "tp_message_wire p uiFlag uiToken = concat (map tp_enc (tp_plain_msgs p uiFlag))"
  proof (cases "length p < 0xffff")
    case True
    then show ?thesis using assms
      by (auto simp: tp_message_wire_def tp_plain_msgs_def tp_enc_def tp_opcode_def tp_first_def tp_has_token_def
          tp_head_def)
  next
    case False
    then have "length p div 0xffff \<noteq> 0" by (simp add: div_eq_0_iff)
    then have "map tp_enc (tp_plain_msgs p uiFlag) =
        map (tp_fragment_wire p (fst (tp_opcode uiFlag)) (snd (tp_opcode uiFlag)) uiToken) [0..<length p div 0xffff + 1]"
      using False plain_msg_enc(2) [OF assms] by (simp add: tp_plain_msgs_def)
    with False show ?thesis by (simp add: tp_message_wire_def split: prod.splits)
  qed
qed

lemma concat_pieces: "concat (map (\<lambda>j. take K (drop (j * K) p)) [0..<k]) = take (k * K) p"
proof (induction k)
  case (Suc k)
  have "Suc k * K = k * K + K" by simp
  then show ?case using Suc by (simp only: take_add) simp
qed simp

lemma plain_payloads: "concat (map tp_payload (tp_plain_msgs p uiFlag)) = p"
proof (cases "length p < 0xffff")
  case False
  let ?k = "length p div 0xffff"
  have m: "map (\<lambda>j. tp_payload (tp_plain_msg p uiFlag j)) [0..<?k] = map (\<lambda>j. take 0xffff (drop (j * 0xffff) p)) [0..<?k]"
    by (simp add: tp_plain_msg_def tp_fragment_head_def Let_def)
  have "tp_payload (tp_plain_msg p uiFlag ?k) = drop (?k * 0xffff) p"
    by (simp add: tp_plain_msg_def tp_fragment_head_def Let_def modulo_nat_def)
  then show ?thesis using False concat_pieces [of "0xffff" p ?k]
    by (simp add: tp_plain_msgs_def comp_def m)
qed (simp add: tp_plain_msgs_def)

lemma plain_flags:
  assumes "uiFlag \<in> {0x10, 0x20}" "i < length (tp_plain_msgs p uiFlag)"
  shows "(tp_uiFlag (tp_plain_msgs p uiFlag ! i) AND 0x80 = 0x80 \<longleftrightarrow> i = length (tp_plain_msgs p uiFlag) - 1) \<and>
    tp_uiFlag (tp_plain_msgs p uiFlag ! i) AND 0x70 = (if i = 0 then uiFlag else 0)"
proof (cases "length p < 0xffff")
  case True
  with assms show ?thesis by (auto simp: tp_plain_msgs_def)
next
  case False
  then have "length p div 0xffff \<noteq> 0" by (simp add: div_eq_0_iff)
  moreover have "tp_plain_msgs p uiFlag ! i = tp_plain_msg p uiFlag i" "i \<le> length p div 0xffff"
    "length (tp_plain_msgs p uiFlag) - 1 = length p div 0xffff"
    using assms(2) False by (auto simp: tp_plain_msgs_def nth_append less_Suc_eq simp del: upt_Suc)
  ultimately show ?thesis using assms(1) by (auto simp: tp_plain_msg_def Let_def)
qed

lemma sent_map: "tp_sent (map (\<lambda>j. (map Some (g j), length (g j))) js) = map Some (concat (map g js))"
  by (induction js) (simp_all add: tp_sent_def)

lemma sent_wire:
  "tp_sent (if length p < 0xffff then [(map Some (tp_message_wire p uiFlag uiToken), length (tp_message_wire p uiFlag uiToken))]
       else map (\<lambda>j. (map Some (tp_fragment_wire p (fst (tp_opcode uiFlag)) (snd (tp_opcode uiFlag)) uiToken j),
              length (tp_fragment_wire p (fst (tp_opcode uiFlag)) (snd (tp_opcode uiFlag)) uiToken j)))
              [0..<length p div 0xffff + 1]) = map Some (tp_message_wire p uiFlag uiToken)"
proof (cases "length p < 0xffff")
  case True
  then show ?thesis by (simp add: tp_sent_def)
next
  case False
  then show ?thesis by (simp only: sent_map if_False) (simp add: tp_message_wire_def split: prod.splits)
qed

lemma if_Some_eq: "(if c then Some x else None) = Some y \<Longrightarrow> x = y"
  by (simp split: if_splits)

lemma encode_sent:
  "tpack_encode p uiFlag uiToken = Some fs \<Longrightarrow> tp_sent fs = map Some (tp_message_wire p uiFlag uiToken)"
  "tpack_encodeVec bufs uiFlag uiToken = Some fs \<Longrightarrow> tp_sent fs = map Some (tp_message_wire (concat bufs) uiFlag uiToken)"
  unfolding encode_code encodeVec_code by (drule if_Some_eq, drule sym, simp only: sent_wire)+

section \<open>Properties\<close>

text \<open>C22: On a queue that holds any bytes, \<open>tpack_decode\<close> is safe and does what the frame format says: with
  no whole frame it returns 0 and with a wrong opcode -1, leaving the queue; otherwise it returns 1, takes
  exactly the first frame off the queue and yields its payload, flag and token.\<close>

theorem tpack_decode_parses:
  assumes "bq_rep q xs"
  shows "\<exists>r q' f. tpack_decode q pOutBuf = Some (r, q', f) \<and>
    (case tp_parse xs of
       FrameNeed \<Rightarrow> r = 0 \<and> q' = q \<and> f = None
     | FrameBad \<Rightarrow> r = -1 \<and> q' = q \<and> f = None
     | FrameGot m rest \<Rightarrow> r = 1 \<and> bq_rep q' rest \<and>
         (\<exists>fr. f = Some fr \<and> cb_pBuffer (tf_pOutBuf fr) = map Some (tp_payload m) \<and>
           cb_nLength (tf_pOutBuf fr) = length (tp_payload m) \<and>
           tf_uiFlag fr = tp_uiFlag m \<and> tf_uiToken fr = tp_uiToken m))"
  using decode_rep [OF assms] .

lemma tpack_decode_parses_witness:
  "\<exists>q q' fr. byteQueue_write (byteQueue_init 4) [0x86, 1, 0, 0, 1, 2, 42, 9] = Some q \<and>
     tpack_decode q (cbuf_init 0) = Some (1, q', Some fr) \<and> bq_rep q' [9] \<and>
     cb_pBuffer (tf_pOutBuf fr) = [Some 42] \<and> tf_uiFlag fr = 0xe0 \<and> tf_uiToken fr = 0x102"
proof -
  have "bq_rep (byteQueue_init 4) []" using init_cells [of 4] by (simp add: bq_rep_def)
  from rep_write [OF this, of "[0x86, 1, 0, 0, 1, 2, 42, 9]"] obtain q where
    q: "byteQueue_write (byteQueue_init 4) [0x86, 1, 0, 0, 1, 2, 42, 9] = Some q"
    "bq_rep q [0x86, 1, 0, 0, 1, 2, 42, 9]" by auto
  have p: "tp_parse [0x86, 1, 0, 0, 1, 2, 42, 9] = FrameGot (TpMsg 0xe0 0x102 [42]) [9]"
    by (simp add: tp_parse_def tp_flag_def tp_body_def tp_has_token_def tp_join_def push_bit_eq_mult)
  from tpack_decode_parses [OF q(2), of "cbuf_init 0"] q(1) show ?thesis by (auto simp: p)
qed

text \<open>A message of less than 65535 bytes with any of the seven flags is encoded into one buffer, inside its
  allocation, and a queue that holds that buffer and anything behind it decodes to the message: payload,
  flag with the final bit, and token (0 for the flags without one), leaving what is behind.\<close>

theorem tpack_roundtrip:
  assumes "uiFlag \<in> {0x10, 0x20, 0x30, 0x40, 0x50, 0x60, 0x70}" "length p < 0xffff"
    "uiFlag \<in> {0x10, 0x20} \<Longrightarrow> uiToken = 0"
  shows "\<exists>w. tpack_encode p uiFlag uiToken = Some [(map Some w, length w)] \<and>
    (\<forall>q rest. bq_rep q (w @ rest) \<longrightarrow> (\<exists>q' fr. tpack_decode q pOutBuf = Some (1, q', Some fr) \<and> bq_rep q' rest \<and>
       cb_pBuffer (tf_pOutBuf fr) = map Some p \<and> tf_uiFlag fr = uiFlag OR 0x80 \<and> tf_uiToken fr = uiToken))"
proof -
  let ?m = "TpMsg (uiFlag OR 0x80) uiToken p"
  have ok: "tp_ok ?m" using assms by (auto simp: tp_ok_def tp_has_token_def)
  have w: "tp_message_wire p uiFlag uiToken = tp_enc ?m"
    using assms(1,2) by (auto simp: tp_message_wire_def tp_enc_def tp_opcode_def tp_first_def tp_has_token_def)
  have "\<exists>q' fr. tpack_decode q pOutBuf = Some (1, q', Some fr) \<and> bq_rep q' rest \<and>
       cb_pBuffer (tf_pOutBuf fr) = map Some p \<and> tf_uiFlag fr = uiFlag OR 0x80 \<and> tf_uiToken fr = uiToken"
    if "bq_rep q (tp_enc ?m @ rest)" for q rest
    using decode_rep [OF that, of pOutBuf] unfolding parse_whole [OF ok] by auto
  with w assms(2) show ?thesis by (intro exI [of _ "tp_enc ?m"]) (simp add: encode_code)
qed

lemma tpack_roundtrip_witness:
  "\<exists>w. tpack_encode [1, 2, 3] 0x60 77 = Some [(map Some w, length w)] \<and>
    (\<forall>q rest. bq_rep q (w @ rest) \<longrightarrow> (\<exists>q' fr. tpack_decode q (cbuf_init 0) = Some (1, q', Some fr) \<and> bq_rep q' rest \<and>
       cb_pBuffer (tf_pOutBuf fr) = map Some [1, 2, 3] \<and> tf_uiFlag fr = 0x60 OR 0x80 \<and> tf_uiToken fr = 77))"
  by (rule tpack_roundtrip) simp_all

text \<open>\<open>tpack_encode\<close> stays inside the buffers it allocates exactly for messages of less than 65535 bytes and
  for longer ones without a token whose last fragment is empty or has at least 255 bytes.  In the other
  cases it copies a payload into a block of 8 bytes (token) or of 2 (short last fragment).\<close>

theorem tpack_encode_safe_iff:
  "tpack_encode p uiFlag uiToken \<noteq> None \<longleftrightarrow>
    length p < 0xffff \<or>
    length p < 32769 * 0xffff \<and> uiFlag \<notin> {0x30, 0x40, 0x50, 0x60, 0x70} \<and> (length p mod 0xffff = 0 \<or> 0xff \<le> length p mod 0xffff)"
proof -
  have "snd (tp_opcode uiFlag) \<longleftrightarrow> uiFlag \<in> {0x30, 0x40, 0x50, 0x60, 0x70}"
    by (auto simp: tp_opcode_def)
  then show ?thesis by (auto simp: encode_code tp_big_less)
qed

text \<open>\<open>tpack_encodeVec\<close> on any vector of buffers sends, in buffers of the right sizes, the same bytes that
  \<open>tpack_encode\<close> sends for their concatenation whenever that is defined; it reads past the vector exactly
  when the total length is a positive multiple of 65535 and the last buffer is not empty, and is undefined too from 32769 full fragments on,
  where the offset of the last fragment is not an \<open>int32_t\<close>.\<close>

theorem tpack_encodeVec_exact:
  "(tpack_encodeVec bufs uiFlag uiToken = None \<longleftrightarrow>
      32769 * 0xffff \<le> length (concat bufs) \<or> 0 < length (concat bufs) \<and> length (concat bufs) mod 0xffff = 0 \<and> last bufs \<noteq> []) \<and>
    (tpack_encodeVec bufs uiFlag uiToken \<noteq> None \<and> tpack_encode (concat bufs) uiFlag uiToken \<noteq> None \<longrightarrow>
      tpack_encodeVec bufs uiFlag uiToken = tpack_encode (concat bufs) uiFlag uiToken)"
proof -
  have m: "n mod 0xffff = 0 \<Longrightarrow> n < 0xffff \<longleftrightarrow> n = 0" for n :: nat
    by (metis mod_less mod_0 zero_less_numeral)
  obtain p where p: "concat bufs = p" by blast
  show ?thesis
    unfolding encodeVec_code [of bufs, unfolded p] p encode_code [of p] tp_big_less using m [of "length p"] by auto
qed

lemma tpack_encodeVec_exact_witness:
  "tpack_encodeVec [[1], [2, 3]] 0x60 5 = tpack_encode (concat [[1], [2, 3]]) 0x60 5"
proof -
  have "tpack_encodeVec [[1], [2, 3]] 0x60 5 \<noteq> None" "tpack_encode (concat [[1], [2, 3]]) 0x60 5 \<noteq> None"
    by (simp_all add: encode_code encodeVec_code)
  then show ?thesis using tpack_encodeVec_exact [of "[[1], [2, 3]]" "0x60" 5] by blast
qed

text \<open>C14: A text or binary message below 32769 times 65535 bytes, in a vector of buffers, that is not a positive multiple of 65535 bytes with
  a last buffer that is not empty: the vector encoder sends it, and however the stream is cut into chunks, the parser that \<open>tpack_decode\<close> follows
  (\<open>tpack_decode_parses\<close>) gets frames one by one with nothing left over, whose
  payloads concatenate to the message, of which the first carries its flag and exactly the last has the final bit.\<close>

theorem tpack_fragments_reassemble:
  assumes "uiFlag \<in> {0x10, 0x20}" "length (concat bufs) < 32769 * 0xffff"
    and "length (concat bufs) < 0xffff \<or> length (concat bufs) mod 0xffff \<noteq> 0 \<or> last bufs = []"
  shows "\<exists>fs. tpack_encodeVec bufs uiFlag uiToken = Some fs \<and>
    (\<forall>cs. map Some (concat cs) = tp_sent fs \<longrightarrow>
      (\<exists>ms. feed tp_parse [] cs = (ms, []) \<and> concat (map tp_payload ms) = concat bufs \<and>
        (\<forall>i < length ms. (tp_uiFlag (ms ! i) AND 0x80 = 0x80 \<longleftrightarrow> i = length ms - 1) \<and>
           tp_uiFlag (ms ! i) AND 0x70 = (if i = 0 then uiFlag else 0))))"
proof -
  let ?ms = "tp_plain_msgs (concat bufs) uiFlag"
  have "\<not> tp_big (length (concat bufs))" using assms(2) unfolding tp_big_less by linarith
  then obtain fs where fs: "tpack_encodeVec bufs uiFlag uiToken = Some fs"
    using assms(3) by (simp only: encodeVec_code if_True HOL.simp_thms)
  have "feed tp_parse [] cs = (?ms, [])" if "map Some (concat cs) = tp_sent fs" for cs
  proof -
    have "concat cs = concat (map tp_enc ?ms)"
      using that encode_sent(2) [OF fs] plain_msgs_enc(2) [OF assms(1), of "concat bufs" uiToken]
      by (simp add: inj_map_eq_map)
    from tp.chunking_independent [OF plain_msgs_enc(1) [OF assms(1)] this] show ?thesis .
  qed
  with fs plain_payloads [of "concat bufs" uiFlag] plain_flags [OF assms(1), of _ "concat bufs"] show ?thesis
    by (intro exI [of _ fs] conjI allI impI exI [of _ ?ms]) simp_all
qed

lemma tpack_fragments_reassemble_witness:
  "\<exists>fs ms. tpack_encodeVec [[7], [8, 9]] 0x10 0 = Some fs \<and> tp_sent fs = map Some [0x81, 3, 7, 8, 9] \<and>
     feed tp_parse [] [[0x81], [3, 7], [], [8, 9]] = (ms, []) \<and> concat (map tp_payload ms) = [7, 8, 9]"
proof -
  have e: "tpack_encodeVec [[7], [8, 9]] 0x10 0 = Some [(map Some [0x81, 3, 7, 8, 9], 5)]"
    by (simp add: encodeVec_code tp_message_wire_def tp_opcode_def tp_head_def)
  have "\<exists>fs. tpack_encodeVec [[7], [8, 9]] 0x10 0 = Some fs \<and>
    (\<forall>cs. map Some (concat cs) = tp_sent fs \<longrightarrow>
      (\<exists>ms. feed tp_parse [] cs = (ms, []) \<and> concat (map tp_payload ms) = concat [[7], [8, 9]]))"
    using tpack_fragments_reassemble [of "0x10" "[[7], [8, 9]]" 0] by fastforce
  then have "\<forall>cs. map Some (concat cs) = map Some [0x81, 3, 7, 8, 9] \<longrightarrow>
      (\<exists>ms. feed tp_parse [] cs = (ms, []) \<and> concat (map tp_payload ms) = [7, 8, 9])" using e by (simp add: tp_sent_def)
  from this [rule_format, of "[[0x81], [3, 7], [], [8, 9]]"] e show ?thesis by (simp add: tp_sent_def)
qed

text \<open>In a fragmented message with a token, every fragment after the first has opcode 0 and still its four
  token bytes: the receiver takes it for a frame without a token, so its payload starts with the token
  and the last four payload bytes are left in the stream as the start of the next frame.\<close>

theorem tpack_token_fragment_misread:
  assumes "uiFlag \<in> {0x30, 0x40, 0x50, 0x60, 0x70}" "tpack_encodeVec bufs uiFlag uiToken = Some fs"
    "0xffff \<le> length (concat bufs)" "0 < j" "j \<le> length (concat bufs) div 0xffff"
  shows "\<exists>w chunk b. fs ! j = (map Some w, length w) \<and> w = tp_head b (length chunk) True uiToken @ chunk \<and>
    tp_parse (w @ rest) =
      FrameGot (TpMsg (if j = length (concat bufs) div 0xffff then 0x80 else 0) 0 (take (length chunk) (tp_token uiToken @ chunk)))
        (drop (length chunk) (tp_token uiToken @ chunk) @ rest)"
proof -
  obtain p where p: "concat bufs = p" by blast
  let ?oc = "fst (tp_opcode uiFlag)"
  have tk: "snd (tp_opcode uiFlag)" using assms(1) by (auto simp: tp_opcode_def)
  have fs: "fs ! j = (map Some (tp_fragment_wire p ?oc True uiToken j), length (tp_fragment_wire p ?oc True uiToken j))"
    using if_Some_eq [OF assms(2) [unfolded encodeVec_code p]] assms(3-5) tk
    by (auto simp: p nth_append less_Suc_eq_le)
  obtain b n where bn: "tp_fragment_head (length p) ?oc j = (b, n)" by fastforce
  obtain chunk where chunk: "chunk = take n (drop (j * 0xffff) p)" by blast
  have b: "b = (if j = length p div 0xffff then 0x80 else 0)" and n: "n < 2 ^ 16"
    using bn assms(4) by (auto simp: tp_fragment_head_def intro: less_trans [OF mod_less_divisor] split: if_splits)
  have len: "length chunk = n"
    using length_wire [of j p ?oc True uiToken] assms(5) bn p by (simp add: tp_fragment_wire_def chunk)
  have w: "tp_fragment_wire p ?oc True uiToken j = tp_head b n True uiToken @ chunk"
    by (simp add: tp_fragment_wire_def bn chunk)
  obtain S where S: "S = take n (tp_token uiToken @ chunk)" by blast
  have l: "length S = n" using len by (simp add: S tp_token_def)
  let ?m = "TpMsg (if j = length p div 0xffff then 0x80 else 0) 0 S"
  have ok: "tp_ok ?m" using n l by (simp add: tp_ok_def)
  have "tp_enc ?m = tp_head b n False uiToken @ S"
    using b l by (auto simp: tp_enc_def tp_first_def tp_has_token_def tp_head_def)
  moreover obtain D where D: "D = drop n (tp_token uiToken @ chunk)" by blast
  moreover have SD: "tp_token uiToken @ chunk = S @ D" by (simp only: S D append_take_drop_id)
  then have "tp_token uiToken @ chunk @ rest = S @ D @ rest" by (metis append_assoc)
  ultimately have "tp_fragment_wire p ?oc True uiToken j @ rest = tp_enc ?m @ drop n (tp_token uiToken @ chunk) @ rest"
    unfolding D [symmetric] w tp_head_def by simp
  with parse_whole [OF ok, of "drop n (tp_token uiToken @ chunk) @ rest"]
  have "tp_parse (tp_fragment_wire p ?oc True uiToken j @ rest) = FrameGot ?m (drop n (tp_token uiToken @ chunk) @ rest)"
    by simp
  with fs w len S p show ?thesis by blast
qed

lemma tpack_token_fragment_misread_witness:
  "\<exists>fs. tpack_encodeVec [replicate 65535 0, [1, 2]] 0x60 0x01020304 = Some fs \<and>
     (\<exists>w chunk b. fs ! 1 = (map Some w, length w) \<and> w = tp_head b (length chunk) True 0x01020304 @ chunk \<and>
      tp_parse (w @ []) = FrameGot (TpMsg 0x80 0 (take (length chunk) (tp_token 0x01020304 @ chunk)))
        (drop (length chunk) (tp_token 0x01020304 @ chunk) @ []))"
proof -
  have l: "length (concat [replicate 65535 0, [1, 2 :: u8]]) = 65537" by simp
  then have "tpack_encodeVec [replicate 65535 0, [1, 2]] 0x60 0x01020304 \<noteq> None"
    unfolding encodeVec_code by (simp add: tp_big_less)
  then obtain fs where fs: "tpack_encodeVec [replicate 65535 0, [1, 2]] 0x60 0x01020304 = Some fs" by auto
  have "length (concat [replicate 65535 0, [1, 2 :: u8]]) div 0xffff = 1" unfolding l by simp
  with tpack_token_fragment_misread [OF _ fs, of 1 "[]"] l fs show ?thesis by simp
qed

end
