(* ===== verification/WebSocket.thy ===== *)
theory WebSocket
  imports Tpack
begin

text \<open>
  The WebSocket frame codec of \<open>core/source/codec/webSocket_t.c\<close>: decoding a frame head and a frame (masked
  or not) from a byte queue, and encoding messages, from one buffer or from a vector of buffers.  The
  copy loops over a vector are those of \<open>tpack_t.c\<close> statement by statement, and use its definitions.
\<close>

section \<open>Decoding\<close>

record webSocketHead =
  wh_uiPayloadLen :: nat
  wh_uiFlag :: u8
  wh_uiOffset :: nat

text \<open>The \<open>switch\<close> on the opcode: the flag, or \<open>None\<close> for the result -1.\<close>

definition ws_flag :: "u8 \<Rightarrow> u8 option" where
  "ws_flag opcode =
     (if opcode = 0 then Some 0
      else if opcode = 1 then Some 0x10
      else if opcode = 2 then Some 0x20
      else if opcode = 8 then Some 0x30
      else if opcode = 9 then Some 0x50
      else if opcode = 10 then Some 0x40
      else None)"

text \<open>The check that a whole frame is there: the head grows by 4 for a mask.\<close>

definition ws_complete :: "webSocketHead \<Rightarrow> nat \<Rightarrow> nat \<Rightarrow> u8 \<Rightarrow> int \<times> webSocketHead" where
  "ws_complete head nPlain nBytesWritten b1 =
     (let nHead = (if b1 AND 0x80 = 0x80 then nPlain + 4 else nPlain) in
      if wh_uiPayloadLen head + nHead > nBytesWritten then (0, head)
      else (1, head\<lparr>wh_uiOffset := nHead\<rparr>))"

definition webSocket_decodeHead :: "byteQueue \<Rightarrow> webSocketHead \<Rightarrow> (int \<times> webSocketHead) option" where
  "webSocket_decodeHead q head =
     (let nBytesWritten = byteQueue_getBytesReadable q; head = head\<lparr>wh_uiOffset := 0\<rparr> in
      if nBytesWritten \<ge> 2 then do {
        (sz, _) \<leftarrow> bq_read q 2 True;
        (case ws_flag (sz ! 0 AND 0x0f) of
           None \<Rightarrow> Some (-1, head)
         | Some uiFlag \<Rightarrow>
             let head = head\<lparr>wh_uiFlag := (if sz ! 0 AND 0x80 = 0x80 then uiFlag OR 0x80 else uiFlag),
                             wh_uiPayloadLen := unat (sz ! 1 AND 0x7f)\<rparr> in
             if wh_uiPayloadLen head < 126 then Some (ws_complete head 2 nBytesWritten (sz ! 1))
             else if wh_uiPayloadLen head = 126 then
               (if nBytesWritten < 4 then Some (0, head)
                else do {
                  (sz, _) \<leftarrow> bq_read q 4 True;
                  let head = head\<lparr>wh_uiPayloadLen := unat (ucast (sz ! 2) OR push_bit 8 (ucast (sz ! 3)) :: u16)\<rparr>;
                  Some (ws_complete head 4 nBytesWritten (sz ! 1)) })
             else Some (-1, head)) }
      else Some (0, head))"

text \<open>\<open>unMask\<close>: the loop over the payload.\<close>

definition unMask :: "block \<Rightarrow> nat \<Rightarrow> bytes \<Rightarrow> block option" where
  "unMask pBuffer nLength szMask = do {
     guard (nLength \<le> length pBuffer);
     Some (map (\<lambda>i. if i < nLength then map_option (\<lambda>c. c XOR szMask ! (i mod 4)) (pBuffer ! i) else pBuffer ! i)
       [0..<length pBuffer]) }"

record webSocketFrame =
  wf_pOutBuf :: cbuf
  wf_uiFlag :: u8

definition webSocket_decode :: "byteQueue \<Rightarrow> cbuf \<Rightarrow> (int \<times> byteQueue \<times> webSocketFrame option) option" where
  "webSocket_decode q pOutBuf = do {
     (r, head) \<leftarrow> webSocket_decodeHead q \<lparr>wh_uiPayloadLen = 0, wh_uiFlag = 0, wh_uiOffset = 0\<rparr>;
     if r = 1 then do {
       (q, szMask) \<leftarrow>
         (if wh_uiOffset head > 4 then do {
            q \<leftarrow> byteQueue_readOffset q (wh_uiOffset head - 4);
            (szMask, q) \<leftarrow> bq_read q 4 False;
            Some (q, szMask) }
          else do {
            q \<leftarrow> byteQueue_readOffset q (wh_uiOffset head);
            Some (q, []) });
       (q, pPackBuffer) \<leftarrow>
         (if wh_uiPayloadLen head > 0 then do {
            (b, q) \<leftarrow> byteQueue_readBytes q (wh_uiPayloadLen head) False;
            p \<leftarrow> b;
            p \<leftarrow> (if wh_uiOffset head > 4 then unMask p (wh_uiPayloadLen head) szMask else Some p);
            Some (q, p) }
          else Some (q, []));
       Some (r, q, Some \<lparr>wf_pOutBuf = fst (cbuf_swap pOutBuf pPackBuffer (wh_uiPayloadLen head)),
                         wf_uiFlag = wh_uiFlag head\<rparr>) }
     else Some (r, q, None) }"

section \<open>Encoding\<close>

definition ws_opcode :: "u8 \<Rightarrow> u8" where
  "ws_opcode uiFlag =
     (let f = uiFlag AND 0xf0 in
      if f = 0x10 then 1
      else if f = 0x20 then 2
      else if f = 0x30 then 8
      else if f = 0x50 then 9
      else if f = 0x40 then 10
      else 1)"

definition ws_head_length :: "nat \<Rightarrow> nat" where
  "ws_head_length n = (if n < 126 then 2 else 4)"

text \<open>The stores that fill the head; \<open>b1\<close> is the length byte written before a 16 bit length.  (The code of
  a full fragment writes the constants \<open>0xff\<close>, which are what these stores give for 65535.)\<close>

definition ws_fill_head :: "block \<Rightarrow> u8 \<Rightarrow> u8 \<Rightarrow> nat \<Rightarrow> block option" where
  "ws_fill_head b b0 b1 n =
     (let w = (of_nat n :: u64) in
      if n < 126 then do {
        b \<leftarrow> mem_store b 1 [Some (ucast (w AND 0xff))];
        mem_store b 0 [Some b0] }
      else do {
        b \<leftarrow> mem_store b 1 [Some b1];
        b \<leftarrow> mem_store b 2 [Some (ucast (drop_bit 8 w AND 0xff))];
        b \<leftarrow> mem_store b 3 [Some (ucast (w AND 0xff))];
        mem_store b 0 [Some b0] })"

definition ws_frame :: "u8 \<Rightarrow> bytes \<Rightarrow> nat \<Rightarrow> nat \<Rightarrow> (block \<times> nat) option" where
  "ws_frame b0 pBuffer nFrom n = do {
     b \<leftarrow> ws_fill_head (mem_malloc (ws_head_length n + n)) b0 126 n;
     xs \<leftarrow> mem_load (map Some pBuffer) nFrom n;
     b \<leftarrow> mem_store b (ws_head_length n) xs;
     Some (b, ws_head_length n + n) }"

text \<open>As in the other codec, \<open>j * 0xffff\<close> is a product of \<open>int32_t\<close>.\<close>

definition webSocket_encode :: "bytes \<Rightarrow> u8 \<Rightarrow> (block \<times> nat) list option" where
  "webSocket_encode pBuffer uiFlag =
     (let nLength = length pBuffer; uiOpcode = ws_opcode uiFlag; nFragmentCount = nLength div 0xffff + 1
      in if nFragmentCount = 1 then do {
           f \<leftarrow> ws_frame (uiOpcode OR 0x80) pBuffer 0 nLength;
           Some [f] }
         else tp_fragments
           (\<lambda>j. if 2 ^ 31 \<le> j * 0xffff then None
                else if j = nFragmentCount - 1
                then ws_frame 0x80 pBuffer (j * 0xffff) (nLength - j * 0xffff)
                else ws_frame (if j = 0 then uiOpcode else 0) pBuffer (j * 0xffff) 0xffff)
           [0..<nFragmentCount])"

text \<open>A full fragment of the vector encoder writes \<open>0xff\<close> where the others write 126.\<close>

definition ws_vec_fragment ::
  "nat \<Rightarrow> u8 \<Rightarrow> nat \<Rightarrow> nat \<Rightarrow> bytes list \<times> nat \<Rightarrow> ((block \<times> nat) \<times> bytes list \<times> nat) option" where
  "ws_vec_fragment nLength uiOpcode iFragmentCount j src =
     (let bLast = (j = iFragmentCount - 1);
          n = (if bLast then nLength - j * 0xffff else 0xffff);
          b0 = (if bLast then 0x80 else if j = 0 then uiOpcode else 0);
          b1 = (if bLast then 126 else 0xff);
          iLength = ws_head_length n + n
      in if bLast \<and> 2 ^ 31 \<le> j * 0xffff then None
      else do {
        b \<leftarrow> ws_fill_head (mem_malloc iLength) b0 b1 n;
        (b, src) \<leftarrow> tp_gather (fst src) (snd src) b (iLength - n) iLength;
        Some ((b, iLength), src) })"

definition webSocket_encodeVec :: "bytes list \<Rightarrow> u8 \<Rightarrow> (block \<times> nat) list option" where
  "webSocket_encodeVec pInBufVec uiFlag =
     (let nLength = sum_list (map length pInBufVec); uiOpcode = ws_opcode uiFlag;
          iFragmentCount = nLength div 0xffff + 1
      in if iFragmentCount = 1 then do {
           let iLength = ws_head_length nLength + nLength;
           b \<leftarrow> ws_fill_head (mem_malloc iLength) (uiOpcode OR 0x80) 126 nLength;
           b \<leftarrow> tp_copy_all pInBufVec b (iLength - nLength);
           Some [(b, iLength)] }
         else map_option fst (run_ops
           (\<lambda>src j. ws_vec_fragment nLength uiOpcode iFragmentCount j src) (pInBufVec, 0) [0..<iFragmentCount]))"

definition webSocket_encodeBufCount :: "nat \<Rightarrow> nat" where
  "webSocket_encodeBufCount nLength = nLength div 0xffff + 1"

definition webSocket_encodeVecBufCount :: "bytes list \<Rightarrow> nat" where
  "webSocket_encodeVecBufCount pInBufVec = sum_list (map length pInBufVec) div 0xffff + 1"

section \<open>The frame format as the decoder reads it\<close>

text \<open>\<open>ws_parse\<close> is the format of the decoder, with the low byte of a 16 bit length first; \<open>ws_rfc_parse\<close> below is that of RFC 6455.\<close>

datatype ws_msg = WsMsg (ws_uiFlag: u8) (ws_payload: bytes)

definition ws_mask :: "bytes \<Rightarrow> bytes \<Rightarrow> bytes" where
  "ws_mask szMask xs = map (\<lambda>i. xs ! i XOR szMask ! (i mod 4)) [0..<length xs]"

definition ws_body :: "bytes \<Rightarrow> u8 \<Rightarrow> nat \<Rightarrow> nat \<Rightarrow> ws_msg frame" where
  "ws_body bs uiFlag nPlain n =
     (let bMask = (bs ! 1 AND 0x80 = 0x80); nHead = (if bMask then nPlain + 4 else nPlain) in
      if n + nHead > length bs then FrameNeed
      else FrameGot
        (WsMsg (if bs ! 0 AND 0x80 = 0x80 then uiFlag OR 0x80 else uiFlag)
           (if bMask then ws_mask (take 4 (drop nPlain bs)) (take n (drop nHead bs)) else take n (drop nHead bs)))
        (drop (nHead + n) bs))"

definition ws_parse :: "bytes \<Rightarrow> ws_msg frame" where
  "ws_parse bs =
     (if length bs < 2 then FrameNeed
      else case ws_flag (bs ! 0 AND 0x0f) of
        None \<Rightarrow> FrameBad
      | Some uiFlag \<Rightarrow>
          let n = unat (bs ! 1 AND 0x7f) in
          if n < 126 then ws_body bs uiFlag 2 n
          else if n > 126 then FrameBad
          else if length bs < 4 then FrameNeed
          else ws_body bs uiFlag 4 (unat (bs ! 2) + unat (bs ! 3) * 256))"

text \<open>RFC 6455, section 5.2: a frame with its bits FIN and MASK, opcode and lengths in network byte order; the reserved bits are not looked at.\<close>

definition ws_rfc_parse :: "bytes \<Rightarrow> ws_msg frame" where
  "ws_rfc_parse bs =
     (if length bs < 2 then FrameNeed
      else case ws_flag (bs ! 0 AND 0x0f) of
        None \<Rightarrow> FrameBad
      | Some uiFlag \<Rightarrow>
          let n = unat (bs ! 1 AND 0x7f) in
          if n < 126 then ws_body bs uiFlag 2 n
          else if n = 126 then
            (if length bs < 4 then FrameNeed else ws_body bs uiFlag 4 (unat (bs ! 2) * 256 + unat (bs ! 3)))
          else if length bs < 10 then FrameNeed
          else ws_body bs uiFlag 10 (foldl (\<lambda>n b. n * 256 + unat b) 0 (take 8 (drop 2 bs))))"

text \<open>The 7 bits of the length, and a frame with the next two bytes exchanged.\<close>

definition ws_length_code :: "bytes \<Rightarrow> nat" where
  "ws_length_code bs = (if length bs < 2 then 0 else unat (bs ! 1 AND 0x7f))"

definition ws_exchanged :: "bytes \<Rightarrow> bytes" where
  "ws_exchanged bs = bs[2 := bs ! 3, 3 := bs ! 2]"

lemma ws_exchanged_simps [simp]:
  "length (ws_exchanged bs) = length bs" "ws_exchanged bs ! 0 = bs ! 0" "ws_exchanged bs ! Suc 0 = bs ! Suc 0"
  "4 \<le> n \<Longrightarrow> drop n (ws_exchanged bs) = drop n bs"
  by (simp_all add: ws_exchanged_def drop_update_cancel)

lemma ws_body_exchanged: "ws_body (ws_exchanged bs) f 4 n = ws_body bs f 4 n"
  by (simp add: ws_body_def Let_def)

lemma code_127: "unat (b AND 0x7f :: u8) \<le> 127"
  using word_and_le1 [of b "0x7f"] by (simp add: word_le_nat_alt)

lemma ws_parse_rfc: "ws_parse bs = (if ws_length_code bs = 127 then FrameBad
    else ws_rfc_parse (if ws_length_code bs = 126 then ws_exchanged bs else bs))"
proof (cases "length bs < 2 \<or> ws_flag (bs ! 0 AND 0x0f) = None")
  case True
  then show ?thesis by (auto simp: ws_parse_def ws_rfc_parse_def ws_length_code_def)
next
  case False
  then obtain f where l: "2 \<le> length bs" and f: "ws_flag (bs ! 0 AND 0x0f) = Some f" by auto
  have e: "length bs \<ge> 4 \<Longrightarrow> ws_exchanged bs ! 2 = bs ! 3 \<and> ws_exchanged bs ! 3 = bs ! 2" by (simp add: ws_exchanged_def)
  consider "ws_length_code bs < 126" | "ws_length_code bs = 126" | "ws_length_code bs = 127"
    using code_127 [of "bs ! 1"] l unfolding ws_length_code_def by fastforce
  then show ?thesis
    using l f e by cases (auto simp: ws_parse_def ws_rfc_parse_def ws_length_code_def ws_body_exchanged Let_def add.commute)
qed

lemma length_ws_mask [simp]: "length (ws_mask m xs) = length xs"
  by (simp add: ws_mask_def)

lemma ws_mask_mask: "ws_mask m (ws_mask m xs) = xs"
  by (rule nth_equalityI) (simp_all add: ws_mask_def xor.assoc)

lemma unMask_bytes: "unMask (map Some xs) (length xs) m = Some (map Some (ws_mask m xs))"
  by (simp add: unMask_def ws_mask_def)

definition ws_head_agrees :: "bytes \<Rightarrow> int \<Rightarrow> webSocketHead \<Rightarrow> ws_msg frame \<Rightarrow> bool" where
  "ws_head_agrees xs r head p \<longleftrightarrow>
     (case p of FrameNeed \<Rightarrow> r = 0 | FrameBad \<Rightarrow> r = -1
      | FrameGot m rest \<Rightarrow>
          let h = wh_uiOffset head; n = wh_uiPayloadLen head in
          r = 1 \<and> h \<in> {2, 4, 6, 8} \<and> h + n \<le> length xs \<and> wh_uiFlag head = ws_uiFlag m \<and>
          ws_payload m = (if h > 4 then ws_mask (take 4 (drop (h - 4) xs)) (take n (drop h xs)) else take n (drop h xs)) \<and>
          rest = drop (h + n) xs)"

lemma ws_complete_agrees:
  assumes "nPlain \<in> {2, 4}" "wh_uiFlag head = (if xs ! 0 AND 0x80 = 0x80 then f OR 0x80 else f)"
  shows "ws_head_agrees xs (fst (ws_complete head nPlain (length xs) (xs ! 1)))
    (snd (ws_complete head nPlain (length xs) (xs ! 1))) (ws_body xs f nPlain (wh_uiPayloadLen head))"
proof -
  obtain h where h: "h = (if xs ! 1 AND 0x80 = 0x80 then nPlain + 4 else nPlain)" by blast
  have hs: "h \<in> {2, 4, 6, 8}" "h > 4 \<longleftrightarrow> xs ! 1 AND 0x80 = 0x80" "h > 4 \<Longrightarrow> nPlain = h - 4" "\<not> h > 4 \<Longrightarrow> nPlain = h"
    using assms(1) by (auto simp: h)
  have b: "ws_body xs f nPlain n = (if n + h > length xs then FrameNeed
      else FrameGot (WsMsg (if xs ! 0 AND 0x80 = 0x80 then f OR 0x80 else f)
        (if h > 4 then ws_mask (take 4 (drop (h - 4) xs)) (take n (drop h xs)) else take n (drop h xs))) (drop (h + n) xs))"
    and c: "ws_complete head nPlain (length xs) (xs ! 1) =
      (if wh_uiPayloadLen head + h > length xs then (0, head) else (1, head\<lparr>wh_uiOffset := h\<rparr>))" for n
    unfolding ws_body_def ws_complete_def Let_def h [symmetric] hs(2) [symmetric]
    using hs(3,4) by (simp_all del: One_nat_def)
  show ?thesis unfolding b c using hs(1) assms(2)
    by (auto simp add: ws_head_agrees_def Let_def)
qed

lemma join_nat_le: "unat (ucast a OR push_bit 8 (ucast b) :: u16) = unat a + unat b * 256" for a b :: u8
  using join_nat [of b a] by (simp add: or.commute add.commute)

lemma ws_decodeHead_rep:
  assumes "bq_rep q xs"
  shows "\<exists>r head'. webSocket_decodeHead q head = Some (r, head') \<and> ws_head_agrees xs r head' (ws_parse xs)"
proof -
  have r: "byteQueue_getBytesReadable q = length xs" using assms by (rule rep_readable)
  show ?thesis
  proof (cases "length xs < 2")
    case True
    then show ?thesis by (simp add: webSocket_decodeHead_def r ws_parse_def ws_head_agrees_def)
  next
    case False
    then have p2: "bq_read q 2 True = Some (take 2 xs, q)" using bq_read_peek [OF assms] by simp
    show ?thesis
    proof (cases "ws_flag (xs ! 0 AND 0x0f)")
      case None
      with False show ?thesis by (simp add: webSocket_decodeHead_def r p2 ws_parse_def ws_head_agrees_def)
    next
      case (Some f)
      let ?f = "if xs ! 0 AND 0x80 = 0x80 then f OR 0x80 else f" and ?n = "unat (xs ! 1 AND 0x7f)"
      consider "?n < 126" | "?n > 126" | "?n = 126" "length xs < 4" | "?n = 126" "4 \<le> length xs" by linarith
      then show ?thesis
      proof cases
        case 1
        let ?h = "head\<lparr>wh_uiOffset := 0, wh_uiFlag := ?f, wh_uiPayloadLen := ?n\<rparr>"
        have "webSocket_decodeHead q head = Some (ws_complete ?h 2 (length xs) (xs ! 1))"
          using 1 Some False by (simp add: webSocket_decodeHead_def r p2)
        moreover have "ws_head_agrees xs (fst (ws_complete ?h 2 (length xs) (xs ! 1)))
            (snd (ws_complete ?h 2 (length xs) (xs ! 1))) (ws_parse xs)"
          using ws_complete_agrees [of 2 ?h xs f] 1 Some False by (simp add: ws_parse_def)
        ultimately show ?thesis by (metis prod.collapse)
      next
        case 2
        with Some False show ?thesis
          by (simp add: webSocket_decodeHead_def r p2 ws_parse_def ws_head_agrees_def Let_def)
      next
        case 3
        with Some False show ?thesis
          by (simp add: webSocket_decodeHead_def r p2 ws_parse_def ws_head_agrees_def Let_def)
      next
        case 4
        then have p4: "bq_read q 4 True = Some (take 4 xs, q)" using bq_read_peek [OF assms] by simp
        let ?h = "head\<lparr>wh_uiOffset := 0, wh_uiFlag := ?f,
          wh_uiPayloadLen := unat (xs ! 2) + unat (xs ! 3) * 256\<rparr>"
        have "webSocket_decodeHead q head = Some (ws_complete ?h 4 (length xs) (xs ! 1))"
          using 4 Some False by (simp add: webSocket_decodeHead_def r p2 p4 join_nat_le)
        moreover have "ws_head_agrees xs (fst (ws_complete ?h 4 (length xs) (xs ! 1)))
            (snd (ws_complete ?h 4 (length xs) (xs ! 1))) (ws_parse xs)"
          using ws_complete_agrees [of 4 ?h xs f] 4 Some False by (simp add: ws_parse_def)
        ultimately show ?thesis by (metis prod.collapse)
      qed
    qed
  qed
qed

lemma ws_decode_rep:
  assumes "bq_rep q xs"
  shows "\<exists>r q' f. webSocket_decode q pOutBuf = Some (r, q', f) \<and>
    (case ws_parse xs of
       FrameNeed \<Rightarrow> r = 0 \<and> q' = q \<and> f = None
     | FrameBad \<Rightarrow> r = -1 \<and> q' = q \<and> f = None
     | FrameGot m rest \<Rightarrow> r = 1 \<and> bq_rep q' rest \<and>
         (\<exists>fr. f = Some fr \<and> cb_pBuffer (wf_pOutBuf fr) = map Some (ws_payload m) \<and>
           cb_nLength (wf_pOutBuf fr) = length (ws_payload m) \<and> wf_uiFlag fr = ws_uiFlag m))"
proof -
  from ws_decodeHead_rep [OF assms] obtain r h where h:
    "webSocket_decodeHead q \<lparr>wh_uiPayloadLen = 0, wh_uiFlag = 0, wh_uiOffset = 0\<rparr> = Some (r, h)"
    "ws_head_agrees xs r h (ws_parse xs)" by blast
  show ?thesis
  proof (cases "ws_parse xs")
    case FrameNeed
    with h show ?thesis by (simp add: webSocket_decode_def ws_head_agrees_def)
  next
    case FrameBad
    with h show ?thesis by (simp add: webSocket_decode_def ws_head_agrees_def)
  next
    case (FrameGot m rest)
    let ?o = "wh_uiOffset h" and ?n = "wh_uiPayloadLen h"
    let ?mask = "if ?o > 4 then take 4 (drop (?o - 4) xs) else []"
    from h FrameGot have a: "r = 1" "?o \<in> {2, 4, 6, 8}" "?o + ?n \<le> length xs" "wh_uiFlag h = ws_uiFlag m"
      "ws_payload m = (if ?o > 4 then ws_mask (take 4 (drop (?o - 4) xs)) (take ?n (drop ?o xs)) else take ?n (drop ?o xs))"
      "rest = drop (?o + ?n) xs"
      by (simp_all add: ws_head_agrees_def Let_def)
    have ln: "length (take ?n (drop ?o xs)) = ?n" using a(3) by simp
    have lp: "length (ws_payload m) = ?n" unfolding a(5) using ln by simp
    obtain q1 where q1: "(if ?o > 4 then do {
            q \<leftarrow> byteQueue_readOffset q (?o - 4);
            (szMask, q) \<leftarrow> bq_read q 4 False;
            Some (q, szMask) }
          else do {
            q \<leftarrow> byteQueue_readOffset q ?o;
            Some (q, []) }) = Some (q1, ?mask)" "bq_rep q1 (drop ?o xs)"
    proof (cases "?o > 4")
      case True
      from rep_readOffset [OF assms, of "?o - 4"] a(2,3) obtain q0 where
        q0: "byteQueue_readOffset q (?o - 4) = Some q0" "bq_rep q0 (drop (?o - 4) xs)" by auto
      have "4 \<le> length (drop (?o - 4) xs)" using a(2,3) True by auto
      from bq_read_take [OF q0(2) _ this] a(2) True obtain q2 where
        "bq_read q0 4 False = Some (take 4 (drop (?o - 4) xs), q2)" "bq_rep q2 (drop 4 (drop (?o - 4) xs))" by auto
      then show ?thesis using True a(2) q0 that by simp
    next
      case False
      from rep_readOffset [OF assms, of ?o] a(3) False show ?thesis using that by auto
    qed
    obtain q2 where q2: "(if ?n > 0 then do {
            (b, q) \<leftarrow> byteQueue_readBytes q1 ?n False;
            p \<leftarrow> b;
            p \<leftarrow> (if ?o > 4 then unMask p ?n ?mask else Some p);
            Some (q, p) }
          else Some (q1, [])) = Some (q2, map Some (ws_payload m))" "bq_rep q2 rest"
    proof (cases "?n > 0")
      case True
      with a(3) have "drop ?o xs \<noteq> []" by auto
      from bq_source.take_off [OF q1(2) this True] obtain q2 where
        "byteQueue_readBytes q1 ?n False = Some (Some (map Some (take ?n (drop ?o xs))), q2)"
        "bq_rep q2 (drop ?n (drop ?o xs))" by blast
      moreover have "unMask (map Some (take ?n (drop ?o xs))) ?n k = Some (map Some (ws_mask k (take ?n (drop ?o xs))))" for k
        using unMask_bytes [of "take ?n (drop ?o xs)" k] ln by simp
      ultimately show ?thesis using True a(5,6) that by (cases "?o > 4") (simp_all add: add.commute)
    next
      case False
      with a(6) lp q1 that show ?thesis by simp
    qed
    have "webSocket_decode q pOutBuf = Some (1, q2,
        Some \<lparr>wf_pOutBuf = fst (cbuf_swap pOutBuf (map Some (ws_payload m)) ?n), wf_uiFlag = wh_uiFlag h\<rparr>)"
      unfolding webSocket_decode_def h(1)
      by (simp only: Option.bind.bind_lunit prod.case refl if_True a(1) q1(1) q2(1))
    with q2(2) a(4) FrameGot lp show ?thesis by (simp add: cbuf_swap_def)
  qed
qed

section \<open>Frames on the wire\<close>

text \<open>A frame with an optional mask as the decoder reads it: a 16 bit length has its low byte first.\<close>

definition ws_first :: "u8 \<Rightarrow> u8" where
  "ws_first uiFlag =
     (uiFlag AND 0x80) OR
     (let f = uiFlag AND 0x70 in
      if f = 0x10 then 1 else if f = 0x20 then 2 else if f = 0x30 then 8 else if f = 0x50 then 9
      else if f = 0x40 then 10 else 0)"

definition ws_enc :: "bytes option \<Rightarrow> ws_msg \<Rightarrow> bytes" where
  "ws_enc key m =
     (let n = length (ws_payload m); bit = (if key = None then 0 else 0x80 :: u8) in
      ws_first (ws_uiFlag m) #
      (if n < 126 then [bit OR of_nat n] else [bit OR 126, of_nat n, of_nat (n div 256)]) @
      (case key of None \<Rightarrow> ws_payload m | Some k \<Rightarrow> k @ ws_mask k (ws_payload m)))"

text \<open>A frame as a peer writes it: a 16 bit length has its high byte first.\<close>

definition ws_rfc_enc :: "bytes option \<Rightarrow> ws_msg \<Rightarrow> bytes" where
  "ws_rfc_enc key m =
     (let n = length (ws_payload m); bit = (if key = None then 0 else 0x80 :: u8) in
      ws_first (ws_uiFlag m) #
      (if n < 126 then [bit OR of_nat n] else [bit OR 126, of_nat (n div 256), of_nat n]) @
      (case key of None \<Rightarrow> ws_payload m | Some k \<Rightarrow> k @ ws_mask k (ws_payload m)))"

lemma ws_rfc_enc_same:
  assumes "length (ws_payload m) < 126 \<or> length (ws_payload m) div 256 = length (ws_payload m) mod 256"
  shows "ws_rfc_enc key m = ws_enc key m"
proof -
  have "(of_nat n :: u8) = of_nat (n mod 256)" for n :: nat by (simp add: word_of_nat_eq_iff take_bit_eq_mod)
  from this [of "length (ws_payload m)"] have "length (ws_payload m) div 256 = length (ws_payload m) mod 256 \<Longrightarrow>
      (of_nat (length (ws_payload m) div 256) :: u8) = of_nat (length (ws_payload m))" by simp
  with assms show ?thesis unfolding ws_rfc_enc_def ws_enc_def Let_def by (cases "length (ws_payload m) < 126") simp_all
qed

definition ws_ok :: "ws_msg \<Rightarrow> bool" where
  "ws_ok m \<longleftrightarrow> ws_uiFlag m \<in> {0, 0x10, 0x20, 0x30, 0x40, 0x50, 0x80, 0x90, 0xa0, 0xb0, 0xc0, 0xd0} \<and>
     length (ws_payload m) < 2 ^ 16"

lemma ws_first_flag:
  assumes "uiFlag \<in> {0, 0x10, 0x20, 0x30, 0x40, 0x50, 0x80, 0x90, 0xa0, 0xb0, 0xc0, 0xd0}"
  shows "ws_flag (ws_first uiFlag AND 0x0f) = Some (uiFlag AND 0x70)"
    "(if ws_first uiFlag AND 0x80 = 0x80 then (uiFlag AND 0x70) OR 0x80 else uiFlag AND 0x70) = uiFlag"
  using assms by (auto simp: ws_first_def ws_flag_def)

lemma len7:
  assumes "n < 128" "b \<in> {0, 0x80 :: u8}"
  shows "unat ((b OR of_nat n) AND 0x7f) = n" "(b OR of_nat n) AND 0x80 = b"
proof -
  let ?y = "of_nat n :: u8"
  have u: "uint ?y = int n" using assms(1) by (simp add: uint_nat unat_of_nat)
  then have t: "?y = ?y AND 0x7f"
    using assms(1) take_bit_small [of ?y 7] by (simp add: take_bit_eq_mask mask_eq_exp_minus_1)
  have z: "?y AND 0x80 = 0" by (subst t) (simp add: and.assoc)
  show "(b OR ?y) AND 0x80 = b" using assms(2) by (auto simp: bit.conj_disj_distrib2 z)
  have "(b OR ?y) AND 0x7f = ?y" using assms(2) t by (auto simp: bit.conj_disj_distrib2)
  then show "unat ((b OR ?y) AND 0x7f) = n" using u by (simp add: unat_eq_nat_uint)
qed

lemma ws_body_whole:
  assumes "bs = hd1 @ (case key of None \<Rightarrow> pl | Some k \<Rightarrow> k @ ws_mask k pl) @ rest" "length hd1 = nPlain"
    "bs ! 1 AND 0x80 = 0x80 \<longleftrightarrow> key \<noteq> None" "\<And>k. key = Some k \<Longrightarrow> length k = 4"
  shows "ws_body bs f nPlain (length pl) =
    FrameGot (WsMsg (if bs ! 0 AND 0x80 = 0x80 then f OR 0x80 else f) pl) rest"
proof (cases key)
  case None
  then have "drop nPlain bs = pl @ rest" "length bs = nPlain + length pl + length rest"
    using assms(1,2) by simp_all
  moreover from this(1) have "drop (nPlain + length pl) bs = rest"
    by (metis add.commute append_eq_conv_conj drop_drop)
  ultimately show ?thesis using None assms(3) by (simp add: ws_body_def del: One_nat_def)
next
  case (Some k)
  then have l: "length k = 4" using assms(4) by simp
  then have d: "drop nPlain bs = k @ ws_mask k pl @ rest" "drop (nPlain + 4) bs = ws_mask k pl @ rest"
    "length bs = nPlain + 4 + length pl + length rest"
    using assms(1,2) Some by simp_all
  from this(2) have "drop (nPlain + 4 + length pl) bs = rest"
    by (metis add.commute append_eq_conv_conj drop_drop length_ws_mask)
  with d l show ?thesis using Some assms(3) by (simp add: ws_body_def ws_mask_mask del: One_nat_def)
qed

lemma ws_parse_whole:
  assumes "ws_ok m" "\<And>k. key = Some k \<Longrightarrow> length k = 4"
  shows "ws_parse (ws_enc key m @ rest) = FrameGot m rest"
proof -
  obtain g pl where m: "m = WsMsg g pl" by (cases m)
  let ?n = "length pl" and ?bit = "if key = None then 0 else 0x80 :: u8"
  let ?tail = "(case key of None \<Rightarrow> pl | Some k \<Rightarrow> k @ ws_mask k pl) @ rest"
  have ok: "g \<in> {0, 0x10, 0x20, 0x30, 0x40, 0x50, 0x80, 0x90, 0xa0, 0xb0, 0xc0, 0xd0}" "?n < 2 ^ 16"
    using assms(1) m by (simp_all add: ws_ok_def)
  note fl = ws_first_flag [OF ok(1)]
  have bit: "?bit \<in> {0, 0x80}" by simp
  show ?thesis
  proof (cases "?n < 126")
    case True
    note l7 = len7 [OF _ bit, of ?n]
    have bs: "ws_enc key m @ rest = [ws_first g, ?bit OR of_nat ?n] @ ?tail"
      using True by (simp add: ws_enc_def m Let_def split: option.split)
    have "ws_body (ws_enc key m @ rest) (g AND 0x70) 2 ?n =
        FrameGot (WsMsg (if (ws_enc key m @ rest) ! 0 AND 0x80 = 0x80 then (g AND 0x70) OR 0x80 else g AND 0x70) pl) rest"
      by (rule ws_body_whole [OF bs]) (use l7(2) True assms(2) bs in auto)
    moreover have "(ws_enc key m @ rest) ! 0 = ws_first g" "(ws_enc key m @ rest) ! 1 = ?bit OR of_nat ?n"
      "2 \<le> length (ws_enc key m @ rest)" using bs by simp_all
    ultimately show ?thesis using fl l7(1) True unfolding ws_parse_def m by (simp add: not_less)
  next
    case False
    note l7 = len7 [OF _ bit, of 126]
    have bs: "ws_enc key m @ rest = [ws_first g, ?bit OR 126, of_nat ?n, of_nat (?n div 256)] @ ?tail"
      using False by (simp add: ws_enc_def m Let_def split: option.split)
    have "ws_body (ws_enc key m @ rest) (g AND 0x70) 4 ?n =
        FrameGot (WsMsg (if (ws_enc key m @ rest) ! 0 AND 0x80 = 0x80 then (g AND 0x70) OR 0x80 else g AND 0x70) pl) rest"
      by (rule ws_body_whole [OF bs]) (use l7(2) assms(2) bs in auto)
    moreover have "(ws_enc key m @ rest) ! 0 = ws_first g" "(ws_enc key m @ rest) ! 1 = ?bit OR 126"
      "(ws_enc key m @ rest) ! 2 = of_nat ?n" "(ws_enc key m @ rest) ! 3 = of_nat (?n div 256)"
      "4 \<le> length (ws_enc key m @ rest)" using bs by simp_all
    moreover have "unat (of_nat ?n :: u8) + unat (of_nat (?n div 256) :: u8) * 256 = ?n"
      using byte_pair [OF ok(2)] by (simp add: add.commute)
    ultimately show ?thesis using fl l7(1) unfolding ws_parse_def m by (simp add: not_less)
  qed
qed

text \<open>The two readings of RFC 6455 agree: \<open>ws_rfc_parse\<close> reads back what \<open>ws_rfc_enc\<close> writes.\<close>

lemma ws_rfc_whole:
  assumes "ws_ok m" "\<And>k. key = Some k \<Longrightarrow> length k = 4"
  shows "ws_rfc_parse (ws_rfc_enc key m @ rest) = FrameGot m rest"
proof -
  let ?n = "length (ws_payload m)" and ?bit = "if key = None then 0 else 0x80 :: u8"
  have code: "ws_length_code (ws_enc key m @ rest) = (if ?n < 126 then ?n else 126)"
    using len7 [of ?n ?bit] len7 [of 126 ?bit] by (auto simp: ws_length_code_def ws_enc_def Let_def)
  have w: "ws_parse (ws_enc key m @ rest) = FrameGot m rest" by (rule ws_parse_whole [OF assms])
  show ?thesis
  proof (cases "?n < 126")
    case True
    with w show ?thesis unfolding ws_parse_rfc code by (simp add: ws_rfc_enc_same)
  next
    case False
    then have "ws_exchanged (ws_enc key m @ rest) = ws_rfc_enc key m @ rest"
      by (simp add: ws_exchanged_def ws_enc_def ws_rfc_enc_def Let_def numeral_2_eq_2 numeral_3_eq_3)
    with w False show ?thesis unfolding ws_parse_rfc code by simp
  qed
qed

lemma ws_parse_take:
  assumes "ws_parse bs = FrameGot m rest" "k < length bs - length rest"
  shows "ws_parse (take k bs) = FrameNeed"
proof -
  have body: "ws_body (take k bs) f nPlain n = FrameNeed"
    if "ws_body bs f nPlain n = FrameGot m rest" "2 \<le> k" for f nPlain n
    using that assms(2) by (auto simp: ws_body_def Let_def split: if_splits)
  show ?thesis
    using assms(1) body unfolding ws_parse_def
    by (auto split: if_splits option.splits simp: not_less Let_def)
qed

definition ws_key :: "bytes option \<Rightarrow> bytes option" where
  "ws_key key = (case key of Some k \<Rightarrow> if length k = 4 then Some k else None | None \<Rightarrow> None)"

text \<open>For every masking key (a list of another length stands for no key) the frames are a framing.\<close>

interpretation ws: framing "ws_enc (ws_key key)" ws_ok ws_parse for key
proof
  have k: "\<And>k. ws_key key = Some k \<Longrightarrow> length k = 4" by (auto simp: ws_key_def split: option.splits if_splits)
  show "ws_parse (ws_enc (ws_key key) a @ rest) = FrameGot a rest" if "ws_ok a" for a rest
    by (rule ws_parse_whole [OF that k])
  show "ws_parse (take n (ws_enc (ws_key key) a)) = FrameNeed" if "ws_ok a" "n < length (ws_enc (ws_key key) a)" for a n
  proof -
    have w: "ws_parse (ws_enc (ws_key key) a) = FrameGot a []"
      using ws_parse_whole [OF that(1) k, where rest = "[]"] by simp
    show ?thesis by (rule ws_parse_take [OF w]) (use that(2) in simp)
  qed
qed (simp add: ws_parse_def)

section \<open>What the encoder writes\<close>

definition ws_head :: "u8 \<Rightarrow> u8 \<Rightarrow> nat \<Rightarrow> bytes" where
  "ws_head b0 b1 n = (if n < 126 then [b0, of_nat n] else [b0, b1, of_nat (n div 256), of_nat n])"

lemma length_ws_head [simp]: "length (ws_head b0 b1 n) = ws_head_length n"
  by (simp add: ws_head_def ws_head_length_def)

lemma ws_fill_head_ok:
  assumes "n < 2 ^ 16"
  shows "ws_fill_head (mem_malloc (ws_head_length n + k)) b0 b1 n =
    Some (map Some (ws_head b0 b1 n) @ replicate k None)"
proof -
  have r: "mem_malloc (Suc (Suc k)) = [None, None] @ replicate k None"
    "mem_malloc (2 + k) = [None, None] @ replicate k None"
    "mem_malloc (4 + k) = [None, None, None, None] @ replicate k None"
    by (simp_all add: mem_malloc_def numeral_eq_Suc)
  note b = byte_of_nat(1) [of n] byte_of_nat(2) [OF assms]
  show ?thesis
    by (cases "n < 126")
      (simp_all add: ws_fill_head_def ws_head_length_def r store_prefix Let_def b
        ws_head_def mem_store_def del: append_Cons)
qed

lemma ws_frame_ok:
  assumes "n < 2 ^ 16" "nFrom + n \<le> length pBuffer"
  shows "ws_frame b0 pBuffer nFrom n =
    Some (map Some (ws_head b0 126 n @ take n (drop nFrom pBuffer)), ws_head_length n + n)"
  using assms ws_fill_head_ok [OF assms(1), of n b0 126]
  by (simp add: ws_frame_def mem_load_def mem_store_def take_map drop_map)

lemma ws_single:
  assumes "length p < 0xffff"
  shows "webSocket_encode p uiFlag =
    (let w = ws_head (ws_opcode uiFlag OR 0x80) 126 (length p) @ p in Some [(map Some w, length w)])"
  using assms ws_frame_ok [of "length p" 0 p "ws_opcode uiFlag OR 0x80"]
  by (simp add: webSocket_encode_def Let_def)

lemma ws_swapped:
  assumes "n < 2 ^ 16"
  shows "unat (of_nat (n div 256) :: u8) + unat (of_nat n :: u8) * 256 = n div 256 + n mod 256 * 256"
  using assms by (simp add: unat_of_nat div_less_iff_less_mult)

definition ws_piece :: "bytes \<Rightarrow> u8 \<Rightarrow> nat \<Rightarrow> bytes" where
  "ws_piece p uiOpcode j =
     (let (b0, n) = tp_fragment_head (length p) uiOpcode j in
      ws_head b0 (if j = length p div 0xffff then 126 else 0xff) n @ take n (drop (j * 0xffff) p))"

lemma ws_vec_step:
  assumes "tp_source bufs (drop (j * 0xffff) p) src" "fst src \<noteq> []" "j \<le> length p div 0xffff"
    and small: "j = length p div 0xffff \<Longrightarrow> \<not> tp_big (length p)"
  shows "\<exists>src'. ws_vec_fragment (length p) uiOpcode (length p div 0xffff + 1) j src =
      Some ((map Some (ws_piece p uiOpcode j), length (ws_piece p uiOpcode j)), src') \<and>
    (j < length p div 0xffff \<longrightarrow> tp_source bufs (drop (Suc j * 0xffff) p) src')"
proof -
  obtain b0 n where bn: "tp_fragment_head (length p) uiOpcode j = (b0, n)" by fastforce
  obtain b1 where b1: "b1 = (if j = length p div 0xffff then 126 else 0xff :: u8)" by blast
  have n: "(if j = length p div 0xffff + 1 - 1 then length p - j * 0xffff else 0xffff) = n"
    "(if j = length p div 0xffff + 1 - 1 then 0x80 else if j = 0 then uiOpcode else 0) = b0"
    "(if j = length p div 0xffff + 1 - 1 then 126 else 0xff) = b1"
    using bn b1 by (auto simp: tp_fragment_head_def modulo_nat_def split: if_splits)
  have "n \<le> 0xffff" using bn by (auto simp: tp_fragment_head_def split: if_splits)
  then have n16: "n < 2 ^ 16" by simp
  let ?S = "drop (j * 0xffff) p" and ?h = "ws_head b0 b1 n"
  have w: "ws_piece p uiOpcode j = ?h @ take n ?S" by (simp add: ws_piece_def bn b1)
  have "n \<le> length ?S"
    using length_wire [OF assms(3), of uiOpcode False 0] bn by (simp add: tp_fragment_wire_def)
  from gather [of bufs ?S "fst src" "snd src" ?h "ws_head_length n" n] this assms(1,2)
  obtain src' where g: "tp_gather (fst src) (snd src) (map Some ?h @ replicate n None) (ws_head_length n)
        (ws_head_length n + n) = Some (map Some (?h @ take n ?S), src')" "0 < n \<longrightarrow> tp_source bufs (drop n ?S) src'"
    by auto
  have "ws_vec_fragment (length p) uiOpcode (length p div 0xffff + 1) j src =
      Some ((map Some (?h @ take n ?S), ws_head_length n + n), src')"
    unfolding ws_vec_fragment_def n Let_def using small ws_fill_head_ok [OF n16, of n b0 b1] g(1) by (auto simp: tp_big_def)
  moreover have "j < length p div 0xffff \<longrightarrow> tp_source bufs (drop (Suc j * 0xffff) p) src'"
    using g(2) bn by (auto simp: tp_fragment_head_def add.commute split: if_splits)
  ultimately show ?thesis using w \<open>n \<le> length ?S\<close> by auto
qed

lemma ws_vec_run:
  assumes "tp_source bufs p src" "k \<le> length p div 0xffff"
  shows "\<exists>src'. run_ops (\<lambda>src j. ws_vec_fragment (length p) uiOpcode (length p div 0xffff + 1) j src)
      src [0..<k] = Some (map (\<lambda>j. (map Some (ws_piece p uiOpcode j), length (ws_piece p uiOpcode j))) [0..<k], src') \<and>
    tp_source bufs (drop (k * 0xffff) p) src'"
  using assms(2)
proof (induction k)
  case 0
  then show ?case using assms(1) by simp
next
  case (Suc k)
  then obtain src1 where s1: "run_ops (\<lambda>src j. ws_vec_fragment (length p) uiOpcode (length p div 0xffff + 1) j src)
      src [0..<k] = Some (map (\<lambda>j. (map Some (ws_piece p uiOpcode j), length (ws_piece p uiOpcode j))) [0..<k], src1)"
    "tp_source bufs (drop (k * 0xffff) p) src1" by auto
  have "k * 0xffff + 0xffff \<le> length p" by (rule full_fits) (use Suc.prems in simp)
  then have "drop (k * 0xffff) p \<noteq> []" by simp
  then have "fst src1 \<noteq> []" using s1(2) by (auto simp: tp_source_def split: prod.splits list.splits)
  from ws_vec_step [OF s1(2) this, of uiOpcode] Suc.prems s1(1) show ?case
    by (auto simp: run_ops_append)
qed

lemma ws_vec_code:
  fixes bufs :: "bytes list"
  assumes "0xffff \<le> length (concat bufs)"
  shows "webSocket_encodeVec bufs uiFlag =
    (if \<not> tp_big (length (concat bufs)) \<and> (length (concat bufs) mod 0xffff \<noteq> 0 \<or> last bufs = [])
     then Some (map (\<lambda>j. (map Some (ws_piece (concat bufs) (ws_opcode uiFlag) j),
       length (ws_piece (concat bufs) (ws_opcode uiFlag) j))) [0..<length (concat bufs) div 0xffff + 1])
     else None)"
proof -
  obtain p where p: "concat bufs = p" by blast
  let ?k = "length p div 0xffff" and ?oc = "ws_opcode uiFlag"
  have T: "sum_list (map length bufs) = length p" by (simp add: p [symmetric] length_concat)
  have k: "?k \<noteq> 0" using assms p by (simp add: div_eq_0_iff)
  let ?f = "\<lambda>src j. ws_vec_fragment (length p) ?oc (?k + 1) j src"
  let ?g = "\<lambda>j. (map Some (ws_piece p ?oc j), length (ws_piece p ?oc j))"
  have "bufs \<noteq> []" using assms by auto
  then have "tp_source bufs p (bufs, 0)" using p by (cases bufs) (auto simp: tp_source_def)
  from ws_vec_run [OF this le_refl, of ?oc] obtain src where
    r: "run_ops ?f (bufs, 0) [0..<?k] = Some (map ?g [0..<?k], src)" "tp_source bufs (drop (?k * 0xffff) p) src" by blast
  have d: "length (drop (?k * 0xffff) p) = length p mod 0xffff" by (simp add: modulo_nat_def)
  have u: "webSocket_encodeVec bufs uiFlag = map_option (\<lambda>(f, _). map ?g [0..<?k] @ [f]) (?f src ?k)"
    using k unfolding webSocket_encodeVec_def T
    by (cases "?f src ?k") (simp_all add: run_ops_append r(1) [unfolded Suc_eq_plus1 [symmetric]] Let_def split: prod.splits)
  consider "tp_big (length p)" | "\<not> tp_big (length p)" "fst src = []" | "\<not> tp_big (length p)" "fst src \<noteq> []" by blast
  then show ?thesis
  proof cases
    case 1
    then have "?f src ?k = None" by (simp add: ws_vec_fragment_def tp_big_def Let_def)
    with 1 u p show ?thesis by simp
  next
    case 2
    note True = 2(2)
    from 2 have z: "length p mod 0xffff = 0" "last bufs \<noteq> []"
      using r(2) d by (auto simp: tp_source_def split: prod.splits)
    have "?f src ?k = None"
      using True ws_fill_head_ok [of 0 0 "0x80" 126] z(1)
      by (simp add: ws_vec_fragment_def modulo_nat_def Let_def)
    then show ?thesis using u z p by simp
  next
    case 3
    then have small: "\<not> tp_big (length p)" and ne: "fst src \<noteq> []" by simp_all
    from ws_vec_step [OF r(2) ne le_refl small, of ?oc] u
    have "webSocket_encodeVec bufs uiFlag = Some (map ?g [0..<?k + 1])" by auto
    moreover have "last bufs = []" if "length p mod 0xffff = 0"
    proof -
      have "drop (?k * 0xffff) p = []" using d that by (metis length_0_conv)
      with r(2) have "tp_source bufs [] (fst src, snd src)" by (simp only: prod.collapse)
      from source_exhausted [OF this] ne show ?thesis by blast
    qed
    ultimately show ?thesis using p small by auto
  qed
qed

lemma ws_parse_long:
  assumes "ws_flag (b0 AND 0x0f) = Some f" "unat a + unat b * 256 = n"
  shows "ws_parse (b0 # 126 # a # b # xs) =
    (if n > length xs then FrameNeed
     else FrameGot (WsMsg (if b0 AND 0x80 = 0x80 then f OR 0x80 else f) (take n xs)) (drop n xs))"
proof -
  have "drop (4 + n) (b0 # 126 # a # b # xs) = drop n xs" by (simp add: numeral_eq_Suc)
  with assms show ?thesis by (simp add: ws_parse_def ws_body_def)
qed

lemma ws_swap_eq: "n div 256 + n mod 256 * 256 = n \<longleftrightarrow> n div 256 = n mod 256" for n :: nat
proof -
  obtain a b where ab: "a = n div 256" "b = n mod 256" by blast
  then have "n = a * 256 + b" by simp
  then show ?thesis unfolding ab [symmetric] by linarith
qed

lemma ws_prefix_iff:
  "(if M > length p + length rest then FrameNeed else FrameGot (WsMsg F (take M (p @ rest))) (drop M (p @ rest))) =
     FrameGot (WsMsg F p) rest \<longleftrightarrow> M = length p"
proof -
  have "M = length p" if "take M (p @ rest) = p" "\<not> M > length p + length rest"
    using arg_cong [OF that(1), of length] that(2) by simp
  then show ?thesis by auto
qed

section \<open>Properties\<close>

text \<open>C23: On a queue that holds any bytes, \<open>webSocket_decode\<close> is safe and follows the layout of a frame in RFC 6455, but for the longer forms of the
  length: it reads a 16 bit length with its low byte first, as if the two bytes were exchanged, and refuses a 64 bit length.  With
  no whole frame it returns 0 and with a wrong opcode or a 64 bit length -1, leaving the queue; otherwise it
  returns 1, takes exactly the first frame off the queue and yields its flag and its unmasked payload.\<close>

theorem webSocket_decode_parses:
  assumes "bq_rep q xs"
  shows "\<exists>r q' f. webSocket_decode q pOutBuf = Some (r, q', f) \<and>
    (case (if ws_length_code xs = 127 then FrameBad
           else ws_rfc_parse (if ws_length_code xs = 126 then ws_exchanged xs else xs)) of
       FrameNeed \<Rightarrow> r = 0 \<and> q' = q \<and> f = None
     | FrameBad \<Rightarrow> r = -1 \<and> q' = q \<and> f = None
     | FrameGot m rest \<Rightarrow> r = 1 \<and> bq_rep q' rest \<and>
         (\<exists>fr. f = Some fr \<and> cb_pBuffer (wf_pOutBuf fr) = map Some (ws_payload m) \<and>
           cb_nLength (wf_pOutBuf fr) = length (ws_payload m) \<and> wf_uiFlag fr = ws_uiFlag m))"
  using ws_decode_rep [OF assms] unfolding ws_parse_rfc .

lemma webSocket_decode_parses_witness:
  "\<exists>q q' fr. byteQueue_write (byteQueue_init 4) [0x81, 0x82, 1, 2, 3, 4, 0x49, 0x6b, 7] = Some q \<and>
     webSocket_decode q (cbuf_init 0) = Some (1, q', Some fr) \<and> bq_rep q' [7] \<and>
     cb_pBuffer (wf_pOutBuf fr) = [Some 0x48, Some 0x69] \<and> wf_uiFlag fr = 0x90"
proof -
  have "bq_rep (byteQueue_init 4) []" using init_cells [of 4] by (simp add: bq_rep_def)
  from rep_write [OF this, of "[0x81, 0x82, 1, 2, 3, 4, 0x49, 0x6b, 7]"] obtain q where
    q: "byteQueue_write (byteQueue_init 4) [0x81, 0x82, 1, 2, 3, 4, 0x49, 0x6b, 7] = Some q"
    "bq_rep q [0x81, 0x82, 1, 2, 3, 4, 0x49, 0x6b, 7]" by auto
  have p: "ws_parse [0x81, 0x82, 1, 2, 3, 4, 0x49, 0x6b, 7] = FrameGot (WsMsg 0x90 [0x48, 0x69]) [7]"
    by (simp add: ws_parse_def ws_flag_def ws_body_def ws_mask_def)
  have c: "ws_length_code [0x81, 0x82, 1, 2, 3, 4, 0x49, 0x6b, 7] = 2" by (simp add: ws_length_code_def)
  from webSocket_decode_parses [OF q(2), of "cbuf_init 0"] q(1) p show ?thesis unfolding ws_parse_rfc by (auto simp: c)
qed

text \<open>Frames of up to 65535 bytes of payload, all masked with a key or all without a mask, come out of the
  decoder one by one however the stream that carries them is cut into chunks, with nothing left over.\<close>

theorem webSocket_stream_chunking:
  assumes "\<And>m. m \<in> set ms \<Longrightarrow> ws_ok m" "concat cs = concat (map (ws_enc (ws_key key)) ms)"
  shows "feed ws_parse [] cs = (ms, [])"
  by (rule ws.chunking_independent [of ms cs key]) (use assms in \<open>auto simp: list_all_iff\<close>)

lemma webSocket_stream_chunking_witness:
  "feed ws_parse [] [[0x81], [0x82, 1, 2, 3], [4, 0x49, 0x6b, 0x89], [0x80, 1, 2, 3, 4]] =
     ([WsMsg 0x90 [0x48, 0x69], WsMsg 0xd0 []], [])"
  by (rule webSocket_stream_chunking [where key = "Some [1, 2, 3, 4]"])
    (auto simp: ws_ok_def ws_enc_def ws_key_def ws_first_def ws_mask_def Let_def)

text \<open>\<open>webSocket_encode\<close> writes a message of less than 65535 bytes into one buffer, inside its allocation.
  The decoder of the same file gets the message back exactly when it has less than 126 bytes or a length
  whose two bytes are equal: the encoder writes the 16 bit length with its high byte first (as RFC 6455
  has it) and \<open>webSocket_decodeHead\<close> reads it with its low byte first.\<close>

theorem webSocket_roundtrip_iff:
  assumes "uiFlag \<in> {0x10, 0x20, 0x30, 0x40, 0x50}" "length p < 0xffff"
  shows "\<exists>w. webSocket_encode p uiFlag = Some [(map Some w, length w)] \<and>
    (ws_parse (w @ rest) = FrameGot (WsMsg (uiFlag OR 0x80) p) rest \<longleftrightarrow>
     length p < 126 \<or> length p div 256 = length p mod 256)"
proof -
  let ?n = "length p" and ?b0 = "ws_opcode uiFlag OR 0x80"
  obtain w where w: "w = ws_head ?b0 126 ?n @ p" by blast
  have e: "webSocket_encode p uiFlag = Some [(map Some w, length w)]"
    using ws_single [OF assms(2), of uiFlag] w by (simp add: Let_def)
  have b0: "ws_flag (?b0 AND 0x0f) = Some uiFlag" "?b0 AND 0x80 = 0x80"
    using assms(1) by (auto simp: ws_opcode_def ws_flag_def)
  have "ws_parse (w @ rest) = FrameGot (WsMsg (uiFlag OR 0x80) p) rest \<longleftrightarrow>
     length p < 126 \<or> length p div 256 = length p mod 256"
  proof (cases "?n < 126")
    case True
    from True len7 [of ?n 0] have "unat ((of_nat ?n :: u8) AND 0x7f) = ?n" "(of_nat ?n :: u8) AND 0x80 = 0" by simp_all
    with True show ?thesis by (simp add: w ws_head_def ws_parse_def ws_body_def b0)
  next
    case False
    have n16: "?n < 2 ^ 16" using assms(2) by simp
    let ?m = "?n div 256 + ?n mod 256 * 256"
    have len: "length (p @ rest) = ?n + length rest" by simp
    have "w @ rest = ?b0 # 126 # of_nat (?n div 256) # of_nat ?n # (p @ rest)"
      using False by (simp add: w ws_head_def)
    with ws_parse_long [OF b0(1) ws_swapped [OF n16], of "p @ rest"] b0(2)
    have "ws_parse (w @ rest) = (if ?m > ?n + length rest then FrameNeed
        else FrameGot (WsMsg (uiFlag OR 0x80) (take ?m (p @ rest))) (drop ?m (p @ rest)))"
      by (simp only: len if_True refl)
    then have "ws_parse (w @ rest) = FrameGot (WsMsg (uiFlag OR 0x80) p) rest \<longleftrightarrow> ?m = ?n"
      by (simp only: ws_prefix_iff)
    moreover have "?m = ?n \<longleftrightarrow> ?n div 256 = ?n mod 256" by (rule ws_swap_eq)
    ultimately show ?thesis using False by blast
  qed
  with e show ?thesis by blast
qed

lemma webSocket_roundtrip_iff_witness:
  "\<exists>w. webSocket_encode (replicate 256 7) 0x20 = Some [(map Some w, length w)] \<and>
     ws_parse (w @ []) \<noteq> FrameGot (WsMsg (0x20 OR 0x80) (replicate 256 7)) []"
  using webSocket_roundtrip_iff [of "0x20" "replicate 256 7" "[]"] by auto

text \<open>When the vector encoder fragments a message (65535 bytes or more) and stays inside the vector, every
  frame before the last has \<open>0xff\<close> as its length byte, where a 16 bit length needs 126: the decoder rejects
  it.  It reads past the vector exactly as \<open>tpack_encodeVec\<close> does.\<close>

theorem webSocket_encodeVec_fragment_rejected:
  assumes "0xffff \<le> length (concat bufs)"
  shows "case webSocket_encodeVec bufs uiFlag of
      None \<Rightarrow> 32769 * 0xffff \<le> length (concat bufs) \<or> length (concat bufs) mod 0xffff = 0 \<and> last bufs \<noteq> []
    | Some fs \<Rightarrow> length fs = length (concat bufs) div 0xffff + 1 \<and>
        (\<forall>j < length fs - 1. \<exists>w. fs ! j = (map Some w, length w) \<and> ws_parse (w @ rest) = FrameBad)"
proof -
  obtain p where p: "concat bufs = p" by blast
  let ?oc = "ws_opcode uiFlag"
  have "ws_parse (ws_piece p ?oc j @ rest) = FrameBad" if "j < length p div 0xffff" for j
  proof -
    have "ws_piece p ?oc j @ rest =
        (if j = 0 then ?oc else 0) # 0xff # 0xff # 0xff # take 0xffff (drop (j * 0xffff) p) @ rest"
      using that by (simp add: ws_piece_def tp_fragment_head_def ws_head_def)
    moreover have "ws_flag (?oc AND 0x0f) \<noteq> None" by (simp add: ws_opcode_def ws_flag_def Let_def)
    ultimately show ?thesis by (auto simp: ws_parse_def ws_flag_def)
  qed
  then show ?thesis unfolding ws_vec_code [OF assms] p tp_big_less by (auto simp: nth_append less_Suc_eq simp del: upt_Suc)
qed

lemma webSocket_encodeVec_fragment_rejected_witness:
  "\<exists>fs w. webSocket_encodeVec [replicate 65535 0, [1]] 0x20 = Some fs \<and> length fs = 2 \<and>
     fs ! 0 = (map Some w, length w) \<and> ws_parse (w @ []) = FrameBad"
proof -
  have l: "length (concat [replicate 65535 0, [1 :: u8]]) = 65536" by simp
  then have "0xffff \<le> length (concat [replicate 65535 0, [1 :: u8]])" by simp
  from webSocket_encodeVec_fragment_rejected [OF this, where uiFlag = "0x20" and rest = "[]", unfolded l]
  show ?thesis by (cases "webSocket_encodeVec [replicate 65535 0, [1]] 0x20") auto
qed

end
