(* ===== verification/Hash.thy ===== *)
theory Hash
  imports Prelude
begin

text \<open>
  The hash functions of \<open>core/include/hash_t.h\<close>: the Thomas Wang and Robert Jenkins mixers with their
  inverses, the 128 to 64 bit reduction, and the FNV hashes of strings and of buffers, on words of the
  code's widths.
\<close>

definition hash_128_to_64 :: "u64 \<Rightarrow> u64 \<Rightarrow> u64" where
  "hash_128_to_64 upper lower =
     (let kMul = 0x9ddfea08eb382d69;
          a = (lower XOR upper) * kMul;
          a = a XOR drop_bit 47 a;
          b = (upper XOR a) * kMul;
          b = b XOR drop_bit 47 b
      in b * kMul)"

definition twang_mix64 :: "u64 \<Rightarrow> u64" where
  "twang_mix64 key =
     (let key = NOT key + push_bit 21 key;
          key = key XOR drop_bit 24 key;
          key = key + push_bit 3 key + push_bit 8 key;
          key = key XOR drop_bit 14 key;
          key = key + push_bit 2 key + push_bit 4 key;
          key = key XOR drop_bit 28 key
      in key + push_bit 31 key)"

definition twang_unmix64 :: "u64 \<Rightarrow> u64" where
  "twang_unmix64 key =
     (let key = key * 4611686016279904257;
          key = key XOR (drop_bit 28 key XOR drop_bit 56 key);
          key = key * 14933078535860113213;
          key = key XOR (drop_bit 14 key XOR drop_bit 28 key XOR drop_bit 42 key XOR drop_bit 56 key);
          key = key * 15244667743933553977;
          key = key XOR (drop_bit 24 key XOR drop_bit 48 key)
      in (key + 1) * 9223367638806167551)"

definition twang_32from64 :: "u64 \<Rightarrow> u32" where
  "twang_32from64 key =
     (let key = NOT key + push_bit 18 key;
          key = key XOR drop_bit 31 key;
          key = key * 21;
          key = key XOR drop_bit 11 key;
          key = key + push_bit 6 key;
          key = key XOR drop_bit 22 key
      in ucast key)"

definition jenkins_rev_mix32 :: "u32 \<Rightarrow> u32" where
  "jenkins_rev_mix32 key =
     (let key = key + push_bit 12 key;
          key = key XOR drop_bit 22 key;
          key = key + push_bit 4 key;
          key = key XOR drop_bit 9 key;
          key = key + push_bit 10 key;
          key = key XOR drop_bit 2 key;
          key = key + push_bit 7 key
      in key + push_bit 12 key)"

definition jenkins_rev_unmix32 :: "u32 \<Rightarrow> u32" where
  "jenkins_rev_unmix32 key =
     (let key = key * 2364026753;
          key = key XOR (drop_bit 2 key XOR drop_bit 4 key XOR drop_bit 6 key XOR drop_bit 8 key XOR
                  drop_bit 10 key XOR drop_bit 12 key XOR drop_bit 14 key XOR drop_bit 16 key XOR
                  drop_bit 18 key XOR drop_bit 20 key XOR drop_bit 22 key XOR drop_bit 24 key XOR
                  drop_bit 26 key XOR drop_bit 28 key XOR drop_bit 30 key);
          key = key * 3222273025;
          key = key XOR (drop_bit 9 key XOR drop_bit 18 key XOR drop_bit 27 key);
          key = key * 4042322161;
          key = key XOR drop_bit 22 key
      in key * 16773121)"

section \<open>FNV\<close>

definition FNV_32_HASH_START :: u32 where "FNV_32_HASH_START = 2166136261"
definition FNV_64_HASH_START :: u64 where "FNV_64_HASH_START = 14695981039346656037"
definition FNVA_64_HASH_START :: u64 where "FNVA_64_HASH_START = 14695981039346656037"

text \<open>One round; a \<open>char\<close> is signed where the program runs, so it is sign extended to the width of the hash.\<close>

definition fnv32_step :: "u8 \<Rightarrow> u32 \<Rightarrow> u32" where
  "fnv32_step c hash =
     (let hash = hash + (push_bit 1 hash + push_bit 4 hash + push_bit 7 hash + push_bit 8 hash + push_bit 24 hash)
      in hash XOR scast c)"

definition fnv64_step :: "u8 \<Rightarrow> u64 \<Rightarrow> u64" where
  "fnv64_step c hash =
     (let hash = hash + (push_bit 1 hash + push_bit 4 hash + push_bit 5 hash + push_bit 7 hash +
                   push_bit 8 hash + push_bit 40 hash)
      in hash XOR scast c)"

text \<open>The loop over a string stops at its terminator; memory without one is read past its end (\<open>None\<close>).\<close>

fun fnv32 :: "bytes \<Rightarrow> u32 \<Rightarrow> u32 option" where
  "fnv32 [] hash = None"
| "fnv32 (c # s) hash = (if c = 0 then Some hash else fnv32 s (fnv32_step c hash))"

fun fnv64 :: "bytes \<Rightarrow> u64 \<Rightarrow> u64 option" where
  "fnv64 [] hash = None"
| "fnv64 (c # s) hash = (if c = 0 then Some hash else fnv64 s (fnv64_step c hash))"

definition fnv32_buf :: "bytes \<Rightarrow> nat \<Rightarrow> u32 \<Rightarrow> u32 option" where
  "fnv32_buf buf n hash = (if n \<le> length buf then Some (fold fnv32_step (take n buf) hash) else None)"

definition fnv64_buf :: "bytes \<Rightarrow> nat \<Rightarrow> u64 \<Rightarrow> u64 option" where
  "fnv64_buf buf n hash = (if n \<le> length buf then Some (fold fnv64_step (take n buf) hash) else None)"

section \<open>The mixers are bijective\<close>

lemma shift_sums:
  fixes k :: u64 and j :: u32
  shows "NOT k + push_bit 21 k = k * (2 ^ 21 - 1) - 1" "k + push_bit 3 k + push_bit 8 k = k * 265"
    "k + push_bit 2 k + push_bit 4 k = k * 21" "k + push_bit 31 k = k * 2147483649"
    "j + push_bit 12 j = j * 4097" "j + push_bit 4 j = j * 17" "j + push_bit 10 j = j * 1025" "j + push_bit 7 j = j * 129"
  by (simp_all add: push_bit_eq_mult algebra_simps not_eq_complement)

lemma mult_back:
  fixes k :: "'a :: len word"
  shows "a * b = 1 \<Longrightarrow> k * a * b = k"
  by (simp add: mult.assoc)

lemma inverses:
  "2147483649 * 4611686016279904257 = (1 :: u64)" "21 * 14933078535860113213 = (1 :: u64)"
  "265 * 15244667743933553977 = (1 :: u64)" "(2 ^ 21 - 1) * 9223367638806167551 = (1 :: u64)"
  "129 * 4097 * 2364026753 = (1 :: u32)" "1025 * 3222273025 = (1 :: u32)" "17 * 4042322161 = (1 :: u32)"
  "4097 * 16773121 = (1 :: u32)"
  by simp_all

lemma xorshift_back:
  fixes k :: u64
  shows "(k XOR drop_bit 28 k) XOR (drop_bit 28 (k XOR drop_bit 28 k) XOR drop_bit 56 (k XOR drop_bit 28 k)) = k"
    "(k XOR drop_bit 14 k) XOR (drop_bit 14 (k XOR drop_bit 14 k) XOR drop_bit 28 (k XOR drop_bit 14 k) XOR
       drop_bit 42 (k XOR drop_bit 14 k) XOR drop_bit 56 (k XOR drop_bit 14 k)) = k"
    "(k XOR drop_bit 24 k) XOR (drop_bit 24 (k XOR drop_bit 24 k) XOR drop_bit 48 (k XOR drop_bit 24 k)) = k"
  by (simp_all add: drop_bit_word_beyond xor.assoc xor.left_commute)

lemma xorshift_back_32:
  fixes k :: u32
  shows "(k XOR drop_bit 2 k) XOR (drop_bit 2 (k XOR drop_bit 2 k) XOR drop_bit 4 (k XOR drop_bit 2 k) XOR
       drop_bit 6 (k XOR drop_bit 2 k) XOR drop_bit 8 (k XOR drop_bit 2 k) XOR drop_bit 10 (k XOR drop_bit 2 k) XOR
       drop_bit 12 (k XOR drop_bit 2 k) XOR drop_bit 14 (k XOR drop_bit 2 k) XOR drop_bit 16 (k XOR drop_bit 2 k) XOR
       drop_bit 18 (k XOR drop_bit 2 k) XOR drop_bit 20 (k XOR drop_bit 2 k) XOR drop_bit 22 (k XOR drop_bit 2 k) XOR
       drop_bit 24 (k XOR drop_bit 2 k) XOR drop_bit 26 (k XOR drop_bit 2 k) XOR drop_bit 28 (k XOR drop_bit 2 k) XOR
       drop_bit 30 (k XOR drop_bit 2 k)) = k"
    "(k XOR drop_bit 9 k) XOR (drop_bit 9 (k XOR drop_bit 9 k) XOR drop_bit 18 (k XOR drop_bit 9 k) XOR
       drop_bit 27 (k XOR drop_bit 9 k)) = k"
    "(k XOR drop_bit 22 k) XOR drop_bit 22 (k XOR drop_bit 22 k) = k"
  by (simp_all add: drop_bit_word_beyond xor.assoc xor.left_commute)

lemma unmix_mix: "twang_unmix64 (twang_mix64 key) = key"
  unfolding twang_mix64_def twang_unmix64_def Let_def shift_sums
  by (simp only: mult_back [OF inverses(1)] mult_back [OF inverses(2)] mult_back [OF inverses(3)]
    mult_back [OF inverses(4)] xorshift_back diff_add_cancel)

lemma jenkins_unmix_mix: "jenkins_rev_unmix32 (jenkins_rev_mix32 key) = key"
  unfolding jenkins_rev_mix32_def jenkins_rev_unmix32_def Let_def shift_sums
  by (simp only: mult.assoc [of _ 129 4097] mult_back [OF inverses(5)] mult_back [OF inverses(6)]
    mult_back [OF inverses(7)] mult_back [OF inverses(8)] xorshift_back_32)

section \<open>Properties\<close>

text \<open>The unmixing functions invert the mixers on every key, both ways: the mixers are bijections.\<close>

theorem unmix_inverts:
  "twang_unmix64 (twang_mix64 key) = key \<and> twang_mix64 (twang_unmix64 key) = key \<and>
   jenkins_rev_unmix32 (jenkins_rev_mix32 key32) = key32 \<and> jenkins_rev_mix32 (jenkins_rev_unmix32 key32) = key32"
proof -
  have fin: "f (g x) = x" if "\<And>x. g (f x) = x" for f g :: "'b :: finite \<Rightarrow> 'b" and x
  proof -
    have "inj f" using that by (metis injI)
    then have "surj f" by (simp add: finite_UNIV_inj_surj)
    with that show ?thesis by (metis surjD)
  qed
  show ?thesis using unmix_mix jenkins_unmix_mix
    fin [of twang_unmix64 twang_mix64] fin [of jenkins_rev_unmix32 jenkins_rev_mix32] by blast
qed

text \<open>The FNV-1 hash: multiply by the prime, then exclusive-or with the byte.\<close>

definition fnv1 :: "'a::len word \<Rightarrow> 'a word \<Rightarrow> bytes \<Rightarrow> 'a word" where
  "fnv1 prime hash xs = fold (\<lambda>c h. h * prime XOR ucast c) xs hash"

lemma fnv_steps:
  "fnv32_step c h = h * 16777619 XOR scast c" "fnv64_step c g = g * 1099511628211 XOR scast c"
  by (simp_all add: fnv32_step_def fnv64_step_def push_bit_eq_mult algebra_simps)

lemma scast_ascii: "c < 0x80 \<Longrightarrow> scast c = (ucast c :: 'a::len word)" for c :: u8
proof -
  assume "c < 0x80"
  then have u: "uint c < 2 ^ 7" by (simp add: word_less_alt)
  have "take_bit 7 c = c" using take_bit_small [OF u] .
  then have "\<not> bit c n" if "7 \<le> n" for n using that by (metis bit_take_bit_iff linorder_not_less)
  then show ?thesis by (intro bit_word_eqI) (auto simp: bit_simps min_def dest: bit_imp_le_length)
qed

lemma fnv_string:
  "0 \<notin> set s \<Longrightarrow> fnv32 (s @ 0 # rest) h = Some (fold fnv32_step s h)"
  "0 \<notin> set s \<Longrightarrow> fnv64 (s @ 0 # rest) g = Some (fold fnv64_step s g)"
  by (induction s arbitrary: h g) auto

lemma fnv_buffer:
  "fnv32_buf (s @ rest) (length s) h = Some (fold fnv32_step s h)"
  "fnv64_buf (s @ rest) (length s) g = Some (fold fnv64_step s g)"
  by (simp_all add: fnv32_buf_def fnv64_buf_def)

lemma fnv_ascii:
  "\<forall>c \<in> set s. c < 0x80 \<Longrightarrow> fold fnv32_step s h = fnv1 16777619 h s"
  "\<forall>c \<in> set s. c < 0x80 \<Longrightarrow> fold fnv64_step s g = fnv1 1099511628211 g s"
  by (induction s arbitrary: h g) (auto simp: fnv1_def fnv_steps scast_ascii)

lemma xor_left_cancel: "a XOR b = a XOR c \<Longrightarrow> b = c" for a b c :: "'a::len word"
  by (drule arg_cong [of _ _ "\<lambda>x. a XOR x"]) (simp add: xor.assoc [symmetric])

text \<open>The FNV hashes of a C string and of a buffer with the same bytes agree, and on 7 bit text they are the
  FNV-1 hash with the published primes.  A byte of 128 or more is sign extended and gives another hash.\<close>

theorem fnv_is_fnv1:
  assumes "\<forall>c \<in> set s. 0 < c \<and> c < 0x80"
  shows "fnv32 (s @ 0 # rest) h = Some (fnv1 16777619 h s) \<and>
    fnv32_buf (s @ rest) (length s) h = Some (fnv1 16777619 h s) \<and>
    fnv64 (s @ 0 # rest) g = Some (fnv1 1099511628211 g s) \<and>
    fnv64_buf (s @ rest) (length s) g = Some (fnv1 1099511628211 g s) \<and>
    fnv32_buf [0x80] 1 h \<noteq> Some (fnv1 16777619 h [0x80])"
proof -
  have "0 \<notin> set s" "\<forall>c \<in> set s. c < 0x80" using assms by auto
  moreover have ne: "h * 16777619 XOR scast (0x80 :: u8) \<noteq> h * 16777619 XOR ucast (0x80 :: u8)"
  proof
    assume "h * 16777619 XOR scast (0x80 :: u8) = h * 16777619 XOR ucast (0x80 :: u8)"
    then have "scast (0x80 :: u8) = (ucast (0x80 :: u8) :: u32)" by (rule xor_left_cancel)
    then show False by simp
  qed
  from ne have "fnv32_buf [0x80] 1 h \<noteq> Some (fnv1 16777619 h [0x80])"
    by (simp add: fnv32_buf_def fnv1_def fnv_steps)
  ultimately show ?thesis
    by (simp only: fnv_string fnv_buffer fnv_ascii refl simp_thms not_False_eq_True)
qed

lemma fnv_is_fnv1_witness:
  "fnv32 [0x66, 0x6f, 0] FNV_32_HASH_START = Some 0x6b772514"
proof -
  have "fnv32 ([0x66, 0x6f] @ 0 # []) FNV_32_HASH_START = Some (fnv1 16777619 FNV_32_HASH_START [0x66, 0x6f])"
    using fnv_is_fnv1 [of "[0x66, 0x6f]" "[]" FNV_32_HASH_START] by simp
  moreover have "fnv1 16777619 FNV_32_HASH_START [0x66, 0x6f] = 0x6b772514"
    by (simp add: fnv1_def FNV_32_HASH_START_def)
  ultimately show ?thesis by simp
qed

end
