(* ===== verification/Locks.thy ===== *)
theory Locks
  imports Prelude Interfaces
begin

text \<open>
  The locks of \<open>core/include/rwSpinLock_t.h\<close> and \<open>spinLock_t.h\<close>.  Each atomic operation of the code is
  one step on the word of the lock; a function with two of them (the failed attempt to read, the
  conversions of a writer) has a program point between them.  A loop repeats its attempt until it succeeds
  (\<open>threadYield\<close> has no effect on the lock); a thread calls only what its hold on the lock allows.
\<close>

section \<open>The atomic operations\<close>

definition RW_WRITER :: u32 where "RW_WRITER = 1"
definition RW_UPGRADED :: u32 where "RW_UPGRADED = 2"
definition RW_READER :: u32 where "RW_READER = 4"

definition rwSpinLock_init :: u32 where "rwSpinLock_init = 0"

text \<open>The first atomic of \<open>tryrdlock\<close> and its success, and the second, when it fails.\<close>

definition tryrdlock :: "u32 \<Rightarrow> u32 \<times> bool" where
  "tryrdlock iBits = (iBits + RW_READER, iBits AND (RW_WRITER OR RW_UPGRADED) = 0)"

definition tryrdlock_undo :: "u32 \<Rightarrow> u32" where
  "tryrdlock_undo iBits = iBits + (- RW_READER)"

definition tryuplock :: "u32 \<Rightarrow> u32 \<times> bool" where
  "tryuplock iBits = (iBits OR RW_UPGRADED, iBits AND (RW_UPGRADED OR RW_WRITER) = 0)"

definition trywrlock :: "u32 \<Rightarrow> u32 \<times> bool" where
  "trywrlock iBits = (if iBits = 0 then (RW_WRITER, True) else (iBits, False))"

definition tryupunlock_wrlock :: "u32 \<Rightarrow> u32 \<times> bool" where
  "tryupunlock_wrlock iBits = (if iBits = RW_UPGRADED then (RW_WRITER, True) else (iBits, False))"

definition rwSpinLock_rdunlock :: "u32 \<Rightarrow> u32" where
  "rwSpinLock_rdunlock iBits = iBits + (- RW_READER)"

definition rwSpinLock_wrunlock :: "u32 \<Rightarrow> u32" where
  "rwSpinLock_wrunlock iBits = iBits AND NOT (RW_WRITER OR RW_UPGRADED)"

text \<open>\<open>wrunlock_rdlock\<close> and \<open>wrunlock_uplock\<close> have two atomics each.\<close>

definition wrunlock_rdlock_add :: "u32 \<Rightarrow> u32" where
  "wrunlock_rdlock_add iBits = iBits + RW_READER"

definition wrunlock_rdlock_and :: "u32 \<Rightarrow> u32" where
  "wrunlock_rdlock_and iBits = iBits AND NOT (RW_WRITER OR RW_UPGRADED)"

definition wrunlock_uplock_or :: "u32 \<Rightarrow> u32" where
  "wrunlock_uplock_or iBits = iBits OR RW_UPGRADED"

definition wrunlock_uplock_add :: "u32 \<Rightarrow> u32" where
  "wrunlock_uplock_add iBits = iBits + (- RW_WRITER)"

definition rwSpinLock_upunLock :: "u32 \<Rightarrow> u32" where
  "rwSpinLock_upunLock iBits = iBits + (- RW_UPGRADED)"

definition rwSpinLock_upunlock_rdlock :: "u32 \<Rightarrow> u32" where
  "rwSpinLock_upunlock_rdlock iBits = iBits + (RW_READER - RW_UPGRADED)"

section \<open>Threads\<close>

datatype rw_want = WantRead | WantWrite | WantUp | WantUpToWrite

text \<open>Where a thread is: inside a call that attempts something (\<open>True\<close>: one that loops until it has it),
  between the atomics of a call, or outside calls, with what it holds.\<close>

datatype rw_pc =
    RwIdle
  | RwTry rw_want bool
  | RwBackout bool
  | RwReader
  | RwWriter
  | RwUpgraded
  | RwToReader
  | RwToUpgraded

text \<open>Where a thread is after a failed attempt.\<close>

fun rw_failed :: "rw_want \<Rightarrow> bool \<Rightarrow> rw_pc" where
  "rw_failed w True = RwTry w True"
| "rw_failed WantUpToWrite False = RwUpgraded"
| "rw_failed w False = RwIdle"

text \<open>The step of one thread: the word before, where it is, the word after, where it goes.\<close>

inductive rw_move :: "u32 \<Rightarrow> rw_pc \<Rightarrow> u32 \<Rightarrow> rw_pc \<Rightarrow> bool" where
  call: "w \<noteq> WantUpToWrite \<Longrightarrow> rw_move v RwIdle v (RwTry w loop)"
| call_upgraded: "rw_move v RwUpgraded v (RwTry WantUpToWrite loop)"
| rdlock: "tryrdlock v = (v', ok) \<Longrightarrow>
    rw_move v (RwTry WantRead loop) v' (if ok then RwReader else RwBackout loop)"
| rdlock_undo: "rw_move v (RwBackout loop) (tryrdlock_undo v) (rw_failed WantRead loop)"
| wrlock: "trywrlock v = (v', ok) \<Longrightarrow>
    rw_move v (RwTry WantWrite loop) v' (if ok then RwWriter else rw_failed WantWrite loop)"
| uplock: "tryuplock v = (v', ok) \<Longrightarrow>
    rw_move v (RwTry WantUp loop) v' (if ok then RwUpgraded else rw_failed WantUp loop)"
| upunlock_wrlock: "tryupunlock_wrlock v = (v', ok) \<Longrightarrow>
    rw_move v (RwTry WantUpToWrite loop) v' (if ok then RwWriter else rw_failed WantUpToWrite loop)"
| rdunlock: "rw_move v RwReader (rwSpinLock_rdunlock v) RwIdle"
| wrunlock: "rw_move v RwWriter (rwSpinLock_wrunlock v) RwIdle"
| wrunlock_rdlock_1: "rw_move v RwWriter (wrunlock_rdlock_add v) RwToReader"
| wrunlock_rdlock_2: "rw_move v RwToReader (wrunlock_rdlock_and v) RwReader"
| upunlock: "rw_move v RwUpgraded (rwSpinLock_upunLock v) RwIdle"
| upunlock_rdlock: "rw_move v RwUpgraded (rwSpinLock_upunlock_rdlock v) RwReader"
| wrunlock_uplock_1: "rw_move v RwWriter (wrunlock_uplock_or v) RwToUpgraded"
| wrunlock_uplock_2: "rw_move v RwToUpgraded (wrunlock_uplock_add v) RwUpgraded"

record rwSpinLock =
  iBits :: u32
  pcs :: "rw_pc list"

definition rw_start :: "nat \<Rightarrow> rwSpinLock \<Rightarrow> bool" where
  "rw_start n s \<longleftrightarrow> iBits s = rwSpinLock_init \<and> pcs s = replicate n RwIdle"

inductive rw_step :: "rwSpinLock \<Rightarrow> rwSpinLock \<Rightarrow> bool" where
  "t < length (pcs s) \<Longrightarrow> rw_move (iBits s) (pcs s ! t) v' c' \<Longrightarrow>
   rw_step s (s\<lparr>iBits := v', pcs := (pcs s)[t := c']\<rparr>)"

section \<open>The word counts the holders\<close>

text \<open>What each program point has added to the word: to the count of readers, to the writer bit, to the
  upgrade bit; and whether it holds the lock for reading.\<close>

fun rw_counted :: "rw_pc \<Rightarrow> nat" where
  "rw_counted RwReader = 1" | "rw_counted (RwBackout _) = 1" | "rw_counted RwToReader = 1" | "rw_counted _ = 0"

fun rw_writer :: "rw_pc \<Rightarrow> nat" where
  "rw_writer RwWriter = 1" | "rw_writer RwToReader = 1" | "rw_writer RwToUpgraded = 1" | "rw_writer _ = 0"

fun rw_upgraded :: "rw_pc \<Rightarrow> nat" where
  "rw_upgraded RwUpgraded = 1" | "rw_upgraded (RwTry w _) = (if w = WantUpToWrite then 1 else 0)" | "rw_upgraded _ = 0"

fun rw_reader :: "rw_pc \<Rightarrow> nat" where
  "rw_reader RwReader = 1" | "rw_reader _ = 0"

fun rw_owner_bit :: "rw_pc \<Rightarrow> nat" where
  "rw_owner_bit RwToUpgraded = 1" | "rw_owner_bit c = rw_upgraded c"

definition rw_sum :: "(rw_pc \<Rightarrow> nat) \<Rightarrow> rw_pc list \<Rightarrow> nat" where
  "rw_sum f p = sum_list (map f p)"

definition rw_word :: "nat \<Rightarrow> nat \<Rightarrow> nat \<Rightarrow> u32" where
  "rw_word a u w = of_nat (4 * a + 2 * u + w)"

text \<open>The word: four for each of \<open>a\<close> counted threads, the bit \<open>u\<close>, and the number \<open>w\<close> of writers, with \<open>g\<close> threads
  upgraded, \<open>r\<close> readers and \<open>b\<close> threads whose own bit \<open>u\<close> is.  The bit may also be left by a failed
  \<open>tryuplock\<close>, but only while a writer is there to clear it.\<close>

definition rw_ok :: "u32 \<Rightarrow> nat \<Rightarrow> nat \<Rightarrow> nat \<Rightarrow> nat \<Rightarrow> nat \<Rightarrow> bool" where
  "rw_ok v a w g r b \<longleftrightarrow> w + g \<le> 1 \<and> (w = 1 \<longrightarrow> r = 0) \<and> (\<exists>u \<le> 1. v = rw_word a u w \<and> b \<le> u \<and> u \<le> w + g)"

definition rw_inv :: "nat \<Rightarrow> rwSpinLock \<Rightarrow> bool" where
  "rw_inv n s \<longleftrightarrow> length (pcs s) = n \<and>
     rw_ok (iBits s) (rw_sum rw_counted (pcs s)) (rw_sum rw_writer (pcs s)) (rw_sum rw_upgraded (pcs s))
       (rw_sum rw_reader (pcs s)) (rw_sum rw_owner_bit (pcs s))"

lemma rw_sum_split: "t < length p \<Longrightarrow> \<exists>others. \<forall>f. \<forall>c. rw_sum f (p[t := c]) = f c + sum_list (map f others)"
proof (intro exI [of _ "take t p @ drop (Suc t) p"] allI)
  fix f c assume "t < length p"
  then show "rw_sum f (p[t := c]) = f c + sum_list (map f (take t p @ drop (Suc t) p))"
    by (simp add: rw_sum_def upd_conv_take_nth_drop)
qed

lemma rw_weights_le:
  "rw_reader c \<le> rw_counted c" "rw_upgraded c \<le> rw_owner_bit c" "rw_owner_bit c \<le> rw_writer c + rw_upgraded c"
  "rw_counted c \<le> 1"
  by (cases c; simp)+

lemma rw_sums_le:
  "sum_list (map rw_reader p) \<le> sum_list (map rw_counted p)"
  "sum_list (map rw_upgraded p) \<le> sum_list (map rw_owner_bit p)"
  "sum_list (map rw_owner_bit p) \<le> sum_list (map rw_writer p) + sum_list (map rw_upgraded p)"
  "sum_list (map rw_counted p) \<le> length p"
proof (induction p)
  case (Cons c p)
  note w = rw_weights_le [of c]
  { case 1 show ?case using Cons.IH(1) w(1) by simp }
  { case 2 show ?case using Cons.IH(2) w(2) by simp }
  { case 3 show ?case using Cons.IH(3) w(3) by simp }
  { case 4 show ?case using Cons.IH(4) w(4) by simp }
qed simp_all

text \<open>The bit operations on the word.\<close>

lemma rw_word_bits:
  assumes "u \<le> 1" "w \<le> 1"
  shows "rw_word a u w AND 3 = 0 \<longleftrightarrow> u = 0 \<and> w = 0" "rw_word a u w AND NOT 3 = rw_word a 0 0"
    "rw_word a u w OR 2 = rw_word a 1 w"
proof -
  obtain x where x: "x = (of_nat a :: u32)" by blast
  have m: "(3 :: u32) = mask 2" by (simp add: mask_eq_exp_minus_1)
  have z3: "push_bit 2 x AND 3 = 0" unfolding m by (simp add: take_bit_eq_mask [symmetric] take_bit_push_bit)
  then have z: "push_bit 2 x AND 2 = 0" "push_bit 2 x AND 1 = 0"
    using and.assoc [of "push_bit 2 x" 3 2] and.assoc [of "push_bit 2 x" 3 1] by simp_all
  have "push_bit 2 x AND (3 OR NOT 3) = push_bit 2 x" by (simp only: bit.disj_cancel_right and.right_neutral)
  then have zn: "push_bit 2 x AND NOT 3 = push_bit 2 x" by (simp only: bit.conj_disj_distrib z3 or.left_neutral)
  have d: "push_bit 2 x + 3 = push_bit 2 x OR 3" "push_bit 2 x + 2 = push_bit 2 x OR 2" "push_bit 2 x + 1 = push_bit 2 x OR 1"
    using z z3 by (simp_all only: disjunctive_add_eq_or)
  have "u = 0 \<or> u = 1" "w = 0 \<or> w = 1" using assms by auto
  moreover have "rw_word a 0 0 = push_bit 2 x" "rw_word a 0 1 = push_bit 2 x + 1" "rw_word a 1 0 = push_bit 2 x + 2"
    "rw_word a 1 1 = push_bit 2 x + 3"
    by (simp_all add: rw_word_def x push_bit_eq_mult)
  ultimately show "rw_word a u w AND 3 = 0 \<longleftrightarrow> u = 0 \<and> w = 0" "rw_word a u w AND NOT 3 = rw_word a 0 0"
    "rw_word a u w OR 2 = rw_word a 1 w"
    using z z3 zn d by (auto simp: bit.conj_disj_distrib2 or.assoc)
qed

lemma rw_word_eq:
  assumes "4 * a + 2 * u + w < 2 ^ 32"
  shows "rw_word a u w = 0 \<longleftrightarrow> a = 0 \<and> u = 0 \<and> w = 0" "w \<le> 1 \<Longrightarrow> u \<le> 1 \<Longrightarrow> rw_word a u w = 2 \<longleftrightarrow> a = 0 \<and> u = 1 \<and> w = 0"
proof -
  have un: "unat (rw_word a u w) = 4 * a + 2 * u + w" using assms by (simp add: rw_word_def unat_of_nat del: of_nat_add of_nat_mult)
  have "rw_word a u w = 0 \<longleftrightarrow> unat (rw_word a u w) = 0" by (simp add: unat_eq_0)
  then show "rw_word a u w = 0 \<longleftrightarrow> a = 0 \<and> u = 0 \<and> w = 0" using un by simp
  have "rw_word a u w = 2 \<longleftrightarrow> unat (rw_word a u w) = 2" by (simp add: word_unat_eq_iff)
  then show "w \<le> 1 \<Longrightarrow> u \<le> 1 \<Longrightarrow> rw_word a u w = 2 \<longleftrightarrow> a = 0 \<and> u = 1 \<and> w = 0" unfolding un by presburger
qed

lemma rw_word_arith:
  "rw_word a u w + 4 = rw_word (Suc a) u w" "rw_word (Suc a) u w - 4 = rw_word a u w"
  "rw_word a u (Suc w) - 1 = rw_word a u w" "rw_word a (Suc u) w - 2 = rw_word a u w"
  "rw_word a (Suc u) w + 2 = rw_word (Suc a) u w" "rw_word 0 0 0 = 0" "rw_word 0 0 (Suc 0) = 1" "rw_word 0 1 0 = 2"
  by (simp_all add: rw_word_def)

lemmas rw_ops = tryrdlock_def tryrdlock_undo_def tryuplock_def trywrlock_def tryupunlock_wrlock_def
  rwSpinLock_rdunlock_def rwSpinLock_wrunlock_def wrunlock_rdlock_add_def wrunlock_rdlock_and_def
  wrunlock_uplock_or_def wrunlock_uplock_add_def rwSpinLock_upunLock_def rwSpinLock_upunlock_rdlock_def
  RW_WRITER_def RW_UPGRADED_def RW_READER_def

lemma rw_failed_weights [simp]:
  "rw_counted (rw_failed x l) = 0" "rw_writer (rw_failed x l) = 0" "rw_reader (rw_failed x l) = 0"
  "rw_upgraded (rw_failed x l) = (if x = WantUpToWrite then 1 else 0)"
  "rw_owner_bit (rw_failed x l) = (if x = WantUpToWrite then 1 else 0)"
  by (cases "(x, l)" rule: rw_failed.cases; simp)+

lemma rw_move_ok:
  assumes "rw_move v c v' c'"
    and "rw_ok v (rw_counted c + a) (rw_writer c + w) (rw_upgraded c + g) (rw_reader c + r) (rw_owner_bit c + b)"
    and "r \<le> a" "g \<le> b" "b \<le> w + g" "4 * (rw_counted c + a) + 3 < 2 ^ 32"
  shows "rw_ok v' (rw_counted c' + a) (rw_writer c' + w) (rw_upgraded c' + g) (rw_reader c' + r) (rw_owner_bit c' + b)"
proof -
  from assms(2) obtain u where u: "u \<le> 1" "v = rw_word (rw_counted c + a) u (rw_writer c + w)"
    "rw_owner_bit c + b \<le> u" "u \<le> rw_writer c + w + (rw_upgraded c + g)" "rw_writer c + w + (rw_upgraded c + g) \<le> 1"
    "rw_writer c + w = 1 \<longrightarrow> rw_reader c + r = 0"
    by (auto simp: rw_ok_def)
  have bd: "4 * (rw_counted c + a) + 2 * u + (rw_writer c + w) < 2 ^ 32" using u(1,5) assms(6) by simp
  have w1: "rw_writer c + w \<le> 1" using u(5) by simp
  note bits = rw_word_bits [OF u(1) w1, of "rw_counted c + a"] rw_word_eq [OF bd] rw_word_arith
  from assms(1) show ?thesis
  proof cases
  case call
  with u bits assms(3,4,5) show ?thesis unfolding rw_ok_def
    by (intro conjI exI [of _ u]) (auto simp: rw_ops split: if_splits)
next
  case call_upgraded
  with u bits assms(3,4,5) show ?thesis unfolding rw_ok_def
    by (intro conjI exI [of _ u]) (auto simp: rw_ops split: if_splits)
next
  case rdlock
  with u bits assms(3,4,5) show ?thesis unfolding rw_ok_def
    by (intro conjI exI [of _ u]) (auto simp: rw_ops split: if_splits)
next
  case rdlock_undo
  with u bits assms(3,4,5) show ?thesis unfolding rw_ok_def
    by (intro conjI exI [of _ u]) (auto simp: rw_ops split: if_splits)
next
  case wrlock
  with u bits assms(3,4,5) show ?thesis unfolding rw_ok_def
    by (intro conjI exI [of _ u]) (auto simp: rw_ops split: if_splits)
next
  case uplock
  with u bits assms(3,4,5) show ?thesis unfolding rw_ok_def
    by (intro conjI exI [of _ 1]) (auto simp: rw_ops split: if_splits)
next
  case (upunlock_wrlock ok loop)
  with u bits assms(3,4,5) show ?thesis unfolding rw_ok_def
    by (intro conjI exI [of _ "if ok then 0 else u"]) (auto simp: rw_ops split: if_splits)
next
  case rdunlock
  with u bits assms(3,4,5) show ?thesis unfolding rw_ok_def
    by (intro conjI exI [of _ u]) (auto simp: rw_ops split: if_splits)
next
  case wrunlock
  with u bits assms(3,4,5) show ?thesis unfolding rw_ok_def
    by (intro conjI exI [of _ 0]) (auto simp: rw_ops split: if_splits)
next
  case wrunlock_rdlock_1
  with u bits assms(3,4,5) show ?thesis unfolding rw_ok_def
    by (intro conjI exI [of _ u]) (auto simp: rw_ops split: if_splits)
next
  case wrunlock_rdlock_2
  with u bits assms(3,4,5) show ?thesis unfolding rw_ok_def
    by (intro conjI exI [of _ 0]) (auto simp: rw_ops split: if_splits)
next
  case upunlock
  then have "u = 1" using u by auto
  with upunlock u bits assms(3,4,5) show ?thesis unfolding rw_ok_def
    by (intro conjI exI [of _ 0]) (auto simp: rw_ops split: if_splits)
next
  case upunlock_rdlock
  then have "u = 1" using u by auto
  with upunlock_rdlock u bits assms(3,4,5) show ?thesis unfolding rw_ok_def
    by (intro conjI exI [of _ 0]) (auto simp: rw_ops split: if_splits)
next
  case wrunlock_uplock_1
  with u bits assms(3,4,5) show ?thesis unfolding rw_ok_def
    by (intro conjI exI [of _ 1]) (auto simp: rw_ops split: if_splits)
next
  case wrunlock_uplock_2
  then have "u = 1" using u by auto
  with wrunlock_uplock_2 u bits assms(3,4,5) show ?thesis unfolding rw_ok_def
    by (intro conjI exI [of _ 1]) (auto simp: rw_ops split: if_splits)
  qed
qed

lemma rw_step_inv:
  assumes "n < 2 ^ 29" "rw_inv n s" "rw_step s s'"
  shows "rw_inv n s'"
proof -
  from assms(3) obtain t v' c' where s': "s' = s\<lparr>iBits := v', pcs := (pcs s)[t := c']\<rparr>"
    and t: "t < length (pcs s)" and m: "rw_move (iBits s) (pcs s ! t) v' c'" by (auto elim: rw_step.cases)
  from rw_sum_split [OF t] obtain others where
    o: "\<And>f c. rw_sum f ((pcs s)[t := c]) = f c + sum_list (map f others)" by blast
  from o [of _ "pcs s ! t"] have os: "\<And>f. rw_sum f (pcs s) = f (pcs s ! t) + sum_list (map f others)" by simp
  have len: "length others < n"
    using o [of "\<lambda>_. 1" "pcs s ! t"] assms(2) by (simp add: rw_sum_def rw_inv_def sum_list_triv)
  note le = rw_sums_le [of others]
  from rw_weights_le(4) [of "pcs s ! t"] le(4) len assms(1) have "4 * (rw_counted (pcs s ! t) + sum_list (map rw_counted others)) + 3 < 2 ^ 32" by simp
  from rw_move_ok [OF m _ le(1-3) this] assms(2) show ?thesis
    by (simp add: rw_inv_def s' o os)
qed

text \<open>Whoever writes is alone, and at most one thread may upgrade.\<close>

definition rw_exclusive :: "rwSpinLock \<Rightarrow> bool" where
  "rw_exclusive s \<longleftrightarrow> (\<forall>t < length (pcs s). \<forall>t' < length (pcs s). t \<noteq> t' \<longrightarrow>
     (rw_writer (pcs s ! t) = 1 \<longrightarrow>
        rw_writer (pcs s ! t') = 0 \<and> rw_reader (pcs s ! t') = 0 \<and> rw_upgraded (pcs s ! t') = 0) \<and>
     (rw_upgraded (pcs s ! t) = 1 \<longrightarrow> rw_upgraded (pcs s ! t') = 0))"

lemma rw_sum_two:
  assumes "t < length p" "t' < length p" "t \<noteq> t'"
  shows "f (p ! t) + f (p ! t') \<le> rw_sum f p"
proof -
  have "(\<Sum>i \<in> {t, t'}. f (p ! i)) \<le> (\<Sum>i < length p. f (p ! i))" by (rule sum_mono2) (use assms in auto)
  with assms(3) show ?thesis by (simp add: rw_sum_def sum_list_sum_nth atLeast0LessThan)
qed

lemma rw_inv_exclusive: "rw_inv n s \<Longrightarrow> rw_exclusive s"
  unfolding rw_exclusive_def
proof (intro allI impI)
  fix t t' assume inv: "rw_inv n s" and t: "t < length (pcs s)" "t' < length (pcs s)" "t \<noteq> t'"
  note two = rw_sum_two [OF t]
  from two [of rw_writer] two [of rw_upgraded] two [of rw_reader] rw_sum_two [OF t, of "\<lambda>c. rw_writer c + rw_upgraded c"] inv
  show "(rw_writer (pcs s ! t) = 1 \<longrightarrow>
        rw_writer (pcs s ! t') = 0 \<and> rw_reader (pcs s ! t') = 0 \<and> rw_upgraded (pcs s ! t') = 0) \<and>
     (rw_upgraded (pcs s ! t) = 1 \<longrightarrow> rw_upgraded (pcs s ! t') = 0)"
    by (auto simp: rw_inv_def rw_ok_def)
qed

lemma rw_start_inv: "rw_start n s \<Longrightarrow> rw_inv n s"
  by (simp add: rw_start_def rw_inv_def rw_ok_def rw_sum_def rwSpinLock_init_def rw_word_def sum_list_replicate)

text \<open>For each number of threads below \<open>2 ^ 29\<close>, so that the counts fit the word.\<close>

interpretation rw: step_invariant "rw_start (min n (2 ^ 29 - 1))" rw_step "rw_inv (min n (2 ^ 29 - 1))"
  "\<lambda>s. rw_exclusive s \<and> rw_inv (min n (2 ^ 29 - 1)) s" for n
proof
  show "rw_inv (min n (2 ^ 29 - 1)) s'" if "rw_inv (min n (2 ^ 29 - 1)) s" "rw_step s s'" for s s'
    by (rule rw_step_inv [OF _ that]) simp
qed (use rw_start_inv rw_inv_exclusive in auto)

section \<open>The simple spin lock\<close>

text \<open>\<open>atomic_flag_test_and_set\<close> returns the old flag; the call loops, or fails, until the old flag is clear.\<close>

datatype spin_pc = SpinIdle | SpinTry bool | SpinHold

record spinLock =
  sl_flag :: bool
  sl_pcs :: "spin_pc list"

definition spinLock_init :: bool where "spinLock_init = False"

definition spin_test_and_set :: "bool \<Rightarrow> bool \<times> bool" where
  "spin_test_and_set flag = (flag, True)"

definition spinLock_unlock :: "bool \<Rightarrow> bool" where
  "spinLock_unlock flag = False"

inductive spin_move :: "bool \<Rightarrow> spin_pc \<Rightarrow> bool \<Rightarrow> spin_pc \<Rightarrow> bool" where
  spin_call: "spin_move flag SpinIdle flag (SpinTry loop)"
| spin_attempt: "spin_test_and_set flag = (old, flag') \<Longrightarrow>
    spin_move flag (SpinTry loop) flag' (if old then (if loop then SpinTry loop else SpinIdle) else SpinHold)"
| spin_unlock: "spin_move flag SpinHold (spinLock_unlock flag) SpinIdle"

inductive spin_step :: "spinLock \<Rightarrow> spinLock \<Rightarrow> bool" where
  "t < length (sl_pcs s) \<Longrightarrow> spin_move (sl_flag s) (sl_pcs s ! t) flag' c' \<Longrightarrow>
   spin_step s (s\<lparr>sl_flag := flag', sl_pcs := (sl_pcs s)[t := c']\<rparr>)"

definition spin_start :: "spinLock \<Rightarrow> bool" where
  "spin_start s \<longleftrightarrow> sl_flag s = spinLock_init \<and> set (sl_pcs s) \<subseteq> {SpinIdle}"

text \<open>The flag is set exactly when a thread holds the lock, and then one does.\<close>

definition spin_inv :: "spinLock \<Rightarrow> bool" where
  "spin_inv s \<longleftrightarrow> length (filter (\<lambda>c. c = SpinHold) (sl_pcs s)) = (if sl_flag s then 1 else 0)"

lemma spin_count:
  assumes "t < length p"
  shows "length (filter P (p[t := c])) + (if P (p ! t) then 1 else 0) = length (filter P p) + (if P c then 1 else 0)"
proof -
  have p: "p = take t p @ p ! t # drop (Suc t) p" using assms by (simp add: id_take_nth_drop)
  show ?thesis by (subst (3) p) (simp add: upd_conv_take_nth_drop [OF assms])
qed

lemma spin_step_inv: "spin_inv s \<Longrightarrow> spin_step s s' \<Longrightarrow> spin_inv s'"
proof (erule spin_step.cases)
  fix t u flag' c' assume inv: "spin_inv s" and s: "s = u" "s' = u\<lparr>sl_flag := flag', sl_pcs := (sl_pcs u)[t := c']\<rparr>"
    and t: "t < length (sl_pcs u)" and m: "spin_move (sl_flag u) (sl_pcs u ! t) flag' c'"
  have "sl_pcs u ! t = SpinHold \<Longrightarrow> sl_flag u"
    using inv t s(1) by (auto simp: spin_inv_def filter_empty_conv split: if_splits)
  with m inv spin_count [OF t, of "\<lambda>c. c = SpinHold" c'] show "spin_inv s'"
    unfolding s by (cases rule: spin_move.cases) (auto simp: spin_inv_def spin_test_and_set_def spinLock_unlock_def split: if_splits)
qed

definition spin_exclusive :: "spinLock \<Rightarrow> bool" where
  "spin_exclusive s \<longleftrightarrow> (\<forall>t < length (sl_pcs s). \<forall>t' < length (sl_pcs s).
     sl_pcs s ! t = SpinHold \<longrightarrow> sl_pcs s ! t' = SpinHold \<longrightarrow> t = t')"

lemma spin_inv_exclusive: "spin_inv s \<Longrightarrow> spin_exclusive s"
  unfolding spin_exclusive_def
proof (intro allI impI)
  fix t t' assume i: "spin_inv s" and t: "t < length (sl_pcs s)" "t' < length (sl_pcs s)"
    "sl_pcs s ! t = SpinHold" "sl_pcs s ! t' = SpinHold"
  show "t = t'"
  proof (rule ccontr)
    assume "t \<noteq> t'"
    then have "card {t, t'} \<le> card {i. i < length (sl_pcs s) \<and> sl_pcs s ! i = SpinHold}"
      using t by (intro card_mono) auto
    with \<open>t \<noteq> t'\<close> i show False by (simp add: spin_inv_def length_filter_conv_card split: if_splits)
  qed
qed

interpretation spin: step_invariant spin_start spin_step spin_inv spin_exclusive
proof
  show "spin_inv s" if "spin_start s" for s
    using that by (auto simp: spin_start_def spin_inv_def spinLock_init_def filter_empty_conv)
qed (auto intro: spin_step_inv spin_inv_exclusive)

section \<open>Properties\<close>

text \<open>C18: Whatever fewer than \<open>2 ^ 29\<close> threads do with a reader-writer lock, in any interleaving of its atomic
  operations, a thread that writes excludes every other reader, writer and upgrader, and at most one
  thread holds the lock for upgrading.\<close>

theorem rwSpinLock_excludes:
  assumes "n < 2 ^ 29" "reachable (rw_start n) rw_step s" "t < length (pcs s)" "t' < length (pcs s)" "t \<noteq> t'"
  shows "(pcs s ! t \<in> {RwWriter, RwToReader, RwToUpgraded} \<longrightarrow>
       pcs s ! t' \<notin> {RwWriter, RwToReader, RwToUpgraded, RwReader, RwUpgraded}) \<and>
     (pcs s ! t = RwUpgraded \<longrightarrow> pcs s ! t' \<noteq> RwUpgraded)"
proof -
  have "min n (2 ^ 29 - 1) = n" using assms(1) by simp
  then have "rw_exclusive s" using rw.always [of n s] assms(2) by simp
  then show ?thesis using assms(3-5) unfolding rw_exclusive_def by fastforce
qed

text \<open>Two threads: the first writes, the second has failed to upgrade and left the upgrade bit.\<close>

lemma rw_example: "reachable (rw_start 2) rw_step \<lparr>iBits = 3, pcs = [RwWriter, RwTry WantUp True]\<rparr>"
proof -
  let ?R = "reachable (rw_start 2) rw_step"
  have step: "?R \<lparr>iBits = v', pcs = p[t := c']\<rparr>"
    if "?R \<lparr>iBits = v, pcs = p\<rparr>" "t < length p" "rw_move v (p ! t) v' c'" for v p t v' c'
    using reach_step [OF that(1) rw_step.intros [of t "\<lparr>iBits = v, pcs = p\<rparr>" v' c']] that(2,3) by simp
  have 0: "?R \<lparr>iBits = 0, pcs = [RwIdle, RwIdle]\<rparr>"
    by (rule reach_init) (simp add: rw_start_def rwSpinLock_init_def numeral_eq_Suc)
  have 1: "?R \<lparr>iBits = 0, pcs = [RwTry WantWrite True, RwIdle]\<rparr>"
    using step [OF 0, of 0 0 "RwTry WantWrite True"] by (simp add: rw_move.call)
  have 2: "?R \<lparr>iBits = 1, pcs = [RwWriter, RwIdle]\<rparr>"
    using step [OF 1, of 0 1 RwWriter] rw_move.wrlock [of 0 1 True True] by (simp add: rw_ops)
  have 3: "?R \<lparr>iBits = 1, pcs = [RwWriter, RwTry WantUp True]\<rparr>"
    using step [OF 2, of 1 1 "RwTry WantUp True"] by (simp add: rw_move.call)
  show ?thesis
    using step [OF 3, of 1 3 "RwTry WantUp True"] rw_move.uplock [of 1 3 False True] by (simp add: rw_ops)
qed

lemma rwSpinLock_excludes_witness:
  "[RwWriter, RwTry WantUp True] ! 1 \<notin> {RwWriter, RwToReader, RwToUpgraded, RwReader, RwUpgraded}"
  using rwSpinLock_excludes [OF _ rw_example, of 0 1] by simp

text \<open>Where a thread holds nothing and is not about to undo anything.\<close>

fun rw_free :: "rw_pc \<Rightarrow> bool" where
  "rw_free RwIdle = True" | "rw_free (RwTry w _) = (w \<noteq> WantUpToWrite)" | "rw_free _ = False"

text \<open>No interleaving leaves a bit behind: when no thread holds a reader-writer lock or is undoing a failed
  attempt, its word is 0, and the next attempt of any kind, by any thread, succeeds.\<close>

theorem rwSpinLock_clean:
  assumes "n < 2 ^ 29" "reachable (rw_start n) rw_step s" "list_all rw_free (pcs s)"
  shows "iBits s = 0 \<and> snd (tryrdlock (iBits s)) \<and> snd (trywrlock (iBits s)) \<and> snd (tryuplock (iBits s))"
proof -
  have "min n (2 ^ 29 - 1) = n" using assms(1) by simp
  then have i: "rw_inv n s" using rw.reachable_inv [of n s] assms(2) by simp
  have "rw_sum f (pcs s) = 0" if "\<And>c. rw_free c \<Longrightarrow> f c = 0" for f
    using assms(3) that by (induction "pcs s") (auto simp: rw_sum_def list_all_iff)
  then have "rw_sum rw_counted (pcs s) = 0" "rw_sum rw_writer (pcs s) = 0" "rw_sum rw_upgraded (pcs s) = 0"
    by (metis rw_counted.simps rw_writer.simps rw_upgraded.simps rw_free.elims(2))+
  with i show ?thesis by (auto simp: rw_inv_def rw_ok_def rw_word_def rw_ops)
qed

lemma rwSpinLock_clean_witness:
  "\<exists>s. reachable (rw_start 2) rw_step s \<and> pcs s = [RwIdle, RwTry WantUp True] \<and> snd (tryuplock (iBits s))"
proof -
  let ?s = "\<lparr>iBits = 3, pcs = [RwWriter, RwTry WantUp True]\<rparr>"
  have "rw_step ?s (?s\<lparr>iBits := rwSpinLock_wrunlock 3, pcs := (pcs ?s)[0 := RwIdle]\<rparr>)"
    by (rule rw_step.intros) (simp_all add: rw_move.wrunlock)
  from reach_step [OF rw_example this] have r: "reachable (rw_start 2) rw_step
      \<lparr>iBits = rwSpinLock_wrunlock 3, pcs = [RwIdle, RwTry WantUp True]\<rparr>" by simp
  from rwSpinLock_clean [OF _ this] r show ?thesis by (intro exI conjI) auto
qed

text \<open>At most one of any number of threads holds a spin lock, in any interleaving of its atomic operations.\<close>

theorem spinLock_excludes:
  assumes "reachable spin_start spin_step s" "t < length (sl_pcs s)" "t' < length (sl_pcs s)"
    "sl_pcs s ! t = SpinHold" "sl_pcs s ! t' = SpinHold"
  shows "t = t'"
  using spin.always [OF assms(1)] assms(2-) unfolding spin_exclusive_def by blast

lemma spinLock_excludes_witness:
  "\<exists>s. reachable spin_start spin_step s \<and> sl_pcs s = [SpinHold, SpinIdle] \<and>
     (\<forall>t < 2. sl_pcs s ! t = SpinHold \<longrightarrow> t = 0)"
proof -
  let ?R = "reachable spin_start spin_step"
  have step: "?R \<lparr>sl_flag = v', sl_pcs = p[t := c']\<rparr>"
    if "?R \<lparr>sl_flag = v, sl_pcs = p\<rparr>" "t < length p" "spin_move v (p ! t) v' c'" for v p t v' c'
    using reach_step [OF that(1) spin_step.intros [of t "\<lparr>sl_flag = v, sl_pcs = p\<rparr>" v' c']] that(2,3) by simp
  have 0: "?R \<lparr>sl_flag = False, sl_pcs = [SpinIdle, SpinIdle]\<rparr>"
    by (rule reach_init) (simp add: spin_start_def spinLock_init_def)
  have 1: "?R \<lparr>sl_flag = False, sl_pcs = [SpinTry True, SpinIdle]\<rparr>"
    using step [OF 0, of 0 False "SpinTry True"] by (simp add: spin_move.spin_call)
  have 2: "?R \<lparr>sl_flag = True, sl_pcs = [SpinHold, SpinIdle]\<rparr>"
    using step [OF 1, of 0 True SpinHold] spin_move.spin_attempt [of False False True True]
    by (simp add: spin_test_and_set_def)
  with spinLock_excludes [OF 2, of _ 0] show ?thesis by (intro exI conjI) auto
qed

end
