(* ===== verification/HandleSlots.thy ===== *)
theory HandleSlots
  imports Prelude Interfaces
begin

text \<open>
  The slot array with its stack of free indices, which \<open>channelCenter_t.c\<close> and \<open>serviceCenter_t.c\<close> both
  have, statement by statement, and the reference-counted handles in the slots.
\<close>

section \<open>Handles\<close>

text \<open>What the centers use of a channel or a service: its id (unset until the creator stores it) and its
  reference count.  The heap maps an address to the handle; a freed address has none.\<close>

record handle =
  h_uiID :: "u32 option"
  h_iRefCount :: int

type_synonym heap = "nat \<Rightarrow> handle option"

definition handle_getID :: "heap \<Rightarrow> nat \<Rightarrow> u32 option" where
  "handle_getID hp p = Option.bind (hp p) h_uiID"

definition handle_addref :: "heap \<Rightarrow> nat \<Rightarrow> heap option" where
  "handle_addref hp p = map_option (\<lambda>h. hp(p \<mapsto> h\<lparr>h_iRefCount := h_iRefCount h + 1\<rparr>)) (hp p)"

definition handle_release :: "heap \<Rightarrow> nat \<Rightarrow> heap option" where
  "handle_release hp p = map_option
     (\<lambda>h. if h_iRefCount h = 1 then hp(p := None) else hp(p \<mapsto> h\<lparr>h_iRefCount := h_iRefCount h - 1\<rparr>)) (hp p)"

section \<open>Slots\<close>

text \<open>A slot is uninitialised (\<open>None\<close>), NULL (\<open>Some None\<close>) or a pointer; the index array has a capacity and its
  first \<open>sl_count\<close> entries are the stack of free indices.\<close>

record slots =
  sl_slot :: "nat option option list"
  sl_capacity :: nat
  sl_index :: "nat option list"
  sl_count :: nat

definition slots_free :: "nat \<Rightarrow> nat \<Rightarrow> nat option list" where
  "slots_free capacity n = map (\<lambda>i. Some (capacity - i - 1)) [0..<n]"

definition slots_init :: slots where
  "slots_init = \<lparr>sl_slot = replicate 64 (Some None), sl_capacity = 64, sl_index = slots_free 64 64, sl_count = 64\<rparr>"

text \<open>Growing; \<open>fill\<close> is what the new slots hold.\<close>

definition slots_grow :: "nat option option \<Rightarrow> slots \<Rightarrow> slots" where
  "slots_grow fill s =
     (let capacity = min (sl_capacity s * 2) 0xfffff; add = capacity - sl_capacity s in
      \<lparr>sl_slot = sl_slot s @ replicate add fill, sl_capacity = capacity,
       sl_index = slots_free capacity add @ replicate (capacity - add) None, sl_count = add\<rparr>)"

text \<open>Taking the top of the stack and storing a pointer in its slot.\<close>

definition slots_take :: "slots \<Rightarrow> nat \<Rightarrow> (nat \<times> slots) option" where
  "slots_take s p =
     (if 0 < sl_count s \<and> sl_count s - 1 < length (sl_index s)
      then case sl_index s ! (sl_count s - 1) of
        None \<Rightarrow> None
      | Some i \<Rightarrow>
          if i < length (sl_slot s)
          then Some (i, s\<lparr>sl_count := sl_count s - 1, sl_slot := (sl_slot s)[i := Some (Some p)]\<rparr>)
          else None
      else None)"

text \<open>The slot at \<open>iIndex\<close>, a 32 bit signed number; outside the array, or uninitialised, it is undefined.\<close>

definition slots_read :: "slots \<Rightarrow> int \<Rightarrow> nat option option" where
  "slots_read s iIndex =
     (if 0 \<le> iIndex \<and> nat iIndex < length (sl_slot s) then sl_slot s ! nat iIndex else None)"

definition slots_drop :: "slots \<Rightarrow> int \<Rightarrow> slots option" where
  "slots_drop s iIndex =
     (if 0 \<le> iIndex \<and> nat iIndex < length (sl_slot s) \<and> sl_count s < length (sl_index s)
      then Some (s\<lparr>sl_slot := (sl_slot s)[nat iIndex := Some None],
                   sl_index := (sl_index s)[sl_count s := Some (nat iIndex)], sl_count := sl_count s + 1\<rparr>)
      else None)"

text \<open>The index in an id: \<open>(uiID & 0xfffff) - 1\<close>, stored in an \<open>int32_t\<close>.\<close>

definition id_index :: "u32 \<Rightarrow> int" where
  "id_index uiID = sint ((uiID AND 0xfffff) - 1)"

text \<open>The handle of an id: the one in its slot, if it has that id.\<close>

definition slots_find :: "heap \<Rightarrow> slots \<Rightarrow> u32 \<Rightarrow> nat option option" where
  "slots_find hp s uiID =
     (if id_index uiID < int (sl_capacity s)
      then do {
        q \<leftarrow> slots_read s (id_index uiID);
        case q of
          None \<Rightarrow> Some None
        | Some p \<Rightarrow> do { i \<leftarrow> handle_getID hp p; Some (if i = uiID then Some p else None) } }
      else Some None)"

section \<open>The invariant of the slots\<close>

text \<open>The stack holds every index of a NULL or new slot once; \<open>fill\<close> is what slots that were never used hold.\<close>

definition slots_inv :: "slots \<Rightarrow> bool" where
  "slots_inv s \<longleftrightarrow> length (sl_slot s) = sl_capacity s \<and> length (sl_index s) = sl_capacity s \<and>
     0 < sl_capacity s \<and> sl_capacity s \<le> 0xfffff \<and> sl_count s \<le> sl_capacity s \<and>
     (\<exists>fs. take (sl_count s) (sl_index s) = map Some fs \<and> distinct fs \<and>
       set fs = {i. i < sl_capacity s \<and> (\<nexists>p. sl_slot s ! i = Some (Some p))})"

lemma slots_init_inv: "slots_inv slots_init"
proof -
  have "set (map (\<lambda>i. 64 - i - 1) [0..<64 :: nat]) = {i. i < 64}"
  proof (intro set_eqI iffI)
    fix x :: nat assume "x \<in> {i. i < 64}"
    then show "x \<in> set (map (\<lambda>i. 64 - i - 1) [0..<64])" by (auto intro!: image_eqI [of _ _ "63 - x"])
  qed auto
  then show ?thesis
    by (auto simp: slots_inv_def slots_init_def slots_free_def distinct_map inj_on_def
      intro!: exI [of _ "map (\<lambda>i. 64 - i - 1) [0..<64 :: nat]"])
qed

lemma slots_grow_inv:
  assumes "slots_inv s" "sl_count s = 0" "sl_capacity s \<noteq> 0xfffff" "\<And>p. fill \<noteq> Some (Some p)"
  shows "slots_inv (slots_grow fill s)" "0 < sl_count (slots_grow fill s)"
    "i < sl_capacity s \<Longrightarrow> sl_slot (slots_grow fill s) ! i = sl_slot s ! i"
    "sl_capacity s \<le> sl_capacity (slots_grow fill s)"
proof -
  obtain c where c: "c = min (sl_capacity s * 2) 0xfffff" by blast
  have s: "length (sl_slot s) = sl_capacity s" "0 < sl_capacity s" "sl_capacity s \<le> 0xfffff"
    "\<forall>i < sl_capacity s. \<exists>p. sl_slot s ! i = Some (Some p)"
    using assms(1,2) by (auto simp: slots_inv_def)
  then have less: "sl_capacity s < c" "c \<le> 0xfffff" "c - sl_capacity s \<le> sl_capacity s"
    using assms(3) by (auto simp: c)
  have g: "slots_grow fill s = \<lparr>sl_slot = sl_slot s @ replicate (c - sl_capacity s) fill, sl_capacity = c,
       sl_index = slots_free c (c - sl_capacity s) @ replicate (c - (c - sl_capacity s)) None, sl_count = c - sl_capacity s\<rparr>"
    by (simp add: slots_grow_def Let_def c)
  let ?fs = "map (\<lambda>i. c - i - 1) [0..<c - sl_capacity s]"
  have "set ?fs = {i. sl_capacity s \<le> i \<and> i < c}"
  proof (intro set_eqI iffI)
    fix x assume "x \<in> {i. sl_capacity s \<le> i \<and> i < c}"
    then show "x \<in> set ?fs" by (auto intro!: image_eqI [of _ _ "c - x - 1"])
  qed (use less in auto)
  also have "\<dots> = {i. i < c \<and> (\<nexists>p. (sl_slot s @ replicate (c - sl_capacity s) fill) ! i = Some (Some p))}"
    using s(1,4) assms(4) by (auto simp: nth_append) (meson not_le)
  finally have fs: "set ?fs = \<dots>" .
  have "distinct ?fs" by (auto simp: distinct_map inj_on_def)
  then show "slots_inv (slots_grow fill s)"
    unfolding g slots_inv_def using fs s less by (auto simp: slots_free_def intro!: exI [of _ ?fs])
  show "0 < sl_count (slots_grow fill s)" "sl_capacity s \<le> sl_capacity (slots_grow fill s)"
    "i < sl_capacity s \<Longrightarrow> sl_slot (slots_grow fill s) ! i = sl_slot s ! i"
    unfolding g using less s(1) by (auto simp: nth_append)
qed

lemma slots_take_inv:
  assumes "slots_inv s" "0 < sl_count s"
  shows "\<exists>i s'. slots_take s p = Some (i, s') \<and> slots_inv s' \<and> i < sl_capacity s \<and>
    (\<nexists>q. sl_slot s ! i = Some (Some q)) \<and> sl_slot s' = (sl_slot s)[i := Some (Some p)] \<and> sl_capacity s' = sl_capacity s"
proof -
  from assms(1) obtain fs where fs: "take (sl_count s) (sl_index s) = map Some fs" "distinct fs"
      "set fs = {i. i < sl_capacity s \<and> (\<nexists>p. sl_slot s ! i = Some (Some p))}"
    and l: "length (sl_slot s) = sl_capacity s" "length (sl_index s) = sl_capacity s" "sl_count s \<le> sl_capacity s"
    by (auto simp: slots_inv_def)
  let ?k = "sl_count s - 1"
  have k: "length fs = sl_count s" using fs(1) l by (metis length_map length_take min_absorb2)
  then have fs': "fs = take ?k fs @ [fs ! ?k]" using assms(2)
    by (metis One_nat_def Suc_pred lessI take_Suc_conv_app_nth take_all_iff le_refl)
  have "sl_index s ! ?k = Some (fs ! ?k)"
    using fs(1) k assms(2) l by (metis One_nat_def Suc_pred lessI nth_map nth_take)
  moreover have i: "fs ! ?k < sl_capacity s" "\<nexists>q. sl_slot s ! (fs ! ?k) = Some (Some q)"
    using fs(3) k assms(2) by (metis (mono_tags, lifting) One_nat_def Suc_pred lessI mem_Collect_eq nth_mem)+
  ultimately have t: "slots_take s p = Some (fs ! ?k, s\<lparr>sl_count := ?k, sl_slot := (sl_slot s)[fs ! ?k := Some (Some p)]\<rparr>)"
    using l assms(2) by (simp add: slots_take_def)
  have "distinct (take ?k fs)" "fs ! ?k \<notin> set (take ?k fs)" "set fs = insert (fs ! ?k) (set (take ?k fs))"
    using fs' fs(2) by (metis distinct_append, metis distinct_append distinct_singleton disjoint_insert(1) list.set(2), metis Un_insert_right list.simps(15) set_append sup_bot.right_neutral empty_set)
  then have "set (take ?k fs) = {i. i < sl_capacity s \<and> (\<nexists>q. (sl_slot s)[fs ! ?k := Some (Some p)] ! i = Some (Some q))}"
  proof -
    have S: "set (take ?k fs) = {i. i < sl_capacity s \<and> (\<nexists>p. sl_slot s ! i = Some (Some p))} - {fs ! ?k}"
      using fs(3) \<open>fs ! ?k \<notin> set (take ?k fs)\<close> \<open>set fs = insert (fs ! ?k) (set (take ?k fs))\<close> by blast
    show ?thesis unfolding S using i l by (auto simp: nth_list_update)
  qed
  moreover have "take ?k (sl_index s) = map Some (take ?k fs)"
    using fs(1) by (metis diff_le_self min.absorb1 take_map take_take)
  ultimately have "slots_inv (s\<lparr>sl_count := ?k, sl_slot := (sl_slot s)[fs ! ?k := Some (Some p)]\<rparr>)"
    using assms(1) \<open>distinct (take ?k fs)\<close> by (auto simp: slots_inv_def)
  with t i show ?thesis by auto
qed

lemma slots_drop_inv:
  assumes "slots_inv s" "i < sl_capacity s" "sl_slot s ! i = Some (Some p)"
  shows "\<exists>s'. slots_drop s (int i) = Some s' \<and> slots_inv s' \<and> sl_slot s' = (sl_slot s)[i := Some None] \<and>
    sl_capacity s' = sl_capacity s"
proof -
  from assms(1) obtain fs where fs: "take (sl_count s) (sl_index s) = map Some fs" "distinct fs"
      "set fs = {i. i < sl_capacity s \<and> (\<nexists>p. sl_slot s ! i = Some (Some p))}"
    and l: "length (sl_slot s) = sl_capacity s" "length (sl_index s) = sl_capacity s" "sl_count s \<le> sl_capacity s"
    by (auto simp: slots_inv_def)
  have k: "length fs = sl_count s" using fs(1) l by (metis length_map length_take min_absorb2)
  have "card (set fs) < card {..<sl_capacity s}"
    by (rule psubset_card_mono) (use fs(3) assms(2,3) in auto)
  then have c: "sl_count s < sl_capacity s" using k fs(2) by (simp add: distinct_card)
  have "take (sl_count s + 1) ((sl_index s)[sl_count s := Some i]) = map Some (fs @ [i])"
    using fs(1) c l by (simp add: take_Suc_conv_app_nth)
  moreover have "distinct (fs @ [i])" using fs(2,3) assms(3) by auto
  moreover have "set (fs @ [i]) = {j. j < sl_capacity s \<and> (\<nexists>p. (sl_slot s)[i := Some None] ! j = Some (Some p))}"
    using fs(3) assms(2) l by (auto simp: nth_list_update)
  ultimately have "slots_inv (s\<lparr>sl_slot := (sl_slot s)[i := Some None], sl_index := (sl_index s)[sl_count s := Some i], sl_count := sl_count s + 1\<rparr>)"
    using assms(1) c unfolding slots_inv_def by (intro conjI exI [of _ "fs @ [i]"]) simp_all
  then show ?thesis using assms(2) c l by (simp add: slots_drop_def)
qed

section \<open>The table as a map\<close>

lemma mask20: "(0xfffff :: u32) = mask 20"
  by (simp add: mask_eq_exp_minus_1)

lemma small_and_mask: "k \<le> 0xfffff \<Longrightarrow> (of_nat k :: u32) AND 0xfffff = of_nat k"
  unfolding mask20 by (simp flip: take_bit_eq_mask add: take_bit_of_nat take_bit_nat_eq_self)

lemma id_index_eq:
  assumes "uiID AND 0xfffff = of_nat (Suc i)" "Suc i \<le> 0xfffff"
  shows "id_index uiID = int i"
proof -
  have "id_index uiID = sint (of_nat i :: u32)" using assms(1) by (simp add: id_index_def)
  also have "\<dots> = int i" using assms(2) by (simp add: sint_uint signed_take_bit_int_eq_self unsigned_of_nat take_bit_nat_eq_self)
  finally show ?thesis .
qed

lemma id_low:
  fixes uiID :: u32
  obtains k where "uiID AND 0xfffff = of_nat k" "k \<le> 0xfffff"
proof (rule that [of "unat (uiID AND 0xfffff)"])
  show "unat (uiID AND 0xfffff) \<le> 0xfffff"
    using word_and_le1 [where y = uiID and a = "0xfffff"] by (simp add: word_le_nat_alt and.commute)
qed simp

lemma id_index_range:
  fixes uiID :: u32
  assumes "uiID AND 0xfffff \<noteq> 0"
  obtains i where "uiID AND 0xfffff = of_nat (Suc i)" "Suc i \<le> 0xfffff" "id_index uiID = int i"
proof -
  from id_low [of uiID] obtain k where k: "uiID AND 0xfffff = of_nat k" "k \<le> 0xfffff" .
  with assms obtain i where "k = Suc i" by (cases k) auto
  with that k id_index_eq show ?thesis by blast
qed

text \<open>The handle an id is found with.\<close>

definition entries :: "heap \<Rightarrow> slots \<Rightarrow> u32 \<Rightarrow> nat option" where
  "entries hp s uiID =
     (if 0 \<le> id_index uiID \<and> id_index uiID < int (sl_capacity s)
      then case sl_slot s ! nat (id_index uiID) of
        Some (Some p) \<Rightarrow> if handle_getID hp p = Some uiID then Some p else None
      | _ \<Rightarrow> None
      else None)"

text \<open>Every handle in a slot is allocated and referenced, and its id names the slot.\<close>

definition slots_ok :: "(u32 \<Rightarrow> bool) \<Rightarrow> heap \<Rightarrow> slots \<Rightarrow> bool" where
  "slots_ok good hp s \<longleftrightarrow> (\<forall>i < sl_capacity s. \<forall>p. sl_slot s ! i = Some (Some p) \<longrightarrow>
     (\<exists>h uiID. hp p = Some h \<and> h_uiID h = Some uiID \<and> uiID AND 0xfffff = of_nat (Suc i) \<and> 1 \<le> h_iRefCount h \<and> good uiID))"

text \<open>Ids whose slot has been written since it was allocated.\<close>

definition known_id :: "slots \<Rightarrow> u32 \<Rightarrow> bool" where
  "known_id s uiID \<longleftrightarrow> uiID AND 0xfffff \<noteq> 0 \<and>
     (id_index uiID < int (sl_capacity s) \<longrightarrow> sl_slot s ! nat (id_index uiID) \<noteq> None)"

lemma slots_okE:
  assumes "slots_ok good hp s" "i < sl_capacity s" "sl_slot s ! i = Some (Some p)"
  obtains h uiID where "hp p = Some h" "h_uiID h = Some uiID" "uiID AND 0xfffff = of_nat (Suc i)"
    "1 \<le> h_iRefCount h" "good uiID" "handle_getID hp p = Some uiID"
  using assms unfolding slots_ok_def handle_getID_def by fastforce

lemma find_entries:
  assumes "slots_ok good hp s" "slots_inv s" "known_id s uiID"
  shows "slots_find hp s uiID = Some (entries hp s uiID)"
proof -
  from assms(3) obtain i where i: "id_index uiID = int i" unfolding known_id_def using id_index_range by metis
  have l: "length (sl_slot s) = sl_capacity s" using assms(2) by (simp add: slots_inv_def)
  show ?thesis
  proof (cases "i < sl_capacity s")
    case True
    with assms(3) i obtain q where q: "sl_slot s ! i = Some q" by (auto simp: known_id_def)
    show ?thesis
    proof (cases q)
      case None
      with True q i l show ?thesis by (simp add: slots_find_def entries_def slots_read_def)
    next
      case (Some p)
      with slots_okE [OF assms(1) True] q obtain x where "handle_getID hp p = Some x" by blast
      with Some True q i l show ?thesis by (simp add: slots_find_def entries_def slots_read_def)
    qed
  qed (simp add: i slots_find_def entries_def)
qed

lemma entries_some:
  assumes "entries hp s uiID = Some p" "slots_inv s" "slots_ok good hp s"
  obtains i h where "id_index uiID = int i" "i < sl_capacity s" "sl_slot s ! i = Some (Some p)" "hp p = Some h"
    "h_uiID h = Some uiID" "1 \<le> h_iRefCount h" "good uiID" "uiID AND 0xfffff = of_nat (Suc i)"
proof -
  from assms(1) obtain i where i: "id_index uiID = int i" "i < sl_capacity s" "sl_slot s ! i = Some (Some p)"
    "handle_getID hp p = Some uiID"
    by (auto simp: entries_def split: if_splits option.splits) (metis int_nat_eq nat_less_iff)
  from slots_okE [OF assms(3) i(2,3)] that i show ?thesis by (metis option.inject)
qed

lemma same_slot:
  assumes "slots_ok good hp s" "slots_inv s" "i < sl_capacity s" "j < sl_capacity s"
    "sl_slot s ! i = Some (Some p)" "sl_slot s ! j = Some (Some p)"
  shows "i = j"
proof -
  from slots_okE [OF assms(1,3,5)] slots_okE [OF assms(1,4,6)]
  have "(of_nat (Suc i) :: u32) = of_nat (Suc j)" by (metis option.inject)
  moreover have "Suc i \<le> 0xfffff" "Suc j \<le> 0xfffff" using assms(2,3,4) by (simp_all add: slots_inv_def)
  ultimately have "unat (of_nat (Suc i) :: u32) = unat (of_nat (Suc j) :: u32)" by simp
  with \<open>Suc i \<le> 0xfffff\<close> \<open>Suc j \<le> 0xfffff\<close> show ?thesis by (simp add: unat_of_nat del: of_nat_Suc)
qed

text \<open>A handle without an id is in no slot.\<close>

definition unlisted :: "heap \<Rightarrow> nat \<Rightarrow> bool" where
  "unlisted hp p \<longleftrightarrow> handle_getID hp p = None \<or> handle_getID hp p = Some 0"

lemma unlisted_other:
  assumes "slots_ok good hp s" "slots_inv s" "unlisted hp p" "j < sl_capacity s" "sl_slot s ! j = Some (Some q)"
  shows "q \<noteq> p"
proof -
  from slots_okE [OF assms(1,4,5)] obtain x where x: "handle_getID hp q = Some x" "x AND 0xfffff = of_nat (Suc j)" by metis
  have "Suc j \<le> 0xfffff" using assms(2,4) by (simp add: slots_inv_def)
  then have "(of_nat (Suc j) :: u32) \<noteq> 0" by (simp add: word_unat_eq_iff unat_of_nat del: of_nat_Suc)
  then have "x \<noteq> 0" using x(2) by auto
  with x(1) assms(3) show ?thesis by (auto simp: unlisted_def)
qed

text \<open>What the operations do to the map.\<close>

lemma entries_grow:
  assumes "slots_inv s" "sl_count s = 0" "sl_capacity s \<noteq> 0xfffff" "\<And>p. fill \<noteq> Some (Some p)"
  shows "slots_ok good hp (slots_grow fill s) \<longleftrightarrow> slots_ok good hp s" "entries hp (slots_grow fill s) = entries hp s"
proof -
  let ?t = "slots_grow fill s"
  have old: "sl_slot ?t ! i = sl_slot s ! i" if "i < sl_capacity s" for i
    using slots_grow_inv(3) [OF assms that] .
  have new: "sl_slot ?t ! i \<noteq> Some (Some p)" if "sl_capacity s \<le> i" "i < sl_capacity ?t" for i p
    using assms(1,4) that by (auto simp: slots_grow_def Let_def slots_inv_def nth_append)
  have cap: "sl_capacity s \<le> sl_capacity ?t" by (rule slots_grow_inv(4) [OF assms])
  show "slots_ok good hp ?t \<longleftrightarrow> slots_ok good hp s"
  proof -
    have "i < sl_capacity ?t \<and> sl_slot ?t ! i = Some (Some p) \<longleftrightarrow> i < sl_capacity s \<and> sl_slot s ! i = Some (Some p)" for i p
      using old [of i] new [of i p] cap by (cases "i < sl_capacity s") auto
    then show ?thesis unfolding slots_ok_def by blast
  qed
  show "entries hp ?t = entries hp s"
  proof
    fix x
    consider "id_index x < 0" | i where "id_index x = int i" by (metis linorder_not_less nonneg_int_cases)
    then show "entries hp ?t x = entries hp s x"
    proof cases
      case 2
      consider "i < sl_capacity s" | "sl_capacity s \<le> i" "i < sl_capacity ?t" | "sl_capacity ?t \<le> i" by linarith
      then show ?thesis
      proof cases
        case 1
        with 2 old [OF 1] cap show ?thesis by (simp add: entries_def)
      next
        case b: 2
        with 2 new [OF b] show ?thesis by (auto simp: entries_def split: option.split)
      qed (use 2 cap in \<open>simp add: entries_def\<close>)
    qed (simp add: entries_def)
  qed
qed

lemma entries_open:
  assumes "slots_ok good hp s" "slots_inv s" "i < sl_capacity s" "\<nexists>q. sl_slot s ! i = Some (Some q)"
    and "sl_slot s' = (sl_slot s)[i := Some (Some p)]" "sl_capacity s' = sl_capacity s" "unlisted hp p"
    and "h_uiID h = Some uiID" "uiID AND 0xfffff = of_nat (Suc i)" "1 \<le> h_iRefCount h" "good uiID"
  shows "slots_ok good (hp(p \<mapsto> h)) s'" "entries (hp(p \<mapsto> h)) s' = (entries hp s)(uiID \<mapsto> p)" "entries hp s uiID = None"
    "known_id s' uiID"
proof -
  have l: "length (sl_slot s) = sl_capacity s" "Suc i \<le> 0xfffff" using assms(2,3) by (simp_all add: slots_inv_def)
  have idx: "id_index uiID = int i" by (rule id_index_eq [OF assms(9) l(2)])
  note ne = unlisted_other [OF assms(1,2,7)]
  show "slots_ok good (hp(p \<mapsto> h)) s'"
    unfolding slots_ok_def
  proof (intro allI impI)
    fix j q assume j: "j < sl_capacity s'" "sl_slot s' ! j = Some (Some q)"
    show "\<exists>h' x. (hp(p \<mapsto> h)) q = Some h' \<and> h_uiID h' = Some x \<and> x AND 0xfffff = of_nat (Suc j) \<and> 1 \<le> h_iRefCount h' \<and> good x"
    proof (cases "j = i")
      case True
      with j assms l show ?thesis by simp
    next
      case False
      with j assms(5,6) have "j < sl_capacity s" "sl_slot s ! j = Some (Some q)" by simp_all
      with ne slots_okE [OF assms(1) this] show ?thesis by (metis fun_upd_other)
    qed
  qed
  show n: "entries hp s uiID = None" using assms(3,4) by (auto simp: entries_def idx split: option.split)
  have "(of_nat (Suc i) :: u32) \<noteq> 0"
    using l(2) by (simp add: word_unat_eq_iff unat_of_nat del: of_nat_Suc)
  then show "known_id s' uiID" using assms(3,5,6) l by (simp add: known_id_def idx assms(9) del: of_nat_Suc)
  show "entries (hp(p \<mapsto> h)) s' = (entries hp s)(uiID \<mapsto> p)"
  proof
    fix x
    consider "id_index x = int i" | "id_index x \<noteq> int i" by blast
    then show "entries (hp(p \<mapsto> h)) s' x = ((entries hp s)(uiID \<mapsto> p)) x"
    proof cases
      case 1
      then have "entries (hp(p \<mapsto> h)) s' x = (if x = uiID then Some p else None)"
        using assms(3,5,6,8) l by (simp add: entries_def handle_getID_def)
      moreover have "entries hp s x = None" using assms(3,4) 1 by (auto simp: entries_def split: option.split)
      ultimately show ?thesis by simp
    next
      case 2
      then have "x \<noteq> uiID" using idx by auto
      moreover have "entries (hp(p \<mapsto> h)) s' x = entries hp s x"
      proof (cases "0 \<le> id_index x \<and> id_index x < int (sl_capacity s)")
        case True
        then have j: "nat (id_index x) < sl_capacity s" "nat (id_index x) \<noteq> i" using 2 by auto
        then have "sl_slot s' ! nat (id_index x) = sl_slot s ! nat (id_index x)" using assms(5) by simp
        moreover have "handle_getID (hp(p \<mapsto> h)) q = handle_getID hp q" if "sl_slot s ! nat (id_index x) = Some (Some q)" for q
          using ne [OF j(1) that] by (simp add: handle_getID_def)
        ultimately show ?thesis using assms(6) by (auto simp: entries_def split: option.split)
      qed (use assms(6) in \<open>auto simp: entries_def\<close>)
      ultimately show ?thesis by simp
    qed
  qed
qed

lemma entries_close:
  assumes "slots_ok good hp s" "slots_inv s" "entries hp s uiID = Some p"
  shows "\<exists>hp' s'. handle_release hp p = Some hp' \<and> slots_drop s (id_index uiID) = Some s' \<and>
    slots_inv s' \<and> slots_ok good hp' s' \<and> entries hp' s' = (entries hp s)(uiID := None)"
proof -
  from entries_some [OF assms(3,2,1)] obtain i h where i: "id_index uiID = int i" "i < sl_capacity s"
    "sl_slot s ! i = Some (Some p)" "hp p = Some h" "h_uiID h = Some uiID" "1 \<le> h_iRefCount h" "good uiID"
    "uiID AND 0xfffff = of_nat (Suc i)" .
  obtain hp' where hp': "handle_release hp p = Some hp'" "\<And>q. q \<noteq> p \<Longrightarrow> hp' q = hp q"
    using i(4) by (auto simp: handle_release_def)
  from slots_drop_inv [OF assms(2) i(2,3)] obtain s' where
    s': "slots_drop s (int i) = Some s'" "slots_inv s'" "sl_slot s' = (sl_slot s)[i := Some None]" "sl_capacity s' = sl_capacity s"
    by blast
  have l: "length (sl_slot s) = sl_capacity s" using assms(2) by (simp add: slots_inv_def)
  have other: "j \<noteq> i \<Longrightarrow> q \<noteq> p" if "j < sl_capacity s" "sl_slot s ! j = Some (Some q)" for j q
    using same_slot [OF assms(1,2) i(2) that(1) i(3)] that(2) by blast
  have "slots_ok good hp' s'"
    unfolding slots_ok_def
  proof (intro allI impI)
    fix j q assume j: "j < sl_capacity s'" "sl_slot s' ! j = Some (Some q)"
    then have "j \<noteq> i" "j < sl_capacity s" "sl_slot s ! j = Some (Some q)"
      using s'(3,4) l i(2) by (auto simp: nth_list_update split: if_splits)
    with other slots_okE [OF assms(1) this(2,3)] hp'(2)
    show "\<exists>h x. hp' q = Some h \<and> h_uiID h = Some x \<and> x AND 0xfffff = of_nat (Suc j) \<and> 1 \<le> h_iRefCount h \<and> good x"
      by metis
  qed
  moreover have "entries hp' s' = (entries hp s)(uiID := None)"
  proof
    fix x
    show "entries hp' s' x = ((entries hp s)(uiID := None)) x"
    proof (cases "id_index x = int i")
      case True
      then have "entries hp' s' x = None" using s'(3) i(2) l by (simp add: entries_def)
      moreover have "entries hp s x = (if x = uiID then Some p else None)"
        using True i by (simp add: entries_def handle_getID_def)
      ultimately show ?thesis by simp
    next
      case False
      then have "x \<noteq> uiID" using i(1) by auto
      moreover have "entries hp' s' x = entries hp s x"
      proof (cases "0 \<le> id_index x \<and> id_index x < int (sl_capacity s)")
        case True
        then have j: "nat (id_index x) < sl_capacity s" "nat (id_index x) \<noteq> i" using False by auto
        then have "sl_slot s' ! nat (id_index x) = sl_slot s ! nat (id_index x)" using s'(3) by simp
        moreover have "handle_getID hp' q = handle_getID hp q" if "sl_slot s ! nat (id_index x) = Some (Some q)" for q
          using other [OF j(1) that j(2)] hp'(2) by (simp add: handle_getID_def)
        ultimately show ?thesis using s'(4) by (auto simp: entries_def split: option.split)
      qed (use s'(4) in \<open>auto simp: entries_def\<close>)
      ultimately show ?thesis by simp
    qed
  qed
  ultimately show ?thesis using hp'(1) s'(1,2) i(1) by auto
qed

lemma entries_addref:
  assumes "slots_ok good hp s" "hp p = Some h"
  shows "\<exists>hp'. handle_addref hp p = Some hp' \<and> slots_ok good hp' s \<and> entries hp' s = entries hp s \<and>
    hp' p = Some (h\<lparr>h_iRefCount := h_iRefCount h + 1\<rparr>)"
proof -
  let ?h = "h\<lparr>h_iRefCount := h_iRefCount h + 1\<rparr>"
  have "slots_ok good (hp(p \<mapsto> ?h)) s"
    using assms unfolding slots_ok_def by fastforce
  moreover have "handle_getID (hp(p \<mapsto> ?h)) = handle_getID hp"
    using assms(2) by (auto simp: handle_getID_def fun_eq_iff)
  then have "entries (hp(p \<mapsto> ?h)) s = entries hp s" unfolding entries_def by (simp only:)
  ultimately show ?thesis using assms(2) by (intro exI [of _ "hp(p \<mapsto> ?h)"]) (simp add: handle_addref_def)
qed

text \<open>Changing a handle that is in no slot.\<close>

lemma fresh_other:
  assumes "slots_ok good hp s" "slots_inv s" "unlisted hp p"
  shows "slots_ok good (hp(p \<mapsto> h)) s \<and> entries (hp(p \<mapsto> h)) s = entries hp s"
proof
  note ne = unlisted_other [OF assms]
  then show "slots_ok good (hp(p \<mapsto> h)) s" using assms(1) unfolding slots_ok_def by fastforce
  have id: "handle_getID (hp(p \<mapsto> h)) q = handle_getID hp q" if "j < sl_capacity s" "sl_slot s ! j = Some (Some q)" for j q
    using ne [OF that] by (simp add: handle_getID_def)
  show "entries (hp(p \<mapsto> h)) s = entries hp s"
  proof
    fix x
    show "entries (hp(p \<mapsto> h)) s x = entries hp s x"
    proof (cases "0 \<le> id_index x \<and> id_index x < int (sl_capacity s)")
      case True
      then have "nat (id_index x) < sl_capacity s" by auto
      with id show ?thesis by (auto simp: entries_def split: option.split)
    qed (auto simp: entries_def)
  qed
qed

end
