(* ===== verification/ChannelCenter.thy ===== *)
theory ChannelCenter
  imports HandleSlots
begin

text \<open>
  The registry of channels, \<open>service/source/channel/channelCenter_t.c\<close>, with \<open>createChannel\<close> of \<open>channel_t.c\<close>
  as far as it registers.  Each function runs under the lock of the center (see \<open>Locks\<close>), so it is one step.
\<close>

record channelCenter =
  cc_slots :: slots
  cc_iSequence :: nat

text \<open>The static pointer to the center, and the heap of channels.\<close>

record cc_world =
  cc_center :: "channelCenter option"
  cc_heap :: heap

definition channelCenter_init :: "cc_world \<Rightarrow> cc_world" where
  "channelCenter_init w =
     (case cc_center w of
        None \<Rightarrow> w\<lparr>cc_center := Some \<lparr>cc_slots = slots_init, cc_iSequence = 1\<rparr>\<rparr>
      | Some _ \<Rightarrow> w)"

definition channelCenter_register :: "cc_world \<Rightarrow> nat \<Rightarrow> (u32 \<times> cc_world) option" where
  "channelCenter_register w pHandle =
     (case cc_center w of
        None \<Rightarrow> Some (0, w)
      | Some c \<Rightarrow>
          if sl_count (cc_slots c) = 0 \<and> sl_capacity (cc_slots c) = 0xfffff then Some (0, w)
          else do {
            let s = (if sl_count (cc_slots c) = 0 then slots_grow (Some None) (cc_slots c) else cc_slots c);
            (iIndex, s) \<leftarrow> slots_take s pHandle;
            hp \<leftarrow> handle_addref (cc_heap w) pHandle;
            let iSequence = (push_bit 20 (of_nat (cc_iSequence c)) :: u32);
            let next = cc_iSequence c + 1;
            let next = (if next = 0x7ff then 1 else next);
            Some (of_nat (iIndex + 1) OR 0x80000000 OR iSequence,
                  w\<lparr>cc_center := Some \<lparr>cc_slots = s, cc_iSequence = next\<rparr>, cc_heap := hp\<rparr>) })"

definition channelCenter_deregister :: "cc_world \<Rightarrow> u32 \<Rightarrow> (bool \<times> cc_world) option" where
  "channelCenter_deregister w uiChannelID =
     (if uiChannelID AND 0x80000000 = 0 then Some (False, w)
      else case cc_center w of
        None \<Rightarrow> Some (False, w)
      | Some c \<Rightarrow> do {
          r \<leftarrow> slots_find (cc_heap w) (cc_slots c) uiChannelID;
          case r of
            None \<Rightarrow> Some (False, w)
          | Some p \<Rightarrow> do {
              hp \<leftarrow> handle_release (cc_heap w) p;
              s \<leftarrow> slots_drop (cc_slots c) (id_index uiChannelID);
              Some (True, w\<lparr>cc_center := Some (c\<lparr>cc_slots := s\<rparr>), cc_heap := hp\<rparr>) } })"

definition channelCenter_gain :: "cc_world \<Rightarrow> u32 \<Rightarrow> (nat option \<times> cc_world) option" where
  "channelCenter_gain w uiChannelID =
     (if uiChannelID AND 0x80000000 = 0 then Some (None, w)
      else case cc_center w of
        None \<Rightarrow> Some (None, w)
      | Some c \<Rightarrow> do {
          r \<leftarrow> slots_find (cc_heap w) (cc_slots c) uiChannelID;
          case r of
            None \<Rightarrow> Some (None, w)
          | Some p \<Rightarrow> do {
              hp \<leftarrow> handle_addref (cc_heap w) p;
              Some (Some p, w\<lparr>cc_heap := hp\<rparr>) } })"

text \<open>The loop over the slots collects the ids; \<open>None\<close> where it reads an undefined slot.\<close>

fun slots_ids :: "heap \<Rightarrow> nat option option list \<Rightarrow> u32 list option" where
  "slots_ids hp [] = Some []"
| "slots_ids hp (None # qs) = None"
| "slots_ids hp (Some None # qs) = slots_ids hp qs"
| "slots_ids hp (Some (Some p) # qs) = do { i \<leftarrow> handle_getID hp p; ids \<leftarrow> slots_ids hp qs; Some (i # ids) }"

text \<open>The ids are stored in a block of \<open>*pCount\<close> of them.\<close>

definition channelCenter_getIds :: "cc_world \<Rightarrow> (u32 list \<times> int) option" where
  "channelCenter_getIds w =
     (case cc_center w of
        None \<Rightarrow> Some ([], 0)
      | Some c \<Rightarrow>
          let pCount = int (sl_capacity (cc_slots c)) - int (sl_count (cc_slots c)) in
          if pCount > 0 then do {
            ids \<leftarrow> slots_ids (cc_heap w) (sl_slot (cc_slots c));
            guard (int (length ids) \<le> pCount);
            Some (ids, pCount) }
          else Some ([], 0))"

text \<open>The static pointer is cleared before the loop that deregisters, which therefore finds no center.\<close>

fun deregister_all :: "cc_world \<Rightarrow> nat option option list \<Rightarrow> cc_world option" where
  "deregister_all w [] = Some w"
| "deregister_all w (None # qs) = None"
| "deregister_all w (Some None # qs) = deregister_all w qs"
| "deregister_all w (Some (Some p) # qs) = do {
     i \<leftarrow> handle_getID (cc_heap w) p;
     (_, w) \<leftarrow> channelCenter_deregister w i;
     deregister_all w qs }"

definition channelCenter_clear :: "cc_world \<Rightarrow> cc_world option" where
  "channelCenter_clear w =
     (case cc_center w of
        None \<Rightarrow> Some w
      | Some c \<Rightarrow> deregister_all (w\<lparr>cc_center := None\<rparr>) (sl_slot (cc_slots c)))"

text \<open>\<open>createChannel\<close> at the address that \<open>mem_malloc\<close> gives: the channel has one reference and no id, is
  registered, and gets its id.  The model has no other thread in between.\<close>

definition handle_create :: "cc_world \<Rightarrow> nat \<Rightarrow> (u32 \<times> cc_world) option" where
  "handle_create w pHandle = do {
     let w = w\<lparr>cc_heap := (cc_heap w)(pHandle \<mapsto> \<lparr>h_uiID = None, h_iRefCount = 1\<rparr>)\<rparr>;
     (uiID, w) \<leftarrow> channelCenter_register w pHandle;
     h \<leftarrow> cc_heap w pHandle;
     Some (uiID, w\<lparr>cc_heap := (cc_heap w)(pHandle \<mapsto> h\<lparr>h_uiID := Some uiID\<rparr>)\<rparr>) }"

section \<open>The registry as a map\<close>

definition cc_good :: "u32 \<Rightarrow> bool" where
  "cc_good uiID \<longleftrightarrow> uiID AND 0x80000000 \<noteq> 0"

definition cc_center_inv :: "heap \<Rightarrow> channelCenter \<Rightarrow> bool" where
  "cc_center_inv hp c \<longleftrightarrow> slots_inv (cc_slots c) \<and> slots_ok cc_good hp (cc_slots c) \<and>
     None \<notin> set (sl_slot (cc_slots c)) \<and> 1 \<le> cc_iSequence c \<and> cc_iSequence c < 0x7ff"

definition cc_inv :: "cc_world \<Rightarrow> bool" where
  "cc_inv w \<longleftrightarrow> (\<exists>c. cc_center w = Some c \<and> cc_center_inv (cc_heap w) c)"

definition cc_entries :: "cc_world \<Rightarrow> u32 \<Rightarrow> nat option" where
  "cc_entries w = (case cc_center w of None \<Rightarrow> Map.empty | Some c \<Rightarrow> entries (cc_heap w) (cc_slots c))"

definition cc_fresh :: "cc_world \<Rightarrow> nat \<Rightarrow> bool" where
  "cc_fresh w p \<longleftrightarrow> cc_heap w p = None"

text \<open>Ids that name a slot.\<close>

definition cc_known :: "cc_world \<Rightarrow> u32 \<Rightarrow> bool" where
  "cc_known w uiID \<longleftrightarrow> uiID AND 0xfffff \<noteq> 0"

definition cc_open :: "cc_world \<Rightarrow> nat \<Rightarrow> (u32 option \<times> cc_world) option" where
  "cc_open w p = map_option (\<lambda>(uiID, w). (if uiID = 0 then None else Some uiID, w)) (handle_create w p)"

definition cc_id :: "nat \<Rightarrow> nat \<Rightarrow> u32" where
  "cc_id i q = of_nat (i + 1) OR 0x80000000 OR push_bit 20 (of_nat q)"

lemma cc_id_bits:
  assumes "Suc i \<le> 0xfffff"
  shows "cc_id i q AND 0xfffff = of_nat (Suc i)" "cc_good (cc_id i q)" "cc_id i q \<noteq> 0"
proof -
  have "push_bit 20 (of_nat q :: u32) AND 0xfffff = 0"
    unfolding mask20 by (simp flip: take_bit_eq_mask add: take_bit_push_bit)
  moreover have "(0x80000000 :: u32) AND 0xfffff = 0" by simp
  ultimately show "cc_id i q AND 0xfffff = of_nat (Suc i)"
    using small_and_mask [OF assms] by (simp add: cc_id_def bit.conj_disj_distrib2)
  have "cc_id i q = 0x80000000 OR (of_nat (i + 1) OR push_bit 20 (of_nat q))"
    unfolding cc_id_def by (rule or.left_commute)
  then have "cc_id i q AND 0x80000000 = 0x80000000"
    by (simp only:) (rule bit_word_eqI, auto simp: bit_and_iff bit_or_iff)
  then show "cc_good (cc_id i q)" "cc_id i q \<noteq> 0" by (auto simp: cc_good_def)
qed

lemma take_none: "slots_take s p = Some (i, s') \<Longrightarrow> sl_index s' = sl_index s"
  by (auto simp: slots_take_def split: if_splits option.splits)

lemma register_ok:
  assumes "cc_center w = Some c" "cc_center_inv (cc_heap w) c" "cc_heap w p = None"
  shows "(sl_count (cc_slots c) = 0 \<and> sl_capacity (cc_slots c) = 0xfffff \<and>
      handle_create w p = Some (0, w\<lparr>cc_heap := (cc_heap w)(p \<mapsto> \<lparr>h_uiID = Some 0, h_iRefCount = 1\<rparr>)\<rparr>)) \<or>
    (\<exists>i c'. i < 0xfffff \<and> handle_create w p = Some (cc_id i (cc_iSequence c),
        w\<lparr>cc_center := Some c', cc_heap := (cc_heap w)(p \<mapsto> \<lparr>h_uiID = Some (cc_id i (cc_iSequence c)), h_iRefCount = 2\<rparr>)\<rparr>) \<and>
      cc_center_inv ((cc_heap w)(p \<mapsto> \<lparr>h_uiID = Some (cc_id i (cc_iSequence c)), h_iRefCount = 2\<rparr>)) c' \<and>
      entries ((cc_heap w)(p \<mapsto> \<lparr>h_uiID = Some (cc_id i (cc_iSequence c)), h_iRefCount = 2\<rparr>)) (cc_slots c') =
        (entries (cc_heap w) (cc_slots c))(cc_id i (cc_iSequence c) \<mapsto> p) \<and>
      entries (cc_heap w) (cc_slots c) (cc_id i (cc_iSequence c)) = None \<and>
      cc_iSequence c' = (if cc_iSequence c + 1 = 0x7ff then 1 else cc_iSequence c + 1))"
  (is "?full \<or> ?open")
proof (cases "sl_count (cc_slots c) = 0 \<and> sl_capacity (cc_slots c) = 0xfffff")
  case True
  then show ?thesis using assms(1) by (simp add: handle_create_def channelCenter_register_def)
next
  case False
  let ?hp = "cc_heap w" and ?q = "cc_iSequence c"
  obtain s where s: "s = (if sl_count (cc_slots c) = 0 then slots_grow (Some None) (cc_slots c) else cc_slots c)" by blast
  have i: "slots_inv (cc_slots c)" "slots_ok cc_good ?hp (cc_slots c)" "None \<notin> set (sl_slot (cc_slots c))"
    "1 \<le> ?q" "?q < 0x7ff" using assms(2) by (simp_all add: cc_center_inv_def)
  have u: "unlisted ?hp p" using assms(3) by (simp add: unlisted_def handle_getID_def)
  have s': "slots_inv s" "0 < sl_count s" "slots_ok cc_good ?hp s" "entries ?hp s = entries ?hp (cc_slots c)" "None \<notin> set (sl_slot s)"
    using i False slots_grow_inv [OF i(1), of "Some None"] entries_grow [OF i(1), of "Some None"]
    by (auto simp: s slots_grow_def Let_def split: if_splits)
  from slots_take_inv [OF s'(1,2), of p] obtain j s1 where
    t: "slots_take s p = Some (j, s1)" "slots_inv s1" "j < sl_capacity s" "\<nexists>q. sl_slot s ! j = Some (Some q)"
      "sl_slot s1 = (sl_slot s)[j := Some (Some p)]" "sl_capacity s1 = sl_capacity s" by blast
  have j: "Suc j \<le> 0xfffff" using s'(1) t(3) by (simp add: slots_inv_def)
  let ?h = "\<lparr>h_uiID = Some (cc_id j ?q), h_iRefCount = 2\<rparr>"
  note bits = cc_id_bits [OF j, of ?q]
  from entries_open [OF s'(3,1) t(3,4,5,6) u, of ?h "cc_id j ?q"] bits
  have o: "slots_ok cc_good (?hp(p \<mapsto> ?h)) s1" "entries (?hp(p \<mapsto> ?h)) s1 = (entries ?hp s)(cc_id j ?q \<mapsto> p)"
    "entries ?hp s (cc_id j ?q) = None" by simp_all
  let ?c = "\<lparr>cc_slots = s1, cc_iSequence = (if ?q + 1 = 0x7ff then 1 else ?q + 1)\<rparr>"
  have "handle_create w p = Some (cc_id j ?q, w\<lparr>cc_center := Some ?c, cc_heap := ?hp(p \<mapsto> ?h)\<rparr>)"
    using assms(1) False t(1) s
    by (cases "sl_count (cc_slots c) = 0") (simp_all add: handle_create_def channelCenter_register_def handle_addref_def cc_id_def Let_def)
  moreover have "None \<notin> set (sl_slot s1)"
    using s'(5) t(5) set_update_subset_insert [of "sl_slot s" j "Some (Some p)"] by auto
  then have "cc_center_inv (?hp(p \<mapsto> ?h)) ?c" using t(2) o(1) i(4,5) by (auto simp: cc_center_inv_def)
  ultimately show ?thesis using o(2,3) s'(4) j by (intro disjI2 exI [of _ j] exI [of _ ?c]) auto
qed

lemma entries_good:
  assumes "cc_center_inv hp c" "uiID AND 0x80000000 = 0"
  shows "entries hp (cc_slots c) uiID = None"
proof (cases "entries hp (cc_slots c) uiID")
  case (Some p)
  have i: "slots_inv (cc_slots c)" "slots_ok cc_good hp (cc_slots c)" using assms(1) by (simp_all add: cc_center_inv_def)
  from entries_some [OF Some i] assms(2) show ?thesis unfolding cc_good_def by blast
qed

lemma known_slot:
  assumes "cc_center_inv hp c" "uiID AND 0xfffff \<noteq> 0"
  shows "known_id (cc_slots c) uiID"
proof -
  obtain i where i: "id_index uiID = int i" using id_index_range [OF assms(2)] by metis
  have "sl_slot (cc_slots c) ! i \<noteq> None" if "i < sl_capacity (cc_slots c)"
  proof -
    have "None \<notin> set (sl_slot (cc_slots c))" "length (sl_slot (cc_slots c)) = sl_capacity (cc_slots c)"
      using assms(1) by (simp_all add: cc_center_inv_def slots_inv_def)
    with that nth_mem [of i "sl_slot (cc_slots c)"] show ?thesis by metis
  qed
  with i assms(2) show ?thesis by (simp add: known_id_def)
qed

lemma find_ok:
  assumes "cc_center_inv hp c" "uiID AND 0xfffff \<noteq> 0"
  shows "slots_find hp (cc_slots c) uiID = Some (entries hp (cc_slots c) uiID)"
proof (rule find_entries [OF _ _ known_slot [OF assms]])
  show "slots_ok cc_good hp (cc_slots c)" "slots_inv (cc_slots c)" using assms(1) by (simp_all add: cc_center_inv_def)
qed

lemma deregister_ok:
  assumes "cc_center w = Some c" "cc_center_inv (cc_heap w) c" "uiID AND 0xfffff \<noteq> 0"
  shows "\<exists>w' c'. channelCenter_deregister w uiID = Some (entries (cc_heap w) (cc_slots c) uiID \<noteq> None, w') \<and>
    cc_center w' = Some c' \<and> cc_center_inv (cc_heap w') c' \<and> cc_iSequence c' = cc_iSequence c \<and>
    entries (cc_heap w') (cc_slots c') = (entries (cc_heap w) (cc_slots c))(uiID := None)"
proof (cases "entries (cc_heap w) (cc_slots c) uiID")
  case None
  then have "channelCenter_deregister w uiID = Some (False, w)"
    using assms(1) find_ok [OF assms(2,3)] by (simp add: channelCenter_deregister_def)
  with None assms(1,2) show ?thesis by (intro exI [of _ w] exI [of _ c]) (auto simp: fun_eq_iff)
next
  case (Some p)
  have g: "uiID AND 0x80000000 \<noteq> 0" using Some entries_good [OF assms(2)] by auto
  from entries_close [OF _ _ Some, of cc_good] assms(2) obtain hp' s' where
    r: "handle_release (cc_heap w) p = Some hp'" "slots_drop (cc_slots c) (id_index uiID) = Some s'" "slots_inv s'"
      "slots_ok cc_good hp' s'" "entries hp' s' = (entries (cc_heap w) (cc_slots c))(uiID := None)"
    by (auto simp: cc_center_inv_def)
  have "None \<notin> set (sl_slot s')"
    using r(2) assms(2) set_update_subset_insert [of "sl_slot (cc_slots c)" "nat (id_index uiID)" "Some None"]
    by (auto simp: slots_drop_def cc_center_inv_def split: if_splits)
  moreover have "channelCenter_deregister w uiID = Some (True, w\<lparr>cc_center := Some (c\<lparr>cc_slots := s'\<rparr>), cc_heap := hp'\<rparr>)"
    using assms(1) find_ok [OF assms(2,3)] Some g r by (simp add: channelCenter_deregister_def)
  ultimately show ?thesis using Some r assms(2)
    by (intro exI [of _ "w\<lparr>cc_center := Some (c\<lparr>cc_slots := s'\<rparr>), cc_heap := hp'\<rparr>"] exI [of _ "c\<lparr>cc_slots := s'\<rparr>"])
      (auto simp: cc_center_inv_def)
qed

lemma gain_ok:
  assumes "cc_center w = Some c" "cc_center_inv (cc_heap w) c" "uiID AND 0xfffff \<noteq> 0"
  shows "\<exists>w'. channelCenter_gain w uiID = Some (entries (cc_heap w) (cc_slots c) uiID, w') \<and>
    cc_center w' = Some c \<and> cc_center_inv (cc_heap w') c \<and> entries (cc_heap w') (cc_slots c) = entries (cc_heap w) (cc_slots c) \<and>
    (\<forall>p. entries (cc_heap w) (cc_slots c) uiID = Some p \<longrightarrow> (\<exists>h. cc_heap w' p = Some h \<and> 2 \<le> h_iRefCount h))"
proof (cases "entries (cc_heap w) (cc_slots c) uiID")
  case None
  then have "channelCenter_gain w uiID = Some (None, w)"
    using assms(1) find_ok [OF assms(2,3)] by (simp add: channelCenter_gain_def)
  with None assms(1,2) show ?thesis by auto
next
  case (Some p)
  have g: "uiID AND 0x80000000 \<noteq> 0" using Some entries_good [OF assms(2)] by auto
  from assms(2) have i: "slots_inv (cc_slots c)" "slots_ok cc_good (cc_heap w) (cc_slots c)" by (simp_all add: cc_center_inv_def)
  from entries_some [OF Some i] obtain h where h: "cc_heap w p = Some h" "1 \<le> h_iRefCount h" by metis
  from entries_addref [OF i(2) h(1)] obtain hp' where
    r: "handle_addref (cc_heap w) p = Some hp'" "slots_ok cc_good hp' (cc_slots c)"
      "entries hp' (cc_slots c) = entries (cc_heap w) (cc_slots c)" "hp' p = Some (h\<lparr>h_iRefCount := h_iRefCount h + 1\<rparr>)" by blast
  have "channelCenter_gain w uiID = Some (Some p, w\<lparr>cc_heap := hp'\<rparr>)"
    using assms(1) find_ok [OF assms(2,3)] Some g r by (simp add: channelCenter_gain_def)
  with Some r h assms(1,2) show ?thesis
    by (intro exI [of _ "w\<lparr>cc_heap := hp'\<rparr>"]) (auto simp: cc_center_inv_def)
qed

interpretation cc: handle_table cc_open channelCenter_deregister channelCenter_gain cc_fresh cc_known cc_inv cc_entries
proof
  fix w p assume "cc_inv w" "cc_fresh w p"
  then obtain c where c: "cc_center w = Some c" "cc_center_inv (cc_heap w) c" "cc_heap w p = None"
    by (auto simp: cc_inv_def cc_fresh_def)
  from register_ok [OF c] show "\<exists>r w'. cc_open w p = Some (r, w') \<and> cc_inv w' \<and>
      (case r of None \<Rightarrow> cc_entries w' = cc_entries w
       | Some i \<Rightarrow> cc_entries w i = None \<and> cc_known w' i \<and> cc_entries w' = (cc_entries w)(i \<mapsto> p))"
  proof (elim disjE exE conjE)
    fix i :: nat and c' assume "i < 0xfffff"
    then have i: "Suc i \<le> 0xfffff" by simp
    have "cc_id i (cc_iSequence c) AND 0xfffff \<noteq> 0"
      using cc_id_bits(1) [OF i] i by (simp add: word_unat_eq_iff unat_of_nat del: of_nat_Suc)
    moreover assume "handle_create w p = Some (cc_id i (cc_iSequence c),
        w\<lparr>cc_center := Some c', cc_heap := (cc_heap w)(p \<mapsto> \<lparr>h_uiID = Some (cc_id i (cc_iSequence c)), h_iRefCount = 2\<rparr>)\<rparr>)"
      "cc_center_inv ((cc_heap w)(p \<mapsto> \<lparr>h_uiID = Some (cc_id i (cc_iSequence c)), h_iRefCount = 2\<rparr>)) c'"
      "entries ((cc_heap w)(p \<mapsto> \<lparr>h_uiID = Some (cc_id i (cc_iSequence c)), h_iRefCount = 2\<rparr>)) (cc_slots c') =
        (entries (cc_heap w) (cc_slots c))(cc_id i (cc_iSequence c) \<mapsto> p)"
      "entries (cc_heap w) (cc_slots c) (cc_id i (cc_iSequence c)) = None"
    ultimately show ?thesis using c(1) cc_id_bits(3) [OF i] by (simp add: cc_open_def cc_inv_def cc_entries_def cc_known_def)
  next
    let ?h = "\<lparr>h_uiID = Some (0 :: u32), h_iRefCount = 1 :: int\<rparr>"
    assume "handle_create w p = Some (0, w\<lparr>cc_heap := (cc_heap w)(p \<mapsto> ?h)\<rparr>)"
    moreover have "cc_center_inv ((cc_heap w)(p \<mapsto> ?h)) c \<and>
        entries ((cc_heap w)(p \<mapsto> ?h)) (cc_slots c) = entries (cc_heap w) (cc_slots c)"
      using fresh_other [of cc_good "cc_heap w" "cc_slots c" p ?h] c(2,3)
      by (simp add: cc_center_inv_def unlisted_def handle_getID_def)
    ultimately show ?thesis using c(1) by (simp add: cc_open_def cc_inv_def cc_entries_def)
  qed
next
  fix w i assume "cc_inv w" "cc_known w i"
  then obtain c where c: "cc_center w = Some c" "cc_center_inv (cc_heap w) c" "i AND 0xfffff \<noteq> 0"
    by (auto simp: cc_inv_def cc_known_def)
  from deregister_ok [OF c] c show "\<exists>w'. channelCenter_deregister w i = Some (cc_entries w i \<noteq> None, w') \<and> cc_inv w' \<and>
      cc_entries w' = (cc_entries w)(i := None)" by (auto simp: cc_entries_def cc_inv_def)
  from gain_ok [OF c] c show "\<exists>w'. channelCenter_gain w i = Some (cc_entries w i, w') \<and> cc_inv w' \<and>
      cc_entries w' = cc_entries w" by (auto simp: cc_entries_def cc_inv_def)
qed

lemma cc_init_inv: "cc_center w = None \<Longrightarrow> cc_inv (channelCenter_init w) \<and> cc_entries (channelCenter_init w) = Map.empty"
proof
  assume w: "cc_center w = None"
  have "slots_ok cc_good (cc_heap w) slots_init" by (auto simp: slots_ok_def slots_init_def)
  then show "cc_inv (channelCenter_init w)"
    using w slots_init_inv by (simp add: cc_inv_def channelCenter_init_def cc_center_inv_def slots_init_def)
  show "cc_entries (channelCenter_init w) = Map.empty"
    using w by (auto simp: cc_entries_def channelCenter_init_def entries_def slots_init_def fun_eq_iff)
qed

abbreviation cc_run :: "cc_world \<Rightarrow> (u32, nat) table_event list \<Rightarrow> cc_world \<Rightarrow> bool" where
  "cc_run \<equiv> table_run cc_open channelCenter_deregister channelCenter_gain cc_fresh cc_known"

text \<open>C16: Whatever sequence of registrations (of new channels), deregistrations and look-ups follows
  \<open>channelCenter_init\<close>, growing the slots included, the answers are those of a map from ids to channels, a new
  id being one that names no channel; and no operation on an id with a non-zero slot number is undefined.\<close>

theorem channelCenter_refines_map:
  assumes "cc_center w0 = None" "cc_run (channelCenter_init w0) es w"
  shows "map_answers Map.empty es = Some (cc_entries w) \<and>
    (cc_heap w p = None \<longrightarrow> handle_create w p \<noteq> None) \<and>
    (uiID AND 0xfffff \<noteq> 0 \<longrightarrow> channelCenter_deregister w uiID \<noteq> None \<and> channelCenter_gain w uiID \<noteq> None)"
proof -
  note i = cc_init_inv [OF assms(1)]
  from cc.run_map [OF assms(2)] i have r: "cc_inv w" "map_answers Map.empty es = Some (cc_entries w)" by simp_all
  with cc.progress [OF r(1), of p uiID] show ?thesis by (auto simp: cc_fresh_def cc_known_def cc_open_def)
qed

text \<open>The first channel of a center.\<close>

abbreviation cc_empty :: cc_world where
  "cc_empty \<equiv> \<lparr>cc_center = None, cc_heap = Map.empty\<rparr>"

lemma first_open: "\<exists>x w1. cc_open (channelCenter_init cc_empty) p = Some (Some x, w1)"
proof -
  let ?w = "channelCenter_init cc_empty"
  have "cc_inv ?w" using cc_init_inv [of cc_empty] by simp
  then obtain c where c: "cc_center ?w = Some c" "cc_center_inv (cc_heap ?w) c" by (auto simp: cc_inv_def)
  then have "sl_count (cc_slots c) \<noteq> 0" by (auto simp: channelCenter_init_def slots_init_def)
  with register_ok [OF c, of p] obtain i v where "i < 0xfffff" "handle_create ?w p = Some (cc_id i (cc_iSequence c), v)"
    by (auto simp: channelCenter_init_def)
  with cc_id_bits(3) [of i] show ?thesis by (simp add: cc_open_def)
qed

text \<open>A run that opens a channel, closes it, and looks for it.\<close>

lemma some_run:
  obtains x w1 w2 where "cc_open (channelCenter_init cc_empty) 7 = Some (Some x, w1)" "cc_inv w1"
    "cc_run w1 [Closed x True, Found x None] w2"
    "cc_run (channelCenter_init cc_empty) [Opened (Some x) 7, Closed x True, Found x None] w2" "cc_heap w2 8 = None"
proof -
  let ?w = "channelCenter_init cc_empty"
  have i: "cc_inv ?w" "cc_fresh ?w 7" "cc_heap ?w 8 = None" using cc_init_inv [of cc_empty]
    by (simp_all add: cc_fresh_def channelCenter_init_def)
  from first_open obtain x w1 where o: "cc_open ?w 7 = Some (Some x, w1)" by blast
  with cc.opn_law [OF i(1,2)] have l: "cc_inv w1" "cc_known w1 x" "cc_entries w1 = (cc_entries ?w)(x \<mapsto> 7)" by auto
  from cc.cls_law [OF l(1,2)] l(3) obtain v where
    v: "channelCenter_deregister w1 x = Some (True, v)" "cc_inv v" "cc_entries v x = None" by auto
  moreover from l(2) have k: "cc_known v x" by (simp add: cc_known_def)
  ultimately obtain w2 where w2: "channelCenter_gain v x = Some (None, w2)" using cc.fnd_law [OF v(2) k] by auto
  have h: "handle_release h q = Some h' \<Longrightarrow> h 8 = None \<Longrightarrow> h' 8 = None"
    "handle_addref h q = Some h' \<Longrightarrow> h 8 = None \<Longrightarrow> h' 8 = None" for h h' :: heap and q
    by (auto simp: handle_release_def handle_addref_def split: if_splits)
  have "cc_heap w1 8 = None"
    using o i(3) by (auto simp: cc_open_def handle_create_def channelCenter_register_def Let_def channelCenter_init_def
      handle_addref_def split: option.splits if_splits bind_splits)
  then have "cc_heap v 8 = None"
    using v(1) by (auto simp: channelCenter_deregister_def split: option.splits if_splits bind_splits dest: h)
  then have "cc_heap w2 8 = None"
    using w2 by (auto simp: channelCenter_gain_def split: option.splits if_splits bind_splits dest: h)
  moreover have "cc_run w1 [Closed x True, Found x None] w2"
    using l(2) v(1) k w2 by (blast intro: table_run.intros)
  moreover from i(2) o this have "cc_run ?w [Opened (Some x) 7, Closed x True, Found x None] w2"
    by (blast intro: run_open)
  ultimately show ?thesis using that o l(1) by blast
qed

lemma channelCenter_refines_map_witness:
  "\<exists>x w. map_answers Map.empty [Opened (Some x) 7, Closed x True, Found x None] = Some (cc_entries w) \<and>
    handle_create w 8 \<noteq> None \<and> channelCenter_gain w 0x80100001 \<noteq> None"
proof -
  obtain x w1 w2 where r: "cc_run (channelCenter_init cc_empty) [Opened (Some x) 7, Closed x True, Found x None] w2" "cc_heap w2 8 = None"
    by (rule some_run)
  have "cc_center cc_empty = None" "(0x80100001 :: u32) AND 0xfffff \<noteq> 0" by simp_all
  with channelCenter_refines_map [OF this(1) r(1), of 8 "0x80100001"] r(2) show ?thesis by blast
qed

section \<open>Stale ids\<close>

text \<open>The sequence number in an id, and the one that comes \<open>n\<close> registrations after \<open>q\<close>.\<close>

definition cc_seq :: "u32 \<Rightarrow> nat" where
  "cc_seq uiID = unat (drop_bit 20 uiID AND 0x7ff)"

definition seq_at :: "nat \<Rightarrow> nat \<Rightarrow> nat" where
  "seq_at q n = (q + n - 1) mod 2046 + 1"

fun opens :: "('i, 'h) table_event list \<Rightarrow> nat" where
  "opens [] = 0"
| "opens (Opened (Some i) h # es) = Suc (opens es)"
| "opens (e # es) = opens es"

lemma opens_append [simp]: "opens (es @ es') = opens es + opens es'"
  by (induction es rule: opens.induct) simp_all

lemma seq_at_Suc: "1 \<le> q \<Longrightarrow> (if seq_at q n + 1 = 0x7ff then 1 else seq_at q n + 1) = seq_at q (Suc n)"
proof -
  assume "1 \<le> q"
  then obtain k where "q = Suc k" by (cases q) auto
  then show ?thesis by (simp add: seq_at_def mod_Suc)
qed

lemma seq_at_0: "1 \<le> q \<Longrightarrow> q < 0x7ff \<Longrightarrow> seq_at q 0 = q"
  by (simp add: seq_at_def)

lemma seq_at_neq:
  assumes "1 \<le> q" "0 < n" "n < 2046"
  shows "seq_at q n \<noteq> seq_at q 0"
proof
  assume "seq_at q n = seq_at q 0"
  then have "(q - 1 + n) mod 2046 = (q - 1) mod 2046" using assms(1) by (simp add: seq_at_def)
  then have "2046 dvd (q - 1 + n) - (q - 1)" by (metis le_add1 mod_eq_dvd_iff_nat)
  with assms(2,3) show False by (auto dest: dvd_imp_le)
qed

lemma cc_seq_id:
  assumes "Suc i \<le> 0xfffff" "q < 0x7ff"
  shows "cc_seq (cc_id i q) = q"
proof -
  have m: "(0x7ff :: u32) = mask 11" by (simp add: mask_eq_exp_minus_1)
  have low: "drop_bit 20 (of_nat (i + 1) :: u32) = 0"
    using assms(1) by (simp add: drop_bit_eq_div word_unat_eq_iff unat_div_distrib unat_of_nat del: of_nat_Suc)
  have "drop_bit 20 (push_bit 20 (of_nat q :: u32)) = of_nat q"
    using assms(2) by (simp add: drop_bit_eq_div push_bit_eq_mult word_unat_eq_iff unat_div_distrib unat_word_ariths unat_of_nat)
  with low have "drop_bit 20 (cc_id i q) AND 0x7ff = (0x800 OR of_nat q) AND 0x7ff"
    by (simp add: cc_id_def drop_bit_or)
  also have "\<dots> = of_nat q AND 0x7ff" by (simp add: bit.conj_disj_distrib2)
  also have "\<dots> = of_nat q"
    using assms(2) unfolding m by (simp flip: take_bit_eq_mask add: take_bit_of_nat take_bit_nat_eq_self)
  finally show ?thesis using assms(2) by (simp add: cc_seq_def unat_of_nat)
qed

text \<open>Every id opened in a run carries the sequence number of its position.\<close>

abbreviation cc_at :: "cc_world \<Rightarrow> nat \<Rightarrow> nat \<Rightarrow> bool" where
  "cc_at w q n \<equiv> cc_inv w \<and> (\<exists>c. cc_center w = Some c \<and> cc_iSequence c = seq_at q n)"

lemma open_seq:
  assumes "cc_at w q n" "cc_fresh w p" "cc_open w p = Some (r, w')" "1 \<le> q"
  shows "case r of None \<Rightarrow> cc_at w' q n | Some x \<Rightarrow> cc_seq x = seq_at q n \<and> cc_at w' q (Suc n)"
proof -
  from assms(1,2) obtain c where c: "cc_center w = Some c" "cc_center_inv (cc_heap w) c" "cc_heap w p = None"
    "cc_iSequence c = seq_at q n" by (auto simp: cc_inv_def cc_fresh_def)
  from cc.opn_law [of w p] assms(1,2,3) have inv: "cc_inv w'" by auto
  from register_ok [OF c(1-3)] show ?thesis
  proof (elim disjE exE conjE)
    fix i c' assume i: "i < 0xfffff"
      and o: "handle_create w p = Some (cc_id i (cc_iSequence c),
        w\<lparr>cc_center := Some c', cc_heap := (cc_heap w)(p \<mapsto> \<lparr>h_uiID = Some (cc_id i (cc_iSequence c)), h_iRefCount = 2\<rparr>)\<rparr>)"
      and s: "cc_iSequence c' = (if cc_iSequence c + 1 = 0x7ff then 1 else cc_iSequence c + 1)"
    from i have i: "Suc i \<le> 0xfffff" by simp
    have "cc_iSequence c < 0x7ff" using c(2) by (simp add: cc_center_inv_def)
    with cc_seq_id [OF i this] o assms(3) cc_id_bits(3) [OF i] inv s seq_at_Suc [OF assms(4), of n] c(4)
    show ?thesis by (auto simp: cc_open_def)
  next
    assume "handle_create w p = Some (0, w\<lparr>cc_heap := (cc_heap w)(p \<mapsto> \<lparr>h_uiID = Some 0, h_iRefCount = 1\<rparr>)\<rparr>)"
    with assms(3) inv c(1,4) show ?thesis by (auto simp: cc_open_def)
  qed
qed

lemma run_seq:
  assumes "cc_run w es w'" "cc_at w q n" "1 \<le> q"
  shows "cc_at w' q (n + opens es) \<and>
    (\<forall>y h. Opened (Some y) h \<in> set es \<longrightarrow> (\<exists>m. n \<le> m \<and> m < n + opens es \<and> cc_seq y = seq_at q m))"
  using assms(1,2)
proof (induction arbitrary: n rule: table_run.induct)
  case (run_open w h r w' es w'')
  from open_seq [OF run_open.prems run_open.hyps(1,2) assms(3)] show ?case
  proof (cases r)
    case None
    with open_seq [OF run_open.prems run_open.hyps(1,2) assms(3)] run_open.IH [of n] show ?thesis by auto
  next
    case (Some x)
    with open_seq [OF run_open.prems run_open.hyps(1,2) assms(3)]
    have x: "cc_seq x = seq_at q n" "cc_at w' q (Suc n)" by simp_all
    from run_open.IH [OF x(2)] have IH: "cc_at w'' q (Suc n + opens es)"
      "\<And>y h. Opened (Some y) h \<in> set es \<Longrightarrow> \<exists>m. Suc n \<le> m \<and> m < Suc n + opens es \<and> cc_seq y = seq_at q m" by blast+
    show ?thesis
    proof (intro conjI allI impI)
      fix y k assume "Opened (Some y) k \<in> set (Opened r h # es)"
      then consider "y = x" | "Opened (Some y) k \<in> set es" using Some by auto
      then show "\<exists>m \<ge> n. m < n + opens (Opened r h # es) \<and> cc_seq y = seq_at q m"
      proof cases
        case 1
        with x(1) Some show ?thesis by (intro exI [of _ n]) simp
      next
        case 2
        from IH(2) [OF 2] obtain m where "Suc n \<le> m" "m < Suc n + opens es" "cc_seq y = seq_at q m" by blast
        with Some show ?thesis by (intro exI [of _ m]) simp
      qed
    qed (use IH(1) Some in auto)
  qed
next
  case (run_close w i b w' es w'')
  from run_close.prems run_close.hyps(1) obtain c where c: "cc_center w = Some c" "cc_center_inv (cc_heap w) c"
    "i AND 0xfffff \<noteq> 0" "cc_iSequence c = seq_at q n" by (auto simp: cc_inv_def cc_known_def)
  from deregister_ok [OF c(1-3)] run_close.hyps(2) c(4) have "cc_at w' q n" by (auto simp: cc_inv_def)
  with run_close.IH show ?case by auto
next
  case (run_find w i r w' es w'')
  from run_find.prems run_find.hyps(1) obtain c where c: "cc_center w = Some c" "cc_center_inv (cc_heap w) c"
    "i AND 0xfffff \<noteq> 0" "cc_iSequence c = seq_at q n" by (auto simp: cc_inv_def cc_known_def)
  from gain_ok [OF c(1-3)] run_find.hyps(2) c(4) have "cc_at w' q n" by (auto simp: cc_inv_def)
  with run_find.IH show ?case by auto
qed simp

text \<open>C33: A stale id: once a channel is deregistered, its id finds no channel (and closes none), whatever happens,
  while fewer than 2046 channels are registered after it.\<close>

theorem channelCenter_stale_id:
  assumes "cc_center w0 = None"
    and "cc_run (channelCenter_init w0) (before @ Opened (Some x) p # mid @ Closed x True # after) w"
    and "opens (mid @ after) < 2046"
  shows "Found x (Some q) \<notin> set after \<and> Closed x True \<notin> set after"
proof -
  from assms(2) obtain w1 w2 where r: "cc_run (channelCenter_init w0) before w1"
    "cc_fresh w1 p" "cc_open w1 p = Some (Some x, w2)" "cc_run w2 (mid @ Closed x True # after) w"
    by (auto simp: table_run_append table_run_Opened)
  from cc.run_map [OF r(1)] cc_init_inv [OF assms(1)] have i1: "cc_inv w1" by blast
  then obtain c where c: "cc_center w1 = Some c" "1 \<le> cc_iSequence c" "cc_iSequence c < 0x7ff"
    by (auto simp: cc_inv_def cc_center_inv_def)
  let ?q = "cc_iSequence c"
  have "cc_at w1 ?q 0" using i1 c seq_at_0 by auto
  from open_seq [OF this r(2,3) c(2)] have x: "cc_seq x = seq_at ?q 0" "cc_at w2 ?q 1" by simp_all
  have no: "Opened (Some x) h \<notin> set (mid @ Closed x True # after)" for h
  proof
    assume "Opened (Some x) h \<in> set (mid @ Closed x True # after)"
    with run_seq [OF r(4) x(2) c(2)] obtain m where m: "1 \<le> m" "m < 1 + opens (mid @ Closed x True # after)" "cc_seq x = seq_at ?q m"
      by blast
    moreover have "opens (mid @ Closed x True # after) = opens (mid @ after)" by (simp add: opens_append)
    ultimately show False using seq_at_neq [OF c(2), of m] x(1) assms(3) by simp
  qed
  from cc.run_map [OF r(4)] x(2) obtain m where "map_answers m (mid @ Closed x True # after) \<noteq> None" by auto
  with no show ?thesis using closed_stays [of m mid x after] by auto
qed

lemma channelCenter_stale_id_witness: "\<exists>x w. Found x (Some 7) \<notin> set [Found x None] \<and> cc_run (channelCenter_init cc_empty) [Opened (Some x) 7, Closed x True, Found x None] w"
proof -
  obtain x w1 w2 where r: "cc_run (channelCenter_init cc_empty) [Opened (Some x) 7, Closed x True, Found x None] w2"
    by (rule some_run)
  have "cc_center cc_empty = None" "opens ([] @ [Found x None]) < 2046" by simp_all
  from channelCenter_stale_id [OF this(1) _ this(2), where x = x and before = "[]" and p = 7 and q = 7] r show ?thesis by auto
qed

section \<open>Listing, clearing, and undefined look-ups\<close>

lemma slots_ids_eq:
  "None \<notin> set qs \<Longrightarrow> (\<And>p. Some (Some p) \<in> set qs \<Longrightarrow> handle_getID hp p \<noteq> None) \<Longrightarrow>
   slots_ids hp qs = Some (map (\<lambda>i. the (handle_getID hp (the (the (qs ! i))))) (filter (\<lambda>i. qs ! i \<noteq> Some None) [0..<length qs]))"
proof (induction hp qs rule: slots_ids.induct)
  case (3 hp qs)
  then show ?case by (simp add: upt_conv_Cons filter_map comp_def map_Suc_upt [symmetric] del: upt_Suc)
next
  case (4 hp p qs)
  then obtain x where "handle_getID hp p = Some x" by force
  with 4 show ?case by (simp add: upt_conv_Cons filter_map comp_def map_Suc_upt [symmetric] del: upt_Suc)
qed simp_all

lemma used_count:
  assumes "slots_inv s"
  shows "card {i. i < sl_capacity s \<and> (\<exists>p. sl_slot s ! i = Some (Some p))} = sl_capacity s - sl_count s"
proof -
  from assms obtain fs where fs: "take (sl_count s) (sl_index s) = map Some fs" "distinct fs"
      "set fs = {i. i < sl_capacity s \<and> (\<nexists>p. sl_slot s ! i = Some (Some p))}"
    and l: "length (sl_index s) = sl_capacity s" "sl_count s \<le> sl_capacity s"
    by (auto simp: slots_inv_def)
  have "length fs = sl_count s" using fs(1) l by (metis length_map length_take min_absorb2)
  then have "card (set fs) = sl_count s" using fs(2) by (simp add: distinct_card)
  moreover have "{i. i < sl_capacity s \<and> (\<exists>p. sl_slot s ! i = Some (Some p))} = {..<sl_capacity s} - set fs"
    using fs(3) by auto
  moreover have "set fs \<subseteq> {..<sl_capacity s}" using fs(3) by auto
  ultimately show ?thesis by (simp add: card_Diff_subset)
qed

lemma used_ids:
  assumes "cc_center_inv hp c"
  shows "\<exists>ids. slots_ids hp (sl_slot (cc_slots c)) = Some ids \<and> distinct ids \<and> set ids = dom (entries hp (cc_slots c)) \<and>
    length ids = sl_capacity (cc_slots c) - sl_count (cc_slots c)"
proof -
  let ?s = "cc_slots c" and ?qs = "sl_slot (cc_slots c)"
  have i: "slots_inv ?s" "slots_ok cc_good hp ?s" "None \<notin> set ?qs" "length ?qs = sl_capacity ?s"
    using assms by (simp_all add: cc_center_inv_def slots_inv_def)
  let ?used = "filter (\<lambda>i. ?qs ! i \<noteq> Some None) [0..<length ?qs]"
  let ?id = "\<lambda>i. the (handle_getID hp (the (the (?qs ! i))))"
  have used: "set ?used = {i. i < sl_capacity ?s \<and> (\<exists>p. ?qs ! i = Some (Some p))}"
  proof -
    have "(?qs ! i \<noteq> Some None) = (\<exists>p. ?qs ! i = Some (Some p))" if "i < sl_capacity ?s" for i
    proof -
      have "?qs ! i \<noteq> None" using that i(3,4) nth_mem [of i ?qs] by metis
      then show ?thesis by (metis option.exhaust option.inject option.distinct(1))
    qed
    then show ?thesis using i(4) by auto
  qed
  have at: "handle_getID hp p = Some (?id i) \<and> ?id i AND 0xfffff = of_nat (Suc i)"
    if "i < sl_capacity ?s" "?qs ! i = Some (Some p)" for i p
    using slots_okE [OF i(2) that] that(2) by (metis option.sel)
  have "slots_ids hp ?qs = Some (map ?id ?used)"
  proof (rule slots_ids_eq [OF i(3)])
    fix p assume "Some (Some p) \<in> set ?qs"
    then obtain j where "j < length ?qs" "?qs ! j = Some (Some p)" by (auto simp: in_set_conv_nth)
    with at [of j p] i(4) show "handle_getID hp p \<noteq> None" by (metis option.distinct(1))
  qed
  moreover have "inj_on ?id (set ?used)"
  proof (rule inj_onI)
    fix j k assume jk: "j \<in> set ?used" "k \<in> set ?used" "?id j = ?id k"
    then obtain p q where pq: "j < sl_capacity ?s" "?qs ! j = Some (Some p)" "k < sl_capacity ?s" "?qs ! k = Some (Some q)"
      unfolding used by auto
    with at [OF pq(1,2)] at [OF pq(3,4)] jk(3) have "(of_nat (Suc j) :: u32) = of_nat (Suc k)" by metis
    then have "unat (of_nat (Suc j) :: u32) = unat (of_nat (Suc k) :: u32)" by simp
    with pq(1,3) i(1) show "j = k" by (simp add: unat_of_nat slots_inv_def del: of_nat_Suc)
  qed
  then have "distinct (map ?id ?used)" by (simp add: distinct_map)
  moreover have "length (map ?id ?used) = sl_capacity ?s - sl_count ?s"
    using used_count [OF i(1)] distinct_card [of ?used] unfolding used by simp
  moreover have "set (map ?id ?used) = dom (entries hp ?s)"
  proof (intro set_eqI iffI)
    fix x assume "x \<in> set (map ?id ?used)"
    then obtain j where "j \<in> set ?used" "x = ?id j" by auto
    then obtain p where j: "j < sl_capacity ?s" "?qs ! j = Some (Some p)" "x = ?id j" unfolding used by auto
    with at [OF j(1,2)] i(1) have x: "handle_getID hp p = Some x" "id_index x = int j"
      using id_index_eq [of x j] by (auto simp: slots_inv_def)
    with j show "x \<in> dom (entries hp ?s)" by (simp add: entries_def dom_def)
  next
    fix x assume "x \<in> dom (entries hp ?s)"
    then obtain p where "entries hp ?s x = Some p" by auto
    from entries_some [OF this i(1,2)] obtain j h where j: "j < sl_capacity ?s" "?qs ! j = Some (Some p)"
      "hp p = Some h" "h_uiID h = Some x" by metis
    then have "?id j = x" by (simp add: handle_getID_def)
    moreover have "j \<in> set ?used" unfolding used using j by blast
    ultimately show "x \<in> set (map ?id ?used)" by force
  qed
  ultimately show ?thesis by blast
qed

text \<open>\<open>channelCenter_getIds\<close> returns each registered id exactly once, and the count of them.\<close>

theorem channelCenter_getIds_all:
  assumes "cc_center w0 = None" "cc_run (channelCenter_init w0) es w"
  shows "\<exists>ids. channelCenter_getIds w = Some (ids, int (length ids)) \<and> distinct ids \<and> set ids = dom (cc_entries w)"
proof -
  from cc.run_map [OF assms(2)] cc_init_inv [OF assms(1)] obtain c where
    c: "cc_center w = Some c" "cc_center_inv (cc_heap w) c" by (auto simp: cc_inv_def)
  from used_ids [OF c(2)] obtain ids where ids: "slots_ids (cc_heap w) (sl_slot (cc_slots c)) = Some ids" "distinct ids"
    "set ids = dom (entries (cc_heap w) (cc_slots c))" "length ids = sl_capacity (cc_slots c) - sl_count (cc_slots c)" by blast
  have "sl_count (cc_slots c) \<le> sl_capacity (cc_slots c)" using c(2) by (simp add: cc_center_inv_def slots_inv_def)
  then have n: "int (sl_capacity (cc_slots c)) - int (sl_count (cc_slots c)) = int (length ids)" using ids(4) by simp
  have "channelCenter_getIds w = Some (ids, int (length ids))"
    using c(1) ids(1) unfolding channelCenter_getIds_def by (cases ids) (simp_all add: n Let_def)
  with ids c(1) show ?thesis by (intro exI [of _ ids]) (simp add: cc_entries_def)
qed

lemma channelCenter_getIds_all_witness:
  "\<exists>w ids. channelCenter_getIds w = Some (ids, int (length ids)) \<and> distinct ids \<and> set ids = dom (cc_entries w) \<and>
    cc_run (channelCenter_init cc_empty) [] w"
proof -
  have "cc_center cc_empty = None" "cc_run (channelCenter_init cc_empty) [] (channelCenter_init cc_empty)" by simp_all
  from channelCenter_getIds_all [OF this] this(2) show ?thesis by blast
qed

text \<open>Looking up or closing an id is undefined exactly when it has the mark of a channel and slot number 0, where
  both functions read the slot before the array; every other id, garbage included, is answered.\<close>

theorem channelCenter_undefined_ids:
  assumes "cc_inv w"
  shows "(channelCenter_gain w uiID = None \<longleftrightarrow> uiID AND 0x80000000 \<noteq> 0 \<and> uiID AND 0xfffff = 0) \<and>
    (channelCenter_deregister w uiID = None \<longleftrightarrow> uiID AND 0x80000000 \<noteq> 0 \<and> uiID AND 0xfffff = 0)"
proof (cases "uiID AND 0xfffff = 0")
  case True
  from assms obtain c where c: "cc_center w = Some c" "cc_center_inv (cc_heap w) c" by (auto simp: cc_inv_def)
  have "id_index uiID = - 1" using True by (simp add: id_index_def)
  then have "slots_find (cc_heap w) (cc_slots c) uiID = None"
    by (simp add: slots_find_def slots_read_def)
  with True c(1) show ?thesis by (simp add: channelCenter_gain_def channelCenter_deregister_def)
next
  case False
  with cc.progress [OF assms, of 0 uiID] show ?thesis by (auto simp: cc_known_def)
qed

lemma channelCenter_undefined_ids_witness: "channelCenter_gain (channelCenter_init cc_empty) 0xfff00000 = None"
proof -
  have "cc_inv (channelCenter_init cc_empty)" using cc_init_inv [of cc_empty] by simp
  from channelCenter_undefined_ids [OF this, of "0xfff00000"] show ?thesis by simp
qed

text \<open>\<open>channelCenter_clear\<close> drops the center and releases no channel: the loop that deregisters runs after the static
  pointer is NULL, so the references that the center held are lost.\<close>

theorem channelCenter_clear_releases_nothing:
  assumes "cc_inv w"
  shows "channelCenter_clear w = Some (w\<lparr>cc_center := None\<rparr>)"
proof -
  from assms obtain c where c: "cc_center w = Some c" "cc_center_inv (cc_heap w) c" by (auto simp: cc_inv_def)
  have d: "channelCenter_deregister v i = Some (False, v)" if "cc_center v = None" for v i
    using that by (simp add: channelCenter_deregister_def)
  have all: "deregister_all v qs = Some v"
    if "cc_center v = None" "slots_ids (cc_heap v) qs \<noteq> None" for v qs
    using that(2)
  proof (induction qs)
    case (Cons q qs)
    then show ?case using d [OF that(1)] by (cases "(cc_heap v, q # qs)" rule: slots_ids.cases) (auto split: bind_splits)
  qed simp
  from used_ids [OF c(2)] have "slots_ids (cc_heap w) (sl_slot (cc_slots c)) \<noteq> None" by auto
  with all [of "w\<lparr>cc_center := None\<rparr>"] c(1) show ?thesis by (simp add: channelCenter_clear_def)
qed

lemma channelCenter_clear_releases_nothing_witness:
  "\<exists>w. cc_inv w \<and> channelCenter_clear w = Some (w\<lparr>cc_center := None\<rparr>)"
proof -
  obtain x w1 w2 where "cc_inv w1" by (rule some_run)
  with channelCenter_clear_releases_nothing [OF this] show ?thesis by blast
qed

end
