(* ===== verification/ServiceCenter.thy ===== *)
theory ServiceCenter
  imports HandleSlots
begin

text \<open>
  The registry of services and of their names, \<open>service/source/serviceCenter_t.c\<close>.  Each function runs under
  the lock of the center, so it is one step.  The red-black tree of names is its nodes in the order of the tree,
  and a C string is its bytes without the final zero.
\<close>

section \<open>Names\<close>

text \<open>\<open>strcmp\<close>: the first bytes that differ, as unsigned characters, decide.\<close>

fun strcmp :: "bytes \<Rightarrow> bytes \<Rightarrow> int" where
  "strcmp [] [] = 0"
| "strcmp [] (b # bs) = - 1"
| "strcmp (a # as) [] = 1"
| "strcmp (a # as) (b # bs) = (if a = b then strcmp as bs else if a < b then - 1 else 1)"

record service_name =
  nm_szName :: bytes
  nm_uiServiceID :: u32

definition serviceNameNodeCmp :: "service_name \<Rightarrow> service_name \<Rightarrow> int" where
  "serviceNameNodeCmp pNode1 pNode2 =
     (let iRet = strcmp (nm_szName pNode1) (nm_szName pNode2) in
      if iRet < 0 then - 1 else if iRet > 0 then 1 else 0)"

text \<open>\<open>RB_INSERT\<close> gives back the node that compares equal, if there is one (\<open>None\<close> here), \<open>RB_FIND\<close> the node.\<close>

fun names_insert :: "service_name \<Rightarrow> service_name list \<Rightarrow> service_name list option" where
  "names_insert x [] = Some [x]"
| "names_insert x (y # ys) =
     (let c = serviceNameNodeCmp x y in
      if c < 0 then Some (x # y # ys) else if c > 0 then map_option ((#) y) (names_insert x ys) else None)"

fun names_find :: "service_name \<Rightarrow> service_name list \<Rightarrow> service_name option" where
  "names_find x [] = None"
| "names_find x (y # ys) =
     (let c = serviceNameNodeCmp x y in
      if c < 0 then None else if c > 0 then names_find x ys else Some y)"

text \<open>The loop of \<open>serviceCenter_removeName\<close>: the first node in the order of the tree with the id.\<close>

fun names_remove :: "u32 \<Rightarrow> service_name list \<Rightarrow> service_name list option" where
  "names_remove uiServiceID [] = None"
| "names_remove uiServiceID (y # ys) =
     (if nm_uiServiceID y = uiServiceID then Some ys else map_option ((#) y) (names_remove uiServiceID ys))"

section \<open>The center\<close>

record serviceCenter =
  sc_iServerNodeId :: u32
  sc_uiServerNodeMask :: u32
  sc_slots :: slots
  sc_serviceNameTree :: "service_name list"

text \<open>The static pointer, the heap of services, and how many copies of names are allocated.\<close>

record sc_world =
  sc_center :: "serviceCenter option"
  sc_heap :: heap
  sc_strings :: nat

definition serviceCenter_init :: "u32 \<Rightarrow> sc_world \<Rightarrow> sc_world" where
  "serviceCenter_init iServerNodeId w =
     (case sc_center w of
        None \<Rightarrow> w\<lparr>sc_center := Some \<lparr>sc_iServerNodeId = iServerNodeId,
          sc_uiServerNodeMask = push_bit 20 (iServerNodeId AND 0x7ff),
          sc_slots = slots_init, sc_serviceNameTree = []\<rparr>\<rparr>
      | Some _ \<Rightarrow> w)"

text \<open>Growing leaves the new slots uninitialised.\<close>

definition serviceCenter_register :: "sc_world \<Rightarrow> nat \<Rightarrow> (u32 \<times> sc_world) option" where
  "serviceCenter_register w pServiceHandle =
     (case sc_center w of
        None \<Rightarrow> Some (0, w)
      | Some c \<Rightarrow>
          if sl_count (sc_slots c) = 0 \<and> sl_capacity (sc_slots c) = 0xfffff then Some (0, w)
          else do {
            let s = (if sl_count (sc_slots c) = 0 then slots_grow None (sc_slots c) else sc_slots c);
            (iIndex, s) \<leftarrow> slots_take s pServiceHandle;
            hp \<leftarrow> handle_addref (sc_heap w) pServiceHandle;
            Some (sc_uiServerNodeMask c OR of_nat (iIndex + 1),
                  w\<lparr>sc_center := Some (c\<lparr>sc_slots := s\<rparr>), sc_heap := hp\<rparr>) })"

definition serviceCenter_removeName :: "sc_world \<Rightarrow> u32 \<Rightarrow> bool \<times> sc_world" where
  "serviceCenter_removeName w uiServiceID =
     (if uiServiceID = 0 then (False, w)
      else case sc_center w of
        None \<Rightarrow> (False, w)
      | Some c \<Rightarrow>
          (case names_remove uiServiceID (sc_serviceNameTree c) of
             None \<Rightarrow> (False, w)
           | Some t \<Rightarrow> (True, w\<lparr>sc_center := Some (c\<lparr>sc_serviceNameTree := t\<rparr>), sc_strings := sc_strings w - 1\<rparr>)))"

definition serviceCenter_deregister :: "sc_world \<Rightarrow> u32 \<Rightarrow> (bool \<times> sc_world) option" where
  "serviceCenter_deregister w uiServiceID =
     (if uiServiceID = 0 then Some (False, w)
      else case sc_center w of
        None \<Rightarrow> Some (False, w)
      | Some c \<Rightarrow>
          if uiServiceID AND sc_uiServerNodeMask c = 0 then Some (False, w)
          else do {
            r \<leftarrow> slots_find (sc_heap w) (sc_slots c) uiServiceID;
            case r of
              None \<Rightarrow> Some (False, w)
            | Some p \<Rightarrow> do {
                let (_, w) = serviceCenter_removeName w uiServiceID;
                c \<leftarrow> sc_center w;
                hp \<leftarrow> handle_release (sc_heap w) p;
                s \<leftarrow> slots_drop (sc_slots c) (id_index uiServiceID);
                Some (True, w\<lparr>sc_center := Some (c\<lparr>sc_slots := s\<rparr>), sc_heap := hp\<rparr>) } })"

fun service_deregister_all :: "sc_world \<Rightarrow> nat option option list \<Rightarrow> sc_world option" where
  "service_deregister_all w [] = Some w"
| "service_deregister_all w (None # qs) = None"
| "service_deregister_all w (Some None # qs) = service_deregister_all w qs"
| "service_deregister_all w (Some (Some p) # qs) = do {
     i \<leftarrow> handle_getID (sc_heap w) p;
     (_, w) \<leftarrow> serviceCenter_deregister w i;
     service_deregister_all w qs }"

definition serviceCenter_clear :: "sc_world \<Rightarrow> sc_world option" where
  "serviceCenter_clear w =
     (case sc_center w of
        None \<Rightarrow> Some w
      | Some c \<Rightarrow> service_deregister_all (w\<lparr>sc_center := None\<rparr>) (sl_slot (sc_slots c)))"

definition serviceCenter_gain :: "sc_world \<Rightarrow> u32 \<Rightarrow> (nat option \<times> sc_world) option" where
  "serviceCenter_gain w uiServiceID =
     (if uiServiceID = 0 then Some (None, w)
      else case sc_center w of
        None \<Rightarrow> Some (None, w)
      | Some c \<Rightarrow>
          if uiServiceID AND sc_uiServerNodeMask c = 0 then Some (None, w)
          else do {
            r \<leftarrow> slots_find (sc_heap w) (sc_slots c) uiServiceID;
            case r of
              None \<Rightarrow> Some (None, w)
            | Some p \<Rightarrow> do {
                hp \<leftarrow> handle_addref (sc_heap w) p;
                Some (Some p, w\<lparr>sc_heap := hp\<rparr>) } })"

text \<open>The copy of the name is made before the insertion, which may fail; then only the node is freed.\<close>

definition serviceCenter_bindName :: "sc_world \<Rightarrow> u32 \<Rightarrow> bytes \<Rightarrow> bool \<times> sc_world" where
  "serviceCenter_bindName w uiServiceID szName =
     (if uiServiceID AND 0x80000000 \<noteq> 0 then (False, w)
      else case sc_center w of
        None \<Rightarrow> (False, w)
      | Some c \<Rightarrow>
          if uiServiceID AND sc_uiServerNodeMask c = 0 then (False, w)
          else
            let w = w\<lparr>sc_strings := sc_strings w + 1\<rparr> in
            (case names_insert \<lparr>nm_szName = szName, nm_uiServiceID = uiServiceID\<rparr> (sc_serviceNameTree c) of
               Some t \<Rightarrow> (True, w\<lparr>sc_center := Some (c\<lparr>sc_serviceNameTree := t\<rparr>)\<rparr>)
             | None \<Rightarrow> (False, w)))"

definition serviceCenter_unbindName :: "sc_world \<Rightarrow> u32 \<Rightarrow> bool \<times> sc_world" where
  "serviceCenter_unbindName w uiServiceID =
     (if uiServiceID = 0 then (False, w)
      else case sc_center w of
        None \<Rightarrow> (False, w)
      | Some c \<Rightarrow> serviceCenter_removeName w uiServiceID)"

definition serviceCenter_findServiceID :: "sc_world \<Rightarrow> bytes \<Rightarrow> u32" where
  "serviceCenter_findServiceID w szName =
     (case sc_center w of
        None \<Rightarrow> 0
      | Some c \<Rightarrow>
          (case names_find \<lparr>nm_szName = szName, nm_uiServiceID = 0\<rparr> (sc_serviceNameTree c) of
             None \<Rightarrow> 0
           | Some pNode \<Rightarrow> nm_uiServiceID pNode))"

text \<open>The line of \<open>service_start\<close> that registers the service and stores its id.\<close>

definition service_register :: "sc_world \<Rightarrow> nat \<Rightarrow> (u32 \<times> sc_world) option" where
  "service_register w pService = do {
     (uiID, w) \<leftarrow> serviceCenter_register w pService;
     h \<leftarrow> sc_heap w pService;
     Some (uiID, w\<lparr>sc_heap := (sc_heap w)(pService \<mapsto> h\<lparr>h_uiID := Some uiID\<rparr>)\<rparr>) }"

section \<open>The registry as a map\<close>

definition sc_good :: "u32 \<Rightarrow> u32 \<Rightarrow> bool" where
  "sc_good m uiID \<longleftrightarrow> m \<noteq> 0 \<and> uiID AND NOT 0xfffff = m"

definition sc_center_inv :: "heap \<Rightarrow> serviceCenter \<Rightarrow> bool" where
  "sc_center_inv hp c \<longleftrightarrow> slots_inv (sc_slots c) \<and> slots_ok (sc_good (sc_uiServerNodeMask c)) hp (sc_slots c) \<and>
     sc_uiServerNodeMask c \<noteq> 0 \<and> sc_uiServerNodeMask c AND 0xfffff = 0"

definition sc_inv :: "sc_world \<Rightarrow> bool" where
  "sc_inv w \<longleftrightarrow> (\<exists>c. sc_center w = Some c \<and> sc_center_inv (sc_heap w) c)"

definition sc_entries :: "sc_world \<Rightarrow> u32 \<Rightarrow> nat option" where
  "sc_entries w = (case sc_center w of None \<Rightarrow> Map.empty | Some c \<Rightarrow> entries (sc_heap w) (sc_slots c))"

text \<open>A service that is created and not registered has the id 0.\<close>

definition sc_fresh :: "sc_world \<Rightarrow> nat \<Rightarrow> bool" where
  "sc_fresh w p \<longleftrightarrow> (\<exists>h. sc_heap w p = Some h \<and> h_uiID h = Some 0 \<and> 1 \<le> h_iRefCount h)"

text \<open>Ids whose look-up reads no slot, or one that was used before or is among the first 64.\<close>

definition sc_known :: "sc_world \<Rightarrow> u32 \<Rightarrow> bool" where
  "sc_known w uiID \<longleftrightarrow> uiID = 0 \<or>
     (\<forall>c. sc_center w = Some c \<longrightarrow> uiID AND sc_uiServerNodeMask c = 0 \<or> known_id (sc_slots c) uiID)"

definition sc_open :: "sc_world \<Rightarrow> nat \<Rightarrow> (u32 option \<times> sc_world) option" where
  "sc_open w p = map_option (\<lambda>(uiID, w). (if uiID = 0 then None else Some uiID, w)) (service_register w p)"

definition sc_id :: "u32 \<Rightarrow> nat \<Rightarrow> u32" where
  "sc_id m i = m OR of_nat (i + 1)"

lemma sc_id_bits:
  assumes "Suc i \<le> 0xfffff" "m \<noteq> 0" "m AND 0xfffff = 0"
  shows "sc_id m i AND 0xfffff = of_nat (Suc i)" "sc_good m (sc_id m i)" "sc_id m i \<noteq> 0"
proof -
  show "sc_id m i AND 0xfffff = of_nat (Suc i)"
    using small_and_mask [OF assms(1)] assms(3) by (simp add: sc_id_def bit.conj_disj_distrib2)
  have "(of_nat (i + 1) :: u32) AND NOT 0xfffff = (of_nat (i + 1) AND 0xfffff) AND NOT 0xfffff"
    using small_and_mask [OF assms(1)] by simp
  moreover have "m AND NOT 0xfffff = m"
  proof -
    have "m AND NOT 0xfffff = (m AND 0xfffff) OR (m AND NOT 0xfffff)" using assms(3) by simp
    also have "\<dots> = m" by (simp flip: bit.conj_disj_distrib)
    finally show ?thesis .
  qed
  ultimately have "sc_id m i AND NOT 0xfffff = m"
    by (simp add: sc_id_def bit.conj_disj_distrib2 ac_simps)
  then show "sc_good m (sc_id m i)" "sc_id m i \<noteq> 0" using assms(2) by (auto simp: sc_good_def)
qed

lemma sc_good_mask: "sc_good m uiID \<Longrightarrow> uiID \<noteq> 0 \<and> uiID AND m \<noteq> 0"
  by (auto simp: sc_good_def simp flip: and.assoc)

lemma sc_good_id:
  assumes "sc_good m uiID" "uiID AND 0xfffff = of_nat (Suc i)"
  shows "uiID = sc_id m i"
proof -
  have "uiID = (uiID AND NOT 0xfffff) OR (uiID AND 0xfffff)" by (simp flip: bit.conj_disj_distrib)
  with assms show ?thesis by (simp add: sc_good_def sc_id_def)
qed

lemma sc_register_ok:
  assumes "sc_center w = Some c" "sc_center_inv (sc_heap w) c" "sc_fresh w p"
  shows "(sl_count (sc_slots c) = 0 \<and> sl_capacity (sc_slots c) = 0xfffff \<and> service_register w p = Some (0, w)) \<or>
    (\<exists>i c' h. i < 0xfffff \<and> service_register w p = Some (sc_id (sc_uiServerNodeMask c) i,
        w\<lparr>sc_center := Some c', sc_heap := (sc_heap w)(p \<mapsto> h)\<rparr>) \<and>
      sc_center_inv ((sc_heap w)(p \<mapsto> h)) c' \<and> sc_serviceNameTree c' = sc_serviceNameTree c \<and>
      sc_uiServerNodeMask c' = sc_uiServerNodeMask c \<and>
      entries ((sc_heap w)(p \<mapsto> h)) (sc_slots c') = (entries (sc_heap w) (sc_slots c))(sc_id (sc_uiServerNodeMask c) i \<mapsto> p) \<and>
      entries (sc_heap w) (sc_slots c) (sc_id (sc_uiServerNodeMask c) i) = None \<and>
      known_id (sc_slots c') (sc_id (sc_uiServerNodeMask c) i))"
  (is "?full \<or> ?open")
proof -
  let ?hp = "sc_heap w" and ?m = "sc_uiServerNodeMask c"
  from assms(3) obtain h where h: "?hp p = Some h" "h_uiID h = Some 0" "1 \<le> h_iRefCount h" by (auto simp: sc_fresh_def)
  then have u: "unlisted ?hp p" by (simp add: unlisted_def handle_getID_def)
  show ?thesis
  proof (cases "sl_count (sc_slots c) = 0 \<and> sl_capacity (sc_slots c) = 0xfffff")
    case True
    have "?hp(p \<mapsto> h\<lparr>h_uiID := Some 0\<rparr>) = ?hp" using h(1,2) by (cases h) (auto simp: fun_eq_iff)
    then show ?thesis using assms(1) True h(1)
      by (cases w) (auto simp: service_register_def serviceCenter_register_def)
  next
    case False
    obtain s where s: "s = (if sl_count (sc_slots c) = 0 then slots_grow None (sc_slots c) else sc_slots c)" by blast
    have i: "slots_inv (sc_slots c)" "slots_ok (sc_good ?m) ?hp (sc_slots c)" "?m \<noteq> 0" "?m AND 0xfffff = 0"
      using assms(2) by (simp_all add: sc_center_inv_def)
    have s': "slots_inv s" "0 < sl_count s" "slots_ok (sc_good ?m) ?hp s" "entries ?hp s = entries ?hp (sc_slots c)"
      using i False slots_grow_inv [OF i(1), of None] entries_grow [OF i(1), of None] by (auto simp: s split: if_splits)
    from slots_take_inv [OF s'(1,2), of p] obtain j s1 where
      t: "slots_take s p = Some (j, s1)" "slots_inv s1" "j < sl_capacity s" "\<nexists>q. sl_slot s ! j = Some (Some q)"
        "sl_slot s1 = (sl_slot s)[j := Some (Some p)]" "sl_capacity s1 = sl_capacity s" by blast
    have j: "Suc j \<le> 0xfffff" using s'(1) t(3) by (simp add: slots_inv_def)
    let ?h = "h\<lparr>h_iRefCount := h_iRefCount h + 1, h_uiID := Some (sc_id ?m j)\<rparr>"
    note bits = sc_id_bits [OF j i(3,4)]
    from entries_open [OF s'(3,1) t(3,4,5,6) u, of ?h "sc_id ?m j"] bits h(3)
    have o: "slots_ok (sc_good ?m) (?hp(p \<mapsto> ?h)) s1" "entries (?hp(p \<mapsto> ?h)) s1 = (entries ?hp s)(sc_id ?m j \<mapsto> p)"
      "entries ?hp s (sc_id ?m j) = None" "known_id s1 (sc_id ?m j)" by simp_all
    have "service_register w p = Some (sc_id ?m j, w\<lparr>sc_center := Some (c\<lparr>sc_slots := s1\<rparr>), sc_heap := ?hp(p \<mapsto> ?h)\<rparr>)"
      using assms(1) False t(1) s h(1)
      by (cases "sl_count (sc_slots c) = 0")
        (simp_all add: service_register_def serviceCenter_register_def handle_addref_def sc_id_def Let_def)
    moreover have "sc_center_inv (?hp(p \<mapsto> ?h)) (c\<lparr>sc_slots := s1\<rparr>)"
      using t(2) o(1) i(3,4) by (simp add: sc_center_inv_def)
    ultimately have ?open using o(2,3,4) s'(4) j
      by (intro exI [of _ j] exI [of _ "c\<lparr>sc_slots := s1\<rparr>"] exI [of _ ?h]) auto
    then show ?thesis ..
  qed
qed

lemma sc_find_ok:
  assumes "sc_center_inv hp c" "known_id (sc_slots c) uiID"
  shows "slots_find hp (sc_slots c) uiID = Some (entries hp (sc_slots c) uiID)"
proof (rule find_entries [OF _ _ assms(2)])
  show "slots_ok (sc_good (sc_uiServerNodeMask c)) hp (sc_slots c)" "slots_inv (sc_slots c)"
    using assms(1) by (simp_all add: sc_center_inv_def)
qed

lemma sc_entries_good:
  assumes "sc_center_inv hp c" "entries hp (sc_slots c) uiID = Some p"
  shows "uiID \<noteq> 0" "uiID AND sc_uiServerNodeMask c \<noteq> 0"
proof -
  have i: "slots_inv (sc_slots c)" "slots_ok (sc_good (sc_uiServerNodeMask c)) hp (sc_slots c)"
    using assms(1) by (simp_all add: sc_center_inv_def)
  from entries_some [OF assms(2) i] have "sc_good (sc_uiServerNodeMask c) uiID" by blast
  then show "uiID \<noteq> 0" "uiID AND sc_uiServerNodeMask c \<noteq> 0" by (simp_all add: sc_good_mask)
qed

lemma sc_deregister_ok:
  assumes "sc_center w = Some c" "sc_center_inv (sc_heap w) c" "sc_known w uiID"
  shows "\<exists>w' c'. serviceCenter_deregister w uiID = Some (entries (sc_heap w) (sc_slots c) uiID \<noteq> None, w') \<and>
    sc_center w' = Some c' \<and> sc_center_inv (sc_heap w') c' \<and>
    entries (sc_heap w') (sc_slots c') = (entries (sc_heap w) (sc_slots c))(uiID := None) \<and>
    sc_serviceNameTree c' = (if entries (sc_heap w) (sc_slots c) uiID = None then sc_serviceNameTree c
      else case names_remove uiID (sc_serviceNameTree c) of None \<Rightarrow> sc_serviceNameTree c | Some t \<Rightarrow> t)"
proof (cases "entries (sc_heap w) (sc_slots c) uiID")
  case None
  then have "serviceCenter_deregister w uiID = Some (False, w)"
    using assms(1,3) sc_find_ok [OF assms(2)] by (auto simp: serviceCenter_deregister_def sc_known_def)
  with None assms(1,2) show ?thesis by (intro exI [of _ w] exI [of _ c]) (auto simp: fun_eq_iff)
next
  case (Some p)
  note g = sc_entries_good [OF assms(2) Some]
  from assms(2) have i: "slots_ok (sc_good (sc_uiServerNodeMask c)) (sc_heap w) (sc_slots c)" "slots_inv (sc_slots c)"
    by (simp_all add: sc_center_inv_def)
  from entries_close [OF i Some] obtain hp' s' where
    r: "handle_release (sc_heap w) p = Some hp'" "slots_drop (sc_slots c) (id_index uiID) = Some s'" "slots_inv s'"
      "slots_ok (sc_good (sc_uiServerNodeMask c)) hp' s'" "entries hp' s' = (entries (sc_heap w) (sc_slots c))(uiID := None)"
    by blast
  have k: "known_id (sc_slots c) uiID" using assms(1,3) g by (auto simp: sc_known_def)
  let ?t = "case names_remove uiID (sc_serviceNameTree c) of None \<Rightarrow> sc_serviceNameTree c | Some t \<Rightarrow> t"
  have "\<exists>n. serviceCenter_deregister w uiID =
      Some (True, w\<lparr>sc_center := Some (c\<lparr>sc_slots := s', sc_serviceNameTree := ?t\<rparr>), sc_heap := hp', sc_strings := n\<rparr>)"
    using assms(1) sc_find_ok [OF assms(2) k] Some g r
    by (cases w, cases c, cases "names_remove uiID (sc_serviceNameTree c)")
      (auto simp: serviceCenter_deregister_def serviceCenter_removeName_def)
  then obtain n where "serviceCenter_deregister w uiID =
      Some (True, w\<lparr>sc_center := Some (c\<lparr>sc_slots := s', sc_serviceNameTree := ?t\<rparr>), sc_heap := hp', sc_strings := n\<rparr>)" ..
  with Some r assms(2) show ?thesis by (auto simp: sc_center_inv_def)
qed

lemma sc_gain_ok:
  assumes "sc_center w = Some c" "sc_center_inv (sc_heap w) c" "sc_known w uiID"
  shows "\<exists>w'. serviceCenter_gain w uiID = Some (entries (sc_heap w) (sc_slots c) uiID, w') \<and>
    sc_center w' = Some c \<and> sc_center_inv (sc_heap w') c \<and> entries (sc_heap w') (sc_slots c) = entries (sc_heap w) (sc_slots c)"
proof (cases "entries (sc_heap w) (sc_slots c) uiID")
  case None
  then have "serviceCenter_gain w uiID = Some (None, w)"
    using assms(1,3) sc_find_ok [OF assms(2)] by (auto simp: serviceCenter_gain_def sc_known_def)
  with None assms(1,2) show ?thesis by auto
next
  case (Some p)
  note g = sc_entries_good [OF assms(2) Some]
  from assms(2) have i: "slots_inv (sc_slots c)" "slots_ok (sc_good (sc_uiServerNodeMask c)) (sc_heap w) (sc_slots c)"
    by (simp_all add: sc_center_inv_def)
  from entries_some [OF Some i] obtain h where h: "sc_heap w p = Some h" by metis
  from entries_addref [OF i(2) h] obtain hp' where
    r: "handle_addref (sc_heap w) p = Some hp'" "slots_ok (sc_good (sc_uiServerNodeMask c)) hp' (sc_slots c)"
      "entries hp' (sc_slots c) = entries (sc_heap w) (sc_slots c)" by blast
  have k: "known_id (sc_slots c) uiID" using assms(1,3) g by (auto simp: sc_known_def)
  have "serviceCenter_gain w uiID = Some (Some p, w\<lparr>sc_heap := hp'\<rparr>)"
    using assms(1) sc_find_ok [OF assms(2) k] Some g r by (simp add: serviceCenter_gain_def)
  with Some r assms(1,2) show ?thesis
    by (intro exI [of _ "w\<lparr>sc_heap := hp'\<rparr>"]) (auto simp: sc_center_inv_def)
qed

interpretation sc: handle_table sc_open serviceCenter_deregister serviceCenter_gain sc_fresh sc_known sc_inv sc_entries
proof
  fix w p assume a: "sc_inv w" "sc_fresh w p"
  then obtain c where c: "sc_center w = Some c" "sc_center_inv (sc_heap w) c" by (auto simp: sc_inv_def)
  then have m: "sc_uiServerNodeMask c \<noteq> 0" "sc_uiServerNodeMask c AND 0xfffff = 0" by (simp_all add: sc_center_inv_def)
  from sc_register_ok [OF c a(2)] show "\<exists>r w'. sc_open w p = Some (r, w') \<and> sc_inv w' \<and>
      (case r of None \<Rightarrow> sc_entries w' = sc_entries w
       | Some i \<Rightarrow> sc_entries w i = None \<and> sc_known w' i \<and> sc_entries w' = (sc_entries w)(i \<mapsto> p))"
  proof (elim disjE exE conjE)
    fix i :: nat and c' h assume i: "i < 0xfffff"
      and o: "service_register w p = Some (sc_id (sc_uiServerNodeMask c) i, w\<lparr>sc_center := Some c', sc_heap := (sc_heap w)(p \<mapsto> h)\<rparr>)"
        "sc_center_inv ((sc_heap w)(p \<mapsto> h)) c'"
        "entries ((sc_heap w)(p \<mapsto> h)) (sc_slots c') = (entries (sc_heap w) (sc_slots c))(sc_id (sc_uiServerNodeMask c) i \<mapsto> p)"
        "entries (sc_heap w) (sc_slots c) (sc_id (sc_uiServerNodeMask c) i) = None"
        "known_id (sc_slots c') (sc_id (sc_uiServerNodeMask c) i)"
    from i have "Suc i \<le> 0xfffff" by simp
    from sc_id_bits(3) [OF this m] o c(1) show ?thesis
      by (simp add: sc_open_def sc_inv_def sc_entries_def sc_known_def)
  next
    assume "service_register w p = Some (0, w)"
    with a(1) show ?thesis by (simp add: sc_open_def)
  qed
next
  fix w i assume "sc_inv w" and k: "sc_known w i"
  then obtain c where c: "sc_center w = Some c" "sc_center_inv (sc_heap w) c" by (auto simp: sc_inv_def)
  from sc_deregister_ok [OF c k] c show "\<exists>w'. serviceCenter_deregister w i = Some (sc_entries w i \<noteq> None, w') \<and> sc_inv w' \<and>
      sc_entries w' = (sc_entries w)(i := None)" by (auto simp: sc_entries_def sc_inv_def)
  from sc_gain_ok [OF c k] c show "\<exists>w'. serviceCenter_gain w i = Some (sc_entries w i, w') \<and> sc_inv w' \<and>
      sc_entries w' = sc_entries w" by (auto simp: sc_entries_def sc_inv_def)
qed

lemma sc_init_inv:
  assumes "sc_center w = None" "iServerNodeId AND 0x7ff \<noteq> 0"
  shows "sc_inv (serviceCenter_init iServerNodeId w)" "sc_entries (serviceCenter_init iServerNodeId w) = Map.empty"
proof -
  let ?m = "push_bit 20 (iServerNodeId AND 0x7ff) :: u32"
  have "?m AND 0xfffff = 0" unfolding mask20 by (simp flip: take_bit_eq_mask add: take_bit_push_bit)
  moreover have "?m \<noteq> 0"
  proof -
    have "iServerNodeId AND 0x7ff \<le> 0x7ff" using word_and_le1 [where y = iServerNodeId and a = "0x7ff"] by (simp add: and.commute)
    then have "unat (iServerNodeId AND 0x7ff) \<le> 0x7ff" by (simp add: word_le_nat_alt)
    moreover have "unat (iServerNodeId AND 0x7ff) \<noteq> 0" using assms(2) by (simp add: unat_eq_0)
    ultimately have "unat ?m = unat (iServerNodeId AND 0x7ff) * 0x100000"
      by (simp add: push_bit_eq_mult unat_word_ariths)
    with \<open>unat (iServerNodeId AND 0x7ff) \<noteq> 0\<close> show ?thesis by (metis mult_is_0 unat_0 zero_neq_numeral)
  qed
  moreover have "slots_ok (sc_good ?m) (sc_heap w) slots_init" by (auto simp: slots_ok_def slots_init_def)
  ultimately show "sc_inv (serviceCenter_init iServerNodeId w)"
    using assms(1) slots_init_inv by (simp add: sc_inv_def serviceCenter_init_def sc_center_inv_def)
  show "sc_entries (serviceCenter_init iServerNodeId w) = Map.empty"
    using assms(1) by (auto simp: sc_entries_def serviceCenter_init_def entries_def slots_init_def fun_eq_iff)
qed

abbreviation sc_run :: "sc_world \<Rightarrow> (u32, nat) table_event list \<Rightarrow> sc_world \<Rightarrow> bool" where
  "sc_run \<equiv> table_run sc_open serviceCenter_deregister serviceCenter_gain sc_fresh sc_known"

text \<open>C17: For a server whose node id is not a multiple of 2048, the answers to any sequence of registrations (of new
  services), and of deregistrations and look-ups of ids whose slot was written before, are those of a map from ids to services, a new id naming no service at the
  time; and no such operation is undefined.  (Other ids name slots that growing allocated and nobody wrote, or none; see \<open>serviceCenter_undefined\<close>.)\<close>

theorem serviceCenter_refines_map:
  assumes "sc_center w0 = None" "iServerNodeId AND 0x7ff \<noteq> 0" "sc_run (serviceCenter_init iServerNodeId w0) es w"
  shows "map_answers Map.empty es = Some (sc_entries w) \<and>
    (sc_fresh w p \<longrightarrow> service_register w p \<noteq> None) \<and>
    (sc_known w uiID \<longrightarrow> serviceCenter_deregister w uiID \<noteq> None \<and> serviceCenter_gain w uiID \<noteq> None)"
proof -
  from sc.run_map [OF assms(3)] sc_init_inv [OF assms(1,2)]
  have r: "sc_inv w" "map_answers Map.empty es = Some (sc_entries w)" by simp_all
  with sc.progress [OF r(1), of p uiID] show ?thesis by (auto simp: sc_open_def)
qed

text \<open>A center of node 1 and two services that are created and not registered.\<close>

abbreviation sc_two :: sc_world where
  "sc_two \<equiv> serviceCenter_init 1
    \<lparr>sc_center = None, sc_heap = [5 \<mapsto> \<lparr>h_uiID = Some 0, h_iRefCount = 1\<rparr>, 6 \<mapsto> \<lparr>h_uiID = Some 0, h_iRefCount = 1\<rparr>], sc_strings = 0\<rparr>"

lemma sc_two: "sc_inv sc_two" "sc_fresh sc_two 5" "sc_fresh sc_two 6" "\<exists>c. sc_center sc_two = Some c \<and> sc_serviceNameTree c = []"
proof -
  show "sc_inv sc_two" by (rule sc_init_inv(1)) simp_all
qed (simp_all add: sc_fresh_def serviceCenter_init_def)

lemma first_register:
  assumes "sc_inv w" "sc_fresh w p" "sc_center w = Some c" "sl_count (sc_slots c) \<noteq> 0"
  obtains x w' c' h where "sc_open w p = Some (Some x, w')" "service_register w p = Some (x, w')" "sc_entries w' = (sc_entries w)(x \<mapsto> p)"
    "sc_known w' x" "sc_inv w'" "sc_center w' = Some c'" "sc_serviceNameTree c' = sc_serviceNameTree c"
    "sc_heap w' = (sc_heap w)(p \<mapsto> h)" "sc_strings w' = sc_strings w" "x AND 0x80000000 = 0 \<or> sc_uiServerNodeMask c AND 0x80000000 \<noteq> 0"
proof -
  have c: "sc_center_inv (sc_heap w) c" using assms(1,3) by (auto simp: sc_inv_def)
  then have m: "sc_uiServerNodeMask c \<noteq> 0" "sc_uiServerNodeMask c AND 0xfffff = 0" by (simp_all add: sc_center_inv_def)
  from sc_register_ok [OF assms(3) c assms(2)] assms(4) obtain i c' h where
    i: "i < 0xfffff" and r: "service_register w p = Some (sc_id (sc_uiServerNodeMask c) i, w\<lparr>sc_center := Some c', sc_heap := (sc_heap w)(p \<mapsto> h)\<rparr>)"
      "sc_serviceNameTree c' = sc_serviceNameTree c" by blast
  let ?x = "sc_id (sc_uiServerNodeMask c) i"
  from i have i: "Suc i \<le> 0xfffff" by simp
  have o: "sc_open w p = Some (Some ?x, w\<lparr>sc_center := Some c', sc_heap := (sc_heap w)(p \<mapsto> h)\<rparr>)"
    using r(1) sc_id_bits(3) [OF i m] by (simp add: sc_open_def)
  have "of_nat (i + 1) AND (0x80000000 :: u32) = (of_nat (i + 1) AND 0xfffff) AND 0x80000000"
    using small_and_mask [OF i] by simp
  also have "\<dots> = 0" by (simp add: and.assoc)
  finally have "?x AND 0x80000000 = sc_uiServerNodeMask c AND 0x80000000" by (simp add: sc_id_def bit.conj_disj_distrib2)
  with sc.opn_law [OF assms(1,2)] o r that show ?thesis by auto
qed

lemma serviceCenter_refines_map_witness:
  "\<exists>x w. map_answers Map.empty [Opened (Some x) 5, Found x (Some 5), Closed x True] = Some (sc_entries w) \<and>
    serviceCenter_gain w 0 \<noteq> None"
proof -
  from sc_two obtain c where c: "sc_center sc_two = Some c" by blast
  then have "sl_count (sc_slots c) \<noteq> 0" by (auto simp: serviceCenter_init_def slots_init_def)
  from first_register [OF sc_two(1,2) c this] obtain x w1 where
    o: "sc_open sc_two 5 = Some (Some x, w1)" "sc_entries w1 = (sc_entries sc_two)(x \<mapsto> 5)" "sc_known w1 x" "sc_inv w1" by metis
  from sc.fnd_law [OF o(4,3)] o(2) obtain w2 where
    f: "serviceCenter_gain w1 x = Some (Some 5, w2)" "sc_inv w2" "sc_entries w2 = sc_entries w1" by auto
  have k: "sc_known w2 x"
    using o(3) f(1) by (auto simp: serviceCenter_gain_def sc_known_def split: option.splits if_splits bind_splits)
  from sc.cls_law [OF f(2) k] f(3) o(2) obtain w3 where "serviceCenter_deregister w2 x = Some (True, w3)" by auto
  with o(1,3) f(1) k sc_two(2) have "sc_run sc_two [Opened (Some x) 5, Found x (Some 5), Closed x True] w3"
    by (blast intro: table_run.intros)
  note run = this
  have start: "sc_center \<lparr>sc_center = None, sc_heap = [5 \<mapsto> \<lparr>h_uiID = Some 0, h_iRefCount = 1\<rparr>, 6 \<mapsto> \<lparr>h_uiID = Some 0, h_iRefCount = 1\<rparr>], sc_strings = 0\<rparr> = None"
    and n: "(1 :: u32) AND 0x7ff \<noteq> 0" by simp_all
  have "sc_known w3 0" by (simp add: sc_known_def)
  with serviceCenter_refines_map [OF start n run, of 0 0] show ?thesis by (intro exI [of _ x] exI [of _ w3]) blast
qed

section \<open>Undefined look-ups\<close>

lemma sc_unknown:
  assumes "sc_inv w" "\<not> sc_known w uiID"
  shows "serviceCenter_gain w uiID = None" "serviceCenter_deregister w uiID = None"
proof -
  from assms(1) obtain c where c: "sc_center w = Some c" by (auto simp: sc_inv_def)
  have undef: "slots_find (sc_heap w) (sc_slots c) uiID = None"
  proof (cases "uiID AND 0xfffff = 0")
    case True
    then have "id_index uiID = - 1" by (simp add: id_index_def)
    then show ?thesis by (simp add: slots_find_def slots_read_def)
  next
    case False
    with assms(2) c have "id_index uiID < int (sl_capacity (sc_slots c))" "sl_slot (sc_slots c) ! nat (id_index uiID) = None"
      by (auto simp: sc_known_def known_id_def)
    then show ?thesis by (simp add: slots_find_def slots_read_def)
  qed
  have "uiID \<noteq> 0 \<and> uiID AND sc_uiServerNodeMask c \<noteq> 0"
    using assms(2) c by (auto simp: sc_known_def)
  with undef c show "serviceCenter_gain w uiID = None" "serviceCenter_deregister w uiID = None"
    by (simp_all add: serviceCenter_gain_def serviceCenter_deregister_def)
qed

text \<open>On a center with a node id, a look-up or a deregistration is undefined exactly for the ids that share a bit
  with the node and name slot number 0 or a slot that growing allocated and nothing has written yet; and clearing the
  center is undefined exactly while there is such a slot, and otherwise releases no service.\<close>

theorem serviceCenter_undefined:
  assumes "sc_inv w" "sc_center w = Some c"
  shows "(serviceCenter_gain w uiID = None \<longleftrightarrow> \<not> sc_known w uiID) \<and>
    (serviceCenter_deregister w uiID = None \<longleftrightarrow> \<not> sc_known w uiID) \<and>
    serviceCenter_clear w = (if None \<in> set (sl_slot (sc_slots c)) then None else Some (w\<lparr>sc_center := None\<rparr>))"
proof (intro conjI)
  have c: "sc_center_inv (sc_heap w) c" using assms by (auto simp: sc_inv_def)
  then have i: "slots_inv (sc_slots c)" "slots_ok (sc_good (sc_uiServerNodeMask c)) (sc_heap w) (sc_slots c)"
    by (simp_all add: sc_center_inv_def)
  from sc_unknown [OF assms(1), of uiID] sc.progress [OF assms(1), of 0 uiID]
  show "serviceCenter_gain w uiID = None \<longleftrightarrow> \<not> sc_known w uiID"
    "serviceCenter_deregister w uiID = None \<longleftrightarrow> \<not> sc_known w uiID" by blast+
  have d: "serviceCenter_deregister v i = Some (False, v)" if "sc_center v = None" for v i
    using that by (simp add: serviceCenter_deregister_def)
  have all: "service_deregister_all v qs = (if None \<in> set qs then None else Some v)"
    if "sc_center v = None" "\<And>p. Some (Some p) \<in> set qs \<Longrightarrow> handle_getID (sc_heap v) p \<noteq> None" for v qs
    using that(2)
  proof (induction qs)
    case (Cons q qs)
    then have IH: "service_deregister_all v qs = (if None \<in> set qs then None else Some v)" by simp
    show ?case
    proof (cases "(v, q # qs)" rule: service_deregister_all.cases)
      case (4 w p qs')
      with Cons.prems [of p] obtain i where "handle_getID (sc_heap v) p = Some i" by auto
      with 4 IH d [OF that(1)] show ?thesis by simp
    qed (use IH in simp_all)
  qed simp
  have "handle_getID (sc_heap w) p \<noteq> None" if p: "Some (Some p) \<in> set (sl_slot (sc_slots c))" for p
  proof -
    from p i(1) obtain j where "j < sl_capacity (sc_slots c)" "sl_slot (sc_slots c) ! j = Some (Some p)"
      by (auto simp: in_set_conv_nth slots_inv_def)
    from slots_okE [OF i(2) this] show ?thesis by (metis option.distinct(1))
  qed
  with all [of "w\<lparr>sc_center := None\<rparr>"] assms(2)
  show "serviceCenter_clear w = (if None \<in> set (sl_slot (sc_slots c)) then None else Some (w\<lparr>sc_center := None\<rparr>))"
    by (simp add: serviceCenter_clear_def)
qed

lemma serviceCenter_undefined_witness: "serviceCenter_gain sc_two 0x100000 = None \<and> serviceCenter_clear sc_two \<noteq> None"
proof -
  from sc_two obtain c where c: "sc_center sc_two = Some c" by blast
  then have "\<not> sc_known sc_two 0x100000" "None \<notin> set (sl_slot (sc_slots c))"
    by (auto simp: sc_known_def known_id_def serviceCenter_init_def slots_init_def)
  with serviceCenter_undefined [OF sc_two(1) c, of "0x100000"] show ?thesis by simp
qed

section \<open>The names as a map\<close>

lemma strcmp_0 [simp]: "strcmp a b = 0 \<longleftrightarrow> a = b"
  by (induction a b rule: strcmp.induct) auto

lemma strcmp_refl [simp]: "strcmp a a = 0"
  by simp

lemma strcmp_sym: "strcmp a b > 0 \<longleftrightarrow> strcmp b a < 0"
  by (induction a b rule: strcmp.induct) auto

lemma strcmp_trans: "strcmp a b < 0 \<Longrightarrow> strcmp b c < 0 \<Longrightarrow> strcmp a c < 0"
proof (induction a b arbitrary: c rule: strcmp.induct)
  case (2 b bs)
  then show ?case by (cases c) auto
next
  case (4 a as b bs)
  then show ?case by (cases c) (auto split: if_splits)
qed auto

lemma nodeCmp_simps [simp]:
  "serviceNameNodeCmp x y < 0 \<longleftrightarrow> strcmp (nm_szName x) (nm_szName y) < 0"
  "serviceNameNodeCmp x y > 0 \<longleftrightarrow> strcmp (nm_szName y) (nm_szName x) < 0"
  using strcmp_sym [of "nm_szName x" "nm_szName y"] by (auto simp: serviceNameNodeCmp_def Let_def)

text \<open>The order of the tree, and the map that its nodes are.\<close>

definition names_sorted :: "service_name list \<Rightarrow> bool" where
  "names_sorted t = sorted_wrt (\<lambda>x y. strcmp (nm_szName x) (nm_szName y) < 0) t"

definition names_map :: "service_name list \<Rightarrow> bytes \<Rightarrow> u32 option" where
  "names_map t = map_of (map (\<lambda>x. (nm_szName x, nm_uiServiceID x)) t)"

lemma names_map_Cons [simp]:
  "names_map (y # ys) s = (if s = nm_szName y then Some (nm_uiServiceID y) else names_map ys s)"
  by (simp add: names_map_def)

lemma names_map_Nil [simp]: "names_map [] = Map.empty"
  by (simp add: names_map_def fun_eq_iff)

lemma names_sorted_simps [simp]:
  "names_sorted []" "names_sorted (y # ys) \<longleftrightarrow> (\<forall>x \<in> set ys. strcmp (nm_szName y) (nm_szName x) < 0) \<and> names_sorted ys"
  by (auto simp: names_sorted_def)

lemma names_map_dom: "names_map t s = Some i \<longleftrightarrow> (\<exists>x \<in> set t. nm_szName x = s \<and> nm_uiServiceID x = i)" if "names_sorted t"
  using that
proof (induction t)
  case (Cons y ys)
  have "nm_szName x \<noteq> nm_szName y" if "x \<in> set ys" for x
  proof
    assume "nm_szName x = nm_szName y"
    moreover have "strcmp (nm_szName y) (nm_szName x) < 0" using Cons.prems that by simp
    ultimately show False by simp
  qed
  with Cons show ?case by auto
qed simp

lemma names_below: "\<forall>x \<in> set ys. strcmp s (nm_szName x) < 0 \<Longrightarrow> names_map ys s = None"
proof (induction ys)
  case (Cons y ys)
  then have "s \<noteq> nm_szName y" using strcmp_0 by (metis less_irrefl list.set_intros(1))
  with Cons show ?case by simp
qed simp

lemma names_below_trans:
  "strcmp s (nm_szName y) < 0 \<Longrightarrow> \<forall>x \<in> set ys. strcmp (nm_szName y) (nm_szName x) < 0 \<Longrightarrow>
   \<forall>x \<in> set ys. strcmp s (nm_szName x) < 0"
  using strcmp_trans by blast

lemma names_find_map:
  "names_sorted t \<Longrightarrow> map_option nm_uiServiceID (names_find x t) = names_map t (nm_szName x)"
proof (induction t)
  case (Cons y ys)
  consider "strcmp (nm_szName x) (nm_szName y) < 0" | "strcmp (nm_szName y) (nm_szName x) < 0" | "nm_szName x = nm_szName y"
    using strcmp_0 strcmp_sym by (metis linorder_neqE)
  then show ?case
  proof cases
    case 1
    then have "nm_szName x \<noteq> nm_szName y" using strcmp_0 by (metis less_irrefl)
    moreover have "names_map ys (nm_szName x) = None" using names_below [OF names_below_trans [OF 1]] Cons.prems by simp
    ultimately show ?thesis using 1 by simp
  next
    case 2
    then have "nm_szName x \<noteq> nm_szName y" "\<not> strcmp (nm_szName x) (nm_szName y) < 0"
      using strcmp_0 strcmp_sym by (metis less_irrefl, metis less_asym)
    with 2 Cons show ?thesis by (simp add: Let_def)
  next
    case 3
    then have "\<not> strcmp (nm_szName x) (nm_szName y) < 0" "\<not> strcmp (nm_szName y) (nm_szName x) < 0" using strcmp_0 by (metis less_irrefl)+
    with 3 show ?thesis by (simp add: Let_def)
  qed
qed simp

lemma names_insert_map:
  "names_sorted t \<Longrightarrow> (case names_insert x t of
     None \<Rightarrow> names_map t (nm_szName x) \<noteq> None
   | Some t' \<Rightarrow> names_map t (nm_szName x) = None \<and> names_sorted t' \<and> set t' = insert x (set t) \<and>
       names_map t' = (names_map t)(nm_szName x \<mapsto> nm_uiServiceID x))"
proof (induction t)
  case (Cons y ys)
  consider "strcmp (nm_szName x) (nm_szName y) < 0" | "strcmp (nm_szName y) (nm_szName x) < 0" | "nm_szName x = nm_szName y"
    using strcmp_0 strcmp_sym by (metis linorder_neqE)
  then show ?case
  proof cases
    case 1
    then have "nm_szName x \<noteq> nm_szName y" using strcmp_0 by (metis less_irrefl)
    moreover have b: "\<forall>z \<in> set ys. strcmp (nm_szName x) (nm_szName z) < 0" using names_below_trans [OF 1, of ys] Cons.prems by simp
    ultimately show ?thesis using 1 names_below [OF b] Cons.prems by (auto simp: fun_eq_iff)
  next
    case 2
    then have "nm_szName x \<noteq> nm_szName y" "\<not> strcmp (nm_szName x) (nm_szName y) < 0"
      using strcmp_0 strcmp_sym by (metis less_irrefl, metis less_asym)
    with 2 Cons show ?thesis by (auto simp: Let_def fun_eq_iff split: option.splits)
  next
    case 3
    then have "\<not> strcmp (nm_szName x) (nm_szName y) < 0" "\<not> strcmp (nm_szName y) (nm_szName x) < 0" using strcmp_0 by (metis less_irrefl)+
    with 3 show ?thesis by (simp add: Let_def)
  qed
qed (simp add: fun_eq_iff)

lemma names_remove_map:
  "names_sorted t \<Longrightarrow> (case names_remove i t of
     None \<Rightarrow> \<forall>s. names_map t s \<noteq> Some i
   | Some t' \<Rightarrow> names_sorted t' \<and> set t' \<subseteq> set t \<and> (\<exists>s. names_map t s = Some i \<and> names_map t' = (names_map t)(s := None) \<and>
       (\<forall>s'. names_map t s' = Some i \<longrightarrow> s' = s \<or> strcmp s s' < 0)))"
proof (induction t)
  case (Cons y ys)
  have ne: "names_map ys (nm_szName y) = None" using names_below Cons.prems by simp
  show ?case
  proof (cases "nm_uiServiceID y = i")
    case True
    have "s' = nm_szName y \<or> strcmp (nm_szName y) s' < 0" if "names_map (y # ys) s' = Some i" for s'
    proof (cases "s' = nm_szName y")
      case False
      with that Cons.prems names_map_dom [of ys s' i] obtain x where "x \<in> set ys" "nm_szName x = s'" by auto
      with Cons.prems show ?thesis by auto
    qed simp
    moreover have "names_map ys = (names_map (y # ys))(nm_szName y := None)" using ne by (auto simp: fun_eq_iff)
    moreover have "names_map (y # ys) (nm_szName y) = Some i" using True by simp
    moreover have "names_sorted ys" "set ys \<subseteq> set (y # ys)" using Cons.prems by auto
    moreover have "names_remove i (y # ys) = Some ys" using True by simp
    ultimately show ?thesis by (simp only: option.case) blast
  next
    case False
    show ?thesis
    proof (cases "names_remove i ys")
      case None
      with False Cons show ?thesis by auto
    next
      case (Some t')
      with Cons obtain s where s: "names_sorted t'" "set t' \<subseteq> set ys" "names_map ys s = Some i" "names_map t' = (names_map ys)(s := None)"
        "\<forall>s'. names_map ys s' = Some i \<longrightarrow> s' = s \<or> strcmp s s' < 0" by auto
      have "s \<noteq> nm_szName y" using s(3) ne by auto
      then have "names_map (y # ys) s = Some i" "names_map (y # t') = (names_map (y # ys))(s := None)"
        using s(3,4) by (auto simp: fun_eq_iff)
      moreover have "\<forall>s'. names_map (y # ys) s' = Some i \<longrightarrow> s' = s \<or> strcmp s s' < 0" using s(5) False by simp
      moreover have "names_sorted (y # t')" "set (y # t') \<subseteq> set (y # ys)" using s(1,2) Cons.prems by auto
      moreover have "names_remove i (y # ys) = Some (y # t')" using False Some by simp
      ultimately show ?thesis by (simp only: option.case) blast
    qed
  qed
qed simp

definition sc_names :: "sc_world \<Rightarrow> bytes \<Rightarrow> u32 option" where
  "sc_names w = (case sc_center w of None \<Rightarrow> Map.empty | Some c \<Rightarrow> names_map (sc_serviceNameTree c))"

definition sc_sorted :: "sc_world \<Rightarrow> bool" where
  "sc_sorted w \<longleftrightarrow> (\<forall>c. sc_center w = Some c \<longrightarrow> names_sorted (sc_serviceNameTree c))"

text \<open>Ids that \<open>serviceCenter_bindName\<close> accepts.\<close>

definition sc_bindable :: "sc_world \<Rightarrow> u32 \<Rightarrow> bool" where
  "sc_bindable w uiID \<longleftrightarrow> uiID AND 0x80000000 = 0 \<and> (\<exists>c. sc_center w = Some c \<and> uiID AND sc_uiServerNodeMask c \<noteq> 0)"

lemma find_names: "sc_sorted w \<Longrightarrow> serviceCenter_findServiceID w s = (case sc_names w s of None \<Rightarrow> 0 | Some i \<Rightarrow> i)"
proof (cases "sc_center w")
  case (Some c)
  assume "sc_sorted w"
  with Some have "names_sorted (sc_serviceNameTree c)" by (simp add: sc_sorted_def)
  from names_find_map [OF this, of "\<lparr>nm_szName = s, nm_uiServiceID = 0\<rparr>"] Some show ?thesis
    by (cases "names_find \<lparr>nm_szName = s, nm_uiServiceID = 0\<rparr> (sc_serviceNameTree c)")
      (auto simp: serviceCenter_findServiceID_def sc_names_def split: option.splits)
qed (simp add: serviceCenter_findServiceID_def sc_names_def)

lemma bind_names:
  assumes "sc_sorted w" "serviceCenter_bindName w uiID s = (b, w')"
  shows "sc_sorted w' \<and> (b \<longleftrightarrow> sc_bindable w uiID \<and> sc_names w s = None) \<and>
    sc_names w' = (if b then (sc_names w)(s \<mapsto> uiID) else sc_names w) \<and>
    sc_strings w' = sc_strings w + (if sc_bindable w uiID then 1 else 0) \<and> sc_entries w' = sc_entries w \<and>
    sc_inv w' = sc_inv w \<and> sc_heap w' = sc_heap w \<and> sc_bindable w' = sc_bindable w \<and>
    sc_known w' = sc_known w"
proof (cases "sc_bindable w uiID")
  case True
  then obtain c where c: "sc_center w = Some c" "uiID AND 0x80000000 = 0" "uiID AND sc_uiServerNodeMask c \<noteq> 0"
    by (auto simp: sc_bindable_def)
  with assms(1) have t: "names_sorted (sc_serviceNameTree c)" by (simp add: sc_sorted_def)
  show ?thesis
    using names_insert_map [OF t, of "\<lparr>nm_szName = s, nm_uiServiceID = uiID\<rparr>"] assms True c
    by (cases "names_insert \<lparr>nm_szName = s, nm_uiServiceID = uiID\<rparr> (sc_serviceNameTree c)")
      (auto simp: serviceCenter_bindName_def sc_sorted_def sc_names_def sc_entries_def sc_inv_def sc_center_inv_def
        sc_bindable_def sc_known_def fun_eq_iff)
next
  case False
  with assms show ?thesis by (auto simp: serviceCenter_bindName_def sc_bindable_def split: option.splits if_splits)
qed

lemma unbind_names:
  assumes "sc_sorted w" "serviceCenter_unbindName w uiID = (b, w')"
  shows "sc_sorted w' \<and> (b \<longleftrightarrow> uiID \<noteq> 0 \<and> uiID \<in> ran (sc_names w)) \<and> (\<not> b \<longrightarrow> w' = w) \<and>
    (b \<longrightarrow> (\<exists>s. sc_names w s = Some uiID \<and> sc_names w' = (sc_names w)(s := None) \<and>
       (\<forall>s'. sc_names w s' = Some uiID \<longrightarrow> s' = s \<or> strcmp s s' < 0)) \<and> sc_strings w' = sc_strings w - 1)"
proof (cases "sc_center w")
  case (Some c)
  with assms(1) have t: "names_sorted (sc_serviceNameTree c)" by (simp add: sc_sorted_def)
  show ?thesis
    using names_remove_map [OF t, of uiID] assms Some
    by (cases "names_remove uiID (sc_serviceNameTree c)")
      (auto simp: serviceCenter_unbindName_def serviceCenter_removeName_def sc_sorted_def sc_names_def ran_def split: if_splits)
next
  case None
  with assms show ?thesis by (auto simp: serviceCenter_unbindName_def sc_names_def split: if_splits)
qed

text \<open>The names of services are a map: on a sorted tree, a look-up is that of the map (0 for no service); binding
  succeeds exactly for an id of the node and a name that is not bound, and updates the map; unbinding removes the
  first name of the id in the order of the tree; and all keep the tree sorted.  A refused binding of a bound name leaves
  one more copy of a name allocated, which no node points to.\<close>

theorem serviceCenter_names_map:
  assumes "sc_sorted w"
  shows "serviceCenter_findServiceID w s = (case sc_names w s of None \<Rightarrow> 0 | Some i \<Rightarrow> i) \<and>
    (case serviceCenter_bindName w uiID s of (b, w') \<Rightarrow> sc_sorted w' \<and> (b \<longleftrightarrow> sc_bindable w uiID \<and> sc_names w s = None) \<and>
       sc_names w' = (if b then (sc_names w)(s \<mapsto> uiID) else sc_names w) \<and>
       sc_strings w' = sc_strings w + (if sc_bindable w uiID then 1 else 0)) \<and>
    (case serviceCenter_unbindName w uiID of (b, w') \<Rightarrow> sc_sorted w' \<and> (b \<longleftrightarrow> uiID \<noteq> 0 \<and> uiID \<in> ran (sc_names w)) \<and>
       (if b then \<exists>s. sc_names w s = Some uiID \<and> sc_names w' = (sc_names w)(s := None) \<and> sc_strings w' = sc_strings w - 1
        else w' = w))"
proof (intro conjI)
  show "serviceCenter_findServiceID w s = (case sc_names w s of None \<Rightarrow> 0 | Some i \<Rightarrow> i)" by (rule find_names [OF assms])
  show "case serviceCenter_bindName w uiID s of (b, w') \<Rightarrow> sc_sorted w' \<and> (b \<longleftrightarrow> sc_bindable w uiID \<and> sc_names w s = None) \<and>
       sc_names w' = (if b then (sc_names w)(s \<mapsto> uiID) else sc_names w) \<and>
       sc_strings w' = sc_strings w + (if sc_bindable w uiID then 1 else 0)"
    using bind_names [OF assms] by (cases "serviceCenter_bindName w uiID s") auto
  show "case serviceCenter_unbindName w uiID of (b, w') \<Rightarrow> sc_sorted w' \<and> (b \<longleftrightarrow> uiID \<noteq> 0 \<and> uiID \<in> ran (sc_names w)) \<and>
       (if b then \<exists>s. sc_names w s = Some uiID \<and> sc_names w' = (sc_names w)(s := None) \<and> sc_strings w' = sc_strings w - 1
        else w' = w)"
  proof -
    obtain b w' where b: "serviceCenter_unbindName w uiID = (b, w')" by force
    note u = unbind_names [OF assms b]
    show ?thesis
    proof (cases b)
      case True
      with u obtain s where "sc_names w s = Some uiID" "sc_names w' = (sc_names w)(s := None)" by blast
      with True u show ?thesis by (auto simp: b)
    next
      case False
      with u have "w' = w" "\<not> (uiID \<noteq> 0 \<and> uiID \<in> ran (sc_names w))" by simp_all
      with False assms show ?thesis by (simp add: b)
    qed
  qed
qed

lemma serviceCenter_names_map_witness:
  "\<exists>w. serviceCenter_bindName sc_two 0x100001 [97, 98] = (True, w) \<and> serviceCenter_findServiceID w [97, 98] = 0x100001 \<and>
    serviceCenter_findServiceID w [97] = 0 \<and> fst (serviceCenter_bindName w 0x100001 [97, 98]) = False \<and>
    sc_strings (snd (serviceCenter_bindName w 0x100001 [97, 98])) = 2 \<and> fst (serviceCenter_unbindName w 0x100001) = True"
proof -
  obtain v where v: "v = sc_two" by blast
  obtain w b where w: "serviceCenter_bindName v 0x100001 [97, 98] = (b, w)" by force
  have s: "sc_sorted v" "sc_bindable v 0x100001" "sc_names v [97, 98] = None" "sc_names v [97] = None" "sc_strings v = 0"
    by (simp_all add: v sc_sorted_def serviceCenter_init_def sc_bindable_def sc_names_def)
  have b: "b" "sc_sorted w" "sc_names w = (sc_names v)([97, 98] \<mapsto> 0x100001)" "sc_strings w = 1" "sc_bindable w 0x100001"
    using bind_names [OF s(1) w] s by simp_all
  have n: "sc_names w [97, 98] = Some 0x100001" "sc_names w [97] = None" "0x100001 \<in> ran (sc_names w)"
    using b(3) s(4) by (simp_all add: ran_def exI [of _ "[97, 98]"])
  obtain b1 w1 where w1: "serviceCenter_bindName w 0x100001 [97, 98] = (b1, w1)" by force
  obtain b2 w2 where w2: "serviceCenter_unbindName w 0x100001 = (b2, w2)" by force
  from serviceCenter_names_map [OF b(2), of "[97, 98]" "0x100001"] w1 w2 n b(4,5)
  have "serviceCenter_findServiceID w [97, 98] = 0x100001" "\<not> b1" "sc_strings w1 = 2" "b2" by simp_all
  moreover have "serviceCenter_findServiceID w [97] = 0" using find_names [OF b(2), of "[97]"] n(2) by simp
  ultimately show ?thesis using w w1 w2 b(1) unfolding v by simp
qed

section \<open>Names that outlive their service\<close>

text \<open>The stack of free indices gives back the last index freed, so the next service gets the id.\<close>

lemma reused_id:
  assumes "sc_inv w" "serviceCenter_deregister w uiID = Some (True, w')" "sc_fresh w' p"
  shows "\<exists>w''. service_register w' p = Some (uiID, w'') \<and> sc_entries w'' uiID = Some p \<and> sc_inv w'' \<and> sc_known w'' uiID"
proof -
  from assms(1) obtain c where c: "sc_center w = Some c" "sc_center_inv (sc_heap w) c" by (auto simp: sc_inv_def)
  then have i: "slots_inv (sc_slots c)" "slots_ok (sc_good (sc_uiServerNodeMask c)) (sc_heap w) (sc_slots c)"
    by (simp_all add: sc_center_inv_def)
  have k: "sc_known w uiID" using sc_unknown(2) [OF assms(1), of uiID] assms(2) by auto
  from sc.cls_law [OF assms(1) k] assms(2) have e: "sc_entries w uiID \<noteq> None" "sc_inv w'" by auto
  then obtain q where q: "entries (sc_heap w) (sc_slots c) uiID = Some q" using c(1) by (auto simp: sc_entries_def)
  from entries_some [OF q i] obtain j where j: "id_index uiID = int j" "j < sl_capacity (sc_slots c)"
    "sl_slot (sc_slots c) ! j = Some (Some q)" "sc_good (sc_uiServerNodeMask c) uiID" "uiID AND 0xfffff = of_nat (Suc j)" by metis
  from slots_drop_inv [OF i(1) j(2,3)] obtain s' where s': "slots_drop (sc_slots c) (int j) = Some s'" by blast
  have top: "sl_count s' \<noteq> 0" "slots_take s' p = Some (j, s'\<lparr>sl_count := sl_count s' - 1, sl_slot := (sl_slot s')[j := Some (Some p)]\<rparr>)"
    using s' by (auto simp: slots_drop_def slots_take_def split: if_splits)
  have "\<exists>c'. sc_center w' = Some c' \<and> sc_slots c' = s' \<and> sc_uiServerNodeMask c' = sc_uiServerNodeMask c"
    using assms(2) c(1) s' j(1)
    by (auto simp: serviceCenter_deregister_def serviceCenter_removeName_def split: if_splits option.splits bind_splits prod.splits)
  then obtain c' where c': "sc_center w' = Some c'" "sc_slots c' = s'" "sc_uiServerNodeMask c' = sc_uiServerNodeMask c" by blast
  have id: "sc_id (sc_uiServerNodeMask c) j = uiID" using sc_good_id [OF j(4,5)] by simp
  from assms(3) obtain h where h: "sc_heap w' p = Some h" by (auto simp: sc_fresh_def)
  have "\<exists>w''. service_register w' p = Some (uiID, w'')"
    using c' top h id by (simp add: service_register_def serviceCenter_register_def handle_addref_def sc_id_def)
  then obtain w'' where w'': "service_register w' p = Some (uiID, w'')" ..
  moreover have "uiID \<noteq> 0" using sc_good_mask [OF j(4)] by simp
  ultimately have "sc_open w' p = Some (Some uiID, w'')" by (simp add: sc_open_def)
  with sc.opn_law [OF e(2) assms(3)] w'' show ?thesis by auto
qed

lemma register_names:
  assumes "service_register w p = Some (x, w')"
  shows "sc_names w' = sc_names w" "sc_sorted w' = sc_sorted w"
  using assms by (auto simp: service_register_def serviceCenter_register_def sc_names_def sc_sorted_def Let_def
    split: if_splits option.splits bind_splits prod.splits)

lemma deregister_names:
  assumes "sc_inv w" "sc_sorted w" "serviceCenter_deregister w uiID = Some (True, w')"
  shows "sc_sorted w'" "\<And>s s'. sc_names w s = Some uiID \<Longrightarrow> sc_names w s' = Some uiID \<Longrightarrow> strcmp s s' < 0 \<Longrightarrow> sc_names w' s' = Some uiID"
proof -
  from assms(1) obtain c where c: "sc_center w = Some c" "sc_center_inv (sc_heap w) c" by (auto simp: sc_inv_def)
  have k: "sc_known w uiID" using sc_unknown(2) [OF assms(1), of uiID] assms(3) by auto
  from sc_deregister_ok [OF c k] assms(3) obtain c' where c': "sc_center w' = Some c'"
    "sc_serviceNameTree c' = (case names_remove uiID (sc_serviceNameTree c) of None \<Rightarrow> sc_serviceNameTree c | Some t \<Rightarrow> t)" by auto
  have t: "names_sorted (sc_serviceNameTree c)" using assms(2) c(1) by (simp add: sc_sorted_def)
  note r = names_remove_map [OF t, of uiID]
  show "sc_sorted w'" using r t c' by (auto simp: sc_sorted_def split: option.splits)
  fix s s' assume s: "sc_names w s = Some uiID" "sc_names w s' = Some uiID" "strcmp s s' < 0"
  then have n: "names_map (sc_serviceNameTree c) s = Some uiID" "names_map (sc_serviceNameTree c) s' = Some uiID"
    using c(1) by (simp_all add: sc_names_def)
  with r obtain t' s0 where t': "names_remove uiID (sc_serviceNameTree c) = Some t'" "names_map t' = (names_map (sc_serviceNameTree c))(s0 := None)"
    "\<forall>s'. names_map (sc_serviceNameTree c) s' = Some uiID \<longrightarrow> s' = s0 \<or> strcmp s0 s' < 0" by (auto split: option.splits)
  have "s' \<noteq> s0"
  proof
    assume "s' = s0"
    with t'(3) n(1) s(3) have "s = s' \<or> strcmp s' s < 0" by blast
    with s(3) strcmp_sym [of s s'] show False by auto
  qed
  with t' n(2) c' show "sc_names w' s' = Some uiID" by (simp add: sc_names_def)
qed

text \<open>A name may outlive its service and come to name another: of the names bound to a service its deregistration
  removes only the first; the next service that registers gets the same id at once; and the name that was left is
  found with it.\<close>

theorem serviceCenter_name_outlives_service:
  assumes "sc_inv w" "sc_sorted w" "sc_names w s1 = Some uiID" "sc_names w s2 = Some uiID" "strcmp s1 s2 < 0"
    and "serviceCenter_deregister w uiID = Some (True, w1)" "sc_fresh w1 p"
  shows "\<exists>w2 w3. service_register w1 p = Some (uiID, w2) \<and> serviceCenter_findServiceID w2 s2 = uiID \<and>
    serviceCenter_gain w2 uiID = Some (Some p, w3)"
proof -
  from reused_id [OF assms(1,6,7)] obtain w2 where w2: "service_register w1 p = Some (uiID, w2)"
    "sc_entries w2 uiID = Some p" "sc_inv w2" "sc_known w2 uiID" by blast
  note d = deregister_names [OF assms(1,2,6)]
  have "sc_names w2 s2 = Some uiID" "sc_sorted w2" using d(1) d(2) [OF assms(3,4,5)] register_names [OF w2(1)] by simp_all
  with find_names have "serviceCenter_findServiceID w2 s2 = uiID" by simp
  with sc.fnd_law [OF w2(3,4)] w2(1,2) show ?thesis by auto
qed

lemma deregister_heap:
  assumes "sc_inv w" "serviceCenter_deregister w uiID = Some (True, w')" "sc_entries w uiID = Some q" "p \<noteq> q"
  shows "sc_heap w' p = sc_heap w p"
proof -
  from assms(1) obtain c where c: "sc_center w = Some c" "sc_center_inv (sc_heap w) c" by (auto simp: sc_inv_def)
  have k: "sc_known w uiID" using sc_unknown(2) [OF assms(1), of uiID] assms(2) by auto
  have q: "entries (sc_heap w) (sc_slots c) uiID = Some q" using assms(3) c(1) by (simp add: sc_entries_def)
  with sc_entries_good [OF c(2) q] k c(1) have "known_id (sc_slots c) uiID" by (auto simp: sc_known_def)
  from sc_find_ok [OF c(2) this] q have f: "slots_find (sc_heap w) (sc_slots c) uiID = Some (Some q)" by simp
  have "sc_heap (snd (serviceCenter_removeName w i)) = sc_heap w" for i
    by (auto simp: serviceCenter_removeName_def split: option.split)
  then show ?thesis
    using assms(2,4) c(1) f sc_entries_good [OF c(2) q]
    by (auto simp: serviceCenter_deregister_def handle_release_def split: if_splits bind_splits prod.splits) (metis snd_conv)+
qed

lemma serviceCenter_name_outlives_service_witness:
  "\<exists>x w1 w2 w3. service_register w1 6 = Some (x, w2) \<and> serviceCenter_findServiceID w2 [98] = x \<and>
    serviceCenter_gain w2 x = Some (Some 6, w3)"
proof -
  from sc_two obtain c where c: "sc_center sc_two = Some c" by blast
  then have n: "sl_count (sc_slots c) \<noteq> 0" and m: "sc_uiServerNodeMask c = 0x100000" and t: "sc_serviceNameTree c = []"
    by (auto simp: serviceCenter_init_def slots_init_def)
  from first_register [OF sc_two(1,2) c n] obtain x a ca h where
    o: "sc_entries a = (sc_entries sc_two)(x \<mapsto> 5)" "sc_known a x" "sc_inv a" "sc_center a = Some ca"
      "sc_serviceNameTree ca = sc_serviceNameTree c" "sc_heap a = (sc_heap sc_two)(5 \<mapsto> h)"
      "x AND 0x80000000 = 0 \<or> sc_uiServerNodeMask c AND 0x80000000 \<noteq> 0" by metis
  have x: "x AND 0x80000000 = 0" using o(7) m by simp
  have e: "sc_entries a x = Some 5" using o(1) by simp
  have "x AND sc_uiServerNodeMask ca \<noteq> 0"
    using e o(3,4) sc_entries_good(2) [of "sc_heap a" ca x 5] by (simp add: sc_entries_def sc_inv_def)
  then have b: "sc_bindable a x" "sc_sorted a" "sc_names a = Map.empty"
    using o(4,5) x t by (simp_all add: sc_bindable_def sc_sorted_def sc_names_def)
  obtain b1 v where v: "serviceCenter_bindName a x [97] = (b1, v)" by force
  note bv = bind_names [OF b(2) v]
  obtain b2 w where w: "serviceCenter_bindName v x [98] = (b2, w)" by force
  from bv have "sc_sorted v" by simp
  note bw = bind_names [OF this w]
  have i: "sc_inv w" "sc_sorted w" "sc_known w x" "sc_entries w x = Some 5" "sc_heap w = sc_heap a" using bv bw o(2,3) e by simp_all
  have nm: "sc_names w [97] = Some x" "sc_names w [98] = Some x" using bv bw b by simp_all
  from sc.cls_law [OF i(1,3)] i(4) obtain w1 where w1: "serviceCenter_deregister w x = Some (True, w1)" by auto
  have "sc_heap w1 6 = sc_heap w 6" by (rule deregister_heap [OF i(1) w1 i(4)]) simp
  then have f: "sc_fresh w1 6" using sc_two(3) i(5) o(6) by (simp add: sc_fresh_def)
  from serviceCenter_name_outlives_service [OF i(1,2) nm _ w1 f] show ?thesis by auto
qed

end
