(* ===== verification/Queue.thy ===== *)
theory Queue
  imports Prelude Interfaces
begin

text \<open>
  The intrusive queues of \<open>core/include/queue_t.h\<close>: circular doubly linked lists of nodes that live inside other
  objects.  A macro is a function on the memory of nodes that reads and writes the links in the order of its
  statements; \<open>None\<close> is an access to a node that is not allocated, or a read of a link never written.
\<close>

section \<open>Memory\<close>

record queue_node =
  qn_next :: "nat option"
  qn_prev :: "nat option"

type_synonym queue_mem = "nat \<Rightarrow> queue_node option"

definition QUEUE_NEXT :: "queue_mem \<Rightarrow> nat \<Rightarrow> nat option" where
  "QUEUE_NEXT m q = Option.bind (m q) qn_next"

definition QUEUE_PREV :: "queue_mem \<Rightarrow> nat \<Rightarrow> nat option" where
  "QUEUE_PREV m q = Option.bind (m q) qn_prev"

definition set_NEXT :: "queue_mem \<Rightarrow> nat \<Rightarrow> nat \<Rightarrow> queue_mem option" where
  "set_NEXT m q p = map_option (\<lambda>n. m(q \<mapsto> n\<lparr>qn_next := Some p\<rparr>)) (m q)"

definition set_PREV :: "queue_mem \<Rightarrow> nat \<Rightarrow> nat \<Rightarrow> queue_mem option" where
  "set_PREV m q p = map_option (\<lambda>n. m(q \<mapsto> n\<lparr>qn_prev := Some p\<rparr>)) (m q)"

section \<open>The macros\<close>

definition QUEUE_EMPTY :: "queue_mem \<Rightarrow> nat \<Rightarrow> bool option" where
  "QUEUE_EMPTY m q = do { p \<leftarrow> QUEUE_NEXT m q; Some (q = p) }"

definition QUEUE_HEAD :: "queue_mem \<Rightarrow> nat \<Rightarrow> nat option" where
  "QUEUE_HEAD m q = QUEUE_NEXT m q"

definition QUEUE_INIT :: "queue_mem \<Rightarrow> nat \<Rightarrow> queue_mem option" where
  "QUEUE_INIT m q = do { m \<leftarrow> set_NEXT m q q; set_PREV m q q }"

definition QUEUE_ADD :: "queue_mem \<Rightarrow> nat \<Rightarrow> nat \<Rightarrow> queue_mem option" where
  "QUEUE_ADD m h n = do {
     ph \<leftarrow> QUEUE_PREV m h; nn \<leftarrow> QUEUE_NEXT m n; m \<leftarrow> set_NEXT m ph nn;
     nn \<leftarrow> QUEUE_NEXT m n; ph \<leftarrow> QUEUE_PREV m h; m \<leftarrow> set_PREV m nn ph;
     pn \<leftarrow> QUEUE_PREV m n; m \<leftarrow> set_PREV m h pn;
     ph \<leftarrow> QUEUE_PREV m h; set_NEXT m ph h }"

definition QUEUE_SPLIT :: "queue_mem \<Rightarrow> nat \<Rightarrow> nat \<Rightarrow> nat \<Rightarrow> queue_mem option" where
  "QUEUE_SPLIT m h q n = do {
     ph \<leftarrow> QUEUE_PREV m h; m \<leftarrow> set_PREV m n ph;
     pn \<leftarrow> QUEUE_PREV m n; m \<leftarrow> set_NEXT m pn n;
     m \<leftarrow> set_NEXT m n q;
     pq \<leftarrow> QUEUE_PREV m q; m \<leftarrow> set_PREV m h pq;
     ph \<leftarrow> QUEUE_PREV m h; m \<leftarrow> set_NEXT m ph h;
     set_PREV m q n }"

definition QUEUE_MOVE :: "queue_mem \<Rightarrow> nat \<Rightarrow> nat \<Rightarrow> queue_mem option" where
  "QUEUE_MOVE m h n = do {
     e \<leftarrow> QUEUE_EMPTY m h;
     if e then QUEUE_INIT m n
     else do { q \<leftarrow> QUEUE_HEAD m h; QUEUE_SPLIT m h q n } }"

definition QUEUE_INSERT_HEAD :: "queue_mem \<Rightarrow> nat \<Rightarrow> nat \<Rightarrow> queue_mem option" where
  "QUEUE_INSERT_HEAD m h q = do {
     nh \<leftarrow> QUEUE_NEXT m h; m \<leftarrow> set_NEXT m q nh;
     m \<leftarrow> set_PREV m q h;
     nq \<leftarrow> QUEUE_NEXT m q; m \<leftarrow> set_PREV m nq q;
     set_NEXT m h q }"

definition QUEUE_INSERT_TAIL :: "queue_mem \<Rightarrow> nat \<Rightarrow> nat \<Rightarrow> queue_mem option" where
  "QUEUE_INSERT_TAIL m h q = do {
     m \<leftarrow> set_NEXT m q h;
     ph \<leftarrow> QUEUE_PREV m h; m \<leftarrow> set_PREV m q ph;
     pq \<leftarrow> QUEUE_PREV m q; m \<leftarrow> set_NEXT m pq q;
     set_PREV m h q }"

definition QUEUE_REMOVE :: "queue_mem \<Rightarrow> nat \<Rightarrow> queue_mem option" where
  "QUEUE_REMOVE m q = do {
     pq \<leftarrow> QUEUE_PREV m q; nq \<leftarrow> QUEUE_NEXT m q; m \<leftarrow> set_NEXT m pq nq;
     nq \<leftarrow> QUEUE_NEXT m q; pq \<leftarrow> QUEUE_PREV m q; set_PREV m nq pq }"

text \<open>\<open>QUEUE_FOREACH\<close>, as the list of nodes that its body visits; \<open>n\<close> bounds the number of rounds.\<close>

fun QUEUE_FOREACH :: "nat \<Rightarrow> queue_mem \<Rightarrow> nat \<Rightarrow> nat \<Rightarrow> nat list option" where
  "QUEUE_FOREACH 0 m h q = None"
| "QUEUE_FOREACH (Suc n) m h q =
     (if q = h then Some [] else do { p \<leftarrow> QUEUE_NEXT m q; qs \<leftarrow> QUEUE_FOREACH n m h p; Some (q # qs) })"

section \<open>Links\<close>

lemma next_step:
  assumes "q \<in> dom m"
  obtains m' where "set_NEXT m q p = Some m'" "QUEUE_NEXT m' = (QUEUE_NEXT m)(q \<mapsto> p)" "QUEUE_PREV m' = QUEUE_PREV m"
    "dom m' = dom m"
proof -
  from assms obtain n where n: "m q = Some n" by blast
  let ?m = "m(q \<mapsto> n\<lparr>qn_next := Some p\<rparr>)"
  have "set_NEXT m q p = Some ?m" using n by (simp add: set_NEXT_def)
  moreover have "QUEUE_NEXT ?m = (QUEUE_NEXT m)(q \<mapsto> p)" "QUEUE_PREV ?m = QUEUE_PREV m"
    using n by (auto simp: QUEUE_NEXT_def QUEUE_PREV_def fun_eq_iff)
  moreover have "dom ?m = dom m" using n by auto
  ultimately show ?thesis by (rule that)
qed

lemma prev_step:
  assumes "q \<in> dom m"
  obtains m' where "set_PREV m q p = Some m'" "QUEUE_PREV m' = (QUEUE_PREV m)(q \<mapsto> p)" "QUEUE_NEXT m' = QUEUE_NEXT m"
    "dom m' = dom m"
proof -
  from assms obtain n where n: "m q = Some n" by blast
  let ?m = "m(q \<mapsto> n\<lparr>qn_prev := Some p\<rparr>)"
  have "set_PREV m q p = Some ?m" using n by (simp add: set_PREV_def)
  moreover have "QUEUE_PREV ?m = (QUEUE_PREV m)(q \<mapsto> p)" "QUEUE_NEXT ?m = QUEUE_NEXT m"
    using n by (auto simp: QUEUE_NEXT_def QUEUE_PREV_def fun_eq_iff)
  moreover have "dom ?m = dom m" using n by auto
  ultimately show ?thesis by (rule that)
qed

lemma links_alloc: "QUEUE_NEXT m q = Some p \<Longrightarrow> q \<in> dom m" "QUEUE_PREV m q = Some p \<Longrightarrow> q \<in> dom m"
  by (cases "m q"; simp add: QUEUE_NEXT_def QUEUE_PREV_def dom_def)+

text \<open>A chain of nodes from \<open>a\<close> through \<open>xs\<close> to \<open>b\<close>, linked both ways; a queue is a chain from its head to itself.\<close>

fun chain :: "queue_mem \<Rightarrow> nat \<Rightarrow> nat list \<Rightarrow> nat \<Rightarrow> bool" where
  "chain m a [] b \<longleftrightarrow> QUEUE_NEXT m a = Some b \<and> QUEUE_PREV m b = Some a"
| "chain m a (x # xs) b \<longleftrightarrow> QUEUE_NEXT m a = Some x \<and> QUEUE_PREV m x = Some a \<and> chain m x xs b"

definition queue :: "queue_mem \<Rightarrow> nat \<Rightarrow> nat list \<Rightarrow> bool" where
  "queue m h xs \<longleftrightarrow> distinct (h # xs) \<and> chain m h xs h"

lemma chain_append: "chain m a (xs @ y # ys) b \<longleftrightarrow> chain m a xs y \<and> chain m y ys b"
  by (induction xs arbitrary: a) auto

lemma chain_cong:
  "(\<And>p. p \<in> set (a # xs) \<Longrightarrow> QUEUE_NEXT m' p = QUEUE_NEXT m p) \<Longrightarrow>
   (\<And>p. p \<in> set (xs @ [b]) \<Longrightarrow> QUEUE_PREV m' p = QUEUE_PREV m p) \<Longrightarrow> chain m' a xs b = chain m a xs b"
  by (induction xs arbitrary: a) auto

lemma chain_links: "chain m a xs b \<Longrightarrow> QUEUE_NEXT m a = Some (hd (xs @ [b])) \<and> QUEUE_PREV m b = Some (last (a # xs))"
  by (induction xs arbitrary: a) (auto split: if_splits)

lemma chain_alloc: "chain m a xs b \<Longrightarrow> set (a # xs @ [b]) \<subseteq> dom m"
  by (induction xs arbitrary: a) (auto dest: links_alloc)

text \<open>The links after each operation.\<close>

lemma INSERT_TAIL_links:
  assumes "QUEUE_PREV m h = Some z" "{h, z, q} \<subseteq> dom m" "q \<noteq> h"
  shows "\<exists>m'. QUEUE_INSERT_TAIL m h q = Some m' \<and> dom m' = dom m \<and>
    QUEUE_NEXT m' = (QUEUE_NEXT m)(q \<mapsto> h, z \<mapsto> q) \<and> QUEUE_PREV m' = (QUEUE_PREV m)(q \<mapsto> z, h \<mapsto> q)"
proof -
  have d: "h \<in> dom m" "z \<in> dom m" "q \<in> dom m" using assms(2) by simp_all
  from next_step [OF d(3), of h] obtain m1 where 1: "set_NEXT m q h = Some m1"
    "QUEUE_NEXT m1 = (QUEUE_NEXT m)(q \<mapsto> h)" "QUEUE_PREV m1 = QUEUE_PREV m" "dom m1 = dom m" .
  with d prev_step [of q m1 z] obtain m2 where 2: "set_PREV m1 q z = Some m2"
    "QUEUE_PREV m2 = (QUEUE_PREV m1)(q \<mapsto> z)" "QUEUE_NEXT m2 = QUEUE_NEXT m1" "dom m2 = dom m1" by metis
  with 1 d next_step [of z m2 q] obtain m3 where 3: "set_NEXT m2 z q = Some m3"
    "QUEUE_NEXT m3 = (QUEUE_NEXT m2)(z \<mapsto> q)" "QUEUE_PREV m3 = QUEUE_PREV m2" "dom m3 = dom m2" by metis
  with 1 2 d prev_step [of h m3 q] obtain m4 where 4: "set_PREV m3 h q = Some m4"
    "QUEUE_PREV m4 = (QUEUE_PREV m3)(h \<mapsto> q)" "QUEUE_NEXT m4 = QUEUE_NEXT m3" "dom m4 = dom m3" by metis
  have "QUEUE_INSERT_TAIL m h q = Some m4" using 1 2 3 4 assms(1,3) by (simp add: QUEUE_INSERT_TAIL_def)
  then show ?thesis using 1 2 3 4 by simp
qed

lemma INSERT_HEAD_links:
  assumes "QUEUE_NEXT m h = Some a" "{h, a, q} \<subseteq> dom m" "q \<noteq> h"
  shows "\<exists>m'. QUEUE_INSERT_HEAD m h q = Some m' \<and> dom m' = dom m \<and>
    QUEUE_NEXT m' = (QUEUE_NEXT m)(q \<mapsto> a, h \<mapsto> q) \<and> QUEUE_PREV m' = (QUEUE_PREV m)(q \<mapsto> h, a \<mapsto> q)"
proof -
  have d: "h \<in> dom m" "a \<in> dom m" "q \<in> dom m" using assms(2) by simp_all
  from next_step [OF d(3), of a] obtain m1 where 1: "set_NEXT m q a = Some m1"
    "QUEUE_NEXT m1 = (QUEUE_NEXT m)(q \<mapsto> a)" "QUEUE_PREV m1 = QUEUE_PREV m" "dom m1 = dom m" .
  with d prev_step [of q m1 h] obtain m2 where 2: "set_PREV m1 q h = Some m2"
    "QUEUE_PREV m2 = (QUEUE_PREV m1)(q \<mapsto> h)" "QUEUE_NEXT m2 = QUEUE_NEXT m1" "dom m2 = dom m1" by metis
  with 1 d prev_step [of a m2 q] obtain m3 where 3: "set_PREV m2 a q = Some m3"
    "QUEUE_PREV m3 = (QUEUE_PREV m2)(a \<mapsto> q)" "QUEUE_NEXT m3 = QUEUE_NEXT m2" "dom m3 = dom m2" by metis
  with 1 2 d next_step [of h m3 q] obtain m4 where 4: "set_NEXT m3 h q = Some m4"
    "QUEUE_NEXT m4 = (QUEUE_NEXT m3)(h \<mapsto> q)" "QUEUE_PREV m4 = QUEUE_PREV m3" "dom m4 = dom m3" by metis
  have "QUEUE_INSERT_HEAD m h q = Some m4" using 1 2 3 4 assms(1,3) by (simp add: QUEUE_INSERT_HEAD_def)
  then show ?thesis using 1 2 3 4 by simp
qed

lemma REMOVE_links:
  assumes "QUEUE_PREV m q = Some a" "QUEUE_NEXT m q = Some b" "{a, b} \<subseteq> dom m" "a \<noteq> q"
  shows "\<exists>m'. QUEUE_REMOVE m q = Some m' \<and> dom m' = dom m \<and>
    QUEUE_NEXT m' = (QUEUE_NEXT m)(a \<mapsto> b) \<and> QUEUE_PREV m' = (QUEUE_PREV m)(b \<mapsto> a)"
proof -
  have d: "a \<in> dom m" "b \<in> dom m" using assms(3) by simp_all
  from next_step [OF d(1), of b] obtain m1 where 1: "set_NEXT m a b = Some m1"
    "QUEUE_NEXT m1 = (QUEUE_NEXT m)(a \<mapsto> b)" "QUEUE_PREV m1 = QUEUE_PREV m" "dom m1 = dom m" .
  with d prev_step [of b m1 a] obtain m2 where 2: "set_PREV m1 b a = Some m2"
    "QUEUE_PREV m2 = (QUEUE_PREV m1)(b \<mapsto> a)" "QUEUE_NEXT m2 = QUEUE_NEXT m1" "dom m2 = dom m1" by metis
  have "QUEUE_REMOVE m q = Some m2" using 1 2 assms(1,2,4) by (simp add: QUEUE_REMOVE_def)
  then show ?thesis using 1 2 by simp
qed

lemma SPLIT_links:
  assumes "QUEUE_PREV m h = Some z" "QUEUE_PREV m q = Some a" "{h, z, n, q, a} \<subseteq> dom m" "h \<noteq> n" "q \<noteq> n" "q \<noteq> h"
  shows "\<exists>m'. QUEUE_SPLIT m h q n = Some m' \<and> dom m' = dom m \<and>
    QUEUE_NEXT m' = (QUEUE_NEXT m)(z \<mapsto> n, n \<mapsto> q, a \<mapsto> h) \<and> QUEUE_PREV m' = (QUEUE_PREV m)(n \<mapsto> z, h \<mapsto> a, q \<mapsto> n)"
proof -
  have d: "h \<in> dom m" "z \<in> dom m" "q \<in> dom m" "n \<in> dom m" "a \<in> dom m" using assms(3) by simp_all
  from prev_step [OF d(4), of z] obtain m1 where 1: "set_PREV m n z = Some m1"
    "QUEUE_PREV m1 = (QUEUE_PREV m)(n \<mapsto> z)" "QUEUE_NEXT m1 = QUEUE_NEXT m" "dom m1 = dom m" .
  with d next_step [of z m1 n] obtain m2 where 2: "set_NEXT m1 z n = Some m2"
    "QUEUE_NEXT m2 = (QUEUE_NEXT m1)(z \<mapsto> n)" "QUEUE_PREV m2 = QUEUE_PREV m1" "dom m2 = dom m1" by metis
  with 1 d next_step [of n m2 q] obtain m3 where 3: "set_NEXT m2 n q = Some m3"
    "QUEUE_NEXT m3 = (QUEUE_NEXT m2)(n \<mapsto> q)" "QUEUE_PREV m3 = QUEUE_PREV m2" "dom m3 = dom m2" by metis
  with 1 2 d prev_step [of h m3 a] obtain m4 where 4: "set_PREV m3 h a = Some m4"
    "QUEUE_PREV m4 = (QUEUE_PREV m3)(h \<mapsto> a)" "QUEUE_NEXT m4 = QUEUE_NEXT m3" "dom m4 = dom m3" by metis
  with 1 2 3 d next_step [of a m4 h] obtain m5 where 5: "set_NEXT m4 a h = Some m5"
    "QUEUE_NEXT m5 = (QUEUE_NEXT m4)(a \<mapsto> h)" "QUEUE_PREV m5 = QUEUE_PREV m4" "dom m5 = dom m4" by metis
  with 1 2 3 4 d prev_step [of q m5 n] obtain m6 where 6: "set_PREV m5 q n = Some m6"
    "QUEUE_PREV m6 = (QUEUE_PREV m5)(q \<mapsto> n)" "QUEUE_NEXT m6 = QUEUE_NEXT m5" "dom m6 = dom m5" by metis
  have "QUEUE_SPLIT m h q n = Some m6" using 1 2 3 4 5 6 assms by (simp add: QUEUE_SPLIT_def)
  then show ?thesis using 1 2 3 4 5 6 by simp
qed

lemma ADD_links:
  assumes "QUEUE_PREV m h = Some z" "QUEUE_NEXT m n = Some b" "QUEUE_PREV m n = Some y"
    "{h, z, b, y} \<subseteq> dom m" "z \<noteq> n" "b \<noteq> n" "b \<noteq> h"
  shows "\<exists>m'. QUEUE_ADD m h n = Some m' \<and> dom m' = dom m \<and>
    QUEUE_NEXT m' = (QUEUE_NEXT m)(z \<mapsto> b, y \<mapsto> h) \<and> QUEUE_PREV m' = (QUEUE_PREV m)(b \<mapsto> z, h \<mapsto> y)"
proof -
  have d: "h \<in> dom m" "z \<in> dom m" "b \<in> dom m" "y \<in> dom m" using assms(4) by simp_all
  from next_step [OF d(2), of b] obtain m1 where 1: "set_NEXT m z b = Some m1"
    "QUEUE_NEXT m1 = (QUEUE_NEXT m)(z \<mapsto> b)" "QUEUE_PREV m1 = QUEUE_PREV m" "dom m1 = dom m" .
  with d prev_step [of b m1 z] obtain m2 where 2: "set_PREV m1 b z = Some m2"
    "QUEUE_PREV m2 = (QUEUE_PREV m1)(b \<mapsto> z)" "QUEUE_NEXT m2 = QUEUE_NEXT m1" "dom m2 = dom m1" by metis
  with 1 d prev_step [of h m2 y] obtain m3 where 3: "set_PREV m2 h y = Some m3"
    "QUEUE_PREV m3 = (QUEUE_PREV m2)(h \<mapsto> y)" "QUEUE_NEXT m3 = QUEUE_NEXT m2" "dom m3 = dom m2" by metis
  with 1 2 d next_step [of y m3 h] obtain m4 where 4: "set_NEXT m3 y h = Some m4"
    "QUEUE_NEXT m4 = (QUEUE_NEXT m3)(y \<mapsto> h)" "QUEUE_PREV m4 = QUEUE_PREV m3" "dom m4 = dom m3" by metis
  have "QUEUE_ADD m h n = Some m4" using 1 2 3 4 assms by (simp add: QUEUE_ADD_def)
  then show ?thesis using 1 2 3 4 by simp
qed

section \<open>Queues as lists\<close>

lemma queue_links:
  assumes "queue m h xs"
  shows "QUEUE_NEXT m h = Some (hd (xs @ [h]))" "QUEUE_PREV m h = Some (last (h # xs))" "set (h # xs) \<subseteq> dom m"
  using assms chain_links [of m h xs h] chain_alloc [of m h xs h] by (simp_all add: queue_def)

lemma EMPTY_queue: "queue m h xs \<Longrightarrow> QUEUE_EMPTY m h = Some (xs = [])"
  using queue_links(1) [of m h xs] by (cases xs) (auto simp: QUEUE_EMPTY_def queue_def)

lemma HEAD_queue: "queue m h (x # xs) \<Longrightarrow> QUEUE_HEAD m h = Some x"
  by (simp add: QUEUE_HEAD_def queue_def)

lemma INIT_queue: "h \<in> dom m \<Longrightarrow> \<exists>m'. QUEUE_INIT m h = Some m' \<and> queue m' h [] \<and> dom m' = dom m \<and>
    (\<forall>p. p \<noteq> h \<longrightarrow> QUEUE_NEXT m' p = QUEUE_NEXT m p \<and> QUEUE_PREV m' p = QUEUE_PREV m p)"
proof -
  assume "h \<in> dom m"
  from next_step [OF this, of h] obtain m1 where 1: "set_NEXT m h h = Some m1"
    "QUEUE_NEXT m1 = (QUEUE_NEXT m)(h \<mapsto> h)" "QUEUE_PREV m1 = QUEUE_PREV m" "dom m1 = dom m" .
  with \<open>h \<in> dom m\<close> prev_step [of h m1 h] obtain m2 where 2: "set_PREV m1 h h = Some m2"
    "QUEUE_PREV m2 = (QUEUE_PREV m1)(h \<mapsto> h)" "QUEUE_NEXT m2 = QUEUE_NEXT m1" "dom m2 = dom m1" by metis
  with 1 show ?thesis by (simp add: QUEUE_INIT_def queue_def)
qed

text \<open>Changing where a chain ends, or where it starts.\<close>

lemma chain_end:
  assumes "chain m a xs b" "distinct (a # xs)"
    "\<And>p. p \<in> set (a # xs) \<Longrightarrow> p \<noteq> last (a # xs) \<Longrightarrow> QUEUE_NEXT m' p = QUEUE_NEXT m p"
    "\<And>p. p \<in> set xs \<Longrightarrow> QUEUE_PREV m' p = QUEUE_PREV m p"
    "QUEUE_NEXT m' (last (a # xs)) = Some c" "QUEUE_PREV m' c = Some (last (a # xs))"
  shows "chain m' a xs c"
  using assms
proof (induction xs arbitrary: a)
  case (Cons x xs)
  have "a \<noteq> last (x # xs)" using Cons.prems(2) last_in_set [of "x # xs"] by auto
  with Cons.prems have "QUEUE_NEXT m' a = Some x" "QUEUE_PREV m' x = Some a" by simp_all
  moreover have "chain m' x xs c" by (rule Cons.IH) (use Cons.prems in simp_all)
  ultimately show ?case by simp
qed simp

lemma chain_start:
  assumes "chain m x ys b" "QUEUE_NEXT m' a = Some (hd (ys @ [b]))" "QUEUE_PREV m' (hd (ys @ [b])) = Some a"
    "\<And>p. p \<in> set ys \<Longrightarrow> QUEUE_NEXT m' p = QUEUE_NEXT m p" "\<And>p. p \<in> set (tl (ys @ [b])) \<Longrightarrow> QUEUE_PREV m' p = QUEUE_PREV m p"
  shows "chain m' a ys b"
proof (cases ys)
  case (Cons y zs)
  then have "chain m' y zs b = chain m y zs b" using assms(4,5) by (intro chain_cong) simp_all
  with Cons assms show ?thesis by simp
qed (use assms in simp)

text \<open>What an operation leaves as it was.\<close>

definition links_kept :: "nat set \<Rightarrow> queue_mem \<Rightarrow> queue_mem \<Rightarrow> bool" where
  "links_kept S m m' \<longleftrightarrow> dom m' = dom m \<and> (\<forall>p. p \<notin> S \<longrightarrow> QUEUE_NEXT m' p = QUEUE_NEXT m p \<and> QUEUE_PREV m' p = QUEUE_PREV m p)"

lemma queue_kept:
  assumes "links_kept S m m'" "S \<inter> set (h # xs) = {}"
  shows "queue m' h xs = queue m h xs"
proof -
  have "QUEUE_NEXT m' p = QUEUE_NEXT m p" "QUEUE_PREV m' p = QUEUE_PREV m p" if "p \<in> set (h # xs)" for p
    using assms that unfolding links_kept_def by blast+
  then have "chain m' h xs h = chain m h xs h" by (intro chain_cong) auto
  then show ?thesis by (simp add: queue_def)
qed

lemma INSERT_TAIL_queue:
  assumes "queue m h xs" "q \<in> dom m" "q \<notin> set (h # xs)"
  shows "\<exists>m'. QUEUE_INSERT_TAIL m h q = Some m' \<and> queue m' h (xs @ [q]) \<and> links_kept (set (q # h # xs)) m m'"
proof -
  let ?z = "last (h # xs)"
  note l = queue_links [OF assms(1)]
  have z: "?z \<in> set (h # xs)" by (rule last_in_set) simp
  have d: "{h, ?z, q} \<subseteq> dom m" "q \<noteq> h" using l(3) z assms(2,3) by auto
  from INSERT_TAIL_links [OF l(2) d] obtain m' where
    m': "QUEUE_INSERT_TAIL m h q = Some m'" "dom m' = dom m"
      "QUEUE_NEXT m' = (QUEUE_NEXT m)(q \<mapsto> h, ?z \<mapsto> q)" "QUEUE_PREV m' = (QUEUE_PREV m)(q \<mapsto> ?z, h \<mapsto> q)" by blast
  have "chain m' h xs q"
    by (rule chain_end [of m _ _ h]) (use assms m'(3,4) in \<open>auto simp: queue_def\<close>)
  then have "queue m' h (xs @ [q])"
    using assms z m'(3,4) by (auto simp: queue_def chain_append)
  moreover have "links_kept (set (q # h # xs)) m m'"
    using m'(2-4) z by (auto simp: links_kept_def)
  ultimately show ?thesis using m'(1) by blast
qed

lemma INSERT_HEAD_queue:
  assumes "queue m h xs" "q \<in> dom m" "q \<notin> set (h # xs)"
  shows "\<exists>m'. QUEUE_INSERT_HEAD m h q = Some m' \<and> queue m' h (q # xs) \<and> links_kept (set (q # h # xs)) m m'"
proof -
  let ?a = "hd (xs @ [h])"
  note l = queue_links [OF assms(1)]
  have a: "?a \<in> set (h # xs)" by (cases xs) simp_all
  have q: "{h, ?a, q} \<subseteq> dom m" "q \<noteq> h" using l(3) a assms(2,3) by auto
  from INSERT_HEAD_links [OF l(1) q] obtain m' where
    m': "QUEUE_INSERT_HEAD m h q = Some m'" "dom m' = dom m"
      "QUEUE_NEXT m' = (QUEUE_NEXT m)(q \<mapsto> ?a, h \<mapsto> q)" "QUEUE_PREV m' = (QUEUE_PREV m)(q \<mapsto> h, ?a \<mapsto> q)" by blast
  have d: "distinct (xs @ [h])" using assms(1) by (simp add: queue_def)
  then have t: "p \<noteq> ?a" "p \<in> set (h # xs)" if "p \<in> set (tl (xs @ [h]))" for p
    using that by (cases xs; auto)+
  have "chain m' q xs h"
    by (rule chain_start [of m h]) (use assms m'(3,4) t in \<open>auto simp: queue_def\<close>)
  then have "queue m' h (q # xs)"
    using assms a m'(3,4) by (auto simp: queue_def)
  moreover have "links_kept (set (q # h # xs)) m m'"
    using m'(2-4) a by (auto simp: links_kept_def)
  ultimately show ?thesis using m'(1) by blast
qed

lemma REMOVE_queue:
  assumes "queue m h (xs @ x # ys)"
  shows "\<exists>m'. QUEUE_REMOVE m x = Some m' \<and> queue m' h (xs @ ys) \<and> links_kept (set (h # xs @ ys)) m m'"
proof -
  let ?a = "last (h # xs)" and ?b = "hd (ys @ [h])"
  have c: "chain m h xs x" "chain m x ys h" "distinct (h # xs @ x # ys)"
    using assms by (simp_all add: queue_def chain_append)
  have a: "?a \<in> set (h # xs)" by (rule last_in_set) simp
  have b: "?b \<in> set (ys @ [h])" by (cases ys) simp_all
  have "set (h # xs @ ys) \<subseteq> dom m" using chain_alloc [OF c(1)] chain_alloc [OF c(2)] by auto
  with a b have "{?a, ?b} \<subseteq> dom m" by auto
  moreover have "?a \<noteq> x" using a c(3) by auto
  ultimately obtain m' where m': "QUEUE_REMOVE m x = Some m'" "dom m' = dom m"
      "QUEUE_NEXT m' = (QUEUE_NEXT m)(?a \<mapsto> ?b)" "QUEUE_PREV m' = (QUEUE_PREV m)(?b \<mapsto> ?a)"
    using REMOVE_links [of m x ?a ?b] chain_links [OF c(1)] chain_links [OF c(2)] by auto
  have bx: "?b \<notin> set xs" using b c(3) by auto
  have e: "chain m' h xs ?b"
    by (rule chain_end [OF c(1)]) (use c(3) m'(3,4) bx in auto)
  have "chain m' h (xs @ ys) h"
  proof (cases ys)
    case Nil
    with e show ?thesis by simp
  next
    case (Cons y zs)
    have "chain m' y zs h = chain m y zs h"
      by (rule chain_cong) (use Cons c(3) a m'(3,4) in auto)
    with Cons c(2) e show ?thesis by (simp add: chain_append)
  qed
  then have "queue m' h (xs @ ys)" using c(3) by (simp add: queue_def)
  moreover have "links_kept (set (h # xs @ ys)) m m'"
    using m'(2-4) a b by (auto simp: links_kept_def)
  ultimately show ?thesis using m'(1) by blast
qed

lemma SPLIT_queue:
  assumes "queue m h (xs @ q # ys)" "n \<in> dom m" "n \<notin> set (h # xs @ q # ys)"
  shows "\<exists>m'. QUEUE_SPLIT m h q n = Some m' \<and> queue m' h xs \<and> queue m' n (q # ys) \<and>
    links_kept (set (n # h # xs @ q # ys)) m m'"
proof -
  let ?a = "last (h # xs)" and ?z = "last (q # ys)"
  have c: "chain m h xs q" "chain m q ys h" "distinct (h # xs @ q # ys)"
    using assms(1) by (simp_all add: queue_def chain_append)
  have a: "?a \<in> set (h # xs)" by (rule last_in_set) simp
  have z: "?z \<in> set (q # ys)" by (rule last_in_set) simp
  have "set (h # xs @ q # ys) \<subseteq> dom m" using chain_alloc [OF c(1)] chain_alloc [OF c(2)] by auto
  with a z assms(2) have "{h, ?z, n, q, ?a} \<subseteq> dom m" by auto
  then obtain m' where m': "QUEUE_SPLIT m h q n = Some m'" "dom m' = dom m"
      "QUEUE_NEXT m' = (QUEUE_NEXT m)(?z \<mapsto> n, n \<mapsto> q, ?a \<mapsto> h)" "QUEUE_PREV m' = (QUEUE_PREV m)(n \<mapsto> ?z, h \<mapsto> ?a, q \<mapsto> n)"
    using SPLIT_links [of m h ?z q ?a n] chain_links [OF c(1)] chain_links [OF c(2)] c(3) assms(3) by auto
  have "?a \<noteq> n" "?a \<notin> set (q # ys)" "?z \<noteq> n" "?z \<notin> set (h # xs)" using a z c(3) assms(3) by auto
  note ne = this
  have "chain m' h xs h"
    by (rule chain_end [OF c(1)]) (use c(3) assms(3) m'(3,4) ne in \<open>auto split: if_splits\<close>)
  moreover have "chain m' q ys n"
    by (rule chain_end [OF c(2)]) (use c(3) assms(3) m'(3,4) ne in \<open>auto split: if_splits\<close>)
  moreover have "QUEUE_NEXT m' n = Some q" "QUEUE_PREV m' q = Some n" using m'(3,4) ne assms(3) c(3) by auto
  ultimately have "queue m' h xs" "queue m' n (q # ys)" using c(3) assms(3) by (auto simp: queue_def)
  moreover have "links_kept (set (n # h # xs @ q # ys)) m m'"
    using m'(2-4) a z by (auto simp: links_kept_def)
  ultimately show ?thesis using m'(1) by blast
qed

lemma MOVE_queue:
  assumes "queue m h xs" "n \<in> dom m" "n \<notin> set (h # xs)"
  shows "\<exists>m'. QUEUE_MOVE m h n = Some m' \<and> queue m' h [] \<and> queue m' n xs \<and> links_kept (set (n # h # xs)) m m'"
proof (cases xs)
  case Nil
  from INIT_queue [OF assms(2)] obtain m' where
    m': "QUEUE_INIT m n = Some m'" "queue m' n []" "links_kept {n} m m'" by (auto simp: links_kept_def)
  moreover have "queue m' h []" using queue_kept [OF m'(3), of h "[]"] assms Nil by simp
  ultimately show ?thesis using EMPTY_queue [OF assms(1)] Nil
    by (auto simp: QUEUE_MOVE_def links_kept_def)
next
  case (Cons x ys)
  with assms SPLIT_queue [of m h "[]" x ys n] EMPTY_queue [OF assms(1)] HEAD_queue [of m h x ys] show ?thesis
    by (auto simp: QUEUE_MOVE_def)
qed

lemma ADD_queue:
  assumes "queue m h xs" "queue m n ys" "ys \<noteq> []" "set (h # xs) \<inter> set (n # ys) = {}"
  shows "\<exists>m'. QUEUE_ADD m h n = Some m' \<and> queue m' h (xs @ ys)"
proof -
  let ?z = "last (h # xs)" and ?y = "last ys"
  from assms(3) obtain b zs where ys: "ys = b # zs" by (cases ys) auto
  note l = queue_links [OF assms(1)] and k = queue_links [OF assms(2)]
  have z: "?z \<in> set (h # xs)" by (rule last_in_set) simp
  have y: "?y \<in> set ys" using assms(3) by simp
  have d: "distinct (h # xs)" "distinct (n # ys)" "chain m h xs h" "chain m b zs n"
    using assms(1,2) ys by (simp_all add: queue_def)
  have ad: "{h, ?z, b, ?y} \<subseteq> dom m" using l(3) k(3) z y ys by auto
  have ne: "?z \<noteq> n" "b \<noteq> n" "b \<noteq> h" "?z \<notin> set ys" "?y \<notin> set (h # xs)" using z y assms(4) d(2) ys by auto
  from ADD_links [OF l(2) _ _ ad ne(1-3)] k(1,2) ys obtain m' where
    m': "QUEUE_ADD m h n = Some m'" "QUEUE_NEXT m' = (QUEUE_NEXT m)(?z \<mapsto> b, ?y \<mapsto> h)"
      "QUEUE_PREV m' = (QUEUE_PREV m)(b \<mapsto> ?z, h \<mapsto> ?y)" by auto
  have "chain m' h xs b"
    by (rule chain_end [OF d(3)]) (use d assms(4) m'(2,3) ne ys in \<open>auto split: if_splits\<close>)
  moreover have "chain m' b zs h"
    by (rule chain_end [OF d(4)]) (use d assms(4) m'(2,3) ne ys in \<open>auto split: if_splits\<close>)
  ultimately have "queue m' h (xs @ ys)" using d assms(4) ys by (auto simp: queue_def chain_append)
  with m'(1) show ?thesis by blast
qed

lemma FOREACH_chain: "chain m a xs h \<Longrightarrow> h \<notin> set xs \<Longrightarrow>
    QUEUE_FOREACH (Suc (length xs)) m h (hd (xs @ [h])) = Some xs"
proof (induction xs arbitrary: a)
  case (Cons x xs)
  obtain n where n: "n = Suc (length xs)" by blast
  from Cons have "QUEUE_NEXT m x = Some (hd (xs @ [h]))" using chain_links [of m x xs h] by simp
  moreover have "QUEUE_FOREACH n m h (hd (xs @ [h])) = Some xs" unfolding n by (rule Cons.IH [of x]) (use Cons.prems in simp_all)
  ultimately have "QUEUE_FOREACH (Suc n) m h x = Some (x # xs)" using Cons.prems(2) by simp
  then show ?case by (simp add: n)
qed simp

interpretation qu: intrusive_queue queue dom QUEUE_EMPTY QUEUE_HEAD QUEUE_REMOVE QUEUE_INSERT_TAIL QUEUE_MOVE
proof
  show "queue m h xs \<Longrightarrow> QUEUE_EMPTY m h = Some (xs = [])" for m h xs by (rule EMPTY_queue)
  show "queue m h (x # xs) \<Longrightarrow> QUEUE_HEAD m h = Some x" for m h x xs by (rule HEAD_queue)
  show "queue m h (x # xs) \<Longrightarrow> \<exists>m'. QUEUE_REMOVE m x = Some m' \<and> queue m' h xs \<and> dom m' = dom m" for m h x xs
    using REMOVE_queue [of m h "[]" x xs] by (auto simp: links_kept_def)
  show "queue m h xs \<Longrightarrow> q \<in> dom m \<Longrightarrow> q \<notin> set (h # xs) \<Longrightarrow>
      \<exists>m'. QUEUE_INSERT_TAIL m h q = Some m' \<and> queue m' h (xs @ [q]) \<and> dom m' = dom m" for m h xs q
    using INSERT_TAIL_queue [of m h xs q] by (auto simp: links_kept_def)
  show "queue m h xs \<Longrightarrow> n \<in> dom m \<Longrightarrow> n \<notin> set (h # xs) \<Longrightarrow>
      \<exists>m'. QUEUE_MOVE m h n = Some m' \<and> queue m' h [] \<and> queue m' n xs \<and> dom m' = dom m" for m h xs n
    using MOVE_queue [of m h xs n] by (auto simp: links_kept_def)
qed

section \<open>What the macros promise\<close>

text \<open>C21: On a queue that holds the nodes \<open>xs\<close>, and a node \<open>q\<close> allocated outside it, every macro does what its name
  says to the list: none reads or writes a link outside the queue and \<open>q\<close>, none touches a node that is not
  allocated, and the links of \<open>q\<close> may be uninitialised before.\<close>

theorem queue_macros_refine_lists:
  assumes "queue m h xs" "q \<in> dom m" "q \<notin> set (h # xs)"
  shows "QUEUE_EMPTY m h = Some (xs = []) \<and>
    (\<exists>m'. QUEUE_INSERT_TAIL m h q = Some m' \<and> queue m' h (xs @ [q]) \<and> links_kept (set (q # h # xs)) m m') \<and>
    (\<exists>m'. QUEUE_INSERT_HEAD m h q = Some m' \<and> queue m' h (q # xs) \<and> links_kept (set (q # h # xs)) m m') \<and>
    (\<exists>m'. QUEUE_MOVE m h q = Some m' \<and> queue m' h [] \<and> queue m' q xs \<and> links_kept (set (q # h # xs)) m m') \<and>
    (\<forall>ys x zs. xs = ys @ x # zs \<longrightarrow>
      (\<exists>m'. QUEUE_REMOVE m x = Some m' \<and> queue m' h (ys @ zs) \<and> links_kept (set (h # ys @ zs)) m m') \<and>
      (\<exists>m'. QUEUE_SPLIT m h x q = Some m' \<and> queue m' h ys \<and> queue m' q (x # zs) \<and> links_kept (set (q # h # xs)) m m')) \<and>
    (\<exists>p. QUEUE_HEAD m h = Some p \<and> QUEUE_FOREACH (Suc (length xs)) m h p = Some xs)"
proof (intro conjI allI impI)
  show "QUEUE_EMPTY m h = Some (xs = [])" by (rule EMPTY_queue [OF assms(1)])
  show "\<exists>m'. QUEUE_INSERT_TAIL m h q = Some m' \<and> queue m' h (xs @ [q]) \<and> links_kept (set (q # h # xs)) m m'"
    by (rule INSERT_TAIL_queue [OF assms])
  show "\<exists>m'. QUEUE_INSERT_HEAD m h q = Some m' \<and> queue m' h (q # xs) \<and> links_kept (set (q # h # xs)) m m'"
    by (rule INSERT_HEAD_queue [OF assms])
  show "\<exists>m'. QUEUE_MOVE m h q = Some m' \<and> queue m' h [] \<and> queue m' q xs \<and> links_kept (set (q # h # xs)) m m'"
    by (rule MOVE_queue [OF assms])
  show "\<exists>p. QUEUE_HEAD m h = Some p \<and> QUEUE_FOREACH (Suc (length xs)) m h p = Some xs"
    using FOREACH_chain [of m h xs h] queue_links(1) [OF assms(1)] assms(1) by (simp add: QUEUE_HEAD_def queue_def)
  fix ys x zs assume xs: "xs = ys @ x # zs"
  with assms(1) have q: "queue m h (ys @ x # zs)" by simp
  show "\<exists>m'. QUEUE_REMOVE m x = Some m' \<and> queue m' h (ys @ zs) \<and> links_kept (set (h # ys @ zs)) m m'"
    by (rule REMOVE_queue [OF q])
  show "\<exists>m'. QUEUE_SPLIT m h x q = Some m' \<and> queue m' h ys \<and> queue m' q (x # zs) \<and> links_kept (set (q # h # xs)) m m'"
    unfolding xs by (rule SPLIT_queue [OF q]) (use assms xs in auto)
qed

text \<open>A memory with a queue at 0 that holds the node 1, and a fresh node 2.\<close>

abbreviation queue_one :: queue_mem where
  "queue_one \<equiv> [0 \<mapsto> \<lparr>qn_next = Some 1, qn_prev = Some 1\<rparr>, 1 \<mapsto> \<lparr>qn_next = Some 0, qn_prev = Some 0\<rparr>,
     2 \<mapsto> \<lparr>qn_next = None, qn_prev = None\<rparr>]"

lemma queue_one: "queue queue_one 0 [1]" "2 \<in> dom queue_one" "2 \<notin> set [0, 1 :: nat]"
  by (simp_all add: queue_def QUEUE_NEXT_def QUEUE_PREV_def)

lemma queue_macros_refine_lists_witness: "\<exists>m. QUEUE_INSERT_TAIL queue_one 0 2 = Some m \<and> queue m 0 [1, 2]"
  using queue_macros_refine_lists [OF queue_one] by auto

text \<open>First in, first out: the nodes appended to an empty queue one by one, moved to a local head, and removed there
  from the front until it is empty, come out in the order they went in, and both queues end empty.\<close>

theorem queue_fifo:
  assumes "queue m h []" "set qs \<subseteq> dom m" "distinct qs" "h \<notin> set qs" "n \<in> dom m" "n \<notin> set (h # qs)"
  shows "\<exists>m1 m2 m3. insert_all QUEUE_INSERT_TAIL m h qs = Some m1 \<and> QUEUE_MOVE m1 h n = Some m2 \<and>
    take_all QUEUE_EMPTY QUEUE_HEAD QUEUE_REMOVE (Suc (length qs)) m2 n = Some (qs, m3) \<and> queue m2 h [] \<and> queue m3 n []"
  by (rule qu.fifo [OF assms])

lemma queue_fifo_witness:
  "\<exists>m m1 m2 m3. insert_all QUEUE_INSERT_TAIL m 0 [3, 1] = Some m1 \<and> QUEUE_MOVE m1 0 2 = Some m2 \<and>
    take_all QUEUE_EMPTY QUEUE_HEAD QUEUE_REMOVE 3 m2 2 = Some ([3, 1], m3)"
proof -
  let ?m = "\<lambda>p :: nat. if p = 0 then Some \<lparr>qn_next = Some 0, qn_prev = Some 0\<rparr> else Some \<lparr>qn_next = None, qn_prev = None\<rparr>"
  have "queue ?m 0 []" "set [3, 1 :: nat] \<subseteq> dom ?m" "(2 :: nat) \<in> dom ?m"
    by (simp_all add: queue_def QUEUE_NEXT_def QUEUE_PREV_def dom_def)
  from queue_fifo [OF this(1,2) _ _ this(3)] show ?thesis by (auto simp: eval_nat_numeral)
qed

end
