(* ===== verification/ServiceQueue.thy ===== *)
theory ServiceQueue
  imports Prelude Interfaces
begin

text \<open>
  The queue of a service (\<open>service/source/service_t.c\<close>, \<open>service-inl.h\<close>) and the event watcher that wakes it
  (\<open>core/source/eventIO/posix/eventWatcher_t.c\<close>), as the steps that any number of threads interleave: an atomic
  operation, a section under the lock of the queue, or a call of the callback is one step.  A pending queue is the list
  of its events (theory \<open>Queue\<close> is about the links).  That a posted function runs, once, in some thread of the event
  loop is what \<open>eventIO_postQueued\<close> is for; theory \<open>EventIO\<close> shows it.
\<close>

section \<open>The event watcher\<close>

text \<open>The status: 0 not started or closed, 1 waiting, 2 posted, 3 running until it is reset.\<close>

definition eventWatcher_start :: "int \<Rightarrow> int \<times> bool" where
  "eventWatcher_start iStatus = (if iStatus = 0 then (1, True) else (iStatus, False))"

definition eventWatcher_isRunning :: "int \<Rightarrow> bool" where
  "eventWatcher_isRunning iStatus \<longleftrightarrow> iStatus \<noteq> 0"

text \<open>Whether the watcher is posted now.\<close>

definition eventWatcher_notify :: "int \<Rightarrow> int \<times> bool" where
  "eventWatcher_notify iStatus = (if iStatus = 1 then (2, True) else (iStatus, False))"

definition eventWatcher_reset :: "int \<Rightarrow> int" where
  "eventWatcher_reset iStatus = (if iStatus = 3 then 1 else iStatus)"

definition eventWatcher_close :: "int \<Rightarrow> int \<times> bool" where
  "eventWatcher_close iStatus = (0, iStatus = 1)"

text \<open>What the posted function does: call the function of the watcher, drop a reference, or nothing.\<close>

datatype watcher_action = WatcherCall | WatcherRelease | WatcherNothing

definition inLoop_eventWatcher_notify :: "bool \<Rightarrow> int \<Rightarrow> int \<times> watcher_action" where
  "inLoop_eventWatcher_notify bManualReset iStatus =
     (if iStatus = 2 then (if bManualReset then 1 else 3, WatcherCall)
      else if iStatus = 0 then (iStatus, WatcherRelease)
      else (iStatus, WatcherNothing))"

section \<open>The service\<close>

datatype sv_event = Event nat | ServiceStop

text \<open>The state that threads share: the fields of the service, the status of its watcher, how often the watcher is
  posted and not run yet, and the count of waiters.  The events inserted and handed to the callback so far are recorded
  for the statements.  \<open>sv_crash\<close>: a thread followed a NULL pointer or failed an assertion.\<close>

record service =
  sv_bRunning :: bool
  sv_uiQueueSize :: u32
  sv_queuePending :: "sv_event list"
  sv_pEventWatcher :: bool
  sv_iStatus :: int
  sv_posted :: nat
  sv_iWaitforService :: u32
  sv_inserted :: "sv_event list"
  sv_handled :: "sv_event list"
  sv_crash :: bool

definition service_wakeUp :: "service \<Rightarrow> service" where
  "service_wakeUp s = s\<lparr>sv_iWaitforService := sv_iWaitforService s - 1\<rparr>"

definition service_waitForCount :: "service \<Rightarrow> int" where
  "service_waitForCount s = sint (sv_iWaitforService s)"

text \<open>Where a thread is, by the step it takes next; a batch is the queue a consumer has moved to its local head.\<close>

datatype sv_pc =
    SvIdle
  | SvStarted                               \<comment> \<open>\<open>service_start\<close>, before \<open>eventWatcher_start\<close>\<close>
  | SvEnqueue sv_event                      \<comment> \<open>before the count\<close>
  | SvInsert sv_event                       \<comment> \<open>before the insertion\<close>
  | SvNotify                                \<comment> \<open>\<open>service_notify\<close>, before it reads \<open>pEventWatcher\<close>\<close>
  | SvNotifyStatus                          \<comment> \<open>before the exchange of the status\<close>
  | SvPost                                  \<comment> \<open>before \<open>eventIO_postQueued\<close>\<close>
  | SvNotified                              \<comment> \<open>before \<open>service_wakeUp\<close>\<close>
  | SvFunctors                              \<comment> \<open>\<open>doPendingFunctors\<close>, before \<open>service_wakeUp\<close>\<close>
  | SvMove                                  \<comment> \<open>before the queue is moved\<close>
  | SvTake "sv_event list"                  \<comment> \<open>before an event is taken from the batch\<close>
  | SvCount sv_event "sv_event list"        \<comment> \<open>before the count\<close>
  | SvCall sv_event "sv_event list"         \<comment> \<open>before \<open>service_eventCallback\<close>\<close>
  | SvStopNull "sv_event list"              \<comment> \<open>handling the stop, before \<open>pEventWatcher = NULL\<close>\<close>
  | SvStopReset "sv_event list"
  | SvStopClose "sv_event list"
  | SvStopPost "sv_event list"
  | SvStopped "sv_event list"
  | SvBatchDone                             \<comment> \<open>before the size is read after a batch\<close>
  | SvBatchWait                             \<comment> \<open>before the count of waiters is read\<close>
  | SvBatchReset
  | SvReset                                 \<comment> \<open>the queue was empty, before the watcher is reset\<close>
  | SvCheck                                 \<comment> \<open>before the size is read again\<close>

text \<open>A thread outside these functions may send an event, stop the service, or run the posted watcher.\<close>

datatype sv_action = SvSend nat | SvStop | SvRunPosted | SvContinue

text \<open>The first step of a call.\<close>

fun sv_begin :: "sv_action \<Rightarrow> service \<Rightarrow> (service \<times> sv_pc) option" where
  "sv_begin (SvSend n) s = Some (s, if sv_bRunning s then SvEnqueue (Event n) else SvIdle)"
| "sv_begin SvStop s =
     Some (if sv_bRunning s then (s\<lparr>sv_bRunning := False\<rparr>, SvEnqueue ServiceStop) else (s, SvIdle))"
| "sv_begin SvRunPosted s =
     (if sv_posted s = 0 then None
      else case inLoop_eventWatcher_notify False (sv_iStatus s) of (st, act) \<Rightarrow>
        Some (s\<lparr>sv_posted := sv_posted s - 1, sv_iStatus := st\<rparr>, if act = WatcherCall then SvFunctors else SvIdle))"
| "sv_begin SvContinue s = None"

text \<open>The steps of \<open>service_start\<close>, \<open>service_enqueue\<close> (and \<open>service_stop\<close>, which inserts without a check) and
  \<open>service_notify\<close>.  The count of events is taken not to wrap.\<close>

fun sv_producer :: "service \<Rightarrow> sv_pc \<Rightarrow> (service \<times> sv_pc) option" where
  "sv_producer s SvStarted = Some (s\<lparr>sv_iStatus := fst (eventWatcher_start (sv_iStatus s))\<rparr>, SvNotify)"
| "sv_producer s (SvEnqueue e) =
     (if sv_uiQueueSize s = - 1 then None
      else Some (s\<lparr>sv_uiQueueSize := sv_uiQueueSize s + 1\<rparr>, SvInsert e))"
| "sv_producer s (SvInsert e) =
     Some (s\<lparr>sv_queuePending := sv_queuePending s @ [e], sv_inserted := sv_inserted s @ [e]\<rparr>, SvNotify)"
| "sv_producer s SvNotify =
     Some (if sv_pEventWatcher s then (s, SvNotifyStatus) else (s\<lparr>sv_crash := True\<rparr>, SvIdle))"
| "sv_producer s SvNotifyStatus =
     (case eventWatcher_notify (sv_iStatus s) of (st, b) \<Rightarrow> Some (s\<lparr>sv_iStatus := st\<rparr>, if b then SvPost else SvIdle))"
| "sv_producer s SvPost = Some (s\<lparr>sv_posted := sv_posted s + 1\<rparr>, SvNotified)"
| "sv_producer s SvNotified = Some (service_wakeUp s, SvIdle)"
| "sv_producer s _ = None"

text \<open>The steps of \<open>doPendingFunctors\<close>, and of the handling of the stop.\<close>

fun sv_consumer :: "service \<Rightarrow> sv_pc \<Rightarrow> (service \<times> sv_pc) option" where
  "sv_consumer s SvFunctors = Some (service_wakeUp s, SvMove)"
| "sv_consumer s SvMove =
     Some (s\<lparr>sv_queuePending := []\<rparr>, if sv_queuePending s = [] then SvReset else SvTake (sv_queuePending s))"
| "sv_consumer s (SvTake es) = (case es of [] \<Rightarrow> None | e # es \<Rightarrow> Some (s, SvCount e es))"
| "sv_consumer s (SvCount e es) = Some (s\<lparr>sv_uiQueueSize := sv_uiQueueSize s - 1\<rparr>, SvCall e es)"
| "sv_consumer s (SvCall e es) =
     Some (s\<lparr>sv_handled := sv_handled s @ [e]\<rparr>,
           if e = ServiceStop then SvStopNull es else if es = [] then SvBatchDone else SvTake es)"
| "sv_consumer s (SvStopNull es) =
     Some (if sv_pEventWatcher s then (s\<lparr>sv_pEventWatcher := False\<rparr>, SvStopReset es) else (s, SvStopped es))"
| "sv_consumer s (SvStopReset es) = Some (s\<lparr>sv_iStatus := eventWatcher_reset (sv_iStatus s)\<rparr>, SvStopClose es)"
| "sv_consumer s (SvStopClose es) =
     (case eventWatcher_close (sv_iStatus s) of (st, b) \<Rightarrow>
        Some (s\<lparr>sv_iStatus := st\<rparr>, if b then SvStopPost es else SvStopped es))"
| "sv_consumer s (SvStopPost es) = Some (s\<lparr>sv_posted := sv_posted s + 1\<rparr>, SvStopped es)"
| "sv_consumer s (SvStopped es) = Some (if es = [] then s else s\<lparr>sv_crash := True\<rparr>, SvIdle)"
| "sv_consumer s SvBatchDone = Some (s, if sv_uiQueueSize s > 0 then SvBatchWait else SvMove)"
| "sv_consumer s SvBatchWait = Some (s, if service_waitForCount s > 0 then SvBatchReset else SvMove)"
| "sv_consumer s SvBatchReset =
     Some (if sv_pEventWatcher s then s\<lparr>sv_iStatus := eventWatcher_reset (sv_iStatus s)\<rparr> else s, SvNotify)"
| "sv_consumer s SvReset =
     Some (if sv_pEventWatcher s then s\<lparr>sv_iStatus := eventWatcher_reset (sv_iStatus s)\<rparr> else s, SvCheck)"
| "sv_consumer s SvCheck = Some (s, if sv_uiQueueSize s > 0 then SvNotify else SvIdle)"
| "sv_consumer s _ = None"

text \<open>One step of a thread; \<open>None\<close> when it has no such step.\<close>

definition sv_move :: "sv_action \<Rightarrow> service \<Rightarrow> sv_pc \<Rightarrow> (service \<times> sv_pc) option" where
  "sv_move a s pc =
     (if a = SvContinue then (case sv_producer s pc of None \<Rightarrow> sv_consumer s pc | r \<Rightarrow> r)
      else if pc = SvIdle then sv_begin a s else None)"

text \<open>Threads; a crash ends the program.  A service starts when \<open>service_start\<close> has created its watcher.\<close>

record sv_state =
  sv_shared :: service
  sv_threads :: "sv_pc list"

definition sv_created :: service where
  "sv_created = \<lparr>sv_bRunning = True, sv_uiQueueSize = 0, sv_queuePending = [], sv_pEventWatcher = True, sv_iStatus = 0,
     sv_posted = 0, sv_iWaitforService = 0, sv_inserted = [], sv_handled = [], sv_crash = False\<rparr>"

definition sv_start :: "nat \<Rightarrow> sv_state \<Rightarrow> bool" where
  "sv_start n c \<longleftrightarrow> sv_shared c = sv_created \<and> sv_threads c = SvStarted # replicate n SvIdle"

definition sv_next :: "sv_state \<Rightarrow> nat \<times> sv_action \<Rightarrow> sv_state option" where
  "sv_next c = (\<lambda>(t, a).
     if sv_crash (sv_shared c) \<or> length (sv_threads c) \<le> t then None
     else map_option (\<lambda>(s, pc). \<lparr>sv_shared = s, sv_threads = (sv_threads c)[t := pc]\<rparr>)
       (sv_move a (sv_shared c) (sv_threads c ! t)))"

definition sv_step :: "sv_state \<Rightarrow> sv_state \<Rightarrow> bool" where
  "sv_step c c' \<longleftrightarrow> (\<exists>x. sv_next c x = Some c')"

section \<open>What the threads hold\<close>

text \<open>For each point of a thread: whether it has the watcher to itself, is starting it, posting it, stopping the service,
  going to notify or check; how many counted events it holds that are not in the queue; the events in its hands.\<close>

fun sv_owner :: "sv_pc \<Rightarrow> nat" where
  "sv_owner SvFunctors = 1" | "sv_owner SvMove = 1" | "sv_owner (SvTake es) = 1" | "sv_owner (SvCount e es) = 1"
| "sv_owner (SvCall e es) = 1" | "sv_owner (SvStopNull es) = 1" | "sv_owner SvBatchDone = 1" | "sv_owner SvBatchWait = 1"
| "sv_owner SvBatchReset = 1" | "sv_owner SvReset = 1" | "sv_owner _ = 0"

fun sv_starting :: "sv_pc \<Rightarrow> nat" where
  "sv_starting SvStarted = 1" | "sv_starting _ = 0"

fun sv_posting :: "sv_pc \<Rightarrow> nat" where
  "sv_posting SvPost = 1" | "sv_posting _ = 0"

fun sv_stopping :: "sv_pc \<Rightarrow> nat" where
  "sv_stopping (SvStopReset es) = 1" | "sv_stopping (SvStopClose es) = 1" | "sv_stopping (SvStopPost es) = 1"
| "sv_stopping (SvStopped es) = 1" | "sv_stopping _ = 0"

fun sv_waking :: "sv_pc \<Rightarrow> nat" where
  "sv_waking SvStarted = 1" | "sv_waking SvNotify = 1" | "sv_waking SvNotifyStatus = 1" | "sv_waking SvCheck = 1"
| "sv_waking _ = 0"

fun sv_held :: "sv_pc \<Rightarrow> nat" where
  "sv_held (SvInsert e) = 1" | "sv_held (SvTake es) = length es" | "sv_held (SvCount e es) = Suc (length es)"
| "sv_held (SvCall e es) = length es" | "sv_held (SvStopNull es) = length es" | "sv_held _ = 0"

fun sv_hands :: "sv_pc \<Rightarrow> sv_event list" where
  "sv_hands (SvTake es) = es" | "sv_hands (SvCount e es) = e # es" | "sv_hands (SvCall e es) = e # es"
| "sv_hands (SvStopNull es) = es" | "sv_hands _ = []"

fun sv_stuck :: "sv_pc \<Rightarrow> nat" where
  "sv_stuck (SvTake []) = 1" | "sv_stuck _ = 0"

text \<open>The invariant, until the stop is handled: the status says who has the watcher; if there are events in the queue
  somebody will look; the count is of the events inserted or about to be and not handled; every event inserted was
  handled, is in the hands of the owner, or is in the queue, in that order.\<close>

definition sv_ok :: "service \<Rightarrow> nat \<Rightarrow> nat \<Rightarrow> nat \<Rightarrow> nat \<Rightarrow> nat \<Rightarrow> nat \<Rightarrow> sv_event list \<Rightarrow> bool" where
  "sv_ok s own st post stop wake held hands \<longleftrightarrow> (sv_pEventWatcher s \<longrightarrow>
     0 \<le> sv_iStatus s \<and> sv_iStatus s \<le> 3 \<and> own = (if sv_iStatus s = 3 then 1 else 0) \<and> st = (if sv_iStatus s = 0 then 1 else 0) \<and>
     sv_posted s + post = (if sv_iStatus s = 2 then 1 else 0) \<and> stop = 0 \<and>
     (sv_queuePending s \<noteq> [] \<longrightarrow> sv_iStatus s \<noteq> 2 \<longrightarrow> sv_iStatus s \<noteq> 3 \<longrightarrow> 1 \<le> wake) \<and>
     sv_uiQueueSize s = of_nat (length (sv_queuePending s) + held) \<and> length (sv_queuePending s) + held < 2 ^ 32 \<and>
     sv_inserted s = sv_handled s @ hands @ sv_queuePending s \<and> \<not> sv_crash s)"

abbreviation sv_sum :: "(sv_pc \<Rightarrow> nat) \<Rightarrow> sv_pc list \<Rightarrow> nat" where
  "sv_sum f p \<equiv> sum_list (map f p)"

definition sv_inv :: "sv_state \<Rightarrow> bool" where
  "sv_inv c \<longleftrightarrow> sv_ok (sv_shared c) (sv_sum sv_owner (sv_threads c)) (sv_sum sv_starting (sv_threads c))
     (sv_sum sv_posting (sv_threads c)) (sv_sum sv_stopping (sv_threads c)) (sv_sum sv_waking (sv_threads c))
     (sv_sum sv_held (sv_threads c)) (concat (map sv_hands (sv_threads c))) \<and> sv_sum sv_stuck (sv_threads c) = 0"

lemma hands_owner: "sv_sum sv_owner p = 0 \<Longrightarrow> concat (map sv_hands p) = []"
proof (induction p)
  case (Cons c p)
  then have "sv_hands c = []" by (cases c) auto
  with Cons show ?case by simp
qed simp

lemma count_facts:
  fixes v :: u32
  assumes "v = of_nat n" "n < 2 ^ 32"
  shows "v > 0 \<longleftrightarrow> 0 < n" "v \<noteq> - 1 \<Longrightarrow> Suc n < 2 ^ 32"
proof -
  have n: "unat v = n" using assms by (simp add: unat_of_nat)
  show "v > 0 \<longleftrightarrow> 0 < n" using n by (metis unat_gt_0 word_neq_0_conv)
  assume "v \<noteq> - 1"
  show "Suc n < 2 ^ 32"
  proof (rule ccontr)
    assume "\<not> ?thesis"
    with assms(2) have "n = 2 ^ 32 - 1" by simp
    with assms(1) \<open>v \<noteq> - 1\<close> show False by simp
  qed
qed

lemmas watcher_defs = eventWatcher_start_def eventWatcher_notify_def eventWatcher_reset_def eventWatcher_close_def
  inLoop_eventWatcher_notify_def service_wakeUp_def

text \<open>Only the handling of the stop clears \<open>pEventWatcher\<close>, and nothing sets it.\<close>

lemma watcher_stays: "sv_move a s c = Some (s', c') \<Longrightarrow> sv_pEventWatcher s' \<Longrightarrow> sv_pEventWatcher s"
  by (cases a; cases c; auto simp: sv_move_def watcher_defs split: if_splits list.splits)

lemma sv_okI:
  assumes "sv_pEventWatcher s \<Longrightarrow> 0 \<le> sv_iStatus s \<and> sv_iStatus s \<le> 3"
    "sv_pEventWatcher s \<Longrightarrow> own = (if sv_iStatus s = 3 then 1 else 0)"
    "sv_pEventWatcher s \<Longrightarrow> st = (if sv_iStatus s = 0 then 1 else 0)"
    "sv_pEventWatcher s \<Longrightarrow> sv_posted s + post = (if sv_iStatus s = 2 then 1 else 0)"
    "sv_pEventWatcher s \<Longrightarrow> stop = 0"
    "sv_pEventWatcher s \<Longrightarrow> sv_queuePending s \<noteq> [] \<Longrightarrow> sv_iStatus s \<noteq> 2 \<Longrightarrow> sv_iStatus s \<noteq> 3 \<Longrightarrow> 1 \<le> wake"
    "sv_pEventWatcher s \<Longrightarrow> sv_uiQueueSize s = of_nat (length (sv_queuePending s) + held)"
    "sv_pEventWatcher s \<Longrightarrow> length (sv_queuePending s) + held < 2 ^ 32"
    "sv_pEventWatcher s \<Longrightarrow> sv_inserted s = sv_handled s @ hands @ sv_queuePending s"
    "sv_pEventWatcher s \<Longrightarrow> \<not> sv_crash s"
  shows "sv_ok s own st post stop wake held hands"
  using assms unfolding sv_ok_def by blast

lemma sv_begin_ok:
  assumes "sv_begin a s = Some (s', c')" "sv_ok s own st post stop wake held (hl @ hr)" "own = 0 \<Longrightarrow> hl = [] \<and> hr = []"
  shows "sv_ok s' (sv_owner c' + own) (sv_starting c' + st) (sv_posting c' + post) (sv_stopping c' + stop)
    (sv_waking c' + wake) (sv_held c' + held) (hl @ sv_hands c' @ hr)"
proof (cases a)
  case SvRunPosted
  show ?thesis
  proof (cases "sv_iStatus s = 2")
    case True
    with SvRunPosted assms show ?thesis by (auto simp: sv_ok_def watcher_defs split: if_splits)
  next
    case False
    with SvRunPosted assms show ?thesis by (auto simp: sv_ok_def watcher_defs split: if_splits)
  qed
next
  case (SvSend n)
  with assms show ?thesis by (cases "sv_bRunning s") auto
next
  case SvStop
  with assms show ?thesis by (cases "sv_bRunning s") (auto simp: sv_ok_def)
qed (use assms in simp)

lemma sv_producer_ok:
  assumes "sv_producer s c = Some (s', c')" and w: "sv_pEventWatcher s"
    and "sv_ok s (sv_owner c + own) (sv_starting c + st) (sv_posting c + post) (sv_stopping c + stop)
      (sv_waking c + wake) (sv_held c + held) (hl @ sv_hands c @ hr)" "own = 0 \<Longrightarrow> hl = [] \<and> hr = []" "st \<le> wake"
  shows "sv_ok s' (sv_owner c' + own) (sv_starting c' + st) (sv_posting c' + post) (sv_stopping c' + stop)
    (sv_waking c' + wake) (sv_held c' + held) (hl @ sv_hands c' @ hr)"
proof -
  note ok = assms(3) [unfolded sv_ok_def, rule_format, OF w]
  show ?thesis
  proof (cases c)
    case (SvEnqueue e)
    with ok have "sv_uiQueueSize s = of_nat (length (sv_queuePending s) + held)" "length (sv_queuePending s) + held < 2 ^ 32" by simp_all
    from count_facts(2) [OF this] SvEnqueue assms(1)
    have "s' = s\<lparr>sv_uiQueueSize := sv_uiQueueSize s + 1\<rparr>" "c' = SvInsert e" "Suc (length (sv_queuePending s) + held) < 2 ^ 32"
      by (auto split: if_splits)
    with SvEnqueue ok show ?thesis by (intro sv_okI) simp_all
  next
    case (SvInsert e)
    with assms(1) have "s' = s\<lparr>sv_queuePending := sv_queuePending s @ [e], sv_inserted := sv_inserted s @ [e]\<rparr>" "c' = SvNotify"
      by simp_all
    with SvInsert ok show ?thesis by (intro sv_okI) simp_all
  next
    case SvStarted
    with assms(1) have "s' = s\<lparr>sv_iStatus := 1\<rparr>" "c' = SvNotify" "sv_iStatus s = 0"
      using ok by (auto simp: eventWatcher_start_def split: if_splits)
    with SvStarted ok show ?thesis by (intro sv_okI) simp_all
  next
    case SvNotifyStatus
    show ?thesis
    proof (cases "sv_iStatus s = 1")
      case True
      with SvNotifyStatus assms(1) have "s' = s\<lparr>sv_iStatus := 2\<rparr>" "c' = SvPost" by (simp_all add: eventWatcher_notify_def)
      with SvNotifyStatus ok True show ?thesis by (intro sv_okI) simp_all
    next
      case False
      with SvNotifyStatus assms(1) have "s' = s" "c' = SvIdle" by (simp_all add: eventWatcher_notify_def)
      with SvNotifyStatus ok False assms(5) show ?thesis by (intro sv_okI) (auto split: if_splits)
    qed
  next
    case SvPost
    with assms(1) have "s' = s\<lparr>sv_posted := sv_posted s + 1\<rparr>" "c' = SvNotified" by simp_all
    with SvPost ok show ?thesis by (intro sv_okI) simp_all
  next
    case SvNotified
    with assms(1) have "s' = service_wakeUp s" "c' = SvIdle" by simp_all
    with SvNotified ok show ?thesis by (intro sv_okI) (simp_all add: service_wakeUp_def)
  next
    case SvNotify
    with assms(1) w have "s' = s" "c' = SvNotifyStatus" by simp_all
    with SvNotify ok show ?thesis by (intro sv_okI) simp_all
  qed (use assms(1) in simp_all)
qed

lemma sv_consumer_ok:
  assumes "sv_consumer s c = Some (s', c')" and w: "sv_pEventWatcher s" "sv_pEventWatcher s'"
    and "sv_ok s (sv_owner c + own) (sv_starting c + st) (sv_posting c + post) (sv_stopping c + stop)
      (sv_waking c + wake) (sv_held c + held) (hl @ sv_hands c @ hr)" "own = 0 \<Longrightarrow> hl = [] \<and> hr = []" "st \<le> wake"
  shows "sv_ok s' (sv_owner c' + own) (sv_starting c' + st) (sv_posting c' + post) (sv_stopping c' + stop)
    (sv_waking c' + wake) (sv_held c' + held) (hl @ sv_hands c' @ hr)"
proof -
  note ok = assms(4) [unfolded sv_ok_def, rule_format, OF w(1)]
  have "sv_owner c + own \<le> 1" using ok by (simp split: if_splits)
  then have alone: "hl = [] \<and> hr = [] \<and> own = 0 \<and> sv_iStatus s = 3" if "sv_owner c = 1" using assms(5) that ok by (auto split: if_splits)
  show ?thesis
  proof (cases c)
    case SvCheck
    with ok have "sv_uiQueueSize s = of_nat (length (sv_queuePending s) + held)" "length (sv_queuePending s) + held < 2 ^ 32" by simp_all
    from count_facts(1) [OF this] have z: "sv_uiQueueSize s > 0 \<longleftrightarrow> 0 < length (sv_queuePending s) + held" .
    show ?thesis
    proof (cases "sv_uiQueueSize s > 0")
      case True
      with SvCheck assms(1) have "s' = s" "c' = SvNotify" by simp_all
      with SvCheck ok show ?thesis by (intro sv_okI) simp_all
    next
      case False
      with SvCheck assms(1) have "s' = s" "c' = SvIdle" by simp_all
      with SvCheck ok False z show ?thesis by (intro sv_okI) simp_all
    qed
  next
    case SvMove
    with assms(1) have s': "s' = s\<lparr>sv_queuePending := []\<rparr>" "c' = (if sv_queuePending s = [] then SvReset else SvTake (sv_queuePending s))"
      by simp_all
    from alone SvMove have "hl = []" "hr = []" "own = 0" "sv_iStatus s = 3" by simp_all
    with SvMove ok s' show ?thesis by (cases "sv_queuePending s = []") (intro sv_okI; simp)+
  next
    case (SvTake es)
    with assms(1) obtain e es' where es: "es = e # es'" "s' = s" "c' = SvCount e es'" by (auto split: list.splits)
    with SvTake ok show ?thesis by (intro sv_okI) simp_all
  next
    case (SvCount e es)
    with assms(1) have "s' = s\<lparr>sv_uiQueueSize := sv_uiQueueSize s - 1\<rparr>" "c' = SvCall e es" by simp_all
    with SvCount ok show ?thesis by (intro sv_okI) simp_all
  next
    case (SvCall e es)
    with assms(1) have s': "s' = s\<lparr>sv_handled := sv_handled s @ [e]\<rparr>"
      "c' = (if e = ServiceStop then SvStopNull es else if es = [] then SvBatchDone else SvTake es)" by simp_all
    from alone SvCall have "hl = []" "hr = []" "own = 0" "sv_iStatus s = 3" by simp_all
    with SvCall ok s' show ?thesis by (cases "e = ServiceStop"; cases "es = []") (intro sv_okI; simp)+
  next
    case SvReset
    with assms(1) w alone have "s' = s\<lparr>sv_iStatus := 1\<rparr>" "c' = SvCheck" "own = 0" "sv_iStatus s = 3" "hl = []" "hr = []"
      by (simp_all add: eventWatcher_reset_def)
    with SvReset ok show ?thesis by (intro sv_okI) simp_all
  next
    case SvBatchReset
    with assms(1) w alone have "s' = s\<lparr>sv_iStatus := 1\<rparr>" "c' = SvNotify" "own = 0" "sv_iStatus s = 3" "hl = []" "hr = []"
      by (simp_all add: eventWatcher_reset_def)
    with SvBatchReset ok show ?thesis by (intro sv_okI) simp_all
  next
    case SvFunctors
    with assms(1) have "s' = service_wakeUp s" "c' = SvMove" by simp_all
    with SvFunctors ok show ?thesis by (intro sv_okI) (simp_all add: service_wakeUp_def)
  next
    case SvBatchDone
    with assms(1) have s': "s' = s" "c' = SvBatchWait \<or> c' = SvMove" by (auto split: if_splits)
    from s'(2) show ?thesis by (rule disjE) (use SvBatchDone ok s'(1) in \<open>intro sv_okI; simp\<close>)+
  next
    case SvBatchWait
    with assms(1) have s': "s' = s" "c' = SvBatchReset \<or> c' = SvMove" by (auto split: if_splits)
    from s'(2) show ?thesis by (rule disjE) (use SvBatchWait ok s'(1) in \<open>intro sv_okI; simp\<close>)+
  next
    case (SvStopNull es)
    with assms(1) w show ?thesis by auto
  qed (use ok assms(1) in simp_all)
qed

lemma sv_stuck_move: "sv_move a s c = Some (s', c') \<Longrightarrow> sv_stuck c' = 0"
proof -
  have "sv_stuck (SvTake es) = 0" if "es \<noteq> []" for es using that by (cases es) simp_all
  then show "sv_move a s c = Some (s', c') \<Longrightarrow> sv_stuck c' = 0"
    by (cases a; cases c; auto simp: sv_move_def split: if_splits list.splits prod.splits)
qed

lemma sv_move_ok:
  assumes "sv_move a s c = Some (s', c')"
    and "sv_ok s (sv_owner c + own) (sv_starting c + st) (sv_posting c + post) (sv_stopping c + stop)
      (sv_waking c + wake) (sv_held c + held) (hl @ sv_hands c @ hr)" "own = 0 \<Longrightarrow> hl = [] \<and> hr = []" "st \<le> wake"
  shows "sv_ok s' (sv_owner c' + own) (sv_starting c' + st) (sv_posting c' + post) (sv_stopping c' + stop)
    (sv_waking c' + wake) (sv_held c' + held) (hl @ sv_hands c' @ hr)"
proof (cases "sv_pEventWatcher s'")
  case False
  then show ?thesis by (simp add: sv_ok_def)
next
  case w': True
  from watcher_stays [OF assms(1) this] have w: "sv_pEventWatcher s" .
  show ?thesis
  proof (cases "a = SvContinue")
    case True
    then consider "sv_producer s c = Some (s', c')" | "sv_consumer s c = Some (s', c')"
      using assms(1) by (auto simp: sv_move_def split: option.splits)
    then show ?thesis
    proof cases
      case 1
      show ?thesis by (rule sv_producer_ok [OF 1 w assms(2-4)])
    next
      case 2
      show ?thesis by (rule sv_consumer_ok [OF 2 w w' assms(2-4)])
    qed
  next
    case False
    with assms(1) have c: "c = SvIdle" "sv_begin a s = Some (s', c')" by (auto simp: sv_move_def split: if_splits)
    from assms(2) have "sv_ok s own st post stop wake held (hl @ hr)" by (simp add: c(1))
    from sv_begin_ok [OF c(2) this assms(3)] show ?thesis by blast
  qed
qed

lemma sv_start_inv: "sv_start n c \<Longrightarrow> sv_inv c"
  by (simp add: sv_start_def sv_inv_def sv_ok_def sv_created_def sum_list_replicate map_replicate_const concat_replicate_trivial)

lemma sv_step_inv:
  assumes "sv_inv c" "sv_step c c'"
  shows "sv_inv c'"
proof -
  let ?p = "sv_threads c"
  from assms(2) obtain t a where n: "sv_next c (t, a) = Some c'" by (auto simp: sv_step_def)
  then obtain s pc where m: "sv_move a (sv_shared c) (?p ! t) = Some (s, pc)" by (auto simp: sv_next_def split: if_splits)
  with n have t: "t < length ?p" and c': "c' = \<lparr>sv_shared = s, sv_threads = ?p[t := pc]\<rparr>"
    by (auto simp: sv_next_def split: if_splits)
  let ?l = "take t ?p" and ?r = "drop (Suc t) ?p"
  have split: "?p = ?l @ ?p ! t # ?r" "?p[t := pc] = ?l @ pc # ?r" using t by (simp_all add: id_take_nth_drop upd_conv_take_nth_drop)
  have sums: "sv_sum f (?l @ x # ?r) = f x + (sv_sum f ?l + sv_sum f ?r)" for f x by simp
  have cat: "concat (map sv_hands (?l @ x # ?r)) = concat (map sv_hands ?l) @ sv_hands x @ concat (map sv_hands ?r)" for x
    by simp
  have "sv_ok (sv_shared c) (sv_sum sv_owner (?l @ ?p ! t # ?r)) (sv_sum sv_starting (?l @ ?p ! t # ?r))
     (sv_sum sv_posting (?l @ ?p ! t # ?r)) (sv_sum sv_stopping (?l @ ?p ! t # ?r)) (sv_sum sv_waking (?l @ ?p ! t # ?r))
     (sv_sum sv_held (?l @ ?p ! t # ?r)) (concat (map sv_hands (?l @ ?p ! t # ?r)))" "sv_sum sv_stuck (?l @ ?p ! t # ?r) = 0"
    using assms(1) unfolding sv_inv_def split(1) [symmetric] by simp_all
  note inv = this
  from inv(1) have ok: "sv_ok (sv_shared c) (sv_owner (?p ! t) + (sv_sum sv_owner ?l + sv_sum sv_owner ?r))
      (sv_starting (?p ! t) + (sv_sum sv_starting ?l + sv_sum sv_starting ?r))
      (sv_posting (?p ! t) + (sv_sum sv_posting ?l + sv_sum sv_posting ?r))
      (sv_stopping (?p ! t) + (sv_sum sv_stopping ?l + sv_sum sv_stopping ?r))
      (sv_waking (?p ! t) + (sv_sum sv_waking ?l + sv_sum sv_waking ?r))
      (sv_held (?p ! t) + (sv_sum sv_held ?l + sv_sum sv_held ?r))
      (concat (map sv_hands ?l) @ sv_hands (?p ! t) @ concat (map sv_hands ?r))"
    unfolding sums cat .
  from inv(2) have stuck: "sv_sum sv_stuck ?l = 0" "sv_sum sv_stuck ?r = 0" unfolding sums by simp_all
  have "sv_sum sv_owner ?l + sv_sum sv_owner ?r = 0 \<Longrightarrow> concat (map sv_hands ?l) = [] \<and> concat (map sv_hands ?r) = []"
    using hands_owner by (simp only: add_is_0)
  note alone = this
  have "sv_sum sv_starting p \<le> sv_sum sv_waking p" for p
  proof (induction p)
    case (Cons x p)
    have "sv_starting x \<le> sv_waking x" by (cases x) simp_all
    with Cons show ?case by simp
  qed simp
  then have "sv_sum sv_starting ?l + sv_sum sv_starting ?r \<le> sv_sum sv_waking ?l + sv_sum sv_waking ?r" by (meson add_mono)
  from sv_move_ok [OF m ok alone this] have "sv_ok s (sv_sum sv_owner (?l @ pc # ?r)) (sv_sum sv_starting (?l @ pc # ?r))
     (sv_sum sv_posting (?l @ pc # ?r)) (sv_sum sv_stopping (?l @ pc # ?r)) (sv_sum sv_waking (?l @ pc # ?r))
     (sv_sum sv_held (?l @ pc # ?r)) (concat (map sv_hands (?l @ pc # ?r)))"
    unfolding sums cat .
  moreover have "sv_sum sv_stuck (?l @ pc # ?r) = 0" using stuck sv_stuck_move [OF m] unfolding sums by simp
  ultimately show ?thesis unfolding sv_inv_def c' split(2) [symmetric] by simp
qed

section \<open>What a service is promised\<close>

text \<open>Until the stop is handled.\<close>

definition sv_mailbox :: "sv_state \<Rightarrow> bool" where
  "sv_mailbox c \<longleftrightarrow> (sv_pEventWatcher (sv_shared c) \<longrightarrow>
     sv_sum sv_owner (sv_threads c) \<le> 1 \<and>
     sv_inserted (sv_shared c) = sv_handled (sv_shared c) @ concat (map sv_hands (sv_threads c)) @ sv_queuePending (sv_shared c) \<and>
     sv_uiQueueSize (sv_shared c) = of_nat (length (sv_queuePending (sv_shared c)) + sv_sum sv_held (sv_threads c)) \<and>
     sv_posted (sv_shared c) \<le> 1 \<and> \<not> sv_crash (sv_shared c))"

definition sv_quiet :: "sv_state \<Rightarrow> bool" where
  "sv_quiet c \<longleftrightarrow> sv_posted (sv_shared c) = 0 \<and> (\<forall>pc \<in> set (sv_threads c). pc = SvIdle)"

definition sv_delivered :: "sv_state \<Rightarrow> bool" where
  "sv_delivered c \<longleftrightarrow> (sv_pEventWatcher (sv_shared c) \<longrightarrow> sv_quiet c \<longrightarrow>
     sv_handled (sv_shared c) = sv_inserted (sv_shared c) \<and> sv_uiQueueSize (sv_shared c) = 0)"

lemma sv_inv_mailbox: "sv_inv c \<Longrightarrow> sv_mailbox c"
  by (auto simp: sv_inv_def sv_ok_def sv_mailbox_def split: if_splits)

lemma sv_inv_delivered:
  assumes "sv_inv c"
  shows "sv_delivered c"
  unfolding sv_delivered_def
proof (intro impI)
  assume w: "sv_pEventWatcher (sv_shared c)" and q: "sv_quiet c"
  have z: "sv_sum f (sv_threads c) = 0" if "f SvIdle = 0" for f
    using q that by (auto simp: sv_quiet_def)
  have h: "concat (map sv_hands (sv_threads c)) = []" using q by (auto simp: sv_quiet_def)
  from assms w z h q show "sv_handled (sv_shared c) = sv_inserted (sv_shared c) \<and> sv_uiQueueSize (sv_shared c) = 0"
    by (auto simp: sv_inv_def sv_ok_def sv_quiet_def split: if_splits)
qed

interpretation mailbox: step_invariant "sv_start n" sv_step sv_inv sv_mailbox
  by unfold_locales (auto intro: sv_start_inv sv_step_inv sv_inv_mailbox)

interpretation delivery: step_invariant "sv_start n" sv_step sv_inv sv_delivered
  by unfold_locales (auto intro: sv_start_inv sv_step_inv sv_inv_delivered)

text \<open>A run, given by which thread does what.\<close>

fun sv_run :: "sv_state \<Rightarrow> (nat \<times> sv_action) list \<Rightarrow> sv_state option" where
  "sv_run c [] = Some c"
| "sv_run c (x # xs) = Option.bind (sv_next c x) (\<lambda>c. sv_run c xs)"

lemma sv_run_reachable: "reachable init sv_step c \<Longrightarrow> sv_run c xs = Some c' \<Longrightarrow> reachable init sv_step c'"
proof (induction xs arbitrary: c)
  case (Cons x xs)
  then obtain d where "sv_next c x = Some d" "sv_run d xs = Some c'" by (auto split: bind_splits)
  moreover from this(1) have "sv_step c d" unfolding sv_step_def by blast
  ultimately show ?case using Cons.IH [OF reach_step [OF Cons.prems(1)]] by blast
qed simp

definition sv_first :: "nat \<Rightarrow> sv_state" where
  "sv_first n = \<lparr>sv_shared = sv_created, sv_threads = SvStarted # replicate n SvIdle\<rparr>"

lemma sv_run_start: "sv_run (sv_first n) xs = Some c \<Longrightarrow> reachable (sv_start n) sv_step c"
  by (rule sv_run_reachable [OF reach_init]) (simp_all add: sv_start_def sv_first_def)

text \<open>A service starts with one other thread, which sends an event that the first thread handles.\<close>

abbreviation sv_go :: "nat \<Rightarrow> nat \<Rightarrow> (nat \<times> sv_action) list" where
  "sv_go t k \<equiv> replicate k (t, SvContinue)"

definition sv_event_run :: "(nat \<times> sv_action) list" where
  "sv_event_run = sv_go 0 5 @ [(0, SvRunPosted)] @ sv_go 0 4 @ [(1, SvSend 7)] @ sv_go 1 6 @ [(0, SvRunPosted)] @ sv_go 0 9"

lemma sv_event_run: "\<exists>c. sv_run (sv_first 1) sv_event_run = Some c \<and> sv_pEventWatcher (sv_shared c) \<and> sv_quiet c \<and>
    sv_inserted (sv_shared c) = [Event 7]"
proof -
  have "case sv_run (sv_first 1) sv_event_run of None \<Rightarrow> False
    | Some c \<Rightarrow> sv_pEventWatcher (sv_shared c) \<and> sv_quiet c \<and> sv_inserted (sv_shared c) = [Event 7]" by code_simp
  then show ?thesis by (simp split: option.splits)
qed

text \<open>C2: The queue of a service is a mailbox: in every interleaving of any number of sending threads and of the event
  loop, until the service handles its stop, at most one thread has the service to itself (so the callback never
  runs twice at once), the events handled so far are the first ones inserted, in order, and the rest are in its hands
  or in the queue; the size is that of the events on their way; the watcher is posted at most once at a time, and
  nothing crashes.\<close>

theorem service_mailbox:
  assumes "reachable (sv_start n) sv_step c" "sv_pEventWatcher (sv_shared c)"
  shows "sv_sum sv_owner (sv_threads c) \<le> 1 \<and>
    sv_inserted (sv_shared c) = sv_handled (sv_shared c) @ concat (map sv_hands (sv_threads c)) @ sv_queuePending (sv_shared c) \<and>
    sv_uiQueueSize (sv_shared c) = of_nat (length (sv_queuePending (sv_shared c)) + sv_sum sv_held (sv_threads c)) \<and>
    sv_posted (sv_shared c) \<le> 1 \<and> \<not> sv_crash (sv_shared c)"
  using mailbox.always [OF assms(1)] assms(2) by (simp add: sv_mailbox_def)

lemma service_mailbox_witness:
  "\<exists>c. reachable (sv_start 1) sv_step c \<and> sv_inserted (sv_shared c) = [Event 7] \<and>
    [Event 7] = sv_handled (sv_shared c) @ concat (map sv_hands (sv_threads c)) @ sv_queuePending (sv_shared c)"
proof -
  from sv_event_run obtain c where c: "sv_run (sv_first 1) sv_event_run = Some c" "sv_pEventWatcher (sv_shared c)"
    "sv_inserted (sv_shared c) = [Event 7]" by blast
  note r = sv_run_start [OF c(1)]
  from service_mailbox [OF r c(2)] r c(3) show ?thesis by auto
qed

text \<open>C3: No wake-up is lost until the stop is handled, which takes the watcher of the service away: in every interleaving, while the service has its watcher,
  whenever all threads are outside the functions of the service and no
  posted watcher is waiting to run, every event inserted has been handled.  (An event
  inserted while the watcher runs finds its status 3 and posts nothing; the thread that resets it looks again.)\<close>

theorem service_no_lost_wakeup:
  assumes "reachable (sv_start n) sv_step c" "sv_pEventWatcher (sv_shared c)" "sv_quiet c"
  shows "sv_handled (sv_shared c) = sv_inserted (sv_shared c) \<and> sv_uiQueueSize (sv_shared c) = 0"
  using delivery.always [OF assms(1)] assms(2,3) by (simp add: sv_delivered_def)

lemma service_no_lost_wakeup_witness:
  "\<exists>c. reachable (sv_start 1) sv_step c \<and> sv_inserted (sv_shared c) = [Event 7] \<and> sv_handled (sv_shared c) = [Event 7]"
proof -
  from sv_event_run obtain c where c: "sv_run (sv_first 1) sv_event_run = Some c" "sv_pEventWatcher (sv_shared c)" "sv_quiet c"
    "sv_inserted (sv_shared c) = [Event 7]" by blast
  note r = sv_run_start [OF c(1)]
  from service_no_lost_wakeup [OF r c(2,3)] r c(4) show ?thesis by auto
qed

definition sv_null_run :: "(nat \<times> sv_action) list" where
  "sv_null_run = sv_go 0 5 @ [(0, SvRunPosted)] @ sv_go 0 4 @ [(1, SvSend 7)] @ sv_go 1 2 @ [(0, SvStop)] @ sv_go 0 6 @
     [(0, SvRunPosted)] @ sv_go 0 9 @ [(1, SvContinue)]"

definition sv_assert_run :: "(nat \<times> sv_action) list" where
  "sv_assert_run = sv_go 0 5 @ [(0, SvRunPosted)] @ sv_go 0 4 @ [(1, SvSend 7), (0, SvStop)] @ sv_go 0 6 @ sv_go 1 2 @
     [(0, SvRunPosted)] @ sv_go 0 10"

text \<open>A stop races with senders that have seen the service running: there is an interleaving of one sender with
  \<open>service_stop\<close> in which the sender notifies through \<open>pEventWatcher\<close> after the handling of the stop has set it to NULL, and
  one in which its event comes behind the stop in the same batch and the assertion of \<open>doPendingFunctors\<close> fails.\<close>

theorem service_stop_races:
  "(\<exists>c c'. reachable (sv_start 1) sv_step c \<and> sv_threads c = [SvStopReset [], SvNotify] \<and>
     \<not> sv_pEventWatcher (sv_shared c) \<and> sv_next c (1, SvContinue) = Some c' \<and> sv_crash (sv_shared c')) \<and>
   (\<exists>c c'. reachable (sv_start 1) sv_step c \<and> sv_threads c ! 0 = SvStopped [Event 7] \<and>
     sv_next c (0, SvContinue) = Some c' \<and> sv_crash (sv_shared c'))"
proof
  have "case sv_run (sv_first 1) (butlast sv_null_run) of None \<Rightarrow> False
    | Some c \<Rightarrow> sv_threads c = [SvStopReset [], SvNotify] \<and> \<not> sv_pEventWatcher (sv_shared c) \<and>
        (case sv_next c (1, SvContinue) of None \<Rightarrow> False | Some c' \<Rightarrow> sv_crash (sv_shared c'))" by code_simp
  then show "\<exists>c c'. reachable (sv_start 1) sv_step c \<and> sv_threads c = [SvStopReset [], SvNotify] \<and>
     \<not> sv_pEventWatcher (sv_shared c) \<and> sv_next c (1, SvContinue) = Some c' \<and> sv_crash (sv_shared c')"
    using sv_run_start by (auto split: option.splits)
  have "case sv_run (sv_first 1) (butlast sv_assert_run) of None \<Rightarrow> False
    | Some c \<Rightarrow> sv_threads c ! 0 = SvStopped [Event 7] \<and>
        (case sv_next c (0, SvContinue) of None \<Rightarrow> False | Some c' \<Rightarrow> sv_crash (sv_shared c'))" by code_simp
  then show "\<exists>c c'. reachable (sv_start 1) sv_step c \<and> sv_threads c ! 0 = SvStopped [Event 7] \<and>
     sv_next c (0, SvContinue) = Some c' \<and> sv_crash (sv_shared c')"
    using sv_run_start by (auto split: option.splits)
qed

end
