(* ===== verification/Service.thy ===== *)
theory Service
  imports Prelude
begin

text \<open>
  Sending to a service and the dispatch of an event to its callback, \<open>service/source/service_t.c\<close>: how the type and the
  length of a message are packed into an event and what the callback is given.  The queue between them is
  theory \<open>ServiceQueue\<close>.
\<close>

section \<open>Events\<close>

text \<open>What the flexible part of an event holds: the bytes of a message, the address of a moved buffer, of a timer, or of a
  connection (which may be NULL) with an address text behind it.\<close>

datatype storage = Inline bytes | MovedPointer nat | TimerPointer nat | ConnectionPointer "nat option" bytes

record serviceEvent =
  se_uiSourceID :: u32
  se_uiToken :: u32
  se_uiLength :: u32
  se_szStorage :: storage

definition DEF_EVENT_SERVICE_STOP :: u32 where "DEF_EVENT_SERVICE_STOP = 0"
definition DEF_EVENT_BINARY :: u32 where "DEF_EVENT_BINARY = 1"
definition DEF_EVENT_DISCONNECT :: u32 where "DEF_EVENT_DISCONNECT = 2"
definition DEF_EVENT_SEND_OK :: u32 where "DEF_EVENT_SEND_OK = 3"
definition DEF_EVENT_ACCEPT :: u32 where "DEF_EVENT_ACCEPT = 4"
definition DEF_EVENT_CONNECT :: u32 where "DEF_EVENT_CONNECT = 5"
definition DEF_EVENT_DNS :: u32 where "DEF_EVENT_DNS = 6"
definition DEF_EVENT_YIELD :: u32 where "DEF_EVENT_YIELD = 7"
definition DEF_EVENT_RUN_AFTER :: u32 where "DEF_EVENT_RUN_AFTER = 8"
definition DEF_EVENT_RUN_EVERY :: u32 where "DEF_EVENT_RUN_EVERY = 9"
definition DEF_EVENT_MSG :: u32 where "DEF_EVENT_MSG = 10"
definition DEF_EVENT_COMMAND :: u32 where "DEF_EVENT_COMMAND = 11"
definition DEF_EVENT_MASK :: u32 where "DEF_EVENT_MASK = 0x0F"
definition DEF_EVENT_MOVEBUF :: u32 where "DEF_EVENT_MOVEBUF = 0x80"
definition DEF_EVENT_MSG_REPLY :: u32 where "DEF_EVENT_MSG_REPLY = 0x70"
definition DEF_EVENT_MSG_CALL :: u32 where "DEF_EVENT_MSG_CALL = 0x60"
definition DEF_EVENT_MSG_PING :: u32 where "DEF_EVENT_MSG_PING = 0x50"
definition DEF_EVENT_MSG_PONG :: u32 where "DEF_EVENT_MSG_PONG = 0x40"
definition DEF_EVENT_MSG_CLOSE :: u32 where "DEF_EVENT_MSG_CLOSE = 0x30"
definition DEF_EVENT_MSG_SEND :: u32 where "DEF_EVENT_MSG_SEND = 0x20"
definition DEF_EVENT_MSG_TEXT :: u32 where "DEF_EVENT_MSG_TEXT = 0x10"
definition DEF_EVENT_MSG_MASK :: u32 where "DEF_EVENT_MSG_MASK = 0x70"

lemmas event_defs = DEF_EVENT_SERVICE_STOP_def DEF_EVENT_BINARY_def DEF_EVENT_DISCONNECT_def DEF_EVENT_SEND_OK_def
  DEF_EVENT_ACCEPT_def DEF_EVENT_CONNECT_def DEF_EVENT_DNS_def DEF_EVENT_YIELD_def DEF_EVENT_RUN_AFTER_def
  DEF_EVENT_RUN_EVERY_def DEF_EVENT_MSG_def DEF_EVENT_COMMAND_def DEF_EVENT_MASK_def DEF_EVENT_MOVEBUF_def
  DEF_EVENT_MSG_REPLY_def DEF_EVENT_MSG_CALL_def DEF_EVENT_MSG_PING_def DEF_EVENT_MSG_PONG_def DEF_EVENT_MSG_CLOSE_def
  DEF_EVENT_MSG_SEND_def DEF_EVENT_MSG_TEXT_def DEF_EVENT_MSG_MASK_def

section \<open>Sending\<close>

text \<open>The result, the events put into the queue, and the buffers freed.\<close>

type_synonym sent = "bool \<times> serviceEvent list \<times> nat list"

definition service_enqueue :: "bool \<Rightarrow> serviceEvent \<Rightarrow> bool \<times> serviceEvent list" where
  "service_enqueue bRunning pEvent = (if bRunning then (True, [pEvent]) else (False, []))"

definition service_sendMove :: "bool \<Rightarrow> u32 \<Rightarrow> nat \<Rightarrow> int \<Rightarrow> u32 \<Rightarrow> u32 \<Rightarrow> sent option" where
  "service_sendMove bRunning uiSourceID pData iLength uiFlag uiToken = do {
     guard (iLength \<le> 0xFFFFFF);
     let pEvent = \<lparr>se_uiSourceID = uiSourceID, se_uiToken = uiToken,
       se_uiLength = of_int iLength OR push_bit 24 (DEF_EVENT_MOVEBUF OR uiFlag), se_szStorage = MovedPointer pData\<rparr>;
     let (ok, queued) = service_enqueue bRunning pEvent;
     Some (if ok then (True, queued, []) else (False, queued, [pData])) }"

text \<open>A negative length is a block of almost the whole address space for \<open>mem_malloc\<close>, which does not return.\<close>

definition service_send :: "bool \<Rightarrow> u32 \<Rightarrow> bytes \<Rightarrow> int \<Rightarrow> u32 \<Rightarrow> u32 \<Rightarrow> sent option" where
  "service_send bRunning uiSourceID pData iLength uiFlag uiToken = do {
     guard (iLength \<le> 0xFFFFFF);
     guard (0 \<le> iLength \<and> nat iLength \<le> length pData);
     let pEvent = \<lparr>se_uiSourceID = uiSourceID, se_uiToken = uiToken,
       se_uiLength = of_int iLength OR push_bit 24 uiFlag, se_szStorage = Inline (take (nat iLength) pData)\<rparr>;
     let (ok, queued) = service_enqueue bRunning pEvent;
     Some (ok, queued, []) }"

section \<open>Dispatch\<close>

text \<open>What the callback is given as its buffer.\<close>

datatype payload = NoBuffer | StorageBuffer bytes | MovedBuffer nat

text \<open>What handling an event does, in order; the id of the new channel, whether a connection is connecting and a timer is
  running, and what the callback returns come from the environment.\<close>

datatype service_effect =
    Callback u32 u32 u32 payload u32
  | FreeBuffer nat
  | TimerRelease nat
  | CreateChannel nat
  | ChannelClose u32
  | ChannelRelease u32
  | ConnectionRelease nat
  | StopService

record service_env =
  env_fnCallback :: "u32 \<Rightarrow> u32 \<Rightarrow> u32 \<Rightarrow> payload \<Rightarrow> u32 \<Rightarrow> bool"
  env_createChannel :: "nat \<Rightarrow> u32"
  env_isConnecting :: "nat \<Rightarrow> bool"
  env_timerRunning :: "nat \<Rightarrow> bool"

text \<open>The branches that hand over a buffer: moved (read through the pointer, and freed afterwards) or in the event.\<close>

definition with_buffer :: "serviceEvent \<Rightarrow> bool \<Rightarrow> u32 \<Rightarrow> u32 \<Rightarrow> service_effect list option" where
  "with_buffer pEvent bMoveBuf iType nLength =
     (case (bMoveBuf, se_szStorage pEvent) of
        (True, MovedPointer p) \<Rightarrow>
          Some [Callback iType (se_uiSourceID pEvent) (se_uiToken pEvent) (MovedBuffer p) nLength, FreeBuffer p]
      | (False, Inline bs) \<Rightarrow>
          Some [Callback iType (se_uiSourceID pEvent) (se_uiToken pEvent) (StorageBuffer bs) nLength]
      | _ \<Rightarrow> None)"

definition no_buffer :: "serviceEvent \<Rightarrow> u32 \<Rightarrow> service_effect list" where
  "no_buffer pEvent iType = [Callback iType (se_uiSourceID pEvent) (se_uiToken pEvent) NoBuffer 0]"

definition new_channel :: "service_env \<Rightarrow> u32 \<Rightarrow> nat \<Rightarrow> u32 \<Rightarrow> payload \<Rightarrow> u32 \<Rightarrow> service_effect list" where
  "new_channel env iType conn uiToken buf nLength =
     (let uiChannelID = env_createChannel env conn in
      [CreateChannel conn, Callback iType uiChannelID uiToken buf nLength] @
      (if env_fnCallback env iType uiChannelID uiToken buf nLength then []
       else [ChannelClose uiChannelID, ChannelRelease uiChannelID]))"

definition event_dispatch :: "service_env \<Rightarrow> serviceEvent \<Rightarrow> u32 \<Rightarrow> u32 \<Rightarrow> (service_effect list \<times> bool) option" where
  "event_dispatch env pEvent iEvent nLength =
     (let bMoveBuf = (iEvent AND DEF_EVENT_MOVEBUF \<noteq> 0);
          iType = iEvent AND DEF_EVENT_MASK;
          go_on = map_option (\<lambda>es. (es, True)) in
      if iType = DEF_EVENT_MSG then
        let iEventMsg = iEvent AND DEF_EVENT_MSG_MASK in
        if iEventMsg \<in> {DEF_EVENT_MSG_REPLY, DEF_EVENT_MSG_CALL, DEF_EVENT_MSG_SEND, DEF_EVENT_MSG_TEXT}
        then go_on (with_buffer pEvent bMoveBuf (iEventMsg OR DEF_EVENT_MSG) nLength)
        else if iEventMsg \<in> {DEF_EVENT_MSG_PING, DEF_EVENT_MSG_PONG, DEF_EVENT_MSG_CLOSE}
        then Some (no_buffer pEvent (iEventMsg OR DEF_EVENT_MSG), True)
        else Some ([], True)
      else if iType \<in> {DEF_EVENT_RUN_AFTER, DEF_EVENT_RUN_EVERY} then
        (case se_szStorage pEvent of
           TimerPointer t \<Rightarrow> Some ((if env_timerRunning env t then no_buffer pEvent iType else []) @ [TimerRelease t], True)
         | _ \<Rightarrow> None)
      else if iType = DEF_EVENT_YIELD then Some (no_buffer pEvent iType, True)
      else if iType = DEF_EVENT_ACCEPT then
        (case se_szStorage pEvent of
           ConnectionPointer (Some conn) bs \<Rightarrow>
             Some (new_channel env iType conn (se_uiToken pEvent) (if nLength \<noteq> 0 then StorageBuffer bs else NoBuffer) nLength, True)
         | ConnectionPointer None bs \<Rightarrow> Some ([Callback iType 0 (se_uiToken pEvent) NoBuffer 0], True)
         | _ \<Rightarrow> None)
      else if iType = DEF_EVENT_CONNECT then
        (case se_szStorage pEvent of
           ConnectionPointer (Some conn) bs \<Rightarrow>
             if env_isConnecting env conn
             then Some (new_channel env iType conn (se_uiToken pEvent) NoBuffer 0, True)
             else Some ([ConnectionRelease conn, Callback iType 0 (se_uiToken pEvent) NoBuffer 0], True)
         | ConnectionPointer None bs \<Rightarrow> Some ([Callback iType 0 (se_uiToken pEvent) NoBuffer 0], True)
         | _ \<Rightarrow> None)
      else if iType = DEF_EVENT_DNS then
        (if nLength = 0 then Some (no_buffer pEvent iType, True) else go_on (with_buffer pEvent False iType nLength))
      else if iType \<in> {DEF_EVENT_BINARY, DEF_EVENT_COMMAND} then go_on (with_buffer pEvent bMoveBuf iType nLength)
      else if iType \<in> {DEF_EVENT_SEND_OK, DEF_EVENT_DISCONNECT} then Some (no_buffer pEvent iType, True)
      else if iType = DEF_EVENT_SERVICE_STOP then Some ([StopService], False)
      else Some ([], True))"

definition service_eventCallback :: "service_env \<Rightarrow> serviceEvent \<Rightarrow> (service_effect list \<times> bool) option" where
  "service_eventCallback env pEvent =
     event_dispatch env pEvent (drop_bit 24 (se_uiLength pEvent)) (se_uiLength pEvent AND 0xFFFFFF)"

section \<open>What is sent is received\<close>

text \<open>Flags of messages with content, and of those without.\<close>

definition content_flags :: "u32 list" where
  "content_flags = [DEF_EVENT_MSG OR DEF_EVENT_MSG_REPLY, DEF_EVENT_MSG OR DEF_EVENT_MSG_CALL,
     DEF_EVENT_MSG OR DEF_EVENT_MSG_SEND, DEF_EVENT_MSG OR DEF_EVENT_MSG_TEXT, DEF_EVENT_BINARY, DEF_EVENT_COMMAND]"

definition signal_flags :: "u32 list" where
  "signal_flags = [DEF_EVENT_MSG OR DEF_EVENT_MSG_PING, DEF_EVENT_MSG OR DEF_EVENT_MSG_PONG,
     DEF_EVENT_MSG OR DEF_EVENT_MSG_CLOSE, DEF_EVENT_YIELD, DEF_EVENT_SEND_OK, DEF_EVENT_DISCONNECT]"

lemma packed_length:
  fixes f l :: u32
  assumes "l < 0x1000000" "f < 0x100"
  shows "drop_bit 24 (l OR push_bit 24 f) = f" "(l OR push_bit 24 f) AND 0xFFFFFF = l"
proof -
  have u: "unat l < 2 ^ 24" "unat f < 2 ^ 8" using assms by (simp_all add: word_less_nat_alt)
  have "uint l < 2 ^ 24" using assms(1) by (simp add: word_less_def)
  then have l1: "take_bit 24 l = l" by (rule take_bit_small)
  have "unat (drop_bit 24 l) = 0" using u(1) by (simp only: unat_drop_bit_eq) (simp add: drop_bit_eq_div)
  then have l2: "drop_bit 24 l = 0" by (simp add: unat_eq_0)
  have "unat (push_bit 24 f) = unat f * 2 ^ 24" using u(2) by (simp add: push_bit_eq_mult unat_word_ariths)
  then have "unat (drop_bit 24 (push_bit 24 f)) = unat f" by (simp only: unat_drop_bit_eq) (simp add: drop_bit_eq_div)
  then have "drop_bit 24 (push_bit 24 f) = f" by (simp only: word_unat_eq_iff)
  with l2 show "drop_bit 24 (l OR push_bit 24 f) = f" by (simp only: drop_bit_or or.left_neutral)
  have "(0xFFFFFF :: u32) = mask 24" by (simp add: mask_eq_exp_minus_1)
  then have "(l OR push_bit 24 f) AND 0xFFFFFF = take_bit 24 (l OR push_bit 24 f)" by (simp only: take_bit_eq_mask)
  also have "\<dots> = take_bit 24 l OR take_bit 24 (push_bit 24 f)" by (rule take_bit_or)
  also have "take_bit 24 (push_bit 24 f) = 0" by (simp add: take_bit_push_bit)
  finally show "(l OR push_bit 24 f) AND 0xFFFFFF = l" by (simp only: l1 or.right_neutral)
qed

lemma packed_int:
  assumes "0 \<le> n" "n \<le> 0xFFFFFF"
  shows "(of_int n :: u32) < 0x1000000"
  using assms by (simp add: word_less_def uint_word_of_int)

text \<open>The dispatch of each flag, evaluated.\<close>

lemma dispatch_content:
  "\<forall>f \<in> set content_flags. event_dispatch env pEvent f l = map_option (\<lambda>es. (es, True)) (with_buffer pEvent False f l) \<and>
     event_dispatch env pEvent (DEF_EVENT_MOVEBUF OR f) l = map_option (\<lambda>es. (es, True)) (with_buffer pEvent True f l)"
  unfolding content_flags_def list.set ball_simps
  by (intro conjI TrueI; simp add: event_dispatch_def event_defs)

lemma dispatch_signal:
  "\<forall>f \<in> set signal_flags. event_dispatch env pEvent f l = Some (no_buffer pEvent f, True) \<and>
     event_dispatch env pEvent (DEF_EVENT_MOVEBUF OR f) l = Some (no_buffer pEvent f, True)"
  unfolding signal_flags_def list.set ball_simps
  by (intro conjI TrueI; simp add: event_dispatch_def event_defs)

lemma flags_small: "\<forall>f \<in> set content_flags \<union> set signal_flags. f < 0x100 \<and> DEF_EVENT_MOVEBUF OR f < 0x100"
  by (simp add: content_flags_def signal_flags_def event_defs)

lemma callback_packed:
  assumes "f \<in> set content_flags \<union> set signal_flags" "l < 0x1000000"
  shows "service_eventCallback env (ev\<lparr>se_uiLength := l OR push_bit 24 f\<rparr>) = event_dispatch env (ev\<lparr>se_uiLength := l OR push_bit 24 f\<rparr>) f l"
    "service_eventCallback env (ev\<lparr>se_uiLength := l OR push_bit 24 (DEF_EVENT_MOVEBUF OR f)\<rparr>) =
     event_dispatch env (ev\<lparr>se_uiLength := l OR push_bit 24 (DEF_EVENT_MOVEBUF OR f)\<rparr>) (DEF_EVENT_MOVEBUF OR f) l"
proof -
  have f: "f < 0x100" "DEF_EVENT_MOVEBUF OR f < 0x100" using assms(1) flags_small by blast+
  show "service_eventCallback env (ev\<lparr>se_uiLength := l OR push_bit 24 f\<rparr>) = event_dispatch env (ev\<lparr>se_uiLength := l OR push_bit 24 f\<rparr>) f l"
    "service_eventCallback env (ev\<lparr>se_uiLength := l OR push_bit 24 (DEF_EVENT_MOVEBUF OR f)\<rparr>) =
     event_dispatch env (ev\<lparr>se_uiLength := l OR push_bit 24 (DEF_EVENT_MOVEBUF OR f)\<rparr>) (DEF_EVENT_MOVEBUF OR f) l"
    unfolding service_eventCallback_def using packed_length [OF assms(2) f(1)] packed_length [OF assms(2) f(2)]
    by simp_all
qed

text \<open>C19: A message of at most 2^24 - 1 bytes with a flag for content reaches the callback with its flag, source, token,
  bytes and length; a moved buffer is handed over without a copy and freed once, after the callback, or at once when the
  service is not running.  A moved buffer with a flag for signals is freed by nobody.\<close>

theorem service_send_received:
  assumes "0 \<le> n" "n \<le> 0xFFFFFF" "f \<in> set content_flags" "nat n = length bs" "g \<in> set signal_flags"
  shows "\<exists>ev mv sig. service_send True s bs n f t = Some (True, [ev], []) \<and>
    service_eventCallback env ev = Some ([Callback f s t (StorageBuffer bs) (of_int n)], True) \<and>
    service_sendMove True s p n f t = Some (True, [mv], []) \<and>
    service_eventCallback env mv = Some ([Callback f s t (MovedBuffer p) (of_int n), FreeBuffer p], True) \<and>
    service_send False s bs n f t = Some (False, [], []) \<and> service_sendMove False s p n f t = Some (False, [], [p]) \<and>
    service_sendMove True s p n g t = Some (True, [sig], []) \<and>
    service_eventCallback env sig = Some ([Callback g s t NoBuffer 0], True)"
proof -
  note l = packed_int [OF assms(1,2)]
  have f: "f \<in> set content_flags \<union> set signal_flags" "g \<in> set content_flags \<union> set signal_flags" using assms(3,5) by blast+
  let ?ev = "\<lparr>se_uiSourceID = s, se_uiToken = t, se_uiLength = of_int n OR push_bit 24 f, se_szStorage = Inline bs\<rparr>"
  let ?mv = "\<lambda>f. \<lparr>se_uiSourceID = s, se_uiToken = t, se_uiLength = of_int n OR push_bit 24 (DEF_EVENT_MOVEBUF OR f), se_szStorage = MovedPointer p\<rparr>"
  have "service_eventCallback env ?ev = Some ([Callback f s t (StorageBuffer bs) (of_int n)], True)"
    using callback_packed(1) [OF f(1) l, of env ?ev] dispatch_content assms(3) by (simp add: with_buffer_def)
  moreover have "service_eventCallback env (?mv f) = Some ([Callback f s t (MovedBuffer p) (of_int n), FreeBuffer p], True)"
    using callback_packed(2) [OF f(1) l, of env "?mv f"] dispatch_content assms(3) by (simp add: with_buffer_def)
  moreover have "service_eventCallback env (?mv g) = Some ([Callback g s t NoBuffer 0], True)"
    using callback_packed(2) [OF f(2) l, of env "?mv g"] dispatch_signal assms(5) by (simp add: no_buffer_def)
  ultimately show ?thesis using assms(1,2,4)
    by (simp add: service_send_def service_sendMove_def service_enqueue_def)
qed

lemma service_send_received_witness:
  "\<exists>ev. service_send True 1 [7, 8] 2 (DEF_EVENT_MSG OR DEF_EVENT_MSG_CALL) 3 = Some (True, [ev], []) \<and>
    service_eventCallback \<lparr>env_fnCallback = \<lambda>_ _ _ _ _. True, env_createChannel = \<lambda>_. 1, env_isConnecting = \<lambda>_. True, env_timerRunning = \<lambda>_. True\<rparr> ev =
      Some ([Callback (DEF_EVENT_MSG OR DEF_EVENT_MSG_CALL) 1 3 (StorageBuffer [7, 8]) 2], True)"
proof -
  have h: "0 \<le> (2 :: int)" "2 \<le> (0xFFFFFF :: int)" "DEF_EVENT_MSG OR DEF_EVENT_MSG_CALL \<in> set content_flags"
    "nat 2 = length [7, 8 :: u8]" "DEF_EVENT_YIELD \<in> set signal_flags"
    by (simp_all add: content_flags_def signal_flags_def)
  from service_send_received [OF h, of 1 3 "\<lparr>env_fnCallback = \<lambda>_ _ _ _ _. True, env_createChannel = \<lambda>_. 1,
      env_isConnecting = \<lambda>_. True, env_timerRunning = \<lambda>_. True\<rparr>" 0] show ?thesis by auto
qed

end
