(* ===== verification/Poller.thy ===== *)
theory Poller
  imports Interfaces
begin

text \<open>
  The pollers of \<open>core/source/eventIO/posix/poller/\<close>: which readiness of a socket the kernel is asked to
  report, by \<open>epoll\<close> (\<open>poller_epoll_t.c\<close>) and by \<open>kqueue\<close> (\<open>poller_kqueue_t.c\<close>), against the attribute that
  the handle of the socket keeps (\<open>poller_t.h\<close>).  The interest set of the kernel is a map; \<open>epoll_ctl\<close> and
  \<open>kevent\<close> are modelled as their manuals describe them.  The logging of a failed call is left out.
\<close>

section \<open>Handles\<close>

definition ePollerReadable :: u32 where "ePollerReadable = 0x01"
definition ePollerWritable :: u32 where "ePollerWritable = 0x02"
definition ePollerClosed :: u32 where "ePollerClosed = 0x04"

lemmas poller_attr_defs = ePollerReadable_def ePollerWritable_def ePollerClosed_def

text \<open>Whether two masks have a bit in common, as C tests it.\<close>

abbreviation has :: "'a::len word \<Rightarrow> 'a word \<Rightarrow> bool" where "has w m \<equiv> w AND m \<noteq> 0"

record pollHandle =
  ph_iAttribute :: u32
  ph_fn :: "nat option"

definition pollHandle_init :: "pollHandle \<Rightarrow> pollHandle" where
  "pollHandle_init h = h\<lparr>ph_iAttribute := ePollerClosed, ph_fn := None\<rparr>"

definition pollHandle_isWriting :: "pollHandle \<Rightarrow> bool" where
  "pollHandle_isWriting h = has (ph_iAttribute h) ePollerWritable"

definition pollHandle_isReading :: "pollHandle \<Rightarrow> bool" where
  "pollHandle_isReading h = has (ph_iAttribute h) ePollerReadable"

definition pollHandle_isClosed :: "pollHandle \<Rightarrow> bool" where
  "pollHandle_isClosed h = has (ph_iAttribute h) ePollerClosed"

section \<open>The poller on epoll\<close>

definition EPOLLIN :: u32 where "EPOLLIN = 0x001"
definition EPOLLOUT :: u32 where "EPOLLOUT = 0x004"
definition EPOLLERR :: u32 where "EPOLLERR = 0x008"
definition EPOLLHUP :: u32 where "EPOLLHUP = 0x010"
definition EPOLLRDHUP :: u32 where "EPOLLRDHUP = 0x2000"

lemmas epoll_defs = EPOLLIN_def EPOLLOUT_def EPOLLERR_def EPOLLHUP_def EPOLLRDHUP_def

text \<open>The interest list of the kernel: per descriptor the mask and the pointer given with it.  \<open>None\<close> is the
  result -1: adding what is there, changing or deleting what is not.\<close>

type_synonym epoll = "int \<Rightarrow> (u32 \<times> nat) option"

datatype epoll_op = EPOLL_CTL_ADD | EPOLL_CTL_MOD | EPOLL_CTL_DEL

fun epoll_ctl :: "epoll \<Rightarrow> epoll_op \<Rightarrow> int \<Rightarrow> u32 \<times> nat \<Rightarrow> epoll option" where
  "epoll_ctl k EPOLL_CTL_ADD fd ev = (if k fd = None then Some (k(fd \<mapsto> ev)) else None)"
| "epoll_ctl k EPOLL_CTL_MOD fd ev = (if k fd \<noteq> None then Some (k(fd \<mapsto> ev)) else None)"
| "epoll_ctl k EPOLL_CTL_DEL fd ev = (if k fd \<noteq> None then Some (k(fd := None)) else None)"

definition logged :: "'k \<Rightarrow> 'k option \<Rightarrow> 'k" where
  "logged k r = (case r of Some k' \<Rightarrow> k' | None \<Rightarrow> k)"

text \<open>The pointer of the handle is \<open>p\<close>.\<close>

definition poller_add :: "epoll \<Rightarrow> int \<Rightarrow> nat \<Rightarrow> pollHandle \<Rightarrow> u32 \<Rightarrow> nat \<Rightarrow> epoll \<times> pollHandle" where
  "poller_add k iSocket p h iAttribute fn =
     (let h = h\<lparr>ph_fn := Some fn, ph_iAttribute := iAttribute\<rparr>;
          iEvents = (if has (ph_iAttribute h) ePollerReadable then EPOLLIN else 0);
          iEvents = (if has (ph_iAttribute h) ePollerWritable then iEvents OR EPOLLOUT else iEvents)
      in (logged k (epoll_ctl k EPOLL_CTL_ADD iSocket (iEvents, p)), h))"

definition poller_clear :: "epoll \<Rightarrow> int \<Rightarrow> nat \<Rightarrow> pollHandle \<Rightarrow> u32 \<Rightarrow> epoll \<times> pollHandle" where
  "poller_clear k iSocket p h iAttribute =
     (if has iAttribute ePollerClosed
      then if \<not> has (ph_iAttribute h) ePollerClosed
           then (logged k (epoll_ctl k EPOLL_CTL_DEL iSocket (0, 0)), h\<lparr>ph_iAttribute := ePollerClosed\<rparr>)
           else (k, h)
      else
        let (h, iEvents, bMod) =
          (if has (ph_iAttribute h) ePollerReadable
           then if has iAttribute ePollerReadable
                then (h\<lparr>ph_iAttribute := ph_iAttribute h AND NOT ePollerReadable\<rparr>, 0, True)
                else (h, EPOLLIN, False)
           else (h, 0, False));
            (h, iEvents, bMod) =
          (if has (ph_iAttribute h) ePollerWritable
           then if has iAttribute ePollerWritable
                then (h\<lparr>ph_iAttribute := ph_iAttribute h AND NOT ePollerWritable\<rparr>, iEvents, True)
                else (h, EPOLLOUT, bMod)
           else (h, iEvents, bMod))
        in if bMod then (logged k (epoll_ctl k EPOLL_CTL_MOD iSocket (iEvents, p)), h) else (k, h))"

definition poller_setOpt :: "epoll \<Rightarrow> int \<Rightarrow> nat \<Rightarrow> pollHandle \<Rightarrow> u32 \<Rightarrow> epoll \<times> pollHandle" where
  "poller_setOpt k iSocket p h iAttribute =
     (let (h, iEvents, bMod) =
        (if has (ph_iAttribute h) ePollerReadable then (h, EPOLLIN, False)
         else if has iAttribute ePollerReadable
         then (h\<lparr>ph_iAttribute := ph_iAttribute h OR ePollerReadable\<rparr>, EPOLLIN, True)
         else (h, 0, False));
          (h, iEvents, bMod) =
        (if has (ph_iAttribute h) ePollerWritable then (h, iEvents OR EPOLLOUT, bMod)
         else if has iAttribute ePollerWritable
         then (h\<lparr>ph_iAttribute := ph_iAttribute h OR ePollerWritable\<rparr>, iEvents OR EPOLLOUT, True)
         else (h, iEvents, bMod))
      in if bMod then (logged k (epoll_ctl k EPOLL_CTL_MOD iSocket (iEvents, p)), h) else (k, h))"

text \<open>The attribute a handler is called with for a mask of events; \<open>poller_dispatch\<close> skips a mask with none, calls
  the handlers of the rest in order, and doubles the array of events when it was full.\<close>

definition poller_attribute :: "u32 \<Rightarrow> u32" where
  "poller_attribute events =
     (let iEpollEvents = ucast (ucast events :: u16) :: u32 in
      if has iEpollEvents (EPOLLHUP OR EPOLLERR) then ePollerReadable OR ePollerWritable
      else (if has iEpollEvents EPOLLIN then ePollerReadable else 0)
        OR (if has iEpollEvents EPOLLOUT then ePollerWritable else 0)
        OR (if has iEpollEvents EPOLLRDHUP then ePollerClosed else 0))"

definition poller_dispatch :: "(u32 \<times> nat) list \<Rightarrow> nat \<Rightarrow> (nat \<times> u32) list \<times> nat" where
  "poller_dispatch pEvent iEventCount =
     (map (\<lambda>(events, p). (p, poller_attribute events)) (filter (\<lambda>(events, p). poller_attribute events \<noteq> 0) pEvent),
      if length pEvent = iEventCount then iEventCount * 2 else iEventCount)"

section \<open>The poller on kqueue\<close>

datatype kfilter = EVFILT_READ | EVFILT_WRITE
datatype kflag = EV_ADD | EV_DELETE | EV_ENABLE | EV_DISABLE

text \<open>A filter of a descriptor is enabled or not and carries a pointer.  \<open>EV_ADD\<close> adds it, or resets it, enabled.\<close>

type_synonym kqueue = "int \<times> kfilter \<Rightarrow> (bool \<times> nat option) option"

fun kevent :: "kqueue \<Rightarrow> int \<Rightarrow> kfilter \<Rightarrow> kflag \<Rightarrow> nat option \<Rightarrow> kqueue option" where
  "kevent k fd f EV_ADD p = Some (k((fd, f) \<mapsto> (True, p)))"
| "kevent k fd f EV_DELETE p = (if k (fd, f) \<noteq> None then Some (k((fd, f) := None)) else None)"
| "kevent k fd f EV_ENABLE p = (if k (fd, f) \<noteq> None then Some (k((fd, f) \<mapsto> (True, p))) else None)"
| "kevent k fd f EV_DISABLE p = (if k (fd, f) \<noteq> None then Some (k((fd, f) \<mapsto> (False, p))) else None)"

definition kevent_any :: "kqueue \<Rightarrow> int \<Rightarrow> kfilter \<Rightarrow> kflag \<Rightarrow> nat option \<Rightarrow> kqueue" where
  "kevent_any k fd f a p = logged k (kevent k fd f a p)"

definition kevent_delete_both :: "kqueue \<Rightarrow> int \<Rightarrow> kqueue" where
  "kevent_delete_both k fd = kevent_any (kevent_any k fd EVFILT_READ EV_DELETE None) fd EVFILT_WRITE EV_DELETE None"

definition kqueue_poller_add :: "kqueue \<Rightarrow> int \<Rightarrow> nat \<Rightarrow> pollHandle \<Rightarrow> u32 \<Rightarrow> nat \<Rightarrow> kqueue \<times> pollHandle" where
  "kqueue_poller_add k iSocket p h iAttribute fn =
     (let h = h\<lparr>ph_fn := Some fn, ph_iAttribute := iAttribute\<rparr> in
      case kevent k iSocket EVFILT_READ EV_ADD (Some p) of None \<Rightarrow> (k, h) | Some k \<Rightarrow>
      case kevent k iSocket EVFILT_WRITE EV_ADD (Some p) of
        None \<Rightarrow> (kevent_any k iSocket EVFILT_READ EV_DELETE None, h) | Some k \<Rightarrow>
      case (if \<not> has (ph_iAttribute h) ePollerReadable
            then kevent k iSocket EVFILT_READ EV_DISABLE (Some p) else Some k) of
        None \<Rightarrow> (kevent_delete_both k iSocket, h) | Some k \<Rightarrow>
      case (if \<not> has (ph_iAttribute h) ePollerWritable
            then kevent k iSocket EVFILT_WRITE EV_DISABLE (Some p) else Some k) of
        None \<Rightarrow> (kevent_delete_both k iSocket, h) | Some k \<Rightarrow> (k, h))"

definition kqueue_poller_clear :: "kqueue \<Rightarrow> int \<Rightarrow> nat \<Rightarrow> pollHandle \<Rightarrow> u32 \<Rightarrow> kqueue \<times> pollHandle" where
  "kqueue_poller_clear k iSocket p h iAttribute =
     (if has iAttribute ePollerClosed
      then if \<not> has (ph_iAttribute h) ePollerClosed
           then (kevent_delete_both k iSocket, h\<lparr>ph_iAttribute := ePollerClosed\<rparr>)
           else (k, h)
      else
        let (k, h) =
          (if has iAttribute ePollerReadable \<and> has (ph_iAttribute h) ePollerReadable
           then (kevent_any k iSocket EVFILT_READ EV_DISABLE (Some p),
                 h\<lparr>ph_iAttribute := ph_iAttribute h AND NOT ePollerReadable\<rparr>)
           else (k, h))
        in if has iAttribute ePollerWritable \<and> has (ph_iAttribute h) ePollerWritable
           then (kevent_any k iSocket EVFILT_WRITE EV_DISABLE (Some p),
                 h\<lparr>ph_iAttribute := ph_iAttribute h AND NOT ePollerWritable\<rparr>)
           else (k, h))"

definition kqueue_poller_setOpt :: "kqueue \<Rightarrow> int \<Rightarrow> nat \<Rightarrow> pollHandle \<Rightarrow> u32 \<Rightarrow> kqueue \<times> pollHandle" where
  "kqueue_poller_setOpt k iSocket p h iAttribute =
     (let (k, h) =
        (if has iAttribute ePollerReadable \<and> \<not> has (ph_iAttribute h) ePollerReadable
         then (kevent_any k iSocket EVFILT_READ EV_ENABLE (Some p),
               h\<lparr>ph_iAttribute := ph_iAttribute h OR ePollerReadable\<rparr>)
         else (k, h))
      in if has iAttribute ePollerWritable \<and> \<not> has (ph_iAttribute h) ePollerWritable
         then (kevent_any k iSocket EVFILT_WRITE EV_ENABLE (Some p),
               h\<lparr>ph_iAttribute := ph_iAttribute h OR ePollerWritable\<rparr>)
         else (k, h))"

text \<open>An event of \<open>kevent\<close>: whether it is an error, its filter, its pointer.\<close>

definition kqueue_poller_dispatch :: "(bool \<times> kfilter \<times> nat) list \<Rightarrow> nat \<Rightarrow> (nat \<times> u32) list \<times> nat" where
  "kqueue_poller_dispatch pEvent iEventCount =
     (map (\<lambda>(err, filter, p). (p, if err then ePollerClosed
        else case filter of EVFILT_READ \<Rightarrow> ePollerReadable | EVFILT_WRITE \<Rightarrow> ePollerWritable)) pEvent,
      if length pEvent = iEventCount then iEventCount * 2 else iEventCount)"

section \<open>The contract of a poller\<close>

text \<open>What a user of a poller sees of one socket: \<open>None\<close> while it is not registered, else whether it is polled for
  reading and for writing.  Registering twice, or changing what is not registered, is outside the contract.\<close>

datatype poll_op = PollAdd u32 | PollClear u32 | PollSetOpt u32

type_synonym interest = "(bool \<times> bool) option"

fun interest_step :: "interest \<Rightarrow> poll_op \<Rightarrow> (interest \<times> interest) option" where
  "interest_step None (PollAdd a) =
     (if has a ePollerClosed then None
      else let i = Some (has a ePollerReadable, has a ePollerWritable) in Some (i, i))"
| "interest_step (Some _) (PollAdd a) = None"
| "interest_step None (PollClear a) = Some (None, None)"
| "interest_step (Some (r, w)) (PollClear a) =
     (let i = (if has a ePollerClosed then None
               else Some (r \<and> \<not> has a ePollerReadable, w \<and> \<not> has a ePollerWritable)) in Some (i, i))"
| "interest_step None (PollSetOpt a) = None"
| "interest_step (Some (r, w)) (PollSetOpt a) =
     (let i = Some (r \<or> has a ePollerReadable, w \<or> has a ePollerWritable) in Some (i, i))"

text \<open>What the kernel polls a socket for.\<close>

definition epoll_interest :: "epoll \<Rightarrow> int \<Rightarrow> interest" where
  "epoll_interest k fd = map_option (\<lambda>(ev, _). (has ev EPOLLIN, has ev EPOLLOUT)) (k fd)"

definition kqueue_interest :: "kqueue \<Rightarrow> int \<Rightarrow> interest" where
  "kqueue_interest k fd =
     (case (k (fd, EVFILT_READ), k (fd, EVFILT_WRITE)) of
        (Some (r, _), Some (w, _)) \<Rightarrow> Some (r, w) | _ \<Rightarrow> None)"

definition handle_interest :: "pollHandle \<Rightarrow> interest" where
  "handle_interest h =
     (if pollHandle_isClosed h then None else Some (pollHandle_isReading h, pollHandle_isWriting h))"

text \<open>One call on the handle at \<open>p\<close> of the socket \<open>fd\<close>; its result is what the kernel polls the socket for after it.\<close>

fun epoll_step :: "int \<Rightarrow> nat \<Rightarrow> nat \<Rightarrow> epoll \<times> pollHandle \<Rightarrow> poll_op \<Rightarrow> (interest \<times> epoll \<times> pollHandle) option" where
  "epoll_step fd p fn (k, h) (PollAdd a) = (let (k, h) = poller_add k fd p h a fn in Some (epoll_interest k fd, k, h))"
| "epoll_step fd p fn (k, h) (PollClear a) = (let (k, h) = poller_clear k fd p h a in Some (epoll_interest k fd, k, h))"
| "epoll_step fd p fn (k, h) (PollSetOpt a) = (let (k, h) = poller_setOpt k fd p h a in Some (epoll_interest k fd, k, h))"

fun kqueue_step :: "int \<Rightarrow> nat \<Rightarrow> nat \<Rightarrow> kqueue \<times> pollHandle \<Rightarrow> poll_op \<Rightarrow> (interest \<times> kqueue \<times> pollHandle) option" where
  "kqueue_step fd p fn (k, h) (PollAdd a) =
     (let (k, h) = kqueue_poller_add k fd p h a fn in Some (kqueue_interest k fd, k, h))"
| "kqueue_step fd p fn (k, h) (PollClear a) =
     (let (k, h) = kqueue_poller_clear k fd p h a in Some (kqueue_interest k fd, k, h))"
| "kqueue_step fd p fn (k, h) (PollSetOpt a) =
     (let (k, h) = kqueue_poller_setOpt k fd p h a in Some (kqueue_interest k fd, k, h))"

text \<open>The handle and the kernel agree, and nothing else in the kernel has changed since \<open>k0\<close>.\<close>

definition epoll_rel :: "epoll \<Rightarrow> int \<Rightarrow> nat \<Rightarrow> epoll \<times> pollHandle \<Rightarrow> interest \<Rightarrow> bool" where
  "epoll_rel k0 fd p s i \<longleftrightarrow>
     handle_interest (snd s) = i \<and> (i = None \<longrightarrow> ph_iAttribute (snd s) = ePollerClosed) \<and>
     fst s = k0(fd := map_option (\<lambda>(r, w). ((if r then EPOLLIN else 0) OR (if w then EPOLLOUT else 0), p)) i)"

definition kqueue_rel :: "kqueue \<Rightarrow> int \<Rightarrow> nat \<Rightarrow> kqueue \<times> pollHandle \<Rightarrow> interest \<Rightarrow> bool" where
  "kqueue_rel k0 fd p s i \<longleftrightarrow>
     handle_interest (snd s) = i \<and> (i = None \<longrightarrow> ph_iAttribute (snd s) = ePollerClosed) \<and>
     fst s = k0((fd, EVFILT_READ) := map_option (\<lambda>(r, w). (r, Some p)) i,
                (fd, EVFILT_WRITE) := map_option (\<lambda>(r, w). (w, Some p)) i)"

lemma attr_bits:
  "ePollerReadable \<noteq> 0" "ePollerWritable \<noteq> 0" "ePollerClosed \<noteq> 0"
  "\<not> has ePollerReadable ePollerWritable" "\<not> has ePollerWritable ePollerReadable"
  "\<not> has ePollerClosed ePollerReadable" "\<not> has ePollerClosed ePollerWritable"
  by (simp_all add: poller_attr_defs)

lemma has_or: "(a OR b) AND m = 0 \<longleftrightarrow> a AND m = 0 \<and> b AND m = 0" for a :: "'a::len word"
  by (auto simp: bit_eq_iff bit_simps)

text \<open>Setting and clearing one attribute leaves the others alone.\<close>

lemma attr_clear:
  "(a AND NOT ePollerReadable) AND ePollerWritable = 0 \<longleftrightarrow> a AND ePollerWritable = 0"
  "(a AND NOT ePollerReadable) AND ePollerClosed = 0 \<longleftrightarrow> a AND ePollerClosed = 0"
  "(a AND NOT ePollerWritable) AND ePollerReadable = 0 \<longleftrightarrow> a AND ePollerReadable = 0"
  "(a AND NOT ePollerWritable) AND ePollerClosed = 0 \<longleftrightarrow> a AND ePollerClosed = 0"
  "(a AND NOT ePollerReadable) AND ePollerReadable = 0" "(a AND NOT ePollerWritable) AND ePollerWritable = 0"
  by (simp_all add: and.assoc poller_attr_defs)

lemma attr_set:
  "(a OR ePollerReadable) AND ePollerWritable = 0 \<longleftrightarrow> a AND ePollerWritable = 0"
  "(a OR ePollerReadable) AND ePollerClosed = 0 \<longleftrightarrow> a AND ePollerClosed = 0"
  "(a OR ePollerWritable) AND ePollerReadable = 0 \<longleftrightarrow> a AND ePollerReadable = 0"
  "(a OR ePollerWritable) AND ePollerClosed = 0 \<longleftrightarrow> a AND ePollerClosed = 0"
  "(a OR ePollerReadable) AND ePollerReadable \<noteq> 0" "(a OR ePollerWritable) AND ePollerWritable \<noteq> 0"
  by (simp_all add: has_or) (simp_all add: poller_attr_defs)

lemmas attr_simps = attr_bits attr_clear attr_set

lemma epoll_bits:
  "has ((if r then EPOLLIN else 0) OR (if w then EPOLLOUT else 0)) EPOLLIN \<longleftrightarrow> r"
  "has ((if r then EPOLLIN else 0) OR (if w then EPOLLOUT else 0)) EPOLLOUT \<longleftrightarrow> w"
  by (simp_all add: epoll_defs)

lemmas interest_defs = handle_interest_def pollHandle_isClosed_def pollHandle_isReading_def pollHandle_isWriting_def

lemma handle_interest_Some: "handle_interest h = Some (r, w) \<longleftrightarrow>
    ph_iAttribute h AND ePollerClosed = 0 \<and> (has (ph_iAttribute h) ePollerReadable \<longleftrightarrow> r) \<and>
    (has (ph_iAttribute h) ePollerWritable \<longleftrightarrow> w)"
  by (auto simp: interest_defs)

lemma handle_interest_None: "handle_interest h = None \<longleftrightarrow> has (ph_iAttribute h) ePollerClosed"
  by (auto simp: interest_defs)

lemmas handle_interest_simps = handle_interest_Some handle_interest_None

lemma epoll_relD:
  assumes "epoll_rel k0 fd p (k, h) i"
  shows "handle_interest h = i" "i = None \<Longrightarrow> ph_iAttribute h = ePollerClosed" 
    "k = k0(fd := map_option (\<lambda>(r, w). ((if r then EPOLLIN else 0) OR (if w then EPOLLOUT else 0), p)) i)"
  using assms by (auto simp: epoll_rel_def)

lemma epoll_sim:
  assumes "epoll_rel k0 fd p s i" "interest_step i op = Some (r, i')"
  shows "\<exists>s'. epoll_step fd p fn s op = Some (r, s') \<and> epoll_rel k0 fd p s' i'"
proof -
  obtain k h where s: "s = (k, h)" by fastforce
  note rel = epoll_relD [OF assms(1) [unfolded s]]
  note defs = epoll_rel_def logged_def handle_interest_simps Let_def epoll_interest_def attr_simps
  show ?thesis
  proof (cases op)
    case (PollAdd a)
    with assms(2) rel s show ?thesis
      by (cases i; cases "has a ePollerReadable"; cases "has a ePollerWritable")
        (auto simp: defs poller_add_def epoll_defs split: if_splits)
  next
    case (PollClear a)
    show ?thesis
    proof (cases i)
      case None
      with assms(2) rel s PollClear show ?thesis by (auto simp: defs poller_clear_def)
    next
      case (Some rw)
      obtain rr ww where rw: "rw = (rr, ww)" by fastforce
      with assms(2) PollClear Some have r: "i' = r" "r = (if has a ePollerClosed then None
          else Some (rr \<and> \<not> has a ePollerReadable, ww \<and> \<not> has a ePollerWritable))" by (auto simp: Let_def)
      with rw rel s PollClear Some show ?thesis
        by (cases rr; cases ww; cases "has a ePollerClosed"; cases "has a ePollerReadable"; cases "has a ePollerWritable")
          (simp_all add: defs poller_clear_def epoll_defs)
    qed
  next
    case (PollSetOpt a)
    then obtain rr ww where i: "i = Some (rr, ww)" using assms(2) by (cases i) auto
    with assms(2) PollSetOpt have r: "i' = r" "r = Some (rr \<or> has a ePollerReadable, ww \<or> has a ePollerWritable)"
      by (auto simp: Let_def)
    with i rel s PollSetOpt show ?thesis
      by (cases rr; cases ww; cases "has a ePollerReadable"; cases "has a ePollerWritable")
        (simp_all add: defs poller_setOpt_def epoll_defs)
  qed
qed

interpretation epoll: op_refinement "epoll_step fd p fn" interest_step "epoll_rel k0 fd p" id for fd p fn k0
  using epoll_sim by unfold_locales simp

lemma kqueue_relD:
  assumes "kqueue_rel k0 fd p (k, h) i"
  shows "handle_interest h = i" "i = None \<Longrightarrow> ph_iAttribute h = ePollerClosed" 
    "k = k0((fd, EVFILT_READ) := map_option (\<lambda>(r, w). (r, Some p)) i,
            (fd, EVFILT_WRITE) := map_option (\<lambda>(r, w). (w, Some p)) i)"
  using assms by (auto simp: kqueue_rel_def)

lemma kqueue_upd:
  "k((fd, EVFILT_READ) := a, (fd, EVFILT_WRITE) := b, (fd, EVFILT_READ) := c) =
   k((fd, EVFILT_READ) := c, (fd, EVFILT_WRITE) := b)"
  by (simp add: fun_upd_twist)

lemma kqueue_sim:
  assumes "kqueue_rel k0 fd p s i" "interest_step i op = Some (r, i')"
  shows "\<exists>s'. kqueue_step fd p fn s op = Some (r, s') \<and> kqueue_rel k0 fd p s' i'"
proof -
  obtain k h where s: "s = (k, h)" by fastforce
  note rel = kqueue_relD [OF assms(1) [unfolded s]]
  note defs = kqueue_rel_def logged_def handle_interest_simps Let_def kqueue_interest_def kevent_any_def
    kevent_delete_both_def kqueue_upd attr_simps
  show ?thesis
  proof (cases op)
    case (PollAdd a)
    with assms(2) rel s show ?thesis
      by (cases i; cases "has a ePollerReadable"; cases "has a ePollerWritable")
        (auto simp: defs kqueue_poller_add_def split: if_splits)
  next
    case (PollClear a)
    show ?thesis
    proof (cases i)
      case None
      with assms(2) rel s PollClear show ?thesis by (auto simp: defs kqueue_poller_clear_def)
    next
      case (Some rw)
      obtain rr ww where rw: "rw = (rr, ww)" by fastforce
      with assms(2) PollClear Some have r: "i' = r" "r = (if has a ePollerClosed then None
          else Some (rr \<and> \<not> has a ePollerReadable, ww \<and> \<not> has a ePollerWritable))" by (auto simp: Let_def)
      with rw rel s PollClear Some show ?thesis
        by (cases rr; cases ww; cases "has a ePollerClosed"; cases "has a ePollerReadable"; cases "has a ePollerWritable")
          (simp_all add: defs kqueue_poller_clear_def)
    qed
  next
    case (PollSetOpt a)
    then obtain rr ww where i: "i = Some (rr, ww)" using assms(2) by (cases i) auto
    with assms(2) PollSetOpt have r: "i' = r" "r = Some (rr \<or> has a ePollerReadable, ww \<or> has a ePollerWritable)"
      by (auto simp: Let_def)
    with i rel s PollSetOpt show ?thesis
      by (cases rr; cases ww; cases "has a ePollerReadable"; cases "has a ePollerWritable")
        (simp_all add: defs kqueue_poller_setOpt_def)
  qed
qed

interpretation kqueue: op_refinement "kqueue_step fd p fn" interest_step "kqueue_rel k0 fd p" id for fd p fn k0
  using kqueue_sim by unfold_locales simp

section \<open>Properties\<close>

text \<open>C20: Every sequence of registering, clearing and setting within the contract makes both pollers ask the kernel for
  exactly what the contract says after each call, whatever else the kernel holds and without changing it; the attribute
  of the handle says the same.  So a user of the interface cannot tell the two apart.\<close>

theorem pollers_agree:
  assumes "run_ops interest_step None ops = Some (rs, i)" "ph_iAttribute h = ePollerClosed"
    "k fd = None" "q (fd, EVFILT_READ) = None" "q (fd, EVFILT_WRITE) = None"
  shows "\<exists>k' h1 q' h2. run_ops (epoll_step fd p fn) (k, h) ops = Some (rs, k', h1) \<and>
    run_ops (kqueue_step fd p fn) (q, h) ops = Some (rs, q', h2) \<and>
    handle_interest h1 = i \<and> handle_interest h2 = i \<and> epoll_interest k' fd = i \<and> kqueue_interest q' fd = i \<and>
    (\<forall>fd'. fd' \<noteq> fd \<longrightarrow> k' fd' = k fd' \<and> (\<forall>f. q' (fd', f) = q (fd', f)))"
proof -
  have c: "handle_interest h = None" using assms(2) by (simp add: handle_interest_None attr_bits)
  have "epoll_rel k fd p (k, h) None"
    using assms(2,3) c by (auto simp: epoll_rel_def fun_eq_iff)
  from epoll.run_sim [where fn = fn, OF this assms(1)] obtain k' h1 where
    e: "run_ops (epoll_step fd p fn) (k, h) ops = Some (rs, k', h1)" "epoll_rel k fd p (k', h1) i" by auto
  have "kqueue_rel q fd p (q, h) None"
    using assms(2,4,5) c by (auto simp: kqueue_rel_def fun_eq_iff)
  from kqueue.run_sim [where fn = fn, OF this assms(1)] obtain q' h2 where
    q: "run_ops (kqueue_step fd p fn) (q, h) ops = Some (rs, q', h2)" "kqueue_rel q fd p (q', h2) i" by auto
  from e q epoll_relD [OF e(2)] kqueue_relD [OF q(2)] show ?thesis
    by (cases i) (auto simp: epoll_interest_def kqueue_interest_def epoll_bits)
qed

lemma pollers_agree_witness:
  "\<exists>k' h1 q' h2.
     run_ops (epoll_step 5 9 1) (Map.empty, \<lparr>ph_iAttribute = 4, ph_fn = None\<rparr>)
       [PollAdd 1, PollSetOpt 2, PollClear 1, PollClear 4] =
     Some ([Some (True, False), Some (True, True), Some (False, True), None], k', h1) \<and>
     run_ops (kqueue_step 5 9 1) (Map.empty, \<lparr>ph_iAttribute = 4, ph_fn = None\<rparr>)
       [PollAdd 1, PollSetOpt 2, PollClear 1, PollClear 4] =
     Some ([Some (True, False), Some (True, True), Some (False, True), None], q', h2) \<and>
     handle_interest h1 = None \<and> handle_interest h2 = None"
proof -
  have "run_ops interest_step None [PollAdd 1, PollSetOpt 2, PollClear 1, PollClear 4] =
      Some ([Some (True, False), Some (True, True), Some (False, True), None], None)"
    by (simp add: poller_attr_defs Let_def)
  from pollers_agree [OF this, of "\<lparr>ph_iAttribute = 4, ph_fn = None\<rparr>" Map.empty 5 Map.empty 9 1]
  show ?thesis unfolding poller_attr_defs by auto
qed

text \<open>Outside the contract: setting an attribute on a closed handle makes the handle claim an interest the kernel does
  not have.\<close>

lemma setOpt_on_closed:
  assumes "ph_iAttribute h = ePollerClosed" "k fd = None" "has a ePollerWritable"
  shows "\<exists>h'. poller_setOpt k fd p h a = (k, h') \<and> pollHandle_isWriting h' \<and> pollHandle_isClosed h'"
  using assms by (simp add: poller_setOpt_def logged_def pollHandle_isWriting_def pollHandle_isClosed_def Let_def)
    (simp add: poller_attr_defs)

end
