(* ===== verification/Connection.thy ===== *)
theory Connection
  imports ByteQueue Poller Service
begin

text \<open>
  Connections, \<open>core/source/eventIO/posix/eventConnection_t.c\<close>: the buffers waiting to be sent, the writing of
  them to the socket as it takes them, the receiving into the byte queue, and the life of a connection from
  accept or connect to close.  What the system calls return is a parameter of the functions that make them.

  The record has the fields of \<open>eventConnection_s\<close>, with the poller of its loop, the functions queued in
  its loop that are about it, and what it has done to the outside so far: bytes given to the socket, callbacks
  made.  A callback is a flag (set or not) and an entry of that list; calls it makes are operations of their own.
\<close>

section \<open>Buffers\<close>

datatype evStorage = EvBytes bytes | EvVec "bytes list"

record eventBuf =
  eb_fnCallback :: bool
  eb_pEventConnection :: bool
  eb_uiLength :: u32
  eb_uiWriteUser :: u64
  eb_szStorage :: evStorage

text \<open>\<open>mem_malloc\<close> leaves \<open>pEventConnection\<close> unset; \<open>eventConnection_send\<close> sets it on one of its paths.\<close>

definition createEventBuf :: "bytes \<Rightarrow> int \<Rightarrow> bool \<Rightarrow> u64 \<Rightarrow> eventBuf option" where
  "createEventBuf pBuffer iLength fn uiWriteUser = do {
     guard (0 < iLength \<and> nat iLength \<le> length pBuffer);
     Some \<lparr>eb_fnCallback = fn, eb_pEventConnection = False, eb_uiLength = of_int iLength,
           eb_uiWriteUser = uiWriteUser, eb_szStorage = EvBytes (take (nat iLength) pBuffer)\<rparr> }"

text \<open>The buffers of the vector are moved: the caller's vector is left empty.\<close>

definition createEventBuf_move :: "bytes list \<Rightarrow> int \<Rightarrow> bool \<Rightarrow> u64 \<Rightarrow> (eventBuf \<times> bytes list) option" where
  "createEventBuf_move pBufVec iCount fn uiWriteUser = do {
     guard (0 < iCount \<and> nat iCount \<le> length pBufVec);
     Some (\<lparr>eb_fnCallback = fn, eb_pEventConnection = False, eb_uiLength = of_int iCount OR 0x80000000,
            eb_uiWriteUser = uiWriteUser, eb_szStorage = EvVec (take (nat iCount) pBufVec)\<rparr>,
           replicate (nat iCount) [] @ drop (nat iCount) pBufVec) }"

definition eb_isVec :: "eventBuf \<Rightarrow> bool" where
  "eb_isVec b = has (eb_uiLength b) 0x80000000"

definition eb_count :: "eventBuf \<Rightarrow> nat" where
  "eb_count b = unat (eb_uiLength b AND 0x7fffffff)"

text \<open>\<open>szStorage\<close>, read as bytes and as a vector; the two constructors write the flag and the storage together.\<close>

definition eb_bytes :: "eventBuf \<Rightarrow> bytes" where
  "eb_bytes b = (case eb_szStorage b of EvBytes xs \<Rightarrow> take (eb_count b) xs | EvVec _ \<Rightarrow> [])"

definition eb_vec :: "eventBuf \<Rightarrow> bytes list" where
  "eb_vec b = (case eb_szStorage b of EvVec bs \<Rightarrow> take (eb_count b) bs | EvBytes _ \<Rightarrow> [])"

text \<open>The vector for \<open>writev\<close>, or the one part for \<open>send\<close>, and the length that is summed up with it.\<close>

definition eb_iov :: "eventBuf \<Rightarrow> bytes list" where
  "eb_iov b = (if eb_isVec b then eb_vec b else [eb_bytes b])"

definition eb_iLength :: "eventBuf \<Rightarrow> int" where
  "eb_iLength b = (if eb_isVec b then int (sum_list (map length (eb_vec b))) else int (eb_count b))"

section \<open>State\<close>

datatype enEventConnectionStatus = eDisconnected | eConnecting | eConnected | eDisconnecting

datatype conn_out =
    Wire bytes
  | SendComplete bool u64
  | DisconnectCallback
  | CloseCallback
  | ConnectorCallback
  | CloseSocket
  | ShutdownWrite
  | RemoveAddress
  | UserFree
  | Posted serviceEvent
  | Free

datatype conn_async = AsyncBind | AsyncConnect | AsyncClose | AsyncForceClose | AsyncSend eventBuf

record eventConnection =
  ec_fnReceiveCallback :: bool
  ec_fnConnectorCallback :: bool
  ec_fnCloseCallback :: bool
  ec_fnUserFree :: bool
  ec_hDisconnectCallback :: bool
  ec_pUserData :: bool
  ec_pollHandle :: pollHandle
  ec_pPoller :: epoll
  ec_iConnections :: int
  ec_hSocket :: int
  ec_pListenPort :: bool
  ec_bTcp :: bool
  ec_bKeepAlive :: bool
  ec_bTcpNoDelay :: bool
  ec_readByteQueue :: byteQueue
  ec_queueWritePending :: "eventBuf list"
  ec_nWritten :: u64
  ec_iWritePending :: int
  ec_nWritePendingBytes :: u64
  ec_iStatus :: enEventConnectionStatus
  ec_iRefCount :: int
  ec_async :: "conn_async list"
  ec_out :: "conn_out list"

definition emit :: "conn_out \<Rightarrow> eventConnection \<Rightarrow> eventConnection" where
  "emit x c = c\<lparr>ec_out := ec_out c @ [x]\<rparr>"

text \<open>The poller calls on the handle of the connection, which is at address 1; its handler is \<open>handleEvent\<close>, named 1.\<close>

definition conn_poller_add :: "eventConnection \<Rightarrow> u32 \<Rightarrow> eventConnection" where
  "conn_poller_add c a = (let (k, h) = poller_add (ec_pPoller c) (ec_hSocket c) 1 (ec_pollHandle c) a 1 in
     c\<lparr>ec_pPoller := k, ec_pollHandle := h\<rparr>)"

definition conn_poller_clear :: "eventConnection \<Rightarrow> u32 \<Rightarrow> eventConnection" where
  "conn_poller_clear c a = (let (k, h) = poller_clear (ec_pPoller c) (ec_hSocket c) 1 (ec_pollHandle c) a in
     c\<lparr>ec_pPoller := k, ec_pollHandle := h\<rparr>)"

definition conn_poller_setOpt :: "eventConnection \<Rightarrow> u32 \<Rightarrow> eventConnection" where
  "conn_poller_setOpt c a = (let (k, h) = poller_setOpt (ec_pPoller c) (ec_hSocket c) 1 (ec_pollHandle c) a in
     c\<lparr>ec_pPoller := k, ec_pollHandle := h\<rparr>)"

definition MAXIMUM_MTU_SIZE :: nat where "MAXIMUM_MTU_SIZE = 1492"

definition createEventConnection :: "epoll \<Rightarrow> int \<Rightarrow> bool \<Rightarrow> eventConnection" where
  "createEventConnection k iConnections bTcp =
     \<lparr>ec_fnReceiveCallback = False, ec_fnConnectorCallback = False, ec_fnCloseCallback = False,
      ec_fnUserFree = False, ec_hDisconnectCallback = False, ec_pUserData = False,
      ec_pollHandle = \<lparr>ph_iAttribute = ePollerClosed, ph_fn = None\<rparr>, ec_pPoller = k,
      ec_iConnections = iConnections + 1, ec_hSocket = -1, ec_pListenPort = False, ec_bTcp = bTcp,
      ec_bKeepAlive = False, ec_bTcpNoDelay = False,
      ec_readByteQueue = byteQueue_init (if bTcp then 256 else MAXIMUM_MTU_SIZE), ec_queueWritePending = [],
      ec_nWritten = 0, ec_iWritePending = 0, ec_nWritePendingBytes = 0, ec_iStatus = eDisconnected,
      ec_iRefCount = 1, ec_async = [], ec_out = []\<rparr>"

definition acceptEventConnection :: "epoll \<Rightarrow> int \<Rightarrow> int \<Rightarrow> eventConnection" where
  "acceptEventConnection k iConnections hSocket =
     (createEventConnection k iConnections True)
       \<lparr>ec_hSocket := hSocket, ec_pListenPort := True, ec_iStatus := eConnecting\<rparr>"

definition acceptUdpEventConnection :: "epoll \<Rightarrow> int \<Rightarrow> int \<Rightarrow> eventConnection" where
  "acceptUdpEventConnection k iConnections hSocket =
     (createEventConnection k iConnections False)
       \<lparr>ec_hSocket := hSocket, ec_pListenPort := True, ec_iStatus := eConnecting\<rparr>"

definition eventConnection_addref :: "eventConnection \<Rightarrow> eventConnection" where
  "eventConnection_addref c = c\<lparr>ec_iRefCount := ec_iRefCount c + 1\<rparr>"

definition eventConnection_release :: "eventConnection \<Rightarrow> eventConnection" where
  "eventConnection_release c =
     (let n = ec_iRefCount c; c = c\<lparr>ec_iRefCount := n - 1\<rparr> in
      if n = 1 then
        let c = c\<lparr>ec_readByteQueue := byteQueue_clear (ec_readByteQueue c)\<rparr>;
            c = (if ec_pListenPort c
                 then (if \<not> ec_bTcp c then emit RemoveAddress c else c)\<lparr>ec_pListenPort := False\<rparr>
                 else c);
            c = (if ec_fnUserFree c then emit UserFree c else c)
        in emit Free c
      else c)"

section \<open>Sending\<close>

definition EINTR :: int where "EINTR = 4"
definition EAGAIN :: int where "EAGAIN = 11"

definition TEST_ERR_RW_RETRIABLE :: "int \<Rightarrow> bool" where
  "TEST_ERR_RW_RETRIABLE e \<longleftrightarrow> e = EINTR \<or> e = EAGAIN"

text \<open>The answer of \<open>send\<close> and \<open>writev\<close>: the kernel takes at most so many bytes, off the front of what it is offered,
  or the call fails with -1; and \<open>errno\<close> after it.\<close>

type_synonym sysret = "nat option \<times> int"

definition sys_result :: "bytes list \<Rightarrow> sysret \<Rightarrow> int" where
  "sys_result iov r = (case fst r of Some n \<Rightarrow> int (min n (length (concat iov))) | None \<Rightarrow> -1)"

definition sys_writev :: "bytes list \<Rightarrow> sysret \<Rightarrow> eventConnection \<Rightarrow> eventConnection" where
  "sys_writev iov r c =
     (let n = sys_result iov r in if 0 < n then emit (Wire (take (nat n) (concat iov))) c else c)"

text \<open>The callback of a buffer reads the connection from the buffer, and then the buffer is released.\<close>

definition send_callback :: "bool \<Rightarrow> eventBuf \<Rightarrow> eventConnection \<Rightarrow> eventConnection option" where
  "send_callback bSendComplete b c =
     (if eb_fnCallback b
      then do { guard (eb_pEventConnection b); Some (emit (SendComplete bSendComplete (eb_uiWriteUser b)) c) }
      else Some c)"

definition vec_length :: "bytes list \<Rightarrow> u64" where
  "vec_length bs = of_nat (sum_list (map length bs))"

text \<open>The length of a buffer, added to \<open>nLength\<close> for a vector: the loops that use it do not reset it.\<close>

definition add_length :: "eventBuf \<Rightarrow> u64 \<Rightarrow> u64" where
  "add_length b nLength =
     (if eb_isVec b then nLength + vec_length (eb_vec b) else of_nat (eb_count b))"

definition disconnect_callback :: "eventConnection \<Rightarrow> eventConnection" where
  "disconnect_callback c =
     (if ec_hDisconnectCallback c then emit DisconnectCallback (c\<lparr>ec_hDisconnectCallback := False\<rparr>) else c)"

text \<open>The part of a buffer that is still to be sent, after \<open>iSkipLength\<close> bytes of it.\<close>

fun skip_iov :: "int \<Rightarrow> bytes list \<Rightarrow> bytes list" where
  "skip_iov iSkipLength [] = []"
| "skip_iov iSkipLength (x # xs) =
     (if iSkipLength \<ge> int (length x) then skip_iov (iSkipLength - int (length x)) xs
      else drop (nat iSkipLength) x # skip_iov 0 xs)"

text \<open>The inner loop over a vector: its bound \<open>Min(iCount, 64 - iBufferIOCount)\<close> is read in every round.\<close>

fun gather_vec :: "bytes list \<Rightarrow> nat \<Rightarrow> nat \<Rightarrow> u64 \<Rightarrow> bytes list \<Rightarrow> nat \<times> u64 \<times> bytes list" where
  "gather_vec [] i iBufferIOCount nWriteLength iov = (iBufferIOCount, nWriteLength, iov)"
| "gather_vec (x # xs) i iBufferIOCount nWriteLength iov =
     (if int i < 64 - int iBufferIOCount
      then gather_vec xs (i + 1) (iBufferIOCount + 1) (nWriteLength + of_nat (length x)) (iov @ [x])
      else (iBufferIOCount, nWriteLength, iov))"

text \<open>The loop that fills the vector of \<open>writev\<close>.  It looks at the head of the queue in every round.  Each round adds
  at least one entry, and at 64 it stops.\<close>

fun gather_iov :: "nat \<Rightarrow> eventBuf \<Rightarrow> nat \<Rightarrow> u64 \<Rightarrow> bytes list \<Rightarrow> bytes list option" where
  "gather_iov 0 b iBufferIOCount nWriteLength iov = None"
| "gather_iov (Suc fuel) b iBufferIOCount nWriteLength iov =
     (let (iBufferIOCount, nWriteLength, iov) =
        (if eb_isVec b then gather_vec (eb_vec b) 0 iBufferIOCount nWriteLength iov
         else (iBufferIOCount + 1, nWriteLength + of_nat (eb_count b), iov @ [eb_bytes b]))
      in if iBufferIOCount = 64 \<or> 8192 \<le> nWriteLength then Some iov
         else gather_iov fuel b iBufferIOCount nWriteLength iov)"

text \<open>The first loop of \<open>sendCompleteCallback\<close>: the buffers that are sent.\<close>

fun pop_sent :: "eventBuf list \<Rightarrow> u64 \<Rightarrow> eventConnection \<Rightarrow> eventConnection option" where
  "pop_sent [] nLength c = Some c"
| "pop_sent (b # bs) nLength c =
     (let nLength = add_length b nLength in
      if ec_nWritten c \<ge> nLength then do {
        c \<leftarrow> send_callback True b
          (c\<lparr>ec_queueWritePending := bs, ec_iWritePending := ec_iWritePending c - 1,
             ec_nWritePendingBytes := ec_nWritePendingBytes c - nLength, ec_nWritten := ec_nWritten c - nLength\<rparr>);
        pop_sent bs nLength c }
      else Some c)"

text \<open>Its last loop: every buffer fails.  A vector counts with the number of its entries.\<close>

fun fail_sent :: "eventBuf list \<Rightarrow> eventConnection \<Rightarrow> eventConnection option" where
  "fail_sent [] c = Some c"
| "fail_sent (b # bs) c = do {
     c \<leftarrow> send_callback False b
       (c\<lparr>ec_queueWritePending := bs, ec_iWritePending := ec_iWritePending c - 1,
          ec_nWritePendingBytes := ec_nWritePendingBytes c - of_nat (eb_count b)\<rparr>);
     fail_sent bs c }"

definition retry_iov :: "eventBuf \<Rightarrow> u64 \<Rightarrow> bytes list option" where
  "retry_iov b nWritten =
     (if nWritten \<noteq> 0
      then if eb_isVec b then Some (skip_iov (sint (ucast nWritten :: 32 word)) (eb_vec b))
           else Some [drop (unat nWritten) (eb_bytes b)]
      else gather_iov 64 b 0 0 [])"

definition sendCompleteCallback :: "sysret \<Rightarrow> eventConnection \<Rightarrow> eventConnection option" where
  "sendCompleteCallback r c = do {
     c \<leftarrow> pop_sent (ec_queueWritePending c) 0 c;
     if ec_iWritePending c > 0 then do {
       guard (ec_queueWritePending c \<noteq> []);
       iov \<leftarrow> retry_iov (hd (ec_queueWritePending c)) (ec_nWritten c);
       let iBytesSent = sys_result iov r;
       let c = sys_writev iov r c;
       if iBytesSent > 0 then Some (c\<lparr>ec_nWritten := ec_nWritten c + of_int iBytesSent\<rparr>)
       else if TEST_ERR_RW_RETRIABLE (snd r) then Some c
       else do {
         c \<leftarrow> fail_sent (ec_queueWritePending c) c;
         Some (disconnect_callback (conn_poller_clear (c\<lparr>ec_nWritten := 0\<rparr>) ePollerClosed)) } }
     else Some (conn_poller_clear c ePollerWritable) }"

text \<open>The result of \<open>sendData\<close> is an \<open>int32_t\<close>; the caller tests it for -1.\<close>

definition sendData :: "sysret \<Rightarrow> eventBuf \<Rightarrow> eventConnection \<Rightarrow> (int \<times> eventConnection) option" where
  "sendData r b c =
     (if \<not> pollHandle_isWriting (ec_pollHandle c) then
        let iLength = eb_iLength b;
            iWritten = sys_result (eb_iov b) r;
            c = sys_writev (eb_iov b) r c
        in if iWritten < 0 \<and> \<not> TEST_ERR_RW_RETRIABLE (snd r) then do {
             c \<leftarrow> send_callback False b (conn_poller_clear c ePollerClosed);
             Some (-1, c) }
           else
             let nRemaining = (if iWritten \<ge> 0 then iLength - iWritten else 0) in
             if nRemaining > 0
             then Some (iWritten, conn_poller_setOpt
               (c\<lparr>ec_iWritePending := ec_iWritePending c + 1, ec_nWritten := of_int iWritten,
                  ec_nWritePendingBytes := ec_nWritePendingBytes c + of_int iLength,
                  ec_queueWritePending := ec_queueWritePending c @ [b]\<rparr>) ePollerWritable)
             else do { c \<leftarrow> send_callback True b c; Some (iWritten, c) }
      else
        let iWritten = eb_iLength b in
        Some (iWritten,
          c\<lparr>ec_iWritePending := ec_iWritePending c + 1,
            ec_nWritePendingBytes := ec_nWritePendingBytes c + of_int iWritten,
            ec_queueWritePending := ec_queueWritePending c @ [b]\<rparr>))"

definition eventAsyncSend_sendInLoop :: "sysret \<Rightarrow> eventBuf \<Rightarrow> eventConnection \<Rightarrow> eventConnection option" where
  "eventAsyncSend_sendInLoop r b c = do {
     c \<leftarrow> (if ec_iStatus c = eConnected
          then do {
            (iWritten, c) \<leftarrow> sendData r b c;
            Some (if iWritten = -1 then disconnect_callback c else c) }
          else send_callback False b c);
     Some (eventConnection_release c) }"

definition eventAsyncSend_sendCancel :: "eventBuf \<Rightarrow> eventConnection \<Rightarrow> eventConnection option" where
  "eventAsyncSend_sendCancel b c = do {
     c \<leftarrow> send_callback False b c;
     Some (eventConnection_release c) }"

text \<open>\<open>inLoop\<close> says that the caller is on the thread of the loop; another caller's buffer is queued in the loop.\<close>

definition eventConnection_send ::
  "bool \<Rightarrow> sysret \<Rightarrow> eventBuf \<Rightarrow> eventConnection \<Rightarrow> (int \<times> eventConnection) option" where
  "eventConnection_send inLoop r b c =
     (if ec_iStatus c \<noteq> eConnected then Some (-1, c)
      else if inLoop then sendData r b c
      else Some (0, (eventConnection_addref c)\<lparr>ec_async := ec_async c @ [AsyncSend (b\<lparr>eb_pEventConnection := True\<rparr>)]\<rparr>))"

section \<open>Receiving\<close>

definition g_nRecvBufferMaxLength :: nat where "g_nRecvBufferMaxLength = 65536"

text \<open>\<open>recv\<close> and \<open>readv\<close>: bytes that fit the space given, none at the end of the stream, or a failure.\<close>

datatype recvret = Received bytes | RecvFailed int

text \<open>The space that is offered: at most two parts of the byte queue, as offset and length, and the shared receive
  buffer behind them, if at all.\<close>

definition recv_regions :: "byteQueue \<Rightarrow> (nat \<times> nat) list \<times> bool" where
  "recv_regions q =
     (let nBytesWritable = byteQueue_getBytesWritable q in
      if nBytesWritable = 0 then ([], True)
      else let (pContiguous, nContiguousLength) = byteQueue_peekContiguousBytesWrite q in
        if nContiguousLength = nBytesWritable
        then ([(pContiguous, nContiguousLength)], nContiguousLength < g_nRecvBufferMaxLength)
        else ([(pContiguous, nContiguousLength), (0, nBytesWritable - nContiguousLength)],
              nBytesWritable < g_nRecvBufferMaxLength))"

definition recv_space :: "byteQueue \<Rightarrow> nat" where
  "recv_space q = (let (rs, b) = recv_regions q in sum_list (map snd rs) + (if b then g_nRecvBufferMaxLength else 0))"

text \<open>The kernel fills the regions in order; what is left is in the receive buffer.\<close>

fun scatter :: "(nat \<times> nat) list \<Rightarrow> bytes \<Rightarrow> block \<Rightarrow> (block \<times> bytes) option" where
  "scatter [] xs b = Some (b, xs)"
| "scatter ((off, n) # rs) xs b = do {
     b \<leftarrow> mem_store b off (map Some (take n xs));
     scatter rs (drop n xs) b }"

text \<open>The callback is given the queue; what it does to it and returns, and the events it posts to a service, is the
  parameter \<open>fnReceive\<close>.  The queue is
  shrunk when it was less than half full.\<close>

type_synonym receiver = "byteQueue \<Rightarrow> (bool \<times> serviceEvent list \<times> byteQueue) option"

definition receive_callback :: "receiver \<Rightarrow> eventConnection \<Rightarrow> (bool \<times> eventConnection) option" where
  "receive_callback fnReceive c =
     (if ec_fnReceiveCallback c then
        let nBytesReadable = byteQueue_getBytesReadable (ec_readByteQueue c) in do {
          (ok, evs, q) \<leftarrow> fnReceive (ec_readByteQueue c);
          let c = c\<lparr>ec_out := ec_out c @ map Posted evs\<rparr>;
          if ok then
            if nBytesReadable * 2 < byteQueue_getCapacity q then do {
              q \<leftarrow> byteQueue_reserve q
                (max (if ec_bTcp c then 256 else MAXIMUM_MTU_SIZE) (byteQueue_getCapacity q div 2));
              Some (True, c\<lparr>ec_readByteQueue := q\<rparr>) }
            else Some (True, c\<lparr>ec_readByteQueue := q\<rparr>)
          else Some (False, c\<lparr>ec_readByteQueue := q\<rparr>) }
      else Some (False, c))"

definition handleRecv :: "receiver \<Rightarrow> recvret \<Rightarrow> eventConnection \<Rightarrow> (bool \<times> eventConnection) option" where
  "handleRecv fnReceive r c =
     (case r of
        RecvFailed iError \<Rightarrow> Some (TEST_ERR_RW_RETRIABLE iError, c)
      | Received xs \<Rightarrow>
          (if xs = [] then Some (False, c)
           else
             let q = ec_readByteQueue c; nBytesWritable = byteQueue_getBytesWritable q in do {
               guard (length xs \<le> recv_space q);
               (b, rest) \<leftarrow> scatter (fst (recv_regions q)) xs (bq_pBuffer q);
               let q = q\<lparr>bq_pBuffer := b\<rparr>;
               q \<leftarrow> (if length xs \<le> nBytesWritable then byteQueue_writeOffset q (length xs)
                    else do {
                      q \<leftarrow> (if nBytesWritable \<noteq> 0 then byteQueue_writeOffset q nBytesWritable else Some q);
                      byteQueue_writeBytes q rest });
               receive_callback fnReceive (c\<lparr>ec_readByteQueue := q\<rparr>) }))"

section \<open>Closing\<close>

text \<open>What \<open>handleClose\<close> does to the buffers that were not sent; the length of a vector is added to what is there.\<close>

fun close_pending :: "eventBuf list \<Rightarrow> u64 \<Rightarrow> eventConnection \<Rightarrow> eventConnection option" where
  "close_pending [] nWriteLength c = Some c"
| "close_pending (b # bs) nWriteLength c =
     (let nWriteLength = add_length b nWriteLength in do {
        c \<leftarrow> send_callback False b
          (c\<lparr>ec_queueWritePending := bs, ec_iWritePending := ec_iWritePending c - 1,
             ec_nWritePendingBytes := ec_nWritePendingBytes c - nWriteLength\<rparr>);
        close_pending bs nWriteLength (c\<lparr>ec_nWritten := 0\<rparr>) })"

definition handleClose :: "eventConnection \<Rightarrow> eventConnection option" where
  "handleClose c =
     (if ec_hSocket c \<noteq> -1 then
        let c = conn_poller_clear (c\<lparr>ec_iStatus := eDisconnected\<rparr>) ePollerClosed;
            c = (emit CloseSocket c)\<lparr>ec_hSocket := -1\<rparr>
        in do {
          c \<leftarrow> close_pending (ec_queueWritePending c) 0 c;
          let c = (if ec_fnCloseCallback c then (emit CloseCallback c)\<lparr>ec_fnCloseCallback := False\<rparr> else c);
          Some (eventConnection_release (c\<lparr>ec_iConnections := ec_iConnections c - 1\<rparr>)) }
      else Some c)"

section \<open>Events of the poller\<close>

text \<open>What the system calls made by the handler return: for the buffers to write, for the bytes to read, and whether
  \<open>getsockopt\<close> reports that the connection attempt succeeded.\<close>

record conn_env =
  env_send :: sysret
  env_recv :: recvret
  env_connected :: bool
  env_fnReceive :: receiver

definition close_socket :: "eventConnection \<Rightarrow> eventConnection" where
  "close_socket c =
     (emit CloseSocket (conn_poller_clear (c\<lparr>ec_iStatus := eDisconnected\<rparr>) ePollerClosed))
       \<lparr>ec_hSocket := -1, ec_iConnections := ec_iConnections c - 1\<rparr>"

definition connector_callback :: "eventConnection \<Rightarrow> eventConnection" where
  "connector_callback c = (if ec_fnConnectorCallback c then emit ConnectorCallback c else c)"

definition handleEvent :: "conn_env \<Rightarrow> u32 \<Rightarrow> eventConnection \<Rightarrow> eventConnection option" where
  "handleEvent env iAttribute c =
     (case ec_iStatus c of
        eConnected \<Rightarrow>
          if has iAttribute ePollerClosed
          then Some (disconnect_callback (conn_poller_clear c ePollerReadable))
          else do {
            c \<leftarrow> (if has iAttribute ePollerWritable then sendCompleteCallback (env_send env) c else Some c);
            if has iAttribute ePollerReadable then do {
              (ok, c) \<leftarrow> handleRecv (env_fnReceive env) (env_recv env) c;
              Some (if \<not> ok then disconnect_callback (conn_poller_clear c ePollerReadable) else c) }
            else Some c }
      | eConnecting \<Rightarrow>
          let c =
            (if has iAttribute ePollerClosed then connector_callback (close_socket c)
             else if has iAttribute ePollerWritable
             then connector_callback
               (if \<not> env_connected env then close_socket c else conn_poller_clear c ePollerWritable)
             else c)
          in Some (eventConnection_release c)
      | eDisconnecting \<Rightarrow>
          if has iAttribute ePollerClosed then handleClose c
          else if has iAttribute ePollerReadable then do {
            (ok, c) \<leftarrow> handleRecv (env_fnReceive env) (env_recv env) c;
            if \<not> ok then handleClose c else Some c }
          else Some c
      | eDisconnected \<Rightarrow> Some c)"

section \<open>Binding, connecting, closing\<close>

text \<open>\<open>eventIOLoop_runInLoop\<close>: on the thread of the loop the function runs at once (or is cancelled, when the loop has
  stopped), otherwise it is queued.\<close>

datatype where_run = RunNow | CancelNow | RunLater

definition inLoop_eventConnection_cancel :: "eventConnection \<Rightarrow> eventConnection" where
  "inLoop_eventConnection_cancel c = eventConnection_release c"

definition inLoop_eventConnection_bind :: "eventConnection \<Rightarrow> eventConnection" where
  "inLoop_eventConnection_bind c =
     (let c = (if pollHandle_isClosed (ec_pollHandle c) then conn_poller_add c ePollerReadable
               else conn_poller_setOpt c ePollerReadable)
      in c\<lparr>ec_iStatus := eConnected\<rparr>)"

text \<open>The outcome of the calls of \<open>inLoop_eventConnection_connect\<close>: the first that fails, or the socket.\<close>

datatype connect_result = SocketFails | BindFails | ConnectFails int | GetsocknameFails | ConnectStarts

definition EINPROGRESS :: int where "EINPROGRESS = 115"

definition TEST_ERR_CONNECT_RETRIABLE :: "int \<Rightarrow> bool" where
  "TEST_ERR_CONNECT_RETRIABLE e \<longleftrightarrow> e = EINTR \<or> e = EINPROGRESS"

definition connect_fails :: "eventConnection \<Rightarrow> eventConnection" where
  "connect_fails c =
     (let c = connector_callback c in
      eventConnection_release (c\<lparr>ec_iConnections := ec_iConnections c - 1\<rparr>))"

definition connect_abandons :: "int \<Rightarrow> eventConnection \<Rightarrow> eventConnection" where
  "connect_abandons hSocket c = connect_fails ((emit CloseSocket (c\<lparr>ec_hSocket := hSocket, ec_iStatus := eDisconnected\<rparr>))\<lparr>ec_hSocket := -1\<rparr>)"

definition inLoop_eventConnection_connect :: "connect_result \<Rightarrow> int \<Rightarrow> eventConnection \<Rightarrow> eventConnection" where
  "inLoop_eventConnection_connect r hSocket c =
     (case r of
        SocketFails \<Rightarrow> connect_fails (c\<lparr>ec_hSocket := -1, ec_iStatus := eDisconnected\<rparr>)
      | BindFails \<Rightarrow> connect_abandons hSocket c
      | ConnectFails e \<Rightarrow>
          if ec_bTcp c \<and> TEST_ERR_CONNECT_RETRIABLE e
          then conn_poller_add (c\<lparr>ec_hSocket := hSocket\<rparr>) ePollerWritable
          else connect_abandons hSocket c
      | GetsocknameFails \<Rightarrow> connect_abandons hSocket c
      | ConnectStarts \<Rightarrow>
          if ec_bTcp c then conn_poller_add (c\<lparr>ec_hSocket := hSocket\<rparr>) ePollerWritable
          else eventConnection_release (connector_callback (c\<lparr>ec_hSocket := hSocket\<rparr>)))"

definition inLoop_eventConnection_forceClose :: "eventConnection \<Rightarrow> eventConnection option" where
  "inLoop_eventConnection_forceClose c = do {
     c \<leftarrow> handleClose c;
     Some (eventConnection_release c) }"

text \<open>\<open>shutdown_ok\<close>: the result of \<open>shutdown\<close>.\<close>

definition inLoop_eventConnection_close :: "bool \<Rightarrow> eventConnection \<Rightarrow> eventConnection option" where
  "inLoop_eventConnection_close shutdown_ok c = do {
     c \<leftarrow> (if ec_bTcp c then
            if pollHandle_isReading (ec_pollHandle c) then
              if \<not> shutdown_ok then handleClose (emit ShutdownWrite c) else Some (emit ShutdownWrite c)
            else handleClose c
          else handleClose c);
     Some (eventConnection_release c) }"

definition inLoop_eventConnection_resetRecv :: "eventConnection \<Rightarrow> eventConnection" where
  "inLoop_eventConnection_resetRecv c =
     (if ec_iStatus c = eConnected \<and> \<not> pollHandle_isClosed (ec_pollHandle c)
      then conn_poller_setOpt c ePollerReadable
      else eventConnection_release c)"

text \<open>The user data of the caller replaces the old, which is freed.  No connection is bound or connected without it.\<close>

definition set_userData :: "bool \<Rightarrow> bool \<Rightarrow> eventConnection \<Rightarrow> eventConnection" where
  "set_userData pUserData fnUserFree c =
     (if pUserData then
        (if ec_fnUserFree c \<and> ec_pUserData c then emit UserFree c else c)
          \<lparr>ec_pUserData := True, ec_fnUserFree := fnUserFree\<rparr>
      else c)"

definition eventConnection_bind ::
  "where_run \<Rightarrow> bool \<Rightarrow> bool \<Rightarrow> bool \<Rightarrow> bool \<Rightarrow> eventConnection \<Rightarrow> bool \<times> eventConnection" where
  "eventConnection_bind w bKeepAlive bTcpNoDelay pUserData fnUserFree c =
     (if ec_iStatus c = eConnecting then
        let c = set_userData pUserData fnUserFree (c\<lparr>ec_iStatus := eConnected\<rparr>);
            c = eventConnection_addref (c\<lparr>ec_bKeepAlive := bKeepAlive, ec_bTcpNoDelay := bTcpNoDelay\<rparr>)
        in (True, case w of
              RunNow \<Rightarrow> inLoop_eventConnection_bind c
            | CancelNow \<Rightarrow> inLoop_eventConnection_cancel c
            | RunLater \<Rightarrow> c\<lparr>ec_async := ec_async c @ [AsyncBind]\<rparr>)
      else (False, c))"

definition eventConnection_connect ::
  "where_run \<Rightarrow> connect_result \<Rightarrow> int \<Rightarrow> bool \<Rightarrow> bool \<Rightarrow> eventConnection \<Rightarrow> bool \<times> eventConnection" where
  "eventConnection_connect w r hSocket pUserData fnUserFree c =
     (if ec_iStatus c = eDisconnected then
        let c = eventConnection_addref (set_userData pUserData fnUserFree (c\<lparr>ec_iStatus := eConnecting\<rparr>))
        in (True, case w of
              RunNow \<Rightarrow> inLoop_eventConnection_connect r hSocket c
            | CancelNow \<Rightarrow> inLoop_eventConnection_cancel c
            | RunLater \<Rightarrow> c\<lparr>ec_async := ec_async c @ [AsyncConnect]\<rparr>)
      else (False, c))"

definition eventConnection_close :: "eventConnection \<Rightarrow> eventConnection" where
  "eventConnection_close c =
     (if ec_iStatus c = eConnected
      then eventConnection_addref (c\<lparr>ec_iStatus := eDisconnecting, ec_async := ec_async c @ [AsyncClose]\<rparr>)
      else c)"

definition eventConnection_forceClose :: "eventConnection \<Rightarrow> eventConnection" where
  "eventConnection_forceClose c =
     (if ec_iStatus c \<noteq> eDisconnected
      then eventConnection_addref (c\<lparr>ec_iStatus := eDisconnected, ec_async := ec_async c @ [AsyncForceClose]\<rparr>)
      else c)"

definition eventConnection_setReceiveCallback :: "bool \<Rightarrow> eventConnection \<Rightarrow> eventConnection" where
  "eventConnection_setReceiveCallback fn c = c\<lparr>ec_fnReceiveCallback := fn\<rparr>"

definition eventConnection_setConnectorCallback :: "bool \<Rightarrow> eventConnection \<Rightarrow> eventConnection" where
  "eventConnection_setConnectorCallback fn c = c\<lparr>ec_fnConnectorCallback := fn\<rparr>"

definition eventConnection_setDisconnectCallback :: "bool \<Rightarrow> eventConnection \<Rightarrow> eventConnection" where
  "eventConnection_setDisconnectCallback fn c = c\<lparr>ec_hDisconnectCallback := fn\<rparr>"

definition eventConnection_setCloseCallback :: "bool \<Rightarrow> eventConnection \<Rightarrow> eventConnection" where
  "eventConnection_setCloseCallback fn c = c\<lparr>ec_fnCloseCallback := fn\<rparr>"

definition eventConnection_isConnecting :: "eventConnection \<Rightarrow> bool" where
  "eventConnection_isConnecting c \<longleftrightarrow> ec_iStatus c = eConnecting"

definition eventConnection_isConnected :: "eventConnection \<Rightarrow> bool" where
  "eventConnection_isConnected c \<longleftrightarrow> ec_iStatus c = eConnected"

definition eventConnection_getWritePending :: "eventConnection \<Rightarrow> int" where
  "eventConnection_getWritePending c = ec_iWritePending c"

definition eventConnection_getWritePendingBytes :: "eventConnection \<Rightarrow> u64" where
  "eventConnection_getWritePendingBytes c = ec_nWritePendingBytes c"

definition eventConnection_getReceiveBufLength :: "eventConnection \<Rightarrow> nat" where
  "eventConnection_getReceiveBufLength c = byteQueue_getCapacity (ec_readByteQueue c)"

text \<open>The loop takes the first queued function: it runs, or is cancelled when the loop has stopped.\<close>

record async_env =
  ae_run :: bool
  ae_send :: sysret
  ae_connect :: connect_result
  ae_hSocket :: int
  ae_shutdown :: bool

definition run_async :: "async_env \<Rightarrow> eventConnection \<Rightarrow> eventConnection option" where
  "run_async env c =
     (case ec_async c of
        [] \<Rightarrow> Some c
      | a # as \<Rightarrow>
          let c = c\<lparr>ec_async := as\<rparr> in
          (case a of
             AsyncBind \<Rightarrow> Some (if ae_run env then inLoop_eventConnection_bind c else inLoop_eventConnection_cancel c)
           | AsyncConnect \<Rightarrow>
               Some (if ae_run env then inLoop_eventConnection_connect (ae_connect env) (ae_hSocket env) c
                     else inLoop_eventConnection_cancel c)
           | AsyncClose \<Rightarrow>
               if ae_run env then inLoop_eventConnection_close (ae_shutdown env) c
               else inLoop_eventConnection_forceClose c
           | AsyncForceClose \<Rightarrow> inLoop_eventConnection_forceClose c
           | AsyncSend b \<Rightarrow>
               if ae_run env then eventAsyncSend_sendInLoop (ae_send env) b c else eventAsyncSend_sendCancel b c))"

end
