(* ===== verification/ConnectionSend.thy ===== *)
theory ConnectionSend
  imports Connection "HOL-Library.Multiset"
begin

text \<open>
  Sending on a connection: well-formed buffers, the vector of a write, and two invariants of sequences of sends,
  write events and closes.  \<open>streaming\<close> says that the bytes on the wire are the buffers in order, up to
  where the kernel stopped; \<open>sending\<close> that every buffer is called back or waits.
\<close>

section \<open>Well-formed buffers\<close>

text \<open>What the two constructors make, short of the pointer to the connection.\<close>

definition payload :: "eventBuf \<Rightarrow> bytes" where
  "payload b = (if eb_isVec b then concat (eb_vec b) else eb_bytes b)"

definition eb_wf :: "eventBuf \<Rightarrow> bool" where
  "eb_wf b \<longleftrightarrow> payload b \<noteq> [] \<and> length (payload b) < 2 ^ 31 \<and> (\<not> eb_isVec b \<longrightarrow> eb_count b = length (eb_bytes b))
     \<and> (eb_fnCallback b \<longrightarrow> eb_pEventConnection b)"

text \<open>A length below \<open>2 ^ 31\<close> in 32 bits, without and with the flag of a vector.\<close>

lemma length_word:
  assumes "0 \<le> n" "n < 2 ^ 31"
  shows "(word_of_int n :: u32) AND 0x80000000 = 0" "unat ((word_of_int n :: u32) AND 0x7fffffff) = nat n"
    "(word_of_int n OR (0x80000000 :: u32)) AND 0x80000000 = 0x80000000"
    "unat ((word_of_int n OR (0x80000000 :: u32)) AND 0x7fffffff) = nat n"
proof -
  define x :: u32 where "x = word_of_int n"
  have m: "(0x80000000 :: u32) = push_bit 31 1" "(0x7fffffff :: u32) = mask 31" by (simp_all add: mask_eq_exp_minus_1)
  have "take_bit 31 n = n" using assms by (simp add: take_bit_int_eq_self)
  then have x: "take_bit 31 x = x" by (simp add: x_def take_bit_word_beyond_length_eq flip: of_int_take_bit) 
  then have b: "bit x k \<Longrightarrow> k < 31" for k by (metis bit_take_bit_iff)
  have ux: "unat x = nat n"
    using assms by (simp add: x_def unat_eq_nat_uint unsigned_of_int take_bit_int_eq_self)
  show "x AND 0x80000000 = 0" unfolding m by (rule bit_eqI, simp only: bit_and_iff bit_or_iff bit_push_bit_iff bit_mask_iff bit_1_iff possible_bit_word) (auto dest: b)
  show "unat (x AND 0x7fffffff) = nat n" by (simp add: m x ux flip: take_bit_eq_mask)
  show "(x OR 0x80000000) AND 0x80000000 = 0x80000000" unfolding m by (rule bit_eqI, simp only: bit_and_iff bit_or_iff bit_push_bit_iff bit_mask_iff bit_1_iff possible_bit_word) (auto dest: b)
  have "(x OR 0x80000000) AND 0x7fffffff = x AND 0x7fffffff"
    unfolding m by (rule bit_eqI, simp only: bit_and_iff bit_or_iff bit_push_bit_iff bit_mask_iff bit_1_iff possible_bit_word) (auto dest: b)
  with \<open>unat (x AND 0x7fffffff) = nat n\<close> show "unat ((x OR 0x80000000) AND 0x7fffffff) = nat n" by simp
qed

lemma payload_upd [simp]: "payload (b\<lparr>eb_pEventConnection := p\<rparr>) = payload b"
  "eb_isVec (b\<lparr>eb_pEventConnection := p\<rparr>) = eb_isVec b" "eb_count (b\<lparr>eb_pEventConnection := p\<rparr>) = eb_count b"
  "eb_vec (b\<lparr>eb_pEventConnection := p\<rparr>) = eb_vec b" "eb_bytes (b\<lparr>eb_pEventConnection := p\<rparr>) = eb_bytes b"
  by (simp_all add: payload_def eb_isVec_def eb_count_def eb_vec_def eb_bytes_def split: evStorage.split)

lemma createEventBuf_wf:
  assumes "createEventBuf xs n fn user = Some b" "n < 2 ^ 31"
  shows "\<not> eb_isVec b" "payload b = take (nat n) xs" "eb_wf (b\<lparr>eb_pEventConnection := True\<rparr>)"
proof -
  from assms have n: "0 < n" "nat n \<le> length xs" by (auto simp: createEventBuf_def bind_eq_Some_conv)
  then have b: "b = \<lparr>eb_fnCallback = fn, eb_pEventConnection = False, eb_uiLength = word_of_int n,
           eb_uiWriteUser = user, eb_szStorage = EvBytes (take (nat n) xs)\<rparr>"
    using assms by (auto simp: createEventBuf_def)
  note w = length_word [of n]
  from n assms(2) w show v: "\<not> eb_isVec b" by (simp add: b eb_isVec_def)
  with n assms(2) w show "payload b = take (nat n) xs" by (simp add: b payload_def eb_bytes_def eb_count_def)
  moreover have "xs \<noteq> []" "nat n < 2 ^ 31" using n assms(2) by auto
  ultimately show "eb_wf (b\<lparr>eb_pEventConnection := True\<rparr>)"
    using v n w assms(2) by (simp add: eb_wf_def) (simp add: b eb_bytes_def eb_count_def)
qed

lemma createEventBuf_move_wf:
  assumes "createEventBuf_move bs n fn user = Some (b, bs')" "n < 2 ^ 31"
  shows "eb_isVec b" "payload b = concat (take (nat n) bs)"
    "concat (take (nat n) bs) \<noteq> [] \<Longrightarrow> length (concat (take (nat n) bs)) < 2 ^ 31 \<Longrightarrow>
     eb_wf (b\<lparr>eb_pEventConnection := True\<rparr>)"
proof -
  from assms have n: "0 < n" "nat n \<le> length bs" by (auto simp: createEventBuf_move_def bind_eq_Some_conv)
  then have b: "b = \<lparr>eb_fnCallback = fn, eb_pEventConnection = False, eb_uiLength = word_of_int n OR 0x80000000,
           eb_uiWriteUser = user, eb_szStorage = EvVec (take (nat n) bs)\<rparr>"
    using assms by (auto simp: createEventBuf_move_def)
  note w = length_word [of n]
  from n assms(2) w show v: "eb_isVec b" by (simp add: b eb_isVec_def)
  with n assms(2) w show p: "payload b = concat (take (nat n) bs)" by (simp add: b payload_def eb_vec_def eb_count_def)
  show "eb_wf (b\<lparr>eb_pEventConnection := True\<rparr>)"
    if "concat (take (nat n) bs) \<noteq> []" "length (concat (take (nat n) bs)) < 2 ^ 31"
    using v p that by (simp add: eb_wf_def)
qed

section \<open>The vector of a write\<close>

lemma vec_length_payload: "eb_isVec b \<Longrightarrow> vec_length (eb_vec b) = of_nat (length (payload b))"
  by (simp add: vec_length_def payload_def length_concat)

lemma unat_of_nat_small: "n < 2 ^ 63 \<Longrightarrow> unat (of_nat n :: u64) = n"
  by (simp add: unat_of_nat take_bit_nat_eq_self)

lemma add_length_wf:
  assumes "eb_wf b" "n < 2 ^ 32"
  shows "unat (add_length b (of_nat n)) = (if eb_isVec b then n else 0) + length (payload b)"
proof (cases "eb_isVec b")
  case True
  then have "add_length b (of_nat n) = of_nat (n + length (payload b))"
    by (simp add: add_length_def vec_length_payload)
  with assms True show ?thesis by (simp add: unat_of_nat_small eb_wf_def del: of_nat_add)
next
  case False
  with assms show ?thesis by (simp add: add_length_def payload_def eb_wf_def unat_of_nat_small)
qed

lemma add_length_0: "eb_wf b \<Longrightarrow> add_length b 0 = of_nat (length (payload b))"
  by (simp add: add_length_def vec_length_payload) (simp add: payload_def eb_wf_def)

lemma skip_concat: "0 \<le> n \<Longrightarrow> concat (skip_iov n xs) = drop (nat n) (concat xs)"
proof (induction n xs rule: skip_iov.induct)
  case (2 n x xs)
  then show ?case by (auto simp: nat_diff_distrib)
qed simp

lemma gather_vec_prefix:
  "i \<le> 32 \<Longrightarrow> gather_vec xs i i w iov =
     (i + min (length xs) (32 - i), w + vec_length (take (32 - i) xs), iov @ take (32 - i) xs)"
proof (induction xs arbitrary: i w iov)
  case (Cons x xs)
  show ?case
  proof (cases "i = 32")
    case False
    with Cons have "i < 32" "Suc i \<le> 32" by auto
    then have "32 - i = Suc (32 - Suc i)" "int i < 64 - int i" by auto
    with Cons.IH [of "Suc i"] \<open>Suc i \<le> 32\<close> show ?thesis by (simp add: vec_length_def)
  qed (simp add: vec_length_def)
qed (simp add: vec_length_def)

text \<open>A buffer that fills a write by itself, so that the loop looks at it only once.\<close>

definition gathers_once :: "eventBuf \<Rightarrow> bool" where
  "gathers_once b \<longleftrightarrow> 8192 \<le> length (if eb_isVec b then concat (take 32 (eb_vec b)) else eb_bytes b)"

lemma gather_first:
  "gather_iov 64 b 0 0 [] =
     (let (n, w, iov) = (if eb_isVec b then gather_vec (eb_vec b) 0 0 0 []
        else (1, of_nat (eb_count b), [eb_bytes b]))
      in if n = 64 \<or> 8192 \<le> w then Some iov else gather_iov 63 b n w iov)"
  using gather_iov.simps(2) [of 63 b 0 0 "[]"] by simp

lemma gathers_once_iov:
  assumes "eb_wf b" "gathers_once b"
  obtains iov where "gather_iov 64 b 0 0 [] = Some iov" "concat iov \<noteq> []"
    "\<exists>zs. payload b = concat iov @ zs"
proof (cases "eb_isVec b")
  case False
  with assms have "(8192 :: u64) \<le> of_nat (eb_count b)"
    by (simp add: word_le_nat_alt unat_of_nat_small eb_wf_def gathers_once_def payload_def)
  moreover have "eb_bytes b \<noteq> []" using assms False by (auto simp: gathers_once_def)
  ultimately show ?thesis
    using False assms that [of "[eb_bytes b]"] by (simp add: gather_first payload_def)
next
  case True
  have p: "payload b = concat (take 32 (eb_vec b)) @ concat (drop 32 (eb_vec b))"
    using True by (simp add: payload_def flip: concat_append)
  have l: "length (concat (take 32 (eb_vec b))) < 2 ^ 31" using assms p by (simp add: eb_wf_def)
  then have "unat (vec_length (take 32 (eb_vec b))) = length (concat (take 32 (eb_vec b)))"
    by (simp add: vec_length_def length_concat unat_of_nat_small)
  then have "8192 \<le> vec_length (take 32 (eb_vec b))"
    using assms True by (simp add: word_le_nat_alt gathers_once_def)
  moreover have "concat (take 32 (eb_vec b)) \<noteq> []"
  proof
    assume "concat (take 32 (eb_vec b)) = []"
    with assms True show False by (simp add: gathers_once_def del: concat_eq_Nil_conv)
  qed
  ultimately show ?thesis
    using True p that [of "take 32 (eb_vec b)"] gather_vec_prefix [of 0 "eb_vec b" 0 "[]"]
    by (simp add: gather_first del: concat_eq_Nil_conv)
qed


section \<open>The stream of a connection\<close>

definition wired :: "conn_out list \<Rightarrow> bytes" where
  "wired os = concat (List.map_filter (\<lambda>x. case x of Wire bs \<Rightarrow> Some bs | _ \<Rightarrow> None) os)"

definition completions :: "conn_out list \<Rightarrow> (bool \<times> u64) list" where
  "completions os = List.map_filter (\<lambda>x. case x of SendComplete ok u \<Rightarrow> Some (ok, u) | _ \<Rightarrow> None) os"

lemma wired_simps [simp]: "wired [] = []" "wired (os @ os') = wired os @ wired os'" "wired [Wire bs] = bs"
    "wired [SendComplete ok u] = []" "wired [DisconnectCallback] = []" "wired [CloseCallback] = []" "wired [CloseSocket] = []"
  by (simp_all add: wired_def List.map_filter_def)

lemma completions_simps [simp]: "completions [] = []" "completions (os @ os') = completions os @ completions os'"
    "completions [Wire bs] = []" "completions [SendComplete ok u] = [(ok, u)]" "completions [DisconnectCallback] = []" 
    "completions [CloseCallback] = []" "completions [CloseSocket] = []"
  by (simp_all add: completions_def List.map_filter_def)

definition called :: "bool \<Rightarrow> eventBuf list \<Rightarrow> (bool \<times> u64) list" where
  "called ok bs = map (\<lambda>b. (ok, eb_uiWriteUser b)) (filter eb_fnCallback bs)"

lemma called_simps [simp]: "called ok [] = []" "called ok (bs @ bs') = called ok bs @ called ok bs'"
    "called ok (b # bs) = (if eb_fnCallback b then [(ok, eb_uiWriteUser b)] else []) @ called ok bs"
  by (simp_all add: called_def)

definition payloads :: "eventBuf list \<Rightarrow> bytes" where
  "payloads bs = concat (map payload bs)"

lemma payloads_simps [simp]: "payloads [] = []" "payloads (b # bs) = payload b @ payloads bs"
    "payloads (bs @ bs') = payloads bs @ payloads bs'"
  by (simp_all add: payloads_def)

text \<open>The buffers \<open>done\<close> have been sent and the first \<open>k\<close> bytes of the first of \<open>pend\<close>.\<close>

definition streaming :: "eventConnection \<Rightarrow> eventBuf list \<Rightarrow> eventBuf list \<Rightarrow> nat \<Rightarrow> bool" where
  "streaming c done pend k \<longleftrightarrow>
     ec_queueWritePending c = pend \<and> ec_nWritten c = of_nat k \<and> ec_iWritePending c = int (length pend) \<and>
     ec_nWritePendingBytes c = of_nat (length (payloads pend)) \<and>
     k \<le> (case pend of [] \<Rightarrow> 0 | b # _ \<Rightarrow> length (payload b)) \<and>
     wired (ec_out c) = payloads done @ take k (payloads pend) \<and> completions (ec_out c) = called True done \<and>
     (pollHandle_isWriting (ec_pollHandle c) \<longleftrightarrow> pend \<noteq> []) \<and> list_all eb_wf pend \<and>
     list_all gathers_once (tl pend) \<and> (pend \<noteq> [] \<and> k = 0 \<longrightarrow> gathers_once (hd pend))"

lemma send_callback_wf:
  "eb_wf b \<Longrightarrow> send_callback ok b c =
     Some (if eb_fnCallback b then emit (SendComplete ok (eb_uiWriteUser b)) c else c)"
  by (simp add: send_callback_def eb_wf_def)

lemma emit_sel [simp]:
  "ec_queueWritePending (emit x c) = ec_queueWritePending c" "ec_nWritten (emit x c) = ec_nWritten c"
  "ec_iWritePending (emit x c) = ec_iWritePending c" "ec_nWritePendingBytes (emit x c) = ec_nWritePendingBytes c"
  "ec_pollHandle (emit x c) = ec_pollHandle c" "ec_out (emit x c) = ec_out c @ [x]"
  "ec_hDisconnectCallback (emit x c) = ec_hDisconnectCallback c"
  "ec_iStatus (emit x c) = ec_iStatus c" "ec_hSocket (emit x c) = ec_hSocket c"
  by (simp_all add: emit_def)

lemma conn_poller_sel [simp]:
  "ec_queueWritePending (conn_poller_setOpt c a) = ec_queueWritePending c"
  "ec_nWritten (conn_poller_setOpt c a) = ec_nWritten c"
  "ec_iWritePending (conn_poller_setOpt c a) = ec_iWritePending c"
  "ec_nWritePendingBytes (conn_poller_setOpt c a) = ec_nWritePendingBytes c"
  "ec_out (conn_poller_setOpt c a) = ec_out c"
  "ec_queueWritePending (conn_poller_clear c a) = ec_queueWritePending c"
  "ec_nWritten (conn_poller_clear c a) = ec_nWritten c"
  "ec_iWritePending (conn_poller_clear c a) = ec_iWritePending c"
  "ec_nWritePendingBytes (conn_poller_clear c a) = ec_nWritePendingBytes c"
  "ec_out (conn_poller_clear c a) = ec_out c"
  by (simp_all add: conn_poller_setOpt_def conn_poller_clear_def split: prod.splits)

lemma attr_bits': "ePollerClosed AND ePollerWritable = 0" "ePollerWritable AND ePollerClosed = 0"
  by (simp_all add: poller_attr_defs)

lemma setOpt_isWriting [simp]: "pollHandle_isWriting (ec_pollHandle (conn_poller_setOpt c ePollerWritable))"
  by (auto simp: conn_poller_setOpt_def poller_setOpt_def pollHandle_isWriting_def Let_def attr_simps)

lemma clear_isWriting [simp]: "\<not> pollHandle_isWriting (ec_pollHandle (conn_poller_clear c ePollerWritable))"
  by (auto simp: conn_poller_clear_def poller_clear_def pollHandle_isWriting_def Let_def attr_simps attr_bits')

lemma concat_send_iov: "concat (eb_iov b) = payload b"
  by (simp add: payload_def eb_iov_def)

lemma send_length: "eb_wf b \<Longrightarrow> eb_iLength b = int (length (payload b))"
  by (simp add: payload_def eb_iLength_def length_concat) (simp add: eb_wf_def)

lemma sys_writev_sel [simp]:
  "ec_queueWritePending (sys_writev iov r c) = ec_queueWritePending c" "ec_nWritten (sys_writev iov r c) = ec_nWritten c"
  "ec_iWritePending (sys_writev iov r c) = ec_iWritePending c"
  "ec_nWritePendingBytes (sys_writev iov r c) = ec_nWritePendingBytes c"
  "ec_pollHandle (sys_writev iov r c) = ec_pollHandle c"
  by (simp_all add: sys_writev_def Let_def)

lemma sys_writev_wired:
  "fst r = Some n \<Longrightarrow> wired (ec_out (sys_writev iov r c)) = wired (ec_out c) @ take n (concat iov)"
  "completions (ec_out (sys_writev iov r c)) = completions (ec_out c)"
  by (auto simp: sys_writev_def sys_result_def Let_def min_def split: option.splits)

lemma sendData_idle:
  assumes s: "streaming c done [] 0" and b: "eb_wf b" and r: "fst r = Some n" "n = 0 \<longrightarrow> gathers_once b"
  shows "\<exists>c'. sendData r b c = Some (int (min n (length (payload b))), c') \<and>
    (if length (payload b) \<le> n then streaming c' (done @ [b]) [] 0 else streaming c' done [b] n)"
proof -
  let ?iov = "eb_iov b" and ?L = "length (payload b)"
  let ?c = "sys_writev ?iov r c"
  have w: "wired (ec_out ?c) = payloads done @ take n (payload b)" "completions (ec_out ?c) = called True done"
    using s r by (simp_all add: sys_writev_wired concat_send_iov streaming_def)
  have res: "sys_result ?iov r = int (min n ?L)" 
    using r by (simp add: sys_result_def concat_send_iov)
  show ?thesis
  proof (cases "?L \<le> n")
    case True
    have "sendData r b c = Some (int ?L, if eb_fnCallback b then emit (SendComplete True (eb_uiWriteUser b)) ?c else ?c)"
      using s True by (simp add: sendData_def Let_def res send_length [OF b] send_callback_wf [OF b] streaming_def)
    with True w s show ?thesis by (auto simp: streaming_def)
  next
    case False
    then have "sendData r b c = Some (int n, conn_poller_setOpt
        (?c\<lparr>ec_iWritePending := ec_iWritePending ?c + 1, ec_nWritten := of_nat n,
            ec_nWritePendingBytes := ec_nWritePendingBytes ?c + of_nat ?L,
            ec_queueWritePending := ec_queueWritePending ?c @ [b]\<rparr>) ePollerWritable)"
      using s by (simp add: sendData_def Let_def res send_length [OF b] streaming_def)
    with False w s b r show ?thesis by (auto simp: streaming_def)
  qed
qed

lemma sendData_busy:
  assumes s: "streaming c done (p # pend) k" and b: "eb_wf b" "gathers_once b"
  shows "\<exists>c'. sendData r b c = Some (int (length (payload b)), c') \<and> streaming c' done (p # pend @ [b]) k"
proof -
  have "sendData r b c = Some (int (length (payload b)),
      c\<lparr>ec_iWritePending := ec_iWritePending c + 1,
        ec_nWritePendingBytes := ec_nWritePendingBytes c + of_nat (length (payload b)),
        ec_queueWritePending := ec_queueWritePending c @ [b]\<rparr>)"
    using s by (simp add: sendData_def Let_def send_length [OF b(1)] streaming_def)
  with s b show ?thesis by (auto simp: streaming_def)
qed

text \<open>The buffers popped at the next event: the first one, if it is sent.\<close>

lemma pop_sent_streaming:
  assumes s: "streaming c done (p # pend) k"
  shows "if k < length (payload p) then pop_sent (p # pend) 0 c = Some c
    else \<exists>c'. pop_sent (p # pend) 0 c = Some c' \<and> ec_queueWritePending c' = pend \<and> ec_nWritten c' = 0 \<and>
      ec_iWritePending c' = int (length pend) \<and> ec_nWritePendingBytes c' = of_nat (length (payloads pend)) \<and>
      wired (ec_out c') = payloads (done @ [p]) \<and> completions (ec_out c') = called True (done @ [p]) \<and>
      ec_pollHandle c' = ec_pollHandle c"
proof -
  have p: "eb_wf p" "k \<le> length (payload p)" "length (payload p) < 2 ^ 31"
    using s by (auto simp: streaming_def eb_wf_def)
  have nW: "ec_nWritten c = of_nat k" using s by (simp add: streaming_def)
  show ?thesis
  proof (cases "k < length (payload p)")
    case True
    with p nW show ?thesis by (simp add: add_length_0 word_le_nat_alt unat_of_nat_small Let_def)
  next
    case False
    with p have k: "k = length (payload p)" by simp
    let ?L = "length (payload p)"
    let ?c = "c\<lparr>ec_queueWritePending := pend, ec_iWritePending := ec_iWritePending c - 1,
             ec_nWritePendingBytes := ec_nWritePendingBytes c - of_nat ?L, ec_nWritten := 0\<rparr>"
    let ?c' = "if eb_fnCallback p then emit (SendComplete True (eb_uiWriteUser p)) ?c else ?c"
    have stop: "pop_sent pend (of_nat ?L) ?c' = Some ?c'"
    proof (cases pend)
      case (Cons b bs)
      then have b: "eb_wf b" using s by (simp add: streaming_def)
      have "0 < unat (add_length b (of_nat ?L))"
        using add_length_wf [OF b, of ?L] p b by (auto simp: eb_wf_def)
      then have "\<not> add_length b (of_nat ?L) \<le> 0" by (simp add: word_le_nat_alt)
      with Cons show ?thesis by (simp add: Let_def)
    qed simp
    have "pop_sent (p # pend) 0 c = pop_sent pend (of_nat ?L) ?c'"
      using nW k p by (simp add: add_length_0 send_callback_wf Let_def)
    note this [unfolded stop]
    with s False k show ?thesis by (auto simp: streaming_def)
  qed
qed

lemma retry_iov_streaming:
  assumes s: "streaming c done (p # pend) k" and k: "k < length (payload p)"
  obtains iov zs where "retry_iov p (ec_nWritten c) = Some iov" "concat iov \<noteq> []" "drop k (payload p) = concat iov @ zs"
proof (cases "k = 0")
  case True
  with s have p: "eb_wf p" "gathers_once p" "ec_nWritten c = 0" by (auto simp: streaming_def)
  from gathers_once_iov [OF p(1,2)] obtain iov where "gather_iov 64 p 0 0 [] = Some iov" "concat iov \<noteq> []"
    "\<exists>zs. payload p = concat iov @ zs" .
  with p True that show ?thesis by (auto simp: retry_iov_def)
next
  case False
  from s have p: "eb_wf p" "ec_nWritten c = of_nat k" by (auto simp: streaming_def)
  with k have k31: "k < 2 ^ 31" by (simp add: eb_wf_def)
  then have u: "unat (of_nat k :: u64) = k" by (simp add: unat_of_nat_small)
  with False have nz: "(of_nat k :: u64) \<noteq> 0" by auto
  have si: "sint (ucast (of_nat k :: u64) :: 32 word) = int k"
    using k31 by (simp add: unsigned_of_nat take_bit_nat_eq_self signed_of_nat signed_take_bit_int_eq_self)
  show ?thesis
  proof (cases "eb_isVec p")
    case True
    have c: "concat (skip_iov (int k) (eb_vec p)) = drop k (payload p)"
      using True skip_concat [of "int k" "eb_vec p"] by (simp add: payload_def)
    show ?thesis
      by (rule that [of "skip_iov (int k) (eb_vec p)" "[]"])
        (use True p nz si c k in \<open>simp_all add: retry_iov_def del: concat_eq_Nil_conv\<close>)
  next
    case F: False
    show ?thesis
      by (rule that [of "[drop k (eb_bytes p)]" "[]"])
        (use F p nz u k in \<open>simp_all add: retry_iov_def payload_def\<close>)
  qed
qed

lemma sendComplete_retry:
  assumes pop: "pop_sent (ec_queueWritePending c0) 0 c0 = Some c" and s: "streaming c done (p # pend) k"
    and k: "k < length (payload p)"
    and r: "(\<exists>n > 0. fst r = Some n) \<or> fst r = None \<and> TEST_ERR_RW_RETRIABLE (snd r)"
  shows "\<exists>c' k'. sendCompleteCallback r c0 = Some c' \<and> streaming c' done (p # pend) k'"
proof -
  from retry_iov_streaming [OF s k] obtain iov zs where
    iov: "retry_iov p (ec_nWritten c) = Some iov" "concat iov \<noteq> []" "drop k (payload p) = concat iov @ zs" .
  have q: "ec_queueWritePending c = p # pend" "ec_iWritePending c = int (Suc (length pend))" "ec_nWritten c = of_nat k"
    using s by (auto simp: streaming_def)
  from r show ?thesis
  proof
    assume "\<exists>n > 0. fst r = Some n"
    then obtain n where n: "fst r = Some n" "0 < n" by blast
    define m where "m = min n (length (concat iov))"
    have "length (payload p) - k = length (concat iov) + length zs"
      using arg_cong [OF iov(3), of length] by simp
    then have m: "0 < m" "m \<le> length (payload p) - k" "sys_result iov r = int m"
      using n iov(2) by (auto simp: m_def sys_result_def simp del: concat_eq_Nil_conv)
    let ?c = "(sys_writev iov r c)\<lparr>ec_nWritten := of_nat (k + m)\<rparr>"
    have "sendCompleteCallback r c0 = Some ?c"
      using pop iov m q by (simp add: sendCompleteCallback_def Let_def)
    moreover have "take n (concat iov) = take m (drop k (payload p))"
      using iov(3) by (simp add: m_def min_def)
    then have "wired (ec_out ?c) = payloads done @ take (k + m) (payloads (p # pend))"
      using s n k m sys_writev_wired(1) [OF n(1), of iov c] by (simp add: streaming_def take_add)
    then have "streaming ?c done (p # pend) (k + m)"
      using s k m by (simp add: streaming_def sys_writev_wired)
    ultimately show ?thesis by blast
  next
    assume e: "fst r = None \<and> TEST_ERR_RW_RETRIABLE (snd r)"
    then have "sys_result iov r = -1" "sys_writev iov r c = c" by (simp_all add: sys_result_def sys_writev_def)
    with e pop iov q have "sendCompleteCallback r c0 = Some c"
      by (simp add: sendCompleteCallback_def Let_def)
    with s show ?thesis by blast
  qed
qed

lemma sendComplete_streaming:
  assumes s: "streaming c done (p # pend) k"
    and r: "(\<exists>n > 0. fst r = Some n) \<or> fst r = None \<and> TEST_ERR_RW_RETRIABLE (snd r)"
  shows "\<exists>c' done' pend' k'. sendCompleteCallback r c = Some c' \<and> streaming c' done' pend' k' \<and>
    done' @ pend' = done @ p # pend"
proof (cases "k < length (payload p)")
  case True
  with pop_sent_streaming [OF s] s have "pop_sent (ec_queueWritePending c) 0 c = Some c" by (simp add: streaming_def)
  from sendComplete_retry [OF this s True r] show ?thesis by blast
next
  case False
  with pop_sent_streaming [OF s] obtain c1 where
    c1: "pop_sent (p # pend) 0 c = Some c1" "ec_queueWritePending c1 = pend" "ec_nWritten c1 = 0"
      "ec_iWritePending c1 = int (length pend)" "ec_nWritePendingBytes c1 = of_nat (length (payloads pend))"
      "wired (ec_out c1) = payloads (done @ [p])" "completions (ec_out c1) = called True (done @ [p])"
      "ec_pollHandle c1 = ec_pollHandle c" by auto
  have pop: "pop_sent (ec_queueWritePending c) 0 c = Some c1" using c1 s by (simp add: streaming_def)
  show ?thesis
  proof (cases pend)
    case Nil
    with pop c1 have "sendCompleteCallback r c = Some (conn_poller_clear c1 ePollerWritable)"
      by (simp add: sendCompleteCallback_def)
    moreover have "streaming (conn_poller_clear c1 ePollerWritable) (done @ [p]) [] 0"
      using c1 Nil by (simp add: streaming_def)
    ultimately show ?thesis using Nil by force
  next
    case (Cons b bs)
    with s c1 have s1: "streaming c1 (done @ [p]) (b # bs) 0" by (auto simp: streaming_def)
    from s Cons have "0 < length (payload b)" by (auto simp: streaming_def eb_wf_def)
    from sendComplete_retry [OF pop s1 this r] Cons show ?thesis by fastforce
  qed
qed

section \<open>What sending leaves alone\<close>

text \<open>The parts of a connection that its life is about.\<close>

definition closing_out :: "conn_out \<Rightarrow> bool" where
  "closing_out x \<longleftrightarrow> x \<in> {CloseCallback, UserFree, Free}"

lemma closing_out_simps [simp]:
  "\<not> closing_out (Wire bs)" "\<not> closing_out (SendComplete ok u)" "\<not> closing_out DisconnectCallback"
  "\<not> closing_out (Posted e)" "\<not> closing_out CloseSocket" "\<not> closing_out ShutdownWrite" "closing_out CloseCallback"
  "closing_out UserFree" "closing_out Free"
  by (simp_all add: closing_out_def)

definition conn_life where
  "conn_life c = (ec_iStatus c, ec_iRefCount c, ec_hSocket c, ec_async c, ec_fnCloseCallback c, ec_fnUserFree c,
     ec_pUserData c, ec_pListenPort c, ec_iConnections c, ec_bTcp c, filter closing_out (ec_out c))"

lemma conn_life_upd [simp]:
  "conn_life (c\<lparr>ec_queueWritePending := q\<rparr>) = conn_life c" "conn_life (c\<lparr>ec_nWritten := n\<rparr>) = conn_life c"
  "conn_life (c\<lparr>ec_iWritePending := i\<rparr>) = conn_life c" "conn_life (c\<lparr>ec_nWritePendingBytes := m\<rparr>) = conn_life c"
  "conn_life (c\<lparr>ec_hDisconnectCallback := d\<rparr>) = conn_life c" "conn_life (c\<lparr>ec_readByteQueue := rq\<rparr>) = conn_life c"
  "conn_life (c\<lparr>ec_pollHandle := h\<rparr>) = conn_life c" "conn_life (c\<lparr>ec_pPoller := k\<rparr>) = conn_life c"
  "\<not> closing_out x \<Longrightarrow> conn_life (emit x c) = conn_life c"
  by (simp_all add: conn_life_def emit_def)

lemma conn_life_poller [simp]:
  "conn_life (conn_poller_add c a) = conn_life c" "conn_life (conn_poller_clear c a) = conn_life c"
  "conn_life (conn_poller_setOpt c a) = conn_life c"
  by (simp_all add: conn_poller_add_def conn_poller_clear_def conn_poller_setOpt_def split: prod.split)

lemma conn_life_disconnect [simp]: "conn_life (disconnect_callback c) = conn_life c"
  by (simp add: disconnect_callback_def)

lemma conn_life_writev [simp]: "conn_life (sys_writev iov r c) = conn_life c"
  by (simp add: sys_writev_def Let_def)

lemma conn_life_callback: "send_callback ok b c = Some c' \<Longrightarrow> conn_life c' = conn_life c"
  by (auto simp: send_callback_def bind_eq_Some_conv split: if_splits)

lemma conn_life_pop: "pop_sent bs n c = Some c' \<Longrightarrow> conn_life c' = conn_life c"
proof (induction bs n c rule: pop_sent.induct)
  case (2 b bs n c)
  then show ?case by (fastforce simp: Let_def bind_eq_Some_conv dest: conn_life_callback split: if_splits)
qed simp

lemma conn_life_fail: "fail_sent bs c = Some c' \<Longrightarrow> conn_life c' = conn_life c"
  by (induction bs arbitrary: c) (fastforce simp: bind_eq_Some_conv dest: conn_life_callback)+

lemma conn_life_close: "close_pending bs n c = Some c' \<Longrightarrow> conn_life c' = conn_life c"
  by (induction bs arbitrary: n c) (fastforce simp: bind_eq_Some_conv Let_def dest: conn_life_callback)+

lemma conn_life_sendComplete:
  assumes "sendCompleteCallback r c = Some c'"
  shows "conn_life c' = conn_life c"
proof -
  from assms obtain c1 where c1: "pop_sent (ec_queueWritePending c) 0 c = Some c1"
    by (auto simp: sendCompleteCallback_def bind_eq_Some_conv)
  then have l: "conn_life c1 = conn_life c" by (rule conn_life_pop)
  show ?thesis
  proof (cases "ec_iWritePending c1 > 0")
    case True
    with assms c1 obtain iov where "retry_iov (hd (ec_queueWritePending c1)) (ec_nWritten c1) = Some iov"
      by (auto simp: sendCompleteCallback_def bind_eq_Some_conv)
    with assms c1 True l show ?thesis
      by (auto simp: sendCompleteCallback_def bind_eq_Some_conv Let_def dest: conn_life_fail split: if_split_asm)
  next
    case False
    with assms c1 l show ?thesis by (auto simp: sendCompleteCallback_def)
  qed
qed

lemma conn_life_sendData: "sendData r b c = Some (n, c') \<Longrightarrow> conn_life c' = conn_life c"
  by (auto simp: sendData_def Let_def bind_eq_Some_conv dest: conn_life_callback split: if_split_asm)

lemmas conn_life_send = conn_life_callback conn_life_pop conn_life_fail conn_life_close conn_life_sendComplete conn_life_sendData

section \<open>Sequences of sends and write events\<close>

lemma conn_lifeD:
  assumes "conn_life c' = conn_life c"
  shows "ec_iStatus c' = ec_iStatus c" "ec_iRefCount c' = ec_iRefCount c" "ec_hSocket c' = ec_hSocket c"
    "ec_async c' = ec_async c" "ec_fnUserFree c' = ec_fnUserFree c" "ec_fnCloseCallback c' = ec_fnCloseCallback c"
    "filter closing_out (ec_out c') = filter closing_out (ec_out c)"
  using assms by (simp_all add: conn_life_def)

text \<open>A buffer that comes through the queue of the loop, an event that the socket can be written, and the closing.\<close>

datatype write_op = WSend eventBuf sysret | WReady sysret | WClose

definition write_env :: "sysret \<Rightarrow> conn_env" where
  "write_env r = \<lparr>env_send = r, env_recv = RecvFailed EAGAIN, env_connected = True, env_fnReceive = \<lambda>q. None\<rparr>"

fun write_step :: "eventConnection \<Rightarrow> write_op \<Rightarrow> eventConnection option" where
  "write_step c (WSend b r) = eventAsyncSend_sendInLoop r b (eventConnection_addref c)"
| "write_step c (WReady r) = handleEvent (write_env r) ePollerWritable c"
| "write_step c WClose = handleClose c"

fun write_run :: "eventConnection \<Rightarrow> write_op list \<Rightarrow> eventConnection option" where
  "write_run c [] = Some c"
| "write_run c (op # ops) = do { c \<leftarrow> write_step c op; write_run c ops }"

text \<open>A buffer sent while others wait fills a write by itself, the first write of a buffer is not refused, and a write
  event comes only while the socket is polled for it and takes something or asks to be repeated.\<close>

fun write_ok :: "eventConnection \<Rightarrow> write_op \<Rightarrow> bool" where
  "write_ok c (WSend b r) \<longleftrightarrow> eb_wf b \<and>
     (if pollHandle_isWriting (ec_pollHandle c) then gathers_once b
      else (case fst r of None \<Rightarrow> False | Some n \<Rightarrow> 0 < n \<or> gathers_once b))"
| "write_ok c (WReady r) \<longleftrightarrow> pollHandle_isWriting (ec_pollHandle c) \<and>
     (case fst r of None \<Rightarrow> TEST_ERR_RW_RETRIABLE (snd r) | Some n \<Rightarrow> 0 < n)"
| "write_ok c WClose \<longleftrightarrow> False"

fun writes_ok :: "eventConnection \<Rightarrow> write_op list \<Rightarrow> bool" where
  "writes_ok c [] = True"
| "writes_ok c (op # ops) \<longleftrightarrow> write_ok c op \<and> (case write_step c op of None \<Rightarrow> True | Some c \<Rightarrow> writes_ok c ops)"

fun sent :: "write_op list \<Rightarrow> eventBuf list" where
  "sent [] = []"
| "sent (WSend b r # ops) = b # sent ops"
| "sent (WReady r # ops) = sent ops"
| "sent (WClose # ops) = sent ops"

lemma release_keeps: "1 < ec_iRefCount c \<Longrightarrow> eventConnection_release c = c\<lparr>ec_iRefCount := ec_iRefCount c - 1\<rparr>"
  by (simp add: eventConnection_release_def)

lemma streaming_upd [simp]:
  "streaming (c\<lparr>ec_iRefCount := n\<rparr>) = streaming c" "streaming (c\<lparr>ec_async := as\<rparr>) = streaming c"
  by (simp_all add: streaming_def fun_eq_iff)

lemma handle_write:
  "ec_iStatus c = eConnected \<Longrightarrow> handleEvent (write_env r) ePollerWritable c = sendCompleteCallback r c"
  by (simp add: handleEvent_def write_env_def attr_bits attr_bits' bind_eq_Some_conv)

definition live :: "eventConnection \<Rightarrow> bool" where
  "live c \<longleftrightarrow> ec_iStatus c = eConnected \<and> 0 < ec_iRefCount c"

lemma write_step_streaming:
  assumes s: "streaming c done pend k" and l: "live c" and ok: "write_ok c op"
  shows "\<exists>c' done' pend' k'. write_step c op = Some c' \<and> live c' \<and> streaming c' done' pend' k' \<and>
    done' @ pend' = done @ pend @ sent [op]"
proof (cases op)
  case (WSend b r)
  let ?c = "eventConnection_addref c"
  have c: "streaming ?c done pend k" "ec_iStatus ?c = eConnected" "ec_iRefCount ?c = ec_iRefCount c + 1"
    using s l by (auto simp: eventConnection_addref_def live_def)
  have "\<exists>n c' done' pend' k'. sendData r b ?c = Some (n, c') \<and> n \<noteq> -1 \<and> streaming c' done' pend' k' \<and>
      done' @ pend' = done @ pend @ [b]"
  proof (cases pend)
    case Nil
    with s ok WSend obtain n where n: "fst r = Some n" "0 < n \<or> gathers_once b" "eb_wf b" "k = 0"
      by (auto simp: streaming_def split: option.splits)
    from sendData_idle [of ?c "done" b r n] c n Nil obtain c' where
      c': "sendData r b ?c = Some (int (min n (length (payload b))), c')"
        "if length (payload b) \<le> n then streaming c' (done @ [b]) [] 0 else streaming c' done [b] n" by auto
    then have "\<exists>d p k. streaming c' d p k \<and> d @ p = done @ [b]"
      by (cases "length (payload b) \<le> n") (metis append_Nil2, metis)
    then obtain d p k where "streaming c' d p k" "d @ p = done @ [b]" by blast
    moreover have "int (min n (length (payload b))) \<noteq> -1" by simp
    ultimately show ?thesis using c'(1) Nil by (metis append_Nil)
  next
    case (Cons p ps)
    with s ok WSend have "eb_wf b" "gathers_once b" by (auto simp: streaming_def)
    from sendData_busy [OF c(1) [unfolded Cons] this] Cons show ?thesis by fastforce
  qed
  then obtain n c' done' pend' k' where d: "sendData r b ?c = Some (n, c')" "n \<noteq> -1" "streaming c' done' pend' k'"
      "done' @ pend' = done @ pend @ [b]" by blast
  have c': "ec_iStatus c' = eConnected" "ec_iRefCount c' = ec_iRefCount c + 1"
    using conn_lifeD [OF conn_life_sendData [OF d(1)]] c by auto
  with d c l WSend have "write_step c op = Some (c'\<lparr>ec_iRefCount := ec_iRefCount c\<rparr>)"
    by (simp add: eventAsyncSend_sendInLoop_def release_keeps live_def)
  with d c' l WSend show ?thesis by (force simp: live_def)
next
  case (WReady r)
  with s ok obtain p ps where p: "pend = p # ps" by (cases pend) (auto simp: streaming_def)
  from ok WReady have "(\<exists>n > 0. fst r = Some n) \<or> fst r = None \<and> TEST_ERR_RW_RETRIABLE (snd r)"
    by (auto split: option.splits)
  from sendComplete_streaming [OF s [unfolded p] this] obtain c' done' pend' k' where
    d: "sendCompleteCallback r c = Some c'" "streaming c' done' pend' k'" "done' @ pend' = done @ p # ps" by blast
  from conn_lifeD [OF conn_life_sendComplete [OF d(1)]] l have "live c'" by (simp add: live_def)
  with d p WReady l show ?thesis by (auto simp: handle_write live_def)
qed (use ok in simp)

lemma sent_Cons: "sent (op # ops) = sent [op] @ sent ops"
  by (cases op) auto

lemma write_run_streaming:
  "streaming c done pend k \<Longrightarrow> live c \<Longrightarrow> writes_ok c ops \<Longrightarrow>
    \<exists>c' done' pend' k'. write_run c ops = Some c' \<and> live c' \<and> streaming c' done' pend' k' \<and>
      done' @ pend' = done @ pend @ sent ops"
proof (induction ops arbitrary: c "done" pend k)
  case (Cons op ops)
  from write_step_streaming [OF Cons.prems(1,2), of op] Cons.prems(3) obtain c1 d1 p1 k1 where
    1: "write_step c op = Some c1" "live c1" "streaming c1 d1 p1 k1" "d1 @ p1 = done @ pend @ sent [op]" by auto
  with Cons.prems(3) have "writes_ok c1 ops" by simp
  from Cons.IH [OF 1(3,2) this] obtain c' d' p' k' where
    2: "write_run c1 ops = Some c'" "live c'" "streaming c' d' p' k'" "d' @ p' = d1 @ p1 @ sent ops" by blast
  moreover have "d' @ p' = done @ pend @ sent (op # ops)"
    using 1(4) 2(4) sent_Cons [of op ops] by simp
  ultimately show ?case using 1(1) by auto
qed auto


section \<open>Every buffer is accounted for\<close>

definition users :: "eventBuf list \<Rightarrow> u64 multiset" where
  "users bs = mset (map eb_uiWriteUser (filter eb_fnCallback bs))"

lemma users_simps [simp]: "users [] = {#}" "users (bs @ bs') = users bs + users bs'"
    "users (b # bs) = (if eb_fnCallback b then {#eb_uiWriteUser b#} else {#}) + users bs"
  by (simp_all add: users_def)

text \<open>The callbacks made and those of the waiting buffers are \<open>U\<close> together.\<close>

definition accounted :: "eventConnection \<Rightarrow> u64 multiset \<Rightarrow> bool" where
  "accounted c U \<longleftrightarrow>
     mset (map snd (completions (ec_out c))) + users (ec_queueWritePending c) = U \<and>
     ec_iWritePending c = int (length (ec_queueWritePending c)) \<and> list_all eb_wf (ec_queueWritePending c)"

lemma accounted_poller [simp]:
  "accounted (conn_poller_clear c a) = accounted c" "accounted (conn_poller_setOpt c a) = accounted c"
  by (simp_all add: accounted_def fun_eq_iff)

lemma accounted_upd [simp]:
  "accounted (c\<lparr>ec_nWritten := n\<rparr>) = accounted c" "accounted (c\<lparr>ec_iRefCount := i\<rparr>) = accounted c"
  "accounted (c\<lparr>ec_iConnections := i\<rparr>) = accounted c" "accounted (c\<lparr>ec_fnCloseCallback := f\<rparr>) = accounted c"
  "accounted (c\<lparr>ec_hSocket := i\<rparr>) = accounted c" "accounted (c\<lparr>ec_iStatus := st\<rparr>) = accounted c"
  "accounted (c\<lparr>ec_hDisconnectCallback := f\<rparr>) = accounted c" "accounted (c\<lparr>ec_readByteQueue := q\<rparr>) = accounted c"
  "accounted (c\<lparr>ec_pListenPort := f\<rparr>) = accounted c"
  by (simp_all add: accounted_def fun_eq_iff)

lemma accounted_emit: "completions [x] = [] \<Longrightarrow> accounted (emit x c) = accounted c"
  by (simp add: accounted_def fun_eq_iff)

lemma accounted_disconnect [simp]: "accounted (disconnect_callback c) = accounted c"
  by (simp add: disconnect_callback_def accounted_emit)

lemma accounted_writev [simp]: "accounted (sys_writev iov r c) = accounted c"
  by (simp add: sys_writev_def accounted_emit Let_def)

text \<open>Taking the first buffer of the queue and calling its callback keeps the account.\<close>

lemma accounted_pop:
  assumes a: "accounted c U" and q: "ec_queueWritePending c = b # bs"
    and c1: "ec_queueWritePending c1 = bs" "ec_iWritePending c1 = ec_iWritePending c - 1" "ec_out c1 = ec_out c"
  shows "\<exists>c'. send_callback ok b c1 = Some c' \<and> accounted c' U \<and> ec_queueWritePending c' = bs"
proof -
  have "eb_wf b" using a q by (simp add: accounted_def)
  with assms show ?thesis by (auto simp: send_callback_wf accounted_def)
qed

lemma accounted_pop_sent:
  "accounted c U \<Longrightarrow> ec_queueWritePending c = bs \<Longrightarrow> \<exists>c'. pop_sent bs n c = Some c' \<and> accounted c' U"
proof (induction bs arbitrary: n c)
  case (Cons b bs)
  show ?case
  proof (cases "ec_nWritten c \<ge> add_length b n")
    case True
    from accounted_pop [OF Cons.prems, of "c\<lparr>ec_queueWritePending := bs, ec_iWritePending := ec_iWritePending c - 1,
             ec_nWritePendingBytes := ec_nWritePendingBytes c - add_length b n, ec_nWritten := ec_nWritten c - add_length b n\<rparr>" True]
    obtain c' where "send_callback True b (c\<lparr>ec_queueWritePending := bs, ec_iWritePending := ec_iWritePending c - 1,
             ec_nWritePendingBytes := ec_nWritePendingBytes c - add_length b n, ec_nWritten := ec_nWritten c - add_length b n\<rparr>) = Some c'"
      "accounted c' U" "ec_queueWritePending c' = bs" by auto
    with True Cons.IH [of c' "add_length b n"] show ?thesis by (simp add: Let_def)
  next
    case False
    with Cons.prems show ?thesis by (simp add: Let_def)
  qed
qed simp

lemma accounted_fail_sent:
  "accounted c U \<Longrightarrow> ec_queueWritePending c = bs \<Longrightarrow>
    \<exists>c'. fail_sent bs c = Some c' \<and> accounted c' U \<and> ec_queueWritePending c' = []"
proof (induction bs arbitrary: c)
  case (Cons b bs)
  from accounted_pop [OF Cons.prems, of "c\<lparr>ec_queueWritePending := bs, ec_iWritePending := ec_iWritePending c - 1,
          ec_nWritePendingBytes := ec_nWritePendingBytes c - of_nat (eb_count b)\<rparr>" False]
  show ?case using Cons.IH by fastforce
qed simp

lemma accounted_close_pending:
  "accounted c U \<Longrightarrow> ec_queueWritePending c = bs \<Longrightarrow>
    \<exists>c'. close_pending bs n c = Some c' \<and> accounted c' U \<and> ec_queueWritePending c' = []"
proof (induction bs arbitrary: n c)
  case (Cons b bs)
  from accounted_pop [OF Cons.prems, of "c\<lparr>ec_queueWritePending := bs, ec_iWritePending := ec_iWritePending c - 1,
          ec_nWritePendingBytes := ec_nWritePendingBytes c - add_length b n\<rparr>" False]
  obtain c1 where c1: "send_callback False b (c\<lparr>ec_queueWritePending := bs, ec_iWritePending := ec_iWritePending c - 1,
          ec_nWritePendingBytes := ec_nWritePendingBytes c - add_length b n\<rparr>) = Some c1" "accounted c1 U"
    "ec_queueWritePending c1 = bs" by auto
  with Cons.IH [of "c1\<lparr>ec_nWritten := 0\<rparr>" "add_length b n"] show ?case by (simp add: Let_def)
qed simp


text \<open>The loop that gathers ends: every round adds an entry, and there are at most 64.\<close>

lemma gather_vec_adds:
  "i + n \<le> 64 \<Longrightarrow> n \<le> fst (gather_vec xs i n w iov) \<and> fst (gather_vec xs i n w iov) \<le> 64 \<and>
    (xs \<noteq> [] \<and> i + n < 64 \<longrightarrow> n < fst (gather_vec xs i n w iov))"
proof (induction xs arbitrary: i n w iov)
  case (Cons x xs)
  show ?case
  proof (cases "int i < 64 - int n")
    case True
    show ?thesis
    proof (cases "i + 1 + (n + 1) \<le> 64")
      case le: True
      with True Cons.IH [of "i + 1" "n + 1"] show ?thesis by (auto simp: Suc_le_eq intro: less_imp_le)
    next
      case False
      with True have "i + n = 63" by simp
      then have "\<not> int (i + 1) < 64 - int (n + 1)" by simp
      then have "gather_vec xs (i + 1) (n + 1) w' iov' = (n + 1, w', iov')" for w' iov'
        by (cases xs) auto
      with True show ?thesis by auto
    qed
  qed (use Cons in auto)
qed simp

lemma gather_iov_total:
  assumes "payload b \<noteq> []"
  shows "n < 64 \<Longrightarrow> 64 - n \<le> fuel \<Longrightarrow> \<exists>iov'. gather_iov fuel b n w iov = Some iov'"
proof (induction fuel arbitrary: n w iov)
  case (Suc fuel)
  obtain n1 w1 iov1 where 1: "(if eb_isVec b then gather_vec (eb_vec b) 0 n w iov
      else (n + 1, w + of_nat (eb_count b), iov @ [eb_bytes b])) = (n1, w1, iov1)" by (metis prod_cases3)
  have n1: "n < n1 \<and> n1 \<le> 64"
  proof (cases "eb_isVec b")
    case True
    then have "eb_vec b \<noteq> []" using assms by (auto simp: payload_def)
    with True 1 Suc.prems gather_vec_adds [of 0 n "eb_vec b" w iov] show ?thesis by auto
  next
    case False
    with 1 Suc.prems show ?thesis by auto
  qed
  show ?case
  proof (cases "n1 = 64 \<or> 8192 \<le> w1")
    case False
    with n1 Suc.prems Suc.IH [of n1 w1 iov1] 1 show ?thesis by auto
  qed (use 1 in auto)
qed simp

lemma retry_iov_total: "eb_wf b \<Longrightarrow> \<exists>iov. retry_iov b n = Some iov"
  using gather_iov_total [of b 0 64 0 "[]"] by (simp add: retry_iov_def eb_wf_def)

lemma accounted_sendComplete:
  assumes "accounted c U"
  shows "\<exists>c'. sendCompleteCallback r c = Some c' \<and> accounted c' U"
proof -
  from accounted_pop_sent [OF assms refl] obtain c1 where
    c1: "pop_sent (ec_queueWritePending c) 0 c = Some c1" "accounted c1 U" by blast
  show ?thesis
  proof (cases "ec_queueWritePending c1")
    case Nil
    with c1 show ?thesis by (simp add: sendCompleteCallback_def accounted_def)
  next
    case (Cons b bs)
    with c1 have "eb_wf b" and i: "ec_iWritePending c1 > 0" by (auto simp: accounted_def)
    then obtain iov where iov: "retry_iov b (ec_nWritten c1) = Some iov" using retry_iov_total by blast
    let ?c = "sys_writev iov r c1"
    from accounted_fail_sent [of ?c U, OF _ refl] c1 obtain c2 where
      "fail_sent (ec_queueWritePending ?c) ?c = Some c2" "accounted c2 U" by auto
    with c1 Cons i iov show ?thesis by (simp add: sendCompleteCallback_def Let_def)
  qed
qed

lemma accounted_sendData:
  assumes "accounted c U" "eb_wf b"
  shows "\<exists>n c'. sendData r b c = Some (n, c') \<and> accounted c' (U + users [b])"
proof (cases "pollHandle_isWriting (ec_pollHandle c)")
  case True
  with assms show ?thesis by (auto simp: sendData_def accounted_def Let_def)
next
  case False
  have *: "accounted (if eb_fnCallback b then emit (SendComplete ok (eb_uiWriteUser b)) c' else c') (U + users [b])"
    if "accounted c' U" for ok c'
    using that by (auto simp: accounted_def)
  have q: "accounted (conn_poller_setOpt (c'\<lparr>ec_iWritePending := ec_iWritePending c' + 1, ec_nWritten := n,
      ec_nWritePendingBytes := m, ec_queueWritePending := ec_queueWritePending c' @ [b]\<rparr>) a) (U + users [b])"
    if "accounted c' U" for c' n m a
    using that assms(2) by (auto simp: accounted_def)
  let ?c = "sys_writev (eb_iov b) r c"
  have c: "accounted ?c U" using assms by simp
  define w where "w = sys_result (eb_iov b) r"
  define l where "l = (if 0 \<le> w then eb_iLength b - w else 0)"
  note d = sendData_def Let_def w_def [symmetric] l_def [symmetric] send_callback_wf [OF assms(2)]
  show ?thesis
  proof (cases "w < 0 \<and> \<not> TEST_ERR_RW_RETRIABLE (snd r)")
    case True
    with False c * [of "conn_poller_clear ?c ePollerClosed"] show ?thesis by (simp add: d)
  next
    case F: False
    show ?thesis
    proof (cases "0 < l")
      case True
      with False F q [OF c] show ?thesis by (auto simp: d simp del: sys_writev_sel)
    next
      case L: False
      with False F * [OF c] show ?thesis by (auto simp: d)
    qed
  qed
qed

lemma accounted_release [simp]: "accounted (eventConnection_release c) = accounted c"
  by (simp add: eventConnection_release_def Let_def accounted_emit completions_def List.map_filter_def)

lemma accounted_close:
  assumes "accounted c U"
  shows "\<exists>c'. handleClose c = Some c' \<and> accounted c' U \<and>
    (ec_hSocket c \<noteq> -1 \<longrightarrow> ec_queueWritePending c' = [])"
proof (cases "ec_hSocket c = -1")
  case True
  with assms show ?thesis by (simp add: handleClose_def)
next
  case False
  let ?c = "(emit CloseSocket (conn_poller_clear (c\<lparr>ec_iStatus := eDisconnected\<rparr>) ePollerClosed))\<lparr>ec_hSocket := -1\<rparr>"
  have "accounted ?c U" using assms by (simp add: accounted_emit)
  from accounted_close_pending [OF this refl, of 0] obtain c1 where
    "close_pending (ec_queueWritePending ?c) 0 ?c = Some c1" "accounted c1 U" "ec_queueWritePending c1 = []" by blast
  with False show ?thesis
    by (simp add: handleClose_def Let_def accounted_emit) (simp add: eventConnection_release_def Let_def)
qed

text \<open>Open and held by somebody beside the loop, or closed.\<close>

definition sending :: "eventConnection \<Rightarrow> u64 multiset \<Rightarrow> bool" where
  "sending c U \<longleftrightarrow> accounted c U \<and>
     (if ec_iStatus c = eConnected then ec_hSocket c \<noteq> -1 \<and> 1 < ec_iRefCount c
      else ec_iStatus c = eDisconnected \<and> ec_hSocket c = -1 \<and> 0 < ec_iRefCount c \<and> ec_queueWritePending c = [])"

lemma handleClose_life:
  assumes "handleClose c = Some c'" "ec_hSocket c \<noteq> -1" "1 < ec_iRefCount c"
  shows "ec_iStatus c' = eDisconnected" "ec_hSocket c' = -1" "ec_iRefCount c' = ec_iRefCount c - 1"
proof -
  let ?c = "(emit CloseSocket (conn_poller_clear (c\<lparr>ec_iStatus := eDisconnected\<rparr>) ePollerClosed))\<lparr>ec_hSocket := -1\<rparr>"
  from assms obtain c1 where c1: "close_pending (ec_queueWritePending ?c) 0 ?c = Some c1" and
    c': "c' = (let c = if ec_fnCloseCallback c1 then (emit CloseCallback c1)\<lparr>ec_fnCloseCallback := False\<rparr> else c1
      in eventConnection_release (c\<lparr>ec_iConnections := ec_iConnections c - 1\<rparr>))"
    by (auto simp: handleClose_def Let_def bind_eq_Some_conv)
  have l: "conn_life (conn_poller_clear (c\<lparr>ec_iStatus := eDisconnected\<rparr>) ePollerClosed) = conn_life (c\<lparr>ec_iStatus := eDisconnected\<rparr>)"
    by simp
  from conn_lifeD [OF conn_life_close [OF c1]] conn_lifeD [OF l] have
    "ec_iStatus c1 = eDisconnected" "ec_hSocket c1 = -1" "ec_iRefCount c1 = ec_iRefCount c" by (auto simp: emit_def)
  with assms(3) show "ec_iStatus c' = eDisconnected" "ec_hSocket c' = -1" "ec_iRefCount c' = ec_iRefCount c - 1"
    by (auto simp: c' Let_def eventConnection_release_def emit_def)
qed

lemma write_step_sending:
  assumes s: "sending c U" and wf: "list_all eb_wf (sent [op])"
  shows "\<exists>c'. write_step c op = Some c' \<and> sending c' (U + users (sent [op])) \<and>
    (op = WClose \<or> ec_iStatus c \<noteq> eConnected \<longrightarrow> ec_iStatus c' \<noteq> eConnected)"
proof (cases op)
  case (WSend b r)
  let ?c = "eventConnection_addref c"
  have a: "accounted ?c U" and b: "eb_wf b" using s wf WSend by (simp_all add: sending_def eventConnection_addref_def)
  have r: "1 < ec_iRefCount ?c" "ec_iStatus ?c = ec_iStatus c" "ec_hSocket ?c = ec_hSocket c"
      "ec_queueWritePending ?c = ec_queueWritePending c"
    using s by (auto simp: sending_def eventConnection_addref_def split: if_splits)
  show ?thesis
  proof (cases "ec_iStatus c = eConnected")
    case True
    from accounted_sendData [OF a b, of r] obtain n c1 where
      c1: "sendData r b ?c = Some (n, c1)" "accounted c1 (U + users [b])" by blast
    define c2 where "c2 = (if n = -1 then disconnect_callback c1 else c1)"
    have "conn_life c2 = conn_life ?c" using conn_life_sendData [OF c1(1)] by (simp add: c2_def)
    note l = conn_lifeD [OF this]
    have "write_step c op = Some (c2\<lparr>ec_iRefCount := ec_iRefCount c2 - 1\<rparr>)"
      using WSend c1 True r l by (simp add: eventAsyncSend_sendInLoop_def c2_def release_keeps)
    moreover have "accounted c2 (U + users [b])" using c1 by (simp add: c2_def)
    ultimately show ?thesis using l r True s WSend
      by (auto simp: sending_def eventConnection_addref_def)
  next
    case False
    with s have e: "ec_queueWritePending c = []" by (simp add: sending_def)
    define c1 where "c1 = (if eb_fnCallback b then emit (SendComplete False (eb_uiWriteUser b)) ?c else ?c)"
    have l: "ec_iStatus c1 = ec_iStatus c" "ec_hSocket c1 = ec_hSocket c" "ec_iRefCount c1 = ec_iRefCount ?c"
        "ec_queueWritePending c1 = []"
      using e r by (auto simp: c1_def emit_def)
    have "write_step c op = Some (c1\<lparr>ec_iRefCount := ec_iRefCount c1 - 1\<rparr>)"
      using WSend b False r l by (simp add: eventAsyncSend_sendInLoop_def send_callback_wf c1_def release_keeps)
    moreover have "accounted c1 (U + users [b])" using a by (auto simp: c1_def accounted_def)
    ultimately show ?thesis using l r False s WSend by (auto simp: sending_def eventConnection_addref_def)
  qed
next
  case (WReady r)
  show ?thesis
  proof (cases "ec_iStatus c = eConnected")
    case True
    from s have "accounted c U" by (simp add: sending_def)
    from accounted_sendComplete [OF this, of r] obtain c' where
      c': "sendCompleteCallback r c = Some c'" "accounted c' U" by blast
    with conn_lifeD [OF conn_life_sendComplete [OF c'(1)]] True s WReady show ?thesis
      by (simp add: handle_write sending_def)
  next
    case False
    with s have "ec_iStatus c = eDisconnected" by (simp add: sending_def)
    with s WReady show ?thesis by (simp add: handleEvent_def)
  qed
next
  case WClose
  from s have "accounted c U" by (simp add: sending_def)
  from accounted_close [OF this] obtain c' where
    c': "handleClose c = Some c'" "accounted c' U" "ec_hSocket c \<noteq> -1 \<longrightarrow> ec_queueWritePending c' = []" by blast
  show ?thesis
  proof (cases "ec_iStatus c = eConnected")
    case True
    with s have "ec_hSocket c \<noteq> -1" "1 < ec_iRefCount c" by (auto simp: sending_def)
    with c' handleClose_life [OF c'(1)] True WClose show ?thesis by (simp add: sending_def)
  next
    case False
    with s WClose show ?thesis by (simp add: sending_def handleClose_def)
  qed
qed

lemma write_run_sending:
  "sending c U \<Longrightarrow> list_all eb_wf (sent ops) \<Longrightarrow>
    \<exists>c'. write_run c ops = Some c' \<and> sending c' (U + users (sent ops)) \<and>
      (WClose \<in> set ops \<or> ec_iStatus c \<noteq> eConnected \<longrightarrow> ec_iStatus c' \<noteq> eConnected)"
proof (induction ops arbitrary: c U)
  case (Cons op ops)
  from Cons.prems(2) have wf: "list_all eb_wf (sent [op])" "list_all eb_wf (sent ops)"
    by (simp_all add: sent_Cons [of op ops])
  from write_step_sending [OF Cons.prems(1) wf(1)] obtain c1 where
    1: "write_step c op = Some c1" "sending c1 (U + users (sent [op]))"
      "op = WClose \<or> ec_iStatus c \<noteq> eConnected \<longrightarrow> ec_iStatus c1 \<noteq> eConnected" by blast
  from Cons.IH [OF 1(2) wf(2)] 1 show ?case
    by (auto simp: sent_Cons [of op ops] add.assoc)
qed auto

end
