(* ===== verification/ConnectionStream.thy ===== *)
theory ConnectionStream
  imports ConnectionSend
begin

text \<open>
  The properties of sending on a connection, and what goes wrong: the backlog of small buffers, the first write that
  the kernel refuses, and the callback of a send on the thread of the loop.
\<close>

section \<open>A backlog of small buffers\<close>

text \<open>How often the loop takes a buffer of \<open>L\<close> bytes: until there are 8192 bytes, or 64 entries.\<close>

definition copies :: "nat \<Rightarrow> nat" where
  "copies L = min 64 ((8191 + L) div L)"

lemma copies_bound:
  assumes "0 < L"
  shows "k < copies L \<Longrightarrow> k * L < 8192" "copies L = 64 \<or> 8192 \<le> copies L * L" "0 < copies L" "copies L \<le> 64"
proof -
  let ?q = "(8191 + L) div L"
  have q: "?q * L \<le> 8191 + L" "8191 + L < (?q + 1) * L"
    using div_mult_mod_eq [of "8191 + L" L] mod_less_divisor [OF assms, of "8191 + L"] by (simp, simp add: algebra_simps)
  show "k * L < 8192" if "k < copies L"
  proof -
    have "k + 1 \<le> ?q" using that by (simp add: copies_def)
    then have "(k + 1) * L \<le> ?q * L" by (rule mult_le_mono1)
    from le_trans [OF this q(1)] show ?thesis by simp
  qed
  have "8192 \<le> ?q * L" using q by (simp add: algebra_simps)
  then show "copies L = 64 \<or> 8192 \<le> copies L * L" by (auto simp: copies_def min_def)
  have "0 < ?q" using assms by (simp add: div_greater_zero_iff)
  then show "0 < copies L" by (simp add: copies_def)
  show "copies L \<le> 64" by (simp add: copies_def)
qed

lemma gather_plain:
  assumes "\<not> eb_isVec b" "0 < eb_count b" "eb_count b < 2 ^ 31"
  shows "n < copies (eb_count b) \<Longrightarrow> copies (eb_count b) - n \<le> fuel \<Longrightarrow>
    gather_iov fuel b n (of_nat (n * eb_count b)) iov = Some (iov @ replicate (copies (eb_count b) - n) (eb_bytes b))"
proof (induction fuel arbitrary: n iov)
  case (Suc fuel)
  let ?L = "eb_count b"
  note cb = copies_bound [OF assms(2)]
  have "Suc n * ?L \<le> 64 * ?L" using Suc.prems cb(4) by (intro mult_le_mono1) linarith
  moreover have "64 * ?L < 2 ^ 63" using assms(3) by simp
  ultimately have u: "unat (of_nat (Suc n * ?L) :: u64) = Suc n * ?L"
    by (intro unat_of_nat_small) (rule le_less_trans)
  have w: "of_nat (n * ?L) + of_nat ?L = (of_nat (Suc n * ?L) :: u64)" by simp
  show ?case
  proof (cases "Suc n = copies ?L")
    case True
    with cb(2) have "Suc n = 64 \<or> 8192 \<le> Suc n * ?L" by metis
    then have "Suc n = 64 \<or> (8192 :: u64) \<le> of_nat (Suc n * ?L)" by (simp only: word_le_nat_alt u) auto
    with assms(1) True show ?thesis by (simp add: w [symmetric] add.commute flip: True)
  next
    case False
    with Suc.prems have n: "Suc n < copies ?L" by simp
    then have "Suc n \<noteq> 64" "Suc n * ?L < 8192" using cb(1) [OF n] cb(4) by linarith+
    then have s: "\<not> (Suc n = 64 \<or> (8192 :: u64) \<le> of_nat (Suc n * ?L))" by (simp only: word_le_nat_alt u) auto
    have "gather_iov (Suc fuel) b n (of_nat (n * ?L)) iov = gather_iov fuel b (Suc n) (of_nat (Suc n * ?L)) (iov @ [eb_bytes b])"
      using assms(1) s by (simp only: gather_iov.simps Let_def w) simp
    also have "\<dots> = Some ((iov @ [eb_bytes b]) @ replicate (copies ?L - Suc n) (eb_bytes b))"
      using Suc.IH [OF n] Suc.prems by simp
    also have "copies ?L - n = Suc (copies ?L - Suc n)" using n by simp
    ultimately show ?thesis by simp
  qed
qed simp


text \<open>The states along the run: the buffers waiting, how much of them is counted as written, and what went out.\<close>

definition backlog :: "eventConnection \<Rightarrow> eventBuf list \<Rightarrow> nat \<Rightarrow> bytes \<Rightarrow> (bool \<times> u64) list \<Rightarrow> bool" where
  "backlog c bs k out calls \<longleftrightarrow>
     live c \<and> ec_queueWritePending c = bs \<and> ec_nWritten c = of_nat k \<and> ec_iWritePending c = int (length bs) \<and>
     (bs \<noteq> [] \<longrightarrow> pollHandle_isWriting (ec_pollHandle c)) \<and> wired (ec_out c) = out \<and> completions (ec_out c) = calls"

definition idle :: "eventConnection \<Rightarrow> bool" where
  "idle c \<longleftrightarrow> streaming c [] [] 0 \<and> live c"

lemma backlog_send:
  assumes s: "backlog c (p # bs) k out calls" and b: "eb_wf b"
  shows "\<exists>c'. write_step c (WSend b r) = Some c' \<and> backlog c' (p # bs @ [b]) k out calls"
proof -
  let ?c = "eventConnection_addref c"
  obtain c1 where c1: "c1 = ?c\<lparr>ec_iWritePending := ec_iWritePending ?c + 1,
        ec_nWritePendingBytes := ec_nWritePendingBytes ?c + of_nat (length (payload b)),
        ec_queueWritePending := ec_queueWritePending ?c @ [b]\<rparr>" by simp
  have "sendData r b ?c = Some (int (length (payload b)), c1)"
    using s by (simp add: sendData_def Let_def send_length [OF b] backlog_def c1 eventConnection_addref_def)
  with s have "write_step c (WSend b r) = Some (c1\<lparr>ec_iRefCount := ec_iRefCount c\<rparr>)"
    by (simp add: eventAsyncSend_sendInLoop_def release_keeps c1 backlog_def live_def eventConnection_addref_def)
  moreover have "backlog (c1\<lparr>ec_iRefCount := ec_iRefCount c\<rparr>) (p # bs @ [b]) k out calls"
    using s by (simp add: backlog_def live_def c1 eventConnection_addref_def)
  ultimately show ?thesis by blast
qed

lemma backlog_first:
  assumes "idle c" "eb_wf b" "0 < k" "k < length (payload b)"
  shows "\<exists>c'. write_step c (WSend b (Some k, 0)) = Some c' \<and> backlog c' [b] k (take k (payload b)) []"
proof -
  from assms have s: "streaming c [] [] 0" "live c" by (simp_all add: idle_def)
  have "write_ok c (WSend b (Some k, 0))" using assms s by (simp add: streaming_def)
  from write_step_streaming [OF s this] obtain c' d p k' where
    1: "write_step c (WSend b (Some k, 0)) = Some c'" "live c'" "streaming c' d p k'" "d @ p = [b]" by auto
  let ?c = "eventConnection_addref c"
  have c: "streaming ?c [] [] 0" using s by (simp add: eventConnection_addref_def)
  from sendData_idle [OF c assms(2), of "(Some k, 0)" k] assms obtain c2 where
    2: "sendData (Some k, 0) b ?c = Some (int k, c2)" "streaming c2 [] [b] k" by auto
  have r: "ec_iStatus ?c = eConnected" "1 < ec_iRefCount c2"
    using conn_lifeD [OF conn_life_sendData [OF 2(1)]] s by (auto simp: eventConnection_addref_def live_def)
  have "write_step c (WSend b (Some k, 0)) = Some (c2\<lparr>ec_iRefCount := ec_iRefCount c2 - 1\<rparr>)"
    using 2 r by (simp add: eventAsyncSend_sendInLoop_def release_keeps)
  with 1 2 show ?thesis by (auto simp: backlog_def streaming_def live_def)
qed

text \<open>A write event that leaves the queue as it is after the popping, and writes.\<close>

lemma backlog_ready:
  assumes s: "backlog c bs k out calls" and pop: "pop_sent bs 0 c = Some c1"
    and c1: "backlog c1 (b # bs') k' out calls'"
    and iov: "retry_iov b (of_nat k') = Some iov" "concat iov \<noteq> []" "length (concat iov) \<le> n"
  shows "\<exists>c'. write_step c (WReady (Some n, 0)) = Some c' \<and>
    backlog c' (b # bs') (k' + length (concat iov)) (out @ concat iov) calls'"
proof -
  let ?m = "length (concat iov)"
  have m: "sys_result iov (Some n, 0) = int ?m" "0 < ?m" using iov by (simp_all add: sys_result_def del: concat_eq_Nil_conv)
  let ?c = "(sys_writev iov (Some n, 0) c1)\<lparr>ec_nWritten := of_nat (k' + ?m)\<rparr>"
  have "sendCompleteCallback (Some n, 0) c = Some ?c"
    using s pop c1 iov m by (simp add: sendCompleteCallback_def Let_def backlog_def)
  moreover have "backlog ?c (b # bs') (k' + ?m) (out @ concat iov) calls'"
  proof -
    have "live ?c" using c1 conn_lifeD [OF conn_life_writev [of iov "(Some n, 0)" c1]] by (simp add: backlog_def live_def)
    moreover have "wired (ec_out ?c) = out @ concat iov"
      using c1 sys_writev_wired(1) [of "(Some n, 0)" n iov c1] iov(3) by (simp add: backlog_def)
    ultimately show ?thesis using c1 by (simp add: backlog_def sys_writev_wired)
  qed
  ultimately show ?thesis using s by (auto simp: handle_write backlog_def live_def)
qed


text \<open>A plain buffer at the front is popped when enough is counted as written, whoever wrote it.\<close>

lemma backlog_pop:
  assumes s: "backlog c (b # bs) k out calls" and b: "eb_wf b" "\<not> eb_isVec b" and k: "k < 2 ^ 62"
  shows "if k < length (payload b) then pop_sent (b # bs) n c = Some c
    else \<exists>c'. pop_sent (b # bs) n c = pop_sent bs (of_nat (length (payload b))) c' \<and>
      backlog c' bs (k - length (payload b)) out (calls @ called True [b])"
proof -
  have add: "add_length b n = of_nat (length (payload b))"
    using b by (simp add: add_length_def payload_def eb_wf_def)
  have u: "unat (of_nat k :: u64) = k" "unat (of_nat (length (payload b)) :: u64) = length (payload b)"
    using k b by (simp_all add: unat_of_nat_small eb_wf_def)
  have w: "ec_nWritten c = of_nat k" using s by (simp add: backlog_def)
  show ?thesis
  proof (cases "k < length (payload b)")
    case True
    with w add u show ?thesis by (simp add: word_le_nat_alt Let_def)
  next
    case False
    let ?c = "c\<lparr>ec_queueWritePending := bs, ec_iWritePending := ec_iWritePending c - 1,
      ec_nWritePendingBytes := ec_nWritePendingBytes c - of_nat (length (payload b)),
      ec_nWritten := of_nat (k - length (payload b))\<rparr>"
    let ?c' = "if eb_fnCallback b then emit (SendComplete True (eb_uiWriteUser b)) ?c else ?c"
    have d: "ec_nWritten c - of_nat (length (payload b)) = of_nat (k - length (payload b))"
      using False w by (simp add: of_nat_diff)
    have "pop_sent (b # bs) n c = pop_sent bs (of_nat (length (payload b))) ?c'"
      using False w add u b by (simp add: word_le_nat_alt Let_def send_callback_wf flip: d)
    moreover have "backlog ?c' bs (k - length (payload b)) out (calls @ called True [b])"
      using s by (auto simp: backlog_def live_def emit_def)
    ultimately show ?thesis using False by auto
  qed
qed

lemma backlog_popped:
  assumes "backlog c (b # bs) k out calls" "eb_wf b" "\<not> eb_isVec b" "k < 2 ^ 62" "length (payload b) \<le> k"
  obtains c' where "pop_sent (b # bs) n c = pop_sent bs (of_nat (length (payload b))) c'"
    "backlog c' bs (k - length (payload b)) out (calls @ called True [b])"
  using backlog_pop [OF assms(1-4), of n] assms(5) by (auto simp: not_less simp del: pop_sent.simps called_simps)

lemma retry_partial:
  assumes "eb_wf b" "\<not> eb_isVec b" "0 < k" "k < length (payload b)"
  shows "retry_iov b (of_nat k) = Some [drop k (payload b)]"
proof -
  from assms have "unat (of_nat k :: u64) = k" by (simp add: unat_of_nat_small eb_wf_def)
  moreover from this assms(3) have "(of_nat k :: u64) \<noteq> 0" by auto
  ultimately show ?thesis using assms(2) by (simp add: retry_iov_def payload_def)
qed

lemma retry_repeats:
  assumes "eb_wf b" "\<not> eb_isVec b"
  shows "retry_iov b (of_nat 0) = Some (replicate (copies (length (payload b))) (payload b))"
proof -
  have p: "payload b = eb_bytes b" "eb_count b = length (payload b)" using assms by (auto simp: payload_def eb_wf_def)
  moreover have "0 < copies (eb_count b)" "copies (eb_count b) \<le> 64"
    using assms p copies_bound [of "eb_count b"] by (auto simp: eb_wf_def)
  ultimately show ?thesis using gather_plain [OF assms(2), of 0 64 "[]"] assms by (simp add: retry_iov_def eb_wf_def)
qed

lemma called_one: "called True [b] = (if eb_fnCallback b then [(True, eb_uiWriteUser b)] else [])"
  by simp

text \<open>C34: A buffer shorter than 8192 bytes that waits behind another one is sent repeatedly, up to 64 times in one write:
  the loop that gathers the waiting buffers never leaves the head of the queue.  What was sent too often is then counted
  for the buffers behind it, which are reported as sent without a byte of them on the wire.\<close>

theorem backlog_corrupts_stream:
  assumes c: "idle c"
    and wf: "eb_wf b1" "eb_wf b2" "eb_wf b3" "\<not> eb_isVec b1" "\<not> eb_isVec b2" "\<not> eb_isVec b3"
    and j: "0 < j" "j < length (payload b1)"
    and short: "length (payload b3) \<le> (copies (length (payload b2)) - 1) * length (payload b2)"
    and n: "length (payload b1) \<le> n" "copies (length (payload b2)) * length (payload b2) \<le> n"
  shows "\<exists>c'. write_run c [WSend b1 (Some j, 0), WSend b2 r2, WSend b3 r3,
      WReady (Some n, 0), WReady (Some n, 0), WReady (Some n, 0)] = Some c' \<and>
    wired (ec_out c') = payload b1 @ concat (replicate (copies (length (payload b2))) (payload b2)) \<and>
    completions (ec_out c') = called True [b1, b2, b3] \<and> ec_queueWritePending c' = []"
proof -
  let ?L1 = "length (payload b1)" and ?L2 = "length (payload b2)" and ?L3 = "length (payload b3)"
  let ?m = "copies ?L2"
  have L: "?L1 < 2 ^ 31" "?L2 < 2 ^ 31" "0 < ?L2" using wf by (auto simp: eb_wf_def)
  have "?m * ?L2 \<le> 64 * ?L2" using copies_bound(4) [OF L(3)] by (rule mult_le_mono1)
  also have "64 * ?L2 < 2 ^ 62" using L(2) by simp
  finally have m: "?m * ?L2 < 2 ^ 62" "0 < ?m" using copies_bound(3) [OF L(3)] by this
  from backlog_first [OF c wf(1) j] obtain c1 where
    1: "write_step c (WSend b1 (Some j, 0)) = Some c1" "backlog c1 [b1] j (take j (payload b1)) []" by blast
  from backlog_send [where r = r2, OF 1(2) wf(2)] obtain c2 where
    2: "write_step c1 (WSend b2 r2) = Some c2" "backlog c2 [b1, b2] j (take j (payload b1)) []" by auto
  from backlog_send [where r = r3, OF 2(2) wf(3)] obtain c3 where
    3: "write_step c2 (WSend b3 r3) = Some c3" "backlog c3 [b1, b2, b3] j (take j (payload b1)) []" by auto
  have nj: "?L1 - j \<le> n" using n by linarith
  have "pop_sent [b1, b2, b3] 0 c3 = Some c3"
    using backlog_pop [OF 3(2) wf(1) wf(4), of 0] j L by simp
  from backlog_ready [where n = n, OF 3(2) this 3(2) retry_partial [OF wf(1,4) j]] j nj obtain c4 where
    4: "write_step c3 (WReady (Some n, 0)) = Some c4" "backlog c4 [b1, b2, b3] ?L1 (payload b1) []" by auto
  have L1: "?L1 < 2 ^ 62" using L by simp
  obtain c5 where 5: "pop_sent [b1, b2, b3] 0 c4 = pop_sent [b2, b3] (of_nat ?L1) c5"
      "backlog c5 [b2, b3] 0 (payload b1) (called True [b1])"
    using backlog_popped [OF 4(2) wf(1) wf(4) L1 order_refl, of 0] by auto
  have "pop_sent [b2, b3] (of_nat ?L1) c5 = Some c5"
    using backlog_pop [OF 5(2) wf(2) wf(5), of "of_nat ?L1"] L by simp
  with 5(1) have pop4: "pop_sent [b1, b2, b3] 0 c4 = Some c5" by simp
  have r: "length (concat (replicate ?m (payload b2))) = ?m * ?L2" "concat (replicate ?m (payload b2)) \<noteq> []"
    using m L by (simp_all add: length_concat sum_list_replicate)
  from backlog_ready [where n = n, OF 4(2) pop4 5(2) retry_repeats [OF wf(2,5)] r(2)] r(1) n(2) obtain c6 where
    6: "write_step c4 (WReady (Some n, 0)) = Some c6"
      "backlog c6 [b2, b3] (?m * ?L2) (payload b1 @ concat (replicate ?m (payload b2))) (called True [b1])" by auto
  have "?L2 \<le> ?m * ?L2" using m(2) by simp
  from backlog_popped [OF 6(2) wf(2) wf(5) m(1) this] obtain c7 where
    7: "pop_sent [b2, b3] 0 c6 = pop_sent [b3] (of_nat ?L2) c7"
      "backlog c7 [b3] (?m * ?L2 - ?L2) (payload b1 @ concat (replicate ?m (payload b2)))
        (called True [b1] @ called True [b2])" .
  have "?L3 \<le> ?m * ?L2 - ?L2" "?m * ?L2 - ?L2 < 2 ^ 62" using short m(1) by (simp_all add: diff_mult_distrib)
  from backlog_popped [OF 7(2) wf(3) wf(6) this(2,1)] obtain c8 where
    8: "pop_sent [b3] (of_nat ?L2) c7 = pop_sent [] (of_nat ?L3) c8"
      "backlog c8 [] (?m * ?L2 - ?L2 - ?L3) (payload b1 @ concat (replicate ?m (payload b2)))
        ((called True [b1] @ called True [b2]) @ called True [b3])" .
  have "write_step c6 (WReady (Some n, 0)) = Some (conn_poller_clear c8 ePollerWritable)"
    using 6(2) 7(1) 8 by (simp add: handle_write sendCompleteCallback_def backlog_def live_def)
  with 1(1) 2(1) 3(1) 4(1) 6(1) 8(2) show ?thesis by (simp add: backlog_def)
qed


text \<open>C4: As long as a buffer that is sent while others wait fills a write by itself, and no first write is refused, the
  bytes on the wire are at any time a prefix of the buffers in the order they were sent, cut where the kernel stopped;
  exactly the buffers that are completely written have been reported, each once and in order; the counters of waiting
  buffers and bytes are exact; and the socket is polled for writing exactly while buffers wait.\<close>

theorem connection_stream:
  assumes "idle c" "writes_ok c ops"
  shows "\<exists>c' done pend k. write_run c ops = Some c' \<and> sent ops = done @ pend \<and>
    wired (ec_out c') = payloads done @ take k (payloads pend) \<and>
    k \<le> (case pend of [] \<Rightarrow> 0 | b # _ \<Rightarrow> length (payload b)) \<and>
    completions (ec_out c') = called True done \<and> ec_iWritePending c' = int (length pend) \<and>
    ec_nWritePendingBytes c' = of_nat (length (payloads pend)) \<and>
    (pollHandle_isWriting (ec_pollHandle c') \<longleftrightarrow> pend \<noteq> [])"
proof -
  from assms(1) have "streaming c [] [] 0" "live c" by (simp_all add: idle_def)
  from write_run_streaming [OF this assms(2)] obtain c' done' pend' k' where
    "write_run c ops = Some c'" "streaming c' done' pend' k'" "done' @ pend' = sent ops" by auto
  then show ?thesis unfolding streaming_def by metis
qed

definition example_connection :: eventConnection where
  "example_connection = (acceptEventConnection Map.empty 0 5)\<lparr>ec_iStatus := eConnected, ec_iRefCount := 2\<rparr>"

definition example_buf :: "bytes \<Rightarrow> u64 \<Rightarrow> eventBuf" where
  "example_buf xs u = \<lparr>eb_fnCallback = True, eb_pEventConnection = True, eb_uiLength = of_nat (length xs),
     eb_uiWriteUser = u, eb_szStorage = EvBytes xs\<rparr>"

lemma example_idle: "idle example_connection"
  by (simp add: example_connection_def idle_def streaming_def live_def acceptEventConnection_def createEventConnection_def
      pollHandle_isWriting_def poller_attr_defs)

lemma example_buf_facts:
  assumes "xs \<noteq> []" "length xs < 2 ^ 31"
  shows "\<not> eb_isVec (example_buf xs u)" "payload (example_buf xs u) = xs" "eb_wf (example_buf xs u)"
    "eb_count (example_buf xs u) = length xs" "eb_bytes (example_buf xs u) = xs"
proof -
  have w: "(word_of_int (int (length xs)) :: u32) AND 0x80000000 = 0"
    "unat ((word_of_int (int (length xs)) :: u32) AND 0x7fffffff) = length xs"
    using length_word [of "int (length xs)"] assms by auto
  then show v: "\<not> eb_isVec (example_buf xs u)" and k: "eb_count (example_buf xs u) = length xs"
    by (simp_all add: example_buf_def eb_isVec_def eb_count_def)
  from k show b: "eb_bytes (example_buf xs u) = xs" by (simp add: eb_bytes_def) (simp add: example_buf_def)
  from v b show p: "payload (example_buf xs u) = xs" by (simp add: payload_def)
  with v k b assms show "eb_wf (example_buf xs u)" by (simp add: eb_wf_def) (simp add: example_buf_def)
qed

lemma example_writes_ok:
  "writes_ok example_connection [WSend (example_buf [1, 2, 3] 7) (Some 2, 0), WReady (Some 9, 0), WReady (None, 11)]"
proof -
  let ?b = "example_buf [1, 2, 3] 7"
  have b: "\<not> eb_isVec ?b" "payload ?b = [1, 2, 3]" "eb_wf ?b" by (simp_all add: example_buf_facts)
  from backlog_first [OF example_idle b(3), of 2] obtain c1 where
    1: "write_step example_connection (WSend ?b (Some 2, 0)) = Some c1" "backlog c1 [?b] 2 [1, 2] []" by (auto simp: b)
  have "pop_sent [?b] 0 c1 = Some c1" using backlog_pop [OF 1(2) b(3,1), of 0] by (simp add: b)
  from backlog_ready [where n = 9, OF 1(2) this 1(2) retry_partial [OF b(3,1)]] obtain c2 where
    2: "write_step c1 (WReady (Some 9, 0)) = Some c2" "backlog c2 [?b] 3 [1, 2, 3] []" by (auto simp: b)
  have "\<not> pollHandle_isWriting (ec_pollHandle example_connection)"
    using example_idle by (simp add: idle_def streaming_def)
  with 1 2 b show ?thesis
    by (simp add: backlog_def TEST_ERR_RW_RETRIABLE_def EAGAIN_def EINTR_def split: option.split)
qed

lemma connection_stream_witness:
  "\<exists>c' done pend k. write_run example_connection
      [WSend (example_buf [1, 2, 3] 7) (Some 2, 0), WReady (Some 9, 0), WReady (None, 11)] = Some c' \<and>
    [example_buf [1, 2, 3] 7] = done @ pend \<and> wired (ec_out c') = payloads done @ take k (payloads pend) \<and>
    completions (ec_out c') = called True done"
  using connection_stream [OF example_idle example_writes_ok] by auto

lemma backlog_corrupts_stream_witness:
  "\<exists>c'. write_run example_connection
      [WSend (example_buf [1, 2] 1) (Some 1, 0), WSend (example_buf [3] 2) (None, 0), WSend (example_buf [4] 3) (None, 0),
       WReady (Some 99, 0), WReady (Some 99, 0), WReady (Some 99, 0)] = Some c' \<and>
    wired (ec_out c') = [1, 2] @ replicate 64 3 \<and> completions (ec_out c') = [(True, 1), (True, 2), (True, 3)]"
proof -
  have "copies (Suc 0) = 64" by (simp add: copies_def)
  moreover have "called True [example_buf [1, 2] 1, example_buf [3] 2, example_buf [4] 3] = [(True, 1), (True, 2), (True, 3)]"
    by (simp add: example_buf_def)
  moreover have "concat (replicate 64 [3]) = replicate 64 (3 :: u8)" by (simp add: numeral_eq_Suc)
  ultimately show ?thesis
    using backlog_corrupts_stream [OF example_idle, of "example_buf [1, 2] 1" "example_buf [3] 2" "example_buf [4] 3" 1 99
        "(None, 0)" "(None, 0)"]
    by (simp add: example_buf_facts del: write_run.simps called_simps) blast
qed

text \<open>C5: Whatever the kernel answers and whenever the connection is closed, no send, write event or close of well-formed
  buffers is undefined or loops, and of every buffer sent the callback has been made exactly once or the buffer still
  waits; after the close nothing waits.\<close>

theorem every_send_completes:
  assumes "idle c" "ec_hSocket c \<noteq> -1" "1 < ec_iRefCount c" "list_all eb_wf (sent ops)"
  shows "\<exists>c'. write_run c ops = Some c' \<and>
    mset (map snd (completions (ec_out c'))) + users (ec_queueWritePending c') = users (sent ops) \<and>
    ec_iWritePending c' = int (length (ec_queueWritePending c')) \<and> 0 < ec_iRefCount c' \<and>
    (WClose \<in> set ops \<longrightarrow> ec_queueWritePending c' = [])"
proof -
  from assms have "sending c {#}" by (auto simp: idle_def streaming_def live_def sending_def accounted_def)
  from write_run_sending [OF this assms(4)] show ?thesis
    by (force simp: sending_def accounted_def split: if_splits)
qed

lemma every_send_completes_witness:
  "\<exists>c'. write_run example_connection [WSend (example_buf [1, 2] 1) (None, 104), WReady (None, 32), WClose] = Some c' \<and>
    mset (map snd (completions (ec_out c'))) = {#1#}"
proof -
  have "ec_hSocket example_connection \<noteq> -1" "1 < ec_iRefCount example_connection"
    by (simp_all add: example_connection_def acceptEventConnection_def createEventConnection_def)
  from every_send_completes [OF example_idle this, of "[WSend (example_buf [1, 2] 1) (None, 104), WReady (None, 32), WClose]"]
  obtain c' where "write_run example_connection [WSend (example_buf [1, 2] 1) (None, 104), WReady (None, 32), WClose] = Some c'"
    "mset (map snd (completions (ec_out c'))) + users (ec_queueWritePending c') = users [example_buf [1, 2] 1]"
    "ec_queueWritePending c' = []" by (auto simp: example_buf_facts)
  then show ?thesis by (simp add: users_def) (simp add: example_buf_def)
qed

text \<open>A first write that the kernel refuses for now (EAGAIN, EINTR) loses the buffer: nothing of it is sent or kept, its
  callback reports success, the buffer is released, and the connection is disconnected.\<close>

theorem refused_send_is_lost:
  assumes "idle c" "eb_wf b" "TEST_ERR_RW_RETRIABLE e"
  shows "\<exists>c'. write_step c (WSend b (None, e)) = Some c' \<and> wired (ec_out c') = [] \<and> ec_queueWritePending c' = [] \<and>
    completions (ec_out c') = called True [b] \<and> \<not> ec_hDisconnectCallback c' \<and>
    (ec_hDisconnectCallback c \<longrightarrow> DisconnectCallback \<in> set (ec_out c'))"
proof -
  let ?c = "eventConnection_addref c"
  define c1 where "c1 = (if eb_fnCallback b then emit (SendComplete True (eb_uiWriteUser b)) ?c else ?c)"
  have "sendData (None, e) b ?c = Some (-1, c1)"
    using assms by (simp add: sendData_def Let_def sys_result_def sys_writev_def send_callback_wf c1_def
        idle_def streaming_def eventConnection_addref_def)
  with assms have "write_step c (WSend b (None, e)) = Some (disconnect_callback c1\<lparr>ec_iRefCount := ec_iRefCount c\<rparr>)"
    by (simp add: eventAsyncSend_sendInLoop_def release_keeps c1_def idle_def live_def eventConnection_addref_def
        disconnect_callback_def emit_def)
  moreover have "wired (ec_out c) = []" "completions (ec_out c) = []" "ec_queueWritePending c = []"
    using assms by (simp_all add: idle_def streaming_def)
  ultimately show ?thesis
    by (auto simp: disconnect_callback_def c1_def eventConnection_addref_def wired_def completions_def List.map_filter_def)
qed

lemma refused_send_is_lost_witness:
  "\<exists>c'. write_step example_connection (WSend (example_buf [1, 2] 1) (None, 11)) = Some c' \<and> wired (ec_out c') = [] \<and>
    completions (ec_out c') = [(True, 1)]"
  using refused_send_is_lost [OF example_idle, of "example_buf [1, 2] 1" 11]
  by (auto simp: example_buf_facts TEST_ERR_RW_RETRIABLE_def EAGAIN_def called_def) (simp add: example_buf_def)+

text \<open>A send on the thread of the loop itself with a callback is undefined as soon as the kernel takes the whole buffer: the
  callback reads the connection from a field of the buffer that was never set.\<close>

theorem send_in_loop_reads_unset:
  assumes "idle c" "createEventBuf xs n True user = Some b" "n < 2 ^ 31" "nat n \<le> m"
  shows "eventConnection_send True (Some m, e) b c = None"
proof -
  from assms have b: "eb_fnCallback b" "\<not> eb_pEventConnection b" "0 < n" "nat n \<le> length xs"
    by (auto simp: createEventBuf_def bind_eq_Some_conv)
  have p: "\<not> eb_isVec b" "payload b = take (nat n) xs" "eb_wf (b\<lparr>eb_pEventConnection := True\<rparr>)"
    using createEventBuf_wf [OF assms(2,3)] by auto
  then have l: "eb_iLength b = n" "concat (eb_iov b) = take (nat n) xs"
    using send_length [OF p(3)] concat_send_iov [of b] b by (simp_all add: eb_iLength_def)
  then show ?thesis
    using assms b by (simp add: eventConnection_send_def sendData_def Let_def sys_result_def send_callback_def
        idle_def streaming_def live_def)
qed

lemma send_in_loop_reads_unset_witness:
  "eventConnection_send True (Some 5, 0) \<lparr>eb_fnCallback = True, eb_pEventConnection = False, eb_uiLength = 2,
     eb_uiWriteUser = 9, eb_szStorage = EvBytes [1, 2]\<rparr> example_connection = None"
  by (rule send_in_loop_reads_unset [OF example_idle, of "[1, 2]" 2 9]) (simp_all add: createEventBuf_def)

end
