(* ===== verification/Stream.thy ===== *)
theory Stream
  imports WebSocket Service
begin

text \<open>
  The codec streams of \<open>service/source/stream/\<close>, which a channel gives the bytes it receives and the messages it
  sends: \<open>tpackStream_t.c\<close> and \<open>webSocketStream_t.c\<close>.  Receiving turns whole frames into events for the service of the
  channel; a frame that is not final, or has no type, is handed over raw.
\<close>

section \<open>Receiving\<close>

text \<open>An event for the service: its type above the 24 bits of its length, and the bytes.\<close>

definition stream_event :: "u32 \<Rightarrow> u32 \<Rightarrow> u32 \<Rightarrow> bytes \<Rightarrow> serviceEvent" where
  "stream_event uiSourceID uiToken uiType bs =
     \<lparr>se_uiSourceID = uiSourceID, se_uiToken = uiToken, se_uiLength = of_nat (length bs) OR push_bit 24 uiType,
      se_szStorage = Inline bs\<rparr>"

definition stream_read :: "byteQueue \<Rightarrow> nat \<Rightarrow> (bytes \<times> byteQueue) option" where
  "stream_read q n = (if n > 0 then bq_read q n False else Some ([], q))"

definition stream_binary :: "u32 \<Rightarrow> byteQueue \<Rightarrow> nat \<Rightarrow> (serviceEvent \<times> byteQueue) option" where
  "stream_binary uiID q uiEventBufferLength = do {
     (bs, q) \<leftarrow> stream_read q uiEventBufferLength;
     Some (stream_event uiID 0 DEF_EVENT_BINARY bs, q) }"

definition tpackStream_event :: "u32 \<Rightarrow> byteQueue \<Rightarrow> tpackHead \<Rightarrow> (serviceEvent \<times> byteQueue) option" where
  "tpackStream_event uiID q head =
     (if th_uiFlag head AND 0x80 \<noteq> 0 \<and> th_uiFlag head \<noteq> 0x80 then do {
        (uiToken, q) \<leftarrow>
          (if th_uiOffset head > 4 then do {
             q \<leftarrow> byteQueue_readOffset q (th_uiOffset head - 4);
             (szToken, q) \<leftarrow> bq_read q 4 False;
             Some (tp_join szToken, q) }
           else do {
             q \<leftarrow> byteQueue_readOffset q (th_uiOffset head);
             Some (0, q) });
        (bs, q) \<leftarrow> stream_read q (th_uiPayloadLen head);
        Some (stream_event uiID uiToken (ucast (th_uiFlag head AND 0x70) OR DEF_EVENT_MSG) bs, q) }
      else stream_binary uiID q (th_uiOffset head + th_uiPayloadLen head))"

definition webSocketStream_event :: "u32 \<Rightarrow> byteQueue \<Rightarrow> webSocketHead \<Rightarrow> (serviceEvent \<times> byteQueue) option" where
  "webSocketStream_event uiID q head =
     (if wh_uiFlag head AND 0x80 \<noteq> 0 \<and> wh_uiFlag head \<noteq> 0x80 then do {
        (szMask, q) \<leftarrow>
          (if wh_uiOffset head > 4 then do {
             q \<leftarrow> byteQueue_readOffset q (wh_uiOffset head - 4);
             bq_read q 4 False }
           else do {
             q \<leftarrow> byteQueue_readOffset q (wh_uiOffset head);
             Some ([], q) });
        (bs, q) \<leftarrow> stream_read q (wh_uiPayloadLen head);
        bs \<leftarrow> (if wh_uiPayloadLen head > 0 \<and> wh_uiOffset head > 4
               then do { b \<leftarrow> unMask (map Some bs) (wh_uiPayloadLen head) szMask; those b }
               else Some bs);
        Some (stream_event uiID 0 (ucast (wh_uiFlag head AND 0x70) OR DEF_EVENT_MSG) bs, q) }
      else stream_binary uiID q (wh_uiOffset head + wh_uiPayloadLen head))"

text \<open>The loops; \<open>bRunning\<close> says for the n-th event of the call whether the service still takes it.  \<open>None\<close> is undefined
  behaviour or a loop that does not end.\<close>

partial_function (option) tpackStream_receive ::
  "(nat \<Rightarrow> bool) \<Rightarrow> u32 \<Rightarrow> tpackHead \<Rightarrow> serviceEvent list \<Rightarrow> byteQueue \<Rightarrow> (bool \<times> serviceEvent list \<times> byteQueue) option"
  where
  "tpackStream_receive bRunning uiID head evs q =
     (if byteQueue_getBytesReadable q \<ge> 2 then do {
        (r, head) \<leftarrow> tpack_decodeHead q head;
        if r = 0 then Some (True, evs, q)
        else if r = -1 then Some (False, evs, q)
        else do {
          (pEvent, q) \<leftarrow> tpackStream_event uiID q head;
          if fst (service_enqueue (bRunning (length evs)) pEvent)
          then tpackStream_receive bRunning uiID head (evs @ snd (service_enqueue (bRunning (length evs)) pEvent)) q
          else Some (False, evs, q) } }
      else Some (True, evs, q))"

partial_function (option) webSocketStream_receive ::
  "(nat \<Rightarrow> bool) \<Rightarrow> u32 \<Rightarrow> webSocketHead \<Rightarrow> serviceEvent list \<Rightarrow> byteQueue \<Rightarrow> (bool \<times> serviceEvent list \<times> byteQueue) option"
  where
  "webSocketStream_receive bRunning uiID head evs q =
     (if byteQueue_getBytesReadable q \<ge> 2 then do {
        (r, head) \<leftarrow> webSocket_decodeHead q head;
        if r = 0 then Some (True, evs, q)
        else if r = -1 then Some (False, evs, q)
        else do {
          (pEvent, q) \<leftarrow> webSocketStream_event uiID q head;
          if fst (service_enqueue (bRunning (length evs)) pEvent)
          then webSocketStream_receive bRunning uiID head (evs @ snd (service_enqueue (bRunning (length evs)) pEvent)) q
          else Some (False, evs, q) } }
      else Some (True, evs, q))"

section \<open>What a stream makes of the bytes\<close>

text \<open>The events of a frame, from its parts and its raw bytes.\<close>

definition tp_event :: "u32 \<Rightarrow> tp_msg \<Rightarrow> bytes \<Rightarrow> serviceEvent" where
  "tp_event uiID m raw =
     (if tp_uiFlag m AND 0x80 \<noteq> 0 \<and> tp_uiFlag m \<noteq> 0x80
      then stream_event uiID (tp_uiToken m) (ucast (tp_uiFlag m AND 0x70) OR DEF_EVENT_MSG) (tp_payload m)
      else stream_event uiID 0 DEF_EVENT_BINARY raw)"

definition ws_event :: "u32 \<Rightarrow> ws_msg \<Rightarrow> bytes \<Rightarrow> serviceEvent" where
  "ws_event uiID m raw =
     (if ws_uiFlag m AND 0x80 \<noteq> 0 \<and> ws_uiFlag m \<noteq> 0x80
      then stream_event uiID 0 (ucast (ws_uiFlag m AND 0x70) OR DEF_EVENT_MSG) (ws_payload m)
      else stream_event uiID 0 DEF_EVENT_BINARY raw)"

text \<open>A parser that keeps a function of each frame and of its raw bytes.\<close>

definition frame_with :: "('a \<Rightarrow> bytes \<Rightarrow> 'b) \<Rightarrow> (bytes \<Rightarrow> 'a frame) \<Rightarrow> bytes \<Rightarrow> 'b frame" where
  "frame_with f parse bs =
     (case parse bs of FrameNeed \<Rightarrow> FrameNeed | FrameBad \<Rightarrow> FrameBad
      | FrameGot a rest \<Rightarrow> FrameGot (f a (take (length bs - length rest) bs)) rest)"

lemma frame_with_map: "frame_with f parse = (\<lambda>bs. map_frame (case_prod f) (frame_with Pair parse bs))"
  by (rule ext) (simp add: frame_with_def split: frame.split)

lemma drain_map: "drain (\<lambda>bs. map_frame g (p bs)) n bs = map_prod (map g) (\<lambda>r. r) (drain p n bs)"
  by (induction n arbitrary: bs) (simp_all add: Let_def split: frame.split prod.splits)

lemma feed_map: "feed (\<lambda>bs. map_frame g (p bs)) bs cs = map_prod (map g) (\<lambda>r. r) (feed p bs cs)"
  by (induction cs arbitrary: bs) (simp_all add: drain_map Let_def split: prod.splits)

context framing
begin

lemma raw_framing: "framing snd (\<lambda>(a, bs). ok a \<and> bs = enc a) (frame_with Pair parse)"
  by unfold_locales (auto simp: frame_with_def whole partial empty)

lemma chunking_with:
  assumes "list_all ok as" "concat cs = concat (map enc as)"
  shows "feed (frame_with f parse) [] cs = (map (\<lambda>a. f a (enc a)) as, [])"
proof -
  have "list_all (\<lambda>(a, bs). ok a \<and> bs = enc a) (map (\<lambda>a. (a, enc a)) as)"
    using assms(1) by (simp add: list_all_iff)
  from framing.chunking_independent [OF raw_framing this, of cs] assms(2) show ?thesis
    by (subst frame_with_map) (simp add: feed_map comp_def)
qed

end

section \<open>The contract of a codec stream\<close>

text \<open>A receive loop over a decoder of heads and a function that takes a frame off the queue as an event: on any bytes the
  two do what a frame parser says.\<close>

locale codec_stream =
  fixes receive :: "(nat \<Rightarrow> bool) \<Rightarrow> u32 \<Rightarrow> 'h \<Rightarrow> serviceEvent list \<Rightarrow> byteQueue \<Rightarrow> (bool \<times> serviceEvent list \<times> byteQueue) option"
    and decode :: "byteQueue \<Rightarrow> 'h \<Rightarrow> (int \<times> 'h) option"
    and event :: "u32 \<Rightarrow> byteQueue \<Rightarrow> 'h \<Rightarrow> (serviceEvent \<times> byteQueue) option"
    and parse :: "u32 \<Rightarrow> bytes \<Rightarrow> serviceEvent frame"
  assumes loop: "receive run uiID h evs q =
      (if byteQueue_getBytesReadable q \<ge> 2 then do {
         (r, h) \<leftarrow> decode q h;
         if r = 0 then Some (True, evs, q)
         else if r = -1 then Some (False, evs, q)
         else do {
           (e, q) \<leftarrow> event uiID q h;
           if fst (service_enqueue (run (length evs)) e)
           then receive run uiID h (evs @ snd (service_enqueue (run (length evs)) e)) q
           else Some (False, evs, q) } }
       else Some (True, evs, q))"
    and decode_law: "bq_rep q xs \<Longrightarrow> \<exists>r h'. decode q h = Some (r, h') \<and>
      (case parse uiID xs of FrameNeed \<Rightarrow> r = 0 | FrameBad \<Rightarrow> r = -1
       | FrameGot e rest \<Rightarrow> r = 1 \<and> length rest < length xs \<and> (\<exists>q'. event uiID q h' = Some (e, q') \<and> bq_rep q' rest))"
    and short: "length xs < 2 \<Longrightarrow> parse uiID xs = FrameNeed"
begin

lemma receive_need: "bq_rep q xs \<Longrightarrow> parse uiID xs = FrameNeed \<Longrightarrow> receive run uiID h evs q = Some (True, evs, q)"
  using decode_law [of q xs h uiID] by (subst loop) auto

lemma receive_bad: "bq_rep q xs \<Longrightarrow> parse uiID xs = FrameBad \<Longrightarrow> receive run uiID h evs q = Some (False, evs, q)"
  using decode_law [of q xs h uiID] short [of xs uiID]
  by (subst loop) (cases "length xs < 2"; auto simp: rep_readable)

lemma receive_got:
  assumes "bq_rep q xs" "parse uiID xs = FrameGot e rest"
  obtains q' h' where "bq_rep q' rest" "length rest < length xs"
    "receive run uiID h evs q = (if run (length evs) then receive run uiID h' (evs @ [e]) q' else Some (False, evs, q'))"
proof -
  from decode_law [OF assms(1), of h uiID] assms(2) obtain h' q' where
    d: "decode q h = Some (1, h')" "event uiID q h' = Some (e, q')" "bq_rep q' rest" "length rest < length xs" by auto
  have "\<not> length xs < 2" using short [of xs uiID] assms(2) by auto
  then have "receive run uiID h evs q =
      (if run (length evs) then receive run uiID h' (evs @ [e]) q' else Some (False, evs, q'))"
    by (subst loop) (simp add: d rep_readable [OF assms(1)] service_enqueue_def)
  with that [OF d(3,4)] show ?thesis by blast
qed

lemma receive_drain:
  assumes "bq_rep q xs" "length xs \<le> n" "\<And>k. run k" "drain (parse uiID) n xs = (es, rest)"
  shows "\<exists>q'. receive run uiID h evs q = Some (parse uiID rest \<noteq> FrameBad, evs @ es, q') \<and> bq_rep q' rest"
  using assms(1,2,4)
proof (induction n arbitrary: xs q es h evs)
  case 0
  then show ?case using receive_need [OF 0(1), of uiID] short [of xs uiID] by auto
next
  case (Suc n)
  show ?case
  proof (cases "parse uiID xs")
    case FrameNeed
    with Suc.prems receive_need [OF Suc.prems(1)] show ?thesis by auto
  next
    case FrameBad
    with Suc.prems receive_bad [OF Suc.prems(1)] show ?thesis by auto
  next
    case (FrameGot e ys)
    then obtain es' where es: "es = e # es'" "drain (parse uiID) n ys = (es', rest)"
      using Suc.prems(3) by (auto split: prod.splits)
    obtain q' h' where q': "bq_rep q' ys" "length ys < length xs"
      "receive run uiID h evs q = receive run uiID h' (evs @ [e]) q'"
      using receive_got [OF Suc.prems(1) FrameGot, of run h evs] by (metis assms(3))
    with Suc.IH [of q' ys es' h' "evs @ [e]"] Suc.prems(2) es show ?thesis by auto
  qed
qed

text \<open>What is left does not begin with a whole frame.\<close>

lemma parse_shorter: "parse uiID xs = FrameGot e rest \<Longrightarrow> length rest < length xs"
proof -
  assume p: "parse uiID xs = FrameGot e rest"
  have "bq_rep (byteQueue_init 1) []" using init_cells [of 1] by (simp add: bq_rep_def)
  then obtain q where "bq_rep q xs" using rep_write [of "byteQueue_init 1" "[]" xs] by (cases xs) auto
  from decode_law [OF this, of undefined uiID] p show ?thesis by auto
qed

lemma drain_stops: "length xs \<le> n \<Longrightarrow> drain (parse uiID) n xs = (es, rest) \<Longrightarrow> parse uiID rest \<noteq> FrameGot e ys"
proof (induction n arbitrary: xs es)
  case 0
  then show ?case using short [of "[]"] by auto
next
  case (Suc n)
  show ?case
  proof (cases "parse uiID xs")
    case (FrameGot e' zs)
    with Suc.prems obtain es' where "drain (parse uiID) n zs = (es', rest)" by (auto split: prod.splits)
    with Suc.IH [of zs] parse_shorter [OF FrameGot] Suc.prems(1) show ?thesis by simp
  qed (use Suc.prems in auto)
qed

text \<open>When the service stops taking events the loop ends there; the frame of the refused event is off the queue.\<close>

lemma receive_refused:
  assumes "bq_rep q xs" "drain (parse uiID) n xs = (es, rest)" "k < length es" "\<not> run (length evs + k)"
    "\<And>j. j < k \<Longrightarrow> run (length evs + j)"
  shows "\<exists>q'. receive run uiID h evs q = Some (False, evs @ take k es, q') \<and>
    bq_rep q' (snd (drain (parse uiID) (Suc k) xs))"
  using assms
proof (induction k arbitrary: xs q es h evs n)
  case 0
  then obtain n' e ys where e: "n = Suc n'" "parse uiID xs = FrameGot e ys"
    by (cases n) (auto split: frame.splits prod.splits)
  from receive_got [OF 0(1) e(2), of run h evs] 0(4) e show ?case by auto
next
  case (Suc k)
  then obtain n' e ys es' where e: "n = Suc n'" "parse uiID xs = FrameGot e ys" "es = e # es'"
      "drain (parse uiID) n' ys = (es', rest)"
    by (cases n) (auto split: frame.splits prod.splits)
  obtain q' h' where q': "bq_rep q' ys" "receive run uiID h evs q = receive run uiID h' (evs @ [e]) q'"
    using receive_got [OF Suc.prems(1) e(2), of run h evs] Suc.prems(5) [of 0]
    by (metis add_0_right zero_less_Suc)
  have "run (length (evs @ [e]) + j)" if "j < k" for j using Suc.prems(5) [of "Suc j"] that by simp
  with Suc.IH [OF q'(1) e(4), of "evs @ [e]" h'] Suc.prems(3,4) e(2,3) q'(2) show ?case
    by (auto simp del: drain.simps) (auto split: prod.splits)
qed

end

text \<open>The bytes of a frame, taken off the queue in the two ways of the loops.\<close>

lemma stream_read_rep:
  "bq_rep q xs \<Longrightarrow> n \<le> length xs \<Longrightarrow> \<exists>q'. stream_read q n = Some (take n xs, q') \<and> bq_rep q' (drop n xs)"
  using bq_read_take [of q xs n] by (auto simp: stream_read_def)

lemma stream_binary_rep:
  "bq_rep q xs \<Longrightarrow> n \<le> length xs \<Longrightarrow>
   \<exists>q'. stream_binary uiID q n = Some (stream_event uiID 0 DEF_EVENT_BINARY (take n xs), q') \<and> bq_rep q' (drop n xs)"
  using stream_read_rep [of q xs n] by (auto simp: stream_binary_def)

text \<open>The head of \<open>h\<close> bytes: four of them, the last, are kept when there are more than 4.\<close>

lemma head_read:
  assumes "bq_rep q xs" "h \<in> {2, 4, 6, 8}" "h \<le> length xs"
  shows "h > 4 \<Longrightarrow> \<exists>q1 q'. byteQueue_readOffset q (h - 4) = Some q1 \<and>
      bq_read q1 4 False = Some (take 4 (drop (h - 4) xs), q') \<and> bq_rep q' (drop h xs)"
    "\<not> h > 4 \<Longrightarrow> \<exists>q'. byteQueue_readOffset q h = Some q' \<and> bq_rep q' (drop h xs)"
proof -
  assume h: "h > 4"
  have "h - 4 \<le> length xs" using assms(3) by linarith
  from rep_readOffset [OF assms(1) this] obtain q1 where
    q1: "byteQueue_readOffset q (h - 4) = Some q1" "bq_rep q1 (drop (h - 4) xs)" by auto
  have "4 \<le> length (drop (h - 4) xs)" using assms(3) h by auto
  from bq_read_take [OF q1(2) _ this] h q1(1) show "\<exists>q1 q'. byteQueue_readOffset q (h - 4) = Some q1 \<and>
      bq_read q1 4 False = Some (take 4 (drop (h - 4) xs), q') \<and> bq_rep q' (drop h xs)" by auto
qed (use rep_readOffset [OF assms(1,3)] in auto)

lemma tp_join_take: "tp_join (take 4 ys) = tp_join ys"
  by (simp add: tp_join_def)

lemma frame_bytes: "h + n \<le> length xs \<Longrightarrow> take (length xs - length (drop (h + n) xs)) xs = take (h + n) xs"
  by simp

lemma tpackStream_event_rep:
  assumes "bq_rep q xs" "head_agrees xs 1 head (FrameGot m rest)"
  shows "\<exists>q'. tpackStream_event uiID q head = Some (tp_event uiID m (take (length xs - length rest) xs), q') \<and> bq_rep q' rest"
proof -
  let ?h = "th_uiOffset head" and ?n = "th_uiPayloadLen head"
  from assms(2) have a: "?h \<in> {2, 4, 6, 8}" "?h + ?n \<le> length xs" "th_uiFlag head = tp_uiFlag m"
    "tp_payload m = take ?n (drop ?h xs)" "rest = drop (?h + ?n) xs"
    "tp_uiToken m = (if ?h > 4 then tp_join (drop (?h - 4) xs) else 0)"
    by (simp_all add: head_agrees_def Let_def)
  show ?thesis
  proof (cases "th_uiFlag head AND 0x80 \<noteq> 0 \<and> th_uiFlag head \<noteq> 0x80")
    case False
    with stream_binary_rep [OF assms(1) a(2)] frame_bytes [OF a(2)] a(3,5) show ?thesis
      by (auto simp: tpackStream_event_def tp_event_def)
  next
    case True
    have l: "?h \<le> length xs" "?n \<le> length (drop ?h xs)" using a(2) by auto
    obtain q1 where q1: "(if ?h > 4 then do {
             q \<leftarrow> byteQueue_readOffset q (?h - 4);
             (szToken, q) \<leftarrow> bq_read q 4 False;
             Some (tp_join szToken, q) }
           else do {
             q \<leftarrow> byteQueue_readOffset q ?h;
             Some (0, q) }) = Some (tp_uiToken m, q1)" "bq_rep q1 (drop ?h xs)"
      using head_read [OF assms(1) a(1) l(1)] by (cases "?h > 4") (auto simp: a(6) tp_join_take)
    from stream_read_rep [OF q1(2) l(2)] obtain q2 where
      "stream_read q1 ?n = Some (tp_payload m, q2)" "bq_rep q2 rest" by (auto simp: a(4,5) add.commute)
    with True a(3) show ?thesis unfolding tpackStream_event_def q1(1) by (simp add: tp_event_def)
  qed
qed

lemma webSocketStream_event_rep:
  assumes "bq_rep q xs" "ws_head_agrees xs 1 head (FrameGot m rest)"
  shows "\<exists>q'. webSocketStream_event uiID q head = Some (ws_event uiID m (take (length xs - length rest) xs), q') \<and> bq_rep q' rest"
proof -
  let ?h = "wh_uiOffset head" and ?n = "wh_uiPayloadLen head"
  from assms(2) have a: "?h \<in> {2, 4, 6, 8}" "?h + ?n \<le> length xs" "wh_uiFlag head = ws_uiFlag m"
    "ws_payload m = (if ?h > 4 then ws_mask (take 4 (drop (?h - 4) xs)) (take ?n (drop ?h xs)) else take ?n (drop ?h xs))"
    "rest = drop (?h + ?n) xs"
    by (simp_all add: ws_head_agrees_def Let_def)
  show ?thesis
  proof (cases "wh_uiFlag head AND 0x80 \<noteq> 0 \<and> wh_uiFlag head \<noteq> 0x80")
    case False
    with stream_binary_rep [OF assms(1) a(2)] frame_bytes [OF a(2)] a(3,5) show ?thesis
      by (auto simp: webSocketStream_event_def ws_event_def)
  next
    case True
    have l: "?h \<le> length xs" "?n \<le> length (drop ?h xs)" using a(2) by auto
    let ?mask = "if ?h > 4 then take 4 (drop (?h - 4) xs) else []"
    obtain q1 where q1: "(if ?h > 4 then do {
             q \<leftarrow> byteQueue_readOffset q (?h - 4);
             bq_read q 4 False }
           else do {
             q \<leftarrow> byteQueue_readOffset q ?h;
             Some ([], q) }) = Some (?mask, q1)" "bq_rep q1 (drop ?h xs)"
      using head_read [OF assms(1) a(1) l(1)] by (cases "?h > 4") auto
    from stream_read_rep [OF q1(2) l(2)] obtain q2 where
      q2: "stream_read q1 ?n = Some (take ?n (drop ?h xs), q2)" "bq_rep q2 rest" by (auto simp: a(5) add.commute)
    have n: "length (take ?n (drop ?h xs)) = ?n" using l(2) by simp
    have "(if ?n > 0 \<and> ?h > 4
        then do { b \<leftarrow> unMask (map Some (take ?n (drop ?h xs))) ?n ?mask; those b }
        else Some (take ?n (drop ?h xs))) = Some (ws_payload m)"
    proof (cases "?n > 0 \<and> ?h > 4")
      case True
      then show ?thesis using unMask_bytes [of "take ?n (drop ?h xs)" ?mask] n by (simp add: a(4) del: take_drop)
    next
      case False
      then show ?thesis by (auto simp: a(4) ws_mask_def)
    qed
    with q2 True a(3) show ?thesis
      unfolding webSocketStream_event_def q1(1) by (simp add: ws_event_def)
  qed
qed

definition tp_event_parse :: "u32 \<Rightarrow> bytes \<Rightarrow> serviceEvent frame" where
  "tp_event_parse uiID = frame_with (tp_event uiID) tp_parse"

definition ws_event_parse :: "u32 \<Rightarrow> bytes \<Rightarrow> serviceEvent frame" where
  "ws_event_parse uiID = frame_with (ws_event uiID) ws_parse"

interpretation tpackStream: codec_stream tpackStream_receive tpack_decodeHead tpackStream_event tp_event_parse
proof
  show "\<exists>r h'. tpack_decodeHead q h = Some (r, h') \<and>
      (case tp_event_parse uiID xs of FrameNeed \<Rightarrow> r = 0 | FrameBad \<Rightarrow> r = -1
       | FrameGot e rest \<Rightarrow> r = 1 \<and> length rest < length xs \<and>
           (\<exists>q'. tpackStream_event uiID q h' = Some (e, q') \<and> bq_rep q' rest))" if "bq_rep q xs" for q xs h uiID
  proof -
    from decodeHead_rep [OF that, of h] obtain r h' where
      d: "tpack_decodeHead q h = Some (r, h')" "head_agrees xs r h' (tp_parse xs)" by blast
    show ?thesis
    proof (cases "tp_parse xs")
      case (FrameGot m rest)
      with d(2) have "r = 1" "head_agrees xs 1 h' (FrameGot m rest)" "length rest < length xs"
        by (auto simp: head_agrees_def Let_def)
      with tpackStream_event_rep [OF that this(2), of uiID] FrameGot d(1) show ?thesis
        by (simp add: tp_event_parse_def frame_with_def)
    qed (use d in \<open>auto simp: tp_event_parse_def frame_with_def head_agrees_def\<close>)
  qed
qed (subst tpackStream_receive.simps, simp, simp add: tp_event_parse_def frame_with_def tp_parse_def)

interpretation webSocketStream: codec_stream webSocketStream_receive webSocket_decodeHead webSocketStream_event ws_event_parse
proof
  show "\<exists>r h'. webSocket_decodeHead q h = Some (r, h') \<and>
      (case ws_event_parse uiID xs of FrameNeed \<Rightarrow> r = 0 | FrameBad \<Rightarrow> r = -1
       | FrameGot e rest \<Rightarrow> r = 1 \<and> length rest < length xs \<and>
           (\<exists>q'. webSocketStream_event uiID q h' = Some (e, q') \<and> bq_rep q' rest))" if "bq_rep q xs" for q xs h uiID
  proof -
    from ws_decodeHead_rep [OF that, of h] obtain r h' where
      d: "webSocket_decodeHead q h = Some (r, h')" "ws_head_agrees xs r h' (ws_parse xs)" by blast
    show ?thesis
    proof (cases "ws_parse xs")
      case (FrameGot m rest)
      with d(2) have "r = 1" "ws_head_agrees xs 1 h' (FrameGot m rest)" "length rest < length xs"
        by (auto simp: ws_head_agrees_def Let_def)
      with webSocketStream_event_rep [OF that this(2), of uiID] FrameGot d(1) show ?thesis
        by (simp add: ws_event_parse_def frame_with_def)
    qed (use d in \<open>auto simp: ws_event_parse_def frame_with_def ws_head_agrees_def\<close>)
  qed
qed (subst webSocketStream_receive.simps, simp, simp add: ws_event_parse_def frame_with_def ws_parse_def)

section \<open>Properties\<close>

text \<open>C24: On a queue that holds any bytes both receive loops end and are safe: the service gets the event of every whole
  frame at the front, in order (a final typed frame as a message with its token and its unmasked payload, any other
  one raw), the bytes behind stay in the queue, and the result is \<open>false\<close> exactly when they are not a frame.\<close>

theorem codec_streams_receive:
  assumes "bq_rep q xs"
  shows "(\<exists>es rest q'. drain (tp_event_parse uiID) (length xs) xs = (es, rest) \<and>
      tpackStream_receive (\<lambda>_. True) uiID h evs q = Some (tp_event_parse uiID rest \<noteq> FrameBad, evs @ es, q') \<and>
      bq_rep q' rest \<and> (\<nexists>e r. tp_event_parse uiID rest = FrameGot e r)) \<and>
    (\<exists>es rest q'. drain (ws_event_parse uiID) (length xs) xs = (es, rest) \<and>
      webSocketStream_receive (\<lambda>_. True) uiID h' evs q = Some (ws_event_parse uiID rest \<noteq> FrameBad, evs @ es, q') \<and>
      bq_rep q' rest \<and> (\<nexists>e r. ws_event_parse uiID rest = FrameGot e r))"
proof -
  obtain es rest where d: "drain (tp_event_parse uiID) (length xs) xs = (es, rest)" by fastforce
  obtain es' rest' where d': "drain (ws_event_parse uiID) (length xs) xs = (es', rest')" by fastforce
  from tpackStream.receive_drain [where run = "\<lambda>_. True", OF assms order_refl TrueI d, of h evs]
    tpackStream.drain_stops [OF order_refl d]
    webSocketStream.receive_drain [where run = "\<lambda>_. True", OF assms order_refl TrueI d', of h' evs]
    webSocketStream.drain_stops [OF order_refl d'] d d' show ?thesis by simp
qed

lemma codec_streams_receive_witness:
  "\<exists>q q'. byteQueue_write (byteQueue_init 4) [0x81, 2, 7, 8, 0x02, 1, 5, 0x81] = Some q \<and> bq_rep q' [0x81] \<and>
     tpackStream_receive (\<lambda>_. True) 9 \<lparr>th_uiPayloadLen = 0, th_uiFlag = 0, th_uiOffset = 0\<rparr> [] q =
       Some (True, [stream_event 9 0 (0x10 OR DEF_EVENT_MSG) [7, 8], stream_event 9 0 DEF_EVENT_BINARY [2, 1, 5]], q')"
proof -
  let ?xs = "[0x81, 2, 7, 8, 0x02, 1, 5, 0x81] :: bytes"
  have "bq_rep (byteQueue_init 4) []" using init_cells [of 4] by (simp add: bq_rep_def)
  from rep_write [OF this, of ?xs] obtain q where
    q: "byteQueue_write (byteQueue_init 4) ?xs = Some q" "bq_rep q ?xs" by auto
  have "drain (tp_event_parse 9) (length ?xs) ?xs =
      ([stream_event 9 0 (0x10 OR DEF_EVENT_MSG) [7, 8], stream_event 9 0 DEF_EVENT_BINARY [2, 1, 5]], [0x81])"
    and "tp_event_parse 9 [0x81] \<noteq> FrameBad"
    by (simp_all add: tp_event_parse_def frame_with_def tp_parse_def tp_flag_def tp_body_def tp_has_token_def tp_event_def)
  with codec_streams_receive [OF q(2), of 9 "\<lparr>th_uiPayloadLen = 0, th_uiFlag = 0, th_uiOffset = 0\<rparr>" "[]"
      "\<lparr>wh_uiPayloadLen = 0, wh_uiFlag = 0, wh_uiOffset = 0\<rparr>"] q(1) show ?thesis by auto
qed

end
