(* ===== verification/StreamConnection.thy ===== *)
theory StreamConnection
  imports Stream ConnectionSend
begin

text \<open>
  A connection that carries the frames of a codec stream.  What \<open>eventConnection_handleRecv\<close> does to the byte queue,
  the receive callback that \<open>channel_t.c\<close> sets, what comes out of a sequence of reads however they cut the stream,
  and the sending functions of \<open>tpackStream_t.c\<close> and \<open>webSocketStream_t.c\<close>.
\<close>

section \<open>Receiving into the queue\<close>

text \<open>The kernel writes into the same places as a write of the queue would, and the rest into the receive buffer.\<close>

lemma scatter_put:
  assumes "bq_shape q" "0 < byteQueue_getBytesWritable q"
  shows "\<exists>b. scatter (fst (recv_regions q)) xs (bq_pBuffer q) = Some (b, drop (byteQueue_getBytesWritable q) xs) \<and>
    byteQueue_put q (take (byteQueue_getBytesWritable q) xs) =
      byteQueue_advance (q\<lparr>bq_pBuffer := b\<rparr>) (length (take (byteQueue_getBytesWritable q) xs))"
proof -
  obtain w n W where p: "byteQueue_peekContiguousBytesWrite q = (w, n)" "W = byteQueue_getBytesWritable q" by fastforce
  then have wn: "w + n \<le> length (bq_pBuffer q)" "n \<le> W" "W - n \<le> length (bq_pBuffer q)"
    using assms(1) by (auto simp: byteQueue_peekContiguousBytesWrite_def byteQueue_getBytesWritable_def bq_shape_def split: if_splits)
  have W: "0 < W" using assms(2) p by simp
  show ?thesis
  proof (cases "n = W")
    case True
    then have r: "fst (recv_regions q) = [(w, W)]" using p W by (simp add: recv_regions_def Let_def)
    have "length (take W xs) \<le> n" "w + length (take W xs) \<le> length (bq_pBuffer q)" using True wn by auto
    then show ?thesis unfolding p(2) [symmetric]
      using p(1) by (simp add: r byteQueue_put_def mem_store_def Let_def)
  next
    case False
    then have r: "fst (recv_regions q) = [(w, n), (0, W - n)]" using p W by (simp add: recv_regions_def Let_def)
    have d: "drop (W - n) (drop n xs) = drop W xs" "drop n (take W xs) = take (W - n) (drop n xs)"
      "take n (take W xs) = take n xs"
      using wn(2) by (simp_all add: drop_take min_def)
    show ?thesis
    proof (cases "length (take W xs) \<le> n")
      case True
      then have "take W xs = take n xs" "drop n xs = []" using wn(2) False by auto
      then show ?thesis unfolding p(2) [symmetric] using True p(1) wn
        by (simp add: r byteQueue_put_def mem_store_def Let_def)
    next
      case False
      then show ?thesis unfolding p(2) [symmetric] using p(1) wn d
        by (simp add: r byteQueue_put_def mem_store_def Let_def)
    qed
  qed
qed

lemma put_rep:
  assumes "bq_rep q xs" "ys \<noteq> []" "length ys \<le> byteQueue_getBytesWritable q"
  shows "\<exists>q'. byteQueue_put q ys = Some q' \<and> bq_rep q' (xs @ ys)"
  using put_appends [of q ys] assms by (auto simp: bq_rep_def)

lemma writeBytes_rep:
  "bq_rep q xs \<Longrightarrow> ys \<noteq> [] \<Longrightarrow> \<exists>q'. byteQueue_writeBytes q ys = Some q' \<and> bq_rep q' (xs @ ys)"
  using writeBytes_appended [of q ys] by (auto simp: bq_appended_def bq_rep_def)

lemma writable_buffer [simp]: "byteQueue_getBytesWritable (q\<lparr>bq_pBuffer := b\<rparr>) = byteQueue_getBytesWritable q"
  by (simp add: byteQueue_getBytesWritable_def)

lemma recv_space_ge: "65536 \<le> recv_space q"
  by (auto simp: recv_space_def recv_regions_def g_nRecvBufferMaxLength_def Let_def split: prod.splits)

text \<open>What \<open>handleRecv\<close> adds to the queue is what was received, wherever it was put.\<close>

lemma handleRecv_rep:
  assumes "bq_rep (ec_readByteQueue c) xs" "ys \<noteq> []" "length ys \<le> recv_space (ec_readByteQueue c)"
  shows "\<exists>q'. bq_rep q' (xs @ ys) \<and> handleRecv fn (Received ys) c = receive_callback fn (c\<lparr>ec_readByteQueue := q'\<rparr>)"
proof -
  let ?q = "ec_readByteQueue c" and ?W = "byteQueue_getBytesWritable (ec_readByteQueue c)"
  have s: "bq_shape ?q" using assms(1) by (simp add: bq_rep_def)
  show ?thesis
  proof (cases "?W = 0")
    case True
    then have "scatter (fst (recv_regions ?q)) ys (bq_pBuffer ?q) = Some (bq_pBuffer ?q, ys)" by (simp add: recv_regions_def)
    with True writeBytes_rep [OF assms(1,2)] assms(2,3) show ?thesis by (auto simp: handleRecv_def)
  next
    case False
    then obtain b where b: "scatter (fst (recv_regions ?q)) ys (bq_pBuffer ?q) = Some (b, drop ?W ys)"
      "byteQueue_put ?q (take ?W ys) = byteQueue_advance (?q\<lparr>bq_pBuffer := b\<rparr>) (length (take ?W ys))"
      using scatter_put [OF s] by blast
    have "take ?W ys \<noteq> []" "length (take ?W ys) \<le> ?W" using False assms(2) by auto
    from put_rep [OF assms(1) this] b(2) obtain q1 where
      q1: "byteQueue_advance (?q\<lparr>bq_pBuffer := b\<rparr>) (length (take ?W ys)) = Some q1" "bq_rep q1 (xs @ take ?W ys)" by auto
    show ?thesis
    proof (cases "length ys \<le> ?W")
      case True
      with b q1 assms(2,3) show ?thesis by (auto simp: handleRecv_def byteQueue_writeOffset_def)
    next
      case long: False
      then have "drop ?W ys \<noteq> []" "length (take ?W ys) = ?W" by auto
      with writeBytes_rep [OF q1(2) this(1)] q1(1) b long False assms(2,3) show ?thesis
        by (auto simp: handleRecv_def byteQueue_writeOffset_def)
    qed
  qed
qed

lemma reserve_rep: "bq_rep q xs \<Longrightarrow> \<exists>q'. byteQueue_reserve q n = Some q' \<and> bq_rep q' xs"
  using reserve_cells [of q n] by (auto simp: bq_rep_def)

text \<open>The shrinking after the callback keeps the bytes.\<close>

lemma receive_callback_rep:
  assumes "ec_fnReceiveCallback c" "fn (ec_readByteQueue c) = Some (ok, evs, q)" "bq_rep q xs"
  shows "\<exists>q'. bq_rep q' xs \<and>
    receive_callback fn c = Some (ok, c\<lparr>ec_out := ec_out c @ map Posted evs, ec_readByteQueue := q'\<rparr>)"
proof -
  obtain q' where q': "byteQueue_reserve q (max (if ec_bTcp c then 256 else MAXIMUM_MTU_SIZE) (byteQueue_getCapacity q div 2))
      = Some q'" "bq_rep q' xs" using reserve_rep [OF assms(3)] by blast
  show ?thesis
  proof (cases "ok \<and> byteQueue_getBytesReadable (ec_readByteQueue c) * 2 < byteQueue_getCapacity q")
    case True
    then show ?thesis using assms(1,2) q' by (intro exI [of _ q']) (simp add: receive_callback_def)
  next
    case False
    then show ?thesis using assms by (intro exI [of _ q]) (auto simp: receive_callback_def Let_def)
  qed
qed

section \<open>A connection that receives a stream\<close>

lemma attr_read_closed: "ePollerReadable AND ePollerClosed = 0"
  by (simp add: poller_attr_defs)

text \<open>The receive callback of a channel: the codec stream, or one event with all the bytes.  The head that the loops
  start with is not initialised in the code; they read it only after a decoder has filled it.\<close>

datatype codecStream = TpackStream | WebSocketStream

definition eventConnection_onReceiveCallback :: "codecStream option \<Rightarrow> (nat \<Rightarrow> bool) \<Rightarrow> u32 \<Rightarrow> receiver" where
  "eventConnection_onReceiveCallback pCodecStream bRunning uiID q =
     (case pCodecStream of
        Some TpackStream \<Rightarrow> tpackStream_receive bRunning uiID \<lparr>th_uiPayloadLen = 0, th_uiFlag = 0, th_uiOffset = 0\<rparr> [] q
      | Some WebSocketStream \<Rightarrow>
          webSocketStream_receive bRunning uiID \<lparr>wh_uiPayloadLen = 0, wh_uiFlag = 0, wh_uiOffset = 0\<rparr> [] q
      | None \<Rightarrow> do {
          (pEvent, q) \<leftarrow> stream_binary uiID q (byteQueue_getBytesReadable q);
          let (ok, evs) = service_enqueue (bRunning 0) pEvent;
          Some (ok, evs, q) })"

definition read_env :: "receiver \<Rightarrow> bytes \<Rightarrow> conn_env" where
  "read_env fn xs = \<lparr>env_send = (None, EAGAIN), env_recv = Received xs, env_connected = True, env_fnReceive = fn\<rparr>"

text \<open>The socket becomes readable, once for each chunk that the kernel has.\<close>

fun recv_run :: "receiver \<Rightarrow> eventConnection \<Rightarrow> bytes list \<Rightarrow> eventConnection option" where
  "recv_run fn c [] = Some c"
| "recv_run fn c (x # xs) = do { c \<leftarrow> handleEvent (read_env fn x) ePollerReadable c; recv_run fn c xs }"

text \<open>Chunks that the kernel can deliver in one read.\<close>

definition chunks_ok :: "bytes list \<Rightarrow> bool" where
  "chunks_ok cs \<longleftrightarrow> (\<forall>x \<in> set cs. x \<noteq> [] \<and> length x \<le> g_nRecvBufferMaxLength)"

definition receiving :: "eventConnection \<Rightarrow> bytes \<Rightarrow> bool" where
  "receiving c xs \<longleftrightarrow> ec_iStatus c = eConnected \<and> ec_fnReceiveCallback c \<and> bq_rep (ec_readByteQueue c) xs"

text \<open>A codec stream that parses frames which an encoder writes.\<close>

locale framed_stream =
  codec_stream receive decode event "\<lambda>uiID. frame_with (f uiID) parse" + framing enc ok parse
  for receive :: "(nat \<Rightarrow> bool) \<Rightarrow> u32 \<Rightarrow> 'h \<Rightarrow> serviceEvent list \<Rightarrow> byteQueue \<Rightarrow> (bool \<times> serviceEvent list \<times> byteQueue) option"
    and decode :: "byteQueue \<Rightarrow> 'h \<Rightarrow> (int \<times> 'h) option"
    and event :: "u32 \<Rightarrow> byteQueue \<Rightarrow> 'h \<Rightarrow> (serviceEvent \<times> byteQueue) option"
    and f :: "u32 \<Rightarrow> 'a \<Rightarrow> bytes \<Rightarrow> serviceEvent"
    and enc :: "'a \<Rightarrow> bytes" and ok :: "'a \<Rightarrow> bool" and parse :: "bytes \<Rightarrow> 'a frame"
begin

lemma drain_events:
  assumes "list_all ok as" "bs @ zs = concat (map enc as)"
  obtains as1 as2 r where "as = as1 @ as2" "r @ zs = concat (map enc as2)" "pending r as2"
    "drain (frame_with (f uiID) parse) (length bs) bs = (map (\<lambda>a. f uiID a (enc a)) as1, r)"
    "frame_with (f uiID) parse r = FrameNeed"
proof -
  let ?ras = "map (\<lambda>a. (a, enc a)) as"
  have "list_all (\<lambda>(a, bs). ok a \<and> bs = enc a) ?ras" "bs @ zs = concat (map snd ?ras)"
    using assms by (simp_all add: list_all_iff comp_def)
  from framing.drain_pending [OF raw_framing this order_refl] obtain as1 as2 r where
    d: "?ras = as1 @ as2" "drain (frame_with Pair parse) (length bs) bs = (as1, r)" "r @ zs = concat (map snd as2)"
      "framing.pending snd r as2" by blast
  from d(1) obtain bs1 bs2 where b: "as = bs1 @ bs2" "as1 = map (\<lambda>a. (a, enc a)) bs1" "as2 = map (\<lambda>a. (a, enc a)) bs2"
    by (auto simp: map_eq_append_conv)
  have "framing.pending snd r as2 = pending r bs2"
    unfolding framing.pending_def [OF raw_framing] pending_def by (simp add: b(3) split: list.split)
  with d(4) have p: "pending r bs2" by simp
  have z: "r @ zs = concat (map enc bs2)" using d(3) by (simp add: b(3) comp_def)
  have "parse r = FrameNeed"
  proof (cases bs2)
    case Nil
    with p show ?thesis by (simp add: pending_def empty)
  next
    case (Cons a as')
    with p assms(1) b(1) have a: "ok a" "length r < length (enc a)" by (auto simp: pending_def)
    have "r = take (length r) (enc a)"
      using z Cons a(2) by (metis append_eq_append_conv_if list.simps(9) concat.simps(2) nless_le)
    with partial [OF a] show ?thesis by simp
  qed
  with b(1) z p d(2) b(2) show ?thesis
    by (intro that) (assumption | simp add: frame_with_map [of "f uiID"] drain_map comp_def | simp add: frame_with_def)+
qed

lemma recv_chunks:
  assumes "\<And>q. fn q = receive (\<lambda>_. True) uiID h [] q"
    "list_all ok as" "receiving c bs" "pending bs as" "bs @ concat cs = concat (map enc as)" "chunks_ok cs"
  shows "\<exists>c'. recv_run fn c cs = Some c' \<and> receiving c' [] \<and>
    ec_out c' = ec_out c @ map Posted (map (\<lambda>a. f uiID a (enc a)) as)"
  using assms(2-)
proof (induction cs arbitrary: c bs as)
  case Nil
  then show ?case by (auto simp: pending_def split: list.splits)
next
  case (Cons y cs)
  have y: "y \<noteq> []" "length y \<le> recv_space (ec_readByteQueue c)"
    using Cons.prems(5) recv_space_ge [of "ec_readByteQueue c"] by (auto simp: chunks_ok_def g_nRecvBufferMaxLength_def)
  from Cons.prems(2) have r: "bq_rep (ec_readByteQueue c) bs" "ec_iStatus c = eConnected" "ec_fnReceiveCallback c"
    by (simp_all add: receiving_def)
  from handleRecv_rep [OF r(1) y, of fn] obtain q1 where
    q1: "bq_rep q1 (bs @ y)" "handleRecv fn (Received y) c = receive_callback fn (c\<lparr>ec_readByteQueue := q1\<rparr>)" by blast
  have "(bs @ y) @ concat cs = concat (map enc as)" using Cons.prems(4) by simp
  from drain_events [OF Cons.prems(1) this, of uiID] obtain as1 as2 r where
    d: "as = as1 @ as2" "r @ concat cs = concat (map enc as2)" "pending r as2"
      "drain (frame_with (f uiID) parse) (length (bs @ y)) (bs @ y) = (map (\<lambda>a. f uiID a (enc a)) as1, r)"
      "frame_with (f uiID) parse r = FrameNeed" .
  from receive_drain [where run = "\<lambda>_. True" and h = h and evs = "[]", OF q1(1) order_refl TrueI d(4)] d(5) assms(1) obtain q2 where
    q2: "fn q1 = Some (True, map (\<lambda>a. f uiID a (enc a)) as1, q2)" "bq_rep q2 r" by auto
  from receive_callback_rep [of "c\<lparr>ec_readByteQueue := q1\<rparr>" fn, OF _ _ q2(2)] q2(1) r(3) obtain q3 where
    q3: "bq_rep q3 r" "receive_callback fn (c\<lparr>ec_readByteQueue := q1\<rparr>) =
      Some (True, c\<lparr>ec_out := ec_out c @ map Posted (map (\<lambda>a. f uiID a (enc a)) as1), ec_readByteQueue := q3\<rparr>)" by auto
  let ?c = "c\<lparr>ec_out := ec_out c @ map Posted (map (\<lambda>a. f uiID a (enc a)) as1), ec_readByteQueue := q3\<rparr>"
  have e: "handleEvent (read_env fn y) ePollerReadable c = Some ?c"
    using r q1(2) q3(2) attr_read_closed by (simp add: handleEvent_def read_env_def attr_simps)
  have "receiving ?c r" "list_all ok as2" "chunks_ok cs"
    using r q3(1) Cons.prems(1,5) d(1) by (simp_all add: receiving_def chunks_ok_def)
  from Cons.IH [OF this(2,1) d(3,2) this(3)] e d(1) show ?case by auto
qed

end

interpretation tpack_framed: framed_stream tpackStream_receive tpack_decodeHead tpackStream_event tp_event tp_enc tp_ok tp_parse
  by (intro framed_stream.intro tp.framing_axioms) (use tpackStream.codec_stream_axioms in \<open>simp add: tp_event_parse_def [abs_def]\<close>)

interpretation webSocket_framed: framed_stream webSocketStream_receive webSocket_decodeHead webSocketStream_event ws_event
    "ws_enc (ws_key key)" ws_ok ws_parse for key
  by (intro framed_stream.intro ws.framing_axioms)
    (use webSocketStream.codec_stream_axioms in \<open>simp add: ws_event_parse_def [abs_def]\<close>)

section \<open>Sending\<close>

text \<open>The vector that an encoder fills, as the bytes of its buffers: every byte has to be initialised.\<close>

definition iov_bytes :: "(block \<times> nat) list \<Rightarrow> bytes list option" where
  "iov_bytes fs = those (map (\<lambda>(b, n). if n \<le> length b then those (take n b) else None) fs)"

text \<open>The event buffer that a message is moved into.  \<open>bufVec\<close> has as many entries as the encoder fills;
  \<open>createEventBuf_move\<close> is given \<open>iBufCount\<close>, in \<open>writeMove\<close> the number of buffers of the caller.\<close>

definition tpackStream_buffer :: "bytes \<Rightarrow> int \<Rightarrow> u32 \<Rightarrow> u32 \<Rightarrow> eventBuf option" where
  "tpackStream_buffer pBuffer iLength uiFlag uiToken = do {
     guard (0 \<le> iLength \<and> nat iLength \<le> length pBuffer);
     let iBufCount = int (tpack_encodeBufCount (nat iLength));
     fs \<leftarrow> tpack_encode (take (nat iLength) pBuffer) (ucast uiFlag) uiToken;
     bufVec \<leftarrow> iov_bytes fs;
     map_option fst (createEventBuf_move bufVec iBufCount False 0) }"

definition tpackStream_bufferMove :: "bytes list \<Rightarrow> int \<Rightarrow> u32 \<Rightarrow> u32 \<Rightarrow> eventBuf option" where
  "tpackStream_bufferMove pInBufVec iCount uiFlag uiToken = do {
     guard (0 \<le> iCount \<and> nat iCount \<le> length pInBufVec);
     fs \<leftarrow> tpack_encodeVec (take (nat iCount) pInBufVec) (ucast uiFlag) uiToken;
     bufVec \<leftarrow> iov_bytes fs;
     map_option fst (createEventBuf_move bufVec iCount False 0) }"

definition tpackStream_write ::
  "bool \<Rightarrow> sysret \<Rightarrow> eventConnection \<Rightarrow> bytes \<Rightarrow> int \<Rightarrow> u32 \<Rightarrow> u32 \<Rightarrow> (int \<times> eventConnection) option" where
  "tpackStream_write inLoop r c pBuffer iLength uiFlag uiToken = do {
     b \<leftarrow> tpackStream_buffer pBuffer iLength uiFlag uiToken;
     eventConnection_send inLoop r b c }"

definition tpackStream_writeMove ::
  "bool \<Rightarrow> sysret \<Rightarrow> eventConnection \<Rightarrow> bytes list \<Rightarrow> int \<Rightarrow> u32 \<Rightarrow> u32 \<Rightarrow> (int \<times> eventConnection) option" where
  "tpackStream_writeMove inLoop r c pInBufVec iCount uiFlag uiToken = do {
     b \<leftarrow> tpackStream_bufferMove pInBufVec iCount uiFlag uiToken;
     eventConnection_send inLoop r b c }"

definition webSocketStream_buffer :: "bytes \<Rightarrow> int \<Rightarrow> u32 \<Rightarrow> eventBuf option" where
  "webSocketStream_buffer pBuffer iLength uiFlag = do {
     guard (0 \<le> iLength \<and> nat iLength \<le> length pBuffer);
     let iBufCount = int (webSocket_encodeBufCount (nat iLength));
     fs \<leftarrow> webSocket_encode (take (nat iLength) pBuffer) (ucast uiFlag);
     bufVec \<leftarrow> iov_bytes fs;
     map_option fst (createEventBuf_move bufVec iBufCount False 0) }"

definition webSocketStream_bufferMove :: "bytes list \<Rightarrow> int \<Rightarrow> u32 \<Rightarrow> eventBuf option" where
  "webSocketStream_bufferMove pInBufVec iCount uiFlag = do {
     guard (0 \<le> iCount \<and> nat iCount \<le> length pInBufVec);
     fs \<leftarrow> webSocket_encodeVec (take (nat iCount) pInBufVec) (ucast uiFlag);
     bufVec \<leftarrow> iov_bytes fs;
     map_option fst (createEventBuf_move bufVec iCount False 0) }"

definition webSocketStream_write ::
  "bool \<Rightarrow> sysret \<Rightarrow> eventConnection \<Rightarrow> bytes \<Rightarrow> int \<Rightarrow> u32 \<Rightarrow> u32 \<Rightarrow> (int \<times> eventConnection) option" where
  "webSocketStream_write inLoop r c pBuffer iLength uiFlag uiToken = do {
     b \<leftarrow> webSocketStream_buffer pBuffer iLength uiFlag;
     eventConnection_send inLoop r b c }"

definition webSocketStream_writeMove ::
  "bool \<Rightarrow> sysret \<Rightarrow> eventConnection \<Rightarrow> bytes list \<Rightarrow> int \<Rightarrow> u32 \<Rightarrow> u32 \<Rightarrow> (int \<times> eventConnection) option" where
  "webSocketStream_writeMove inLoop r c pInBufVec iCount uiFlag uiToken = do {
     b \<leftarrow> webSocketStream_bufferMove pInBufVec iCount uiFlag;
     eventConnection_send inLoop r b c }"

lemma iov_bytes_map [simp]: "iov_bytes (map (\<lambda>w. (map Some w, length w)) ws) = Some ws"
  by (simp add: iov_bytes_def comp_def)

lemma iov_bytes_map' [simp]: "iov_bytes (map (\<lambda>j. (map Some (g j), length (g j))) js) = Some (map g js)"
  using iov_bytes_map [of "map g js"] by (simp add: comp_def)

lemma iov_bytes_one [simp]: "iov_bytes [(map Some w, length w)] = Some [w]"
  using iov_bytes_map [of "[w]"] by simp

text \<open>A message in one frame, with any of the flags; only the flags above \<open>0x20\<close> carry the token.\<close>

definition tp_final :: "u32 \<Rightarrow> u32 \<Rightarrow> bytes \<Rightarrow> tp_msg" where
  "tp_final uiFlag uiToken p =
     TpMsg (ucast uiFlag OR 0x80) (if uiFlag \<in> {0x10, 0x20} then 0 else uiToken) p"

lemma tpack_one_frame:
  assumes "uiFlag \<in> {0x10, 0x20, 0x30, 0x40, 0x50, 0x60, 0x70}" "length p < 0xffff"
  shows "tp_message_wire p (ucast uiFlag) uiToken = tp_enc (tp_final uiFlag uiToken p)" "tp_ok (tp_final uiFlag uiToken p)"
  using assms by (auto simp: tp_message_wire_def tp_enc_def tp_opcode_def tp_first_def tp_has_token_def tp_final_def tp_ok_def
      tp_head_def)

lemma tpackStream_buffer_frame:
  assumes "uiFlag \<in> {0x10, 0x20, 0x30, 0x40, 0x50, 0x60, 0x70}" "length p < 0xffff"
    "tpackStream_buffer p (int (length p)) uiFlag uiToken = Some b"
  shows "payload b = tp_enc (tp_final uiFlag uiToken p)" "eb_wf (b\<lparr>eb_pEventConnection := True\<rparr>)" "\<not> eb_fnCallback b"
proof -
  let ?w = "tp_enc (tp_final uiFlag uiToken p)"
  have e: "tpack_encode p (ucast uiFlag) uiToken = Some [(map Some ?w, length ?w)]"
    using tpack_one_frame(1) [OF assms(1,2)] assms(2) by (simp add: encode_code)
  have c: "tpack_encodeBufCount (length p) = 1" using assms(2) by (simp add: tpack_encodeBufCount_def)
  obtain bs' where b: "createEventBuf_move [?w] 1 False 0 = Some (b, bs')"
    using assms(3) by (auto simp: tpackStream_buffer_def e c)
  from createEventBuf_move_wf [OF b] show p: "payload b = ?w" by simp
  have "?w \<noteq> []" "length ?w < 2 ^ 31"
    using assms(2) by (auto simp: tp_enc_def tp_head_def tp_token_def tp_final_def)
  with createEventBuf_move_wf [OF b] show "eb_wf (b\<lparr>eb_pEventConnection := True\<rparr>)" by simp
  from b show "\<not> eb_fnCallback b" by (auto simp: createEventBuf_move_def)
qed

lemma tpackStream_buffer_ok:
  assumes "length p < 0xffff"
  shows "\<exists>b. tpackStream_buffer p (int (length p)) uiFlag uiToken = Some b"
  using assms by (simp add: tpackStream_buffer_def encode_code tpack_encodeBufCount_def createEventBuf_move_def)

end
