(* ===== verification/Transport.thy ===== *)
theory Transport
  imports ConnectionStream StreamConnection
begin

text \<open>
  From a message given to a channel's codec stream on one side to the callback of a service on the other: the
  codec stream, the sending connection with a kernel that takes what it likes, a network that cuts the bytes as it
  likes, the receiving connection, its codec stream, and the dispatch of the events.
\<close>

section \<open>Events of frames\<close>

text \<open>The callback that a message of the flags of both codecs leads to.\<close>

definition message_callback :: "u32 \<Rightarrow> u32 \<Rightarrow> u32 \<Rightarrow> bytes \<Rightarrow> service_effect" where
  "message_callback uiSourceID uiFlag uiToken p =
     (if uiFlag \<in> {0x30, 0x40, 0x50}
      then Callback (uiFlag OR DEF_EVENT_MSG) uiSourceID uiToken NoBuffer 0
      else Callback (uiFlag OR DEF_EVENT_MSG) uiSourceID uiToken (StorageBuffer p) (of_nat (length p)))"

lemma stream_event_callback:
  assumes "uiFlag \<in> {0x10, 0x20, 0x30, 0x40, 0x50, 0x60, 0x70}" "length p < 0x1000000"
  shows "service_eventCallback env (stream_event uiID uiToken (uiFlag OR DEF_EVENT_MSG) p) =
    Some ([message_callback uiID uiFlag uiToken p], True)"
proof -
  have l: "(of_nat (length p) :: u32) < 0x1000000"
    using assms(2) by (simp add: word_less_nat_alt unat_of_nat take_bit_nat_eq_self)
  let ?f = "uiFlag OR DEF_EVENT_MSG"
  have f: "?f \<in> set content_flags \<union> set signal_flags"
    using assms(1) by (auto simp: content_flags_def signal_flags_def event_defs)
  have ev: "stream_event uiID uiToken ?f p =
      (stream_event uiID uiToken ?f p)\<lparr>se_uiLength := of_nat (length p) OR push_bit 24 ?f\<rparr>"
    by (simp add: stream_event_def)
  have c: "service_eventCallback env (stream_event uiID uiToken ?f p) =
      event_dispatch env (stream_event uiID uiToken ?f p) ?f (of_nat (length p))"
    using callback_packed(1) [OF f l, of env "stream_event uiID uiToken ?f p"] by (simp only: ev [symmetric])
  consider "uiFlag \<in> {0x30, 0x40, 0x50}" "?f \<in> set signal_flags" | "uiFlag \<notin> {0x30, 0x40, 0x50}" "?f \<in> set content_flags"
    using assms(1) by (auto simp: content_flags_def signal_flags_def event_defs)
  then show ?thesis
  proof cases
    case 1
    with dispatch_signal c show ?thesis by (simp add: message_callback_def no_buffer_def stream_event_def)
  next
    case 2
    with dispatch_content c show ?thesis by (auto simp: message_callback_def with_buffer_def stream_event_def)
  qed
qed

lemma tp_final_event:
  assumes "uiFlag \<in> {0x10, 0x20, 0x30, 0x40, 0x50, 0x60, 0x70}"
  shows "tp_event uiID (tp_final uiFlag uiToken p) raw =
    stream_event uiID (if uiFlag \<in> {0x10, 0x20} then 0 else uiToken) (uiFlag OR DEF_EVENT_MSG) p"
  using assms by (auto simp: tp_event_def tp_final_def)

lemma ws_final_event:
  assumes "uiFlag \<in> {0x10, 0x20, 0x30, 0x40, 0x50}"
  shows "ws_event uiID (WsMsg (ucast (uiFlag :: u32) OR 0x80) p) raw = stream_event uiID 0 (uiFlag OR DEF_EVENT_MSG) p"
  using assms by (auto simp: ws_event_def)

section \<open>Sending a whole buffer\<close>

lemma write_whole:
  assumes "streaming c done [] 0" "live c" "eb_wf b" "length (payload b) \<le> n"
  shows "\<exists>c'. write_step c (WSend b (Some n, e)) = Some c' \<and> streaming c' (done @ [b]) [] 0 \<and> live c'"
proof -
  let ?c = "eventConnection_addref c"
  have c: "streaming ?c done [] 0" using assms(1) by (simp add: eventConnection_addref_def)
  have "0 < n" using assms(3,4) by (cases "payload b") (auto simp: eb_wf_def)
  then obtain c2 where 2: "sendData (Some n, e) b ?c = Some (int (length (payload b)), c2)" "streaming c2 (done @ [b]) [] 0"
    using sendData_idle [OF c assms(3), of "(Some n, e)" n] assms(4) by (auto simp: min_def)
  have r: "ec_iStatus ?c = eConnected" "ec_iRefCount c2 = ec_iRefCount c + 1" "ec_iStatus c2 = eConnected"
    using conn_lifeD [OF conn_life_sendData [OF 2(1)]] assms(2) by (auto simp: eventConnection_addref_def live_def)
  then have "write_step c (WSend b (Some n, e)) = Some (c2\<lparr>ec_iRefCount := ec_iRefCount c\<rparr>)"
    using 2 assms(2) by (simp add: eventAsyncSend_sendInLoop_def release_keeps live_def)
  with 2 r assms(2) show ?thesis by (simp add: live_def)
qed

section \<open>Properties\<close>

text \<open>The buffer of a message that the stream queues in the loop of a connection.\<close>

definition queues_message :: "eventConnection \<Rightarrow> u32 \<times> u32 \<times> bytes \<Rightarrow> eventBuf \<Rightarrow> bool" where
  "queues_message c m b \<longleftrightarrow>
     (case m of (uiFlag, uiToken, p) \<Rightarrow>
        uiFlag \<in> {0x10, 0x20, 0x30, 0x40, 0x50, 0x60, 0x70} \<and> length p < 0xffff \<and>
        tpackStream_write False (None, 0) c p (int (length p)) uiFlag uiToken =
          Some (0, (eventConnection_addref c)\<lparr>ec_async := ec_async c @ [AsyncSend b]\<rparr>))"

definition message_frame :: "u32 \<times> u32 \<times> bytes \<Rightarrow> tp_msg" where
  "message_frame m = (case m of (uiFlag, uiToken, p) \<Rightarrow> tp_final uiFlag uiToken p)"

lemma queues_message_frame:
  assumes "queues_message c m b" "ec_iStatus c = eConnected"
  shows "payload b = tp_enc (message_frame m)" "tp_ok (message_frame m)"
proof -
  obtain f t p where m: "m = (f, t, p)" by (cases m)
  with assms(1) have f: "f \<in> {0x10, 0x20, 0x30, 0x40, 0x50, 0x60, 0x70}" "length p < 0xffff"
    by (simp_all add: queues_message_def)
  from assms m obtain b0 where b0: "tpackStream_buffer p (int (length p)) f t = Some b0" "b = b0\<lparr>eb_pEventConnection := True\<rparr>"
    by (auto simp: queues_message_def tpackStream_write_def eventConnection_send_def bind_eq_Some_conv
        eventConnection_addref_def dest!: arg_cong [of _ _ ec_async])
  from tpackStream_buffer_frame [OF f b0(1)] b0(2) m show "payload b = tp_enc (message_frame m)"
    by (simp add: message_frame_def)
  from tpack_one_frame(2) [OF f] m show "tp_ok (message_frame m)" by (simp add: message_frame_def)
qed

lemma queued_frames:
  assumes "list_all2 (queues_message c) ms bs" "ec_iStatus c = eConnected"
  shows "payloads bs = concat (map tp_enc (map message_frame ms))" "list_all tp_ok (map message_frame ms)"
  using assms by (induction rule: list_all2_induct) (auto dest: queues_message_frame)

text \<open>C1: Messages of less than 65535 bytes that a service sends over a tpack stream, while no write fails, no first write is refused, and no buffer below 8192 bytes waits
  behind another (\<open>writes_ok\<close>; \<open>backlog_corrupts_stream\<close> shows what happens otherwise), reach the service at the other end: whatever part of a buffer
  the kernel takes at a time, when all is written, and however the bytes are cut into reads on the other side, the
  callback there is called once for each message, in order, with its flag, its bytes and length and its token, and the
  queue of the connection is empty.  Text and binary carry no token, and of close, pong and ping the callback gets the token without the bytes.\<close>

theorem tpack_end_to_end:
  assumes "idle c" "writes_ok c ops" "write_run c ops = Some c'" "ec_queueWritePending c' = []"
    and "list_all2 (queues_message c) ms (sent ops)"
    and "receiving rc []" "chunks_ok cs" "concat cs = wired (ec_out c')"
  shows "\<exists>rc' evs. recv_run (eventConnection_onReceiveCallback (Some TpackStream) (\<lambda>_. True) uiID) rc cs = Some rc' \<and>
    receiving rc' [] \<and> ec_out rc' = ec_out rc @ map Posted evs \<and>
    map (service_eventCallback env) evs =
      map (\<lambda>(f, t, p). Some ([message_callback uiID f (if f \<in> {0x10, 0x20} then 0 else t) p], True)) ms"
proof -
  from assms(1) have c: "streaming c [] [] 0" "live c" by (simp_all add: idle_def)
  from write_run_streaming [OF c assms(2)] assms(3,4) obtain d k where
    "streaming c' d [] k" "d = sent ops" by (auto simp: streaming_def)
  then have w: "wired (ec_out c') = payloads (sent ops)" by (simp add: streaming_def)
  have st: "ec_iStatus c = eConnected" using c(2) by (simp add: live_def)
  let ?ms = "map message_frame ms"
  note q = queued_frames [OF assms(5) st]
  have "concat cs = concat (map tp_enc ?ms)" using assms(8) w q(1) by simp
  moreover have "tp.pending [] ?ms" using q(2) tp.enc_nonempty
    by (auto simp: tp.pending_def list_all_iff split: list.split)
  ultimately obtain rc' where r: "recv_run (eventConnection_onReceiveCallback (Some TpackStream) (\<lambda>_. True) uiID) rc cs = Some rc'"
    "receiving rc' []" "ec_out rc' = ec_out rc @ map Posted (map (\<lambda>a. tp_event uiID a (tp_enc a)) ?ms)"
    using tpack_framed.recv_chunks [OF _ q(2) assms(6) _ _ assms(7), of
        "eventConnection_onReceiveCallback (Some TpackStream) (\<lambda>_. True) uiID" uiID]
    by (auto simp: eventConnection_onReceiveCallback_def)
  have "service_eventCallback env (tp_event uiID (message_frame m) raw) =
      (\<lambda>(f, t, p). Some ([message_callback uiID f (if f \<in> {0x10, 0x20} then 0 else t) p], True)) m"
    if "m \<in> set ms" for m raw
  proof -
    obtain f t p where m: "m = (f, t, p)" by (cases m)
    from assms(5) that m have "f \<in> {0x10, 0x20, 0x30, 0x40, 0x50, 0x60, 0x70}" "length p < 0xffff"
      by (auto simp: queues_message_def list_all2_conv_all_nth in_set_conv_nth)
    then show ?thesis using stream_event_callback [of f p] by (simp add: m message_frame_def tp_final_event)
  qed
  then have "map (service_eventCallback env) (map (\<lambda>a. tp_event uiID a (tp_enc a)) ?ms) =
      map (\<lambda>(f, t, p). Some ([message_callback uiID f (if f \<in> {0x10, 0x20} then 0 else t) p], True)) ms"
    unfolding map_map by (intro map_cong refl) simp
  with r show ?thesis by blast
qed

lemma example_receiving: "receiving (example_connection\<lparr>ec_fnReceiveCallback := True\<rparr>) []"
  using init_cells [of 256] by (simp add: receiving_def example_connection_def acceptEventConnection_def
      createEventConnection_def bq_rep_def)

definition example_env :: service_env where
  "example_env = \<lparr>env_fnCallback = \<lambda>_ _ _ _ _. True, env_createChannel = \<lambda>_. 1, env_isConnecting = \<lambda>_. True,
     env_timerRunning = \<lambda>_. True\<rparr>"

text \<open>One message, written at once and read in two pieces.\<close>

lemma tpack_end_to_end_witness:
  "\<exists>cs rc' evs. length cs = 2 \<and>
    recv_run (eventConnection_onReceiveCallback (Some TpackStream) (\<lambda>_. True) 5)
      (example_connection\<lparr>ec_fnReceiveCallback := True\<rparr>) cs = Some rc' \<and>
    ec_out rc' = map Posted evs \<and>
    map (service_eventCallback example_env) evs = [Some ([Callback 0x6a 5 77 (StorageBuffer [1, 2]) 2], True)]"
proof -
  let ?m = "(0x60, 77, [1, 2]) :: u32 \<times> u32 \<times> bytes" and ?c = example_connection
  have st: "ec_iStatus ?c = eConnected" "ec_out ?c = []"
    by (simp_all add: example_connection_def acceptEventConnection_def createEventConnection_def)
  obtain b0 where b0: "tpackStream_buffer [1, 2] (int (length [1, 2 :: u8])) 0x60 77 = Some b0"
    using tpackStream_buffer_ok [of "[1, 2]"] by auto
  define b where "b = b0\<lparr>eb_pEventConnection := True\<rparr>"
  have b: "eb_wf b" "payload b = tp_enc (tp_final 0x60 77 [1, 2])"
    using tpackStream_buffer_frame [OF _ _ b0] by (simp_all add: b_def)
  have q: "queues_message ?c ?m b"
    using b0 st by (simp add: queues_message_def tpackStream_write_def eventConnection_send_def b_def)
  have w: "payload b = [0x86, 2, 0, 0, 0, 77, 1, 2]"
    by (simp add: b(2) tp_enc_def tp_final_def tp_head_def tp_token_def tp_has_token_def tp_first_def)
  from example_idle have i: "streaming ?c [] [] 0" "live ?c" by (simp_all add: idle_def)
  from write_whole [OF i b(1), of 8 0] w obtain c' where
    c': "write_step ?c (WSend b (Some 8, 0)) = Some c'" "streaming c' [b] [] 0" by auto
  let ?cs = "[[0x86, 2, 0], [0, 0, 77, 1, 2]] :: bytes list"
  have ok: "writes_ok ?c [WSend b (Some 8, 0)]" using i b c' by (simp add: streaming_def)
  have run: "write_run ?c [WSend b (Some 8, 0)] = Some c'" using c'(1) by simp
  have fin: "ec_queueWritePending c' = []" "concat ?cs = wired (ec_out c')"
    using c'(2) w by (simp_all add: streaming_def)
  have ms: "list_all2 (queues_message ?c) [?m] (sent [WSend b (Some 8, 0)])" using q by simp
  have cs: "chunks_ok ?cs" by (simp add: chunks_ok_def g_nRecvBufferMaxLength_def)
  have cb: "map (\<lambda>(f, t, p). Some ([message_callback 5 f (if f \<in> {0x10, 0x20} then 0 else t) p], True)) [?m] =
      [Some ([Callback 0x6a 5 77 (StorageBuffer [1, 2]) 2], True)]"
    by (simp add: message_callback_def DEF_EVENT_MSG_def)
  from tpack_end_to_end [OF example_idle ok run fin(1) ms example_receiving cs fin(2), of 5 example_env] obtain rc' evs where
    "recv_run (eventConnection_onReceiveCallback (Some TpackStream) (\<lambda>_. True) 5) (?c\<lparr>ec_fnReceiveCallback := True\<rparr>) ?cs = Some rc'"
    "ec_out rc' = ec_out (?c\<lparr>ec_fnReceiveCallback := True\<rparr>) @ map Posted evs"
    "map (service_eventCallback example_env) evs = [Some ([Callback 0x6a 5 77 (StorageBuffer [1, 2]) 2], True)]"
    unfolding cb by (elim exE conjE) (rule that)
  with st show ?thesis by (intro exI [of _ ?cs] exI [of _ rc'] exI [of _ evs]) (simp del: recv_run.simps)
qed



text \<open>What \<open>createEventBuf_move\<close> makes of the first \<open>iCount\<close> of the frames.\<close>

lemma move_count:
  assumes "0 < n" "n < 2 ^ 31"
  shows "length ws < n \<Longrightarrow> createEventBuf_move ws (int n) False 0 = None"
    "n \<le> length ws \<Longrightarrow> \<exists>b ws'. createEventBuf_move ws (int n) False 0 = Some (b, ws') \<and> payload b = concat (take n ws)"
proof -
  show "length ws < n \<Longrightarrow> createEventBuf_move ws (int n) False 0 = None"
    using assms by (simp add: createEventBuf_move_def guard_def)
  assume "n \<le> length ws"
  then obtain b ws' where b: "createEventBuf_move ws (int n) False 0 = Some (b, ws')"
    using assms by (simp add: createEventBuf_move_def)
  have "(int n) < 2 ^ 31" using assms(2) by (metis of_nat_less_iff of_nat_numeral of_nat_power)
  from createEventBuf_move_wf(2) [OF b this] b
  show "\<exists>b ws'. createEventBuf_move ws (int n) False 0 = Some (b, ws') \<and> payload b = concat (take n ws)" by auto
qed

lemma queue_count:
  assumes "0 < n" "n < 2 ^ 31" "ec_iStatus c = eConnected"
  shows "length ws < n \<Longrightarrow>
      Option.bind (map_option fst (createEventBuf_move ws (int n) False 0)) (\<lambda>b. eventConnection_send False r b c) = None"
    "n \<le> length ws \<Longrightarrow>
      \<exists>b. Option.bind (map_option fst (createEventBuf_move ws (int n) False 0)) (\<lambda>b. eventConnection_send False r b c) =
        Some (0, (eventConnection_addref c)\<lparr>ec_async := ec_async c @ [AsyncSend b]\<rparr>) \<and> payload b = concat (take n ws)"
proof -
  assume "n \<le> length ws"
  from move_count(2) [OF assms(1,2) this] obtain b ws' where
    "createEventBuf_move ws (int n) False 0 = Some (b, ws')" "payload b = concat (take n ws)" by blast
  then show "\<exists>b. Option.bind (map_option fst (createEventBuf_move ws (int n) False 0)) (\<lambda>b. eventConnection_send False r b c) =
        Some (0, (eventConnection_addref c)\<lparr>ec_async := ec_async c @ [AsyncSend b]\<rparr>) \<and> payload b = concat (take n ws)"
    using assms(3) by (intro exI [of _ "b\<lparr>eb_pEventConnection := True\<rparr>"]) (simp add: eventConnection_send_def)
qed (use move_count(1) [OF assms(1,2)] in simp)

lemma ws_vec_short:
  assumes "length (concat bufs) < 0xffff"
  shows "webSocket_encodeVec bufs uiFlag = (let w = ws_head (ws_opcode uiFlag OR 0x80) 126 (length (concat bufs)) @ concat bufs
    in Some [(map Some w, length w)])"
proof -
  have l: "sum_list (map length bufs) = length (concat bufs)" by (simp add: length_concat)
  have n: "length (concat bufs) < 2 ^ 16" "length (concat bufs) div 0xffff = 0" using assms by simp_all
  show ?thesis
    using copy_all [of "ws_head (ws_opcode uiFlag OR 0x80) 126 (length (concat bufs))" "ws_head_length (length (concat bufs))" bufs]
    unfolding webSocket_encodeVec_def l
    by (simp only: Let_def n(2)) (simp add: ws_fill_head_ok [OF n(1)] Let_def del: length_concat)
qed

text \<open>The frames of a vector, as bytes.\<close>

definition tp_frames :: "bytes list \<Rightarrow> u32 \<Rightarrow> u32 \<Rightarrow> bytes list option" where
  "tp_frames bufs uiFlag uiToken = Option.bind (tpack_encodeVec bufs (ucast uiFlag) uiToken) iov_bytes"

definition ws_frames :: "bytes list \<Rightarrow> u32 \<Rightarrow> bytes list option" where
  "ws_frames bufs uiFlag = Option.bind (webSocket_encodeVec bufs (ucast uiFlag)) iov_bytes"

lemma frames_count:
  "tp_frames bufs uiFlag uiToken = Some ws \<Longrightarrow> length ws = length (concat bufs) div 0xffff + 1"
  "ws_frames bufs uiFlag = Some ws \<Longrightarrow> length ws = length (concat bufs) div 0xffff + 1"
proof -
  show "length ws = length (concat bufs) div 0xffff + 1" if "tp_frames bufs uiFlag uiToken = Some ws"
    using that unfolding tp_frames_def encodeVec_code by (auto split: if_splits simp del: upt_Suc)
  show "length ws = length (concat bufs) div 0xffff + 1" if "ws_frames bufs uiFlag = Some ws"
  proof (cases "length (concat bufs) < 0xffff")
    case True
    let ?w = "ws_head (ws_opcode (ucast uiFlag) OR 0x80) 126 (length (concat bufs)) @ concat bufs"
    have "ws_frames bufs uiFlag = Some [?w]"
      unfolding ws_frames_def ws_vec_short [OF True] Let_def by (simp only: Option.bind.bind_lunit iov_bytes_one)
    then have "length ws = 1" using that by auto
    with True show ?thesis by simp
  next
    case False
    then have "0xffff \<le> length (concat bufs)" by simp
    from that ws_vec_code [OF this, of "ucast uiFlag"] show ?thesis
      unfolding ws_frames_def by (auto split: if_splits simp del: upt_Suc)
  qed
qed

text \<open>The streams move a vector of buffers into frames but queue as many frames as the caller had buffers: with more
  buffers than frames (two buffers of a short message are enough) the queued buffer is filled from entries of an
  array that were never set; with fewer only the first frames are sent and the rest of the message is lost.\<close>

theorem writeMove_counts_buffers:
  assumes "bufs \<noteq> []" "length bufs < 2 ^ 31" "tp_frames bufs uiFlag uiToken = Some ts" "ws_frames bufs uiFlag = Some ss"
    "ec_iStatus c = eConnected"
  shows "length ts = length (concat bufs) div 0xffff + 1 \<and> length ss = length ts \<and>
    (length ts < length bufs \<longrightarrow>
       tpackStream_writeMove False r c bufs (int (length bufs)) uiFlag uiToken = None \<and>
       webSocketStream_writeMove False r c bufs (int (length bufs)) uiFlag uiToken = None) \<and>
    (length bufs \<le> length ts \<longrightarrow>
       (\<exists>b. tpackStream_writeMove False r c bufs (int (length bufs)) uiFlag uiToken =
          Some (0, (eventConnection_addref c)\<lparr>ec_async := ec_async c @ [AsyncSend b]\<rparr>) \<and>
          payload b = concat (take (length bufs) ts)) \<and>
       (\<exists>b. webSocketStream_writeMove False r c bufs (int (length bufs)) uiFlag uiToken =
          Some (0, (eventConnection_addref c)\<lparr>ec_async := ec_async c @ [AsyncSend b]\<rparr>) \<and>
          payload b = concat (take (length bufs) ss)))"
proof -
  have l: "length ts = length (concat bufs) div 0xffff + 1" "length ss = length ts"
    using frames_count(1) [OF assms(3)] frames_count(2) [OF assms(4)] by simp_all
  have n: "0 < length bufs" using assms(1) by simp
  have tb: "tpackStream_bufferMove bufs (int (length bufs)) uiFlag uiToken =
      map_option fst (createEventBuf_move ts (int (length bufs)) False 0)"
    "webSocketStream_bufferMove bufs (int (length bufs)) uiFlag =
      map_option fst (createEventBuf_move ss (int (length bufs)) False 0)"
    using assms(3,4) by (auto simp: tpackStream_bufferMove_def webSocketStream_bufferMove_def tp_frames_def ws_frames_def
        bind_eq_Some_conv)
  show ?thesis
    using queue_count [OF n assms(2,5), of ts r] queue_count [OF n assms(2,5), of ss r] l
    unfolding tpackStream_writeMove_def webSocketStream_writeMove_def tb by simp
qed

lemma writeMove_counts_buffers_witness:
  "tpackStream_writeMove False (None, 0) example_connection [[1], [2]] 2 0x10 0 = None \<and>
   webSocketStream_writeMove False (None, 0) example_connection [[1], [2]] 2 0x10 0 = None"
proof -
  have "tp_frames [[1], [2]] 0x10 0 = Some [[0x81, 2, 1, 2]]" "ws_frames [[1], [2]] 0x10 = Some [[0x81, 2, 1, 2]]"
    by (simp_all add: tp_frames_def ws_frames_def encodeVec_code tp_message_wire_def tp_opcode_def tp_head_def
        ws_vec_short Let_def ws_head_def ws_opcode_def iov_bytes_def)
  from writeMove_counts_buffers [OF _ _ this, of example_connection "(None, 0)"] show ?thesis
    by (simp add: example_connection_def)
qed

end
