(* ===== verification/Heap.thy ===== *)
theory Heap
  imports Interfaces
begin

text \<open>
  The binary heap with links of \<open>heap_t.h\<close>, which keeps the timers of an event loop.  A node is embedded in the
  object it orders; its address is a number.  \<open>None\<close> is a dereference of \<open>NULL\<close> or a loop that does not end.
\<close>

section \<open>Nodes and memory\<close>

record heap_node =
  hn_left :: "nat option"
  hn_right :: "nat option"
  hn_parent :: "nat option"

record heap =
  hp_min :: "nat option"
  hp_nelts :: u32
  hp_mem :: "nat \<Rightarrow> heap_node"

definition heap_store :: "nat \<Rightarrow> heap_node \<Rightarrow> heap \<Rightarrow> heap" where
  "heap_store p v h = h\<lparr>hp_mem := (hp_mem h)(p := v)\<rparr>"

definition set_left :: "nat \<Rightarrow> nat option \<Rightarrow> heap \<Rightarrow> heap" where
  "set_left p v h = heap_store p ((hp_mem h p)\<lparr>hn_left := v\<rparr>) h"

definition set_right :: "nat \<Rightarrow> nat option \<Rightarrow> heap \<Rightarrow> heap" where
  "set_right p v h = heap_store p ((hp_mem h p)\<lparr>hn_right := v\<rparr>) h"

definition set_parent :: "nat \<Rightarrow> nat option \<Rightarrow> heap \<Rightarrow> heap" where
  "set_parent p v h = heap_store p ((hp_mem h p)\<lparr>hn_parent := v\<rparr>) h"

text \<open>The test \<open>if (p != NULL) p->parent = v\<close>.\<close>

definition set_parent_of :: "nat option \<Rightarrow> nat option \<Rightarrow> heap \<Rightarrow> heap" where
  "set_parent_of q v h = (case q of None \<Rightarrow> h | Some q \<Rightarrow> set_parent q v h)"

lemmas heap_set_defs = heap_store_def set_left_def set_right_def set_parent_def set_parent_of_def

definition heap_init :: "heap \<Rightarrow> heap" where
  "heap_init h = h\<lparr>hp_min := None, hp_nelts := 0\<rparr>"

definition heap_min :: "heap \<Rightarrow> nat option" where
  "heap_min h = hp_min h"

text \<open>The link to \<open>old\<close> in the node above it, or the root, is made to point to \<open>new\<close>.\<close>

definition heap_relink :: "nat option \<Rightarrow> nat \<Rightarrow> nat \<Rightarrow> heap \<Rightarrow> heap" where
  "heap_relink up old new h =
     (case up of
        None \<Rightarrow> h\<lparr>hp_min := Some new\<rparr>
      | Some g \<Rightarrow> if hn_left (hp_mem h g) = Some old then set_left g (Some new) h else set_right g (Some new) h)"

definition heap_node_swap :: "heap \<Rightarrow> nat \<Rightarrow> nat \<Rightarrow> heap" where
  "heap_node_swap h parent child =
     (let t = hp_mem h parent;
          h = heap_store parent (hp_mem h child) h;
          h = heap_store child t h;
          h = set_parent parent (Some child) h;
          (sibling, h) = (if hn_left (hp_mem h child) = Some child
                          then (hn_right (hp_mem h child), set_left child (Some parent) h)
                          else (hn_left (hp_mem h child), set_right child (Some parent) h));
          h = set_parent_of sibling (Some child) h;
          h = set_parent_of (hn_left (hp_mem h parent)) (Some parent) h;
          h = set_parent_of (hn_right (hp_mem h parent)) (Some parent) h
      in heap_relink (hn_parent (hp_mem h child)) parent child h)"

section \<open>The path to a position\<close>

text \<open>The bits of \<open>n\<close> below the highest one, turned around, and their number.\<close>

function heap_path :: "u32 \<Rightarrow> u32 \<Rightarrow> u32 \<Rightarrow> u32 \<times> u32" where
  "heap_path k path n =
     (if 2 \<le> n then heap_path (k + 1) (push_bit 1 path OR (n AND 1)) (n div 2) else (k, path))"
  by auto

termination
  by (relation "measure (\<lambda>(k, path, n). unat n)") (auto simp: unat_div word_le_nat_alt)

declare heap_path.simps [simp del]

text \<open>A place that holds a link.\<close>

datatype link = AtMin | AtLeft nat | AtRight nat

fun link_load :: "heap \<Rightarrow> link \<Rightarrow> nat option" where
  "link_load h AtMin = hp_min h"
| "link_load h (AtLeft p) = hn_left (hp_mem h p)"
| "link_load h (AtRight p) = hn_right (hp_mem h p)"

fun link_store :: "link \<Rightarrow> nat option \<Rightarrow> heap \<Rightarrow> heap" where
  "link_store AtMin v h = h\<lparr>hp_min := v\<rparr>"
| "link_store (AtLeft p) v h = set_left p v h"
| "link_store (AtRight p) v h = set_right p v h"

function heap_walk :: "heap \<Rightarrow> u32 \<Rightarrow> u32 \<Rightarrow> link \<Rightarrow> link \<Rightarrow> (link \<times> link) option" where
  "heap_walk h k path parent child =
     (if 0 < k
      then case link_load h child of
             None \<Rightarrow> None
           | Some c \<Rightarrow> heap_walk h (k - 1) (drop_bit 1 path) child (if path AND 1 \<noteq> 0 then AtRight c else AtLeft c)
      else Some (parent, child))"
  by auto

termination
  by (relation "measure (\<lambda>(h, k, path, parent, child). unat k)") (auto simp: word_less_nat_alt unat_sub word_le_nat_alt)

declare heap_walk.simps [simp del]

section \<open>Insertion and removal\<close>

partial_function (option) heap_sift_up :: "(nat \<Rightarrow> nat \<Rightarrow> bool) \<Rightarrow> heap \<Rightarrow> nat \<Rightarrow> heap option" where
  "heap_sift_up lt h p =
     (case hn_parent (hp_mem h p) of
        None \<Rightarrow> Some h
      | Some q \<Rightarrow> if lt p q then heap_sift_up lt (heap_node_swap h q p) p else Some h)"

definition heap_smallest :: "(nat \<Rightarrow> nat \<Rightarrow> bool) \<Rightarrow> heap \<Rightarrow> nat \<Rightarrow> nat" where
  "heap_smallest lt h child =
     (let smallest = (case hn_left (hp_mem h child) of
            None \<Rightarrow> child | Some l \<Rightarrow> if lt l child then l else child)
      in case hn_right (hp_mem h child) of
           None \<Rightarrow> smallest | Some r \<Rightarrow> if lt r smallest then r else smallest)"

partial_function (option) heap_sift_down :: "(nat \<Rightarrow> nat \<Rightarrow> bool) \<Rightarrow> heap \<Rightarrow> nat \<Rightarrow> heap option" where
  "heap_sift_down lt h child =
     (let smallest = heap_smallest lt h child
      in if smallest = child then Some h
         else heap_sift_down lt (heap_node_swap h child smallest) child)"

definition heap_insert :: "(nat \<Rightarrow> nat \<Rightarrow> bool) \<Rightarrow> heap \<Rightarrow> nat \<Rightarrow> heap option" where
  "heap_insert lt h newnode =
     (let h = heap_store newnode \<lparr>hn_left = None, hn_right = None, hn_parent = None\<rparr> h;
          (k, path) = heap_path 0 0 (1 + hp_nelts h)
      in case heap_walk h k path AtMin AtMin of
           None \<Rightarrow> None
         | Some (parent, child) \<Rightarrow>
             let h = set_parent newnode (link_load h parent) h;
                 h = link_store child (Some newnode) h;
                 h = h\<lparr>hp_nelts := hp_nelts h + 1\<rparr>
             in heap_sift_up lt h newnode)"

definition heap_remove :: "(nat \<Rightarrow> nat \<Rightarrow> bool) \<Rightarrow> heap \<Rightarrow> nat option \<Rightarrow> heap option" where
  "heap_remove lt h node =
     (if hp_nelts h = 0 then Some h
      else let (k, path) = heap_path 0 0 (hp_nelts h)
           in case heap_walk h k path AtMin AtMin of
                None \<Rightarrow> None
              | Some (_, bottom) \<Rightarrow>
                  let h = h\<lparr>hp_nelts := hp_nelts h - 1\<rparr>;
                      child = link_load h bottom;
                      h = link_store bottom None h
                  in if child = node
                     then Some (if child = hp_min h then h\<lparr>hp_min := None\<rparr> else h)
                     else do {
                              child \<leftarrow> child;
                              node \<leftarrow> node;
                              let h = heap_store child \<lparr>hn_left = hn_left (hp_mem h node),
                                                        hn_right = hn_right (hp_mem h node),
                                                        hn_parent = hn_parent (hp_mem h node)\<rparr> h;
                              let h = set_parent_of (hn_left (hp_mem h child)) (Some child) h;
                              let h = set_parent_of (hn_right (hp_mem h child)) (Some child) h;
                              let h = heap_relink (hn_parent (hp_mem h node)) node child h;
                              h \<leftarrow> heap_sift_down lt h child;
                              heap_sift_up lt h child })"

definition heap_dequeue :: "(nat \<Rightarrow> nat \<Rightarrow> bool) \<Rightarrow> heap \<Rightarrow> heap option" where
  "heap_dequeue lt h = heap_remove lt h (hp_min h)"


section \<open>The heap as an array\<close>

text \<open>The node at position \<open>i\<close> of the complete tree with \<open>n\<close> nodes, laid out by \<open>f\<close>.\<close>

definition node_at :: "(nat \<Rightarrow> nat) \<Rightarrow> nat \<Rightarrow> nat \<Rightarrow> heap_node" where
  "node_at f n i = \<lparr>hn_left = (if 2 * i \<le> n then Some (f (2 * i)) else None),
                    hn_right = (if 2 * i + 1 \<le> n then Some (f (2 * i + 1)) else None),
                    hn_parent = (if i \<le> 1 then None else Some (f (i div 2)))\<rparr>"

definition heap_rep :: "heap \<Rightarrow> (nat \<Rightarrow> nat) \<Rightarrow> nat \<Rightarrow> bool" where
  "heap_rep h f n \<longleftrightarrow> inj_on f {1..n} \<and> hp_min h = (if n = 0 then None else Some (f 1)) \<and>
     unat (hp_nelts h) = n \<and> (\<forall>i\<in>{1..n}. hp_mem h (f i) = node_at f n i)"

lemma heap_fields:
  "hn_left (hp_mem (heap_store p v h) q) = (if q = p then hn_left v else hn_left (hp_mem h q))"
  "hn_right (hp_mem (heap_store p v h) q) = (if q = p then hn_right v else hn_right (hp_mem h q))"
  "hn_parent (hp_mem (heap_store p v h) q) = (if q = p then hn_parent v else hn_parent (hp_mem h q))"
  "hn_left (hp_mem (set_left p x h) q) = (if q = p then x else hn_left (hp_mem h q))"
  "hn_right (hp_mem (set_left p x h) q) = hn_right (hp_mem h q)"
  "hn_parent (hp_mem (set_left p x h) q) = hn_parent (hp_mem h q)"
  "hn_left (hp_mem (set_right p x h) q) = hn_left (hp_mem h q)"
  "hn_right (hp_mem (set_right p x h) q) = (if q = p then x else hn_right (hp_mem h q))"
  "hn_parent (hp_mem (set_right p x h) q) = hn_parent (hp_mem h q)"
  "hn_left (hp_mem (set_parent p x h) q) = hn_left (hp_mem h q)"
  "hn_right (hp_mem (set_parent p x h) q) = hn_right (hp_mem h q)"
  "hn_parent (hp_mem (set_parent p x h) q) = (if q = p then x else hn_parent (hp_mem h q))"
  "hn_left (hp_mem (set_parent_of r x h) q) = hn_left (hp_mem h q)"
  "hn_right (hp_mem (set_parent_of r x h) q) = hn_right (hp_mem h q)"
  "hn_parent (hp_mem (set_parent_of r x h) q) = (if r = Some q then x else hn_parent (hp_mem h q))"
  "hp_min (heap_store p v h) = hp_min h" "hp_min (set_left p x h) = hp_min h"
  "hp_min (set_right p x h) = hp_min h" "hp_min (set_parent p x h) = hp_min h" "hp_min (set_parent_of r x h) = hp_min h"
  "hp_nelts (heap_store p v h) = hp_nelts h" "hp_nelts (set_left p x h) = hp_nelts h"
  "hp_nelts (set_right p x h) = hp_nelts h" "hp_nelts (set_parent p x h) = hp_nelts h"
  "hp_nelts (set_parent_of r x h) = hp_nelts h"
  by (auto simp: heap_set_defs split: option.splits)

lemma relink_fields:
  "hn_left (hp_mem (heap_relink u p c h) q) = (if u = Some q \<and> hn_left (hp_mem h q) = Some p then Some c else hn_left (hp_mem h q))"
  "hn_right (hp_mem (heap_relink u p c h) q) = (if u = Some q \<and> hn_left (hp_mem h q) \<noteq> Some p then Some c else hn_right (hp_mem h q))"
  "hn_parent (hp_mem (heap_relink u p c h) q) = hn_parent (hp_mem h q)"
  "hp_min (heap_relink u p c h) = (if u = None then Some c else hp_min h)"
  "hp_nelts (heap_relink u p c h) = hp_nelts h"
  by (auto simp: heap_relink_def heap_fields split: option.splits)

lemma heap_node_eqI:
  "hn_left a = hn_left b \<Longrightarrow> hn_right a = hn_right b \<Longrightarrow> hn_parent a = hn_parent b \<Longrightarrow> a = (b :: heap_node)"
  by simp

text \<open>What a swap does to each field, when the links are those of a tree: \<open>s\<close> is the other child of the parent.\<close>

lemma swap_fields:
  assumes "p \<noteq> c" "hn_parent (hp_mem h p) \<notin> {Some p, Some c}"
    "hn_left (hp_mem h c) \<notin> {Some p, Some c}" "hn_right (hp_mem h c) \<notin> {Some p, Some c}"
    and s: "s \<notin> {Some p, Some c}"
    "hn_left (hp_mem h p) = Some c \<and> hn_right (hp_mem h p) = s \<or> hn_right (hp_mem h p) = Some c \<and> hn_left (hp_mem h p) = s"
  shows "hn_left (hp_mem (heap_node_swap h p c) q) =
      (if q = c then if hn_left (hp_mem h p) = Some c then Some p else s
       else if q = p then hn_left (hp_mem h c)
       else if hn_parent (hp_mem h p) = Some q \<and> hn_left (hp_mem h q) = Some p then Some c else hn_left (hp_mem h q))"
    and "hn_right (hp_mem (heap_node_swap h p c) q) =
      (if q = c then if hn_left (hp_mem h p) = Some c then s else Some p
       else if q = p then hn_right (hp_mem h c)
       else if hn_parent (hp_mem h p) = Some q \<and> hn_left (hp_mem h q) \<noteq> Some p then Some c else hn_right (hp_mem h q))"
    and "hn_parent (hp_mem (heap_node_swap h p c) q) =
      (if hn_left (hp_mem h c) = Some q \<or> hn_right (hp_mem h c) = Some q then Some p
       else if q = p \<or> s = Some q then Some c else if q = c then hn_parent (hp_mem h p) else hn_parent (hp_mem h q))"
    and "hp_min (heap_node_swap h p c) = (if hn_parent (hp_mem h p) = None then Some c else hp_min h)"
    and "hp_nelts (heap_node_swap h p c) = hp_nelts h"
proof -
  note sw = heap_node_swap_def heap_fields relink_fields Let_def
  show "hn_left (hp_mem (heap_node_swap h p c) q) =
      (if q = c then if hn_left (hp_mem h p) = Some c then Some p else s
       else if q = p then hn_left (hp_mem h c)
       else if hn_parent (hp_mem h p) = Some q \<and> hn_left (hp_mem h q) = Some p then Some c else hn_left (hp_mem h q))"
    using assms by (cases "hn_left (hp_mem h p) = Some c") (auto simp: sw)
  show "hn_right (hp_mem (heap_node_swap h p c) q) =
      (if q = c then if hn_left (hp_mem h p) = Some c then s else Some p
       else if q = p then hn_right (hp_mem h c)
       else if hn_parent (hp_mem h p) = Some q \<and> hn_left (hp_mem h q) \<noteq> Some p then Some c else hn_right (hp_mem h q))"
    using assms by (cases "hn_left (hp_mem h p) = Some c") (auto simp: sw)
  show "hn_parent (hp_mem (heap_node_swap h p c) q) =
      (if hn_left (hp_mem h c) = Some q \<or> hn_right (hp_mem h c) = Some q then Some p
       else if q = p \<or> s = Some q then Some c else if q = c then hn_parent (hp_mem h p) else hn_parent (hp_mem h q))"
    using assms by (cases "hn_left (hp_mem h p) = Some c") (auto simp: sw)
  show "hp_min (heap_node_swap h p c) = (if hn_parent (hp_mem h p) = None then Some c else hp_min h)"
    using assms by (cases "hn_left (hp_mem h p) = Some c") (auto simp: sw)
  show "hp_nelts (heap_node_swap h p c) = hp_nelts h"
    by (simp add: sw split_def)
qed


lemma rep_inj: "heap_rep h f n \<Longrightarrow> 1 \<le> a \<Longrightarrow> a \<le> n \<Longrightarrow> 1 \<le> b \<Longrightarrow> b \<le> n \<Longrightarrow> f a = f b \<longleftrightarrow> a = b"
  unfolding heap_rep_def by (auto dest: inj_onD)

lemma rep_mem: "heap_rep h f n \<Longrightarrow> 1 \<le> a \<Longrightarrow> a \<le> n \<Longrightarrow> hp_mem h (f a) = node_at f n a"
  unfolding heap_rep_def by auto

lemma heap_rep_swap:
  assumes rep: "heap_rep h f n" and j: "2 \<le> j" "j \<le> n"
  shows "heap_rep (heap_node_swap h (f (j div 2)) (f j)) (f(j div 2 := f j, j := f (j div 2))) n"
proof -
  define i where "i = j div 2"
  have i: "1 \<le> i" "i < j" "i \<le> n" "j = 2 * i \<or> j = 2 * i + 1" "i div 2 < i" using j unfolding i_def by auto
  note inj = rep_inj [OF rep] and mem = rep_mem [OF rep]
  let ?f = "f(i := f j, j := f i)"
  let ?h = "heap_node_swap h (f i) (f j)"
  define s where "s = (if j = 2 * i then hn_right (hp_mem h (f i)) else hn_left (hp_mem h (f i)))"
  have pc: "f i \<noteq> f j" "hn_parent (hp_mem h (f i)) \<notin> {Some (f i), Some (f j)}"
    "hn_left (hp_mem h (f j)) \<notin> {Some (f i), Some (f j)}" "hn_right (hp_mem h (f j)) \<notin> {Some (f i), Some (f j)}"
    "s \<notin> {Some (f i), Some (f j)}"
    "hn_left (hp_mem h (f i)) = Some (f j) \<and> hn_right (hp_mem h (f i)) = s \<or> hn_right (hp_mem h (f i)) = Some (f j) \<and> hn_left (hp_mem h (f i)) = s"
    using i j by (auto simp: inj mem node_at_def s_def)
  note sf = swap_fields [OF pc]
  have inj': "inj_on ?f {1..n}" using i j inj by (auto simp: inj_on_def)
  have fk: "?f k = f (if k = i then j else if k = j then i else k)" for k by simp
  have "hp_mem ?h (?f k) = node_at ?f n k" if k: "1 \<le> k" "k \<le> n" for k
  proof -
    have kij: "k = i \<or> k = j \<or> k \<noteq> i \<and> k \<noteq> j \<and> 2 * k \<noteq> j \<and> 2 * k + 1 \<noteq> j" using i(4) by presburger
    then consider "k = i" | "k = j" | "k \<noteq> i" "k \<noteq> j" "2 * k \<noteq> j" "2 * k + 1 \<noteq> j" by blast
    then show ?thesis
    proof cases
      case 1
      have ne: "2 * i \<noteq> i" "Suc (2 * i) \<noteq> i" "i \<noteq> j" "i div 2 \<noteq> i" "i div 2 \<noteq> j"
        and lc: "hn_left (hp_mem h (f i)) = Some (f j) \<longleftrightarrow> j = 2 * i" using i j by (auto simp: inj mem node_at_def)
      note pc' = pc(1) pc(1) [symmetric] pc(2-5) [simplified]
      show ?thesis
      proof (rule heap_node_eqI)
        show "hn_left (hp_mem ?h (?f k)) = hn_left (node_at ?f n k)"
          using i(3,4) j ne by (simp add: 1 sf(1) pc' lc s_def) (auto simp: mem i node_at_def)
        show "hn_right (hp_mem ?h (?f k)) = hn_right (node_at ?f n k)"
          using i(3,4) j ne by (simp add: 1 sf(2) pc' lc s_def) (auto simp: mem i node_at_def)
        show "hn_parent (hp_mem ?h (?f k)) = hn_parent (node_at ?f n k)"
          using ne by (simp add: 1 sf(3) pc') (simp add: mem i node_at_def)
      qed
    next
      case 2
      note pc' = pc(1) pc(1) [symmetric] pc(2-5) [simplified]
      have ne: "2 * j \<noteq> i" "Suc (2 * j) \<noteq> i" "2 * j \<noteq> j" "Suc (2 * j) \<noteq> j" "j div 2 = i" "\<not> j \<le> 1" using i j by auto
      show ?thesis
      proof (rule heap_node_eqI)
        show "hn_left (hp_mem ?h (?f k)) = hn_left (node_at ?f n k)"
          using ne i(2) by (simp add: 2 sf(1) pc') (use j in \<open>simp add: mem node_at_def\<close>)
        show "hn_right (hp_mem ?h (?f k)) = hn_right (node_at ?f n k)"
          using ne i(2) by (simp add: 2 sf(2) pc') (use j in \<open>simp add: mem node_at_def\<close>)
        show "hn_parent (hp_mem ?h (?f k)) = hn_parent (node_at ?f n k)"
          using ne i(2) by (simp add: 2 sf(3) pc') (simp add: node_at_def)
      qed
    next
      case 3
      have s: "s = Some (f k) \<longleftrightarrow> k = 2 * i \<or> k = 2 * i + 1"
        using i(1-4) j k 3 by (auto simp: mem node_at_def inj s_def)
      have lr: "hn_left (hp_mem h (f j)) = Some (f k) \<longleftrightarrow> k = 2 * j" "hn_right (hp_mem h (f j)) = Some (f k) \<longleftrightarrow> k = 2 * j + 1"
        "hn_left (hp_mem h (f k)) = Some (f i) \<longleftrightarrow> 2 * k = i"
        using i(1-3) j k by (auto simp: mem node_at_def inj)
      have p: "hn_parent (hp_mem h (f i)) = Some (f k) \<longleftrightarrow> 2 * k = i \<or> 2 * k + 1 = i"
      proof -
        have "(1 < i \<and> i div 2 = k) \<longleftrightarrow> 2 * k = i \<or> 2 * k + 1 = i" using k by auto
        with i(1,3) k show ?thesis by (auto simp: mem node_at_def inj)
      qed
      have f: "f k \<noteq> f i" "f k \<noteq> f j" using 3 i j k by (simp_all add: inj)
      have dn: "k div 2 = i \<longleftrightarrow> k = 2 * i \<or> k = 2 * i + 1" "k div 2 = j \<longleftrightarrow> k = 2 * j \<or> k = 2 * j + 1" by auto
      show ?thesis
      proof (rule heap_node_eqI)
        show "hn_left (hp_mem ?h (?f k)) = hn_left (node_at ?f n k)"
          using 3 f i(3) k by (simp add: sf(1) p lr) (simp add: mem node_at_def)
        show "hn_right (hp_mem ?h (?f k)) = hn_right (node_at ?f n k)"
          using 3 f i(3) k by (simp add: sf(2) p lr) (simp add: mem node_at_def)
        show "hn_parent (hp_mem ?h (?f k)) = hn_parent (node_at ?f n k)"
        proof (cases "k = 1")
          case True
          with i(1,2) have "k \<noteq> 2 * j" "k \<noteq> 2 * j + 1" "k \<noteq> 2 * i" "k \<noteq> 2 * i + 1" by auto
          then have "s \<noteq> Some (f k)" "hn_left (hp_mem h (f j)) \<noteq> Some (f k)" "hn_right (hp_mem h (f j)) \<noteq> Some (f k)"
            unfolding s lr by simp_all
          with True 3(1,2) f k show ?thesis by (simp add: sf(3)) (simp add: mem node_at_def)
        next
          case False
          with k have "\<not> k \<le> 1" by simp
          with k 3(1,2) have e: "hn_parent (hp_mem h (f k)) = Some (f (k div 2))"
            "hn_parent (node_at ?f n k) = Some (if k div 2 = j then f i else if k div 2 = i then f j else f (k div 2))"
            by (simp_all add: mem node_at_def)
          show ?thesis unfolding fun_upd_other [OF 3(2)] fun_upd_other [OF 3(1)] e sf(3) lr s dn [symmetric] using f i(2) by auto
        qed
      qed
    qed
  qed
  moreover have "hp_min ?h = (if n = 0 then None else Some (?f 1))"
    using rep i j by (auto simp: sf mem node_at_def heap_rep_def)
  moreover have "unat (hp_nelts ?h) = n" using rep by (simp add: sf heap_rep_def)
  ultimately show ?thesis using inj' unfolding heap_rep_def i_def [symmetric] by simp
qed

end
