(* ===== verification/HeapOrder.thy ===== *)
theory HeapOrder
  imports Heap
begin

text \<open>
  The heap of \<open>heap_t.h\<close> keeps its nodes in order.  The linked nodes are the positions of an array \<open>f\<close>: sifting,
  walking by the bits of a position, inserting and removing are followed on it, and together they make the
  heap a priority queue (\<open>min_queue\<close>), which the timers of a loop are built on.
\<close>

section \<open>The order\<close>

definition heap_ordered :: "(nat \<Rightarrow> 'k::linorder) \<Rightarrow> (nat \<Rightarrow> nat) \<Rightarrow> nat \<Rightarrow> bool" where
  "heap_ordered key f n \<longleftrightarrow> (\<forall>i\<in>{2..n}. key (f (i div 2)) \<le> key (f i))"

text \<open>Ordered but for the links at position \<open>j\<close>; and but for the link above \<open>j\<close> only.\<close>

definition hole :: "(nat \<Rightarrow> 'k::linorder) \<Rightarrow> (nat \<Rightarrow> nat) \<Rightarrow> nat \<Rightarrow> nat \<Rightarrow> bool" where
  "hole key f n j \<longleftrightarrow> (\<forall>i\<in>{2..n}. i \<noteq> j \<longrightarrow> i div 2 \<noteq> j \<longrightarrow> key (f (i div 2)) \<le> key (f i)) \<and>
     (\<forall>i\<in>{2..n}. i div 2 = j \<longrightarrow> 2 \<le> j \<longrightarrow> key (f (j div 2)) \<le> key (f i))"

definition up_hole :: "(nat \<Rightarrow> 'k::linorder) \<Rightarrow> (nat \<Rightarrow> nat) \<Rightarrow> nat \<Rightarrow> nat \<Rightarrow> bool" where
  "up_hole key f n j \<longleftrightarrow> hole key f n j \<and> (\<forall>i\<in>{2..n}. i div 2 = j \<longrightarrow> key (f j) \<le> key (f i))"

lemma up_hole_swap:
  assumes u: "up_hole key f n j" and j: "2 \<le> j" "j \<le> n" and lt: "key (f j) < key (f (j div 2))"
  shows "up_hole key (f(j div 2 := f j, j := f (j div 2))) n (j div 2)"
proof -
  let ?g = "f(j div 2 := f j, j := f (j div 2))"
  have a: "\<And>i. 2 \<le> i \<Longrightarrow> i \<le> n \<Longrightarrow> i \<noteq> j \<Longrightarrow> i div 2 \<noteq> j \<Longrightarrow> key (f (i div 2)) \<le> key (f i)"
    and b: "\<And>i. 2 \<le> i \<Longrightarrow> i \<le> n \<Longrightarrow> i div 2 = j \<Longrightarrow> key (f (j div 2)) \<le> key (f i)"
    using u j unfolding up_hole_def hole_def by auto
  have up: "key (f (j div 2 div 2)) \<le> key (f (j div 2))" if "2 \<le> j div 2" using a [of "j div 2"] that j by auto
  have sib: "key (f (j div 2)) \<le> key (f i)" if "2 \<le> i" "i \<le> n" "i div 2 = j div 2" "i \<noteq> j" for i
    using a [of i] that j by auto
  have "key (?g (i div 2)) \<le> key (?g i)" if "2 \<le> i" "i \<le> n" "i \<noteq> j div 2" for i
  proof -
    consider "i = j" | "i \<noteq> j" "i div 2 = j div 2" | "i \<noteq> j" "i div 2 = j" | "i \<noteq> j" "i div 2 \<noteq> j div 2" "i div 2 \<noteq> j" by blast
    then show ?thesis
    proof cases
      case 1 then show ?thesis using lt j by auto
    next
      case 2 then show ?thesis using sib [of i] that lt j by auto
    next
      case 3 then show ?thesis using b [of i] that j by auto
    next
      case 4 then show ?thesis using a [of i] that j by auto
    qed
  qed
  moreover have "key (?g (j div 2 div 2)) \<le> key (?g i)" if "2 \<le> i" "i \<le> n" "i div 2 = j div 2" "2 \<le> j div 2" for i
  proof -
    have "j div 2 div 2 \<noteq> j" "j div 2 div 2 \<noteq> j div 2" using that j by auto
    moreover have "key (f (j div 2)) \<le> key (f i)" if "i \<noteq> j" using sib [of i] \<open>2 \<le> i\<close> \<open>i \<le> n\<close> \<open>i div 2 = j div 2\<close> that by simp
    ultimately show ?thesis using up [OF \<open>2 \<le> j div 2\<close>] \<open>i div 2 = j div 2\<close> that(4) by (auto intro: order_trans)
  qed
  moreover have "key (?g (j div 2)) \<le> key (?g i)" if "2 \<le> i" "i \<le> n" "i div 2 = j div 2" for i
    using sib [of i] that lt j by (cases "i = j") auto
  ultimately show ?thesis unfolding up_hole_def hole_def by (auto simp del: fun_upd_apply)
qed

lemma swap_image: "1 \<le> i \<Longrightarrow> i \<le> n \<Longrightarrow> 1 \<le> j \<Longrightarrow> j \<le> n \<Longrightarrow> f(i := f j, j := f i) ` {1..n} = f ` {1..n::nat}"
  for f :: "nat \<Rightarrow> nat"
  by (auto simp: image_iff split: if_splits)


lemma hole_swap:
  assumes h: "hole key f n j" and c: "c div 2 = j" "2 \<le> c" "c \<le> n"
    and least: "\<And>i. 2 \<le> i \<Longrightarrow> i \<le> n \<Longrightarrow> i div 2 = j \<Longrightarrow> key (f c) \<le> key (f i)"
  shows "hole key (f(j := f c, c := f j)) n c"
proof -
  let ?g = "f(j := f c, c := f j)"
  have a: "\<And>i. 2 \<le> i \<Longrightarrow> i \<le> n \<Longrightarrow> i \<noteq> j \<Longrightarrow> i div 2 \<noteq> j \<Longrightarrow> key (f (i div 2)) \<le> key (f i)"
    and b: "\<And>i. 2 \<le> i \<Longrightarrow> i \<le> n \<Longrightarrow> i div 2 = j \<Longrightarrow> 2 \<le> j \<Longrightarrow> key (f (j div 2)) \<le> key (f i)"
    using h unfolding hole_def by auto
  have "key (?g (i div 2)) \<le> key (?g i)" if "2 \<le> i" "i \<le> n" "i \<noteq> c" "i div 2 \<noteq> c" for i
  proof -
    consider "i = j" | "i \<noteq> j" "i div 2 = j" | "i \<noteq> j" "i div 2 \<noteq> j" by blast
    then show ?thesis
    proof cases
      case 1
      then have "i div 2 \<noteq> j" using c that by auto
      then show ?thesis using 1 b [of c] c that by auto
    next
      case 2 then show ?thesis using least [of i] c that by auto
    next
      case 3 then show ?thesis using a [of i] c that by auto
    qed
  qed
  moreover have "key (?g (c div 2)) \<le> key (?g i)" if "2 \<le> i" "i \<le> n" "i div 2 = c" for i
  proof -
    have "i \<noteq> j" "i \<noteq> c" "j \<noteq> c" using that c by auto
    then show ?thesis using a [of i] that c by auto
  qed
  ultimately show ?thesis unfolding hole_def by (auto simp del: fun_upd_apply)
qed

lemma up_hole_ordered: "up_hole key f n j \<Longrightarrow> (2 \<le> j \<Longrightarrow> j \<le> n \<Longrightarrow> key (f (j div 2)) \<le> key (f j)) \<Longrightarrow> heap_ordered key f n"
  unfolding up_hole_def hole_def heap_ordered_def by (metis atLeastAtMost_iff)

section \<open>The loops\<close>

lemma sift_up_works:
  "heap_rep h f n \<Longrightarrow> 1 \<le> j \<Longrightarrow> j \<le> n \<Longrightarrow> up_hole key f n j \<Longrightarrow>
   \<exists>h' f'. heap_sift_up (\<lambda>a b. key a < key b) h (f j) = Some h' \<and> heap_rep h' f' n \<and> heap_ordered key f' n \<and>
     f' ` {1..n} = f ` {1..n}"
proof (induction j arbitrary: h f rule: less_induct)
  case (less j)
  let ?lt = "\<lambda>a b. key a < key b"
  note mem = rep_mem [OF less.prems(1-3)]
  show ?case
  proof (cases "2 \<le> j \<and> key (f j) < key (f (j div 2))")
    case False
    then have "heap_sift_up ?lt h (f j) = Some h"
      by (subst heap_sift_up.simps) (auto simp: mem node_at_def)
    moreover have "heap_ordered key f n" using up_hole_ordered [OF less.prems(4)] False by auto
    ultimately show ?thesis using less.prems(1) by blast
  next
    case True
    let ?f = "f(j div 2 := f j, j := f (j div 2))"
    let ?h = "heap_node_swap h (f (j div 2)) (f j)"
    have "heap_sift_up ?lt h (f j) = heap_sift_up ?lt ?h (?f (j div 2))"
      using True by (subst heap_sift_up.simps) (auto simp: mem node_at_def)
    moreover have "\<exists>h' f'. heap_sift_up ?lt ?h (?f (j div 2)) = Some h' \<and> heap_rep h' f' n \<and> heap_ordered key f' n \<and>
        f' ` {1..n} = ?f ` {1..n}"
    proof (rule less.IH)
      show "heap_rep ?h ?f n" using heap_rep_swap less.prems True by simp
      show "up_hole key ?f n (j div 2)" using up_hole_swap less.prems True by auto
    qed (use True less.prems in auto)
    moreover have "?f ` {1..n} = f ` {1..n}" using True less.prems by (intro swap_image) auto
    ultimately show ?thesis by metis
  qed
qed

lemma smallest_child:
  fixes key :: "nat \<Rightarrow> 'k::linorder"
  assumes "heap_rep h f n" "1 \<le> j" "j \<le> n"
  obtains "heap_smallest (\<lambda>a b. key a < key b) h (f j) = f j" "\<And>i. 2 \<le> i \<Longrightarrow> i \<le> n \<Longrightarrow> i div 2 = j \<Longrightarrow> key (f j) \<le> key (f i)"
  | c where "heap_smallest (\<lambda>a b. key a < key b) h (f j) = f c" "c div 2 = j" "2 \<le> c" "c \<le> n"
      "\<And>i. 2 \<le> i \<Longrightarrow> i \<le> n \<Longrightarrow> i div 2 = j \<Longrightarrow> key (f c) \<le> key (f i)" "key (f c) < key (f j)"
proof -
  have ch: "i div 2 = j \<longleftrightarrow> i = 2 * j \<or> i = Suc (2 * j)" for i by auto
  note mem = rep_mem [OF assms]
  let ?s = "heap_smallest (\<lambda>a b. key a < key b) h (f j)"
  have s: "?s = (let s = (if 2 * j \<le> n \<and> key (f (2 * j)) < key (f j) then f (2 * j) else f j)
      in if Suc (2 * j) \<le> n \<and> key (f (Suc (2 * j))) < key s then f (Suc (2 * j)) else s)"
    by (simp add: heap_smallest_def mem node_at_def Let_def)
  consider "?s = f j" "2 * j \<le> n \<longrightarrow> key (f j) \<le> key (f (2 * j))" "Suc (2 * j) \<le> n \<longrightarrow> key (f j) \<le> key (f (Suc (2 * j)))"
    | "2 * j \<le> n" "?s = f (2 * j)" "key (f (2 * j)) < key (f j)" "Suc (2 * j) \<le> n \<longrightarrow> key (f (2 * j)) \<le> key (f (Suc (2 * j)))"
    | "Suc (2 * j) \<le> n" "?s = f (Suc (2 * j))" "key (f (Suc (2 * j))) < key (f j)" "key (f (Suc (2 * j))) \<le> key (f (2 * j))"
  proof (cases "2 * j \<le> n \<and> key (f (2 * j)) < key (f j)")
    case l: True
    show ?thesis
    proof (cases "Suc (2 * j) \<le> n \<and> key (f (Suc (2 * j))) < key (f (2 * j))")
      case True
      with l have "key (f (Suc (2 * j))) < key (f j)" by (auto dest: less_trans)
      moreover from True l s have "?s = f (Suc (2 * j))" by auto
      ultimately
      show ?thesis using that(3) True less_imp_le by blast
    next
      case False
      with l s have "?s = f (2 * j)" by auto
      with l False show ?thesis using that(2) not_less by metis
    qed
  next
    case l: False
    then have s': "?s = (if Suc (2 * j) \<le> n \<and> key (f (Suc (2 * j))) < key (f j) then f (Suc (2 * j)) else f j)"
      using s by auto
    show ?thesis
    proof (cases "Suc (2 * j) \<le> n \<and> key (f (Suc (2 * j))) < key (f j)")
      case True
      with l have "key (f (Suc (2 * j))) \<le> key (f (2 * j))" by auto
      with True s' show ?thesis using that(3) by simp
    next
      case False
      with l s' show ?thesis using that(1) not_less by metis
    qed
  qed
  then show thesis
  proof cases
    case 1
    then show ?thesis by (intro that(1)) (auto simp: ch)
  next
    case 2
    then show ?thesis using assms(2) by (intro that(2) [of "2 * j"]) (auto simp: ch)
  next
    case 3
    then show ?thesis using assms(2) by (intro that(2) [of "Suc (2 * j)"]) (auto simp: ch)
  qed
qed

lemma sift_down_works:
  "heap_rep h f n \<Longrightarrow> 1 \<le> j \<Longrightarrow> j \<le> n \<Longrightarrow> hole key f n j \<Longrightarrow>
   \<exists>h' f' k. heap_sift_down (\<lambda>a b. key a < key b) h (f j) = Some h' \<and> heap_rep h' f' n \<and> f' k = f j \<and> 1 \<le> k \<and> k \<le> n \<and>
     up_hole key f' n k \<and> f' ` {1..n} = f ` {1..n}"
proof (induction "n - j" arbitrary: j h f rule: less_induct)
  case less
  let ?lt = "\<lambda>a b. key a < key b"
  from less.prems(1-3) show ?case
  proof (cases rule: smallest_child [where key = key])
    case 1
    then have "heap_sift_down ?lt h (f j) = Some h" by (subst heap_sift_down.simps) simp
    moreover have "up_hole key f n j" using 1 less.prems unfolding up_hole_def by auto
    ultimately show ?thesis using less.prems by blast
  next
    case (2 c)
    let ?f = "f(j := f c, c := f j)"
    let ?h = "heap_node_swap h (f j) (f c)"
    have cj: "j < c" using 2 by auto
    with 2 less.prems have "f c \<noteq> f j" using rep_inj [OF less.prems(1), of c j] by simp
    then have "heap_sift_down ?lt h (f j) = heap_sift_down ?lt ?h (?f c)"
      using 2(1) by (subst heap_sift_down.simps) simp
    moreover have "\<exists>h' f' k. heap_sift_down ?lt ?h (?f c) = Some h' \<and> heap_rep h' f' n \<and> f' k = ?f c \<and> 1 \<le> k \<and> k \<le> n \<and>
        up_hole key f' n k \<and> f' ` {1..n} = ?f ` {1..n}"
    proof (rule less.hyps)
      show "n - c < n - j" using 2(4) cj by simp
      show "heap_rep ?h ?f n" using heap_rep_swap [OF less.prems(1) 2(3,4)] 2(2) by simp
      show "hole key ?f n c" by (rule hole_swap [OF less.prems(4) 2(2-4)]) (rule 2(5))
    qed (use 2(3,4) in simp_all)
    moreover have "?f ` {1..n} = f ` {1..n}" using swap_image less.prems(2,3) 2(3,4) by simp
    moreover have "?f c = f j" by simp
    ultimately show ?thesis by (simp only:)
  qed
qed


section \<open>Walking to a position\<close>

text \<open>The turns from the root to position \<open>n\<close>, and the position reached by turns from \<open>p\<close>.\<close>

fun turns :: "nat \<Rightarrow> bool list" where
  "turns n = (if 2 \<le> n then turns (n div 2) @ [odd n] else [])"

declare turns.simps [simp del]

fun position :: "nat \<Rightarrow> bool list \<Rightarrow> nat" where
  "position p [] = p"
| "position p (b # bs) = position (2 * p + of_bool b) bs"

lemma position_snoc: "position p (bs @ [b]) = 2 * position p bs + of_bool b"
  by (induction bs arbitrary: p) auto

lemma position_turns: "1 \<le> n \<Longrightarrow> position 1 (turns n) = n"
proof (induction n rule: turns.induct)
  case (1 n)
  then show ?case by (subst turns.simps) (auto simp: position_snoc)
qed

lemma position_ge: "p \<le> position p bs"
proof (induction bs arbitrary: p)
  case (Cons b bs)
  have "p \<le> 2 * p + of_bool b" by simp
  with Cons [of "2 * p + of_bool b"] show ?case by (auto simp del: of_bool_eq_0_iff)
qed simp

lemma position_half: "1 \<le> p \<Longrightarrow> bs \<noteq> [] \<Longrightarrow> p \<le> position p bs div 2"
  using position_ge [of "2 * p + of_bool (hd bs)" "tl bs"] by (cases bs) auto

lemma turns_length: "n < 2 ^ Suc m \<Longrightarrow> length (turns n) \<le> m"
proof (induction m arbitrary: n)
  case 0
  then show ?case by (subst turns.simps) auto
next
  case (Suc m)
  then show ?case using Suc.IH [of "n div 2"] by (subst turns.simps) auto
qed

lemma odd_unat: "odd (unat w) \<longleftrightarrow> bit w 0" for w :: u32
  by transfer (simp add: bit_simps bit_0 even_nat_iff)

lemma path_bits:
  "heap_path k path n = (k', path') \<Longrightarrow> unat k + length (turns (unat n)) \<le> 31 \<Longrightarrow>
   unat k' = unat k + length (turns (unat n)) \<and>
   map (bit path') [0..<unat k + length (turns (unat n))] = turns (unat n) @ map (bit path) [0..<unat k]"
proof (induction k path n rule: heap_path.induct)
  case (1 k path n)
  show ?case
  proof (cases "2 \<le> n")
    case False
    then have "turns (unat n) = []" by (subst turns.simps) (simp add: word_le_nat_alt)
    with False 1 show ?thesis by (simp add: heap_path.simps)
  next
    case True
    have t: "turns (unat n) = turns (unat (n div 2)) @ [odd (unat n)]"
      using True by (subst turns.simps) (simp add: word_le_nat_alt unat_div)
    have k1: "unat (k + 1) = unat k + 1"
      using 1(3) t by (intro unat_add_lem [THEN iffD1, THEN trans]) (simp_all)
    let ?p = "push_bit 1 path OR (n AND 1)"
    have "map (bit ?p) [0..<unat (k + 1)] = odd (unat n) # map (bit path) [0..<unat k]"
    proof -
      have "[0..<unat (k + 1)] = 0 # map Suc [0..<unat k]" unfolding k1 by (simp add: upt_conv_Cons map_Suc_upt del: upt_Suc)
      moreover have "bit ?p 0 = odd (unat n)" by (simp add: bit_simps odd_unat) (simp add: bit_0)
      moreover have "bit ?p (Suc i) = bit path i" if "i < unat k" for i
        using that 1(3) t by (simp add: bit_simps mult.commute [of path 2])
      ultimately show ?thesis by simp
    qed
    with 1(1) [OF True] 1(2,3) True t k1
    show ?thesis by (simp add: heap_path.simps [of k path n] del: upt_Suc)
  qed
qed


definition link_of :: "(nat \<Rightarrow> nat) \<Rightarrow> nat \<Rightarrow> link" where
  "link_of f p = (if p \<le> 1 then AtMin else if even p then AtLeft (f (p div 2)) else AtRight (f (p div 2)))"

lemma load_link_of: "heap_rep h f n \<Longrightarrow> 1 \<le> p \<Longrightarrow> p \<le> n \<Longrightarrow> link_load h (link_of f p) = Some (f p)"
  using rep_mem [of h f n "p div 2"] by (auto simp: link_of_def node_at_def heap_rep_def elim!: oddE)

lemma walk_turns:
  "heap_rep h f n \<Longrightarrow> 1 \<le> p \<Longrightarrow> map (bit path) [0..<unat k] = bs \<Longrightarrow> position p bs div 2 \<le> n \<Longrightarrow>
   heap_walk h k path par (link_of f p) =
     Some (if bs = [] then par else link_of f (position p bs div 2), link_of f (position p bs))"
proof (induction bs arbitrary: p path k par)
  case Nil
  then show ?case by (subst heap_walk.simps) (simp add: word_less_nat_alt)
next
  case (Cons b bs)
  from Cons.prems(3) have "0 < unat k" by (cases "unat k") auto
  then obtain m where m: "unat k = Suc m" by (cases "unat k") auto
  then have k: "0 < k" "unat (k - 1) = m" by (auto simp: word_less_nat_alt unat_sub word_le_nat_alt)
  have s: "[0..<unat k] = 0 # map Suc [0..<m]" unfolding m by (simp add: upt_conv_Cons map_Suc_upt del: upt_Suc)
  from Cons.prems(3) have b: "b = bit path 0" and bs: "map (bit (drop_bit 1 path)) [0..<m] = bs"
    unfolding s by (auto simp: bit_simps)
  have "p \<le> n" using position_half [of p "b # bs"] Cons.prems by simp
  then have l: "link_load h (link_of f p) = Some (f p)" using load_link_of Cons.prems by simp
  have n1: "path AND 1 \<noteq> 0 \<longleftrightarrow> b" unfolding b by (simp add: and_one_eq bit_0 odd_iff_mod_2_eq_one)
  have "(if path AND 1 \<noteq> 0 then AtRight (f p) else AtLeft (f p)) = link_of f (2 * p + of_bool b)"
    using Cons.prems(2) unfolding n1 by (simp add: link_of_def)
  then have "heap_walk h k path par (link_of f p) = heap_walk h (k - 1) (drop_bit 1 path) (link_of f p) (link_of f (2 * p + of_bool b))"
    using k l by (subst heap_walk.simps) simp
  also have "\<dots> = Some (if bs = [] then link_of f p else link_of f (position (2 * p + of_bool b) bs div 2),
      link_of f (position (2 * p + of_bool b) bs))"
    using Cons.prems bs k by (intro Cons.IH) simp_all
  also have "\<dots> = Some (link_of f (position p (b # bs) div 2), link_of f (position p (b # bs)))" by simp
  finally show ?case by simp
qed

text \<open>The walk to position \<open>m\<close>, which is there or the next free one.\<close>

lemma walk_to:
  assumes "heap_rep h f n" "1 \<le> m" "m \<le> Suc n" "unat w = m" "heap_path 0 0 w = (k, path)"
  shows "heap_walk h k path AtMin AtMin = Some (link_of f (m div 2), link_of f m)"
proof -
  have "unat w < 2 ^ Suc 31" using unsigned_less [of w] by simp
  then have len: "length (turns m) \<le> 31" using turns_length assms(4) by blast
  from path_bits [OF assms(5)] len assms(4) have "map (bit path) [0..<unat k] = turns m" by simp
  from walk_turns [OF assms(1) order_refl this] assms(2,3) position_turns [OF assms(2)]
  have "heap_walk h k path AtMin (link_of f 1) = Some (if turns m = [] then AtMin else link_of f (m div 2), link_of f m)" by simp
  moreover have "turns m = [] \<Longrightarrow> m div 2 \<le> 1" by (subst (asm) turns.simps) (auto split: if_splits)
  ultimately show ?thesis by (auto simp: link_of_def)
qed

section \<open>Insertion and removal keep the order\<close>

lemma link_store_fields:
  "hn_left (hp_mem (link_store l x h) q) = (if l = AtLeft q then x else hn_left (hp_mem h q))"
  "hn_right (hp_mem (link_store l x h) q) = (if l = AtRight q then x else hn_right (hp_mem h q))"
  "hn_parent (hp_mem (link_store l x h) q) = hn_parent (hp_mem h q)"
  "hp_min (link_store l x h) = (if l = AtMin then x else hp_min h)"
  "hp_nelts (link_store l x h) = hp_nelts h"
  by (cases l; simp add: heap_fields)+

lemma rep_store_other: "heap_rep h f n \<Longrightarrow> p \<notin> f ` {1..n} \<Longrightarrow> heap_rep (heap_store p v h) f n"
  unfolding heap_rep_def heap_store_def by auto

lemma rep_link_new:
  assumes rep: "heap_rep h f n" and p: "p \<notin> f ` {1..n}" and n: "n < 2 ^ 32 - 1"
    and blank: "hp_mem h p = \<lparr>hn_left = None, hn_right = None, hn_parent = None\<rparr>"
  shows "heap_rep ((link_store (link_of f (Suc n)) (Some p) (set_parent p (link_load h (link_of f (Suc n div 2))) h))
      \<lparr>hp_nelts := hp_nelts h + 1\<rparr>) (f(Suc n := p)) (Suc n)" (is "heap_rep (?h\<lparr>hp_nelts := _\<rparr>) ?f _")
proof -
  note inj = rep_inj [OF rep] and mem = rep_mem [OF rep]
  have pf: "p \<noteq> f i" "f i \<noteq> p" if "1 \<le> i" "i \<le> n" for i using p that by auto
  have load: "link_load h (link_of f (Suc n div 2)) = (if n = 0 then None else Some (f (Suc n div 2)))"
  proof (cases "n = 0")
    case True
    with rep show ?thesis by (simp add: link_of_def heap_rep_def)
  next
    case False
    then have "1 \<le> Suc n div 2" "Suc n div 2 \<le> n" by auto
    with False load_link_of [OF rep] show ?thesis by simp
  qed
  have link: "link_of f (Suc n) = AtLeft q \<longleftrightarrow> n \<noteq> 0 \<and> odd n \<and> q = f (Suc n div 2)"
    "link_of f (Suc n) = AtRight q \<longleftrightarrow> n \<noteq> 0 \<and> even n \<and> q = f (Suc n div 2)" "link_of f (Suc n) = AtMin \<longleftrightarrow> n = 0" for q
    by (auto simp: link_of_def)
  have "hp_mem ?h (?f i) = node_at ?f (Suc n) i" if i: "1 \<le> i" "i \<le> Suc n" for i
  proof (cases "i = Suc n")
    case True
    have "Suc n div 2 \<le> n" "\<not> 2 * Suc n \<le> Suc n" "n \<noteq> 0 \<Longrightarrow> 1 \<le> Suc n div 2" by auto
    then show ?thesis unfolding True
      by (intro heap_node_eqI) (auto simp: link_store_fields heap_fields load link blank node_at_def pf)
  next
    case False
    with i have "i \<le> n" by simp
    have l: "2 * i = Suc n \<longleftrightarrow> n \<noteq> 0 \<and> odd n \<and> i = Suc n div 2"
      using i by (cases "odd n") (auto elim: oddE evenE dest: arg_cong [where f = even])
    have l2: "Suc (2 * i) = Suc n \<longleftrightarrow> n \<noteq> 0 \<and> even n \<and> i = Suc n div 2"
      using i by (cases "even n") (auto elim!: evenE)
    have "n \<noteq> 0 \<Longrightarrow> 1 \<le> Suc n div 2 \<and> Suc n div 2 \<le> n" by auto
    then have "f (Suc n div 2) = f i \<longleftrightarrow> i = Suc n div 2" if "n \<noteq> 0" using that inj i(1) \<open>i \<le> n\<close> by auto
    then have link_i: "link_of f (Suc n) = AtLeft (f i) \<longleftrightarrow> 2 * i = Suc n" "link_of f (Suc n) = AtRight (f i) \<longleftrightarrow> Suc (2 * i) = Suc n"
      unfolding link l l2 by auto
    show ?thesis
    proof (rule heap_node_eqI)
      show "hn_left (hp_mem ?h (?f i)) = hn_left (node_at ?f (Suc n) i)"
        using i(1) \<open>i \<le> n\<close> False by (simp add: link_store_fields heap_fields link_i) (simp add: mem node_at_def)
      show "hn_right (hp_mem ?h (?f i)) = hn_right (node_at ?f (Suc n) i)"
        using i(1) \<open>i \<le> n\<close> False by (simp add: link_store_fields heap_fields link_i) (simp add: mem node_at_def)
      show "hn_parent (hp_mem ?h (?f i)) = hn_parent (node_at ?f (Suc n) i)"
        using i \<open>i \<le> n\<close> False by (auto simp: link_store_fields heap_fields mem node_at_def pf)
    qed
  qed
  moreover have "hp_min ?h = Some (?f 1)" using rep by (auto simp: link_store_fields heap_fields link heap_rep_def)
  moreover have "unat (hp_nelts h + 1) = Suc n"
  proof -
    have "unat (hp_nelts h) = n" using rep by (simp add: heap_rep_def)
    with n show ?thesis by (simp add: unat_word_ariths)
  qed
  moreover have "inj_on ?f {1..Suc n}" using inj pf by (auto simp: inj_on_def)
  ultimately show ?thesis unfolding heap_rep_def by auto
qed

lemma ordered_extend:
  assumes "heap_ordered key f n"
  shows "up_hole key (f(Suc n := p)) (Suc n) (Suc n)"
proof -
  have "i \<noteq> Suc n \<and> i div 2 \<noteq> Suc n" if "2 \<le> i" "i \<le> n" for i using that by auto
  moreover have "i div 2 \<noteq> Suc n" if "2 \<le> i" "i \<le> Suc n" for i using that by auto
  ultimately show ?thesis using assms unfolding up_hole_def hole_def heap_ordered_def by (auto simp: le_Suc_eq)
qed

lemma heap_insert_works:
  assumes rep: "heap_rep h f n" and ord: "heap_ordered key f n" and p: "p \<notin> f ` {1..n}" and n: "n < 2 ^ 32 - 1"
  shows "\<exists>h' f'. heap_insert (\<lambda>a b. key a < key b) h p = Some h' \<and> heap_rep h' f' (Suc n) \<and> heap_ordered key f' (Suc n) \<and>
    f' ` {1..Suc n} = insert p (f ` {1..n})"
proof -
  let ?h1 = "heap_store p \<lparr>hn_left = None, hn_right = None, hn_parent = None\<rparr> h"
  let ?h2 = "(link_store (link_of f (Suc n)) (Some p) (set_parent p (link_load ?h1 (link_of f (Suc n div 2))) ?h1))
      \<lparr>hp_nelts := hp_nelts ?h1 + 1\<rparr>"
  obtain k path where kp: "heap_path 0 0 (1 + hp_nelts ?h1) = (k, path)" by force
  have r1: "heap_rep ?h1 f n" using rep p by (rule rep_store_other)
  have "unat (1 + hp_nelts ?h1) = Suc n"
  proof -
    have "unat (hp_nelts ?h1) = n" using r1 by (simp add: heap_rep_def)
    with n show ?thesis by (simp add: unat_word_ariths)
  qed
  from walk_to [OF r1 _ _ this kp] have w: "heap_walk ?h1 k path AtMin AtMin = Some (link_of f (Suc n div 2), link_of f (Suc n))" by simp
  have "heap_insert (\<lambda>a b. key a < key b) h p = heap_sift_up (\<lambda>a b. key a < key b) ?h2 ((f(Suc n := p)) (Suc n))"
    using kp w by (simp add: heap_insert_def Let_def link_store_fields heap_fields)
  moreover have "heap_rep ?h2 (f(Suc n := p)) (Suc n)" using r1 p n by (rule rep_link_new) (simp add: heap_store_def)
  from sift_up_works [OF this _ _ ordered_extend [OF ord]] obtain h' f' where
    "heap_sift_up (\<lambda>a b. key a < key b) ?h2 ((f(Suc n := p)) (Suc n)) = Some h'" "heap_rep h' f' (Suc n)" "heap_ordered key f' (Suc n)"
    "f' ` {1..Suc n} = (f(Suc n := p)) ` {1..Suc n}" by auto
  moreover have "(f(Suc n := p)) ` {1..Suc n} = insert p (f ` {1..n})" by (auto simp: image_iff le_Suc_eq)
  ultimately show ?thesis by auto
qed

lemma rep_unlink_last:
  assumes rep: "heap_rep h f n" and n: "1 \<le> n"
  shows "heap_rep (link_store (link_of f n) None (h\<lparr>hp_nelts := hp_nelts h - 1\<rparr>)) f (n - 1)" (is "heap_rep ?h _ _")
proof -
  note inj = rep_inj [OF rep] and mem = rep_mem [OF rep]
  have link: "link_of f n = AtLeft (f i) \<longleftrightarrow> 2 * i = n" "link_of f n = AtRight (f i) \<longleftrightarrow> 2 * i + 1 = n" if "1 \<le> i" "i < n" for i
  proof -
    have "1 \<le> n div 2" "n div 2 \<le> n" if "2 \<le> n" using that by auto
    then have "2 \<le> n \<Longrightarrow> f (n div 2) = f i \<longleftrightarrow> n div 2 = i" using inj that by simp
    then show "link_of f n = AtLeft (f i) \<longleftrightarrow> 2 * i = n" "link_of f n = AtRight (f i) \<longleftrightarrow> 2 * i + 1 = n"
      using that by (auto simp: link_of_def elim!: oddE)
  qed
  have "hp_mem ?h (f i) = node_at f (n - 1) i" if "1 \<le> i" "i < n" for i
  proof -
    have "2 * i \<le> n - 1 \<longleftrightarrow> 2 * i \<le> n \<and> 2 * i \<noteq> n" "2 * i + 1 \<le> n - 1 \<longleftrightarrow> 2 * i + 1 \<le> n \<and> 2 * i + 1 \<noteq> n" using n by auto
    then show ?thesis using that by (intro heap_node_eqI) (simp_all add: link_store_fields link mem node_at_def)
  qed
  moreover have "unat (hp_nelts h - 1) = n - 1"
    using rep n by (simp add: heap_rep_def unat_sub word_le_nat_alt)
  moreover have "link_of f n = AtMin \<longleftrightarrow> n = 1" using n by (auto simp: link_of_def)
  moreover have "inj_on f {1..n - 1}" using rep unfolding heap_rep_def by (elim conjE) (erule inj_on_subset, simp)
  moreover have "hp_min ?h = (if n - 1 = 0 then None else Some (f 1))"
    using rep n \<open>link_of f n = AtMin \<longleftrightarrow> n = 1\<close> by (simp add: link_store_fields heap_rep_def)
  moreover have "hp_nelts ?h = hp_nelts h - 1" by (simp add: link_store_fields)
  ultimately show ?thesis using n unfolding heap_rep_def by auto
qed

lemma rep_replace:
  assumes rep: "heap_rep h f m" and i: "1 \<le> i" "i \<le> m" and c: "c \<notin> f ` {1..m}"
    and h1: "h1 = heap_store c \<lparr>hn_left = hn_left (hp_mem h (f i)), hn_right = hn_right (hp_mem h (f i)), hn_parent = hn_parent (hp_mem h (f i))\<rparr> h"
    and h2: "h2 = set_parent_of (hn_left (hp_mem h1 c)) (Some c) h1"
    and h3: "h3 = set_parent_of (hn_right (hp_mem h2 c)) (Some c) h2"
  shows "heap_rep (heap_relink (hn_parent (hp_mem h3 (f i))) (f i) c h3) (f(i := c)) m" (is "heap_rep ?h ?f m")
proof -
  note inj = rep_inj [OF rep] and mem = rep_mem [OF rep]
  have pf: "c \<noteq> f k" "f k \<noteq> c" if "1 \<le> k" "k \<le> m" for k using c that by auto
  have ne: "2 * i \<noteq> i" "Suc (2 * i) \<noteq> i" "i div 2 \<noteq> i" using i by auto
  have ch: "hn_left (hp_mem h (f i)) = Some (f k) \<longleftrightarrow> k = 2 * i" "hn_right (hp_mem h (f i)) = Some (f k) \<longleftrightarrow> k = Suc (2 * i)"
    "hn_parent (hp_mem h (f i)) = Some (f k) \<longleftrightarrow> 2 * k = i \<or> Suc (2 * k) = i" "hn_left (hp_mem h (f k)) = Some (f i) \<longleftrightarrow> 2 * k = i"
    if k: "1 \<le> k" "k \<le> m" for k
  proof -
    show "hn_left (hp_mem h (f i)) = Some (f k) \<longleftrightarrow> k = 2 * i" "hn_right (hp_mem h (f i)) = Some (f k) \<longleftrightarrow> k = Suc (2 * i)"
      "hn_left (hp_mem h (f k)) = Some (f i) \<longleftrightarrow> 2 * k = i"
      using i k by (auto simp: mem node_at_def inj)
    have "(1 < i \<and> i div 2 = k) \<longleftrightarrow> 2 * k = i \<or> Suc (2 * k) = i" using k by auto
    then show "hn_parent (hp_mem h (f i)) = Some (f k) \<longleftrightarrow> 2 * k = i \<or> Suc (2 * k) = i"
      using i k by (auto simp: mem node_at_def inj)
  qed
  note hs = h3 h2 h1
  have nc: "hn_left (hp_mem h (f i)) \<noteq> Some c" "hn_right (hp_mem h (f i)) \<noteq> Some c" "hn_parent (hp_mem h (f i)) \<noteq> Some c"
    using i pf by (auto simp: mem node_at_def)
  have par: "hn_parent (hp_mem h3 (f i)) = hn_parent (hp_mem h (f i))"
    using i pf ch ne by (simp add: hs heap_fields)
  have "hp_mem ?h (?f k) = node_at ?f m k" if k: "1 \<le> k" "k \<le> m" for k
  proof (cases "k = i")
    case True
    have l: "hn_left (hp_mem ?h c) = hn_left (hp_mem h (f i))" "hn_right (hp_mem ?h c) = hn_right (hp_mem h (f i))"
      "hn_parent (hp_mem ?h c) = hn_parent (hp_mem h (f i))"
      unfolding par using nc by (simp_all add: hs relink_fields heap_fields)
    show ?thesis unfolding True using ne i by (intro heap_node_eqI) (simp_all add: l mem node_at_def)
  next
    case False
    have l: "hn_left (hp_mem ?h (f k)) = (if 2 * k = i then Some c else hn_left (hp_mem h (f k)))"
      "hn_right (hp_mem ?h (f k)) = (if Suc (2 * k) = i then Some c else hn_right (hp_mem h (f k)))"
      "hn_parent (hp_mem ?h (f k)) = (if k = 2 * i \<or> k = Suc (2 * i) then Some c else hn_parent (hp_mem h (f k)))"
      unfolding par using pf k by (auto simp: hs relink_fields heap_fields ch)
    have dn: "k div 2 = i \<longleftrightarrow> k = 2 * i \<or> k = Suc (2 * i)" by auto
    show ?thesis using False k i by (intro heap_node_eqI) (simp_all add: l mem node_at_def dn)
  qed
  moreover have "hp_min ?h = Some (?f 1)"
    unfolding par using rep i ne by (auto simp: hs relink_fields heap_fields mem node_at_def heap_rep_def)
  moreover have "unat (hp_nelts ?h) = m" using rep by (simp add: hs relink_fields heap_fields heap_rep_def)
  moreover have "inj_on ?f {1..m}" using inj pf by (auto simp: inj_on_def)
  ultimately show ?thesis using i unfolding heap_rep_def by auto
qed

lemma ordered_replace:
  assumes "heap_ordered key f n" "m \<le> n" "1 \<le> i"
  shows "hole key (f(i := c)) m i"
proof -
  have o: "\<And>k. 2 \<le> k \<Longrightarrow> k \<le> n \<Longrightarrow> key (f (k div 2)) \<le> key (f k)" using assms unfolding heap_ordered_def by auto
  have "key (f (i div 2)) \<le> key (f k)" if "2 \<le> k" "k \<le> m" "k div 2 = i" "2 \<le> i" for k
  proof -
    have "i \<le> n" using that assms(2) by auto
    with o [of i] that have "key (f (i div 2)) \<le> key (f i)" by simp
    also have "\<dots> \<le> key (f k)" using o [of k] that assms(2) by simp
    finally show ?thesis .
  qed
  moreover have "k \<noteq> i" "i div 2 \<noteq> i" if "k div 2 = i" for k using that assms(3) by auto
  moreover have "key (f (k div 2)) \<le> key (f k)" if "2 \<le> k" "k \<le> m" for k using o [of k] that assms(2) by simp
  ultimately show ?thesis unfolding hole_def Ball_def atLeastAtMost_iff fun_upd_apply by metis
qed

lemma heap_remove_works:
  assumes rep: "heap_rep h f n" and ord: "heap_ordered key f n" and p: "p \<in> f ` {1..n}"
  shows "\<exists>h' f'. heap_remove (\<lambda>a b. key a < key b) h (Some p) = Some h' \<and> heap_rep h' f' (n - 1) \<and> heap_ordered key f' (n - 1) \<and>
    f' ` {1..n - 1} = f ` {1..n} - {p}"
proof -
  let ?lt = "\<lambda>a b. key a < key b"
  from p obtain i where i: "1 \<le> i" "i \<le> n" "p = f i" by auto
  then have n: "1 \<le> n" by simp
  have un: "unat (hp_nelts h) = n" using rep by (simp add: heap_rep_def)
  with n have nz: "hp_nelts h \<noteq> 0" by auto
  obtain k path where kp: "heap_path 0 0 (hp_nelts h) = (k, path)" by force
  from walk_to [OF rep n _ un kp] have w: "heap_walk h k path AtMin AtMin = Some (link_of f (n div 2), link_of f n)" by simp
  let ?h0 = "h\<lparr>hp_nelts := hp_nelts h - 1\<rparr>"
  define h0 where "h0 = link_store (link_of f n) None ?h0"
  have "heap_rep h f n \<Longrightarrow> link_load ?h0 l = link_load h l" for l by (cases l) auto
  with rep load_link_of [OF rep n] have l: "link_load ?h0 (link_of f n) = Some (f n)" by simp
  have r0: "heap_rep h0 f (n - 1)" unfolding h0_def by (rule rep_unlink_last [OF rep n])
  have inj: "inj_on f {1..n}" using rep by (simp add: heap_rep_def)
  have split: "{1..n} = insert n {1..n - 1}" using n by auto
  have fn: "f n \<notin> f ` {1..n - 1}" using inj_onD [OF inj, of n] n by fastforce
  show ?thesis
  proof (cases "i = n")
    case True
    have "f 1 \<noteq> f n" if "n - 1 \<noteq> 0" using fn that by (metis atLeastAtMost_iff imageI less_one not_le order_refl)
    then have "hp_min h0 \<noteq> Some (f n)" using r0 by (auto simp: heap_rep_def)
    then have "heap_remove ?lt h (Some p) = Some h0"
      using True i nz kp w l h0_def by (auto simp: heap_remove_def Let_def)
    moreover have "heap_ordered key f (n - 1)" using ord by (auto simp: heap_ordered_def)
    moreover have "f ` {1..n - 1} = f ` {1..n} - {p}" using True i fn unfolding split by auto
    ultimately show ?thesis using r0 by blast
  next
    case False
    then have i1: "i \<le> n - 1" "f n \<noteq> f i" using i fn by auto
    define h1 where "h1 = heap_store (f n) \<lparr>hn_left = hn_left (hp_mem h0 (f i)), hn_right = hn_right (hp_mem h0 (f i)), hn_parent = hn_parent (hp_mem h0 (f i))\<rparr> h0"
    define h2 where "h2 = set_parent_of (hn_left (hp_mem h1 (f n))) (Some (f n)) h1"
    define h3 where "h3 = set_parent_of (hn_right (hp_mem h2 (f n))) (Some (f n)) h2"
    let ?h = "heap_relink (hn_parent (hp_mem h3 (f i))) (f i) (f n) h3"
    let ?f = "f(i := f n)"
    have r: "heap_rep ?h ?f (n - 1)" by (rule rep_replace [OF r0 i(1) i1(1) fn h1_def h2_def h3_def])
    have e: "heap_remove ?lt h (Some p) = Option.bind (heap_sift_down ?lt ?h (?f i)) (\<lambda>h. heap_sift_up ?lt h (f n))"
      using i i1 nz kp w l by (simp add: heap_remove_def Let_def h0_def [symmetric] h1_def [symmetric] h2_def [symmetric] h3_def [symmetric])
    from sift_down_works [OF r i(1) i1(1) ordered_replace [OF ord _ i(1)]] obtain h' f' j where
      d: "heap_sift_down ?lt ?h (?f i) = Some h'" "heap_rep h' f' (n - 1)" "f' j = ?f i" "1 \<le> j" "j \<le> n - 1" "up_hole key f' (n - 1) j"
      "f' ` {1..n - 1} = ?f ` {1..n - 1}" by auto
    from sift_up_works [OF d(2,4-6)] d(3) obtain h'' f'' where
      u: "heap_sift_up ?lt h' (f n) = Some h''" "heap_rep h'' f'' (n - 1)" "heap_ordered key f'' (n - 1)" "f'' ` {1..n - 1} = f' ` {1..n - 1}"
      by auto
    have "?f ` {1..n - 1} = f ` {1..n} - {p}"
    proof -
      have "?f ` {1..n - 1} = insert (f n) (f ` ({1..n - 1} - {i}))" using i i1 by auto
      also have "\<dots> = f ` ({1..n} - {i})" using i i1 n unfolding split by auto
      also have "\<dots> = f ` {1..n} - {p}" using inj i by (subst inj_on_image_set_diff [OF inj]) auto
      finally show ?thesis .
    qed
    with e d u show ?thesis by auto
  qed
qed

section \<open>The contract of a priority queue\<close>

definition heap_holds :: "(nat \<Rightarrow> 'k::linorder) \<Rightarrow> heap \<Rightarrow> nat set \<Rightarrow> bool" where
  "heap_holds key h S \<longleftrightarrow> (\<exists>f n. heap_rep h f n \<and> heap_ordered key f n \<and> f ` {1..n} = S)"

lemma heap_rep_card: "heap_rep h f n \<Longrightarrow> card (f ` {1..n}) = n"
  by (simp add: heap_rep_def card_image)

lemma heap_min_least:
  assumes ord: "heap_ordered key f n" and i: "1 \<le> i" "i \<le> n"
  shows "key (f 1) \<le> key (f i)"
  using i
proof (induction i rule: less_induct)
  case (less i)
  show ?case
  proof (cases "i = 1")
    case False
    with less.prems have "1 \<le> i div 2" "i div 2 < i" "i div 2 \<le> n" "2 \<le> i" by auto
    with less.IH [of "i div 2"] have "key (f 1) \<le> key (f (i div 2))" by simp
    also have "\<dots> \<le> key (f i)" using ord \<open>2 \<le> i\<close> less.prems unfolding heap_ordered_def by auto
    finally show ?thesis .
  qed simp
qed

interpretation heap_queue: min_queue heap_holds heap_min heap_insert "\<lambda>lt h p. heap_remove lt h (Some p)" "2 ^ 32 - 1"
proof
  fix key :: "nat \<Rightarrow> 'k::linorder" and h S p
  assume "heap_holds key h S"
  then obtain f n where f: "heap_rep h f n" "heap_ordered key f n" "f ` {1..n} = S" unfolding heap_holds_def by blast
  have "hp_min h = (if n = 0 then None else Some (f 1))" using f(1) by (simp add: heap_rep_def)
  moreover have "\<forall>q\<in>S. key (f 1) \<le> key q" using heap_min_least [OF f(2)] f(3) by auto
  moreover have "n \<noteq> 0 \<Longrightarrow> f 1 \<in> S" using f(3) by auto
  ultimately show "case heap_min h of None \<Rightarrow> S = {} | Some p \<Rightarrow> p \<in> S \<and> (\<forall>q\<in>S. key p \<le> key q)"
    using f(3) by (auto simp: heap_min_def)
  show "finite S" using f(3) by auto
  have n: "card S = n" using heap_rep_card [OF f(1)] f(3) by simp
  show "\<exists>s'. heap_insert (\<lambda>a b. key a < key b) h p = Some s' \<and> heap_holds key s' (insert p S)" if "p \<notin> S" "card S < 2 ^ 32 - 1"
    using heap_insert_works [OF f(1,2), of p] that n f(3) unfolding heap_holds_def by metis
  show "\<exists>s'. heap_remove (\<lambda>a b. key a < key b) h (Some p) = Some s' \<and> heap_holds key s' (S - {p})" if "p \<in> S"
    using heap_remove_works [OF f(1,2), of p] that f(3) unfolding heap_holds_def by metis
  fix key' :: "nat \<Rightarrow> 'k"
  assume "\<forall>a\<in>S. key' a = key a"
  with f(3) have eq: "key' (f i) = key (f i)" if "1 \<le> i" "i \<le> n" for i using that by auto
  have "key' (f (i div 2)) \<le> key' (f i)" if "2 \<le> i" "i \<le> n" for i
  proof -
    have "1 \<le> i div 2" "i div 2 \<le> n" using that by auto
    with that f(2) show ?thesis unfolding heap_ordered_def by (simp add: eq)
  qed
  then have "heap_ordered key' f n" unfolding heap_ordered_def by simp
  with f show "heap_holds key' h S" unfolding heap_holds_def by blast
qed

text \<open>Programs over a heap, and what they mean on sets.\<close>

datatype pq_op = PqInsert nat | PqRemove nat | PqMin

fun heap_step :: "(nat \<Rightarrow> nat) \<Rightarrow> heap \<Rightarrow> pq_op \<Rightarrow> (nat option \<times> heap) option" where
  "heap_step key h (PqInsert p) = map_option (Pair None) (heap_insert (\<lambda>a b. key a < key b) h p)"
| "heap_step key h (PqRemove p) = map_option (Pair None) (heap_remove (\<lambda>a b. key a < key b) h (Some p))"
| "heap_step key h PqMin = Some (heap_min h, h)"

fun pq_step :: "(nat \<Rightarrow> nat) \<Rightarrow> nat set \<Rightarrow> pq_op \<Rightarrow> (nat option \<times> nat set) option" where
  "pq_step key S (PqInsert p) = (if p \<notin> S \<and> card S < 2 ^ 32 - 1 then Some (None, insert p S) else None)"
| "pq_step key S (PqRemove p) = (if p \<in> S then Some (None, S - {p}) else None)"
| "pq_step key S PqMin = Some (if S = {} then None else Some (arg_min_on key S), S)"

lemma arg_min_unique:
  "inj key \<Longrightarrow> finite S \<Longrightarrow> p \<in> S \<Longrightarrow> \<forall>q\<in>S. key p \<le> key q \<Longrightarrow> arg_min_on key S = (p::nat)" for key :: "nat \<Rightarrow> nat"
  by (metis arg_min_if_finite(1) arg_min_least empty_iff injD le_antisym)

interpretation heap_program: op_refinement "heap_step key" "pq_step key" "\<lambda>h S. inj key \<and> heap_holds key h S" "\<lambda>r. r" for key
proof
  fix h S op r S'
  assume a: "inj key \<and> heap_holds key h S" "pq_step key S op = Some (r, S')"
  show "\<exists>h'. heap_step key h op = Some (r, h') \<and> inj key \<and> heap_holds key h' S'"
  proof (cases op)
    case PqMin
    from a heap_queue.finite_law have fin: "finite S" by blast
    have "heap_min h = (if S = {} then None else Some (arg_min_on key S))"
    proof (cases "heap_min h")
      case None
      with heap_queue.front_None [of key h S] a show ?thesis by auto
    next
      case (Some p)
      with heap_queue.front_Some [of key h S p] a have p: "p \<in> S" "\<forall>q\<in>S. key p \<le> key q" by auto
      with fin a have "arg_min_on key S = p" by (simp add: arg_min_unique)
      with Some p show ?thesis by auto
    qed
    with a PqMin show ?thesis by (cases "S = {}") auto
  next
    case (PqInsert p)
    with a heap_queue.ins_law [of key h S p] show ?thesis by (auto split: if_splits)
  next
    case (PqRemove p)
    with a heap_queue.rmv_law [of key h S p] show ?thesis by (auto split: if_splits)
  qed
qed

lemma heap_init_holds: "heap_holds key (heap_init h) {}"
  unfolding heap_holds_def by (intro exI [of _ "\<lambda>i. i"] exI [of _ 0]) (simp add: heap_rep_def heap_ordered_def heap_init_def)

text \<open>C11: The heap of linked nodes is a priority queue: a program of insertions, removals of any node and
  questions for the least one never follows a null link and always ends, and it gets the answers a set would
  give, whatever the memory held before and for up to \<open>2 ^ 32 - 1\<close> nodes.\<close>

theorem heap_is_priority_queue:
  assumes "inj key" "run_ops (pq_step key) {} ops = Some (rs, S)"
  shows "\<exists>h'. run_ops (heap_step key) (heap_init h) ops = Some (rs, h') \<and> heap_holds key h' S"
  using heap_program.run_sim [of key "heap_init h" "{}" ops rs S] assms heap_init_holds by auto

theorem heap_is_priority_queue_witness:
  "\<exists>h'. run_ops (heap_step (\<lambda>p. p)) (heap_init \<lparr>hp_min = Some 7, hp_nelts = 9, hp_mem = (\<lambda>_. undefined)\<rparr>)
     [PqInsert 5, PqInsert 3, PqInsert 8, PqRemove 5, PqMin] = Some ([None, None, None, None, Some 3], h')"
proof -
  have "arg_min_on (\<lambda>p. p) {8, 3::nat} = 3"
    by (intro arg_min_unique) auto
  then have "run_ops (pq_step (\<lambda>p. p)) {} [PqInsert 5, PqInsert 3, PqInsert 8, PqRemove 5, PqMin]
      = Some ([None, None, None, None, Some 3], {8, 3})"
    by (simp add: insert_Diff_if)
  from heap_is_priority_queue [OF _ this] show ?thesis by (auto simp: inj_def)
qed

end
