(* ===== verification/EventTimer.thy ===== *)
theory EventTimer
  imports HeapOrder "HOL-Library.Product_Lexorder"
begin

text \<open>
  Timers: \<open>eventTimer_t.c\<close>, \<open>eventTimer_t.h\<close> and the part of \<open>eventIO_t.c\<close> that runs them.  A timer is a block
  of memory with a reference count, its address is a number; \<open>None\<close> in the map of timers is memory that is not
  allocated or was freed, and an access to it makes an operation undefined.  The callbacks are a parameter:
  \<open>cb\<close> gets the event and does to the state what the user's code does.  The functions that
  \<open>eventIO_runInLoop\<close> queues are kept in order.  The loop has one thread (\<open>uiCocurrentThreads = 0\<close>) or a
  thread of its own for the timers; both run the queue in the same way.
\<close>

section \<open>State\<close>

record timer =
  tm_fnCloseCallback :: bool
  tm_bOnce :: bool
  tm_bActive :: bool
  tm_bRunning :: bool
  tm_uiTimeout :: u64
  tm_uiID :: u64
  tm_uiIntervalMs :: u32
  tm_iRefCount :: int

datatype timer_event = Fired nat | TimerClosed nat | TimerFreed nat

datatype timer_task = TimerStart nat | TimerStop nat

record timerIO =
  io_timers :: "nat \<Rightarrow> timer option"
  io_timerHeap :: heap
  io_uiLoopTime :: u64
  io_uiTimerCounter :: u64
  io_bLoopRunning :: bool
  io_pending :: "timer_task list"
  io_log :: "timer_event list"

type_synonym timer_cb = "timer_event \<Rightarrow> timerIO \<Rightarrow> timerIO option"

definition log_event :: "timer_event \<Rightarrow> timerIO \<Rightarrow> timerIO" where
  "log_event e s = s\<lparr>io_log := io_log s @ [e]\<rparr>"

definition put_timer :: "nat \<Rightarrow> timer \<Rightarrow> timerIO \<Rightarrow> timerIO" where
  "put_timer p t s = s\<lparr>io_timers := (io_timers s)(p \<mapsto> t)\<rparr>"

section \<open>The functions of a timer\<close>

text \<open>Run on a free address \<open>p\<close>, which \<open>mem_malloc\<close> returns.\<close>

definition createEventTimer :: "nat \<Rightarrow> bool \<Rightarrow> u32 \<Rightarrow> timerIO \<Rightarrow> timerIO" where
  "createEventTimer p bOnce uiIntervalMs s =
     put_timer p \<lparr>tm_fnCloseCallback = False, tm_bOnce = bOnce, tm_bActive = False, tm_bRunning = False,
       tm_uiTimeout = 0, tm_uiID = 0xffffffffffffffff, tm_uiIntervalMs = uiIntervalMs, tm_iRefCount = 1\<rparr> s"

definition eventTimer_addref :: "nat \<Rightarrow> timerIO \<Rightarrow> timerIO option" where
  "eventTimer_addref p s = do {
     t \<leftarrow> io_timers s p;
     Some (put_timer p (t\<lparr>tm_iRefCount := tm_iRefCount t + 1\<rparr>) s) }"

definition eventTimer_release :: "nat \<Rightarrow> timerIO \<Rightarrow> timerIO option" where
  "eventTimer_release p s = do {
     t \<leftarrow> io_timers s p;
     Some (if tm_iRefCount t = 1 then log_event (TimerFreed p) (s\<lparr>io_timers := (io_timers s)(p := None)\<rparr>)
           else put_timer p (t\<lparr>tm_iRefCount := tm_iRefCount t - 1\<rparr>) s) }"

definition eventTimer_setCloseCallback :: "nat \<Rightarrow> bool \<Rightarrow> timerIO \<Rightarrow> timerIO option" where
  "eventTimer_setCloseCallback p fn s = do {
     t \<leftarrow> io_timers s p;
     Some (put_timer p (t\<lparr>tm_fnCloseCallback := fn\<rparr>) s) }"

definition eventTimer_isRunning :: "nat \<Rightarrow> timerIO \<Rightarrow> bool option" where
  "eventTimer_isRunning p s = map_option tm_bRunning (io_timers s p)"

definition eventTimer_isOnce :: "nat \<Rightarrow> timerIO \<Rightarrow> bool option" where
  "eventTimer_isOnce p s = map_option tm_bOnce (io_timers s p)"

definition timerLessThan :: "timerIO \<Rightarrow> nat \<Rightarrow> nat \<Rightarrow> bool" where
  "timerLessThan s pFirst pSecond =
     (let a = the (io_timers s pFirst); b = the (io_timers s pSecond)
      in if tm_uiTimeout a < tm_uiTimeout b then True
         else if tm_uiTimeout a > tm_uiTimeout b then False
         else if tm_uiID a < tm_uiID b then True
         else if tm_uiID a > tm_uiID b then False
         else False)"

definition timer_insert :: "nat \<Rightarrow> timerIO \<Rightarrow> timerIO option" where
  "timer_insert p s = map_option (\<lambda>h. s\<lparr>io_timerHeap := h\<rparr>) (heap_insert (timerLessThan s) (io_timerHeap s) p)"

definition timer_remove :: "nat \<Rightarrow> timerIO \<Rightarrow> timerIO option" where
  "timer_remove p s = map_option (\<lambda>h. s\<lparr>io_timerHeap := h\<rparr>) (heap_remove (timerLessThan s) (io_timerHeap s) (Some p))"

text \<open>The calls of \<open>fn\<close> and, when it is set, of \<open>fnCloseCallback\<close>; both read the timer.\<close>

definition call_fn :: "timer_cb \<Rightarrow> nat \<Rightarrow> timerIO \<Rightarrow> timerIO option" where
  "call_fn cb p s = do { t \<leftarrow> io_timers s p; cb (Fired p) (log_event (Fired p) s) }"

definition call_close :: "timer_cb \<Rightarrow> nat \<Rightarrow> timerIO \<Rightarrow> timerIO option" where
  "call_close cb p s = do {
     t \<leftarrow> io_timers s p;
     if tm_fnCloseCallback t then cb (TimerClosed p) (log_event (TimerClosed p) s) else Some s }"

text \<open>The exchange of \<open>bRunning\<close> from \<open>true\<close> to \<open>false\<close>, and \<open>fn\<close> when it succeeds.\<close>

definition run_once :: "timer_cb \<Rightarrow> nat \<Rightarrow> timerIO \<Rightarrow> timerIO option" where
  "run_once cb p s = do {
     t \<leftarrow> io_timers s p;
     if tm_bRunning t then call_fn cb p (put_timer p (t\<lparr>tm_bRunning := False\<rparr>) s) else Some s }"

text \<open>The time of the next run, and a fresh number.\<close>

definition timer_schedule :: "nat \<Rightarrow> timerIO \<Rightarrow> timerIO option" where
  "timer_schedule p s = do {
     t \<leftarrow> io_timers s p;
     let s = put_timer p (t\<lparr>tm_uiTimeout := io_uiLoopTime s + ucast (tm_uiIntervalMs t), tm_uiID := io_uiTimerCounter s\<rparr>) s;
     let s = s\<lparr>io_uiTimerCounter := io_uiTimerCounter s + 1\<rparr>;
     timer_insert p s }"

definition set_active :: "nat \<Rightarrow> bool \<Rightarrow> timerIO \<Rightarrow> timerIO option" where
  "set_active p b s = do {
     t \<leftarrow> io_timers s p;
     Some (put_timer p (t\<lparr>tm_bActive := b\<rparr>) s) }"

definition eventTimer_run :: "timer_cb \<Rightarrow> nat \<Rightarrow> timerIO \<Rightarrow> timerIO option" where
  "eventTimer_run cb p s = do {
     t \<leftarrow> io_timers s p;
     s \<leftarrow> timer_remove p s;
     if tm_bOnce t then do {
       s \<leftarrow> set_active p False s;
       s \<leftarrow> run_once cb p s;
       s \<leftarrow> call_close cb p s;
       eventTimer_release p s }
     else if tm_bRunning t then do {
       s \<leftarrow> timer_schedule p s;
       call_fn cb p s }
     else do {
       s \<leftarrow> set_active p False s;
       s \<leftarrow> call_close cb p s;
       eventTimer_release p s } }"

definition inLoop_eventTimer_cancel :: "nat \<Rightarrow> timerIO \<Rightarrow> timerIO option" where
  "inLoop_eventTimer_cancel p s = eventTimer_release p s"

definition inLoop_eventTimer_start :: "timer_cb \<Rightarrow> nat \<Rightarrow> timerIO \<Rightarrow> timerIO option" where
  "inLoop_eventTimer_start cb p s = do {
     t \<leftarrow> io_timers s p;
     if tm_uiIntervalMs t = 0 then do {
       s \<leftarrow> run_once cb p s;
       s \<leftarrow> call_close cb p s;
       eventTimer_release p s }
     else if tm_bRunning t then do {
       s \<leftarrow> timer_schedule p s;
       set_active p True s }
     else do {
       s \<leftarrow> call_close cb p s;
       eventTimer_release p s } }"

definition inLoop_eventTimer_stop :: "timer_cb \<Rightarrow> nat \<Rightarrow> timerIO \<Rightarrow> timerIO option" where
  "inLoop_eventTimer_stop cb p s = do {
     t \<leftarrow> io_timers s p;
     s \<leftarrow> (if tm_bActive t then do {
             s \<leftarrow> set_active p False s;
             s \<leftarrow> timer_remove p s;
             s \<leftarrow> call_close cb p s;
             eventTimer_release p s }
           else Some s);
     eventTimer_release p s }"

section \<open>The queue of the loop\<close>

text \<open>A queued function: its work while the loop runs, else its cancellation.\<close>

fun timer_task_run :: "timer_cb \<Rightarrow> timer_task \<Rightarrow> timerIO \<Rightarrow> timerIO option" where
  "timer_task_run cb (TimerStart p) s =
     (if io_bLoopRunning s then inLoop_eventTimer_start cb p s else inLoop_eventTimer_cancel p s)"
| "timer_task_run cb (TimerStop p) s = inLoop_eventTimer_stop cb p s"

text \<open>\<open>eventIO_runInLoop\<close>: at once on the thread of the loop, later from any other.\<close>

definition timer_runInLoop :: "bool \<Rightarrow> timer_cb \<Rightarrow> timer_task \<Rightarrow> timerIO \<Rightarrow> timerIO option" where
  "timer_runInLoop inLoopThread cb k s =
     (if inLoopThread then timer_task_run cb k s else Some (s\<lparr>io_pending := io_pending s @ [k]\<rparr>))"

definition eventTimer_start :: "bool \<Rightarrow> timer_cb \<Rightarrow> nat \<Rightarrow> timerIO \<Rightarrow> (bool \<times> timerIO) option" where
  "eventTimer_start inLoopThread cb p s = do {
     t \<leftarrow> io_timers s p;
     if \<not> tm_bRunning t
     then map_option (Pair True) (timer_runInLoop inLoopThread cb (TimerStart p)
            (put_timer p (t\<lparr>tm_bRunning := True, tm_iRefCount := tm_iRefCount t + 1\<rparr>) s))
     else Some (False, s) }"

definition eventTimer_stop :: "bool \<Rightarrow> timer_cb \<Rightarrow> nat \<Rightarrow> timerIO \<Rightarrow> timerIO option" where
  "eventTimer_stop inLoopThread cb p s = do {
     t \<leftarrow> io_timers s p;
     if tm_bRunning t
     then timer_runInLoop inLoopThread cb (TimerStop p)
            (put_timer p (t\<lparr>tm_bRunning := False, tm_iRefCount := tm_iRefCount t + 1\<rparr>) s)
     else Some s }"

text \<open>The queue is moved away and its functions run one after another (\<open>eventIOLoop_doEvents\<close>).\<close>

fun timer_tasks_run :: "timer_cb \<Rightarrow> timer_task list \<Rightarrow> timerIO \<Rightarrow> timerIO option" where
  "timer_tasks_run cb [] s = Some s"
| "timer_tasks_run cb (k # ks) s = do { s \<leftarrow> timer_task_run cb k s; timer_tasks_run cb ks s }"

definition timer_doEvents :: "timer_cb \<Rightarrow> timerIO \<Rightarrow> timerIO option" where
  "timer_doEvents cb s = timer_tasks_run cb (io_pending s) (s\<lparr>io_pending := []\<rparr>)"

section \<open>Running what is due\<close>

text \<open>The milliseconds to wait for the next timer, as an \<open>int32_t\<close>; -1 when there is none.\<close>

definition eventIO_nextTimeout :: "timerIO \<Rightarrow> 32 word option" where
  "eventIO_nextTimeout s =
     (case heap_min (io_timerHeap s) of
        None \<Rightarrow> Some (- 1)
      | Some p \<Rightarrow> do {
          t \<leftarrow> io_timers s p;
          Some (if tm_uiTimeout t \<le> io_uiLoopTime s then 0 else ucast (tm_uiTimeout t - io_uiLoopTime s)) })"

partial_function (option) eventIO_runTimers :: "timer_cb \<Rightarrow> timerIO \<Rightarrow> timerIO option" where
  "eventIO_runTimers cb s =
     (case heap_min (io_timerHeap s) of
        None \<Rightarrow> Some s
      | Some p \<Rightarrow>
          (case io_timers s p of
             None \<Rightarrow> None
           | Some t \<Rightarrow>
               if io_uiLoopTime s < tm_uiTimeout t then Some s
               else Option.bind (eventTimer_run cb p s) (\<lambda>s. eventIO_runTimers cb s)))"

end
