(* ===== verification/TimerInv.thy ===== *)
theory TimerInv
  imports EventTimer
begin

text \<open>No operation of the timers touches a freed timer or damages the heap.\<close>

section \<open>The invariant\<close>

definition timer_active :: "timerIO \<Rightarrow> nat \<Rightarrow> bool" where
  "timer_active s p \<longleftrightarrow> (case io_timers s p of None \<Rightarrow> False | Some t \<Rightarrow> tm_bActive t)"

definition timer_key :: "timerIO \<Rightarrow> nat \<Rightarrow> u64 \<times> u64" where
  "timer_key s p = (tm_uiTimeout (the (io_timers s p)), tm_uiID (the (io_timers s p)))"

lemma timerLessThan_key: "timerLessThan s = (\<lambda>a b. timer_key s a < timer_key s b)"
  by (auto simp: fun_eq_iff timerLessThan_def timer_key_def Let_def less_prod_def)

text \<open>The references the queue holds on a timer.\<close>

definition task_refs :: "timer_task list \<Rightarrow> nat \<Rightarrow> nat" where
  "task_refs ks p = count_list ks (TimerStart p) + count_list ks (TimerStop p)"

text \<open>\<open>h\<close> references are held by the functions that are running, \<open>ks\<close> are the queued functions: every
  reference is counted, an active timer has no start in the queue, at most one start is queued, and a timer
  that was stopped while active has its stop in the queue.\<close>

definition timer_ok :: "nat \<Rightarrow> timer_task list \<Rightarrow> nat \<Rightarrow> timer \<Rightarrow> bool" where
  "timer_ok h ks p t \<longleftrightarrow>
     int (h + task_refs ks p + of_bool (tm_bActive t)) \<le> tm_iRefCount t \<and> 0 < tm_iRefCount t \<and>
     count_list ks (TimerStart p) \<le> 1 \<and>
     (tm_bActive t \<longrightarrow> TimerStart p \<notin> set ks \<and> tm_uiIntervalMs t \<noteq> 0) \<and>
     (TimerStop p \<in> set ks \<longrightarrow> \<not> tm_bRunning t) \<and>
     (tm_bActive t \<and> \<not> tm_bRunning t \<longrightarrow> TimerStop p \<in> set ks)"

fun entry_ok :: "nat \<Rightarrow> timer_task list \<Rightarrow> nat \<Rightarrow> timer option \<Rightarrow> bool" where
  "entry_ok h ks p None \<longleftrightarrow> h = 0 \<and> task_refs ks p = 0"
| "entry_ok h ks p (Some t) \<longleftrightarrow> timer_ok h ks p t"

definition timers_inv :: "(nat \<Rightarrow> nat) \<Rightarrow> timer_task list \<Rightarrow> timerIO \<Rightarrow> bool" where
  "timers_inv held ks s \<longleftrightarrow>
     finite (dom (io_timers s)) \<and> card (dom (io_timers s)) < 2 ^ 32 \<and>
     heap_holds (timer_key s) (io_timerHeap s) {p. timer_active s p} \<and>
     (\<forall>p. entry_ok (held p) (ks @ io_pending s) p (io_timers s p))"

text \<open>What the callbacks of the user must do: given a live timer and a state in order, they return one.  Callbacks that
make any calls, starts too, are in \<open>TimerConc\<close>, where they are steps of the loop.\<close>

fun event_timer :: "timer_event \<Rightarrow> nat" where
  "event_timer (Fired p) = p" | "event_timer (TimerClosed p) = p" | "event_timer (TimerFreed p) = p"

definition cb_ok :: "timer_cb \<Rightarrow> bool" where
  "cb_ok cb \<longleftrightarrow> (\<forall>e held ks s. timers_inv held ks s \<longrightarrow> io_timers s (event_timer e) \<noteq> None \<longrightarrow>
     (\<exists>s'. cb e s = Some s' \<and> timers_inv held ks s'))"

lemma task_refs_simps [simp]:
  "task_refs [] p = 0" "task_refs (ks @ ks') p = task_refs ks p + task_refs ks' p"
  "task_refs (TimerStart q # ks) p = of_bool (q = p) + task_refs ks p"
  "task_refs (TimerStop q # ks) p = of_bool (q = p) + task_refs ks p"
  by (auto simp: task_refs_def)

lemma task_refs_mem: "TimerStart p \<in> set ks \<Longrightarrow> 0 < task_refs ks p" "TimerStop p \<in> set ks \<Longrightarrow> 0 < task_refs ks p"
  by (auto simp: task_refs_def count_list_0_iff intro: Nat.gr0I)

text \<open>An update of one timer.\<close>

lemma inv_put:
  assumes inv: "timers_inv held ks s" and t: "io_timers s p = Some t"
    and ok: "timer_ok (held' p) (ks' @ io_pending s) p t'"
    and same: "\<And>q. q \<noteq> p \<Longrightarrow> held' q = held q" "\<And>q. q \<noteq> p \<Longrightarrow> task_refs ks' q = task_refs ks q"
      "\<And>q. q \<noteq> p \<Longrightarrow> (TimerStart q \<in> set ks' \<longleftrightarrow> TimerStart q \<in> set ks) \<and> (TimerStop q \<in> set ks' \<longleftrightarrow> TimerStop q \<in> set ks) \<and>
         count_list ks' (TimerStart q) = count_list ks (TimerStart q)"
    and act: "tm_bActive t' = tm_bActive t"
      "tm_bActive t \<Longrightarrow> tm_uiTimeout t' = tm_uiTimeout t \<and> tm_uiID t' = tm_uiID t"
  shows "timers_inv held' ks' (put_timer p t' s)"
proof -
  have A: "{q. timer_active (put_timer p t' s) q} = {q. timer_active s q}"
    using t act by (auto simp: timer_active_def put_timer_def)
  have "heap_holds (timer_key (put_timer p t' s)) (io_timerHeap s) {q. timer_active s q}"
  proof (rule heap_queue.key_law)
    show "heap_holds (timer_key s) (io_timerHeap s) {q. timer_active s q}" using inv by (simp add: timers_inv_def)
    show "\<forall>q\<in>{q. timer_active s q}. timer_key (put_timer p t' s) q = timer_key s q"
      using t act by (auto simp: timer_key_def put_timer_def timer_active_def)
  qed
  moreover have "entry_ok (held' q) (ks' @ io_pending s) q (io_timers (put_timer p t' s) q)" for q
  proof (cases "q = p")
    case True
    with ok show ?thesis by (simp add: put_timer_def)
  next
    case False
    have "entry_ok (held q) (ks @ io_pending s) q (io_timers s q)" using inv by (simp add: timers_inv_def)
    with False same [OF False] show ?thesis
      by (cases "io_timers s q") (simp_all add: put_timer_def timer_ok_def)
  qed
  moreover have "dom (io_timers (put_timer p t' s)) = dom (io_timers s)" using t by (auto simp: put_timer_def)
  moreover have "io_timerHeap (put_timer p t' s) = io_timerHeap s" "io_pending (put_timer p t' s) = io_pending s"
    by (simp_all add: put_timer_def)
  ultimately show ?thesis using inv unfolding timers_inv_def A by simp
qed

lemma inv_entry: "timers_inv held ks s \<Longrightarrow> entry_ok (held p) (ks @ io_pending s) p (io_timers s p)"
  unfolding timers_inv_def by blast

lemma inv_timer: "timers_inv held ks s \<Longrightarrow> 0 < held p \<or> 0 < task_refs (ks @ io_pending s) p \<Longrightarrow> \<exists>t. io_timers s p = Some t"
  using inv_entry [of held ks s p] by (cases "io_timers s p") auto

lemma inv_ok: "timers_inv held ks s \<Longrightarrow> io_timers s p = Some t \<Longrightarrow> timer_ok (held p) (ks @ io_pending s) p t"
  using inv_entry [of held ks s p] by simp

lemma log_simps [simp]: "io_timers (log_event e s) = io_timers s" "io_pending (log_event e s) = io_pending s"
  "io_timerHeap (log_event e s) = io_timerHeap s" "timer_active (log_event e s) = timer_active s"
  "timer_key (log_event e s) = timer_key s"
  by (auto simp: log_event_def timer_active_def timer_key_def fun_eq_iff)

lemma inv_log [simp]: "timers_inv held ks (log_event e s) = timers_inv held ks s"
  by (simp add: timers_inv_def )

lemma put_simps [simp]: "io_timers (put_timer p t s) = (io_timers s)(p \<mapsto> t)" "io_pending (put_timer p t s) = io_pending s"
  "io_timerHeap (put_timer p t s) = io_timerHeap s" "io_uiLoopTime (put_timer p t s) = io_uiLoopTime s"
  by (auto simp: put_timer_def)

section \<open>The parts of the operations\<close>

text \<open>The release of a reference that nobody else counts.\<close>

lemma release_inv:
  assumes inv: "timers_inv held ks s" and t: "io_timers s p = Some t"
    and r: "int (held' p + task_refs (ks @ io_pending s) p + of_bool (tm_bActive t)) < tm_iRefCount t"
    and h: "\<And>q. q \<noteq> p \<Longrightarrow> held' q = held q" "held' p \<le> held p"
  shows "\<exists>s'. eventTimer_release p s = Some s' \<and> timers_inv held' ks s'"
proof (cases "tm_iRefCount t = 1")
  case False
  with r have "timer_ok (held' p) (ks @ io_pending s) p (t\<lparr>tm_iRefCount := tm_iRefCount t - 1\<rparr>)"
    using inv_ok [OF inv t] by (auto simp: timer_ok_def)
  from inv_put [OF inv t, where held' = held' and ks' = ks, OF this] h(1) False t show ?thesis by (simp add: eventTimer_release_def)
next
  case True
  with r have z: "held' p = 0" "task_refs (ks @ io_pending s) p = 0" "\<not> tm_bActive t" by (cases "tm_bActive t"; auto)+
  let ?s = "s\<lparr>io_timers := (io_timers s)(p := None)\<rparr>"
  have A: "{q. timer_active ?s q} = {q. timer_active s q}" using z t by (auto simp: timer_active_def)
  have "heap_holds (timer_key ?s) (io_timerHeap s) {q. timer_active s q}"
  proof (rule heap_queue.key_law)
    show "heap_holds (timer_key s) (io_timerHeap s) {q. timer_active s q}" using inv by (simp add: timers_inv_def)
    show "\<forall>q\<in>{q. timer_active s q}. timer_key ?s q = timer_key s q"
      using t z by (auto simp: timer_key_def timer_active_def)
  qed
  moreover have "card (dom (io_timers s) - {p}) \<le> card (dom (io_timers s))" using inv by (auto simp: timers_inv_def intro: card_mono)
  moreover have "entry_ok (held' q) (ks @ io_pending s) q (io_timers ?s q)" for q
    using inv z h(1) unfolding timers_inv_def by (cases "q = p") simp_all
  ultimately have "timers_inv held' ks ?s" using inv unfolding timers_inv_def A by simp
  with t True show ?thesis by (simp add: eventTimer_release_def)
qed

lemma release_held:
  assumes inv: "timers_inv held ks s" and h: "0 < held p"
  shows "\<exists>s'. eventTimer_release p s = Some s' \<and> timers_inv (held(p := held p - 1)) ks s'"
proof -
  from inv_timer [OF inv] h obtain t where t: "io_timers s p = Some t" by blast
  from inv_ok [OF inv t] h show ?thesis by (intro release_inv [OF inv t]) (auto simp: timer_ok_def)
qed

lemma close_inv:
  assumes cb: "cb_ok cb" and inv: "timers_inv held ks s" and h: "0 < held p"
  shows "\<exists>s'. call_close cb p s = Some s' \<and> timers_inv held ks s'"
proof -
  from inv_timer [OF inv] h obtain t where t: "io_timers s p = Some t" by blast
  with cb inv show ?thesis unfolding cb_ok_def by (auto simp: call_close_def)
qed

lemma fn_inv:
  assumes "cb_ok cb" "timers_inv held ks s" "io_timers s p = Some t"
  shows "\<exists>s'. call_fn cb p s = Some s' \<and> timers_inv held ks s'"
  using assms unfolding cb_ok_def by (auto simp: call_fn_def)

lemma once_inv:
  assumes cb: "cb_ok cb" and inv: "timers_inv held ks s" and h: "0 < held p" and a: "\<not> timer_active s p"
  shows "\<exists>s'. run_once cb p s = Some s' \<and> timers_inv held ks s'"
proof -
  from inv_timer [OF inv] h obtain t where t: "io_timers s p = Some t" by blast
  show ?thesis
  proof (cases "tm_bRunning t")
    case False
    with t inv show ?thesis by (simp add: run_once_def)
  next
    case True
    have "\<not> tm_bActive t" using a t by (simp add: timer_active_def)
    then have "timer_ok (held p) (ks @ io_pending s) p (t\<lparr>tm_bRunning := False\<rparr>)"
      using inv_ok [OF inv t] by (auto simp: timer_ok_def)
    from inv_put [OF inv t, where held' = held and ks' = ks, OF this] have "timers_inv held ks (put_timer p (t\<lparr>tm_bRunning := False\<rparr>) s)" by simp
    from fn_inv [OF cb this, of p] t True show ?thesis by (simp add: run_once_def)
  qed
qed

text \<open>The end of a timer: the reference of its activity goes to the function that runs.\<close>

lemma finish_inv:
  assumes cb: "cb_ok cb" and inv: "timers_inv held ks s" and h: "0 < held p"
  shows "\<exists>s'. Option.bind (call_close cb p s) (eventTimer_release p) = Some s' \<and> timers_inv (held(p := held p - 1)) ks s'"
proof -
  from close_inv [OF assms] obtain s1 where s1: "call_close cb p s = Some s1" "timers_inv held ks s1" by blast
  from release_held [OF s1(2) h] s1 show ?thesis by auto
qed


section \<open>The heap of the timers\<close>

lemma active_subset: "{p. timer_active s p} \<subseteq> dom (io_timers s)"
  by (auto simp: timer_active_def split: option.splits)

lemma inv_heap: "timers_inv held ks s \<Longrightarrow> heap_holds (timer_key s) (io_timerHeap s) {p. timer_active s p}"
  by (simp add: timers_inv_def)

lemma card_active_less:
  assumes inv: "timers_inv held ks s" and B: "B \<subset> dom (io_timers s)"
  shows "card B < 2 ^ 32 - 1"
proof -
  have "card B < card (dom (io_timers s))" using inv B by (auto simp: timers_inv_def intro: psubset_card_mono)
  moreover have "card (dom (io_timers s)) < 2 ^ 32" using inv by (simp add: timers_inv_def)
  ultimately show ?thesis by linarith
qed

lemma schedule_heap:
  assumes h: "heap_holds (timer_key s) (io_timerHeap s) A" and p: "p \<notin> A" "card A < 2 ^ 32 - 1" and t: "io_timers s p = Some t"
  obtains h' where "timer_schedule p s = Some (put_timer p (t\<lparr>tm_uiTimeout := io_uiLoopTime s + ucast (tm_uiIntervalMs t), tm_uiID := io_uiTimerCounter s\<rparr>)
      (s\<lparr>io_uiTimerCounter := io_uiTimerCounter s + 1, io_timerHeap := h'\<rparr>))"
    "heap_holds (timer_key (put_timer p (t\<lparr>tm_uiTimeout := io_uiLoopTime s + ucast (tm_uiIntervalMs t), tm_uiID := io_uiTimerCounter s\<rparr>) s)) h' (insert p A)"
proof -
  let ?t = "t\<lparr>tm_uiTimeout := io_uiLoopTime s + ucast (tm_uiIntervalMs t), tm_uiID := io_uiTimerCounter s\<rparr>"
  let ?s = "put_timer p ?t s"
  have "heap_holds (timer_key ?s) (io_timerHeap s) A"
    by (rule heap_queue.key_law [OF h]) (use p in \<open>auto simp: timer_key_def\<close>)
  from heap_queue.ins_law [OF this p] obtain h' where
    h': "heap_insert (\<lambda>a b. timer_key ?s a < timer_key ?s b) (io_timerHeap s) p = Some h'" "heap_holds (timer_key ?s) h' (insert p A)" by blast
  have k: "timer_key (s\<lparr>io_uiTimerCounter := c\<rparr>) = timer_key s" for c and s :: timerIO by (simp add: timer_key_def fun_eq_iff)
  have "timer_schedule p s = Some (put_timer p ?t (s\<lparr>io_uiTimerCounter := io_uiTimerCounter s + 1, io_timerHeap := h'\<rparr>))"
    using t h'(1) by (simp add: timer_schedule_def timer_insert_def timerLessThan_key k put_timer_def Let_def)
  with h'(2) that show ?thesis by blast
qed

lemma key_heap_indep: "timer_key (s\<lparr>io_timerHeap := h\<rparr>) = timer_key s" "timer_key (s\<lparr>io_uiTimerCounter := c, io_timerHeap := h\<rparr>) = timer_key s"
  "timer_key (s\<lparr>io_uiTimerCounter := c\<rparr>) = timer_key s" "timer_key (put_timer p t (s\<lparr>io_uiTimerCounter := c\<rparr>)) = timer_key (put_timer p t s)"
  "timer_key (put_timer p t (s\<lparr>io_timerHeap := h\<rparr>)) = timer_key (put_timer p t s)"
  "timer_key (put_timer p t (s\<lparr>io_uiTimerCounter := c, io_timerHeap := h\<rparr>)) = timer_key (put_timer p t s)"
  by (auto simp: timer_key_def fun_eq_iff)

lemma remove_heap:
  assumes inv: "timers_inv held ks s" and a: "timer_active s p"
  obtains h where "timer_remove p s = Some (s\<lparr>io_timerHeap := h\<rparr>)" "heap_holds (timer_key s) h ({q. timer_active s q} - {p})"
    "heap_remove (\<lambda>a b. timer_key s a < timer_key s b) (io_timerHeap s) (Some p) = Some h"
proof -
  from heap_queue.rmv_law [OF inv_heap [OF inv], of p] a obtain h where
    "heap_remove (\<lambda>a b. timer_key s a < timer_key s b) (io_timerHeap s) (Some p) = Some h" "heap_holds (timer_key s) h ({q. timer_active s q} - {p})" by blast
  then show ?thesis using that by (simp add: timer_remove_def timerLessThan_key)
qed

text \<open>An update of one timer together with the heap.\<close>

lemma inv_put_heap:
  assumes inv: "timers_inv held ks s" and t: "io_timers s p = Some t"
    and ok: "timer_ok (held' p) (ks @ io_pending s) p t'" and same: "\<And>q. q \<noteq> p \<Longrightarrow> held' q = held q"
    and h: "heap_holds (timer_key (put_timer p t' s)) h (if tm_bActive t' then insert p {q. timer_active s q} else {q. timer_active s q} - {p})"
  shows "timers_inv held' ks (put_timer p t' (s\<lparr>io_timerHeap := h\<rparr>))"
    and "timers_inv held' ks (put_timer p t' (s\<lparr>io_uiTimerCounter := c, io_timerHeap := h\<rparr>))"
proof -
  have A: "{q. timer_active (put_timer p t' (s\<lparr>io_timerHeap := h\<rparr>)) q} =
      (if tm_bActive t' then insert p {q. timer_active s q} else {q. timer_active s q} - {p})"
    "{q. timer_active (put_timer p t' (s\<lparr>io_uiTimerCounter := c, io_timerHeap := h\<rparr>)) q} =
      (if tm_bActive t' then insert p {q. timer_active s q} else {q. timer_active s q} - {p})"
    by (auto simp: timer_active_def)
  have d: "dom ((io_timers s)(p \<mapsto> t')) = dom (io_timers s)" using t by auto
  have e: "entry_ok (held' q) (ks @ io_pending s) q (((io_timers s)(p \<mapsto> t')) q)" for q
    using inv_entry [OF inv, of q] ok same [of q] by (cases "q = p") simp_all
  show "timers_inv held' ks (put_timer p t' (s\<lparr>io_timerHeap := h\<rparr>))"
    "timers_inv held' ks (put_timer p t' (s\<lparr>io_uiTimerCounter := c, io_timerHeap := h\<rparr>))"
    using inv h d e unfolding timers_inv_def A key_heap_indep by simp_all
qed

lemma deactivate_inv:
  assumes inv: "timers_inv held ks s" and t: "io_timers s p = Some t" "tm_bActive t"
  obtains s' where "Option.bind (timer_remove p s) (set_active p False) = Some s'"
    "Option.bind (set_active p False s) (timer_remove p) = Some s'"
    "timers_inv (held(p := held p + 1)) ks s'" "\<not> timer_active s' p"
proof -
  have "timer_active s p" using t by (simp add: timer_active_def)
  from remove_heap [OF inv this] obtain h where
    h: "timer_remove p s = Some (s\<lparr>io_timerHeap := h\<rparr>)" "heap_holds (timer_key s) h ({q. timer_active s q} - {p})"
    "heap_remove (\<lambda>a b. timer_key s a < timer_key s b) (io_timerHeap s) (Some p) = Some h" .
  let ?t = "t\<lparr>tm_bActive := False\<rparr>"
  have k: "timer_key (put_timer p ?t s) = timer_key s" using t by (auto simp: timer_key_def fun_eq_iff)
  let ?s = "put_timer p ?t (s\<lparr>io_timerHeap := h\<rparr>)"
  have "timer_remove p (put_timer p ?t s) = Some ?s"
    using h(3) unfolding timer_remove_def timerLessThan_key k by (simp add: put_timer_def)
  then have "Option.bind (timer_remove p s) (set_active p False) = Some ?s" "Option.bind (set_active p False s) (timer_remove p) = Some ?s"
    using t h(1) by (simp_all add: set_active_def)
  moreover have "timer_ok ((held(p := held p + 1)) p) (ks @ io_pending s) p ?t"
    using inv_ok [OF inv t(1)] t(2) by (auto simp: timer_ok_def)
  then have "timers_inv (held(p := held p + 1)) ks ?s"
    by (rule inv_put_heap(1) [OF inv t(1)]) (use h(2) k in simp_all)
  moreover have "\<not> timer_active ?s p" by (simp add: timer_active_def)
  ultimately show ?thesis using that by blast
qed

lemma reschedule_inv:
  assumes inv: "timers_inv held ks s" and t: "io_timers s p = Some t" "tm_bActive t"
  obtains s' where "Option.bind (timer_remove p s) (timer_schedule p) = Some s'" "timers_inv held ks s'" "\<exists>t. io_timers s' p = Some t"
proof -
  let ?t = "t\<lparr>tm_uiTimeout := io_uiLoopTime s + ucast (tm_uiIntervalMs t), tm_uiID := io_uiTimerCounter s\<rparr>"
  have a: "timer_active s p" using t by (simp add: timer_active_def)
  have c: "card ({q. timer_active s q} - {p}) < 2 ^ 32 - 1"
    by (rule card_active_less [OF inv]) (use a active_subset [of s] in auto)
  have key: "timer_key (put_timer p ?t s) q = timer_key s q" if "q \<noteq> p" for q using that by (simp add: timer_key_def)
  from heap_queue.rekey [OF inv_heap [OF inv] _ c key] a obtain h h' where
    h: "heap_remove (timerLessThan s) (io_timerHeap s) (Some p) = Some h" "heap_insert (timerLessThan (put_timer p ?t s)) h p = Some h'"
    "heap_holds (timer_key (put_timer p ?t s)) h' {q. timer_active s q}" unfolding timerLessThan_key by blast
  let ?s = "put_timer p ?t (s\<lparr>io_uiTimerCounter := io_uiTimerCounter s + 1, io_timerHeap := h'\<rparr>)"
  have lt: "timerLessThan (put_timer p ?t (s\<lparr>io_timerHeap := h\<rparr>)\<lparr>io_uiTimerCounter := io_uiTimerCounter s + 1\<rparr>) = timerLessThan (put_timer p ?t s)"
    unfolding timerLessThan_key key_heap_indep ..
  have "Option.bind (timer_remove p s) (timer_schedule p) = Some ?s"
    using h(1,2) lt t(1) by (simp add: timer_remove_def timer_schedule_def timer_insert_def Let_def) (simp add: put_timer_def)
  moreover have "timers_inv held ks ?s"
    by (rule inv_put_heap(2) [OF inv t(1)])
      (use inv_ok [OF inv t(1)] h(3) t(2) a in \<open>simp_all add: timer_ok_def insert_absorb\<close>)
  ultimately show ?thesis using that by simp
qed

lemma activate_inv:
  assumes inv: "timers_inv held ks s" and t: "io_timers s p = Some t" "\<not> tm_bActive t" "tm_bRunning t" "tm_uiIntervalMs t \<noteq> 0"
    and h0: "0 < held p" and q: "TimerStart p \<notin> set (ks @ io_pending s)"
  obtains s' where "Option.bind (timer_schedule p s) (set_active p True) = Some s'" "timers_inv (held(p := held p - 1)) ks s'"
proof -
  have a: "\<not> timer_active s p" using t by (simp add: timer_active_def)
  have c: "card {q. timer_active s q} < 2 ^ 32 - 1"
    by (rule card_active_less [OF inv]) (use a t(1) active_subset [of s] in auto)
  from schedule_heap [OF inv_heap [OF inv] _ c t(1)] a obtain h' where h':
    "timer_schedule p s = Some (put_timer p (t\<lparr>tm_uiTimeout := io_uiLoopTime s + ucast (tm_uiIntervalMs t), tm_uiID := io_uiTimerCounter s\<rparr>)
      (s\<lparr>io_uiTimerCounter := io_uiTimerCounter s + 1, io_timerHeap := h'\<rparr>))"
    "heap_holds (timer_key (put_timer p (t\<lparr>tm_uiTimeout := io_uiLoopTime s + ucast (tm_uiIntervalMs t), tm_uiID := io_uiTimerCounter s\<rparr>) s)) h'
       (insert p {q. timer_active s q})" by auto
  let ?t = "t\<lparr>tm_uiTimeout := io_uiLoopTime s + ucast (tm_uiIntervalMs t), tm_uiID := io_uiTimerCounter s, tm_bActive := True\<rparr>"
  let ?s = "put_timer p ?t (s\<lparr>io_uiTimerCounter := io_uiTimerCounter s + 1, io_timerHeap := h'\<rparr>)"
  have "timers_inv (held(p := held p - 1)) ks ?s"
  proof (rule inv_put_heap(2) [OF inv t(1)])
    show "timer_ok ((held(p := held p - 1)) p) (ks @ io_pending s) p ?t"
      using inv_ok [OF inv t(1)] t(2-4) h0 q by (auto simp: timer_ok_def)
    have "timer_key (put_timer p ?t s) = timer_key (put_timer p (t\<lparr>tm_uiTimeout := io_uiLoopTime s + ucast (tm_uiIntervalMs t), tm_uiID := io_uiTimerCounter s\<rparr>) s)"
      by (auto simp: timer_key_def fun_eq_iff)
    with h'(2) show "heap_holds (timer_key (put_timer p ?t s)) h' (if tm_bActive ?t then insert p {q. timer_active s q} else {q. timer_active s q} - {p})"
      by simp
  qed simp
  moreover have "Option.bind (timer_schedule p s) (set_active p True) = Some ?s"
    using h'(1) by (simp add: set_active_def put_timer_def)
  ultimately show ?thesis using that by blast
qed


section \<open>The operations keep the invariant\<close>

lemma eventTimer_run_inv:
  assumes cb: "cb_ok cb" and inv: "timers_inv held ks s" and a: "timer_active s p"
  shows "\<exists>s'. eventTimer_run cb p s = Some s' \<and> timers_inv held ks s'"
proof -
  from a obtain t where t: "io_timers s p = Some t" "tm_bActive t" by (auto simp: timer_active_def split: option.splits)
  from deactivate_inv [OF inv t] obtain s1 where
    s1: "Option.bind (timer_remove p s) (set_active p False) = Some s1" "timers_inv (held(p := held p + 1)) ks s1" "\<not> timer_active s1 p" .
  show ?thesis
  proof (cases "tm_bOnce t")
    case True
    from once_inv [OF cb s1(2) _ s1(3)] obtain s2 where s2: "run_once cb p s1 = Some s2" "timers_inv (held(p := held p + 1)) ks s2" by auto
    from finish_inv [OF cb s2(2), of p] obtain s3 where "Option.bind (call_close cb p s2) (eventTimer_release p) = Some s3" "timers_inv held ks s3" by auto
    with t True s1(1) s2(1) show ?thesis by (auto simp: eventTimer_run_def bind_eq_Some_conv)
  next
    case once: False
    show ?thesis
    proof (cases "tm_bRunning t")
      case True
      from reschedule_inv [OF inv t] obtain s2 u where
        s2: "Option.bind (timer_remove p s) (timer_schedule p) = Some s2" "timers_inv held ks s2" "io_timers s2 p = Some u" by blast
      from fn_inv [OF cb s2(2,3)] obtain s3 where "call_fn cb p s2 = Some s3" "timers_inv held ks s3" by blast
      with t once True s2(1) show ?thesis by (auto simp: eventTimer_run_def bind_eq_Some_conv)
    next
      case False
      from finish_inv [OF cb s1(2), of p] obtain s3 where "Option.bind (call_close cb p s1) (eventTimer_release p) = Some s3" "timers_inv held ks s3" by auto
      with t once False s1(1) show ?thesis by (auto simp: eventTimer_run_def bind_eq_Some_conv)
    qed
  qed
qed

text \<open>A function is taken from the queue: its reference is now held by the function that runs.\<close>

fun task_timer :: "timer_task \<Rightarrow> nat" where
  "task_timer (TimerStart p) = p" | "task_timer (TimerStop p) = p"

lemma pop_inv:
  assumes inv: "timers_inv held (k # ks) s" and p: "p = task_timer k" and a: "k = TimerStop p \<Longrightarrow> \<not> timer_active s p"
  shows "timers_inv (held(p := held p + 1)) ks s" and "k = TimerStart p \<Longrightarrow> TimerStart p \<notin> set (ks @ io_pending s) \<and> \<not> timer_active s p"
proof -
  have "0 < task_refs ((k # ks) @ io_pending s) p" using p by (cases k) auto
  with inv_timer [OF inv] obtain t where t: "io_timers s p = Some t" by blast
  have ok: "timer_ok (held p) ((k # ks) @ io_pending s) p t" by (rule inv_ok [OF inv t])
  have same: "put_timer p t s = s" using t by (simp add: put_timer_def fun_upd_idem)
  have "timer_ok ((held(p := held p + 1)) p) (ks @ io_pending s) p t"
    using ok p a t by (cases k) (auto simp: timer_ok_def timer_active_def split: if_splits)
  from inv_put [OF inv t, where held' = "held(p := held p + 1)" and ks' = ks, OF this] p
  show "timers_inv (held(p := held p + 1)) ks s" unfolding same by (cases k) auto
  show "TimerStart p \<notin> set (ks @ io_pending s) \<and> \<not> timer_active s p" if "k = TimerStart p"
    using ok t that by (auto simp: timer_ok_def timer_active_def count_list_0_iff)
qed

lemma start_task_inv:
  assumes cb: "cb_ok cb" and inv: "timers_inv held (TimerStart p # ks) s"
  shows "\<exists>s'. timer_task_run cb (TimerStart p) s = Some s' \<and> timers_inv held ks s'"
proof -
  have q: "TimerStart p \<notin> set (ks @ io_pending s)" "\<not> timer_active s p" and i1: "timers_inv (held(p := held p + 1)) ks s"
    using pop_inv [OF inv] by auto
  then obtain t where t: "io_timers s p = Some t" using inv_timer by fastforce
  with q have na: "\<not> tm_bActive t" by (simp add: timer_active_def)
  show ?thesis
  proof (cases "io_bLoopRunning s")
    case False
    from release_held [OF i1, of p] False show ?thesis by (simp add: inLoop_eventTimer_cancel_def)
  next
    case run: True
    show ?thesis
    proof (cases "tm_uiIntervalMs t = 0")
      case True
      from once_inv [OF cb i1 _ q(2)] obtain s2 where s2: "run_once cb p s = Some s2" "timers_inv (held(p := held p + 1)) ks s2" by auto
      from finish_inv [OF cb s2(2), of p] obtain s3 where "Option.bind (call_close cb p s2) (eventTimer_release p) = Some s3" "timers_inv held ks s3" by auto
      with t run True s2(1) show ?thesis by (auto simp: inLoop_eventTimer_start_def bind_eq_Some_conv)
    next
      case interval: False
      show ?thesis
      proof (cases "tm_bRunning t")
        case True
        from activate_inv [OF i1 t na True interval _ q(1)] obtain s2 where
          "Option.bind (timer_schedule p s) (set_active p True) = Some s2" "timers_inv held ks s2" by auto
        with t run interval True show ?thesis by (auto simp: inLoop_eventTimer_start_def bind_eq_Some_conv)
      next
        case False
        from finish_inv [OF cb i1, of p] obtain s3 where "Option.bind (call_close cb p s) (eventTimer_release p) = Some s3" "timers_inv held ks s3" by auto
        with t run interval False show ?thesis by (auto simp: inLoop_eventTimer_start_def bind_eq_Some_conv)
      qed
    qed
  qed
qed

lemma stop_task_inv:
  assumes cb: "cb_ok cb" and inv: "timers_inv held (TimerStop p # ks) s"
  shows "\<exists>s'. timer_task_run cb (TimerStop p) s = Some s' \<and> timers_inv held ks s'"
proof -
  obtain t where t: "io_timers s p = Some t" using inv_timer [OF inv, of p] by auto
  show ?thesis
  proof (cases "tm_bActive t")
    case False
    then have i1: "timers_inv (held(p := held p + 1)) ks s" using pop_inv(1) [OF inv] t by (simp add: timer_active_def)
    from release_held [OF i1, of p] t False show ?thesis by (simp add: inLoop_eventTimer_stop_def)
  next
    case True
    from deactivate_inv [OF inv t True] obtain s1 where
      s1: "Option.bind (set_active p False s) (timer_remove p) = Some s1" "timers_inv (held(p := held p + 1)) (TimerStop p # ks) s1" "\<not> timer_active s1 p" .
    from pop_inv(1) [OF s1(2)] s1(3) have i2: "timers_inv (held(p := held p + 2)) ks s1" by simp
    from finish_inv [OF cb i2, of p] obtain s3 where s3: "Option.bind (call_close cb p s1) (eventTimer_release p) = Some s3" "timers_inv (held(p := held p + 1)) ks s3" by auto
    from release_held [OF s3(2), of p] obtain s4 where "eventTimer_release p s3 = Some s4" "timers_inv held ks s4" by auto
    with t True s1(1) s3(1) show ?thesis by (auto simp: inLoop_eventTimer_stop_def bind_eq_Some_conv)
  qed
qed

lemma task_inv: "cb_ok cb \<Longrightarrow> timers_inv held (k # ks) s \<Longrightarrow> \<exists>s'. timer_task_run cb k s = Some s' \<and> timers_inv held ks s'"
  by (cases k) (use start_task_inv stop_task_inv in blast)+

lemma tasks_inv: "cb_ok cb \<Longrightarrow> timers_inv held ks s \<Longrightarrow> \<exists>s'. timer_tasks_run cb ks s = Some s' \<and> timers_inv held [] s'"
proof (induction ks arbitrary: s)
  case (Cons k ks)
  from task_inv [OF Cons.prems] Cons.IH Cons.prems(1) show ?case by fastforce
qed simp

lemma inv_pending: "timers_inv held ks (s\<lparr>io_pending := qs\<rparr>) \<longleftrightarrow>
    finite (dom (io_timers s)) \<and> card (dom (io_timers s)) < 2 ^ 32 \<and>
    heap_holds (timer_key s) (io_timerHeap s) {p. timer_active s p} \<and> (\<forall>p. entry_ok (held p) (ks @ qs) p (io_timers s p))"
proof -
  have "timer_key (s\<lparr>io_pending := qs\<rparr>) = timer_key s" "timer_active (s\<lparr>io_pending := qs\<rparr>) = timer_active s"
    by (auto simp: timer_key_def timer_active_def fun_eq_iff)
  then show ?thesis by (simp add: timers_inv_def)
qed

lemma doEvents_inv: "cb_ok cb \<Longrightarrow> timers_inv held [] s \<Longrightarrow> \<exists>s'. timer_doEvents cb s = Some s' \<and> timers_inv held [] s'"
  unfolding timer_doEvents_def by (erule tasks_inv) (unfold inv_pending, simp add: timers_inv_def)

text \<open>A queued function counts the same at the front and at the end.\<close>

lemma push_pending: "timers_inv held (k # ks) s \<longleftrightarrow> timers_inv held ks (s\<lparr>io_pending := io_pending s @ [k]\<rparr>)"
proof -
  have "entry_ok h (k # ks @ qs) p e = entry_ok h (ks @ qs @ [k]) p e" for h qs p e
    by (cases e) (auto simp: timer_ok_def task_refs_def)
  then show ?thesis unfolding inv_pending by (simp add: timers_inv_def)
qed

lemma runInLoop_inv:
  assumes "cb_ok cb" "timers_inv held (k # ks) s"
  shows "\<exists>s'. timer_runInLoop b cb k s = Some s' \<and> timers_inv held ks s'"
  using task_inv [OF assms] assms(2) push_pending [of held k ks s] by (simp add: timer_runInLoop_def)

lemma eventTimer_stop_inv:
  assumes cb: "cb_ok cb" and inv: "timers_inv held ks s" and t: "io_timers s p = Some t"
  shows "\<exists>s'. eventTimer_stop b cb p s = Some s' \<and> timers_inv held ks s'"
proof (cases "tm_bRunning t")
  case True
  have "timer_ok (held p) ((TimerStop p # ks) @ io_pending s) p (t\<lparr>tm_bRunning := False, tm_iRefCount := tm_iRefCount t + 1\<rparr>)"
    using inv_ok [OF inv t] by (auto simp: timer_ok_def)
  from inv_put [OF inv t, where held' = held and ks' = "TimerStop p # ks", OF this]
  have "timers_inv held (TimerStop p # ks) (put_timer p (t\<lparr>tm_bRunning := False, tm_iRefCount := tm_iRefCount t + 1\<rparr>) s)" by auto
  from runInLoop_inv [OF cb this, of b] t True show ?thesis by (simp add: eventTimer_stop_def)
qed (use t inv in \<open>simp add: eventTimer_stop_def\<close>)

text \<open>A timer may be started when none of its functions is queued.\<close>

lemma eventTimer_start_inv:
  assumes cb: "cb_ok cb" and inv: "timers_inv held ks s" and t: "io_timers s p = Some t"
    and q: "TimerStart p \<notin> set (ks @ io_pending s)" "TimerStop p \<notin> set (ks @ io_pending s)"
  shows "\<exists>r s'. eventTimer_start b cb p s = Some (r, s') \<and> timers_inv held ks s'"
proof (cases "tm_bRunning t")
  case False
  have "timer_ok (held p) ((TimerStart p # ks) @ io_pending s) p (t\<lparr>tm_bRunning := True, tm_iRefCount := tm_iRefCount t + 1\<rparr>)"
    using inv_ok [OF inv t] q False by (auto simp: timer_ok_def count_list_0_iff)
  from inv_put [OF inv t, where held' = held and ks' = "TimerStart p # ks", OF this]
  have "timers_inv held (TimerStart p # ks) (put_timer p (t\<lparr>tm_bRunning := True, tm_iRefCount := tm_iRefCount t + 1\<rparr>) s)" by auto
  from runInLoop_inv [OF cb this, of b] t False show ?thesis by (auto simp: eventTimer_start_def)
qed (use t inv in \<open>auto simp: eventTimer_start_def\<close>)

end
