(* ===== verification/TimerRun.thy ===== *)
theory TimerRun
  imports TimerInv
begin

text \<open>Programs over timers: what their users may do, and what the loop then does.\<close>

section \<open>Calls\<close>

datatype timer_call =
    CallCreate nat bool u32 | CallAddref nat | CallRelease nat | CallSetClose nat bool
  | CallStart bool nat | CallStop bool nat | CallDoEvents | CallRunFirst | CallTime u64 | CallLoop bool

text \<open>One round of the loop of \<open>eventIO_runTimers\<close>.\<close>

definition run_first :: "timer_cb \<Rightarrow> timerIO \<Rightarrow> timerIO option" where
  "run_first cb s =
     (case heap_min (io_timerHeap s) of
        None \<Rightarrow> Some s
      | Some p \<Rightarrow> do {
          t \<leftarrow> io_timers s p;
          if io_uiLoopTime s < tm_uiTimeout t then Some s else eventTimer_run cb p s })"

fun timer_exec :: "timer_cb \<Rightarrow> timer_call \<Rightarrow> timerIO \<Rightarrow> timerIO option" where
  "timer_exec cb (CallCreate p once ms) s = Some (createEventTimer p once ms s)"
| "timer_exec cb (CallAddref p) s = eventTimer_addref p s"
| "timer_exec cb (CallRelease p) s = eventTimer_release p s"
| "timer_exec cb (CallSetClose p b) s = eventTimer_setCloseCallback p b s"
| "timer_exec cb (CallStart b p) s = map_option snd (eventTimer_start b cb p s)"
| "timer_exec cb (CallStop b p) s = eventTimer_stop b cb p s"
| "timer_exec cb CallDoEvents s = timer_doEvents cb s"
| "timer_exec cb CallRunFirst s = run_first cb s"
| "timer_exec cb (CallTime t) s = Some (s\<lparr>io_uiLoopTime := t\<rparr>)"
| "timer_exec cb (CallLoop b) s = Some (s\<lparr>io_bLoopRunning := b\<rparr>)"

fun timer_calls :: "timer_cb \<Rightarrow> timer_call list \<Rightarrow> timerIO \<Rightarrow> timerIO option" where
  "timer_calls cb [] s = Some s"
| "timer_calls cb (c # cs) s = do { s \<leftarrow> timer_exec cb c s; timer_calls cb cs s }"

text \<open>The users hold a reference to the timer: one that neither the queue nor the activity of the timer holds.\<close>

definition user_ref :: "timerIO \<Rightarrow> nat \<Rightarrow> bool" where
  "user_ref s p \<longleftrightarrow> (case io_timers s p of None \<Rightarrow> False
     | Some t \<Rightarrow> int (task_refs (io_pending s) p + of_bool (tm_bActive t)) < tm_iRefCount t)"

fun timer_allowed :: "timerIO \<Rightarrow> timer_call \<Rightarrow> bool" where
  "timer_allowed s (CallCreate p once ms) \<longleftrightarrow> io_timers s p = None \<and> card (dom (io_timers s)) < 2 ^ 32 - 1"
| "timer_allowed s (CallAddref p) \<longleftrightarrow> user_ref s p"
| "timer_allowed s (CallRelease p) \<longleftrightarrow> user_ref s p"
| "timer_allowed s (CallSetClose p b) \<longleftrightarrow> user_ref s p"
| "timer_allowed s (CallStart b p) \<longleftrightarrow>
     user_ref s p \<and> TimerStart p \<notin> set (io_pending s) \<and> TimerStop p \<notin> set (io_pending s)"
| "timer_allowed s (CallStop b p) \<longleftrightarrow> user_ref s p"
| "timer_allowed s _ \<longleftrightarrow> True"

inductive timer_step :: "timer_cb \<Rightarrow> timerIO \<Rightarrow> timerIO \<Rightarrow> bool" for cb where
  timer_call: "timer_allowed s c \<Longrightarrow> timer_exec cb c s = Some s' \<Longrightarrow> timer_step cb s s'"

inductive_simps timer_step_iff: "timer_step cb s s'"

text \<open>A loop as \<open>createEventIO\<close> leaves it.\<close>

definition timer_init :: "timer_cb \<Rightarrow> timerIO \<Rightarrow> bool" where
  "timer_init cb s \<longleftrightarrow> cb_ok cb \<and> io_timers s = (\<lambda>_. None) \<and> (\<exists>h. io_timerHeap s = heap_init h) \<and> io_pending s = []"

definition timers_never_fault :: "timer_cb \<Rightarrow> timerIO \<Rightarrow> bool" where
  "timers_never_fault cb s \<longleftrightarrow> (\<forall>c. timer_allowed s c \<longrightarrow> timer_exec cb c s \<noteq> None)"

abbreviation inv0 :: "timerIO \<Rightarrow> bool" where "inv0 s \<equiv> timers_inv (\<lambda>_. 0) [] s"

lemma user_ref_timer: "user_ref s p \<Longrightarrow> \<exists>t. io_timers s p = Some t \<and> int (task_refs (io_pending s) p + of_bool (tm_bActive t)) < tm_iRefCount t"
  by (auto simp: user_ref_def split: option.splits)

lemma create_inv:
  assumes inv: "timers_inv held ks s" and p: "io_timers s p = None" "card (dom (io_timers s)) < 2 ^ 32 - 1"
  shows "timers_inv held ks (createEventTimer p once ms s)"
proof -
  let ?s = "createEventTimer p once ms s"
  have A: "{q. timer_active ?s q} = {q. timer_active s q}" using p by (auto simp: timer_active_def createEventTimer_def)
  have "heap_holds (timer_key ?s) (io_timerHeap s) {q. timer_active s q}"
    by (rule heap_queue.key_law [OF inv_heap [OF inv]]) (use p in \<open>auto simp: timer_key_def timer_active_def createEventTimer_def\<close>)
  moreover have d: "dom (io_timers ?s) = insert p (dom (io_timers s))" by (auto simp: createEventTimer_def)
  moreover have "entry_ok (held q) (ks @ io_pending s) q (io_timers ?s q)" for q
  proof (cases "q = p")
    case True
    with inv_entry [OF inv, of p] p have "held p = 0" "task_refs (ks @ io_pending s) p = 0" by simp_all
    moreover from this have "TimerStart p \<notin> set (ks @ io_pending s)" "TimerStop p \<notin> set (ks @ io_pending s)"
      using task_refs_mem by force+
    ultimately show ?thesis using True by (simp add: createEventTimer_def timer_ok_def count_list_0_iff)
  next
    case False
    with inv_entry [OF inv, of q] show ?thesis by (simp add: createEventTimer_def)
  qed
  moreover have "card (insert p (dom (io_timers s))) < 2 ^ 32" "finite (dom (io_timers s))"
    using inv p by (auto simp: timers_inv_def card_insert_if)
  ultimately show ?thesis unfolding timers_inv_def A by (simp add: createEventTimer_def)
qed

lemma run_first_inv:
  assumes cb: "cb_ok cb" and inv: "timers_inv held ks s"
  shows "\<exists>s'. run_first cb s = Some s' \<and> timers_inv held ks s'"
proof (cases "heap_min (io_timerHeap s)")
  case (Some p)
  with heap_queue.front_Some [OF inv_heap [OF inv]] have a: "timer_active s p" by blast
  then obtain t where "io_timers s p = Some t" by (auto simp: timer_active_def split: option.splits)
  with Some eventTimer_run_inv [OF cb inv a] inv show ?thesis by (simp add: run_first_def)
qed (use inv in \<open>simp add: run_first_def\<close>)

lemma timer_exec_inv:
  assumes cb: "cb_ok cb" and inv: "inv0 s" and ok: "timer_allowed s c"
  shows "\<exists>s'. timer_exec cb c s = Some s' \<and> inv0 s'"
proof (cases c)
  case (CallCreate p once ms)
  with create_inv [OF inv] ok show ?thesis by simp
next
  case (CallAddref p)
  with ok user_ref_timer obtain t where t: "io_timers s p = Some t" by fastforce
  have "timer_ok 0 ([] @ io_pending s) p (t\<lparr>tm_iRefCount := tm_iRefCount t + 1\<rparr>)"
    using inv_ok [OF inv t] by (auto simp: timer_ok_def)
  from inv_put [OF inv t, where held' = "\<lambda>_. 0" and ks' = "[]", OF this] CallAddref t show ?thesis by (simp add: eventTimer_addref_def)
next
  case (CallRelease p)
  with ok user_ref_timer obtain t where
    t: "io_timers s p = Some t" "int (task_refs (io_pending s) p + of_bool (tm_bActive t)) < tm_iRefCount t" by fastforce
  from release_inv [OF inv t(1), of "\<lambda>_. 0"] t(2) CallRelease show ?thesis by simp
next
  case (CallSetClose p b)
  with ok user_ref_timer obtain t where t: "io_timers s p = Some t" by fastforce
  have "timer_ok 0 ([] @ io_pending s) p (t\<lparr>tm_fnCloseCallback := b\<rparr>)"
    using inv_ok [OF inv t] by (auto simp: timer_ok_def)
  from inv_put [OF inv t, where held' = "\<lambda>_. 0" and ks' = "[]", OF this] CallSetClose t show ?thesis by (simp add: eventTimer_setCloseCallback_def)
next
  case (CallStart b p)
  with ok user_ref_timer obtain t where t: "io_timers s p = Some t" by fastforce
  from eventTimer_start_inv [OF cb inv t] ok CallStart show ?thesis by fastforce
next
  case (CallStop b p)
  with ok user_ref_timer obtain t where t: "io_timers s p = Some t" by fastforce
  from eventTimer_stop_inv [OF cb inv t] CallStop show ?thesis by simp
next
  case CallDoEvents
  with doEvents_inv [OF cb inv] show ?thesis by simp
next
  case CallRunFirst
  with run_first_inv [OF cb inv] show ?thesis by simp
next
  case (CallTime t)
  have "timer_key (s\<lparr>io_uiLoopTime := t\<rparr>) = timer_key s" "timer_active (s\<lparr>io_uiLoopTime := t\<rparr>) = timer_active s"
    by (auto simp: timer_key_def timer_active_def fun_eq_iff)
  with inv CallTime show ?thesis by (simp add: timers_inv_def)
next
  case (CallLoop b)
  have "timer_key (s\<lparr>io_bLoopRunning := b\<rparr>) = timer_key s" "timer_active (s\<lparr>io_bLoopRunning := b\<rparr>) = timer_active s"
    by (auto simp: timer_key_def timer_active_def fun_eq_iff)
  with inv CallLoop show ?thesis by (simp add: timers_inv_def)
qed

lemma timer_init_inv: "timer_init cb s \<Longrightarrow> inv0 s"
proof -
  assume i: "timer_init cb s"
  then have "heap_holds (timer_key s) (io_timerHeap s) {}" by (auto simp: timer_init_def heap_init_holds)
  with i show ?thesis by (auto simp: timer_init_def timers_inv_def timer_active_def)
qed

interpretation timers: step_invariant "timer_init cb" "timer_step cb" "\<lambda>s. cb_ok cb \<and> inv0 s" "timers_never_fault cb" for cb
proof
  show "cb_ok cb \<and> inv0 s" if "timer_init cb s" for s using that timer_init_inv by (auto simp: timer_init_def)
  show "cb_ok cb \<and> inv0 s'" if "cb_ok cb \<and> inv0 s" "timer_step cb s s'" for s s'
    using that timer_exec_inv [of cb s] by (fastforce simp: timer_step_iff)
  show "timers_never_fault cb s" if "cb_ok cb \<and> inv0 s" for s
    using that timer_exec_inv [of cb s] unfolding timers_never_fault_def by fastforce
qed

section \<open>Running what is due\<close>

definition timers_due :: "timerIO \<Rightarrow> nat set" where
  "timers_due s = {p. timer_active s p \<and> tm_uiTimeout (the (io_timers s p)) \<le> io_uiLoopTime s}"

text \<open>A callback that does not make a timer due.\<close>

definition cb_calm :: "timer_cb \<Rightarrow> bool" where
  "cb_calm cb \<longleftrightarrow> (\<forall>e s s'. cb e s = Some s' \<longrightarrow> io_uiLoopTime s' = io_uiLoopTime s \<and> timers_due s' \<subseteq> timers_due s)"

definition calmer :: "timerIO \<Rightarrow> timerIO \<Rightarrow> bool" where
  "calmer s s' \<longleftrightarrow> io_uiLoopTime s' = io_uiLoopTime s \<and> timers_due s' \<subseteq> timers_due s"

lemma calmer_refl [simp]: "calmer s s" by (simp add: calmer_def)

lemma calmer_trans: "calmer s s' \<Longrightarrow> calmer s' s'' \<Longrightarrow> calmer s s''" by (auto simp: calmer_def)

lemma calmer_log [simp]: "calmer s (log_event e s)" "calmer (log_event e s) s' = calmer s s'"
  by (auto simp: calmer_def timers_due_def log_event_def timer_active_def)

lemma calmer_put: "io_timers s p = Some t \<Longrightarrow> tm_bActive t' \<longrightarrow> tm_bActive t \<Longrightarrow> tm_uiTimeout t' = tm_uiTimeout t \<Longrightarrow> calmer s (put_timer p t' s)"
  by (auto simp: calmer_def timers_due_def timer_active_def split: if_splits)

lemma calmer_release: "eventTimer_release p s = Some s' \<Longrightarrow> calmer s s'"
  by (auto simp: eventTimer_release_def bind_eq_Some_conv calmer_def timers_due_def timer_active_def log_event_def split: if_splits option.splits)

lemma calmer_cb: "cb_calm cb \<Longrightarrow> cb e (log_event e s) = Some s' \<Longrightarrow> calmer s s'"
  using calmer_log(2) unfolding cb_calm_def calmer_def by blast

lemma calmer_close: "cb_calm cb \<Longrightarrow> call_close cb p s = Some s' \<Longrightarrow> calmer s s'"
  by (auto simp: call_close_def bind_eq_Some_conv split: if_splits intro: calmer_cb)

lemma calmer_fn: "cb_calm cb \<Longrightarrow> call_fn cb p s = Some s' \<Longrightarrow> calmer s s'"
  by (auto simp: call_fn_def bind_eq_Some_conv intro: calmer_cb)

lemma calmer_once: "cb_calm cb \<Longrightarrow> run_once cb p s = Some s' \<Longrightarrow> calmer s s'"
  by (auto simp: run_once_def bind_eq_Some_conv split: if_splits elim!: calmer_trans [OF calmer_put calmer_fn, rotated -1])

lemma remove_due: "timer_remove p s = Some s' \<Longrightarrow> io_timers s' = io_timers s \<and> io_uiLoopTime s' = io_uiLoopTime s"
  by (auto simp: timer_remove_def)

lemma deactivate_due: "Option.bind (timer_remove p s) (set_active p False) = Some s' \<Longrightarrow> calmer s s' \<and> p \<notin> timers_due s'"
  by (auto simp: bind_eq_Some_conv set_active_def dest!: remove_due)
    (auto simp: calmer_def timers_due_def timer_active_def split: if_splits)

lemma no_wrap_later:
  fixes a :: u64
  assumes "unat a + 2 ^ 32 \<le> 2 ^ 64" "i \<noteq> (0::u32)"
  shows "a < a + ucast i"
proof -
  have "unat i < 2 ^ 32" using unsigned_less [of i] by simp
  moreover have "0 < unat i" using assms(2) by (simp add: unat_gt_0)
  moreover have "unat (ucast i :: u64) = unat i" 
    by (simp add: unsigned_ucast_eq take_bit_nat_eq_self order_less_trans [OF unsigned_less [of i]])
  ultimately show ?thesis using assms(1) by (simp add: word_less_nat_alt unat_word_ariths)
qed

lemma reschedule_due:
  assumes "Option.bind (timer_remove p s) (timer_schedule p) = Some s'" "io_timers s p = Some t" "tm_uiIntervalMs t \<noteq> 0"
    and "unat (io_uiLoopTime s) + 2 ^ 32 \<le> 2 ^ 64"
  shows "calmer s s' \<and> p \<notin> timers_due s'"
proof -
  from assms(1,2) have s': "io_timers s' = (io_timers s)(p \<mapsto> t\<lparr>tm_uiTimeout := io_uiLoopTime s + ucast (tm_uiIntervalMs t), tm_uiID := io_uiTimerCounter s\<rparr>)"
      "io_uiLoopTime s' = io_uiLoopTime s"
    by (auto simp: bind_eq_Some_conv timer_schedule_def timer_remove_def timer_insert_def put_timer_def Let_def)
  have "\<not> io_uiLoopTime s + ucast (tm_uiIntervalMs t) \<le> io_uiLoopTime s"
    using no_wrap_later [OF assms(4,3)] by simp
  with assms(2) show ?thesis unfolding calmer_def timers_due_def timer_active_def s' by (auto split: if_splits)
qed

lemma eventTimer_run_due:
  assumes calm: "cb_calm cb" and inv: "timers_inv held ks s" and a: "timer_active s p" and r: "eventTimer_run cb p s = Some s'"
    and w: "unat (io_uiLoopTime s) + 2 ^ 32 \<le> 2 ^ 64"
  shows "calmer s s' \<and> p \<notin> timers_due s'"
proof -
  from a obtain t where t: "io_timers s p = Some t" "tm_bActive t" by (auto simp: timer_active_def split: option.splits)
  with inv_ok [OF inv] have ms: "tm_uiIntervalMs t \<noteq> 0" by (auto simp: timer_ok_def)
  have fin: "calmer s1 s2" if "call_close cb p s1 = Some s3" "eventTimer_release p s3 = Some s2" for s1 s2 s3
    using calmer_close [OF calm that(1)] calmer_release [OF that(2)] by (rule calmer_trans)
  have keep: "calmer s s2 \<and> p \<notin> timers_due s2" if "calmer s s1 \<and> p \<notin> timers_due s1" "calmer s1 s2" for s1 s2
    using that by (auto simp: calmer_def)
  show ?thesis
  proof (cases "tm_bOnce t")
    case True
    with r t obtain s1 s2 s3 where "Option.bind (timer_remove p s) (set_active p False) = Some s1"
      "run_once cb p s1 = Some s2" "call_close cb p s2 = Some s3" "eventTimer_release p s3 = Some s'"
      by (auto simp: eventTimer_run_def bind_eq_Some_conv)
    then show ?thesis using keep deactivate_due calmer_once [OF calm] fin calmer_trans by meson
  next
    case once: False
    show ?thesis
    proof (cases "tm_bRunning t")
      case True
      with r t once obtain s1 where "Option.bind (timer_remove p s) (timer_schedule p) = Some s1" "call_fn cb p s1 = Some s'"
        by (auto simp: eventTimer_run_def bind_eq_Some_conv)
      then show ?thesis using keep reschedule_due [OF _ t(1) ms w] calmer_fn [OF calm] by blast
    next
      case False
      with r t once obtain s1 s3 where "Option.bind (timer_remove p s) (set_active p False) = Some s1"
        "call_close cb p s1 = Some s3" "eventTimer_release p s3 = Some s'"
        by (auto simp: eventTimer_run_def bind_eq_Some_conv)
      then show ?thesis using keep deactivate_due fin by meson
    qed
  qed
qed

lemma finite_due: "timers_inv held ks s \<Longrightarrow> finite (timers_due s)"
  using active_subset [of s] unfolding timers_inv_def timers_due_def by (auto intro: finite_subset)

text \<open>The head of the heap decides whether anything is due.\<close>

lemma head_due:
  assumes inv: "timers_inv held ks s"
  shows "heap_min (io_timerHeap s) = None \<Longrightarrow> timers_due s = {}"
    and "heap_min (io_timerHeap s) = Some p \<Longrightarrow> timer_active s p \<and> (\<forall>q\<in>timers_due s. p \<in> timers_due s \<and> timer_key s p \<le> timer_key s q)"
proof -
  note h = inv_heap [OF inv]
  show "heap_min (io_timerHeap s) = None \<Longrightarrow> timers_due s = {}"
    using heap_queue.front_None [OF h] by (auto simp: timers_due_def)
  assume m: "heap_min (io_timerHeap s) = Some p"
  with heap_queue.front_Some [OF h] have a: "timer_active s p" "\<forall>q. timer_active s q \<longrightarrow> timer_key s p \<le> timer_key s q" by auto
  moreover have "p \<in> timers_due s \<and> timer_key s p \<le> timer_key s q" if "q \<in> timers_due s" for q
    using a heap_queue.nothing_due [OF h m, of "\<lambda>k. fst k \<le> io_uiLoopTime s" q] that
    by (auto simp: timers_due_def timer_key_def less_eq_prod_def intro: order_trans less_imp_le)
  ultimately show "timer_active s p \<and> (\<forall>q\<in>timers_due s. p \<in> timers_due s \<and> timer_key s p \<le> timer_key s q)" by blast
qed

lemma runTimers_unfold:
  assumes inv: "timers_inv held ks s"
  shows "timers_due s = {} \<Longrightarrow> eventIO_runTimers cb s = Some s"
    and "timers_due s \<noteq> {} \<Longrightarrow> \<exists>p\<in>timers_due s. (\<forall>q\<in>timers_due s. timer_key s p \<le> timer_key s q) \<and>
      eventIO_runTimers cb s = Option.bind (eventTimer_run cb p s) (eventIO_runTimers cb)"
proof -
  have t: "\<exists>t. io_timers s p = Some t \<and> (p \<in> timers_due s \<longleftrightarrow> \<not> io_uiLoopTime s < tm_uiTimeout t)" if "heap_min (io_timerHeap s) = Some p" for p
    using head_due(2) [OF inv that] by (auto simp: timers_due_def timer_active_def split: option.splits)
  show "eventIO_runTimers cb s = Some s" if "timers_due s = {}"
    using t that by (subst eventIO_runTimers.simps) (auto split: option.splits)
  show "\<exists>p\<in>timers_due s. (\<forall>q\<in>timers_due s. timer_key s p \<le> timer_key s q) \<and>
      eventIO_runTimers cb s = Option.bind (eventTimer_run cb p s) (eventIO_runTimers cb)" if ne: "timers_due s \<noteq> {}"
  proof -
    from head_due(1) [OF inv] ne obtain p where p: "heap_min (io_timerHeap s) = Some p" by auto
    with head_due(2) [OF inv p] ne have d: "p \<in> timers_due s" "\<forall>q\<in>timers_due s. timer_key s p \<le> timer_key s q" by auto
    from t [OF p] d have "eventIO_runTimers cb s = Option.bind (eventTimer_run cb p s) (eventIO_runTimers cb)"
      by (subst eventIO_runTimers.simps) (auto simp: p)
    with d show ?thesis by blast
  qed
qed

lemma runTimers_inv:
  "cb_ok cb \<Longrightarrow> cb_calm cb \<Longrightarrow> timers_inv held ks s \<Longrightarrow> unat (io_uiLoopTime s) + 2 ^ 32 \<le> 2 ^ 64 \<Longrightarrow>
   \<exists>s'. eventIO_runTimers cb s = Some s' \<and> timers_inv held ks s' \<and> timers_due s' = {}"
proof (induction "card (timers_due s)" arbitrary: s rule: less_induct)
  case less
  show ?case
  proof (cases "timers_due s = {}")
    case True
    with runTimers_unfold(1) [OF less.prems(3)] less.prems show ?thesis by auto
  next
    case False
    from runTimers_unfold(2) [OF less.prems(3) False] obtain p where
      p: "p \<in> timers_due s" "eventIO_runTimers cb s = Option.bind (eventTimer_run cb p s) (eventIO_runTimers cb)" by blast
    then have a: "timer_active s p" by (simp add: timers_due_def)
    from eventTimer_run_inv [OF less.prems(1,3) a] obtain s1 where s1: "eventTimer_run cb p s = Some s1" "timers_inv held ks s1" by blast
    from eventTimer_run_due [OF less.prems(2,3) a s1(1) less.prems(4)]
    have d: "io_uiLoopTime s1 = io_uiLoopTime s" "timers_due s1 \<subset> timers_due s" using p(1) by (auto simp: calmer_def)
    have "card (timers_due s1) < card (timers_due s)" by (rule psubset_card_mono [OF finite_due [OF less.prems(3)] d(2)])
    from less.hyps [OF this less.prems(1,2) s1(2)] less.prems(4) d(1) p(2) s1(1) show ?thesis by simp
  qed
qed

text \<open>C35: Running the timers ends, whatever the callbacks do, as long as they keep the timers in order and make no
  timer due that was not; afterwards nothing is due.  The time must not be within \<open>2 ^ 32\<close> milliseconds of the
  end of its 64 bits.\<close>

theorem runTimers_ends:
  assumes "reachable (timer_init cb) (timer_step cb) s" "cb_calm cb" "unat (io_uiLoopTime s) + 2 ^ 32 \<le> 2 ^ 64"
  shows "\<exists>s'. eventIO_runTimers cb s = Some s' \<and> timers_due s' = {}"
  using runTimers_inv [of cb "\<lambda>_. 0" "[]" s] timers.reachable_inv [OF assms(1)] assms(2,3) by blast

section \<open>The order of the timers\<close>

definition quiet :: timer_cb where
  "quiet e s = Some s"

fun fired :: "timer_event list \<Rightarrow> nat list" where
  "fired [] = []"
| "fired (Fired p # es) = p # fired es"
| "fired (_ # es) = fired es"

lemma fired_append [simp]: "fired (es @ es') = fired es @ fired es'"
  by (induction es rule: fired.induct) auto

definition timer_running :: "timerIO \<Rightarrow> nat \<Rightarrow> bool" where
  "timer_running s p \<longleftrightarrow> (case io_timers s p of None \<Rightarrow> False | Some t \<Rightarrow> tm_bRunning t)"

lemma quiet_ok: "cb_ok quiet" "cb_calm quiet"
  by (auto simp: cb_ok_def cb_calm_def quiet_def)

text \<open>Without interference, running one timer leaves the others alone.\<close>

definition only_timer :: "nat \<Rightarrow> nat list \<Rightarrow> timerIO \<Rightarrow> timerIO \<Rightarrow> bool" where
  "only_timer p ps s s' \<longleftrightarrow> (\<forall>q. q \<noteq> p \<longrightarrow> io_timers s' q = io_timers s q) \<and>
     (\<exists>es. io_log s' = io_log s @ es \<and> fired es = ps)"

lemma only_timer_trans: "only_timer p ps s s' \<Longrightarrow> only_timer p ps' s' s'' \<Longrightarrow> only_timer p (ps @ ps') s s''"
  unfolding only_timer_def by fastforce

lemma only_close: "call_close quiet p s = Some s' \<Longrightarrow> only_timer p [] s s'"
  by (auto simp: call_close_def bind_eq_Some_conv only_timer_def quiet_def log_event_def split: if_splits)

lemma only_release: "eventTimer_release p s = Some s' \<Longrightarrow> only_timer p [] s s'"
  by (auto simp: eventTimer_release_def bind_eq_Some_conv only_timer_def log_event_def put_timer_def split: if_splits)

lemma only_fn: "call_fn quiet p s = Some s' \<Longrightarrow> only_timer p [p] s s'"
  by (auto simp: call_fn_def bind_eq_Some_conv only_timer_def quiet_def log_event_def)

lemma only_put: "only_timer p [] s (put_timer p t s)"
  by (simp add: only_timer_def put_timer_def)

lemma only_once: "run_once quiet p s = Some s' \<Longrightarrow> only_timer p (if timer_running s p then [p] else []) s s'"
  using only_timer_trans [OF only_put only_fn] only_timer_def
  by (fastforce simp: run_once_def bind_eq_Some_conv timer_running_def split: if_splits)

lemma only_deactivate: "Option.bind (timer_remove p s) (set_active p False) = Some s' \<Longrightarrow>
    only_timer p [] s s' \<and> timer_running s' p = timer_running s p"
  by (auto simp: bind_eq_Some_conv set_active_def timer_remove_def only_timer_def put_timer_def timer_running_def)

lemma only_reschedule: "Option.bind (timer_remove p s) (timer_schedule p) = Some s' \<Longrightarrow> only_timer p [] s s'"
  by (auto simp: bind_eq_Some_conv timer_schedule_def timer_insert_def timer_remove_def only_timer_def put_timer_def Let_def)

lemma only_run:
  assumes r: "eventTimer_run quiet p s = Some s'"
  shows "only_timer p (if timer_running s p then [p] else []) s s'"
proof -
  from r obtain t where t: "io_timers s p = Some t" by (auto simp: eventTimer_run_def bind_eq_Some_conv)
  note tr = only_timer_trans [where p = p]
  have fin: "only_timer p [] s1 s2" if "call_close quiet p s1 = Some s3" "eventTimer_release p s3 = Some s2" for s1 s2 s3
    using tr [OF only_close [OF that(1)] only_release [OF that(2)]] by simp
  show ?thesis
  proof (cases "tm_bOnce t")
    case True
    with r t obtain s1 s2 s3 where s: "Option.bind (timer_remove p s) (set_active p False) = Some s1"
      "run_once quiet p s1 = Some s2" "call_close quiet p s2 = Some s3" "eventTimer_release p s3 = Some s'"
      by (auto simp: eventTimer_run_def bind_eq_Some_conv)
    from only_deactivate [OF s(1)] have d: "only_timer p [] s s1" "timer_running s1 p = timer_running s p" by auto
    from tr [OF tr [OF d(1) only_once [OF s(2)]] fin [OF s(3,4)]] d(2) show ?thesis by simp
  next
    case once: False
    show ?thesis
    proof (cases "tm_bRunning t")
      case True
      with r t once obtain s1 where s: "Option.bind (timer_remove p s) (timer_schedule p) = Some s1" "call_fn quiet p s1 = Some s'"
        by (auto simp: eventTimer_run_def bind_eq_Some_conv)
      from tr [OF only_reschedule [OF s(1)] only_fn [OF s(2)]] True t show ?thesis by (simp add: timer_running_def)
    next
      case False
      with r t once obtain s1 s3 where s: "Option.bind (timer_remove p s) (set_active p False) = Some s1"
        "call_close quiet p s1 = Some s3" "eventTimer_release p s3 = Some s'"
        by (auto simp: eventTimer_run_def bind_eq_Some_conv)
      from tr [OF conjunct1 [OF only_deactivate [OF s(1)]] fin [OF s(2,3)]] False t show ?thesis by (simp add: timer_running_def)
    qed
  qed
qed

lemma runTimers_order:
  "timers_inv held ks s \<Longrightarrow> unat (io_uiLoopTime s) + 2 ^ 32 \<le> 2 ^ 64 \<Longrightarrow>
   \<exists>s' es. eventIO_runTimers quiet s = Some s' \<and> io_log s' = io_log s @ es \<and>
     set (fired es) = {p \<in> timers_due s. timer_running s p} \<and> distinct (fired es) \<and> sorted (map (timer_key s) (fired es))"
proof (induction "card (timers_due s)" arbitrary: s rule: less_induct)
  case less
  show ?case
  proof (cases "timers_due s = {}")
    case True
    with runTimers_unfold(1) [OF less.prems(1)] show ?thesis by (intro exI [of _ s] exI [of _ "[]"]) simp
  next
    case False
    from runTimers_unfold(2) [OF less.prems(1) False] obtain p where
      p: "p \<in> timers_due s" "\<forall>q\<in>timers_due s. timer_key s p \<le> timer_key s q"
        "eventIO_runTimers quiet s = Option.bind (eventTimer_run quiet p s) (eventIO_runTimers quiet)" by blast
    then have a: "timer_active s p" by (simp add: timers_due_def)
    from eventTimer_run_inv [OF quiet_ok(1) less.prems(1) a] obtain s1 where
      s1: "eventTimer_run quiet p s = Some s1" "timers_inv held ks s1" by blast
    from eventTimer_run_due [OF quiet_ok(2) less.prems(1) a s1(1) less.prems(2)]
    have d: "io_uiLoopTime s1 = io_uiLoopTime s" "timers_due s1 \<subseteq> timers_due s" "p \<notin> timers_due s1" by (auto simp: calmer_def)
    from only_run [OF s1(1)] obtain es where o: "\<And>q. q \<noteq> p \<Longrightarrow> io_timers s1 q = io_timers s q"
      "io_log s1 = io_log s @ es" "fired es = (if timer_running s p then [p] else [])" by (auto simp: only_timer_def)
    have others: "q \<in> timers_due s1 \<longleftrightarrow> q \<in> timers_due s" "timer_key s1 q = timer_key s q" "timer_running s1 q = timer_running s q"
      if "q \<noteq> p" for q using o(1) [OF that] d(1) by (simp_all add: timers_due_def timer_active_def timer_key_def timer_running_def)
    have due: "timers_due s1 = timers_due s - {p}" using others(1) d(2,3) by auto
    have "timers_due s1 \<subset> timers_due s" using due p(1) by blast
    then have "card (timers_due s1) < card (timers_due s)" by (rule psubset_card_mono [OF finite_due [OF less.prems(1)]])
    from less.hyps [OF this s1(2)] less.prems(2) d(1) obtain s' es' where
      s': "eventIO_runTimers quiet s1 = Some s'" "io_log s' = io_log s1 @ es'" "set (fired es') = {q \<in> timers_due s1. timer_running s1 q}"
      "distinct (fired es')" "sorted (map (timer_key s1) (fired es'))" by auto
    have np: "q \<noteq> p" if "q \<in> set (fired es')" for q using that s'(3) d(3) by auto
    then have "map (timer_key s1) (fired es') = map (timer_key s) (fired es')" using others(2) by simp
    with s'(5) have "sorted (map (timer_key s) (fired es'))" by metis
    moreover have set': "set (fired es') = {q \<in> timers_due s. timer_running s q} - {p}"
      unfolding s'(3) due using others(3) by auto
    ultimately have "set (fired (es @ es')) = {q \<in> timers_due s. timer_running s q}" "distinct (fired (es @ es'))"
      "sorted (map (timer_key s) (fired (es @ es')))"
      using s'(4) o(3) p(1,2) np by auto
    with s'(1,2) s1(1) p(3) o(2) show ?thesis by (intro exI [of _ s'] exI [of _ "es @ es'"]) simp
  qed
qed

text \<open>C10: With callbacks that leave the timers alone (one that stops or starts timers changes which run), the timers that are due and were not
  stopped run once each, in the order of their times, those of the same time in the order they were started; no other timer runs.\<close>

theorem runTimers_in_order:
  assumes "reachable (timer_init quiet) (timer_step quiet) s" "unat (io_uiLoopTime s) + 2 ^ 32 \<le> 2 ^ 64"
  shows "\<exists>s' es. eventIO_runTimers quiet s = Some s' \<and> io_log s' = io_log s @ es \<and>
     set (fired es) = {p \<in> timers_due s. timer_running s p} \<and> distinct (fired es) \<and> sorted (map (timer_key s) (fired es))"
  using runTimers_order [of "\<lambda>_. 0" "[]" s] timers.reachable_inv [OF assms(1)] assms(2) by blast


end
