(* ===== verification/TimerTime.thy ===== *)
theory TimerTime
  imports TimerRun
begin

text \<open>How long the loop waits for its timers, what goes wrong when a timer is restarted while its functions are
  queued, and examples of timers.\<close>

section \<open>Restarting a timer whose functions are queued\<close>

lemma heap_path_small: "heap_path 0 0 1 = (0, 0)" "heap_path 0 0 2 = (1, 0)"
  by (simp_all add: heap_path.simps word_le_nat_alt)

lemma heap_walk_small: "heap_walk h 0 0 AtMin AtMin = Some (AtMin, AtMin)"
  "heap_walk h 1 0 AtMin AtMin = (case hp_min h of None \<Rightarrow> None | Some c \<Rightarrow> Some (AtMin, AtLeft c))"
  by (simp_all add: heap_walk.simps word_less_nat_alt split: option.splits)

lemmas heap_eval = heap_insert_def heap_remove_def heap_path_small heap_walk_small heap_set_defs Let_def

lemma insert_empty:
  "hp_nelts h = 0 \<Longrightarrow> hp_min h = None \<Longrightarrow> heap_insert lt h p =
     Some (h\<lparr>hp_min := Some p, hp_nelts := 1, hp_mem := (hp_mem h)(p := \<lparr>hn_left = None, hn_right = None, hn_parent = None\<rparr>)\<rparr>)"
  by (simp add: heap_eval, subst heap_sift_up.simps, simp)

lemma insert_again:
  "hp_min h = Some p \<Longrightarrow> hp_nelts h = 1 \<Longrightarrow> \<not> lt p p \<Longrightarrow> heap_insert lt h p =
     Some (h\<lparr>hp_nelts := 2, hp_mem := (hp_mem h)(p := \<lparr>hn_left = Some p, hn_right = None, hn_parent = Some p\<rparr>)\<rparr>)"
  by (simp add: heap_eval, subst heap_sift_up.simps, simp)

lemma remove_again:
  "hp_min h = Some p \<Longrightarrow> hp_nelts h = 2 \<Longrightarrow> hn_left (hp_mem h p) = Some p \<Longrightarrow> heap_remove lt h (Some p) =
     Some (h\<lparr>hp_min := None, hp_nelts := 1, hp_mem := (hp_mem h)(p := (hp_mem h p)\<lparr>hn_left := None\<rparr>)\<rparr>)"
  by (simp add: heap_eval)

lemma insert_no_root: "hp_nelts h = 1 \<Longrightarrow> hp_min h = None \<Longrightarrow> heap_insert lt h q = None"
  by (simp add: heap_eval)

lemma lt_irrefl [simp]: "timerLessThan s p p = False"
  by (simp add: timerLessThan_key)

definition loop0 :: timerIO where
  "loop0 = \<lparr>io_timers = (\<lambda>_. None), io_timerHeap = heap_init \<lparr>hp_min = None, hp_nelts = 0, hp_mem = (\<lambda>_. \<lparr>hn_left = None, hn_right = None, hn_parent = None\<rparr>)\<rparr>,
     io_uiLoopTime = 0, io_uiTimerCounter = 0, io_bLoopRunning = True, io_pending = [], io_log = []\<rparr>"

lemmas timer_eval = eventTimer_start_def eventTimer_stop_def timer_runInLoop_def timer_doEvents_def inLoop_eventTimer_start_def
  inLoop_eventTimer_stop_def eventTimer_run_def run_first_def run_once_def call_fn_def call_close_def eventTimer_release_def
  timer_schedule_def timer_insert_def timer_remove_def set_active_def createEventTimer_def heap_min_def log_event_def quiet_def
  put_timer_def Let_def

text \<open>C36: A timer that is started from another thread, and stopped and started again on the thread of the loop before
  the queue is drained: these calls return, and its node is in the heap twice, as its own child.  When it has run, and the start of another timer that its
  user holds begins, the heap counts a node and has no root; the insertion then follows a null pointer, and the start is undefined.\<close>

theorem restart_breaks_heap:
  fixes p q :: nat and ms ms' :: u32
  assumes "p \<noteq> q" "ms \<noteq> 0" "ms' \<noteq> 0"
  shows "\<exists>s s'. timer_calls quiet [CallCreate p True ms, CallStart False p, CallStop True p, CallStart True p, CallDoEvents] loop0 = Some s \<and>
      hp_nelts (io_timerHeap s) = 2 \<and> hp_min (io_timerHeap s) = Some p \<and> hn_left (hp_mem (io_timerHeap s) p) = Some p \<and>
      timer_calls quiet [CallTime (ucast ms), CallRunFirst, CallCreate q b ms'] s = Some s' \<and>
      hp_nelts (io_timerHeap s') = 1 \<and> hp_min (io_timerHeap s') = None \<and> user_ref s' q \<and>
      heap_insert (timerLessThan s') (io_timerHeap s') q = None \<and> timer_exec quiet (CallStart True q) s' = None"
  using assms
  by (simp add: timer_eval loop0_def heap_init_def insert_empty insert_again remove_again insert_no_root user_ref_def)

section \<open>How long the loop waits\<close>

lemma sint32: "sint w = (if unat w < 2 ^ 31 then int (unat w) else int (unat w) - 2 ^ 32)" for w :: "32 word"
proof -
  define n where "n = unat w"
  have n: "n < 2 ^ 32" using unsigned_less [of w] by (simp add: n_def)
  have "uint w = int n" by (simp add: n_def)
  then have s: "sint w = signed_take_bit 31 (int n)" by (simp add: sint_uint)
  show ?thesis
  proof (cases "n < 2 ^ 31")
    case True
    then have "signed_take_bit 31 (int n) = int n" by (intro signed_take_bit_int_eq_self) simp_all
    with True s show ?thesis by (simp add: n_def [symmetric])
  next
    case False
    then have "(int n + 2 ^ 31) mod 2 ^ 32 = int n + 2 ^ 31 - 2 ^ 32" using n by (subst mod_pos_geq) simp_all
    then have "signed_take_bit 31 (int n) = int n - 2 ^ 32"
      by (simp add: signed_take_bit_eq_take_bit_shift take_bit_eq_mod)
    with False s show ?thesis by (simp add: n_def [symmetric])
  qed
qed

definition timer_remaining :: "timerIO \<Rightarrow> nat \<Rightarrow> nat" where
  "timer_remaining s p = unat (tm_uiTimeout (the (io_timers s p))) - unat (io_uiLoopTime s)"

text \<open>C37: The loop waits for the timer that is next: the timeout is exactly the time that remains when this is below
  \<open>2 ^ 31\<close> milliseconds, and -1 when no timer is active; but it is negative also when
  the next timer is between \<open>2 ^ 31\<close> and \<open>2 ^ 32\<close> milliseconds away, which the interval of a timer allows.\<close>

theorem nextTimeout_exact:
  assumes "reachable (timer_init cb) (timer_step cb) s"
  shows "(\<forall>p. \<not> timer_active s p) \<and> eventIO_nextTimeout s = Some (- 1) \<or>
    (\<exists>p w. timer_active s p \<and> (\<forall>q. timer_active s q \<longrightarrow> timer_remaining s p \<le> timer_remaining s q) \<and>
      eventIO_nextTimeout s = Some w \<and>
      (timer_remaining s p < 2 ^ 31 \<longrightarrow> sint w = int (timer_remaining s p)) \<and>
      (2 ^ 31 \<le> timer_remaining s p \<and> timer_remaining s p < 2 ^ 32 \<longrightarrow> sint w < 0))"
proof -
  have inv: "inv0 s" using timers.reachable_inv [OF assms] by blast
  note h = inv_heap [OF inv]
  show ?thesis
  proof (cases "heap_min (io_timerHeap s)")
    case None
    with heap_queue.front_None [OF h] show ?thesis by (auto simp: eventIO_nextTimeout_def)
  next
    case (Some p)
    with heap_queue.front_Some [OF h] have p: "timer_active s p" "\<forall>q. timer_active s q \<longrightarrow> timer_key s p \<le> timer_key s q" by auto
    then obtain t where t: "io_timers s p = Some t" by (auto simp: timer_active_def split: option.splits)
    have least: "timer_remaining s p \<le> timer_remaining s q" if "timer_active s q" for q
    proof -
      from p(2) that have "timer_key s p \<le> timer_key s q" by blast
      then have "tm_uiTimeout (the (io_timers s p)) \<le> tm_uiTimeout (the (io_timers s q))"
        by (auto simp: timer_key_def less_eq_prod_def)
      then show ?thesis unfolding timer_remaining_def word_le_nat_alt by (rule diff_le_mono)
    qed
    define w :: "32 word" where "w = (if tm_uiTimeout t \<le> io_uiLoopTime s then 0 else ucast (tm_uiTimeout t - io_uiLoopTime s))"
    have w: "eventIO_nextTimeout s = Some w" using Some t by (simp add: eventIO_nextTimeout_def w_def)
    have u: "unat w = timer_remaining s p" if "timer_remaining s p < 2 ^ 32"
      using that t by (auto simp: w_def timer_remaining_def word_le_nat_alt not_le unsigned_ucast_eq unat_sub take_bit_nat_eq_self)
    have "(timer_remaining s p < 2 ^ 31 \<longrightarrow> sint w = int (timer_remaining s p)) \<and>
      (2 ^ 31 \<le> timer_remaining s p \<and> timer_remaining s p < 2 ^ 32 \<longrightarrow> sint w < 0)"
      using u unfolding sint32 by (auto simp: not_less)
    with p(1) least w show ?thesis by blast
  qed
qed

section \<open>Callbacks that use timers\<close>

text \<open>A callback that stops its own timer, on the thread of the loop.\<close>

definition stopping :: timer_cb where
  "stopping e s = (case e of Fired p \<Rightarrow> eventTimer_stop True quiet p s | _ \<Rightarrow> Some s)"

lemma stopping_ok: "cb_ok stopping"
  unfolding cb_ok_def
proof (intro allI impI)
  fix e held ks s
  assume inv: "timers_inv held ks s" and t: "io_timers s (event_timer e) \<noteq> None"
  then show "\<exists>s'. stopping e s = Some s' \<and> timers_inv held ks s'"
    using eventTimer_stop_inv [OF quiet_ok(1) inv] by (cases e) (auto simp: stopping_def)
qed

section \<open>Examples\<close>

text \<open>A timer of five milliseconds, started from another thread, when its time has come.\<close>

lemma loop0_init: "cb_ok cb \<Longrightarrow> timer_init cb loop0"
  by (auto simp: timer_init_def loop0_def)

definition due_example :: "timerIO option" where
  "due_example = timer_calls quiet [CallCreate 1 True 5, CallStart False 1, CallDoEvents, CallTime 7] loop0"

lemma exec_reachable:
  "reachable (timer_init cb) (timer_step cb) s \<Longrightarrow> timer_allowed s c \<Longrightarrow> timer_exec cb c s = Some s' \<Longrightarrow>
   reachable (timer_init cb) (timer_step cb) s'"
  by (rule reach_step) (auto simp: timer_step_iff)

fun calls_allowed :: "timer_cb \<Rightarrow> timer_call list \<Rightarrow> timerIO \<Rightarrow> bool" where
  "calls_allowed cb [] s \<longleftrightarrow> True"
| "calls_allowed cb (c # cs) s \<longleftrightarrow> timer_allowed s c \<and> (case timer_exec cb c s of None \<Rightarrow> False | Some s \<Rightarrow> calls_allowed cb cs s)"

lemma calls_reachable:
  "calls_allowed cb cs s \<Longrightarrow> timer_calls cb cs s = Some s' \<Longrightarrow> reachable (timer_init cb) (timer_step cb) s \<Longrightarrow>
   reachable (timer_init cb) (timer_step cb) s'"
  by (induction cs arbitrary: s) (auto split: option.splits intro: exec_reachable)

lemma due_example_reachable:
  assumes "due_example = Some s"
  shows "reachable (timer_init quiet) (timer_step quiet) s" and "timers_due s = {1}" "timer_running s 1" "io_uiLoopTime s = 7"
proof -
  have "calls_allowed quiet [CallCreate 1 True 5, CallStart False 1, CallDoEvents, CallTime 7] loop0"
    by (simp add: timer_eval loop0_def heap_init_def insert_empty user_ref_def)
  then show "reachable (timer_init quiet) (timer_step quiet) s"
    using calls_reachable assms reach_init [of "timer_init quiet" loop0] loop0_init [OF quiet_ok(1)] unfolding due_example_def by blast
  show "timers_due s = {1}" "timer_running s 1" "io_uiLoopTime s = 7"
    using assms by (auto simp: due_example_def timer_eval loop0_def heap_init_def insert_empty timers_due_def timer_active_def timer_running_def split: if_splits)
qed

lemma due_example_some: "\<exists>s. due_example = Some s"
  by (simp add: due_example_def timer_eval loop0_def heap_init_def insert_empty)

theorem runTimers_ends_witness:
  "\<exists>s s'. due_example = Some s \<and> timers_due s = {1} \<and> eventIO_runTimers quiet s = Some s' \<and> timers_due s' = {}"
proof -
  obtain s where s: "due_example = Some s" using due_example_some by blast
  from runTimers_ends [OF due_example_reachable(1) [OF s] quiet_ok(2)] due_example_reachable [OF s] s show ?thesis by auto
qed

theorem runTimers_in_order_witness:
  "\<exists>s s' es. due_example = Some s \<and> eventIO_runTimers quiet s = Some s' \<and> io_log s' = io_log s @ es \<and> set (fired es) = {1}"
proof -
  obtain s where s: "due_example = Some s" using due_example_some by blast
  have "{p \<in> timers_due s. timer_running s p} = {1}" using due_example_reachable [OF s] by auto
  with runTimers_in_order [OF due_example_reachable(1) [OF s]] due_example_reachable(4) [OF s] s show ?thesis by auto
qed

theorem nextTimeout_exact_witness:
  "\<exists>s w. due_example = Some s \<and> eventIO_nextTimeout s = Some w \<and> sint w = 0"
proof -
  obtain s where s: "due_example = Some s" using due_example_some by blast
  note r = due_example_reachable [OF s]
  have one: "timer_active s 1" "timer_remaining s 1 = 0" using r(2) by (auto simp: timers_due_def timer_remaining_def word_le_nat_alt)
  from nextTimeout_exact [OF r(1)] one obtain p w where
    "timer_remaining s p \<le> timer_remaining s 1" "eventIO_nextTimeout s = Some w" "timer_remaining s p < 2 ^ 31 \<longrightarrow> sint w = int (timer_remaining s p)" by blast
  with one s show ?thesis by auto
qed

theorem restart_breaks_heap_witness:
  "\<exists>s s'. timer_calls quiet [CallCreate 1 True 5, CallStart False 1, CallStop True 1, CallStart True 1, CallDoEvents] loop0 = Some s \<and>
     timer_calls quiet [CallTime (ucast (5::u32)), CallRunFirst, CallCreate 2 True 5] s = Some s' \<and> timer_exec quiet (CallStart True 2) s' = None"
  using restart_breaks_heap [of 1 2 5 5 True] by (auto simp del: timer_calls.simps timer_exec.simps)


end
