(* ===== verification/Channel.thy ===== *)
theory Channel
  imports StreamConnection EventTimer
begin

text \<open>
  Channels, \<open>service/source/channel/channel_t.c\<close>: what a service sees of a connection.  A channel is shared by the
  services that look it up by its id, by the connection, whose callbacks get it, and by the timer of a close with a
  timeout.  Who is done with it calls \<open>channel_release\<close>, and the last call frees it.

  One channel is modelled with all it refers to: its connection (theory \<open>Connection\<close>), the timers of the loop
  (theory \<open>EventTimer\<close>), the center it is registered in, reference counts of codecs and services, and the events that
  services were sent.  Freed memory is \<open>None\<close>, and a step that would touch it is undefined.

  The functions of a connection and of a timer make their callbacks; here the callbacks run when the function is
  through, in the order it made them.  All that these functions do after a callback is to give up references of
  their own.
\<close>

section \<open>State\<close>

datatype enStatus = eStarting | eRunning | eStopping | eStopped

record channel =
  ch_pCodecStream :: "nat option"
  ch_pService :: "nat option"
  ch_uiID :: u32
  ch_hConnection :: bool
  ch_hDisconnectTimeout :: "nat option"
  ch_iStatus :: enStatus
  ch_iRefCount :: int

record codecRef =
  cs_fnAddref :: bool
  cs_fnRelease :: bool
  cs_iRefCount :: int

text \<open>\<open>cw_center\<close>: the id under which the center holds the channel.\<close>

record chWorld =
  cw_channel :: "channel option"
  cw_center :: "u32 option"
  cw_connection :: "eventConnection option"
  cw_timers :: timerIO
  cw_codecs :: "nat \<Rightarrow> codecRef option"
  cw_services :: "nat \<Rightarrow> int"
  cw_bRunning :: bool
  cw_events :: "serviceEvent list"

definition put_channel :: "channel \<Rightarrow> chWorld \<Rightarrow> chWorld" where
  "put_channel c w = w\<lparr>cw_channel := Some c\<rparr>"

definition set_connection :: "bool \<Rightarrow> chWorld \<Rightarrow> chWorld option" where
  "set_connection b w = do { c \<leftarrow> cw_channel w; Some (put_channel (c\<lparr>ch_hConnection := b\<rparr>) w) }"

definition set_timeout :: "nat option \<Rightarrow> chWorld \<Rightarrow> chWorld option" where
  "set_timeout t w = do { c \<leftarrow> cw_channel w; Some (put_channel (c\<lparr>ch_hDisconnectTimeout := t\<rparr>) w) }"

definition set_status :: "enStatus \<Rightarrow> chWorld \<Rightarrow> chWorld option" where
  "set_status st w = do { c \<leftarrow> cw_channel w; Some (put_channel (c\<lparr>ch_iStatus := st\<rparr>) w) }"

section \<open>References\<close>

definition codec_addref :: "nat \<Rightarrow> chWorld \<Rightarrow> chWorld option" where
  "codec_addref k w = do {
     s \<leftarrow> cw_codecs w k;
     Some (if cs_fnAddref s then w\<lparr>cw_codecs := (cw_codecs w)(k \<mapsto> s\<lparr>cs_iRefCount := cs_iRefCount s + 1\<rparr>)\<rparr> else w) }"

definition codec_release :: "nat \<Rightarrow> chWorld \<Rightarrow> chWorld option" where
  "codec_release k w = do {
     s \<leftarrow> cw_codecs w k;
     Some (if cs_fnRelease s
           then w\<lparr>cw_codecs := (cw_codecs w)(k := if cs_iRefCount s = 1 then None
                                                else Some (s\<lparr>cs_iRefCount := cs_iRefCount s - 1\<rparr>))\<rparr>
           else w) }"

definition channel_addref :: "chWorld \<Rightarrow> chWorld option" where
  "channel_addref w = do {
     c \<leftarrow> cw_channel w;
     Some (put_channel (c\<lparr>ch_iRefCount := ch_iRefCount c + 1\<rparr>) w) }"

definition channel_release :: "chWorld \<Rightarrow> chWorld option" where
  "channel_release w = do {
     c \<leftarrow> cw_channel w;
     if ch_iRefCount c = 1 then do {
       let w = (case ch_pService c of Some p \<Rightarrow> w\<lparr>cw_services := (cw_services w)(p := cw_services w p - 1)\<rparr> | None \<Rightarrow> w);
       w \<leftarrow> (case ch_pCodecStream c of Some k \<Rightarrow> codec_release k w | None \<Rightarrow> Some w);
       Some (w\<lparr>cw_channel := None\<rparr>) }
     else Some (put_channel (c\<lparr>ch_iRefCount := ch_iRefCount c - 1\<rparr>) w) }"

definition channel_setCodecStream :: "nat option \<Rightarrow> chWorld \<Rightarrow> chWorld option" where
  "channel_setCodecStream pCodecStream w = do {
     c \<leftarrow> cw_channel w;
     w \<leftarrow> (case ch_pCodecStream c of
            Some k \<Rightarrow> do { w \<leftarrow> codec_release k w; Some (put_channel (c\<lparr>ch_pCodecStream := None\<rparr>) w) }
          | None \<Rightarrow> Some w);
     (case pCodecStream of
        Some k \<Rightarrow> do { w \<leftarrow> codec_addref k w; Some (put_channel (c\<lparr>ch_pCodecStream := Some k\<rparr>) w) }
      | None \<Rightarrow> Some w) }"

text \<open>What the center does for a channel: it holds a reference under an id, gives one to who asks for the id, and drops
  its own at the end.  An id of 0 from \<open>channelCenter_register\<close> says that the center is full.\<close>

definition center_register :: "u32 \<Rightarrow> chWorld \<Rightarrow> chWorld option" where
  "center_register uiID w = (if uiID \<noteq> 0 then map_option (cw_center_update (\<lambda>_. Some uiID)) (channel_addref w) else Some w)"

definition center_gain :: "u32 \<Rightarrow> chWorld \<Rightarrow> (bool \<times> chWorld) option" where
  "center_gain uiID w =
     (if cw_center w = Some uiID then map_option (Pair True) (channel_addref w) else Some (False, w))"

definition center_deregister :: "u32 \<Rightarrow> chWorld \<Rightarrow> chWorld option" where
  "center_deregister uiID w =
     (if cw_center w = Some uiID then map_option (cw_center_update (\<lambda>_. None)) (channel_release w) else Some w)"

text \<open>\<open>uiID\<close> is what \<open>channelCenter_register\<close> returns.  The codec and the service are NULL.\<close>

definition createChannel :: "u32 \<Rightarrow> chWorld \<Rightarrow> chWorld option" where
  "createChannel uiID w = do {
     let c = \<lparr>ch_pCodecStream = None, ch_pService = None, ch_uiID = 0, ch_hConnection = True,
              ch_hDisconnectTimeout = None, ch_iStatus = eStarting, ch_iRefCount = 1\<rparr>;
     w \<leftarrow> center_register uiID (put_channel c w);
     c \<leftarrow> cw_channel w;
     Some (put_channel (c\<lparr>ch_uiID := uiID, ch_iStatus := eStarting\<rparr>) w) }"

section \<open>The end of a channel\<close>

definition eventConnection_onUserFree :: "chWorld \<Rightarrow> chWorld option" where
  "eventConnection_onUserFree w = do {
     c \<leftarrow> cw_channel w;
     w \<leftarrow> (if ch_uiID c \<noteq> 0 then do {
            w \<leftarrow> center_deregister (ch_uiID c) w;
            c \<leftarrow> cw_channel w;
            Some (put_channel (c\<lparr>ch_uiID := 0\<rparr>) w) }
          else Some w);
     channel_release w }"

text \<open>The connection after a call; \<open>Free\<close> says that it was freed.\<close>

definition put_connection :: "eventConnection \<Rightarrow> chWorld \<Rightarrow> chWorld" where
  "put_connection c w = w\<lparr>cw_connection := (if Free \<in> set (ec_out c) then None else Some (c\<lparr>ec_out := []\<rparr>))\<rparr>"

definition conn_release :: "chWorld \<Rightarrow> chWorld option" where
  "conn_release w = do {
     c \<leftarrow> cw_connection w;
     let c = eventConnection_release c;
     (if UserFree \<in> set (ec_out c) then eventConnection_onUserFree (put_connection c w) else Some (put_connection c w)) }"

definition conn_apply :: "(eventConnection \<Rightarrow> eventConnection) \<Rightarrow> chWorld \<Rightarrow> chWorld option" where
  "conn_apply f w = do { c \<leftarrow> cw_connection w; Some (put_connection (f c) w) }"

definition eventTimer_onClose :: "chWorld \<Rightarrow> chWorld option" where
  "eventTimer_onClose w = channel_release w"

definition timer_call :: "(timerIO \<Rightarrow> timerIO option) \<Rightarrow> chWorld \<Rightarrow> chWorld option" where
  "timer_call f w = do { t \<leftarrow> f (cw_timers w); Some (w\<lparr>cw_timers := t\<lparr>io_log := []\<rparr>\<rparr>) }"

definition eventTimer_onDisconnectTimeout :: "chWorld \<Rightarrow> chWorld option" where
  "eventTimer_onDisconnectTimeout w = do {
     c \<leftarrow> cw_channel w;
     w \<leftarrow> set_timeout None w;
     w \<leftarrow> (case ch_hDisconnectTimeout c of Some p \<Rightarrow> timer_call (eventTimer_release p) w | None \<Rightarrow> Some w);
     w \<leftarrow> set_connection False w;
     w \<leftarrow> (if ch_hConnection c then do { w \<leftarrow> conn_apply eventConnection_forceClose w; conn_release w } else Some w);
     channel_release w }"

fun timer_events :: "timer_event list \<Rightarrow> chWorld \<Rightarrow> chWorld option" where
  "timer_events [] w = Some w"
| "timer_events (Fired p # es) w = do { w \<leftarrow> eventTimer_onDisconnectTimeout w; timer_events es w }"
| "timer_events (TimerClosed p # es) w = do { w \<leftarrow> eventTimer_onClose w; timer_events es w }"
| "timer_events (TimerFreed p # es) w = timer_events es w"

text \<open>A call into the timers, and the callbacks it makes.\<close>

definition quiet_cb :: timer_cb where
  "quiet_cb e s = Some s"

definition timer_do :: "(timerIO \<Rightarrow> timerIO option) \<Rightarrow> chWorld \<Rightarrow> chWorld option" where
  "timer_do f w = do {
     t \<leftarrow> f (cw_timers w);
     timer_events (io_log t) (w\<lparr>cw_timers := t\<lparr>io_log := []\<rparr>\<rparr>) }"

text \<open>\<open>inLoop\<close>: the caller is the thread of the timers.\<close>

definition stop_timeout :: "bool \<Rightarrow> nat option \<Rightarrow> chWorld \<Rightarrow> chWorld option" where
  "stop_timeout inLoop t w =
     (case t of
        Some p \<Rightarrow> do { w \<leftarrow> timer_do (eventTimer_stop inLoop quiet_cb p) w; timer_call (eventTimer_release p) w }
      | None \<Rightarrow> Some w)"

definition eventConnection_onClose :: "bool \<Rightarrow> chWorld \<Rightarrow> chWorld option" where
  "eventConnection_onClose inLoop w = do {
     c \<leftarrow> cw_channel w;
     w \<leftarrow> set_connection False w;
     w \<leftarrow> (if ch_hConnection c then conn_release w else Some w);
     c \<leftarrow> cw_channel w;
     w \<leftarrow> set_timeout None w;
     w \<leftarrow> stop_timeout inLoop (ch_hDisconnectTimeout c) w;
     channel_release w }"

section \<open>Events for the service\<close>

definition channel_post :: "u32 \<Rightarrow> u32 \<Rightarrow> chWorld \<Rightarrow> chWorld option" where
  "channel_post uiLength uiToken w = do {
     c \<leftarrow> cw_channel w;
     p \<leftarrow> ch_pService c;
     let pEvent = \<lparr>se_uiSourceID = ch_uiID c, se_uiToken = uiToken, se_uiLength = uiLength, se_szStorage = Inline []\<rparr>;
     Some (w\<lparr>cw_events := cw_events w @ snd (service_enqueue (cw_bRunning w) pEvent)\<rparr>) }"

definition eventConnection_onSendCompleteCallback :: "bool \<Rightarrow> u64 \<Rightarrow> chWorld \<Rightarrow> chWorld option" where
  "eventConnection_onSendCompleteCallback bSendComplete uiWriteUser w =
     channel_post (if bSendComplete then push_bit 24 DEF_EVENT_SEND_OK
                   else push_bit 24 (DEF_EVENT_MSG OR DEF_EVENT_MSG_CLOSE)) (ucast uiWriteUser) w"

definition eventConnection_onDisconnectCallback :: "chWorld \<Rightarrow> chWorld option" where
  "eventConnection_onDisconnectCallback w = channel_post (push_bit 24 DEF_EVENT_DISCONNECT) 0 w"

text \<open>What a function of the connection did to the outside, in order.  The events of the receive callback are posted by
  the callback itself (theory \<open>StreamConnection\<close>).\<close>

fun conn_event :: "bool \<Rightarrow> conn_out \<Rightarrow> chWorld \<Rightarrow> chWorld option" where
  "conn_event inLoop CloseCallback w = eventConnection_onClose inLoop w"
| "conn_event inLoop UserFree w = eventConnection_onUserFree w"
| "conn_event inLoop (SendComplete ok u) w = eventConnection_onSendCompleteCallback ok u w"
| "conn_event inLoop DisconnectCallback w = eventConnection_onDisconnectCallback w"
| "conn_event inLoop (Posted e) w = Some (w\<lparr>cw_events := cw_events w @ [e]\<rparr>)"
| "conn_event inLoop _ w = Some w"

fun conn_events :: "bool \<Rightarrow> conn_out list \<Rightarrow> chWorld \<Rightarrow> chWorld option" where
  "conn_events inLoop [] w = Some w"
| "conn_events inLoop (x # xs) w = do { w \<leftarrow> conn_event inLoop x w; conn_events inLoop xs w }"

definition conn_call :: "bool \<Rightarrow> (eventConnection \<Rightarrow> ('a \<times> eventConnection) option) \<Rightarrow> chWorld \<Rightarrow> ('a \<times> chWorld) option" where
  "conn_call inLoop f w = do {
     c \<leftarrow> cw_connection w;
     (r, c) \<leftarrow> f c;
     w \<leftarrow> conn_events inLoop (ec_out c) (put_connection c w);
     Some (r, w) }"

definition conn_do :: "bool \<Rightarrow> (eventConnection \<Rightarrow> eventConnection option) \<Rightarrow> chWorld \<Rightarrow> chWorld option" where
  "conn_do inLoop f w = map_option snd (conn_call inLoop (\<lambda>c. map_option (Pair ()) (f c)) w)"

section \<open>The functions of a channel\<close>

text \<open>\<open>w\<close> and the calls it is given say where the loop of the connection runs its functions; what the bind replaces in
  the connection is not the user data of this channel, so its callback is none of the channel's.\<close>

definition channel_bind :: "where_run \<Rightarrow> nat \<Rightarrow> bool \<Rightarrow> bool \<Rightarrow> chWorld \<Rightarrow> (bool \<times> chWorld) option" where
  "channel_bind wr pService bKeepAlive bTcpNoDelay w = do {
     c \<leftarrow> cw_channel w;
     if ch_hConnection c then do {
       let w = put_channel (c\<lparr>ch_pService := Some pService\<rparr>) w;
       let w = w\<lparr>cw_services := (cw_services w)(pService := cw_services w pService + 1)\<rparr>;
       w \<leftarrow> conn_apply (eventConnection_setReceiveCallback True) w;
       w \<leftarrow> conn_apply (eventConnection_setDisconnectCallback True) w;
       w \<leftarrow> conn_apply (eventConnection_setCloseCallback True) w;
       w \<leftarrow> channel_addref w;
       w \<leftarrow> set_status eRunning w;
       k \<leftarrow> cw_connection w;
       let (ok, k) = eventConnection_bind wr bKeepAlive bTcpNoDelay True True k;
       let w = put_connection k w;
       if \<not> ok then do {
         w \<leftarrow> set_status eStopped w;
         w \<leftarrow> set_connection False w;
         w \<leftarrow> conn_release w;
         Some (False, w) }
       else Some (True, w) }
     else Some (False, w) }"

text \<open>\<open>p\<close> is the address that \<open>mem_malloc\<close> returns for a new timer; \<open>inLoop\<close>: the caller is the thread of the timers.\<close>

definition channel_close :: "bool \<Rightarrow> nat \<Rightarrow> 32 word \<Rightarrow> chWorld \<Rightarrow> chWorld option" where
  "channel_close inLoop p iDisconnectTimeoutMs w = do {
     c \<leftarrow> cw_channel w;
     if sint iDisconnectTimeoutMs \<le> 0 then do {
       w \<leftarrow> set_status eStopped w;
       if ch_iStatus c \<noteq> eStopped then do {
         w \<leftarrow> set_timeout None w;
         w \<leftarrow> stop_timeout inLoop (ch_hDisconnectTimeout c) w;
         c \<leftarrow> cw_channel w;
         w \<leftarrow> set_connection False w;
         if ch_hConnection c then do { w \<leftarrow> conn_apply eventConnection_forceClose w; conn_release w } else Some w }
       else Some w }
     else do {
       w \<leftarrow> set_status eStopping w;
       if ch_iStatus c \<in> {eStarting, eRunning} then do {
         w \<leftarrow> timer_call (\<lambda>t. Some (createEventTimer p True iDisconnectTimeoutMs t)) w;
         w \<leftarrow> set_timeout (Some p) w;
         w \<leftarrow> timer_call (eventTimer_setCloseCallback p True) w;
         w \<leftarrow> channel_addref w;
         w \<leftarrow> timer_do (\<lambda>t. map_option snd (eventTimer_start inLoop quiet_cb p t)) w;
         c \<leftarrow> cw_channel w;
         if ch_hConnection c then conn_apply eventConnection_close w else Some w }
       else Some w } }"

definition channel_isRunning :: "chWorld \<Rightarrow> bool option" where
  "channel_isRunning w = map_option (\<lambda>c. ch_iStatus c = eRunning) (cw_channel w)"

definition channel_getService :: "chWorld \<Rightarrow> nat option option" where
  "channel_getService w = map_option ch_pService (cw_channel w)"

definition channel_getID :: "chWorld \<Rightarrow> u32 option" where
  "channel_getID w = map_option ch_uiID (cw_channel w)"

text \<open>The getters that ask the connection, while the channel has one.\<close>

definition channel_ask :: "(eventConnection \<Rightarrow> 'a) \<Rightarrow> 'a \<Rightarrow> chWorld \<Rightarrow> 'a option" where
  "channel_ask f z w = do {
     c \<leftarrow> cw_channel w;
     if ch_hConnection c then map_option f (cw_connection w) else Some z }"

definition channel_getWritePending :: "chWorld \<Rightarrow> int option" where
  "channel_getWritePending = channel_ask eventConnection_getWritePending 0"

definition channel_getWritePendingBytes :: "chWorld \<Rightarrow> u64 option" where
  "channel_getWritePendingBytes = channel_ask eventConnection_getWritePendingBytes 0"

definition channel_getReceiveBufLength :: "chWorld \<Rightarrow> nat option" where
  "channel_getReceiveBufLength = channel_ask eventConnection_getReceiveBufLength 0"

section \<open>Sending\<close>

text \<open>A call on the connection of a running channel, or the other result.\<close>

definition channel_running ::
  "bool \<Rightarrow> (channel \<Rightarrow> eventConnection \<Rightarrow> ('a \<times> eventConnection) option) \<Rightarrow> 'a \<Rightarrow> chWorld \<Rightarrow> ('a \<times> chWorld) option" where
  "channel_running inLoop f z w = do {
     c \<leftarrow> cw_channel w;
     if ch_iStatus c = eRunning \<and> ch_hConnection c then conn_call inLoop (f c) w else Some (z, w) }"

text \<open>\<open>fnWrite\<close> and \<open>fnWriteMove\<close> of a codec, if it has them (theory \<open>StreamConnection\<close>); \<open>r\<close> is what the system call
  returns, when the send is made on the thread of the loop.\<close>

type_synonym fn_write = "eventConnection \<Rightarrow> bytes \<Rightarrow> int \<Rightarrow> u32 \<Rightarrow> u32 \<Rightarrow> (int \<times> eventConnection) option"
type_synonym fn_writeMove = "eventConnection \<Rightarrow> bytes list \<Rightarrow> int \<Rightarrow> u32 \<Rightarrow> u32 \<Rightarrow> ((int \<times> bytes list) \<times> eventConnection) option"

definition send_buf :: "bool \<Rightarrow> sysret \<Rightarrow> bytes \<Rightarrow> int \<Rightarrow> bool \<Rightarrow> u64 \<Rightarrow> eventConnection \<Rightarrow> (int \<times> eventConnection) option" where
  "send_buf inLoop r pBuffer iLength fn uiWriteUser k = do {
     b \<leftarrow> createEventBuf pBuffer iLength fn uiWriteUser;
     eventConnection_send inLoop r b k }"

definition send_move ::
  "bool \<Rightarrow> sysret \<Rightarrow> bytes list \<Rightarrow> int \<Rightarrow> bool \<Rightarrow> u64 \<Rightarrow> eventConnection \<Rightarrow> ((int \<times> bytes list) \<times> eventConnection) option" where
  "send_move inLoop r pInBufVec iCount fn uiWriteUser k = do {
     (b, vec) \<leftarrow> createEventBuf_move pInBufVec iCount fn uiWriteUser;
     (n, k) \<leftarrow> eventConnection_send inLoop r b k;
     Some ((n, vec), k) }"

definition channel_send ::
  "bool \<Rightarrow> sysret \<Rightarrow> (nat \<Rightarrow> fn_write option) \<Rightarrow> bytes \<Rightarrow> int \<Rightarrow> u32 \<Rightarrow> u32 \<Rightarrow> chWorld \<Rightarrow> (int \<times> chWorld) option" where
  "channel_send inLoop r fnWrite pBuffer iLength uiFlag uiToken =
     channel_running inLoop
       (\<lambda>c k. case Option.bind (ch_pCodecStream c) fnWrite of
            Some fn \<Rightarrow> fn k pBuffer iLength uiFlag uiToken
          | None \<Rightarrow> send_buf inLoop r pBuffer iLength False 0 k)
       (-1)"

text \<open>A refused vector is freed by the channel: its buffers are empty afterwards.\<close>

definition refused_vec :: "bytes list \<Rightarrow> int \<Rightarrow> int \<times> bytes list" where
  "refused_vec pInBufVec iCount = (-1, replicate (min (nat iCount) (length pInBufVec)) [] @ drop (nat iCount) pInBufVec)"

definition channel_sendMove ::
  "bool \<Rightarrow> sysret \<Rightarrow> (nat \<Rightarrow> fn_writeMove option) \<Rightarrow> bytes list \<Rightarrow> int \<Rightarrow> u32 \<Rightarrow> u32 \<Rightarrow> chWorld \<Rightarrow> ((int \<times> bytes list) \<times> chWorld) option"
  where
  "channel_sendMove inLoop r fnWriteMove pInBufVec iCount uiFlag uiToken =
     channel_running inLoop
       (\<lambda>c k. case Option.bind (ch_pCodecStream c) fnWriteMove of
            Some fn \<Rightarrow> fn k pInBufVec iCount uiFlag uiToken
          | None \<Rightarrow> send_move inLoop r pInBufVec iCount False 0 k)
       (refused_vec pInBufVec iCount)"

definition channel_write :: "bool \<Rightarrow> sysret \<Rightarrow> bytes \<Rightarrow> int \<Rightarrow> u32 \<Rightarrow> chWorld \<Rightarrow> (int \<times> chWorld) option" where
  "channel_write inLoop r pBuffer iLength uiToken =
     channel_running inLoop
       (\<lambda>c k. if uiToken \<noteq> 0 then send_buf inLoop r pBuffer iLength True (ucast uiToken) k
              else send_buf inLoop r pBuffer iLength False 0 k)
       (-1)"

definition channel_writeMove ::
  "bool \<Rightarrow> sysret \<Rightarrow> bytes list \<Rightarrow> int \<Rightarrow> u32 \<Rightarrow> chWorld \<Rightarrow> ((int \<times> bytes list) \<times> chWorld) option" where
  "channel_writeMove inLoop r pInBufVec iCount uiToken =
     channel_running inLoop
       (\<lambda>c k. if uiToken \<noteq> 0 then send_move inLoop r pInBufVec iCount True (ucast uiToken) k
              else send_move inLoop r pInBufVec iCount False 0 k)
       (refused_vec pInBufVec iCount)"

text \<open>The event a codec posts; the length is packed with the type without a check.\<close>

definition channel_pushService :: "byteQueue \<Rightarrow> u32 \<Rightarrow> u32 \<Rightarrow> u32 \<Rightarrow> chWorld \<Rightarrow> (bool \<times> byteQueue \<times> chWorld) option" where
  "channel_pushService pByteQueue uiLength uiFlag uiToken w = do {
     c \<leftarrow> cw_channel w;
     (bs, q) \<leftarrow> (if 0 < uiLength then bq_read pByteQueue (unat uiLength) False else Some ([], pByteQueue));
     p \<leftarrow> ch_pService c;
     let pEvent = \<lparr>se_uiSourceID = ch_uiID c, se_uiToken = uiToken, se_uiLength = uiLength OR push_bit 24 uiFlag,
                   se_szStorage = Inline bs\<rparr>;
     let (ok, evs) = service_enqueue (cw_bRunning w) pEvent;
     Some (ok, q, w\<lparr>cw_events := cw_events w @ evs\<rparr>) }"

section \<open>The callers\<close>

text \<open>\<open>lservice_t.c\<close>: what a service does with the id of a channel.  The close gives up the reference that
  \<open>createChannel\<close> returned, beside the one of the look-up.\<close>

definition lservice_remoteBind :: "where_run \<Rightarrow> nat \<Rightarrow> bool \<Rightarrow> bool \<Rightarrow> nat option \<Rightarrow> u32 \<Rightarrow> chWorld \<Rightarrow> chWorld option" where
  "lservice_remoteBind wr pService bKeepAlive bTcpNoDelay pCodecHandle uiID w = do {
     (found, w) \<leftarrow> center_gain uiID w;
     if found then do {
       w \<leftarrow> channel_setCodecStream pCodecHandle w;
       (ok, w) \<leftarrow> channel_bind wr pService bKeepAlive bTcpNoDelay w;
       channel_release w }
     else Some w }"

definition lservice_remoteClose :: "bool \<Rightarrow> nat \<Rightarrow> u64 \<Rightarrow> u32 \<Rightarrow> chWorld \<Rightarrow> chWorld option" where
  "lservice_remoteClose inLoop p uiDisconnectTimeoutMs uiID w = do {
     (found, w) \<leftarrow> center_gain uiID w;
     if found then do {
       w \<leftarrow> channel_close inLoop p (ucast uiDisconnectTimeoutMs) w;
       w \<leftarrow> channel_release w;
       channel_release w }
     else Some w }"

text \<open>\<open>service_t.c\<close>: the channel of an accepted connection that the callback of the service refuses.\<close>

definition service_refuseChannel :: "bool \<Rightarrow> nat \<Rightarrow> chWorld \<Rightarrow> chWorld option" where
  "service_refuseChannel inLoop p w = do {
     w \<leftarrow> channel_close inLoop p 0 w;
     channel_release w }"

text \<open>The loop of the connection: the next queued function, and an event of the poller.\<close>

definition chan_async :: "bool \<Rightarrow> async_env \<Rightarrow> chWorld \<Rightarrow> chWorld option" where
  "chan_async inLoop env w = conn_do inLoop (run_async env) w"

definition chan_poll :: "bool \<Rightarrow> conn_env \<Rightarrow> u32 \<Rightarrow> chWorld \<Rightarrow> chWorld option" where
  "chan_poll inLoop env iAttribute w = conn_do inLoop (handleEvent env iAttribute) w"

end
