(* ===== verification/ChannelLife.thy ===== *)
theory ChannelLife
  imports Channel ConnectionSend Interfaces
begin

text \<open>
  The references of a bound channel: the center, the connection and the users each hold theirs, so that no step
  touches a freed channel and nobody forgets one, as long as a user gives back what it was given.
\<close>

section \<open>What the functions of a connection leave to the channel\<close>

lemma conn_life_receive:
  "receive_callback fn c = Some (ok, c') \<Longrightarrow> conn_life c' = conn_life c"
proof -
  assume r: "receive_callback fn c = Some (ok, c')"
  have posted: "filter closing_out (map Posted evs) = []" for evs by (induction evs) simp_all
  show ?thesis
  proof (cases "ec_fnReceiveCallback c")
    case True
    with r obtain ok' evs q where "fn (ec_readByteQueue c) = Some (ok', evs, q)"
      by (auto simp: receive_callback_def Let_def bind_eq_Some_conv)
    with r True show ?thesis
      by (simp add: receive_callback_def Let_def conn_life_def posted bind_eq_Some_conv split: if_splits) auto
  next
    case False
    with r show ?thesis by (simp add: receive_callback_def)
  qed
qed

lemma conn_life_recv: "handleRecv fn r c = Some (ok, c') \<Longrightarrow> conn_life c' = conn_life c"
proof (cases r)
  case (Received xs)
  assume "handleRecv fn r c = Some (ok, c')"
  with Received show ?thesis
    by (cases "xs = []") (fastforce simp: handleRecv_def Let_def bind_eq_Some_conv split_beta dest!: conn_life_receive)+
qed (simp add: handleRecv_def)

definition rel_out :: "eventConnection \<Rightarrow> conn_out list" where
  "rel_out k = (if ec_iRefCount k = 1
     then (if ec_pListenPort k \<and> \<not> ec_bTcp k then [RemoveAddress] else []) @ (if ec_fnUserFree k then [UserFree] else []) @ [Free]
     else [])"

lemma release_fields [simp]:
  "ec_out (eventConnection_release k) = ec_out k @ rel_out k"
  "ec_iRefCount (eventConnection_release k) = ec_iRefCount k - 1"
  "ec_hSocket (eventConnection_release k) = ec_hSocket k" "ec_async (eventConnection_release k) = ec_async k"
  "ec_fnCloseCallback (eventConnection_release k) = ec_fnCloseCallback k"
  "ec_fnUserFree (eventConnection_release k) = ec_fnUserFree k" "ec_iStatus (eventConnection_release k) = ec_iStatus k"
  by (auto simp: eventConnection_release_def Let_def emit_def rel_out_def)

text \<open>The closing, up to the reference it gives up.\<close>

lemma handleClose_shape:
  assumes "handleClose k = Some k'" "ec_hSocket k \<noteq> -1"
  obtains k1 as where "k' = eventConnection_release k1" "filter closing_out as = filter closing_out (ec_out k)"
    "ec_out k1 = as @ (if ec_fnCloseCallback k then [CloseCallback] else [])" "ec_iRefCount k1 = ec_iRefCount k"
    "ec_hSocket k1 = -1" "\<not> ec_fnCloseCallback k1" "ec_fnUserFree k1 = ec_fnUserFree k" "ec_async k1 = ec_async k"
    "ec_iStatus k1 = eDisconnected"
proof -
  let ?c = "(emit CloseSocket (conn_poller_clear (k\<lparr>ec_iStatus := eDisconnected\<rparr>) ePollerClosed))\<lparr>ec_hSocket := -1\<rparr>"
  from assms obtain c1 where c1: "close_pending (ec_queueWritePending ?c) 0 ?c = Some c1" and
    k': "k' = eventConnection_release ((if ec_fnCloseCallback c1 then (emit CloseCallback c1)\<lparr>ec_fnCloseCallback := False\<rparr> else c1)
      \<lparr>ec_iConnections := ec_iConnections (if ec_fnCloseCallback c1 then (emit CloseCallback c1)\<lparr>ec_fnCloseCallback := False\<rparr> else c1) - 1\<rparr>)"
    (is "k' = eventConnection_release ?k1")
    by (auto simp: handleClose_def Let_def bind_eq_Some_conv)
  have l: "conn_life (conn_poller_clear (k\<lparr>ec_iStatus := eDisconnected\<rparr>) ePollerClosed) = conn_life (k\<lparr>ec_iStatus := eDisconnected\<rparr>)"
    by simp
  have "ec_iStatus c1 = eDisconnected" "ec_hSocket c1 = -1" "ec_iRefCount c1 = ec_iRefCount k" "ec_async c1 = ec_async k"
    "ec_fnUserFree c1 = ec_fnUserFree k" "ec_fnCloseCallback c1 = ec_fnCloseCallback k"
    "filter closing_out (ec_out c1) = filter closing_out (ec_out k)"
    using conn_lifeD [OF conn_life_close [OF c1]] conn_lifeD [OF l] by (auto simp: emit_def)
  then show thesis by (intro that [OF k', of "ec_out c1"]) (auto simp: emit_def)
qed

section \<open>The channel's side\<close>

text \<open>A channel to which \<open>n\<close> references exist, or that is freed.\<close>

definition chan :: "int \<Rightarrow> chWorld \<Rightarrow> bool" where
  "chan n w \<longleftrightarrow>
     (case cw_channel w of
        None \<Rightarrow> n = 0 \<and> cw_center w = None
      | Some c \<Rightarrow> 1 \<le> n \<and> ch_iRefCount c = n \<and> ch_hDisconnectTimeout c = None \<and> ch_pService c \<noteq> None \<and>
          (\<forall>k. ch_pCodecStream c = Some k \<longrightarrow> cw_codecs w k \<noteq> None) \<and>
          cw_center w = (if ch_uiID c = 0 then None else Some (ch_uiID c)))"

definition has_conn :: "chWorld \<Rightarrow> bool" where
  "has_conn w = (case cw_channel w of Some c \<Rightarrow> ch_hConnection c | None \<Rightarrow> False)"

definition registered :: "chWorld \<Rightarrow> bool" where
  "registered w \<longleftrightarrow> cw_center w \<noteq> None"

lemma chan_nonneg: "chan n w \<Longrightarrow> 0 \<le> n \<and> (registered w \<longrightarrow> 1 \<le> n)"
  by (auto simp: chan_def registered_def split: option.splits)

lemma chan_Some: "chan n w \<Longrightarrow> 1 \<le> n \<Longrightarrow> \<exists>c. cw_channel w = Some c \<and> ch_iRefCount c = n \<and> ch_hDisconnectTimeout c = None"
  by (auto simp: chan_def split: option.splits)

lemma chan_events [simp]: "chan n (w\<lparr>cw_events := es\<rparr>) = chan n w" "has_conn (w\<lparr>cw_events := es\<rparr>) = has_conn w"
    "registered (w\<lparr>cw_events := es\<rparr>) = registered w"
  by (simp_all add: chan_def has_conn_def registered_def split: option.split)

lemma chan_connection [simp]: "chan n (w\<lparr>cw_connection := k\<rparr>) = chan n w" "has_conn (w\<lparr>cw_connection := k\<rparr>) = has_conn w"
    "registered (w\<lparr>cw_connection := k\<rparr>) = registered w"
  by (simp_all add: chan_def has_conn_def registered_def split: option.split)

lemma put_connection_sel [simp]:
  "cw_channel (put_connection k w) = cw_channel w" "cw_center (put_connection k w) = cw_center w"
  "chan n (put_connection k w) = chan n w" "has_conn (put_connection k w) = has_conn w"
  "registered (put_connection k w) = registered w"
  by (simp_all add: put_connection_def chan_def has_conn_def registered_def split: option.split)

lemma codec_release_some: "cw_codecs w k \<noteq> None \<Longrightarrow> \<exists>cs. codec_release k w = Some (w\<lparr>cw_codecs := cs\<rparr>)"
proof -
  assume "cw_codecs w k \<noteq> None"
  then obtain y where y: "cw_codecs w k = Some y" by blast
  show ?thesis
  proof (cases "cs_fnRelease y")
    case True
    with y show ?thesis by (auto simp: codec_release_def)
  next
    case False
    with y have "codec_release k w = Some (w\<lparr>cw_codecs := cw_codecs w\<rparr>)" by (simp add: codec_release_def)
    then show ?thesis by blast
  qed
qed

lemma last_release:
  assumes "chan 1 w"
  shows "\<exists>cs ss. channel_release w = Some (w\<lparr>cw_services := ss, cw_codecs := cs, cw_channel := None\<rparr>)"
proof -
  from assms obtain c p where c: "cw_channel w = Some c" "ch_iRefCount c = 1" "ch_pService c = Some p"
    "\<forall>k. ch_pCodecStream c = Some k \<longrightarrow> cw_codecs w k \<noteq> None"
    by (auto simp: chan_def split: option.splits)
  let ?w = "w\<lparr>cw_services := (cw_services w)(p := cw_services w p - 1)\<rparr>"
  show ?thesis
  proof (cases "ch_pCodecStream c")
    case None
    with c have "channel_release w = Some (?w\<lparr>cw_codecs := cw_codecs w, cw_channel := None\<rparr>)" by (simp add: channel_release_def)
    then show ?thesis by blast
  next
    case (Some k)
    with c codec_release_some [of ?w k] obtain cs where "codec_release k ?w = Some (?w\<lparr>cw_codecs := cs\<rparr>)" by auto
    with c Some have "channel_release w = Some (?w\<lparr>cw_codecs := cs, cw_channel := None\<rparr>)" by (simp add: channel_release_def)
    then show ?thesis by blast
  qed
qed

lemma chan_release:
  assumes "chan n w" "of_bool (registered w) < n"
  shows "\<exists>w'. channel_release w = Some w' \<and> chan (n - 1) w' \<and> cw_center w' = cw_center w \<and>
    cw_connection w' = cw_connection w \<and> (has_conn w' \<longrightarrow> has_conn w) \<and> (1 < n \<longrightarrow> has_conn w' = has_conn w)"
proof -
  from assms obtain c where c: "cw_channel w = Some c" "ch_iRefCount c = n" proof -
    from assms(2) have "1 \<le> n" by (cases "registered w") simp_all
    from chan_Some [OF assms(1) this] that show thesis by blast
  qed
  show ?thesis
  proof (cases "n = 1")
    case True
    with assms have "cw_center w = None" by (auto simp: registered_def)
    with last_release [of w] True assms(1) show ?thesis by (auto simp: chan_def has_conn_def)
  next
    case False
    with c assms show ?thesis
      by (auto simp: channel_release_def chan_def has_conn_def put_channel_def split: option.splits)
  qed
qed

lemma chan_addref:
  assumes "chan n w" "1 \<le> n"
  shows "\<exists>w'. channel_addref w = Some w' \<and> chan (n + 1) w' \<and> cw_center w' = cw_center w \<and>
    cw_connection w' = cw_connection w \<and> has_conn w' = has_conn w"
  using assms by (auto simp: channel_addref_def chan_def has_conn_def put_channel_def split: option.splits)

lemma registered_cong: "cw_center w' = cw_center w \<Longrightarrow> registered w' = registered w"
  by (simp add: registered_def)

text \<open>The end of the connection takes its reference and the one of the center.\<close>

lemma chan_userFree:
  assumes "chan n w" "1 + of_bool (registered w) \<le> n"
  shows "\<exists>w'. eventConnection_onUserFree w = Some w' \<and> chan (n - 1 - of_bool (registered w)) w' \<and> \<not> registered w' \<and>
    cw_connection w' = cw_connection w \<and> (has_conn w' \<longrightarrow> has_conn w)"
proof (cases "registered w")
  case True
  with assms obtain c where c: "cw_channel w = Some c" "ch_iRefCount c = n" "ch_uiID c \<noteq> 0" "cw_center w = Some (ch_uiID c)"
    by (auto simp: chan_def registered_def split: option.splits if_splits)
  let ?w = "put_channel (c\<lparr>ch_iRefCount := n - 1, ch_uiID := 0\<rparr>) (w\<lparr>cw_center := None\<rparr>)"
  have "channel_release w = Some (put_channel (c\<lparr>ch_iRefCount := n - 1\<rparr>) w)"
    using c True assms by (simp add: channel_release_def)
  then have "eventConnection_onUserFree w = channel_release ?w"
    using c by (simp add: eventConnection_onUserFree_def center_deregister_def put_channel_def)
  moreover have "chan (n - 1) ?w" using c True assms by (auto simp: chan_def put_channel_def)
  moreover have "\<not> registered ?w" by (simp add: registered_def put_channel_def)
  ultimately show ?thesis using chan_release [of "n - 1" ?w] True assms c
    by (auto simp: put_channel_def has_conn_def registered_def)
next
  case False
  with assms obtain c where c: "cw_channel w = Some c" "ch_uiID c = 0"
    by (auto simp: chan_def registered_def split: option.splits if_splits)
  then have "eventConnection_onUserFree w = channel_release w" by (simp add: eventConnection_onUserFree_def)
  with chan_release [OF assms(1)] False assms(2) show ?thesis by (auto simp: registered_def)
qed

text \<open>One reference short, it finds the channel freed.\<close>

lemma chan_userFree_short:
  assumes "chan n w" "n = of_bool (registered w)"
  shows "eventConnection_onUserFree w = None"
proof (cases "registered w")
  case True
  with assms obtain c where c: "cw_channel w = Some c" "ch_uiID c \<noteq> 0" "cw_center w = Some (ch_uiID c)"
    by (auto simp: chan_def registered_def split: option.splits if_splits)
  moreover from True assms obtain w' where "channel_release w = Some w'" "cw_channel w' = None"
    using last_release [of w] by fastforce
  ultimately show ?thesis by (simp add: eventConnection_onUserFree_def center_deregister_def)
next
  case False
  with assms have "cw_channel w = None" by (auto simp: chan_def split: option.splits)
  then show ?thesis by (simp add: eventConnection_onUserFree_def)
qed

section \<open>The callbacks of the connection\<close>

lemma conn_events_append: "conn_events l (xs @ ys) w = Option.bind (conn_events l xs w) (conn_events l ys)"
  by (induction xs arbitrary: w) (auto split: Option.bind_split)

lemma posts:
  "filter closing_out xs = [] \<Longrightarrow> chan n w \<Longrightarrow> 1 \<le> n \<Longrightarrow> \<exists>es. conn_events l xs w = Some (w\<lparr>cw_events := es\<rparr>)"
proof (induction xs arbitrary: w)
  case Nil
  then show ?case by (auto intro: exI [of _ "cw_events w"])
next
  case (Cons x xs)
  from Cons.prems obtain c p where "cw_channel w = Some c" "ch_pService c = Some p"
    by (auto simp: chan_def split: option.splits)
  with Cons.prems have "\<exists>es. conn_event l x w = Some (w\<lparr>cw_events := es\<rparr>)"
    by (cases x) (auto simp: channel_post_def eventConnection_onSendCompleteCallback_def
        eventConnection_onDisconnectCallback_def split: if_splits intro: exI [of _ "cw_events w"])
  then obtain es where es: "conn_event l x w = Some (w\<lparr>cw_events := es\<rparr>)" by blast
  from Cons.prems have "filter closing_out xs = []" by (simp split: if_splits)
  from Cons.IH [OF this, of "w\<lparr>cw_events := es\<rparr>"] Cons.prems es show ?case by auto
qed

definition stored :: "eventConnection \<Rightarrow> eventConnection" where
  "stored k = k\<lparr>ec_out := []\<rparr>"

lemma put_stored: "Free \<notin> set (ec_out k) \<Longrightarrow> cw_connection (put_connection k w) = Some (stored k)"
    "Free \<in> set (ec_out k) \<Longrightarrow> cw_connection (put_connection k w) = None"
  by (simp_all add: put_connection_def stored_def)

lemma set_connection_chan:
  assumes "chan n w" "1 \<le> n"
  shows "\<exists>w'. set_connection False w = Some w' \<and> chan n w' \<and> \<not> has_conn w' \<and> cw_center w' = cw_center w \<and>
    cw_connection w' = cw_connection w"
proof -
  from chan_Some [OF assms] obtain c where c: "cw_channel w = Some c" by blast
  let ?w = "put_channel (c\<lparr>ch_hConnection := False\<rparr>) w"
  have "set_connection False w = Some ?w" using c by (simp add: set_connection_def)
  moreover have "chan n ?w" using c assms by (simp add: chan_def put_channel_def)
  ultimately show ?thesis using c by (intro exI [of _ ?w]) (simp add: put_channel_def has_conn_def)
qed

lemma set_timeout_chan:
  assumes "chan n w" "1 \<le> n"
  shows "\<exists>w'. set_timeout None w = Some w' \<and> chan n w' \<and> has_conn w' = has_conn w \<and> cw_center w' = cw_center w \<and>
    cw_connection w' = cw_connection w"
proof -
  from chan_Some [OF assms] obtain c where c: "cw_channel w = Some c" by blast
  let ?w = "put_channel (c\<lparr>ch_hDisconnectTimeout := None\<rparr>) w"
  have "set_timeout None w = Some ?w" using c by (simp add: set_timeout_def)
  moreover have "chan n ?w" using c assms by (simp add: chan_def put_channel_def)
  ultimately show ?thesis using c by (intro exI [of _ ?w]) (simp add: put_channel_def has_conn_def)
qed

text \<open>The rest of the callback, when the connection is dealt with: no timer is there to stop.\<close>

definition close_rest :: "bool \<Rightarrow> chWorld \<Rightarrow> chWorld option" where
  "close_rest inLoop w = do {
     c \<leftarrow> cw_channel w;
     w \<leftarrow> set_timeout None w;
     w \<leftarrow> stop_timeout inLoop (ch_hDisconnectTimeout c) w;
     channel_release w }"

lemma close_rest_chan:
  assumes "chan n w" "of_bool (registered w) < n"
  shows "\<exists>w'. close_rest l w = Some w' \<and> chan (n - 1) w' \<and> cw_center w' = cw_center w \<and> cw_connection w' = cw_connection w \<and>
    (has_conn w' \<longrightarrow> has_conn w)"
proof -
  from assms have n: "1 \<le> n" by (cases "registered w") simp_all
  from set_timeout_chan [OF assms(1) n] obtain w1 where w1: "set_timeout None w = Some w1" "chan n w1"
    "has_conn w1 = has_conn w" "cw_center w1 = cw_center w" "cw_connection w1 = cw_connection w" by blast
  moreover from w1 assms(2) have "of_bool (registered w1) < n" by (simp add: registered_def)
  moreover from chan_Some [OF assms(1) n] obtain c where "cw_channel w = Some c" "ch_hDisconnectTimeout c = None" by blast
  ultimately show ?thesis using chan_release [of n w1] by (auto simp: close_rest_def stop_timeout_def)
qed

lemma onClose_rest:
  "eventConnection_onClose l w = do {
     c \<leftarrow> cw_channel w;
     w \<leftarrow> set_connection False w;
     w \<leftarrow> (if ch_hConnection c then conn_release w else Some w);
     close_rest l w }"
  by (simp add: eventConnection_onClose_def close_rest_def)

text \<open>The channel is told that its connection is closed.\<close>

lemma onClose_kept:
  assumes "chan n w" "of_bool (registered w) + 1 \<le> n" "\<not> has_conn w"
  shows "\<exists>w'. eventConnection_onClose l w = Some w' \<and> chan (n - 1) w' \<and> cw_center w' = cw_center w \<and>
    cw_connection w' = cw_connection w \<and> \<not> has_conn w'"
proof -
  have n: "1 \<le> n" "of_bool (registered w) < n" using assms(2) by (cases "registered w"; simp)+
  from set_connection_chan [OF assms(1) n(1)] obtain w1 where w1: "set_connection False w = Some w1" "chan n w1"
    "\<not> has_conn w1" "cw_center w1 = cw_center w" "cw_connection w1 = cw_connection w" by blast
  from chan_Some [OF assms(1) n(1)] obtain c where c: "cw_channel w = Some c" by blast
  with assms(3) have "\<not> ch_hConnection c" by (simp add: has_conn_def)
  with c w1 n close_rest_chan [of n w1 l] show ?thesis by (auto simp: onClose_rest registered_def)
qed

lemma onClose_release:
  assumes "chan n w" "of_bool (registered w) + 1 \<le> n" "has_conn w" "cw_connection w = Some k" "1 < ec_iRefCount k" "ec_out k = []"
  shows "\<exists>w'. eventConnection_onClose l w = Some w' \<and> chan (n - 1) w' \<and> cw_center w' = cw_center w \<and>
    cw_connection w' = Some (eventConnection_release k) \<and> \<not> has_conn w'"
proof -
  have n: "1 \<le> n" "of_bool (registered w) < n" using assms(2) by (cases "registered w"; simp)+
  from set_connection_chan [OF assms(1) n(1)] obtain w1 where w1: "set_connection False w = Some w1" "chan n w1"
    "\<not> has_conn w1" "cw_center w1 = cw_center w" "cw_connection w1 = cw_connection w" by blast
  from chan_Some [OF assms(1) n(1)] obtain c where c: "cw_channel w = Some c" by blast
  with assms(3) have "ch_hConnection c" by (simp add: has_conn_def)
  moreover have "ec_out (eventConnection_release k) = []" using assms(5,6) by (simp add: rel_out_def)
  moreover then have "put_connection (eventConnection_release k) w1 = w1\<lparr>cw_connection := Some (eventConnection_release k)\<rparr>"
    by (simp add: put_connection_def)
  ultimately show ?thesis using c w1 n assms(4) close_rest_chan [of n "w1\<lparr>cw_connection := Some (eventConnection_release k)\<rparr>" l]
    by (auto simp: onClose_rest registered_def conn_release_def)
qed

lemma onClose_last:
  assumes "chan n w" "of_bool (registered w) + 1 \<le> n" "has_conn w" "cw_connection w = Some k" "ec_iRefCount k = 1" "ec_fnUserFree k"
  shows "if n = of_bool (registered w) + 1 then eventConnection_onClose l w = None
    else \<exists>w'. eventConnection_onClose l w = Some w' \<and> chan (n - of_bool (registered w) - 2) w' \<and> \<not> registered w' \<and>
      cw_connection w' = None \<and> \<not> has_conn w'"
proof -
  have n: "1 \<le> n" "of_bool (registered w) < n" using assms(2) by (cases "registered w"; simp)+
  from set_connection_chan [OF assms(1) n(1)] obtain w1 where w1: "set_connection False w = Some w1" "chan n w1"
    "\<not> has_conn w1" "cw_center w1 = cw_center w" "cw_connection w1 = cw_connection w" by blast
  from chan_Some [OF assms(1) n(1)] obtain c where c: "cw_channel w = Some c" by blast
  with assms(3) have h: "ch_hConnection c" by (simp add: has_conn_def)
  have f: "Free \<in> set (ec_out (eventConnection_release k))" "UserFree \<in> set (ec_out (eventConnection_release k))"
    using assms(5,6) by (simp_all add: rel_out_def)
  let ?w = "put_connection (eventConnection_release k) w1"
  have r: "registered w1 = registered w" using w1(4) by (simp add: registered_def)
  with chan_userFree [of n ?w] w1(2) assms(2) obtain w2 where w2: "eventConnection_onUserFree ?w = Some w2"
    "chan (n - 1 - of_bool (registered w)) w2" "\<not> registered w2" "cw_connection w2 = None" "\<not> has_conn w2"
    using put_stored(2) [OF f(1), of w1] w1(3) by (auto simp: algebra_simps)
  have e: "eventConnection_onClose l w = close_rest l w2"
    using c w1 h w2(1) f assms(4) by (simp add: onClose_rest conn_release_def)
  show ?thesis
  proof (cases "n = of_bool (registered w) + 1")
    case True
    with w2(2) have "cw_channel w2 = None" by (auto simp: chan_def split: option.splits)
    with e True show ?thesis by (simp add: close_rest_def)
  next
    case False
    with w2 assms(2) have "of_bool (registered w2) < n - 1 - of_bool (registered w)" by (simp split: if_splits)
    from close_rest_chan [OF w2(2) this, of l] e w2 False show ?thesis by (auto simp: registered_def algebra_simps)
  qed
qed

section \<open>The invariant\<close>

text \<open>Who holds references of the connection: the channel, \<open>us\<close> users who have taken it out of the channel to close it, the loop while the socket is open, and the functions that are
  queued, but not that of the bind, whose reference is the loop's.\<close>

definition own :: "conn_async list \<Rightarrow> int" where
  "own as = int (length (filter (\<lambda>a. a \<noteq> AsyncBind) as))"

lemma own_simps [simp]: "own [] = 0" "own (a # as) = of_bool (a \<noteq> AsyncBind) + own as" "own (as @ bs) = own as + own bs"
    "0 \<le> own as"
  by (simp_all add: own_def)

definition conn_ok :: "bool \<Rightarrow> nat \<Rightarrow> eventConnection \<Rightarrow> bool" where
  "conn_ok b us k \<longleftrightarrow> ec_iRefCount k = of_bool b + int us + of_bool (ec_hSocket k \<noteq> -1) + own (ec_async k) \<and> 0 < ec_iRefCount k \<and>
     ec_fnUserFree k \<and> (ec_fnCloseCallback k \<longleftrightarrow> ec_hSocket k \<noteq> -1) \<and> ec_out k = [] \<and>
     AsyncConnect \<notin> set (ec_async k) \<and> ec_iStatus k \<noteq> eConnecting"

text \<open>The users hold \<open>h\<close> references; -1 says that one was given up too much.  The channel counts them, the center, the
  callback of the close and the connection itself.\<close>

definition chan_inv :: "int \<Rightarrow> nat \<Rightarrow> chWorld \<Rightarrow> bool" where
  "chan_inv h us w \<longleftrightarrow> -1 \<le> h \<and>
     (case cw_connection w of
        None \<Rightarrow> chan h w \<and> \<not> registered w \<and> \<not> has_conn w \<and> us = 0
      | Some k \<Rightarrow> chan (h + of_bool (registered w) + of_bool (ec_fnCloseCallback k) + 1) w \<and> conn_ok (has_conn w) us k)"

lemma releases:
  assumes "int i \<le> ec_iRefCount k" "ec_fnUserFree k" "0 < ec_iRefCount k"
  obtains ra where "set ra \<subseteq> {RemoveAddress}"
    "ec_out ((eventConnection_release ^^ i) k) = ec_out k @ (if ec_iRefCount k = int i then ra @ [UserFree, Free] else [])"
    "ec_iRefCount ((eventConnection_release ^^ i) k) = ec_iRefCount k - int i"
    "ec_hSocket ((eventConnection_release ^^ i) k) = ec_hSocket k" "ec_async ((eventConnection_release ^^ i) k) = ec_async k"
    "ec_fnCloseCallback ((eventConnection_release ^^ i) k) = ec_fnCloseCallback k"
    "ec_fnUserFree ((eventConnection_release ^^ i) k)" "ec_iStatus ((eventConnection_release ^^ i) k) = ec_iStatus k"
  using assms
proof (induction i arbitrary: thesis)
  case 0
  show ?case by (rule 0(1) [of "[]"]) (use 0 in simp_all)
next
  case (Suc i)
  obtain ra where ra: "ec_out ((eventConnection_release ^^ i) k) = ec_out k"
    "ec_iRefCount ((eventConnection_release ^^ i) k) = ec_iRefCount k - int i"
    "ec_hSocket ((eventConnection_release ^^ i) k) = ec_hSocket k" "ec_async ((eventConnection_release ^^ i) k) = ec_async k"
    "ec_fnCloseCallback ((eventConnection_release ^^ i) k) = ec_fnCloseCallback k"
    "ec_fnUserFree ((eventConnection_release ^^ i) k)" "ec_iStatus ((eventConnection_release ^^ i) k) = ec_iStatus k"
    by (rule Suc.IH) (use Suc.prems(2-) in simp_all)
  let ?k = "(eventConnection_release ^^ i) k"
  let ?ra = "if ec_pListenPort ?k \<and> \<not> ec_bTcp ?k then [RemoveAddress] else []"
  show ?case by (rule Suc.prems(1) [of ?ra]) (use ra in \<open>auto simp: rel_out_def\<close>)
qed

lemma removes: "set ra \<subseteq> {RemoveAddress} \<Longrightarrow> conn_events l ra w = Some w"
  by (induction ra arbitrary: w) auto

lemma posts_or:
  assumes "filter closing_out xs = []" "chan n w"
  shows "conn_events l xs w = None \<and> n = 0 \<or> (\<exists>es. conn_events l xs w = Some (w\<lparr>cw_events := es\<rparr>))"
proof (cases "n = 0")
  case True
  with assms(2) have w: "cw_channel w = None" by (auto simp: chan_def split: option.splits)
  from assms(1) have "conn_events l xs w = None \<or> (\<exists>es. conn_events l xs w = Some (w\<lparr>cw_events := es\<rparr>))"
    using w
  proof (induction xs arbitrary: w)
    case Nil
    then show ?case by (auto intro: exI [of _ "cw_events w"])
  next
    case (Cons x xs)
    then have "conn_event l x w = None \<or> (\<exists>es. conn_event l x w = Some (w\<lparr>cw_events := es\<rparr>))"
      by (cases x) (auto simp: channel_post_def eventConnection_onSendCompleteCallback_def
        eventConnection_onDisconnectCallback_def split: if_splits intro: exI [of _ "cw_events w"])
    moreover have "filter closing_out xs = []" using Cons.prems by (simp split: if_splits)
    ultimately show ?case using Cons.IH [of "w\<lparr>cw_events := _\<rparr>"] Cons.prems by fastforce
  qed
  with True show ?thesis by blast
next
  case False
  with chan_nonneg [OF assms(2)] have "1 \<le> n" by simp
  from posts [OF assms this] show ?thesis by blast
qed

text \<open>What the outside sees of a step: events for the service, the close callback and the end of the connection.\<close>

definition settled :: "int \<Rightarrow> bool \<Rightarrow> nat \<Rightarrow> eventConnection \<Rightarrow> chWorld option \<Rightarrow> bool" where
  "settled h b us k1 r = (case r of None \<Rightarrow> h < 0 | Some w' \<Rightarrow> chan_inv h us w' \<and> (has_conn w' \<longrightarrow> b) \<and>
     (\<forall>k'. cw_connection w' = Some k' \<longrightarrow> ec_async k' = ec_async k1 \<and> ec_hSocket k' = ec_hSocket k1))"

lemma settle_end:
  assumes "chan (h + of_bool (registered w) + 1) w" "-1 \<le> h" "cw_connection w = None" "\<not> has_conn w" "us = 0" "set ra \<subseteq> {RemoveAddress}"
  shows "settled h b us k1 (conn_events l (ra @ [UserFree, Free]) w)"
proof (cases "h < 0")
  case True
  with assms(2) have "h = -1" by simp
  with assms chan_userFree_short [of 0 w] chan_userFree_short [of 1 w] show ?thesis
    by (cases "registered w") (auto simp: conn_events_append removes settled_def)
next
  case False
  with chan_userFree [OF assms(1)] assms(3,4) obtain w' where "eventConnection_onUserFree w = Some w'" "chan h w'" "\<not> registered w'"
    "cw_connection w' = None" "\<not> has_conn w'" by auto
  with assms False show ?thesis by (auto simp: conn_events_append removes settled_def chan_inv_def)
qed

text \<open>A connection in the middle of a step, with \<open>i\<close> more references to give up.\<close>

definition closing :: "nat \<Rightarrow> bool \<Rightarrow> nat \<Rightarrow> eventConnection \<Rightarrow> bool" where
  "closing i b us k \<longleftrightarrow> ec_iRefCount k = of_bool b + int us + of_bool (ec_hSocket k \<noteq> -1) + own (ec_async k) + int i \<and> 0 < ec_iRefCount k \<and>
     ec_fnUserFree k \<and> (ec_fnCloseCallback k \<longleftrightarrow> ec_hSocket k \<noteq> -1) \<and> AsyncConnect \<notin> set (ec_async k) \<and>
     ec_iStatus k \<noteq> eConnecting"

lemma stored_sel [simp]:
  "ec_out (stored k) = []" "ec_iRefCount (stored k) = ec_iRefCount k" "ec_hSocket (stored k) = ec_hSocket k"
  "ec_async (stored k) = ec_async k" "ec_fnCloseCallback (stored k) = ec_fnCloseCallback k"
  "ec_fnUserFree (stored k) = ec_fnUserFree k" "ec_iStatus (stored k) = ec_iStatus k"
  by (simp_all add: stored_def)

lemma settle:
  assumes w: "chan (h + of_bool (registered w) + of_bool (ec_fnCloseCallback k) + 1) w" "-1 \<le> h" "has_conn w = b"
    and k1: "closing i b us k1" "ec_fnCloseCallback k1 \<longrightarrow> ec_fnCloseCallback k" "filter closing_out as = []"
      "ec_out k1 = as @ (if ec_fnCloseCallback k \<and> \<not> ec_fnCloseCallback k1 then [CloseCallback] else [])"
    and k3: "k3 = (eventConnection_release ^^ i) k1"
  shows "settled h b us k1 (conn_events l (ec_out k3) (put_connection k3 w))"
proof -
  have i: "int i \<le> ec_iRefCount k1" "ec_fnUserFree k1" "0 < ec_iRefCount k1" using k1(1) by (simp_all add: closing_def)
  let ?e = "ec_iRefCount k1 = int i"
  obtain ra where ra: "set ra \<subseteq> {RemoveAddress}" "ec_out k3 = ec_out k1 @ (if ?e then ra @ [UserFree, Free] else [])"
    "ec_iRefCount k3 = ec_iRefCount k1 - int i" "ec_hSocket k3 = ec_hSocket k1" "ec_async k3 = ec_async k1"
    "ec_fnCloseCallback k3 = ec_fnCloseCallback k1" "ec_fnUserFree k3" "ec_iStatus k3 = ec_iStatus k1"
    using releases [OF i] k3 by metis
  have as: "Free \<notin> set as" using k1(3) by (auto simp: filter_empty_conv)
  define n where "n = h + of_bool (registered w) + of_bool (ec_fnCloseCallback k) + 1"
  define w1 where "w1 = put_connection k3 w"
  have w1: "chan n w1" "has_conn w1 = b" "registered w1 = registered w" "cw_center w1 = cw_center w" using w by (simp_all add: w1_def n_def)
  have c1: "cw_connection w1 = (if ?e then None else Some (stored k3))"
    using as k1(4) put_stored [of k3 w] by (auto simp: w1_def ra(2))
  have ok: "conn_ok b us (stored k3)" if "\<not> ?e" proof -
    have "0 < ec_iRefCount k3" using ra(3) i(1) that by linarith
    then show ?thesis using k1(1) ra by (simp add: conn_ok_def closing_def)
  qed
  have e: "\<not> b \<and> us = 0 \<and> ec_hSocket k1 = -1 \<and> \<not> ec_fnCloseCallback k1" if ?e
  proof -
    have "of_bool b + int us + of_bool (ec_hSocket k1 \<noteq> -1) + own (ec_async k1) = 0" using k1(1) that by (simp add: closing_def)
    moreover obtain n where "own (ec_async k1) = int n" using own_simps(4) nonneg_int_cases by blast
    ultimately have "\<not> b \<and> us = 0 \<and> ec_hSocket k1 = -1" by (cases b; cases "ec_hSocket k1 = -1"; simp)
    then show ?thesis using k1(1) by (simp add: closing_def)
  qed
  from posts_or [OF k1(3) w1(1)] show ?thesis
  proof
    assume "conn_events l as w1 = None \<and> n = 0"
    moreover from this have "h < 0" by (cases "registered w"; cases "ec_fnCloseCallback k") (simp_all add: n_def)
    ultimately show ?thesis by (simp add: ra(2) k1(4) conn_events_append settled_def w1_def [symmetric])
  next
    assume "\<exists>es. conn_events l as w1 = Some (w1\<lparr>cw_events := es\<rparr>)"
    then obtain es where es: "conn_events l as w1 = Some (w1\<lparr>cw_events := es\<rparr>)" (is "_ = Some ?w") by blast
    have w2: "chan n ?w" "has_conn ?w = b" "registered ?w = registered w" "cw_center ?w = cw_center w"
      "cw_connection ?w = (if ?e then None else Some (stored k3))" using w1 c1 by simp_all
    show ?thesis
    proof (cases "ec_fnCloseCallback k \<and> \<not> ec_fnCloseCallback k1")
      case False
      then have same: "ec_fnCloseCallback k = ec_fnCloseCallback k1" using k1(2) by blast
      show ?thesis
      proof (cases ?e)
        case True
        with e [OF True] same w2 w(2) settle_end [of h ?w us ra b k1 l] show ?thesis
          by (simp add: ra k1(4) conn_events_append es w1_def [symmetric] n_def)
      next
        case no: False
        with False same w2 w(2) ok [OF no] ra show ?thesis
          by (simp add: k1(4) es w1_def [symmetric] settled_def chan_inv_def n_def)
      qed
    next
      case True
      with k1(1) have sock: "ec_hSocket k1 = -1" by (simp add: closing_def)
      have n: "n = h + of_bool (registered w) + 2" "of_bool (registered ?w) + 1 \<le> n" using True w(2) w1(3) by (simp_all add: n_def)
      have n1: "n - 1 = h + of_bool (registered w) + 1" using n(1) by simp
      have events: "conn_events l (ec_out k3) w1 = Option.bind (eventConnection_onClose l ?w)
          (conn_events l (if ?e then ra @ [UserFree, Free] else []))"
        using True by (simp add: ra(2) k1(4) conn_events_append es)
      show ?thesis
      proof (cases b)
        case False
        with onClose_kept [OF w2(1) n(2)] w2 obtain w' where w': "eventConnection_onClose l ?w = Some w'" "chan (n - 1) w'"
          "cw_center w' = cw_center w" "cw_connection w' = (if ?e then None else Some (stored k3))" "\<not> has_conn w'" by auto
        then have r: "registered w' = registered w" by (simp add: registered_def)
        show ?thesis
        proof (cases ?e)
          case yes: True
          with settle_end [of h w' us ra b k1 l] e [OF yes] w' w'(2) [unfolded n1] r w(2) ra(1) show ?thesis by (simp add: events w1_def [symmetric])
        next
          case no: False
          with w' w'(2) [unfolded n1] r w(2) ok [OF no] False True ra(3-8) show ?thesis
            by (simp add: events w1_def [symmetric] settled_def chan_inv_def)
        qed
      next
        case b: True
        with e have no: "\<not> ?e" by blast
        then have c: "cw_connection ?w = Some (stored k3)" using w2 by simp
        show ?thesis
        proof (cases "ec_iRefCount k3 = 1")
          case one: True
          have "us = 0"
          proof -
            have "1 = 1 + int us + of_bool (ec_hSocket k3 \<noteq> -1) + own (ec_async k3)" using ok [OF no] b one by (simp add: conn_ok_def)
            moreover obtain n where "own (ec_async k3) = int n" using own_simps(4) nonneg_int_cases by blast
            ultimately show ?thesis by (cases "ec_hSocket k3 = -1") simp_all
          qed
          from this onClose_last [OF w2(1) n(2) _ c, of l] b w2 one ra(3-8) n w(2) no show ?thesis
            by (auto simp: events w1_def [symmetric] settled_def chan_inv_def split: if_splits)
        next
          case False
          with ok [OF no] have "1 < ec_iRefCount (stored k3)" by (simp add: conn_ok_def)
          from onClose_release [OF w2(1) n(2) _ c this] b w2 obtain w' where w': "eventConnection_onClose l ?w = Some w'"
            "chan (n - 1) w'" "cw_center w' = cw_center w" "cw_connection w' = Some (eventConnection_release (stored k3))" "\<not> has_conn w'"
            by auto
          then have r: "registered w' = registered w" by (simp add: registered_def)
          have "conn_ok False us (eventConnection_release (stored k3))"
            using ok [OF no] b False by (auto simp: conn_ok_def rel_out_def)
          with w' w'(2) [unfolded n1] r w(2) no True ra(3-8) show ?thesis by (simp add: events w1_def [symmetric] settled_def chan_inv_def)
        qed
      qed
    qed
  qed
qed

section \<open>Steps of the loop\<close>

lemma conn_do_events: "cw_connection w = Some k \<Longrightarrow> f k = Some k3 \<Longrightarrow> conn_do l f w = conn_events l (ec_out k3) (put_connection k3 w)"
  by (cases "conn_events l (ec_out k3) (put_connection k3 w)") (simp_all add: conn_do_def conn_call_def)

lemma closing_close:
  assumes "closing i b us k" "filter closing_out (ec_out k) = []" "handleClose k = Some k2"
  obtains j k1 as where "k2 = (eventConnection_release ^^ j) k1" "closing (i + j) b us k1" "filter closing_out as = []"
    "ec_out k1 = as @ (if ec_fnCloseCallback k \<and> \<not> ec_fnCloseCallback k1 then [CloseCallback] else [])"
    "ec_async k1 = ec_async k" "ec_hSocket k1 = -1" "\<not> ec_fnCloseCallback k1"
proof (cases "ec_hSocket k = -1")
  case True
  with assms(3) have "k2 = k" by (simp add: handleClose_def)
  with assms True show thesis by (intro that [of 0 k "ec_out k"]) (auto simp: closing_def)
next
  case False
  from handleClose_shape [OF assms(3) False] obtain k1 as where s: "k2 = eventConnection_release k1"
    "filter closing_out as = filter closing_out (ec_out k)"
    "ec_out k1 = as @ (if ec_fnCloseCallback k then [CloseCallback] else [])" "ec_iRefCount k1 = ec_iRefCount k"
    "ec_hSocket k1 = -1" "\<not> ec_fnCloseCallback k1" "ec_fnUserFree k1 = ec_fnUserFree k" "ec_async k1 = ec_async k"
    "ec_iStatus k1 = eDisconnected" by metis
  show thesis by (rule that [of 1 k1 as]) (use s assms False in \<open>simp_all add: closing_def\<close>)
qed

text \<open>A step of the loop on a connection \<open>k\<close> without its output: from \<open>k0\<close>, where the calls of the step left its life
  alone, it closes perhaps and gives up \<open>i\<close> references of its own.\<close>

lemma step_settled:
  assumes w: "chan_inv h us w" "cw_connection w = Some k" and k0: "closing i (has_conn w) us k0" "filter closing_out (ec_out k0) = []"
    "ec_fnCloseCallback k0 = ec_fnCloseCallback k"
    and k2: "k2 = k0 \<or> handleClose k0 = Some k2" and k3: "k3 = (eventConnection_release ^^ i) k2" and f: "f k = Some k3"
  obtains k1 where "settled h (has_conn w) us k1 (conn_do l f w)" "ec_async k1 = ec_async k0"
    "ec_hSocket k1 = (if handleClose k0 = Some k2 then -1 else ec_hSocket k0)"
proof (cases "handleClose k0 = Some k2")
  case True
  from closing_close [OF k0(1,2) True] obtain j k1 as where s: "k2 = (eventConnection_release ^^ j) k1"
    "closing (i + j) (has_conn w) us k1" "filter closing_out as = []"
    "ec_out k1 = as @ (if ec_fnCloseCallback k0 \<and> \<not> ec_fnCloseCallback k1 then [CloseCallback] else [])"
    "ec_async k1 = ec_async k0" "ec_hSocket k1 = -1" "\<not> ec_fnCloseCallback k1" by metis
  from w have c: "chan (h + of_bool (registered w) + of_bool (ec_fnCloseCallback k) + 1) w" "-1 \<le> h" by (simp_all add: chan_inv_def)
  have "k3 = (eventConnection_release ^^ (i + j)) k1" using k3 s(1) by (simp add: funpow_add)
  from settle [OF c refl s(2) _ s(3) _ this, of l] s k0(3) f w(2)
  have "settled h (has_conn w) us k1 (conn_do l f w)" by (simp add: conn_do_events)
  with s True show thesis by (intro that) simp_all
next
  case False
  with k2 have e: "k3 = (eventConnection_release ^^ i) k0" using k3 by simp
  from w have c: "chan (h + of_bool (registered w) + of_bool (ec_fnCloseCallback k) + 1) w" "-1 \<le> h" by (simp_all add: chan_inv_def)
  from settle [OF c refl k0(1) _ k0(2) _ e, of l] k0(3) f w(2)
  have "settled h (has_conn w) us k0 (conn_do l f w)" by (simp add: conn_do_events)
  with False show thesis by (intro that) simp_all
qed

lemma closing_life:
  "conn_life k' = conn_life k \<Longrightarrow> closing i b us k' = closing i b us k"
  by (simp add: closing_def conn_life_def)

lemma closing_start: "conn_ok b us k \<Longrightarrow> ec_async k = a # as \<Longrightarrow> closing (of_bool (a \<noteq> AsyncBind)) b us (k\<lparr>ec_async := as\<rparr>)"
  by (auto simp: closing_def conn_ok_def)

lemma handleEvent_cases:
  assumes "handleEvent env a k = Some k'" "ec_iStatus k \<noteq> eConnecting"
  obtains k0 where "conn_life k0 = conn_life k" "k' = k0 \<or> handleClose k0 = Some k'"
proof (cases "ec_iStatus k")
  case eConnected
  have "conn_life k' = conn_life k"
  proof (cases "has a ePollerClosed")
    case True
    with assms(1) eConnected show ?thesis by (auto simp: handleEvent_def)
  next
    case False
    with assms(1) eConnected obtain k1 where k1: "(if has a ePollerWritable then sendCompleteCallback (env_send env) k else Some k) = Some k1"
      "(if has a ePollerReadable then do {
          (ok, c) \<leftarrow> handleRecv (env_fnReceive env) (env_recv env) k1;
          Some (if \<not> ok then disconnect_callback (conn_poller_clear c ePollerReadable) else c) }
        else Some k1) = Some k'"
      by (auto simp: handleEvent_def bind_eq_Some_conv split del: if_split)
    from k1(1) have "conn_life k1 = conn_life k" by (auto dest: conn_life_sendComplete split: if_splits)
    with k1(2) show ?thesis by (auto simp: bind_eq_Some_conv dest: conn_life_recv split: if_splits)
  qed
  with that show thesis by blast
next
  case eDisconnecting
  with assms(1) that show thesis
    by (fastforce simp: handleEvent_def bind_eq_Some_conv dest: conn_life_recv split: if_splits)
next
  case eDisconnected
  with assms(1) that show thesis by (auto simp: handleEvent_def)
next
  case eConnecting
  with assms(2) show thesis by simp
qed

lemma poll_settled:
  assumes "chan_inv h us w" "cw_connection w = Some k" "handleEvent env a k = Some k'"
  obtains k1 where "settled h (has_conn w) us k1 (chan_poll l env a w)"
proof -
  from assms have ok: "conn_ok (has_conn w) us k" by (simp add: chan_inv_def)
  then have "ec_iStatus k \<noteq> eConnecting" by (simp add: conn_ok_def)
  from handleEvent_cases [OF assms(3) this] obtain k0 where k0: "conn_life k0 = conn_life k" "k' = k0 \<or> handleClose k0 = Some k'" by blast
  have c: "closing 0 (has_conn w) us k0" using closing_life [OF k0(1), of 0 "has_conn w" us] ok by (simp add: closing_def conn_ok_def)
  have o: "filter closing_out (ec_out k0) = []" "ec_fnCloseCallback k0 = ec_fnCloseCallback k"
    using conn_lifeD [OF k0(1)] ok by (simp_all add: conn_ok_def)
  obtain k1 where "settled h (has_conn w) us k1 (conn_do l (handleEvent env a) w)"
    by (rule step_settled [OF assms(1,2) c o k0(2), of k' "handleEvent env a" l]) (use assms(3) in simp_all)
  then show thesis by (intro that) (simp add: chan_poll_def)
qed

end
