(* ===== verification/ChannelUse.thy ===== *)
theory ChannelUse
  imports ChannelLife "HOL-Library.Multiset"
begin

text \<open>
  A bound channel under all that its users and the loop do, the calls of users cut at each atomic access of the channel: no step touches
  freed memory but a write, and the channel is freed with the last reference.  The close of \<open>lservice_t.c\<close> gives up one reference more than it
  has, and then the end of the connection touches the freed channel.
\<close>

section \<open>The next queued function\<close>

lemma run_async_cases:
  assumes "run_async env k = Some k'" "ae_run env" "ec_async k = a # as" "a \<noteq> AsyncBind" "a \<noteq> AsyncConnect"
  obtains k0 k2 where "conn_life k0 = conn_life (k\<lparr>ec_async := as\<rparr>)" "k2 = k0 \<or> handleClose k0 = Some k2"
    "k' = eventConnection_release k2" "a = AsyncForceClose \<Longrightarrow> handleClose k0 = Some k2"
proof (cases a)
  case AsyncClose
  let ?k = "k\<lparr>ec_async := as\<rparr>"
  let ?c = "if ec_bTcp k then
      if pollHandle_isReading (ec_pollHandle k) then
        if \<not> ae_shutdown env then handleClose (emit ShutdownWrite ?k) else Some (emit ShutdownWrite ?k)
      else handleClose ?k
    else handleClose ?k"
  from assms AsyncClose have "Option.bind ?c (\<lambda>c. Some (eventConnection_release c)) = Some k'"
    by (cases "ec_bTcp k"; cases "pollHandle_isReading (ec_pollHandle k)")
      (simp_all add: run_async_def inLoop_eventConnection_close_def Let_def)
  then obtain k2 where k2: "k' = eventConnection_release k2" "?c = Some k2" by (auto simp only: bind_eq_Some_conv option.inject)
  show thesis
  proof (cases "ec_bTcp k \<and> pollHandle_isReading (ec_pollHandle k)")
    case True
    with k2 AsyncClose show thesis by (intro that [of "emit ShutdownWrite ?k" k2]) (auto split: if_splits)
  next
    case False
    with k2 AsyncClose show thesis by (intro that [of ?k k2]) (auto split: if_splits)
  qed
next
  case AsyncForceClose
  with assms that show thesis by (auto simp: run_async_def inLoop_eventConnection_forceClose_def bind_eq_Some_conv)
next
  case (AsyncSend b)
  let ?k = "k\<lparr>ec_async := as\<rparr>"
  let ?c = "if ec_iStatus k = eConnected
      then do { (iWritten, c) \<leftarrow> sendData (ae_send env) b ?k; Some (if iWritten = -1 then disconnect_callback c else c) }
      else send_callback False b ?k"
  from assms AsyncSend have "Option.bind ?c (\<lambda>c. Some (eventConnection_release c)) = Some k'"
    by (cases "ec_iStatus k = eConnected") (simp_all add: run_async_def eventAsyncSend_sendInLoop_def Let_def)
  then obtain k2 where k2: "k' = eventConnection_release k2" "?c = Some k2" by (auto simp only: bind_eq_Some_conv option.inject)
  then have "conn_life k2 = conn_life ?k"
    by (auto simp: bind_eq_Some_conv dest: conn_life_send split: if_splits)
  with that k2 AsyncSend show thesis by blast
qed (use assms in auto)

lemma async_settled:
  assumes w: "chan_inv h us w" "cw_connection w = Some k" and r: "ae_run env" "run_async env k = Some k'"
  obtains k1 where "settled h (has_conn w) us k1 (chan_async l env w)" "ec_async k1 = tl (ec_async k)"
    "ec_hSocket k = -1 \<or> (\<exists>as. ec_async k = AsyncForceClose # as) \<Longrightarrow> ec_hSocket k1 = -1"
proof (cases "ec_async k")
  case Nil
  from w have ok: "conn_ok (has_conn w) us k" by (simp add: chan_inv_def)
  with Nil r have c: "closing 0 (has_conn w) us k" "filter closing_out (ec_out k) = []" "k' = k"
    by (simp_all add: closing_def conn_ok_def run_async_def)
  obtain k1 where "settled h (has_conn w) us k1 (conn_do l (run_async env) w)" "ec_async k1 = ec_async k"
    "ec_hSocket k1 = (if handleClose k = Some k' then -1 else ec_hSocket k)"
    by (rule step_settled [OF w c(1,2) refl, of k' k' "run_async env" l]) (use r c in simp_all)
  with Nil show thesis by (intro that [of k1]) (simp_all add: chan_async_def)
next
  case (Cons a as)
  from w have ok: "conn_ok (has_conn w) us k" by (simp add: chan_inv_def)
  let ?k = "k\<lparr>ec_async := as\<rparr>"
  have c: "closing (of_bool (a \<noteq> AsyncBind)) (has_conn w) us ?k" by (rule closing_start [OF ok Cons])
  have o: "filter closing_out (ec_out ?k) = []" using ok by (simp add: conn_ok_def)
  have ac: "a \<noteq> AsyncConnect" using ok Cons by (auto simp: conn_ok_def)
  show thesis
  proof (cases "a = AsyncBind")
    case True
    with r Cons have k': "k' = inLoop_eventConnection_bind ?k" by (simp add: run_async_def)
    let ?p = "if pollHandle_isClosed (ec_pollHandle ?k) then conn_poller_add ?k ePollerReadable else conn_poller_setOpt ?k ePollerReadable"
    have l: "conn_life ?p = conn_life ?k" by simp
    then have "closing 0 (has_conn w) us k'" "filter closing_out (ec_out k') = []" "ec_fnCloseCallback k' = ec_fnCloseCallback k"
      "ec_async k' = as" "ec_hSocket k' = ec_hSocket k"
      using c o True conn_lifeD [OF l] by (simp_all add: closing_def k' inLoop_eventConnection_bind_def)
    note k0 = this
    obtain k1 where "settled h (has_conn w) us k1 (conn_do l (run_async env) w)" "ec_async k1 = ec_async k'"
      "ec_hSocket k1 = (if handleClose k' = Some k' then -1 else ec_hSocket k')"
      by (rule step_settled [OF w k0(1-3), of k' k' "run_async env" l]) (use r in simp_all)
    with Cons True k0 show thesis by (intro that [of k1]) (simp_all add: chan_async_def)
  next
    case False
    from run_async_cases [OF r(2,1) Cons False ac] obtain k0 k2 where k0: "conn_life k0 = conn_life ?k"
      "k2 = k0 \<or> handleClose k0 = Some k2" "k' = eventConnection_release k2"
      "a = AsyncForceClose \<Longrightarrow> handleClose k0 = Some k2" by blast
    have c0: "closing 1 (has_conn w) us k0" using closing_life [OF k0(1)] c False by simp
    have o0: "filter closing_out (ec_out k0) = []" "ec_fnCloseCallback k0 = ec_fnCloseCallback k" "ec_async k0 = as"
      "ec_hSocket k0 = ec_hSocket k"
      using conn_lifeD [OF k0(1)] o by simp_all
    obtain k1 where "settled h (has_conn w) us k1 (conn_do l (run_async env) w)" "ec_async k1 = ec_async k0"
      "ec_hSocket k1 = (if handleClose k0 = Some k2 then -1 else ec_hSocket k0)"
      by (rule step_settled [OF w c0 o0(1,2) k0(2), of k' "run_async env" l]) (use r k0(3) in simp_all)
    with Cons o0 k0(4) show thesis by (intro that [of k1]) (auto simp: chan_async_def)
  qed
qed

section \<open>The users\<close>

definition chan_refs :: "int \<Rightarrow> chWorld \<Rightarrow> int" where
  "chan_refs h w = h + of_bool (registered w) +
     (case cw_connection w of None \<Rightarrow> 0 | Some k \<Rightarrow> of_bool (ec_fnCloseCallback k) + 1)"

definition conn_part :: "nat \<Rightarrow> chWorld \<Rightarrow> bool" where
  "conn_part us w \<longleftrightarrow> (case cw_connection w of None \<Rightarrow> \<not> registered w \<and> \<not> has_conn w \<and> us = 0 | Some k \<Rightarrow> conn_ok (has_conn w) us k)"

lemma chan_inv_parts: "chan_inv h us w \<longleftrightarrow> -1 \<le> h \<and> chan (chan_refs h w) w \<and> conn_part us w"
  by (auto simp: chan_inv_def chan_refs_def conn_part_def add.assoc split: option.splits)

lemma chan_refs_change: "cw_center w' = cw_center w \<Longrightarrow> cw_connection w' = cw_connection w \<Longrightarrow> chan_refs (h + d) w' = chan_refs h w + d"
  by (simp add: chan_refs_def registered_def split: option.split)

lemma conn_part_change: "cw_center w' = cw_center w \<Longrightarrow> cw_connection w' = cw_connection w \<Longrightarrow> has_conn w' = has_conn w \<Longrightarrow> conn_part us w' = conn_part us w"
  by (simp add: conn_part_def registered_def split: option.split)

lemma chan_refs_ge: "h + of_bool (registered w) \<le> chan_refs h w" "cw_connection w \<noteq> None \<Longrightarrow> h + of_bool (registered w) + 1 \<le> chan_refs h w"
  by (auto simp: chan_refs_def split: option.splits)

lemma gain_inv:
  assumes "chan_inv h us w" "center_gain uiID w = Some (True, w')"
  shows "chan_inv (h + 1) us w'"
proof -
  from assms have c: "chan (chan_refs h w) w" and r: "registered w" "channel_addref w = Some w'"
    by (auto simp: chan_inv_parts center_gain_def registered_def split: if_splits)
  with chan_nonneg [OF c] have "1 \<le> chan_refs h w" by simp
  from chan_addref [OF c this] r have s: "chan (chan_refs h w + 1) w'" "cw_center w' = cw_center w"
    "cw_connection w' = cw_connection w" "has_conn w' = has_conn w" by auto
  from assms s show ?thesis by (simp add: chan_inv_parts chan_refs_change [OF s(2,3)] conn_part_change [OF s(2-4), of us])
qed

lemma drop_inv:
  assumes "chan_inv h us w" "0 < h \<or> registered w \<and> h = 0"
  shows "\<exists>w'. channel_release w = Some w' \<and> chan_inv (h - 1) us w' \<and> cw_center w' = cw_center w \<and>
    cw_connection w' = cw_connection w \<and> has_conn w' = has_conn w"
proof -
  let ?n = "chan_refs h w"
  have c: "chan ?n w" and p: "conn_part us w" "-1 \<le> h" using assms(1) by (simp_all add: chan_inv_parts)
  have n: "of_bool (registered w) < ?n" "cw_connection w \<noteq> None \<longrightarrow> 1 < ?n"
    using assms(2) p(1) chan_refs_ge(1) [of h w] chan_refs_ge(2) [of w h]
    by (cases "registered w"; cases "cw_connection w"; auto simp: conn_part_def)+
  from chan_release [OF c n(1)] obtain w' where s: "channel_release w = Some w'" "chan (?n - 1) w'" "cw_center w' = cw_center w"
    "cw_connection w' = cw_connection w" "has_conn w' \<longrightarrow> has_conn w" "1 < ?n \<longrightarrow> has_conn w' = has_conn w" by blast
  have e: "has_conn w' = has_conn w"
    using s(5,6) n(2) p(1) by (cases "cw_connection w") (auto simp: conn_part_def)
  from chan_refs_change [OF s(3,4), of h "-1"] have "chan_refs (h - 1) w' = ?n - 1" by simp
  with s e assms(2) conn_part_change [OF s(3,4) e, of us] p show ?thesis by (auto simp: chan_inv_parts)
qed

lemma set_status_chan:
  assumes "chan n w" "1 \<le> n"
  shows "\<exists>w'. set_status st w = Some w' \<and> chan n w' \<and> has_conn w' = has_conn w \<and> cw_center w' = cw_center w \<and>
    cw_connection w' = cw_connection w"
proof -
  from chan_Some [OF assms] obtain c where c: "cw_channel w = Some c" by blast
  let ?w = "put_channel (c\<lparr>ch_iStatus := st\<rparr>) w"
  have "set_status st w = Some ?w" using c by (simp add: set_status_def)
  moreover have "chan n ?w" using c assms by (simp add: chan_def put_channel_def)
  ultimately show ?thesis using c by (intro exI [of _ ?w]) (simp add: put_channel_def has_conn_def)
qed

text \<open>The channel lets its connection go.\<close>

lemma conn_release_events:
  assumes "cw_connection w = Some k" "ec_out k = []"
  shows "conn_release w = conn_events l (ec_out (eventConnection_release k)) (put_connection (eventConnection_release k) w)"
  using assms by (auto simp: conn_release_def Let_def rel_out_def split: Option.bind_split)

lemma forceClose_closing:
  assumes "conn_ok True us k"
  shows "closing 1 False us (eventConnection_forceClose k)" "ec_out (eventConnection_forceClose k) = []"
    "ec_fnCloseCallback (eventConnection_forceClose k) = ec_fnCloseCallback k"
    "ec_hSocket (eventConnection_forceClose k) = ec_hSocket k"
    "ec_iStatus k \<noteq> eDisconnected \<Longrightarrow> ec_async (eventConnection_forceClose k) = ec_async k @ [AsyncForceClose]"
  using assms by (auto simp: closing_def conn_ok_def eventConnection_forceClose_def eventConnection_addref_def)

lemma forceClose_settled:
  assumes "chan_inv h us w" "cw_connection w = Some k" "has_conn w" "set_connection False w = Some w1"
  shows "settled h False us (eventConnection_forceClose k)
    (do { w2 \<leftarrow> conn_apply eventConnection_forceClose w1; conn_release w2 })"
proof -
  let ?k = "eventConnection_forceClose k"
  have c: "chan (h + of_bool (registered w) + of_bool (ec_fnCloseCallback k) + 1) w" "-1 \<le> h" "conn_ok True us k"
    using assms by (simp_all add: chan_inv_def)
  note f = forceClose_closing [OF c(3)]
  from assms(3) obtain ch where "cw_channel w = Some ch" by (auto simp: has_conn_def split: option.splits)
  with c(1) have "1 \<le> h + of_bool (registered w) + of_bool (ec_fnCloseCallback k) + 1" by (auto simp: chan_def)
  from set_connection_chan [OF c(1) this] assms(4) have w1: "chan (h + of_bool (registered w) + of_bool (ec_fnCloseCallback k) + 1) w1"
    "\<not> has_conn w1" "cw_center w1 = cw_center w" "cw_connection w1 = Some k" using assms(2) by auto
  have r: "registered w1 = registered w" using w1(3) by (simp add: registered_def)
  let ?w = "put_connection ?k w1"
  have s: "stored ?k = ?k" using f(2) by (simp add: stored_def)
  have ap: "conn_apply eventConnection_forceClose w1 = Some ?w" using w1 by (simp add: conn_apply_def)
  have cw: "cw_connection ?w = Some ?k" using put_stored(1) [of ?k w1] f(2) s by simp
  have "put_connection (eventConnection_release ?k) ?w = put_connection (eventConnection_release ?k) w1"
    by (simp add: put_connection_def)
  with settle [OF _ c(2), of w1 k False 1 us ?k "[]" "eventConnection_release ?k" False] w1 r f cw show ?thesis
    by (simp add: ap conn_release_events [OF cw f(2), of False])
qed

lemma put_quiet: "ec_out k = [] \<Longrightarrow> put_connection k w = w\<lparr>cw_connection := Some k\<rparr>"
  by (simp add: put_connection_def)

lemma apply_quiet:
  "cw_connection w = Some k \<Longrightarrow> ec_out (f k) = [] \<Longrightarrow> conn_apply f w = Some (w\<lparr>cw_connection := Some (f k)\<rparr>)"
  by (simp add: conn_apply_def put_quiet)

lemma forceClose_queued:
  assumes "cw_connection w = Some k" "conn_ok b us k" "ec_iStatus k \<noteq> eDisconnected"
  shows "(do { w2 \<leftarrow> conn_apply eventConnection_forceClose w; conn_release w2 }) =
    Some (w\<lparr>cw_connection := Some (eventConnection_release (eventConnection_forceClose k))\<rparr>)"
proof -
  have f: "ec_out (eventConnection_forceClose k) = []" "rel_out (eventConnection_forceClose k) = []"
    using assms(2,3) by (auto simp: eventConnection_forceClose_def eventConnection_addref_def conn_ok_def rel_out_def)
  then show ?thesis using assms(1) by (simp add: apply_quiet put_quiet conn_release_def)
qed

lemma conn_part_Some: "conn_part us w \<Longrightarrow> has_conn w \<Longrightarrow> \<exists>k. cw_connection w = Some k"
  by (auto simp: conn_part_def split: option.splits)

definition status :: "chWorld \<Rightarrow> enStatus option" where
  "status w = map_option ch_iStatus (cw_channel w)"

text \<open>The close without a timeout, while the caller holds a reference.\<close>

lemma channel_close_inv:
  assumes "chan_inv h us w" "0 < h" "sint iDisconnectTimeoutMs \<le> 0"
  shows "\<exists>w'. channel_close l p iDisconnectTimeoutMs w = Some w' \<and> chan_inv h us w' \<and>
    (\<forall>k. cw_connection w = Some k \<and> has_conn w \<and> status w \<noteq> Some eStopped \<longrightarrow> \<not> has_conn w' \<and>
      (\<forall>k'. cw_connection w' = Some k' \<longrightarrow> ec_async k' = ec_async (eventConnection_forceClose k) \<and> ec_hSocket k' = ec_hSocket k) \<and>
      (ec_iStatus k \<noteq> eDisconnected \<longrightarrow> cw_center w' = cw_center w))"
proof -
  let ?n = "chan_refs h w"
  from assms(1) have inv: "chan ?n w" "conn_part us w" "-1 \<le> h" by (simp_all add: chan_inv_parts)
  have n: "1 \<le> ?n" using chan_refs_ge(1) [of h w] assms(2) by (cases "registered w") simp_all
  from chan_Some [OF inv(1) n] obtain c where c: "cw_channel w = Some c" by blast
  from set_status_chan [OF inv(1) n] obtain w1 where w1: "set_status eStopped w = Some w1" "chan ?n w1"
    "has_conn w1 = has_conn w" "cw_center w1 = cw_center w" "cw_connection w1 = cw_connection w" by blast
  have i1: "chan_inv h us w1" using w1 inv chan_refs_change [OF w1(4,5), of h 0] conn_part_change [OF w1(4,5,3), of us]
    by (simp add: chan_inv_parts)
  show ?thesis
  proof (cases "ch_iStatus c = eStopped")
    case True
    with c w1 i1 assms(3) show ?thesis by (simp add: channel_close_def status_def)
  next
    case False
    from set_timeout_chan [OF w1(2) n] obtain w2 where w2: "set_timeout None w1 = Some w2" "chan ?n w2"
      "has_conn w2 = has_conn w" "cw_center w2 = cw_center w" "cw_connection w2 = cw_connection w" using w1 by auto
    have i2: "chan_inv h us w2" using w2 inv chan_refs_change [OF w2(4,5), of h 0] conn_part_change [OF w2(4,5,3), of us]
      by (simp add: chan_inv_parts)
    from chan_Some [OF inv(1) n] c have t: "ch_hDisconnectTimeout c = None" by simp
    from chan_Some [OF w2(2) n] obtain c2 where c2: "cw_channel w2 = Some c2" by blast
    from set_connection_chan [OF w2(2) n] obtain w3 where w3: "set_connection False w2 = Some w3" "chan ?n w3"
      "\<not> has_conn w3" "cw_center w3 = cw_center w" "cw_connection w3 = cw_connection w" using w2 by auto
    have e: "channel_close l p iDisconnectTimeoutMs w =
        (if ch_hConnection c2 then do { w \<leftarrow> conn_apply eventConnection_forceClose w3; conn_release w } else Some w3)"
      using c w1 w2 c2 w3 t False assms(3) by (simp add: channel_close_def stop_timeout_def)
    have hc: "ch_hConnection c2 = has_conn w" using w2(3) c2 by (simp add: has_conn_def)
    show ?thesis
    proof (cases "has_conn w")
      case True
      with inv(2) obtain k where k: "cw_connection w = Some k" using conn_part_Some by blast
      from inv(2) k have "conn_ok (has_conn w) us k" by (simp add: conn_part_def)
      note q = forceClose_queued [OF _ this, of w3]
      define r where "r = (do { w \<leftarrow> conn_apply eventConnection_forceClose w3; conn_release w })"
      have "settled h False us (eventConnection_forceClose k) r"
        unfolding r_def by (rule forceClose_settled [OF i2 _ _ w3(1)]) (use w2 k True in simp_all)
      then obtain w' where w': "r = Some w'" "chan_inv h us w'" "\<not> has_conn w'" "\<forall>k'. cw_connection w' = Some k' \<longrightarrow>
          ec_async k' = ec_async (eventConnection_forceClose k) \<and> ec_hSocket k' = ec_hSocket (eventConnection_forceClose k)"
        using assms(2) by (auto simp: settled_def split: option.splits)
      have "ec_hSocket (eventConnection_forceClose k) = ec_hSocket k"
        by (simp add: eventConnection_forceClose_def eventConnection_addref_def)
      moreover have "cw_center w' = cw_center w" if "ec_iStatus k \<noteq> eDisconnected"
        using q [OF _ that] w3 k w'(1) by (auto simp: r_def)
      moreover have "channel_close l p iDisconnectTimeoutMs w = Some w'" using e hc True w'(1) by (simp add: r_def)
      ultimately show ?thesis using w' k by auto
    next
      case no: False
      have "chan_inv h us w3" using w3 inv no chan_refs_change [OF w3(4,5), of h 0] conn_part_change [OF w3(4,5), of us]
        by (simp add: chan_inv_parts)
      with no hc e show ?thesis by simp
    qed
  qed
qed

section \<open>Calls cut at their atomic accesses\<close>

text \<open>Where a user is in a call: in \<open>channel_close\<close> without a timeout before the exchange of \<open>iStatus\<close>, of \<open>hDisconnectTimeout\<close> and of
  \<open>hConnection\<close>, before \<open>eventConnection_forceClose\<close> and before the release of the connection it has taken out; in \<open>channel_write\<close> before
  the load of \<open>iStatus\<close>, the load of \<open>hConnection\<close>, and the use of the connection it has loaded.\<close>

datatype user_pc =
    UsStatus | UsTimeout | UsConnection | UsForce | UsRelease
  | UsWriteStatus bytes int u32 | UsWriteLoad bytes int u32 | UsWrite bytes int u32

definition write_call :: "bool \<Rightarrow> sysret \<Rightarrow> bytes \<Rightarrow> int \<Rightarrow> u32 \<Rightarrow> eventConnection \<Rightarrow> (int \<times> eventConnection) option" where
  "write_call inLoop r pBuffer iLength uiToken k =
     (if uiToken \<noteq> 0 then send_buf inLoop r pBuffer iLength True (ucast uiToken) k else send_buf inLoop r pBuffer iLength False 0 k)"

text \<open>The next step: where the call is then, \<open>None\<close> when it is through.\<close>

fun user_step :: "bool \<Rightarrow> sysret \<Rightarrow> user_pc \<Rightarrow> chWorld \<Rightarrow> (user_pc option \<times> chWorld) option" where
  "user_step inLoop r UsStatus w = do {
     c \<leftarrow> cw_channel w;
     w \<leftarrow> set_status eStopped w;
     Some (if ch_iStatus c \<noteq> eStopped then Some UsTimeout else None, w) }"
| "user_step inLoop r UsTimeout w = do {
     c \<leftarrow> cw_channel w;
     w \<leftarrow> set_timeout None w;
     w \<leftarrow> stop_timeout inLoop (ch_hDisconnectTimeout c) w;
     Some (Some UsConnection, w) }"
| "user_step inLoop r UsConnection w = do {
     c \<leftarrow> cw_channel w;
     w \<leftarrow> set_connection False w;
     Some (if ch_hConnection c then Some UsForce else None, w) }"
| "user_step inLoop r UsForce w = map_option (Pair (Some UsRelease)) (conn_apply eventConnection_forceClose w)"
| "user_step inLoop r UsRelease w = map_option (Pair None) (conn_release w)"
| "user_step inLoop r (UsWriteStatus bs n uiToken) w = do {
     c \<leftarrow> cw_channel w;
     Some (if ch_iStatus c = eRunning then Some (UsWriteLoad bs n uiToken) else None, w) }"
| "user_step inLoop r (UsWriteLoad bs n uiToken) w = do {
     c \<leftarrow> cw_channel w;
     Some (if ch_hConnection c then Some (UsWrite bs n uiToken) else None, w) }"
| "user_step inLoop r (UsWrite bs n uiToken) w = do {
     (x, w) \<leftarrow> conn_call inLoop (write_call inLoop r bs n uiToken) w;
     Some (None, w) }"

text \<open>One after another, with nothing in between, the steps are the call.\<close>

fun user_steps :: "nat \<Rightarrow> bool \<Rightarrow> sysret \<Rightarrow> user_pc \<Rightarrow> chWorld \<Rightarrow> chWorld option" where
  "user_steps 0 inLoop r p w = None"
| "user_steps (Suc n) inLoop r p w = do {
     (p, w) \<leftarrow> user_step inLoop r p w;
     (case p of None \<Rightarrow> Some w | Some p \<Rightarrow> user_steps n inLoop r p w) }"

lemma case_if: "(case (if b then Some x else None) of None \<Rightarrow> u | Some p \<Rightarrow> f p) = (if b then f x else u)"
  by simp

lemma bind_map: "Option.bind (map_option g x) f = Option.bind x (\<lambda>y. f (g y))"
  by (cases x) simp_all

lemma close_steps: "sint t \<le> 0 \<Longrightarrow> user_steps 5 l r UsStatus w = channel_close l p t w"
  by (cases "cw_channel w") (simp_all add: channel_close_def set_status_def put_channel_def numeral_eq_Suc case_if bind_map if_distrib [of "\<lambda>x. Option.bind x f" for f] cong: if_cong)

lemma write_steps: "user_steps 3 l r (UsWriteStatus bs n uiToken) w = map_option snd (channel_write l r bs n uiToken w)"
  by (auto simp: channel_write_def channel_running_def numeral_eq_Suc write_call_def [abs_def] split: Option.bind_splits)

lemma set_state_inv:
  assumes "chan_inv h us w" "chan (chan_refs h w) w'" "cw_center w' = cw_center w" "cw_connection w' = cw_connection w"
    "has_conn w' = has_conn w"
  shows "chan_inv h us w'"
  using assms(1,2) chan_refs_change [OF assms(3,4), of h 0] conn_part_change [OF assms(3-5), of us] by (simp add: chan_inv_parts)

lemma held_channel:
  assumes "chan_inv h us w" "0 < h"
  shows "1 \<le> chan_refs h w" "chan (chan_refs h w) w" "\<exists>c. cw_channel w = Some c \<and> ch_hDisconnectTimeout c = None"
proof -
  show n: "1 \<le> chan_refs h w" using chan_refs_ge(1) [of h w] assms(2) by (cases "registered w") simp_all
  show c: "chan (chan_refs h w) w" using assms(1) by (simp add: chan_inv_parts)
  from chan_Some [OF c n] show "\<exists>c. cw_channel w = Some c \<and> ch_hDisconnectTimeout c = None" by blast
qed

text \<open>A user takes the connection out of the channel: the reference is now the user's.\<close>

lemma take_connection:
  assumes "chan_inv h us w" "0 < h"
  shows "\<exists>w'. set_connection False w = Some w' \<and> chan_inv h (if has_conn w then Suc us else us) w'"
proof -
  note c = held_channel [OF assms]
  from set_connection_chan [OF c(2,1)] obtain w' where w': "set_connection False w = Some w'" "chan (chan_refs h w) w'" "\<not> has_conn w'"
    "cw_center w' = cw_center w" "cw_connection w' = cw_connection w" by blast
  have "chan_refs h w' = chan_refs h w" using chan_refs_change [OF w'(4,5), of h 0] by simp
  moreover have "conn_part (if has_conn w then Suc us else us) w'"
    using assms(1) w'(3-5) by (auto simp: chan_inv_parts conn_part_def registered_def conn_ok_def split: option.splits)
  ultimately show ?thesis using w' assms(1) by (simp add: chan_inv_parts)
qed

lemma user_force:
  assumes "chan_inv h us w" "0 < us"
  shows "\<exists>w'. conn_apply eventConnection_forceClose w = Some w' \<and> chan_inv h us w'"
proof -
  from assms obtain k where k: "cw_connection w = Some k" "conn_ok (has_conn w) us k" by (auto simp: chan_inv_def split: option.splits)
  let ?k = "eventConnection_forceClose k"
  have f: "ec_out ?k = []" "ec_fnCloseCallback ?k = ec_fnCloseCallback k" "conn_ok (has_conn w) us ?k"
    using k(2) by (auto simp: conn_ok_def eventConnection_forceClose_def eventConnection_addref_def)
  from apply_quiet [OF k(1), of eventConnection_forceClose] f k assms(1) show ?thesis by (simp add: chan_inv_def)
qed

lemma user_drop:
  assumes "chan_inv h us w" "0 < us" "0 \<le> h"
  shows "\<exists>w'. conn_release w = Some w' \<and> chan_inv h (us - 1) w'"
proof -
  from assms obtain k where k: "cw_connection w = Some k" "conn_ok (has_conn w) us k" by (auto simp: chan_inv_def split: option.splits)
  have o: "ec_out k = []" using k(2) by (simp add: conn_ok_def)
  have c: "chan (h + of_bool (registered w) + of_bool (ec_fnCloseCallback k) + 1) w" "-1 \<le> h"
    using assms(1) k(1) by (simp_all add: chan_inv_def)
  have "closing 1 (has_conn w) (us - 1) k" using k(2) assms(2) by (auto simp: conn_ok_def closing_def of_nat_diff)
  from settle [OF c refl this, of "[]" "eventConnection_release k" False] o
  have "settled h (has_conn w) (us - 1) k (conn_release w)" by (simp add: conn_release_events [OF k(1) o, of False])
  with assms(3) show ?thesis by (auto simp: settled_def split: option.splits)
qed

text \<open>A write from another thread than the loop's: it is defined exactly as long as the connection exists.\<close>

lemma send_other_thread:
  "conn_ok b us k \<Longrightarrow> \<exists>n k'. eventConnection_send False r x k = Some (n, k') \<and> conn_ok b us k' \<and> ec_out k' = [] \<and>
     ec_fnCloseCallback k' = ec_fnCloseCallback k"
  by (auto simp: eventConnection_send_def eventConnection_addref_def conn_ok_def)

lemma send_buf_ok:
  "0 < n \<Longrightarrow> nat n \<le> length bs \<Longrightarrow> \<exists>x. send_buf l r bs n fn u k = eventConnection_send l r x k"
  by (simp add: send_buf_def createEventBuf_def) blast

lemma user_write:
  assumes "chan_inv h us w" "0 < n" "nat n \<le> length bs"
  shows "case cw_connection w of None \<Rightarrow> user_step False r (UsWrite bs n uiToken) w = None
    | Some k \<Rightarrow> \<exists>w'. user_step False r (UsWrite bs n uiToken) w = Some (None, w') \<and> chan_inv h us w'"
proof (cases "cw_connection w")
  case None
  then show ?thesis by (simp add: conn_call_def)
next
  case (Some k)
  with assms(1) have k: "conn_ok (has_conn w) us k" by (simp add: chan_inv_def)
  obtain x where "write_call False r bs n uiToken k = eventConnection_send False r x k"
    using send_buf_ok [OF assms(2,3), of False r _ _ k] by (cases "uiToken = 0") (auto simp: write_call_def)
  with send_other_thread [OF k, of r x] obtain m k' where s: "write_call False r bs n uiToken k = Some (m, k')" "conn_ok (has_conn w) us k'"
    "ec_out k' = []" "ec_fnCloseCallback k' = ec_fnCloseCallback k" by auto
  have "user_step False r (UsWrite bs n uiToken) w = Some (None, w\<lparr>cw_connection := Some k'\<rparr>)"
    using Some s by (simp add: conn_call_def put_quiet)
  moreover have "chan_inv h us (w\<lparr>cw_connection := Some k'\<rparr>)" using assms(1) Some s by (simp add: chan_inv_def)
  ultimately show ?thesis using Some by simp
qed

section \<open>Any interleaving\<close>

text \<open>\<open>h\<close> references of users that are in no call, the calls in progress, each with a reference of the channel, and the world.  A user looks
  the channel up by its id, gives that reference back, and with one it closes, without a timeout, and writes.  The loop runs a queued
  function or what the poller reports as one step.\<close>

type_synonym chan_state = "int \<times> user_pc multiset \<times> chWorld"

fun call_begins :: "user_pc \<Rightarrow> bool" where
  "call_begins UsStatus = True"
| "call_begins (UsWriteStatus bs n uiToken) = (0 < n \<and> nat n \<le> length bs)"
| "call_begins _ = False"

inductive chan_step :: "chan_state \<Rightarrow> chan_state \<Rightarrow> bool" where
  user_gain: "center_gain uiID w = Some (True, w') \<Longrightarrow> chan_step (h, P, w) (h + 1, P, w')"
| user_release: "0 < h \<Longrightarrow> channel_release w = Some w' \<Longrightarrow> chan_step (h, P, w) (h - 1, P, w')"
| user_call: "0 < h \<Longrightarrow> call_begins p \<Longrightarrow> chan_step (h, P, w) (h - 1, add_mset p P, w)"
| user_next: "user_step False r p w = Some (Some p', w') \<Longrightarrow> chan_step (h, add_mset p P, w) (h, add_mset p' P, w')"
| user_done: "user_step False r p w = Some (None, w') \<Longrightarrow> chan_step (h, add_mset p P, w) (h + 1, P, w')"
| loop_async: "ae_run env \<Longrightarrow> chan_async l env w = Some w' \<Longrightarrow> chan_step (h, P, w) (h, P, w')"
| loop_poll: "chan_poll l env a w = Some w' \<Longrightarrow> chan_step (h, P, w) (h, P, w')"

definition accepted :: "eventConnection \<Rightarrow> bool" where
  "accepted k \<longleftrightarrow> (\<exists>epoll m sock. sock \<noteq> -1 \<and> (k = acceptEventConnection epoll m sock \<or> k = acceptUdpEventConnection epoll m sock))"

text \<open>From the accept to the bind, as \<open>service_t.c\<close> and \<open>lservice_t.c\<close> do it.\<close>

definition chan_start :: "chan_state \<Rightarrow> bool" where
  "chan_start s \<longleftrightarrow> fst s = 0 \<and> fst (snd s) = {#} \<and>
     (\<exists>w0 w1 k uiID wr svc ka nd codec. cw_connection w0 = Some k \<and> cw_center w0 = None \<and>
        accepted k \<and> uiID \<noteq> 0 \<and> wr \<noteq> CancelNow \<and> (\<forall>c. codec = Some c \<longrightarrow> cw_codecs w0 c \<noteq> None) \<and>
        createChannel uiID w0 = Some w1 \<and> lservice_remoteBind wr svc ka nd codec uiID w1 = Some (snd (snd s)))"

text \<open>A step of a user touches no freed memory, but that a write uses the connection it has loaded without a reference, so this
  is fine just as long as the connection exists.\<close>

definition user_safe :: "user_pc \<Rightarrow> chWorld \<Rightarrow> bool" where
  "user_safe p w \<longleftrightarrow> (\<forall>r. user_step False r p w \<noteq> None \<longleftrightarrow> (case p of UsWrite bs n uiToken \<Rightarrow> cw_connection w \<noteq> None | _ \<Rightarrow> True))"

text \<open>No call of a user or of the loop touches freed memory (a function of the connection that is itself defined stays so
  with its callbacks), the channel is there as long as anything can reach it, and gone after that.\<close>

definition chan_safe :: "chan_state \<Rightarrow> bool" where
  "chan_safe s = (case s of (h, P, w) \<Rightarrow>
     (cw_channel w \<noteq> None \<longleftrightarrow> 0 < h \<or> P \<noteq> {#} \<or> cw_connection w \<noteq> None) \<and> (cw_center w \<noteq> None \<longrightarrow> cw_connection w \<noteq> None) \<and>
     (\<forall>uiID. center_gain uiID w \<noteq> None) \<and> (0 < h \<longrightarrow> channel_release w \<noteq> None) \<and> (\<forall>p \<in># P. user_safe p w) \<and>
     (\<forall>k l env. cw_connection w = Some k \<and> ae_run env \<and> run_async env k \<noteq> None \<longrightarrow> chan_async l env w \<noteq> None) \<and>
     (\<forall>k l env a. cw_connection w = Some k \<and> handleEvent env a k \<noteq> None \<longrightarrow> chan_poll l env a w \<noteq> None))"

fun takes :: "user_pc \<Rightarrow> bool" where
  "takes UsForce = True" | "takes UsRelease = True" | "takes _ = False"

fun pc_ok :: "user_pc \<Rightarrow> bool" where
  "pc_ok (UsWriteStatus bs n uiToken) = (0 < n \<and> nat n \<le> length bs)"
| "pc_ok (UsWriteLoad bs n uiToken) = (0 < n \<and> nat n \<le> length bs)"
| "pc_ok (UsWrite bs n uiToken) = (0 < n \<and> nat n \<le> length bs)"
| "pc_ok _ = True"

definition chan_held :: "chan_state \<Rightarrow> bool" where
  "chan_held s = (case s of (h, P, w) \<Rightarrow> 0 \<le> h \<and> chan_inv (h + int (size P)) (size (filter_mset takes P)) w \<and> (\<forall>p \<in># P. pc_ok p))"

lemma settled_some: "settled h b us k1 r \<Longrightarrow> 0 \<le> h \<Longrightarrow> \<exists>w'. r = Some w' \<and> chan_inv h us w'"
  by (auto simp: settled_def split: option.splits)

text \<open>A step of a user, with \<open>us\<close> other users that hold a connection they took out.\<close>

lemma user_step_inv:
  assumes inv: "chan_inv h (us + of_bool (takes p)) w" and h: "0 < h" and p: "pc_ok p"
  shows "user_safe p w"
    and "user_step False r p w = Some (q, w') \<Longrightarrow>
      chan_inv h (us + (case q of None \<Rightarrow> 0 | Some p \<Rightarrow> of_bool (takes p))) w' \<and> (case q of None \<Rightarrow> True | Some p \<Rightarrow> pc_ok p)"
proof -
  note c = held_channel [OF inv h]
  from c(3) obtain ch where ch: "cw_channel w = Some ch" "ch_hDisconnectTimeout ch = None" by blast
  have hc: "ch_hConnection ch = has_conn w" using ch(1) by (simp add: has_conn_def)
  have keep: "chan_inv h (us + of_bool (takes p)) w1" if "chan (chan_refs h w) w1" "cw_center w1 = cw_center w"
    "cw_connection w1 = cw_connection w" "has_conn w1 = has_conn w" for w1 using set_state_inv [OF inv that] .
  have "user_safe p w \<and> (\<forall>r q w'. user_step False r p w = Some (q, w') \<longrightarrow>
      chan_inv h (us + (case q of None \<Rightarrow> 0 | Some p \<Rightarrow> of_bool (takes p))) w' \<and> (case q of None \<Rightarrow> True | Some p \<Rightarrow> pc_ok p))"
  proof (cases p)
    case UsStatus
    from set_status_chan [OF c(2,1), of eStopped] keep UsStatus ch show ?thesis by (auto simp: user_safe_def)
  next
    case UsTimeout
    from set_timeout_chan [OF c(2,1)] keep UsTimeout ch show ?thesis by (auto simp: user_safe_def stop_timeout_def)
  next
    case UsConnection
    from take_connection [OF inv h] UsConnection ch hc show ?thesis by (auto simp: user_safe_def)
  next
    case UsForce
    from user_force [OF inv] UsForce show ?thesis by (auto simp: user_safe_def)
  next
    case UsRelease
    from user_drop [OF inv] UsRelease h show ?thesis by (auto simp: user_safe_def)
  next
    case (UsWriteStatus bs n uiToken)
    with ch inv p show ?thesis by (auto simp: user_safe_def)
  next
    case (UsWriteLoad bs n uiToken)
    with ch inv p show ?thesis by (auto simp: user_safe_def)
  next
    case (UsWrite bs n uiToken)
    with p have n: "0 < n" "nat n \<le> length bs" by simp_all
    from UsWrite inv have inv': "chan_inv h us w" by simp
    have w: "case cw_connection w of None \<Rightarrow> user_step False r p w = None
        | Some k \<Rightarrow> \<exists>w'. user_step False r p w = Some (None, w') \<and> chan_inv h us w'" for r
      using user_write [OF inv' n] UsWrite by metis
    show ?thesis
    proof (cases "cw_connection w")
      case None
      with w have "user_step False r p w = None" for r by simp
      with None UsWrite show ?thesis by (simp add: user_safe_def del: user_step.simps)
    next
      case (Some k)
      with w have s: "\<exists>w'. user_step False r p w = Some (None, w') \<and> chan_inv h us w'" for r by simp
      have "user_step False r p w \<noteq> None" for r using s [of r] by auto
      then have "user_safe p w" using Some UsWrite by (simp add: user_safe_def del: user_step.simps)
      moreover have "chan_inv h us w' \<and> q = None" if "user_step False r p w = Some (q, w')" for r q w'
        using s [of r] that by auto
      ultimately show ?thesis by fastforce
    qed
  qed
  then show "user_safe p w"
    "user_step False r p w = Some (q, w') \<Longrightarrow>
      chan_inv h (us + (case q of None \<Rightarrow> 0 | Some p \<Rightarrow> of_bool (takes p))) w' \<and> (case q of None \<Rightarrow> True | Some p \<Rightarrow> pc_ok p)" by blast+
qed

lemma chan_step_held:
  assumes "chan_step s s'" "chan_held s"
  shows "chan_held s'"
  using assms(1)
proof (cases rule: chan_step.cases)
  case (user_gain uiID w w' h P)
  with assms(2) gain_inv [of "h + int (size P)" _ w uiID w'] show ?thesis by (simp add: chan_held_def algebra_simps)
next
  case (user_release h w w' P)
  with assms(2) drop_inv [of "h + int (size P)" _ w] show ?thesis by (auto simp: chan_held_def algebra_simps)
next
  case (user_call h p P w)
  then have "pc_ok p" "\<not> takes p" by (cases p; simp)+
  with user_call assms(2) show ?thesis by (auto simp: chan_held_def)
next
  case (user_next r p w p' w' h P)
  then have i: "chan_inv (h + int (size P) + 1) (size (filter_mset takes P) + of_bool (takes p)) w" "pc_ok p" "0 \<le> h"
    using assms(2) by (auto simp: chan_held_def algebra_simps)
  from user_step_inv(2) [OF i(1) _ i(2) user_next(3)] i(3) user_next assms(2) show ?thesis
    by (auto simp: chan_held_def algebra_simps)
next
  case (user_done r p w w' h P)
  then have i: "chan_inv (h + int (size P) + 1) (size (filter_mset takes P) + of_bool (takes p)) w" "pc_ok p" "0 \<le> h"
    using assms(2) by (auto simp: chan_held_def algebra_simps)
  from user_step_inv(2) [OF i(1) _ i(2) user_done(3)] i(3) user_done assms(2) show ?thesis
    by (auto simp: chan_held_def algebra_simps)
next
  case (loop_async env l w w' h P)
  then obtain k k' where k: "cw_connection w = Some k" "run_async env k = Some k'"
    by (auto simp: chan_async_def conn_do_def conn_call_def bind_eq_Some_conv)
  from loop_async assms(2) have inv: "chan_inv (h + int (size P)) (size (filter_mset takes P)) w" "0 \<le> h + int (size P)" "\<forall>p \<in># P. pc_ok p" "0 \<le> h"
    by (auto simp: chan_held_def)
  obtain k1 where "settled (h + int (size P)) (has_conn w) (size (filter_mset takes P)) k1 (chan_async l env w)"
    by (rule async_settled [OF inv(1) k(1) loop_async(3) k(2), of l])
  from settled_some [OF this inv(2)] inv loop_async show ?thesis by (simp add: chan_held_def)
next
  case (loop_poll l env a w w' h P)
  then obtain k k' where k: "cw_connection w = Some k" "handleEvent env a k = Some k'"
    by (auto simp: chan_poll_def conn_do_def conn_call_def bind_eq_Some_conv)
  from loop_poll assms(2) have inv: "chan_inv (h + int (size P)) (size (filter_mset takes P)) w" "0 \<le> h + int (size P)" "\<forall>p \<in># P. pc_ok p" "0 \<le> h"
    by (auto simp: chan_held_def)
  obtain k1 where "settled (h + int (size P)) (has_conn w) (size (filter_mset takes P)) k1 (chan_poll l env a w)"
    by (rule poll_settled [OF inv(1) k, of l])
  from settled_some [OF this inv(2)] inv loop_poll show ?thesis by (simp add: chan_held_def)
qed

lemma chan_held_safe:
  assumes "chan_held s"
  shows "chan_safe s"
proof -
  obtain h0 P w where s: "s = (h0, P, w)" by (cases s)
  let ?us = "size (filter_mset takes P)"
  define h where "h = h0 + int (size P)"
  from assms s have inv: "chan_inv h ?us w" "0 \<le> h" "0 \<le> h0" "\<forall>p \<in># P. pc_ok p" by (simp_all add: chan_held_def h_def)
  then have c: "chan (chan_refs h w) w" "conn_part ?us w" by (simp_all add: chan_inv_parts)
  have hp: "0 < h \<longleftrightarrow> 0 < h0 \<or> P \<noteq> {#}" using inv(3) by (auto simp: h_def nonempty_has_size)
  have center: "cw_center w \<noteq> None \<longrightarrow> cw_connection w \<noteq> None"
    using c(2) by (auto simp: conn_part_def registered_def split: option.splits)
  have there: "cw_channel w \<noteq> None \<longleftrightarrow> 0 < h \<or> cw_connection w \<noteq> None"
  proof (cases "cw_connection w")
    case None
    with c inv(2) show ?thesis by (auto simp: chan_def conn_part_def chan_refs_def split: option.splits)
  next
    case (Some k)
    with chan_refs_ge(2) [of w h] inv(2) have "1 \<le> chan_refs h w" by (cases "registered w") simp_all
    with chan_Some [OF c(1)] Some show ?thesis by blast
  qed
  have gain: "center_gain uiID w \<noteq> None" for uiID
    using there center by (auto simp: center_gain_def channel_addref_def)
  have async: "chan_async l env w \<noteq> None" if "cw_connection w = Some k" "ae_run env" "run_async env k \<noteq> None" for k l env
  proof -
    from that obtain k' where k': "run_async env k = Some k'" by blast
    note c = that(1,2)
    obtain k1 where "settled h (has_conn w) ?us k1 (chan_async l env w)" by (rule async_settled [OF inv(1) c k', of l])
    from settled_some [OF this inv(2)] show ?thesis by auto
  qed
  have poll: "chan_poll l env a w \<noteq> None" if "cw_connection w = Some k" "handleEvent env a k \<noteq> None" for k l env a
  proof -
    from that obtain k' where k': "handleEvent env a k = Some k'" by blast
    note c = that(1)
    obtain k1 where "settled h (has_conn w) ?us k1 (chan_poll l env a w)" by (rule poll_settled [OF inv(1) c k', of l])
    from settled_some [OF this inv(2)] show ?thesis by auto
  qed
  have user: "channel_release w \<noteq> None" if "0 < h" using drop_inv [OF inv(1)] that by auto
  have pcs: "user_safe p w" if "p \<in># P" for p
  proof -
    from that obtain Q where Q: "P = add_mset p Q" by (rule mset_add)
    with inv hp have "chan_inv h (size (filter_mset takes Q) + of_bool (takes p)) w" "0 < h" "pc_ok p" by auto
    from user_step_inv(1) [OF this] show ?thesis .
  qed
  have "\<forall>k l env. cw_connection w = Some k \<and> ae_run env \<and> run_async env k \<noteq> None \<longrightarrow> chan_async l env w \<noteq> None"
    using async by blast
  moreover have "\<forall>k l env a. cw_connection w = Some k \<and> handleEvent env a k \<noteq> None \<longrightarrow> chan_poll l env a w \<noteq> None"
    using poll by blast
  ultimately show ?thesis
    using there center gain user pcs hp unfolding s chan_safe_def prod.case by blast
qed

section \<open>From the accept to the bind\<close>

lemma accepted_fields:
  "accepted k \<Longrightarrow> ec_hSocket k \<noteq> -1 \<and> ec_iRefCount k = 1 \<and> ec_iStatus k = eConnecting \<and> ec_async k = [] \<and> ec_out k = [] \<and>
    \<not> ec_fnCloseCallback k \<and> \<not> ec_fnUserFree k \<and> ec_queueWritePending k = [] \<and> \<not> ec_pUserData k"
  by (auto simp: accepted_def acceptEventConnection_def acceptUdpEventConnection_def createEventConnection_def)

lemma bind_accepted:
  assumes "accepted k" "wr \<noteq> CancelNow"
    "k1 = eventConnection_setCloseCallback True (eventConnection_setDisconnectCallback True (eventConnection_setReceiveCallback True k))"
  obtains k2 where "eventConnection_bind wr ka nd True True k1 = (True, k2)" "conn_ok True 0 k2" "ec_fnCloseCallback k2"
    "ec_iStatus k2 = eConnected"
proof -
  note f = accepted_fields [OF assms(1)]
  note set = eventConnection_setCloseCallback_def eventConnection_setDisconnectCallback_def eventConnection_setReceiveCallback_def
  define k' where "k' = eventConnection_addref (k1\<lparr>ec_iStatus := eConnected, ec_pUserData := True, ec_fnUserFree := True,
    ec_bKeepAlive := ka, ec_bTcpNoDelay := nd\<rparr>)"
  define p where "p = (if pollHandle_isClosed (ec_pollHandle k') then conn_poller_add k' ePollerReadable else conn_poller_setOpt k' ePollerReadable)"
  have l: "conn_life p = conn_life k'" by (simp add: p_def)
  have o: "ec_out p = ec_out k'" by (simp add: p_def conn_poller_add_def conn_poller_setOpt_def split: prod.split)
  have k': "ec_hSocket k' \<noteq> -1" "ec_iRefCount k' = 2" "ec_async k' = []" "ec_out k' = []" "ec_fnCloseCallback k'" "ec_fnUserFree k'"
    "ec_iStatus k' = eConnected"
    using f assms(3) by (simp_all add: k'_def eventConnection_addref_def set)
  have st: "ec_iStatus k1 = eConnecting" using f assms(3) by (simp add: set)
  have u: "set_userData True True (k1\<lparr>ec_iStatus := eConnected\<rparr>) = k1\<lparr>ec_iStatus := eConnected, ec_pUserData := True, ec_fnUserFree := True\<rparr>"
    using f assms(3) by (simp add: set_userData_def set)
  show thesis
  proof (cases wr)
    case RunNow
    have "eventConnection_bind wr ka nd True True k1 = (True, p\<lparr>ec_iStatus := eConnected\<rparr>)"
      using st RunNow by (simp add: eventConnection_bind_def u inLoop_eventConnection_bind_def p_def k'_def Let_def)
    then show thesis
      by (rule that) (use k' conn_lifeD [OF l] o in \<open>simp_all add: conn_ok_def\<close>)
  next
    case RunLater
    have "eventConnection_bind wr ka nd True True k1 = (True, k'\<lparr>ec_async := [AsyncBind]\<rparr>)"
      using st RunLater k'(3) by (simp add: eventConnection_bind_def u k'_def Let_def)
    then show thesis
      by (rule that) (use k' in \<open>simp_all add: conn_ok_def\<close>)
  qed (use assms(2) in simp)
qed

lemma createChannel_new:
  assumes "cw_connection w0 = Some k" "cw_center w0 = None" "uiID \<noteq> 0"
  shows "createChannel uiID w0 = Some (w0\<lparr>cw_channel := Some \<lparr>ch_pCodecStream = None, ch_pService = None, ch_uiID = uiID,
    ch_hConnection = True, ch_hDisconnectTimeout = None, ch_iStatus = eStarting, ch_iRefCount = 2\<rparr>, cw_center := Some uiID\<rparr>)"
  using assms by (simp add: createChannel_def center_register_def channel_addref_def put_channel_def)

lemma setCodec_new:
  assumes "cw_channel w = Some c" "ch_pCodecStream c = None" "\<forall>k. codec = Some k \<longrightarrow> cw_codecs w k \<noteq> None"
  obtains cs where "channel_setCodecStream codec w = Some (w\<lparr>cw_channel := Some (c\<lparr>ch_pCodecStream := codec\<rparr>), cw_codecs := cs\<rparr>)"
    "\<forall>k. codec = Some k \<longrightarrow> cs k \<noteq> None"
proof (cases codec)
  case None
  with assms show thesis by (intro that [of "cw_codecs w"]) (simp_all add: channel_setCodecStream_def)
next
  case (Some k)
  with assms(3) obtain s where s: "cw_codecs w k = Some s" by blast
  show thesis
  proof (cases "cs_fnAddref s")
    case True
    with assms Some s show thesis
      by (intro that [of "(cw_codecs w)(k \<mapsto> s\<lparr>cs_iRefCount := cs_iRefCount s + 1\<rparr>)"])
        (simp_all add: channel_setCodecStream_def codec_addref_def put_channel_def)
  next
    case False
    with assms Some s show thesis
      by (intro that [of "cw_codecs w"]) (simp_all add: channel_setCodecStream_def codec_addref_def put_channel_def)
  qed
qed

lemma bind_new:
  assumes "cw_channel w = Some c" "ch_hConnection c" "cw_connection w = Some k" "accepted k" "wr \<noteq> CancelNow"
  obtains k2 ss where "channel_bind wr svc ka nd w = Some (True, w\<lparr>cw_channel := Some (c\<lparr>ch_pService := Some svc,
      ch_iStatus := eRunning, ch_iRefCount := ch_iRefCount c + 1\<rparr>), cw_connection := Some k2, cw_services := ss\<rparr>)"
    "conn_ok True 0 k2" "ec_fnCloseCallback k2" "ec_iStatus k2 = eConnected"
proof -
  note f = accepted_fields [OF assms(4)]
  note set = eventConnection_setCloseCallback_def eventConnection_setDisconnectCallback_def eventConnection_setReceiveCallback_def
  let ?k = "eventConnection_setCloseCallback True (eventConnection_setDisconnectCallback True (eventConnection_setReceiveCallback True k))"
  obtain k2 where k2: "eventConnection_bind wr ka nd True True ?k = (True, k2)" "conn_ok True 0 k2" "ec_fnCloseCallback k2"
    "ec_iStatus k2 = eConnected"
    by (rule bind_accepted [OF assms(4,5) refl, of ka nd])
  have o: "ec_out k2 = []" using k2(2) by (simp add: conn_ok_def)
  have oo: "ec_out (eventConnection_setReceiveCallback True k) = []"
    "ec_out (eventConnection_setDisconnectCallback True (eventConnection_setReceiveCallback True k)) = []" "ec_out ?k = []"
    using f by (simp_all add: set)
  show thesis
    by (rule that [of "(cw_services w)(svc := cw_services w svc + 1)" k2])
      (use assms k2 o oo in \<open>simp_all add: channel_bind_def put_channel_def apply_quiet channel_addref_def set_status_def put_quiet\<close>)
qed

lemma start_run:
  assumes s: "cw_connection w0 = Some k" "cw_center w0 = None" "accepted k" "uiID \<noteq> 0" "wr \<noteq> CancelNow"
    "\<forall>c. codec = Some c \<longrightarrow> cw_codecs w0 c \<noteq> None"
  obtains w1 w k2 where "createChannel uiID w0 = Some w1" "lservice_remoteBind wr svc ka nd codec uiID w1 = Some w"
    "chan_inv 0 0 w" "has_conn w" "cw_connection w = Some k2" "ec_iStatus k2 = eConnected" "status w = Some eRunning"
    "cw_center w = Some uiID"
proof -
  let ?c = "\<lparr>ch_pCodecStream = None, ch_pService = None, ch_uiID = uiID, ch_hConnection = True,
    ch_hDisconnectTimeout = None, ch_iStatus = eStarting, ch_iRefCount = 3\<rparr>"
  let ?w2 = "w0\<lparr>cw_channel := Some ?c, cw_center := Some uiID\<rparr>"
  let ?w1 = "w0\<lparr>cw_channel := Some (?c\<lparr>ch_iRefCount := 2\<rparr>), cw_center := Some uiID\<rparr>"
  have create: "createChannel uiID w0 = Some ?w1" using createChannel_new [OF s(1,2,4)] by simp
  have gain: "center_gain uiID ?w1 = Some (True, ?w2)"
    by (simp add: center_gain_def channel_addref_def put_channel_def)
  obtain cs where cs: "channel_setCodecStream codec ?w2 = Some (?w2\<lparr>cw_channel := Some (?c\<lparr>ch_pCodecStream := codec\<rparr>), cw_codecs := cs\<rparr>)"
    "\<forall>k. codec = Some k \<longrightarrow> cs k \<noteq> None"
    by (rule setCodec_new [of ?w2 ?c codec]) (use s(6) in simp_all)
  let ?w3 = "?w2\<lparr>cw_channel := Some (?c\<lparr>ch_pCodecStream := codec\<rparr>), cw_codecs := cs\<rparr>"
  obtain k2 ss where b: "channel_bind wr svc ka nd ?w3 = Some (True, ?w3\<lparr>cw_channel := Some (?c\<lparr>ch_pCodecStream := codec,
      ch_pService := Some svc, ch_iStatus := eRunning, ch_iRefCount := 4\<rparr>), cw_connection := Some k2, cw_services := ss\<rparr>)"
    "conn_ok True 0 k2" "ec_fnCloseCallback k2" "ec_iStatus k2 = eConnected"
    by (rule bind_new [of ?w3 "?c\<lparr>ch_pCodecStream := codec\<rparr>" k wr svc ka nd]) (use s(1,3,5) in simp_all)
  let ?w = "?w3\<lparr>cw_channel := Some (?c\<lparr>ch_pCodecStream := codec, ch_pService := Some svc, ch_iStatus := eRunning\<rparr>),
    cw_connection := Some k2, cw_services := ss\<rparr>"
  let ?w4 = "?w3\<lparr>cw_channel := Some (?c\<lparr>ch_pCodecStream := codec, ch_pService := Some svc, ch_iStatus := eRunning,
    ch_iRefCount := 4\<rparr>), cw_connection := Some k2, cw_services := ss\<rparr>"
  have "lservice_remoteBind wr svc ka nd codec uiID ?w1 = channel_release ?w4"
    by (simp only: lservice_remoteBind_def gain cs(1) b(1) Option.bind.bind_lunit prod.case if_True)
  moreover have "channel_release ?w4 = Some ?w" by (simp add: channel_release_def put_channel_def)
  ultimately have "lservice_remoteBind wr svc ka nd codec uiID ?w1 = Some ?w" by simp
  with create show thesis
    by (rule that) (use b cs(2) s(4) in \<open>simp_all add: chan_inv_def chan_def registered_def has_conn_def status_def\<close>)
qed

lemma start_inv:
  assumes "chan_start s"
  shows "fst s = 0" "fst (snd s) = {#}" "chan_inv 0 0 (snd (snd s))"
proof -
  from assms obtain w0 w1 k uiID wr svc ka nd codec where s: "fst s = 0" "fst (snd s) = {#}" "cw_connection w0 = Some k" "cw_center w0 = None"
    "accepted k" "uiID \<noteq> 0" "wr \<noteq> CancelNow" "\<forall>c. codec = Some c \<longrightarrow> cw_codecs w0 c \<noteq> None"
    "createChannel uiID w0 = Some w1" "lservice_remoteBind wr svc ka nd codec uiID w1 = Some (snd (snd s))"
    unfolding chan_start_def by blast
  obtain w1' w k2 where "createChannel uiID w0 = Some w1'" "lservice_remoteBind wr svc ka nd codec uiID w1' = Some w" "chan_inv 0 0 w"
    by (rule start_run [OF s(3-8), of svc ka nd])
  with s show "fst s = 0" "fst (snd s) = {#}" "chan_inv 0 0 (snd (snd s))" by simp_all
qed

interpretation channel_refs: step_invariant chan_start chan_step chan_held chan_safe
proof
  show "chan_start s \<Longrightarrow> chan_held s" for s using start_inv [of s] by (cases s) (simp add: chan_held_def)
  show "chan_held s \<Longrightarrow> chan_step s s' \<Longrightarrow> chan_held s'" for s s' by (rule chan_step_held)
  show "chan_held s \<Longrightarrow> chan_safe s" for s by (rule chan_held_safe)
qed


end
