(* ===== verification/ChannelFaults.thy ===== *)
theory ChannelFaults
  imports ChannelUse TimerTime
begin

text \<open>
  Where the callers of a channel give up more references than they have: the close from Lua, and the refusal of an
  accepted connection.
\<close>

section \<open>The close from Lua\<close>

text \<open>The functions queued in the loop, one after another.\<close>

fun chan_asyncs :: "bool \<Rightarrow> async_env list \<Rightarrow> chWorld \<Rightarrow> chWorld option" where
  "chan_asyncs l [] w = Some w"
| "chan_asyncs l (e # es) w = do { w \<leftarrow> chan_async l e w; chan_asyncs l es w }"

definition queued :: "chWorld \<Rightarrow> conn_async list" where
  "queued w = (case cw_connection w of Some k \<Rightarrow> ec_async k | None \<Rightarrow> [])"

lemma short_has_conn: "chan_inv (-1) 0 w \<Longrightarrow> \<exists>k. cw_connection w = Some k"
  by (auto simp: chan_inv_def dest: chan_nonneg split: option.splits)

lemma short_faults:
  "chan_inv (-1) 0 w \<Longrightarrow> \<not> has_conn w \<Longrightarrow> cw_connection w = Some k \<Longrightarrow> AsyncForceClose \<in> set (ec_async k) \<or> ec_hSocket k = -1 \<Longrightarrow>
   length (ec_async k) \<le> length envs \<Longrightarrow> \<forall>e \<in> set envs. ae_run e \<Longrightarrow> chan_asyncs l envs w = None"
proof (induction envs arbitrary: w k)
  case Nil
  then show ?case by (auto simp: chan_inv_def conn_ok_def)
next
  case (Cons e envs)
  then have run: "ae_run e" by simp
  show ?case
  proof (cases "run_async e k")
    case None
    with Cons.prems(3) show ?thesis by (simp add: chan_async_def conn_do_def conn_call_def)
  next
    case (Some k')
    obtain k1 where k1: "settled (-1) (has_conn w) 0 k1 (chan_async l e w)" "ec_async k1 = tl (ec_async k)"
      "ec_hSocket k = -1 \<or> (\<exists>as. ec_async k = AsyncForceClose # as) \<Longrightarrow> ec_hSocket k1 = -1"
      using async_settled [OF Cons.prems(1,3) run Some, of l] by blast
    show ?thesis
    proof (cases "chan_async l e w")
      case None
      then show ?thesis by simp
    next
      case w1: (Some w1)
      with k1(1) Cons.prems(2) have s: "chan_inv (-1) 0 w1" "\<not> has_conn w1"
        "\<And>k'. cw_connection w1 = Some k' \<Longrightarrow> ec_async k' = ec_async k1 \<and> ec_hSocket k' = ec_hSocket k1"
        by (simp_all add: settled_def)
      from short_has_conn [OF s(1)] obtain k2 where k2: "cw_connection w1 = Some k2" by blast
      have "AsyncForceClose \<in> set (ec_async k2) \<or> ec_hSocket k2 = -1"
        using s(3) [OF k2] k1(2,3) Cons.prems(4) by (cases "ec_async k") auto
      moreover have "length (ec_async k2) \<le> length envs" using s(3) [OF k2] k1(2) Cons.prems(5) by simp
      ultimately show ?thesis using Cons.IH [OF s(1,2) k2] Cons.prems(6) w1 by simp
    qed
  qed
qed

text \<open>C30: The close of \<open>lservice_t.c\<close> without a timeout, on a bound and open channel that nobody else uses, succeeds, but it
  gives up the reference of the look-up and one more, which the bind has handed to the connection: whatever the
  system answers, running the functions that are queued in the loop then touches the freed channel.
\<close>

theorem remoteClose_overreleases:
  assumes "reachable chan_start chan_step (0, {#}, w)" "cw_center w = Some uiID" "has_conn w" "status w = Some eRunning"
    "cw_connection w = Some k" "ec_iStatus k = eConnected" "sint (ucast ms :: u32) \<le> 0"
  shows "\<exists>w'. lservice_remoteClose l p ms uiID w = Some w' \<and>
    (\<forall>envs :: async_env list. length (queued w') \<le> length envs \<and> (\<forall>e \<in> set envs. ae_run e) \<longrightarrow> chan_asyncs l' envs w' = None)"
proof -
  have i: "chan_inv 0 0 w" using channel_refs.reachable_inv [OF assms(1)] by (simp add: chan_held_def)
  from i have "chan (chan_refs 0 w) w" by (simp add: chan_inv_parts)
  moreover from assms(2) chan_nonneg [OF this] have "1 \<le> chan_refs 0 w" by (simp add: registered_def)
  ultimately obtain w1 where w1: "channel_addref w = Some w1" "cw_center w1 = cw_center w" "cw_connection w1 = cw_connection w"
    "has_conn w1 = has_conn w" using chan_addref by blast
  then have g: "center_gain uiID w = Some (True, w1)" using assms(2) by (simp add: center_gain_def)
  have st: "status w1 = status w" using w1(1) by (auto simp: channel_addref_def bind_eq_Some_conv status_def put_channel_def)
  have i1: "chan_inv 1 0 w1" using gain_inv [OF i g] by simp
  from channel_close_inv [OF i1, of "ucast ms" l p] assms(3-7) w1 st obtain w2 where w2: "channel_close l p (ucast ms) w1 = Some w2"
    "chan_inv 1 0 w2" "\<not> has_conn w2" "cw_center w2 = cw_center w" "\<forall>k'. cw_connection w2 = Some k' \<longrightarrow> ec_async k' = ec_async k @ [AsyncForceClose]"
    by (auto simp: eventConnection_forceClose_def eventConnection_addref_def)
  from drop_inv [OF w2(2)] w2(4) obtain w3 where w3: "channel_release w2 = Some w3" "chan_inv 0 0 w3" "cw_center w3 = cw_center w"
    "cw_connection w3 = cw_connection w2" "has_conn w3 = has_conn w2" by auto
  from drop_inv [OF w3(2)] w3(3) assms(2) obtain w4 where w4: "channel_release w3 = Some w4" "chan_inv (-1) 0 w4"
    "cw_connection w4 = cw_connection w3" "has_conn w4 = has_conn w3" by (auto simp: registered_def)
  from short_has_conn [OF w4(2)] obtain k4 where k4: "cw_connection w4 = Some k4" by blast
  have a: "ec_async k4 = ec_async k @ [AsyncForceClose]" using k4 w4(3) w3(4) w2(5) by simp
  have e: "lservice_remoteClose l p ms uiID w = Some w4" using g w2(1) w3(1) w4(1) by (simp add: lservice_remoteClose_def)
  show ?thesis
  proof (intro exI [of _ w4] conjI e allI impI)
    fix envs :: "async_env list" assume "length (queued w4) \<le> length envs \<and> (\<forall>e \<in> set envs. ae_run e)"
    with short_faults [OF w4(2) _ k4, of envs l'] a k4 w4(4) w3(5) w2(3) show "chan_asyncs l' envs w4 = None"
      by (simp add: queued_def)
  qed
qed

section \<open>The refusal of an accepted connection\<close>

text \<open>C31: When the service refuses an accepted connection before it is bound, its close takes the reference that the loop gets
  only with the bind: in the loop the connection is released once more after it was freed, and the channel, if the
  center has it, stays there for good with nobody to take it out.
\<close>

theorem refused_accept_overreleases:
  assumes "accepted k" "cw_connection w = Some k" "cw_center w = None" "uiID \<noteq> 0"
  shows "\<exists>w1 w2 k2. createChannel uiID w = Some w1 \<and> service_refuseChannel l p w1 = Some w2 \<and>
    cw_connection w2 = Some k2 \<and> ec_async k2 = [AsyncForceClose] \<and> cw_center w2 = Some uiID \<and>
    (\<forall>env :: async_env. \<exists>k3. run_async env k2 = Some k3 \<and> Free \<in> set (ec_out k3) \<and> ec_iRefCount k3 = -1 \<and>
       CloseCallback \<notin> set (ec_out k3) \<and> UserFree \<notin> set (ec_out k3))"
proof -
  note f = accepted_fields [OF assms(1)]
  let ?c = "\<lparr>ch_pCodecStream = None, ch_pService = None, ch_uiID = uiID, ch_hConnection = True,
    ch_hDisconnectTimeout = None, ch_iStatus = eStarting, ch_iRefCount = 2\<rparr>"
  let ?k = "k\<lparr>ec_iStatus := eDisconnected, ec_async := [AsyncForceClose]\<rparr>"
  let ?w2 = "w\<lparr>cw_center := Some uiID, cw_connection := Some ?k,
     cw_channel := Some (?c\<lparr>ch_hConnection := False, ch_iStatus := eStopped, ch_iRefCount := 1\<rparr>)\<rparr>"
  have 1: "createChannel uiID w = Some (w\<lparr>cw_channel := Some ?c, cw_center := Some uiID\<rparr>)"
    by (rule createChannel_new [OF assms(2-4)])
  have 2: "service_refuseChannel l p (w\<lparr>cw_channel := Some ?c, cw_center := Some uiID\<rparr>) = Some ?w2"
    using f assms(2) by (simp add: service_refuseChannel_def channel_close_def set_status_def set_timeout_def stop_timeout_def
      set_connection_def put_channel_def conn_apply_def put_connection_def conn_release_def eventConnection_forceClose_def
      eventConnection_addref_def eventConnection_release_def channel_release_def)
  have 3: "\<exists>k3. run_async (env :: async_env) ?k = Some k3 \<and> Free \<in> set (ec_out k3) \<and> ec_iRefCount k3 = -1 \<and>
       CloseCallback \<notin> set (ec_out k3) \<and> UserFree \<notin> set (ec_out k3)" for env
    using f by (auto simp: run_async_def inLoop_eventConnection_forceClose_def handleClose_def Let_def conn_poller_clear_def
      emit_def rel_out_def split: prod.split)
  show ?thesis using 1 2 3 by (intro exI [of _ "w\<lparr>cw_channel := Some ?c, cw_center := Some uiID\<rparr>"] exI [of _ ?w2] exI [of _ ?k]) simp
qed

section \<open>An example\<close>

definition chan_example :: chWorld where
  "chan_example = \<lparr>cw_channel = None, cw_center = None, cw_connection = Some (acceptEventConnection Map.empty 0 5),
     cw_timers = loop0, cw_codecs = (\<lambda>_. None), cw_services = (\<lambda>_. 0), cw_bRunning = True, cw_events = []\<rparr>"

lemma example_accepted: "accepted (acceptEventConnection Map.empty 0 5)"
  unfolding accepted_def by (intro exI [of _ Map.empty] exI [of _ 0] exI [of _ "5::int"]) simp

lemma example_start:
  obtains w k where "chan_start (0, {#}, w)" "has_conn w" "cw_connection w = Some k" "ec_iStatus k = eConnected"
    "status w = Some eRunning" "cw_center w = Some 0x80100001"
proof -
  obtain w1 w k2 where r: "createChannel 0x80100001 chan_example = Some w1"
    "lservice_remoteBind RunNow 1 True True None 0x80100001 w1 = Some w" "chan_inv 0 0 w" "has_conn w" "cw_connection w = Some k2"
    "ec_iStatus k2 = eConnected" "status w = Some eRunning" "cw_center w = Some 0x80100001"
    by (rule start_run [OF _ _ example_accepted, of chan_example "0x80100001" RunNow None 1 True True])
      (simp_all add: chan_example_def)
  have "chan_start (0, {#}, w)"
    unfolding chan_start_def fst_conv snd_conv
  proof (rule conjI [OF refl], rule conjI [OF refl], intro exI conjI)
    show "createChannel 0x80100001 chan_example = Some w1" by (rule r(1))
    show "lservice_remoteBind RunNow 1 True True None 0x80100001 w1 = Some w" by (rule r(2))
    show "accepted (acceptEventConnection Map.empty 0 5)" by (rule example_accepted)
  qed (simp_all add: chan_example_def)
  with r that show thesis by blast
qed

section \<open>A write that comes too late\<close>

text \<open>A write has loaded the connection; another user closes the channel; the loop ends the connection.\<close>

definition race_bound :: "chWorld option" where
  "race_bound = do { w \<leftarrow> createChannel 0x80100001 chan_example; lservice_remoteBind RunNow 1 True True None 0x80100001 w }"

definition race_env :: async_env where
  "race_env = \<lparr>ae_run = True, ae_send = (None, 0), ae_connect = ConnectStarts, ae_hSocket = 0, ae_shutdown = True\<rparr>"

fun race_run :: "(chWorld \<Rightarrow> chWorld option) list \<Rightarrow> chWorld \<Rightarrow> chWorld option" where
  "race_run [] w = Some w" | "race_run (f # fs) w = Option.bind (f w) (race_run fs)"

definition gain_step :: "chWorld \<Rightarrow> chWorld option" where
  "gain_step w = Option.bind (center_gain 0x80100001 w) (\<lambda>(ok, w). if ok then Some w else None)"

definition pc_step :: "user_pc \<Rightarrow> user_pc option \<Rightarrow> chWorld \<Rightarrow> chWorld option" where
  "pc_step p q w = Option.bind (user_step False (None, 0) p w) (\<lambda>(q', w). if q = q' then Some w else None)"

lemma race_ends:
  "case Option.bind race_bound (race_run [gain_step, gain_step, pc_step (UsWriteStatus [1] 1 0) (Some (UsWriteLoad [1] 1 0)),
     pc_step (UsWriteLoad [1] 1 0) (Some (UsWrite [1] 1 0)), pc_step UsStatus (Some UsTimeout), pc_step UsTimeout (Some UsConnection),
     pc_step UsConnection (Some UsForce), pc_step UsForce (Some UsRelease), pc_step UsRelease None, chan_async True race_env]) of
     None \<Rightarrow> False | Some w \<Rightarrow> Option.is_none (cw_connection w)"
  by code_simp

lemma race_start: "race_bound = Some w \<Longrightarrow> chan_start (0, {#}, w)"
proof -
  assume "race_bound = Some w"
  then obtain w1 where w1: "createChannel 0x80100001 chan_example = Some w1"
    "lservice_remoteBind RunNow 1 True True None 0x80100001 w1 = Some w" by (auto simp: race_bound_def bind_eq_Some_conv)
  show ?thesis unfolding chan_start_def fst_conv snd_conv
  proof (rule conjI [OF refl], rule conjI [OF refl], intro exI conjI)
    show "createChannel 0x80100001 chan_example = Some w1" by (rule w1(1))
    show "lservice_remoteBind RunNow 1 True True None 0x80100001 w1 = Some w" by (rule w1(2))
    show "accepted (acceptEventConnection Map.empty 0 5)" by (rule example_accepted)
  qed (simp_all add: chan_example_def)
qed

lemma gain_reach:
  "reachable chan_start chan_step (h, P, w) \<Longrightarrow> gain_step w = Some w' \<Longrightarrow> reachable chan_start chan_step (h + 1, P, w')"
  by (auto simp: gain_step_def bind_eq_Some_conv split: if_splits intro: reach_step user_gain)

lemma call_reach:
  "reachable chan_start chan_step (h, P, w) \<Longrightarrow> 0 < h \<Longrightarrow> call_begins p \<Longrightarrow> reachable chan_start chan_step (h - 1, add_mset p P, w)"
  by (blast intro: reach_step user_call)

lemma next_reach:
  "reachable chan_start chan_step (h, add_mset p P, w) \<Longrightarrow> pc_step p (Some q) w = Some w' \<Longrightarrow>
   reachable chan_start chan_step (h, add_mset q P, w')"
  by (auto simp: pc_step_def bind_eq_Some_conv split: if_splits intro: reach_step user_next)

lemma done_reach:
  "reachable chan_start chan_step (h, add_mset p P, w) \<Longrightarrow> pc_step p None w = Some w' \<Longrightarrow> reachable chan_start chan_step (h + 1, P, w')"
  by (auto simp: pc_step_def bind_eq_Some_conv split: if_splits intro: reach_step user_done)

lemma async_reach:
  "reachable chan_start chan_step (h, P, w) \<Longrightarrow> ae_run env \<Longrightarrow> chan_async l env w = Some w' \<Longrightarrow> reachable chan_start chan_step (h, P, w')"
  by (erule reach_step) (rule loop_async)

lemma race_reached:
  obtains w where "reachable chan_start chan_step (1, {#UsWrite [1] 1 0#}, w)" "cw_connection w = None"
proof -
  from race_ends obtain w0 a b c d e f g i j w where
    s: "race_bound = Some w0" "gain_step w0 = Some a" "gain_step a = Some b"
      "pc_step (UsWriteStatus [1] 1 0) (Some (UsWriteLoad [1] 1 0)) b = Some c"
      "pc_step (UsWriteLoad [1] 1 0) (Some (UsWrite [1] 1 0)) c = Some d" "pc_step UsStatus (Some UsTimeout) d = Some e"
      "pc_step UsTimeout (Some UsConnection) e = Some f" "pc_step UsConnection (Some UsForce) f = Some g"
      "pc_step UsForce (Some UsRelease) g = Some i" "pc_step UsRelease None i = Some j" "chan_async True race_env j = Some w"
    and n: "Option.is_none (cw_connection w)"
    by (auto split: option.splits Option.bind_splits)
  have "reachable chan_start chan_step (0, {#}, w0)" by (rule reach_init) (rule race_start [OF s(1)])
  from gain_reach [OF gain_reach [OF this s(2)] s(3)] have "reachable chan_start chan_step (2, {#}, b)" by simp
  from call_reach [OF this, of "UsWriteStatus [1] 1 0"] have "reachable chan_start chan_step (1, {#UsWriteStatus [1] 1 0#}, b)" by simp
  from next_reach [OF next_reach [OF this s(4)] s(5)] have "reachable chan_start chan_step (1, {#UsWrite [1] 1 0#}, d)" .
  from call_reach [OF this, of UsStatus] have "reachable chan_start chan_step (0, {#UsStatus, UsWrite [1] 1 0#}, d)" by simp
  from done_reach [OF next_reach [OF next_reach [OF next_reach [OF next_reach [OF this s(6)] s(7)] s(8)] s(9)] s(10)]
  have "reachable chan_start chan_step (1, {#UsWrite [1] 1 0#}, j)" by simp
  from async_reach [OF this _ s(11)] have "reachable chan_start chan_step (1, {#UsWrite [1] 1 0#}, w)" by (simp add: race_env_def)
  with n that show thesis by (simp add: Option.is_none_def)
qed

text \<open>C38: A user that has loaded the connection of the channel to write uses it without a reference: another user closes the channel, the
  loop ends and frees the connection, and then the write touches freed memory, whatever the system answers.
\<close>

theorem write_uses_freed_connection:
  "\<exists>h P w. reachable chan_start chan_step (h, P, w) \<and> UsWrite [1] 1 0 \<in># P \<and> cw_channel w \<noteq> None \<and>
     (\<forall>r. user_step False r (UsWrite [1] 1 0) w = None)"
proof -
  obtain w where w: "reachable chan_start chan_step (1, {#UsWrite [1] 1 0#}, w)" "cw_connection w = None" by (rule race_reached)
  have "chan_safe (1, {#UsWrite [1] 1 0#}, w)" using channel_refs.always [OF w(1)] .
  then have "cw_channel w \<noteq> None" by (simp add: chan_safe_def)
  with w show ?thesis by (intro exI [of _ 1] exI [of _ "{#UsWrite [1] 1 0#}"] exI [of _ w]) (simp add: conn_call_def)
qed

section \<open>Examples\<close>


theorem remoteClose_overreleases_witness:
  "\<exists>w w'. chan_start (0, {#}, w) \<and> lservice_remoteClose False 0 0 0x80100001 w = Some w' \<and>
     chan_asyncs False (replicate (length (queued w'))
       \<lparr>ae_run = True, ae_send = (None, 0), ae_connect = ConnectStarts, ae_hSocket = 0, ae_shutdown = True\<rparr>) w' = None"
proof -
  obtain w k where w: "chan_start (0, {#}, w)" "has_conn w" "cw_connection w = Some k" "ec_iStatus k = eConnected"
    "status w = Some eRunning" "cw_center w = Some 0x80100001" by (rule example_start)
  from w(1) have "reachable chan_start chan_step (0, {#}, w)" by (rule reach_init)
  from remoteClose_overreleases [OF this w(6,2,5,3,4), of 0 False 0 False]
  show ?thesis using w(1) by fastforce
qed

theorem refused_accept_overreleases_witness:
  "\<exists>w1 w2 k2. createChannel 7 chan_example = Some w1 \<and> service_refuseChannel False 0 w1 = Some w2 \<and>
    cw_connection w2 = Some k2 \<and> cw_center w2 = Some 7 \<and> ec_async k2 = [AsyncForceClose]"
  using refused_accept_overreleases [OF example_accepted, of chan_example 7 False 0]
  by (fastforce simp: chan_example_def)

end
