(* ===== verification/EventLoop.thy ===== *)
theory EventLoop
  imports Connection Interfaces
begin

text \<open>
  The loop of \<open>core/source/eventIO/posix/eventIOLoop_t.c\<close> and \<open>eventIOLoop_t.h\<close> as the steps that its thread and
  any number of others interleave: functions are queued under the lock of the queue, an eventfd wakes the loop, and a
  flag saves the writes to it that are not needed.  An atomic operation, a system call, a section under the lock or the run of
  one queued function is a step.  A function that queues another one does it as one of the threads.
\<close>

section \<open>State\<close>

text \<open>A queued function is the one of \<open>eventIOLoop_stop\<close> or a user's; the list \<open>el_done\<close> says which ran, and whether as
  work or as cancellation.  The descriptor of the eventfd is its counter, \<open>None\<close> when it is closed.\<close>

datatype loop_task = LoopStop | LoopTask nat

record ev_loop =
  el_queuePending :: "loop_task list"
  el_bNotified :: bool
  el_hWakeupFd :: "nat option"
  el_bRunning :: bool
  el_bLoopRunning :: bool
  el_inserted :: "loop_task list"
  el_done :: "(loop_task \<times> bool) list"

text \<open>A thread in \<open>eventIOLoop_queueInLoop\<close>, by its next step: the insertion, and in \<open>wakeupEvent_notify\<close> the load and the
  store of the flag and the write.\<close>

datatype el_pc = ElIdle | ElInsert loop_task | ElLoad | ElStore | ElWrite

text \<open>The thread of the loop: the test of \<open>bRunning\<close>, \<open>poller_wait\<close>, the read of the eventfd, the reset of the flag, the
  move of the queue, the functions of the batch; and in \<open>eventIOLoop_clear\<close> the rest of the queue, the flag and the
  closing of the eventfd.\<close>

datatype lp_pc =
    LpCheck | LpWait | LpRead | LpStore | LpMove | LpRun "loop_task list" | LpClear | LpClearNotify | LpClearClose | LpClosed

section \<open>Steps\<close>

definition wakeupEvent_init :: "ev_loop \<Rightarrow> ev_loop" where
  "wakeupEvent_init s = s\<lparr>el_hWakeupFd := Some 0, el_bNotified := False\<rparr>"

definition eventIOLoop_init :: "ev_loop \<Rightarrow> ev_loop" where
  "eventIOLoop_init s = (wakeupEvent_init s)\<lparr>el_bRunning := False, el_queuePending := []\<rparr>"

definition eventIOLoop_start :: "ev_loop \<Rightarrow> ev_loop" where
  "eventIOLoop_start s = s\<lparr>el_bRunning := True\<rparr>"

text \<open>\<open>eventIOLoop_queueInLoop\<close> and \<open>wakeupEvent_notify\<close>.\<close>

fun eventIOLoop_queueInLoop :: "ev_loop \<Rightarrow> el_pc \<Rightarrow> (ev_loop \<times> el_pc) option" where
  "eventIOLoop_queueInLoop s (ElInsert t) =
     Some (s\<lparr>el_queuePending := el_queuePending s @ [t], el_inserted := el_inserted s @ [t]\<rparr>, ElLoad)"
| "eventIOLoop_queueInLoop s ElLoad = Some (s, if el_bNotified s then ElIdle else ElStore)"
| "eventIOLoop_queueInLoop s ElStore = Some (s\<lparr>el_bNotified := True\<rparr>, ElWrite)"
| "eventIOLoop_queueInLoop s ElWrite = Some (s\<lparr>el_hWakeupFd := map_option Suc (el_hWakeupFd s)\<rparr>, ElIdle)"
| "eventIOLoop_queueInLoop s ElIdle = None"

text \<open>\<open>eventIOLoop_runInLoop\<close>: on the thread of the loop the function runs at once.\<close>

definition eventIOLoop_runInLoop :: "bool \<Rightarrow> ev_loop \<Rightarrow> where_run" where
  "eventIOLoop_runInLoop inLoopThread s =
     (if inLoopThread then if el_bLoopRunning s then RunNow else CancelNow else RunLater)"

text \<open>\<open>eventIO_stop\<close>, with one loop: who exchanges \<open>bLoopRunning\<close> queues the stop.\<close>

definition eventIO_stop :: "ev_loop \<Rightarrow> ev_loop \<times> el_pc" where
  "eventIO_stop s = (if el_bLoopRunning s then (s\<lparr>el_bLoopRunning := False\<rparr>, ElInsert LoopStop) else (s, ElIdle))"

definition inLoop_eventIOLoop_stop :: "ev_loop \<Rightarrow> ev_loop" where
  "inLoop_eventIOLoop_stop s = s\<lparr>el_bRunning := False\<rparr>"

text \<open>One function: its work while \<open>eventIO\<close> runs, otherwise the cancellation, if it has one; the stop does the same in
  both.\<close>

definition run_task :: "bool \<Rightarrow> loop_task \<Rightarrow> ev_loop \<Rightarrow> ev_loop" where
  "run_task work t s = (if t = LoopStop then inLoop_eventIOLoop_stop s else s)\<lparr>el_done := el_done s @ [(t, work)]\<rparr>"

text \<open>\<open>wakeupEvent_handleEvent\<close> and \<open>eventIOLoop_doEvents\<close>.\<close>

fun eventIOLoop_doEvents :: "ev_loop \<Rightarrow> lp_pc \<Rightarrow> (ev_loop \<times> lp_pc) option" where
  "eventIOLoop_doEvents s LpRead =
     (if el_hWakeupFd s \<noteq> None \<and> el_hWakeupFd s \<noteq> Some 0 then Some (s\<lparr>el_hWakeupFd := Some 0\<rparr>, LpStore) else Some (s, LpCheck))"
| "eventIOLoop_doEvents s LpStore = Some (s\<lparr>el_bNotified := False\<rparr>, LpMove)"
| "eventIOLoop_doEvents s LpMove = Some (s\<lparr>el_queuePending := []\<rparr>, LpRun (el_queuePending s))"
| "eventIOLoop_doEvents s (LpRun []) = Some (s, LpCheck)"
| "eventIOLoop_doEvents s (LpRun (t # ts)) = Some (run_task (el_bLoopRunning s) t s, LpRun ts)"
| "eventIOLoop_doEvents s _ = None"

fun eventIOLoop_clear :: "ev_loop \<Rightarrow> lp_pc \<Rightarrow> (ev_loop \<times> lp_pc) option" where
  "eventIOLoop_clear s LpClear =
     (case el_queuePending s of
        [] \<Rightarrow> Some (s, LpClearNotify)
      | t # ts \<Rightarrow> Some (run_task False t (s\<lparr>el_queuePending := ts\<rparr>), LpClear))"
| "eventIOLoop_clear s LpClearNotify = Some (s\<lparr>el_bNotified := True\<rparr>, LpClearClose)"
| "eventIOLoop_clear s LpClearClose = Some (s\<lparr>el_hWakeupFd := None\<rparr>, LpClosed)"
| "eventIOLoop_clear s _ = None"

text \<open>\<open>eventIOLoop_threadRun\<close>: \<open>poller_wait\<close> returns because of the eventfd, when it can be read, or because of something
  else, or fails with -1, and then the loop breaks off without having been told to stop.\<close>

datatype lp_poll = PollWakeup | PollOther | PollFailed

fun eventIOLoop_threadRun :: "lp_poll \<Rightarrow> ev_loop \<Rightarrow> lp_pc \<Rightarrow> (ev_loop \<times> lp_pc) option" where
  "eventIOLoop_threadRun poll s LpCheck = Some (s, if el_bRunning s then LpWait else LpClear)"
| "eventIOLoop_threadRun poll s LpWait =
     (case poll of
        PollFailed \<Rightarrow> Some (s, LpClear)
      | PollOther \<Rightarrow> Some (s, LpCheck)
      | PollWakeup \<Rightarrow> if el_hWakeupFd s \<noteq> None \<and> el_hWakeupFd s \<noteq> Some 0 then Some (s, LpRead) else None)"
| "eventIOLoop_threadRun poll s pc =
     (case eventIOLoop_doEvents s pc of None \<Rightarrow> eventIOLoop_clear s pc | r \<Rightarrow> r)"

text \<open>Everything together: the thread of the loop and the others.\<close>

record el_state =
  el_shared :: ev_loop
  el_loop :: lp_pc
  el_threads :: "el_pc list"

datatype el_action = ElQueue nat | ElStop | ElContinue

definition el_created :: ev_loop where
  "el_created = eventIOLoop_start (eventIOLoop_init
     \<lparr>el_queuePending = [], el_bNotified = True, el_hWakeupFd = None, el_bRunning = False, el_bLoopRunning = True,
      el_inserted = [], el_done = []\<rparr>)"

definition el_start :: "nat \<Rightarrow> el_state \<Rightarrow> bool" where
  "el_start n c \<longleftrightarrow> c = \<lparr>el_shared = el_created, el_loop = LpCheck, el_threads = replicate n ElIdle\<rparr>"

definition el_move :: "el_action \<Rightarrow> ev_loop \<Rightarrow> el_pc \<Rightarrow> (ev_loop \<times> el_pc) option" where
  "el_move a s pc =
     (case a of
        ElContinue \<Rightarrow> eventIOLoop_queueInLoop s pc
      | ElQueue n \<Rightarrow> if pc = ElIdle then Some (s, ElInsert (LoopTask n)) else None
      | ElStop \<Rightarrow> if pc = ElIdle then Some (eventIO_stop s) else None)"

definition el_thread_next :: "nat \<Rightarrow> el_action \<Rightarrow> el_state \<Rightarrow> el_state option" where
  "el_thread_next i a c =
     (if i < length (el_threads c)
      then map_option (\<lambda>(s, pc). c\<lparr>el_shared := s, el_threads := (el_threads c)[i := pc]\<rparr>)
        (el_move a (el_shared c) (el_threads c ! i))
      else None)"

definition el_loop_next :: "lp_poll \<Rightarrow> el_state \<Rightarrow> el_state option" where
  "el_loop_next poll c =
     map_option (\<lambda>(s, pc). c\<lparr>el_shared := s, el_loop := pc\<rparr>) (eventIOLoop_threadRun poll (el_shared c) (el_loop c))"

definition el_step :: "el_state \<Rightarrow> el_state \<Rightarrow> bool" where
  "el_step c c' \<longleftrightarrow> (\<exists>i a. el_thread_next i a c = Some c') \<or> (\<exists>poll. el_loop_next poll c = Some c')"

section \<open>The invariant\<close>

definition fd_ready :: "ev_loop \<Rightarrow> bool" where
  "fd_ready s \<longleftrightarrow> (case el_hWakeupFd s of Some n \<Rightarrow> 0 < n | None \<Rightarrow> False)"

fun lp_batch :: "lp_pc \<Rightarrow> loop_task list" where
  "lp_batch (LpRun ts) = ts" | "lp_batch _ = []"

fun lp_ending :: "lp_pc \<Rightarrow> bool" where
  "lp_ending LpClear = True" | "lp_ending LpClearNotify = True" | "lp_ending LpClearClose = True" | "lp_ending LpClosed = True"
| "lp_ending _ = False"

fun lp_waiting :: "lp_pc \<Rightarrow> bool" where
  "lp_waiting LpWait = True" | "lp_waiting LpRead = True" | "lp_waiting LpStore = True" | "lp_waiting LpMove = True"
| "lp_waiting _ = False"

text \<open>The flag is set only if a wake-up is on its way; what is in the queue is looked at; \<open>bRunning\<close> is false after a stop; every
  function queued was run, is in the batch or in the queue, in this order.\<close>

definition el_flag :: "el_state \<Rightarrow> bool" where
  "el_flag c \<longleftrightarrow> (\<not> lp_ending (el_loop c) \<and> el_bNotified (el_shared c) \<and> el_loop c \<noteq> LpStore \<and> \<not> fd_ready (el_shared c) \<longrightarrow>
     ElWrite \<in> set (el_threads c))"

definition el_looked :: "el_state \<Rightarrow> bool" where
  "el_looked c \<longleftrightarrow> (\<not> lp_ending (el_loop c) \<and> el_queuePending (el_shared c) \<noteq> [] \<and> el_loop c \<noteq> LpStore \<and> el_loop c \<noteq> LpMove \<and>
     \<not> fd_ready (el_shared c) \<longrightarrow> (\<exists>p \<in> set (el_threads c). p \<in> {ElLoad, ElStore, ElWrite}))"

definition el_life :: "el_state \<Rightarrow> bool" where
  "el_life c \<longleftrightarrow> (el_bRunning (el_shared c) \<longleftrightarrow> LoopStop \<notin> fst ` set (el_done (el_shared c))) \<and>
     (lp_waiting (el_loop c) \<longrightarrow> el_bRunning (el_shared c)) \<and> (el_hWakeupFd (el_shared c) = None \<longleftrightarrow> el_loop c = LpClosed) \<and>
     (el_loop c = LpRead \<longrightarrow> fd_ready (el_shared c))"

definition el_order :: "el_state \<Rightarrow> bool" where
  "el_order c \<longleftrightarrow> el_inserted (el_shared c) = map fst (el_done (el_shared c)) @ lp_batch (el_loop c) @ el_queuePending (el_shared c)"

definition el_inv :: "el_state \<Rightarrow> bool" where
  "el_inv c \<longleftrightarrow> el_flag c \<and> el_looked c \<and> el_life c \<and> el_order c"

lemmas el_inv_defs = el_flag_def el_looked_def el_life_def el_order_def

lemma el_start_inv: "el_start n c \<Longrightarrow> el_inv c"
  by (simp add: el_start_def el_inv_def el_inv_defs el_created_def eventIOLoop_start_def eventIOLoop_init_def wakeupEvent_init_def)

lemma threads_keep:
  assumes "i < length ps" "x \<in> set ps" "x \<noteq> ps ! i"
  shows "x \<in> set (ps[i := p])"
  using assms by (metis in_set_conv_nth length_list_update nth_list_update_neq)

lemma threads_new: "i < length ps \<Longrightarrow> p \<in> set (ps[i := p])"
  by (simp add: set_update_memI)

lemma thread_inv:
  assumes "el_inv c" "el_thread_next i a c = Some c'"
  shows "el_inv c'"
proof -
  from assms(2) obtain s pc where i: "i < length (el_threads c)" and m: "el_move a (el_shared c) (el_threads c ! i) = Some (s, pc)"
    and c': "c' = c\<lparr>el_shared := s, el_threads := (el_threads c)[i := pc]\<rparr>"
    by (auto simp: el_thread_next_def split: if_splits)
  let ?p = "el_threads c ! i"
  note keep = threads_keep [OF i]
  have new: "pc \<in> set ((el_threads c)[i := pc])" using threads_new [OF i] .
  have flag: "el_flag c" and looked: "el_looked c" and life: "el_life c" and order: "el_order c"
    using assms(1) by (simp_all add: el_inv_def)
  have opened: "\<exists>n. el_hWakeupFd (el_shared c) = Some n" if "\<not> lp_ending (el_loop c)"
    using life that by (cases "el_hWakeupFd (el_shared c)") (auto simp: el_life_def)
  have "el_flag c'"
  proof -
    have "ElWrite \<in> set ((el_threads c)[i := pc]) \<or> fd_ready s \<or> el_loop c = LpStore" if "\<not> lp_ending (el_loop c)" "el_bNotified s"
    proof (cases ?p)
      case ElWrite
      with m opened that(1) show ?thesis by (cases a) (auto simp: el_move_def fd_ready_def)
    next
      case ElStore
      with m new show ?thesis by (cases a) (auto simp: el_move_def)
    qed (use m flag keep [of ElWrite pc] that in \<open>cases a; auto simp: el_move_def eventIO_stop_def el_flag_def fd_ready_def split: if_splits\<close>)+
    then show ?thesis by (auto simp: c' el_flag_def)
  qed
  moreover have "el_looked c'"
  proof -
    have keep2: "\<exists>p \<in> set ((el_threads c)[i := pc]). p \<in> {ElLoad, ElStore, ElWrite}"
      if "p \<in> set (el_threads c)" "p \<in> {ElLoad, ElStore, ElWrite}" "p \<noteq> ?p" for p
      using keep [OF that(1,3), of pc] that(2) by blast
    have "(\<exists>p \<in> set ((el_threads c)[i := pc]). p \<in> {ElLoad, ElStore, ElWrite}) \<or> fd_ready s"
      if "\<not> lp_ending (el_loop c)" "el_queuePending s \<noteq> []" "el_loop c \<noteq> LpStore" "el_loop c \<noteq> LpMove"
    proof (cases ?p)
      case ElIdle
      with m have q: "el_queuePending s = el_queuePending (el_shared c)" "fd_ready s = fd_ready (el_shared c)"
        by (cases a; auto simp: el_move_def eventIO_stop_def fd_ready_def split: if_splits)+
      with looked that ElIdle keep2 show ?thesis by (auto simp: el_looked_def)
    next
      case (ElInsert t)
      with m new show ?thesis by (cases a) (auto simp: el_move_def)
    next
      case ElLoad
      show ?thesis
      proof (cases "el_bNotified (el_shared c)")
        case True
        with flag that have "ElWrite \<in> set (el_threads c) \<or> fd_ready (el_shared c)" by (auto simp: el_flag_def)
        moreover have "s = el_shared c" using m ElLoad by (cases a) (auto simp: el_move_def split: if_splits)
        ultimately show ?thesis using keep2 [of ElWrite] ElLoad by auto
      next
        case False
        with m new ElLoad show ?thesis by (cases a) (auto simp: el_move_def)
      qed
    next
      case ElStore
      with m new show ?thesis by (cases a) (auto simp: el_move_def)
    next
      case ElWrite
      with m opened that(1) have "fd_ready s" by (cases a) (auto simp: el_move_def fd_ready_def)
      then show ?thesis ..
    qed
    then show ?thesis by (auto simp: c' el_looked_def)
  qed
  moreover have "el_bRunning s = el_bRunning (el_shared c)" "el_done s = el_done (el_shared c)"
    "el_hWakeupFd s = None \<longleftrightarrow> el_hWakeupFd (el_shared c) = None" "fd_ready (el_shared c) \<Longrightarrow> fd_ready s"
    "\<exists>ts. el_inserted s = el_inserted (el_shared c) @ ts \<and> el_queuePending s = el_queuePending (el_shared c) @ ts"
    using m by (cases ?p; cases a; auto simp: el_move_def eventIO_stop_def fd_ready_def split: if_splits option.splits)+
  then have "el_life c'" "el_order c'" using life order by (auto simp: c' el_life_def el_order_def)
  ultimately show ?thesis by (simp add: el_inv_def)
qed

lemma run_task_sel [simp]:
  "el_queuePending (run_task b t s) = el_queuePending s" "el_bNotified (run_task b t s) = el_bNotified s"
  "el_hWakeupFd (run_task b t s) = el_hWakeupFd s" "el_inserted (run_task b t s) = el_inserted s"
  "el_done (run_task b t s) = el_done s @ [(t, b)]" "el_bRunning (run_task b t s) \<longleftrightarrow> el_bRunning s \<and> t \<noteq> LoopStop"
  "el_bLoopRunning (run_task b t s) = el_bLoopRunning s" "fd_ready (run_task b t s) = fd_ready s"
  by (simp_all add: run_task_def inLoop_eventIOLoop_stop_def fd_ready_def)

lemma loop_inv:
  assumes "el_inv c" "el_loop_next poll c = Some c'"
  shows "el_inv c'"
proof -
  from assms(2) obtain s pc where m: "eventIOLoop_threadRun poll (el_shared c) (el_loop c) = Some (s, pc)"
    and c': "c' = c\<lparr>el_shared := s, el_loop := pc\<rparr>"
    by (auto simp: el_loop_next_def)
  note inv = assms(1) [unfolded el_inv_def el_inv_defs]
  show ?thesis
  proof (cases "el_loop c")
    case (LpRun ts)
    show ?thesis
    proof (cases ts)
      case Nil
      with m inv LpRun show ?thesis by (simp add: c' el_inv_def el_inv_defs)
    next
      case (Cons t ts')
      with m LpRun have "s = run_task (el_bLoopRunning (el_shared c)) t (el_shared c)" "pc = LpRun ts'" by auto
      with inv LpRun Cons show ?thesis by (auto simp: c' el_inv_def el_inv_defs)
    qed
  next
    case LpClear
    show ?thesis
    proof (cases "el_queuePending (el_shared c)")
      case Nil
      with m inv LpClear show ?thesis by (auto simp add: c' el_inv_def el_inv_defs)
    next
      case (Cons t ts)
      with m LpClear have "s = run_task False t (el_shared c\<lparr>el_queuePending := ts\<rparr>)" "pc = LpClear" by auto
      with inv LpClear Cons show ?thesis by (auto simp: c' el_inv_def el_inv_defs)
    qed
  next
    case LpCheck
    with m have "s = el_shared c" "pc = (if el_bRunning (el_shared c) then LpWait else LpClear)" by (auto split: if_splits)
    with inv LpCheck show ?thesis by (auto simp: c' el_inv_def el_inv_defs fd_ready_def)
  next
    case LpWait
    with m have "s = el_shared c" "pc = LpCheck \<or> pc = LpClear \<or> pc = LpRead \<and> fd_ready (el_shared c)"
      by (auto simp: fd_ready_def split: if_splits option.splits lp_poll.splits)
    with inv LpWait show ?thesis by (auto simp: c' el_inv_def el_inv_defs)
  next
    case LpRead
    with inv have "fd_ready (el_shared c)" by simp
    with m LpRead have "s = el_shared c\<lparr>el_hWakeupFd := Some 0\<rparr>" "pc = LpStore" by (auto simp: fd_ready_def split: option.splits)
    with inv LpRead show ?thesis by (auto simp: c' el_inv_def el_inv_defs)
  next
    case LpStore
    with m have "s = el_shared c\<lparr>el_bNotified := False\<rparr>" "pc = LpMove" by (auto split: if_splits)
    with inv LpStore show ?thesis by (auto simp: c' el_inv_def el_inv_defs fd_ready_def)
  next
    case LpMove
    with m have "s = el_shared c\<lparr>el_queuePending := []\<rparr>" "pc = LpRun (el_queuePending (el_shared c))" by (auto split: if_splits)
    with inv LpMove show ?thesis by (auto simp: c' el_inv_def el_inv_defs fd_ready_def)
  next
    case LpClearNotify
    with m have "s = el_shared c\<lparr>el_bNotified := True\<rparr>" "pc = LpClearClose" by (auto split: if_splits)
    with inv LpClearNotify show ?thesis by (auto simp: c' el_inv_def el_inv_defs fd_ready_def)
  next
    case LpClearClose
    with m have "s = el_shared c\<lparr>el_hWakeupFd := None\<rparr>" "pc = LpClosed" by (auto split: if_splits)
    with inv LpClearClose show ?thesis by (auto simp: c' el_inv_def el_inv_defs fd_ready_def)
  next
    case LpClosed
    with m show ?thesis by simp
  qed
qed

lemma el_step_inv: "el_inv c \<Longrightarrow> el_step c c' \<Longrightarrow> el_inv c'"
  using thread_inv loop_inv unfolding el_step_def by blast

section \<open>No wake-up is lost\<close>

text \<open>No call of \<open>eventIOLoop_queueInLoop\<close> is in progress.\<close>

definition el_quiet :: "el_state \<Rightarrow> bool" where
  "el_quiet c \<longleftrightarrow> (\<forall>p \<in> set (el_threads c). p = ElIdle)"

lemma quiet_threads: "el_quiet c \<Longrightarrow> ElLoad \<notin> set (el_threads c) \<and> ElStore \<notin> set (el_threads c) \<and> ElWrite \<notin> set (el_threads c)"
  by (auto simp: el_quiet_def)

definition el_delivers :: "el_state \<Rightarrow> bool" where
  "el_delivers c \<longleftrightarrow> (let s = el_shared c in
     el_inserted s = map fst (el_done s) @ lp_batch (el_loop c) @ el_queuePending s \<and>
     (el_quiet c \<and> el_loop c = LpWait \<and> \<not> fd_ready s \<longrightarrow> map fst (el_done s) = el_inserted s))"

interpretation ev_loop: step_invariant "el_start n" el_step el_inv el_delivers
proof
  show "el_start n c \<Longrightarrow> el_inv c" for c by (rule el_start_inv)
  show "el_inv c \<Longrightarrow> el_step c c' \<Longrightarrow> el_inv c'" for c c' by (rule el_step_inv)
  show "el_inv c \<Longrightarrow> el_delivers c" for c
    by (auto simp: el_inv_def el_inv_defs el_delivers_def Let_def el_quiet_def)
qed

text \<open>C7: However any number of threads queue functions and stop the loop, every queued function is run or cancelled at most once
  and in the order of the queue, and when the loop sleeps in the poller with its eventfd not readable while no thread
  is inside \<open>eventIOLoop_queueInLoop\<close>, all of them have been: the writes that \<open>bNotified\<close> saves lose no wake-up.
\<close>

theorem loop_no_lost_wakeup:
  assumes "reachable (el_start n) el_step c"
  shows "el_inserted (el_shared c) = map fst (el_done (el_shared c)) @ lp_batch (el_loop c) @ el_queuePending (el_shared c) \<and>
    (el_quiet c \<and> el_loop c = LpWait \<and> \<not> fd_ready (el_shared c) \<longrightarrow> map fst (el_done (el_shared c)) = el_inserted (el_shared c))"
  using ev_loop.always [OF assms] unfolding el_delivers_def Let_def .

section \<open>The end of the loop\<close>

text \<open>The thread of the loop alone.\<close>

fun el_loop_run :: "nat \<Rightarrow> el_state \<Rightarrow> el_state" where
  "el_loop_run 0 c = c"
| "el_loop_run (Suc n) c = (case el_loop_next PollWakeup c of None \<Rightarrow> c | Some c' \<Rightarrow> el_loop_run n c')"

definition reaches :: "el_state \<Rightarrow> el_state \<Rightarrow> bool" where
  "reaches c c' \<longleftrightarrow> (\<exists>n. el_loop_run n c = c')"

lemma run_add: "el_loop_run (m + n) c = el_loop_run n (el_loop_run m c)"
proof (induction m arbitrary: c)
  case (Suc m)
  show ?case
  proof (cases "el_loop_next PollWakeup c")
    case None
    then have "el_loop_run n c = c" for n by (cases n) simp_all
    with None show ?thesis by simp
  next
    case (Some c')
    with Suc show ?thesis by simp
  qed
qed simp

lemma reaches_trans: "reaches c c' \<Longrightarrow> reaches c' c'' \<Longrightarrow> reaches c c''"
  unfolding reaches_def by (metis run_add)

lemma reaches_step: "el_loop_next PollWakeup c = Some c' \<Longrightarrow> reaches c' c'' \<Longrightarrow> reaches c c''"
  unfolding reaches_def by (metis el_loop_run.simps(2) option.simps(5))

lemma reaches_refl [simp]: "reaches c c"
  unfolding reaches_def by (metis el_loop_run.simps(1))

lemma loop_next: "eventIOLoop_threadRun PollWakeup (el_shared c) (el_loop c) = Some (s, pc) \<Longrightarrow>
    el_loop_next PollWakeup c = Some (c\<lparr>el_shared := s, el_loop := pc\<rparr>)"
  by (simp add: el_loop_next_def)

lemma run_batch:
  "el_loop c = LpRun ts \<Longrightarrow> \<exists>c'. reaches c c' \<and> el_loop c' = LpCheck \<and> el_threads c' = el_threads c \<and>
     el_queuePending (el_shared c') = el_queuePending (el_shared c) \<and> el_inserted (el_shared c') = el_inserted (el_shared c)"
proof (induction ts arbitrary: c)
  case Nil
  then have "el_loop_next PollWakeup c = Some (c\<lparr>el_shared := el_shared c, el_loop := LpCheck\<rparr>)" by (intro loop_next) simp
  from reaches_step [OF this reaches_refl] show ?case by force
next
  case (Cons t ts)
  let ?c = "c\<lparr>el_shared := run_task (el_bLoopRunning (el_shared c)) t (el_shared c), el_loop := LpRun ts\<rparr>"
  from Cons.prems have s: "el_loop_next PollWakeup c = Some ?c" by (intro loop_next) simp
  from Cons.IH [of ?c] obtain c' where "reaches ?c c'" "el_loop c' = LpCheck" "el_threads c' = el_threads c"
    "el_queuePending (el_shared c') = el_queuePending (el_shared c)" "el_inserted (el_shared c') = el_inserted (el_shared c)"
    by auto
  with reaches_step [OF s] show ?case by blast
qed

lemma run_clear:
  "el_loop c = LpClear \<Longrightarrow> \<exists>c'. reaches c c' \<and> el_loop c' = LpClosed \<and> el_threads c' = el_threads c \<and>
     el_queuePending (el_shared c') = [] \<and> el_inserted (el_shared c') = el_inserted (el_shared c)"
proof (induction "el_queuePending (el_shared c)" arbitrary: c)
  case Nil
  let ?c1 = "c\<lparr>el_loop := LpClearNotify\<rparr>"
  let ?c2 = "c\<lparr>el_shared := el_shared c\<lparr>el_bNotified := True\<rparr>, el_loop := LpClearClose\<rparr>"
  let ?c3 = "c\<lparr>el_shared := el_shared c\<lparr>el_bNotified := True, el_hWakeupFd := None\<rparr>, el_loop := LpClosed\<rparr>"
  have "el_loop_next PollWakeup c = Some ?c1" "el_loop_next PollWakeup ?c1 = Some ?c2" "el_loop_next PollWakeup ?c2 = Some ?c3"
    using Nil by (simp_all add: el_loop_next_def split: list.split)
  then have "reaches c ?c3" by (meson reaches_step reaches_refl)
  then show ?case using Nil(1) by (intro exI [of _ ?c3]) simp
next
  case (Cons t ts)
  let ?c = "c\<lparr>el_shared := run_task False t (el_shared c\<lparr>el_queuePending := ts\<rparr>), el_loop := LpClear\<rparr>"
  have s: "el_loop_next PollWakeup c = Some ?c"
    using Cons.prems by (intro loop_next) (simp add: Cons.hyps(2) [symmetric])
  from Cons.hyps(1) [of ?c] obtain c' where "reaches ?c c'" "el_loop c' = LpClosed" "el_threads c' = el_threads c"
    "el_queuePending (el_shared c') = []" "el_inserted (el_shared c') = el_inserted (el_shared c)" by auto
  with reaches_step [OF s] show ?case by blast
qed

text \<open>One round: what is in the queue is run, if anything is there or the loop has been told to stop.\<close>

lemma run_round:
  assumes "el_loop c = LpWait" "fd_ready (el_shared c)"
  shows "\<exists>c'. reaches c c' \<and> el_loop c' = LpCheck \<and> el_threads c' = el_threads c \<and>
     el_queuePending (el_shared c') = [] \<and> el_inserted (el_shared c') = el_inserted (el_shared c)"
proof -
  let ?s = "el_shared c"
  let ?c1 = "c\<lparr>el_shared := ?s, el_loop := LpRead\<rparr>"
  let ?c2 = "c\<lparr>el_shared := ?s\<lparr>el_hWakeupFd := Some 0\<rparr>, el_loop := LpStore\<rparr>"
  let ?c3 = "c\<lparr>el_shared := ?s\<lparr>el_hWakeupFd := Some 0, el_bNotified := False\<rparr>, el_loop := LpMove\<rparr>"
  let ?c4 = "c\<lparr>el_shared := ?s\<lparr>el_hWakeupFd := Some 0, el_bNotified := False, el_queuePending := []\<rparr>,
    el_loop := LpRun (el_queuePending ?s)\<rparr>"
  from assms(2) obtain n where "el_hWakeupFd ?s = Some n" "0 < n" by (auto simp: fd_ready_def split: option.splits)
  with assms(1) have "el_loop_next PollWakeup c = Some ?c1" "el_loop_next PollWakeup ?c1 = Some ?c2" "el_loop_next PollWakeup ?c2 = Some ?c3"
    "el_loop_next PollWakeup ?c3 = Some ?c4" by (simp_all add: el_loop_next_def)
  then have r: "reaches c ?c4" by (meson reaches_step reaches_refl)
  from run_batch [of ?c4] obtain c' where "reaches ?c4 c'" "el_loop c' = LpCheck" "el_threads c' = el_threads c"
    "el_queuePending (el_shared c') = []" "el_inserted (el_shared c') = el_inserted ?s" by auto
  with reaches_trans [OF r] show ?thesis by blast
qed

lemma reaches_reachable:
  "reachable (el_start n) el_step c \<Longrightarrow> reaches c c' \<Longrightarrow> reachable (el_start n) el_step c'"
proof -
  have "reachable (el_start n) el_step c \<Longrightarrow> reachable (el_start n) el_step (el_loop_run m c)" for m
  proof (induction m arbitrary: c)
    case (Suc m)
    show ?case
    proof (cases "el_loop_next PollWakeup c")
      case (Some c')
      then have "el_step c c'" by (auto simp: el_step_def)
      with Suc Some show ?thesis by (auto intro: reach_step)
    qed (use Suc in simp)
  qed simp
  then show "reachable (el_start n) el_step c \<Longrightarrow> reaches c c' \<Longrightarrow> reachable (el_start n) el_step c'"
    by (auto simp: reaches_def)
qed

definition closes :: "el_state \<Rightarrow> el_state \<Rightarrow> bool" where
  "closes c c' \<longleftrightarrow> reaches c c' \<and> el_loop c' = LpClosed \<and> el_threads c' = el_threads c \<and>
     el_queuePending (el_shared c') = [] \<and> el_inserted (el_shared c') = el_inserted (el_shared c)"

lemma closes_trans:
  "reaches c c' \<Longrightarrow> el_threads c' = el_threads c \<Longrightarrow> el_inserted (el_shared c') = el_inserted (el_shared c) \<Longrightarrow>
   closes c' c'' \<Longrightarrow> closes c c''"
  unfolding closes_def using reaches_trans by auto

lemma stopped_closes:
  fixes c :: el_state
  assumes "el_loop c = LpCheck" "\<not> el_bRunning (el_shared c)"
  shows "\<exists>c'. closes c c'"
proof -
  let ?c = "c\<lparr>el_shared := el_shared c, el_loop := LpClear\<rparr>"
  have s: "el_loop_next PollWakeup c = Some ?c" using assms by (intro loop_next) simp
  from run_clear [of ?c] obtain c' where "closes ?c c'" by (auto simp: closes_def)
  from closes_trans [OF reaches_step [OF s reaches_refl] _ _ this] show ?thesis by auto
qed

definition el_stopping :: "nat \<Rightarrow> el_state \<Rightarrow> bool" where
  "el_stopping n c \<longleftrightarrow> reachable (el_start n) el_step c \<and> el_quiet c \<and> LoopStop \<in> set (el_inserted (el_shared c))"

lemma stopping_reaches:
  "el_stopping n c \<Longrightarrow> reaches c c' \<Longrightarrow> el_threads c' = el_threads c \<Longrightarrow> el_inserted (el_shared c') = el_inserted (el_shared c) \<Longrightarrow> el_stopping n c'"
  by (auto simp: el_stopping_def el_quiet_def intro: reaches_reachable)

lemma stopping_ready:
  assumes "el_stopping n c" "lp_waiting (el_loop c)" "el_loop c \<noteq> LpStore" "el_loop c \<noteq> LpMove"
  shows "fd_ready (el_shared c)"
proof -
  have i: "el_looked c" "el_life c" "el_order c"
    using assms(1) ev_loop.reachable_inv by (auto simp: el_stopping_def el_inv_def)
  have "lp_batch (el_loop c) = []" "\<not> lp_ending (el_loop c)" using assms(2) by (cases "el_loop c"; simp)+
  with i(2,3) assms(1,2) have "LoopStop \<in> set (el_queuePending (el_shared c))" by (auto simp: el_life_def el_order_def el_stopping_def)
  then have "el_queuePending (el_shared c) \<noteq> []" by auto
  with i(1) \<open>\<not> lp_ending _\<close> assms(1,3,4) show ?thesis by (auto simp: el_looked_def el_stopping_def el_quiet_def)
qed

lemma stopping_check:
  assumes "el_stopping n c" "el_loop c = LpCheck"
  shows "\<exists>c'. closes c c'"
proof (cases "el_bRunning (el_shared c)")
  case False
  with stopped_closes assms(2) show ?thesis by blast
next
  case True
  let ?c = "c\<lparr>el_shared := el_shared c, el_loop := LpWait\<rparr>"
  have "el_loop_next PollWakeup c = Some ?c" using assms True by (intro loop_next) simp
  then have r: "reaches c ?c" by (rule reaches_step) simp
  have st: "el_stopping n ?c" by (rule stopping_reaches [OF assms(1) r]) simp_all
  have "fd_ready (el_shared ?c)" by (rule stopping_ready [OF st]) simp_all
  with run_round [of ?c] obtain c1 where c1: "reaches ?c c1" "el_loop c1 = LpCheck" "el_threads c1 = el_threads c"
    "el_queuePending (el_shared c1) = []" "el_inserted (el_shared c1) = el_inserted (el_shared c)" by auto
  from c1 have s1: "el_stopping n c1" by (intro stopping_reaches [OF st c1(1)]) simp_all
  then have "el_life c1" "el_order c1" using ev_loop.reachable_inv by (auto simp: el_stopping_def el_inv_def)
  with s1 c1 have "\<not> el_bRunning (el_shared c1)" by (auto simp: el_life_def el_order_def el_stopping_def)
  from stopped_closes [OF c1(2) this] obtain c' where "closes c1 c'" by blast
  from closes_trans [OF reaches_trans [OF r c1(1)] c1(3,5) this] show ?thesis by blast
qed

lemma stopping_run:
  assumes "el_stopping n c" "el_loop c = LpRun ts"
  shows "\<exists>c'. closes c c'"
proof -
  from run_batch [OF assms(2)] obtain c1 where c1: "reaches c c1" "el_loop c1 = LpCheck" "el_threads c1 = el_threads c"
    "el_inserted (el_shared c1) = el_inserted (el_shared c)" by blast
  from stopping_check [OF stopping_reaches [OF assms(1) c1(1,3,4)] c1(2)] closes_trans [OF c1(1,3,4)] show ?thesis by blast
qed

text \<open>A step of the loop that queues nothing.\<close>

lemma closes_step:
  assumes "el_stopping n c" "eventIOLoop_threadRun PollWakeup (el_shared c) (el_loop c) = Some (s, pc)"
    "el_inserted s = el_inserted (el_shared c)" "el_stopping n (c\<lparr>el_shared := s, el_loop := pc\<rparr>) \<Longrightarrow> \<exists>c'. closes (c\<lparr>el_shared := s, el_loop := pc\<rparr>) c'"
  shows "\<exists>c'. closes c c'"
proof -
  let ?c = "c\<lparr>el_shared := s, el_loop := pc\<rparr>"
  have r: "reaches c ?c" by (rule reaches_step [OF loop_next [OF assms(2)]]) simp
  have "el_stopping n ?c" by (rule stopping_reaches [OF assms(1) r]) (use assms(3) in simp_all)
  with assms(4) closes_trans [OF r] assms(3) show ?thesis by fastforce
qed

lemma stopping_move: "el_stopping n c \<Longrightarrow> el_loop c = LpMove \<Longrightarrow> \<exists>c'. closes c c'"
  by (rule closes_step [where pc = "LpRun (el_queuePending (el_shared c))" and s = "el_shared c\<lparr>el_queuePending := []\<rparr>"])
    (use stopping_run in force)+

lemma stopping_store: "el_stopping n c \<Longrightarrow> el_loop c = LpStore \<Longrightarrow> \<exists>c'. closes c c'"
  by (rule closes_step [where pc = LpMove and s = "el_shared c\<lparr>el_bNotified := False\<rparr>"]) (use stopping_move in force)+

lemma stopping_read:
  assumes "el_stopping n c" "el_loop c = LpRead"
  shows "\<exists>c'. closes c c'"
proof -
  have "fd_ready (el_shared c)" by (rule stopping_ready [OF assms(1)]) (use assms(2) in simp_all)
  then obtain m where "el_hWakeupFd (el_shared c) = Some m" "0 < m" by (auto simp: fd_ready_def split: option.splits)
  with assms(2) have "eventIOLoop_threadRun PollWakeup (el_shared c) (el_loop c) = Some (el_shared c\<lparr>el_hWakeupFd := Some 0\<rparr>, LpStore)"
    by simp
  from closes_step [OF assms(1) this] stopping_store show ?thesis by simp
qed

text \<open>C25: Once a stop has been queued and no thread is inside \<open>eventIOLoop_queueInLoop\<close>, the thread of the loop by itself runs to
  its end, unless it is there already: in finitely many steps it has run or cancelled every function that was queued, in
  order, and closed its eventfd.
\<close>

theorem loop_stop_ends:
  assumes "reachable (el_start n) el_step c" "el_quiet c" "LoopStop \<in> set (el_inserted (el_shared c))"
    "el_loop c \<notin> {LpClearNotify, LpClearClose, LpClosed}"
  shows "\<exists>m c'. el_loop_run m c = c' \<and> el_loop c' = LpClosed \<and> el_hWakeupFd (el_shared c') = None \<and>
    map fst (el_done (el_shared c')) = el_inserted (el_shared c)"
proof -
  have st: "el_stopping n c" using assms by (simp add: el_stopping_def)
  have "\<exists>c'. closes c c'"
  proof (cases "el_loop c")
    case LpWait
    have "fd_ready (el_shared c)" by (rule stopping_ready [OF st]) (use LpWait in simp_all)
    then obtain m where "el_hWakeupFd (el_shared c) = Some m" "0 < m" by (auto simp: fd_ready_def split: option.splits)
    with LpWait have "eventIOLoop_threadRun PollWakeup (el_shared c) (el_loop c) = Some (el_shared c, LpRead)" by simp
    from closes_step [OF st this] stopping_read show ?thesis by simp
  next
    case LpClear
    with run_clear show ?thesis by (auto simp: closes_def)
  qed (use st assms(4) stopping_check stopping_run stopping_move stopping_store stopping_read in auto)
  then obtain c' where c': "closes c c'" by blast
  with assms(1) have "reachable (el_start n) el_step c'" by (auto simp: closes_def intro: reaches_reachable)
  then have "el_life c'" "el_order c'" using ev_loop.reachable_inv by (auto simp: el_inv_def)
  with c' show ?thesis by (auto simp: closes_def reaches_def el_life_def el_order_def)
qed

section \<open>Functions that come too late\<close>

text \<open>A schedule of the threads.\<close>

datatype el_turn = Other nat el_action | Loop

fun el_exec :: "el_state \<Rightarrow> el_turn list \<Rightarrow> el_state option" where
  "el_exec c [] = Some c"
| "el_exec c (Other i a # ts) = (case el_thread_next i a c of None \<Rightarrow> None | Some c \<Rightarrow> el_exec c ts)"
| "el_exec c (Loop # ts) = (case el_loop_next PollWakeup c of None \<Rightarrow> None | Some c \<Rightarrow> el_exec c ts)"

definition el_first :: "nat \<Rightarrow> el_state" where
  "el_first n = \<lparr>el_shared = el_created, el_loop = LpCheck, el_threads = replicate n ElIdle\<rparr>"

lemma el_exec_reachable: "reachable (el_start n) el_step c \<Longrightarrow> el_exec c ts = Some c' \<Longrightarrow> reachable (el_start n) el_step c'"
proof (induction c ts rule: el_exec.induct)
  case (2 c i a ts)
  then show ?case by (auto split: option.splits simp: el_step_def intro: reach_step)
next
  case (3 c ts)
  then show ?case by (auto split: option.splits simp: el_step_def intro: reach_step)
qed simp

lemma first_reachable: "reachable (el_start n) el_step (el_first n)"
  by (rule reach_init) (simp add: el_start_def el_first_def)

definition stop_turns :: "el_turn list" where
  "stop_turns = Other 0 ElStop # replicate 4 (Other 0 ElContinue)"

text \<open>The loop has emptied its queue for the last time.\<close>

definition cleared :: "el_state \<Rightarrow> bool" where
  "cleared c \<longleftrightarrow> el_loop c \<in> {LpClearNotify, LpClearClose, LpClosed}"

lemma cleared_step:
  assumes "el_step c c'" "cleared c"
  shows "cleared c' \<and> el_done (el_shared c') = el_done (el_shared c)"
proof (cases "\<exists>poll. el_loop_next poll c = Some c'")
  case True
  then show ?thesis using assms(2) by (auto simp: el_loop_next_def cleared_def split: prod.splits)
next
  case False
  then obtain i a where "el_thread_next i a c = Some c'" using assms(1) by (auto simp: el_step_def)
  then obtain s pc where "el_move a (el_shared c) (el_threads c ! i) = Some (s, pc)"
    "c' = c\<lparr>el_shared := s, el_threads := (el_threads c)[i := pc]\<rparr>"
    by (auto simp: el_thread_next_def split: if_splits)
  moreover from this have "el_done s = el_done (el_shared c)"
    by (cases "el_threads c ! i"; cases a) (auto simp: el_move_def eventIO_stop_def split: if_splits)
  ultimately show ?thesis using assms(2) by (simp add: cleared_def)
qed

lemma cleared_forever:
  "reachable (\<lambda>x. x = c) el_step c' \<Longrightarrow> cleared c \<Longrightarrow> el_done (el_shared c') = el_done (el_shared c) \<and> cleared c'"
  by (induction rule: reachable.induct) (auto dest: cleared_step)

text \<open>C39: When the loop has cleared its queue after a stop, a thread can still queue a function, which is accepted like any
  other; nothing is run or cancelled from then on, whatever happens later, so what the function owns is lost.
\<close>

theorem late_function_is_lost:
  assumes "cleared c" "i < length (el_threads c)" "el_threads c ! i = ElIdle"
  shows "\<exists>c1. reachable (\<lambda>x. x = c) el_step c1 \<and> el_inserted (el_shared c1) = el_inserted (el_shared c) @ [LoopTask m] \<and>
    (\<forall>c2. reachable (\<lambda>x. x = c1) el_step c2 \<longrightarrow> el_done (el_shared c2) = el_done (el_shared c))"
proof -
  let ?c0 = "c\<lparr>el_threads := (el_threads c)[i := ElInsert (LoopTask m)]\<rparr>"
  have 0: "el_thread_next i (ElQueue m) c = Some ?c0" using assms(2,3) by (simp add: el_thread_next_def el_move_def)
  obtain c1 where 1: "el_thread_next i ElContinue ?c0 = Some c1" "el_inserted (el_shared c1) = el_inserted (el_shared c) @ [LoopTask m]"
    using assms(2) by (simp add: el_thread_next_def el_move_def)
  have r: "reachable (\<lambda>x. x = c) el_step c" by (rule reach_init) simp
  have "el_step c ?c0" "el_step ?c0 c1" using 0 1 unfolding el_step_def by blast+
  then have r1: "reachable (\<lambda>x. x = c) el_step c1" using r reach_step by metis
  have d: "cleared c1" "el_done (el_shared c1) = el_done (el_shared c)" using cleared_forever [OF r1 assms(1)] by simp_all
  have "el_done (el_shared c2) = el_done (el_shared c)" if "reachable (\<lambda>x. x = c1) el_step c2" for c2
    using cleared_forever [OF that d(1)] d(2) by simp
  with r1 1(2) show ?thesis by blast
qed

theorem loop_no_lost_wakeup_witness:
  "\<exists>c. reachable (el_start 1) el_step c \<and> el_inserted (el_shared c) = [LoopTask 7] \<and> map fst (el_done (el_shared c)) = [LoopTask 7]"
proof -
  have "case el_exec (el_first 1) (Other 0 (ElQueue 7) # replicate 4 (Other 0 ElContinue) @ replicate 8 Loop) of None \<Rightarrow> False
    | Some c \<Rightarrow> el_loop c = LpWait \<and> el_threads c = [ElIdle] \<and> el_hWakeupFd (el_shared c) = Some 0 \<and>
        el_inserted (el_shared c) = [LoopTask 7]" by code_simp
  then obtain c where c: "el_exec (el_first 1) (Other 0 (ElQueue 7) # replicate 4 (Other 0 ElContinue) @ replicate 8 Loop) = Some c"
    "el_loop c = LpWait" "el_quiet c" "\<not> fd_ready (el_shared c)" "el_inserted (el_shared c) = [LoopTask 7]"
    by (auto split: option.splits simp: el_quiet_def fd_ready_def)
  have r: "reachable (el_start 1) el_step c" by (rule el_exec_reachable [OF first_reachable c(1)])
  from loop_no_lost_wakeup [OF r] c r show ?thesis by metis
qed

theorem loop_stop_ends_witness:
  "\<exists>c m c'. reachable (el_start 1) el_step c \<and> el_loop_run m c = c' \<and> el_loop c' = LpClosed \<and>
     map fst (el_done (el_shared c')) = [LoopStop]"
proof -
  have "case el_exec (el_first 1) stop_turns of None \<Rightarrow> False
    | Some c \<Rightarrow> el_loop c = LpCheck \<and> el_threads c = [ElIdle] \<and> el_inserted (el_shared c) = [LoopStop]" by code_simp
  then obtain c where c: "el_exec (el_first 1) stop_turns = Some c" "el_loop c = LpCheck" "el_quiet c"
    "el_inserted (el_shared c) = [LoopStop]"
    by (auto split: option.splits simp: el_quiet_def)
  have r: "reachable (el_start 1) el_step c" by (rule el_exec_reachable [OF first_reachable c(1)])
  from loop_stop_ends [OF r c(3)] c obtain m c' where "el_loop_run m c = c'" "el_loop c' = LpClosed"
    "map fst (el_done (el_shared c')) = [LoopStop]" by auto
  with r show ?thesis by (intro exI [of _ c] exI [of _ m] exI [of _ c'] conjI)
qed

theorem late_function_is_lost_witness:
  "\<exists>c c1. reachable (el_start 1) el_step c \<and> reachable (\<lambda>x. x = c) el_step c1 \<and> el_inserted (el_shared c1) = [LoopStop, LoopTask 7] \<and>
     (\<forall>c2. reachable (\<lambda>x. x = c1) el_step c2 \<longrightarrow> map fst (el_done (el_shared c2)) = [LoopStop])"
proof -
  have "case el_exec (el_first 1) (stop_turns @ replicate 9 Loop) of None \<Rightarrow> False
    | Some c \<Rightarrow> cleared c \<and> el_threads c = [ElIdle] \<and> el_inserted (el_shared c) = [LoopStop] \<and>
        map fst (el_done (el_shared c)) = [LoopStop]" by code_simp
  then obtain c where c: "el_exec (el_first 1) (stop_turns @ replicate 9 Loop) = Some c" "cleared c" "el_threads c = [ElIdle]"
    "el_inserted (el_shared c) = [LoopStop]" "map fst (el_done (el_shared c)) = [LoopStop]"
    by (auto split: option.splits)
  have r: "reachable (el_start 1) el_step c" by (rule el_exec_reachable [OF first_reachable c(1)])
  from late_function_is_lost [OF c(2), of 0 7] c(3,4) obtain c1 where "reachable (\<lambda>x. x = c) el_step c1"
    "el_inserted (el_shared c1) = [LoopStop, LoopTask 7]"
    "\<forall>c2. reachable (\<lambda>x. x = c1) el_step c2 \<longrightarrow> el_done (el_shared c2) = el_done (el_shared c)" by auto
  with r c(5) show ?thesis by metis
qed

end
