(* ===== verification/EventIO.thy ===== *)
theory EventIO
  imports EventLoop "HOL-Library.Multiset"
begin

text \<open>
  What the loops of one \<open>eventIO\<close> share (\<open>eventIO_t.c\<close>, \<open>eventIO-inl.h\<close>): the queue of \<open>eventIO_postQueued\<close>, with an
  eventfd that all loops poll, so that one of them takes the whole queue, and the choice of the loop for a connection.
\<close>

section \<open>The shared queue\<close>

text \<open>Functions are numbered; \<open>ei_done\<close> lists what ran, as work or as cancellation.  \<open>ei_drained\<close> and \<open>ei_late\<close> record that
  \<open>eventIO_dispatch\<close> has taken the queue for the last time and what was inserted after that.\<close>

record event_io =
  ei_queuedEvent :: "nat list"
  ei_hQueuedEvent :: nat
  ei_bLoopRunning :: bool
  ei_posted :: "nat list"
  ei_done :: "(nat \<times> bool) list"
  ei_drained :: bool
  ei_late :: "nat list"

text \<open>A thread in \<open>eventIO_postQueued\<close>, before the insertion or the write.  A loop with its \<open>bRunning\<close>: before the poller; told of
  the eventfd, in \<open>eventIOLoop_queuedEvent\<close> before the read and in \<open>eventIO_doEvents\<close> before the move and with its batch;
  and when it has left.  The thread of \<open>eventIO_dispatch\<close>: while loops are there, before it moves the queue, with what it cancels, and
  returned.\<close>

datatype ei_pc =
    EiIdle | EiInsert nat | EiWrite
  | EiLoop bool | EiRead bool | EiMove bool | EiRun bool "nat list" | EiLeft
  | EiDispatch | EiDrain | EiCancel "nat list" | EiReturned

fun eventIO_postQueued :: "event_io \<Rightarrow> nat \<Rightarrow> event_io \<times> ei_pc" where
  "eventIO_postQueued s f =
     (let s = s\<lparr>ei_posted := ei_posted s @ [f]\<rparr> in
      if ei_bLoopRunning s then (s, EiInsert f) else (s\<lparr>ei_done := ei_done s @ [(f, False)]\<rparr>, EiIdle))"

fun eventIO_insertQueued :: "event_io \<Rightarrow> ei_pc \<Rightarrow> (event_io \<times> ei_pc) option" where
  "eventIO_insertQueued s (EiInsert f) =
     Some (s\<lparr>ei_queuedEvent := ei_queuedEvent s @ [f], ei_late := (if ei_drained s then ei_late s @ [f] else ei_late s)\<rparr>, EiWrite)"
| "eventIO_insertQueued s EiWrite = Some (s\<lparr>ei_hQueuedEvent := ei_hQueuedEvent s + 1\<rparr>, EiIdle)"
| "eventIO_insertQueued s _ = None"

fun eventIO_doEvents :: "event_io \<Rightarrow> ei_pc \<Rightarrow> (event_io \<times> ei_pc) option" where
  "eventIO_doEvents s (EiRead b) =
     Some (if ei_hQueuedEvent s > 0 then (s\<lparr>ei_hQueuedEvent := 0\<rparr>, EiMove b) else (s, EiLoop b))"
| "eventIO_doEvents s (EiMove b) = Some (s\<lparr>ei_queuedEvent := []\<rparr>, EiRun b (ei_queuedEvent s))"
| "eventIO_doEvents s (EiRun b []) = Some (s, EiLoop b)"
| "eventIO_doEvents s (EiRun b (f # fs)) = Some (s\<lparr>ei_done := ei_done s @ [(f, ei_bLoopRunning s)]\<rparr>, EiRun b fs)"
| "eventIO_doEvents s _ = None"

text \<open>The end of \<open>eventIO_dispatch\<close>; \<open>over\<close>: every loop has left, the condition on which \<open>eventIO_loopStop\<close> lets the thread go on.\<close>

fun eventIO_dispatch :: "bool \<Rightarrow> event_io \<Rightarrow> ei_pc \<Rightarrow> (event_io \<times> ei_pc) option" where
  "eventIO_dispatch over s EiDispatch = (if over then Some (s, EiDrain) else None)"
| "eventIO_dispatch over s EiDrain = Some (s\<lparr>ei_queuedEvent := [], ei_drained := True\<rparr>, EiCancel (ei_queuedEvent s))"
| "eventIO_dispatch over s (EiCancel (f # fs)) = Some (s\<lparr>ei_done := ei_done s @ [(f, False)]\<rparr>, EiCancel fs)"
| "eventIO_dispatch over s (EiCancel []) = Some (s, EiReturned)"
| "eventIO_dispatch over s _ = None"

text \<open>An idle thread posts a function or stops \<open>eventIO\<close>.  A loop at its poller is told that the eventfd is readable, which
  every loop may see before one reads it; runs the stop that \<open>eventIO_stop\<close> queued to it; fails in \<open>poller_wait\<close>, which ends
  it; or tests \<open>bRunning\<close>.\<close>

datatype ei_action = EiPost nat | EiStop | EiPolled | EiStopped | EiFailed | EiContinue

definition ei_move :: "bool \<Rightarrow> ei_action \<Rightarrow> event_io \<Rightarrow> ei_pc \<Rightarrow> (event_io \<times> ei_pc) option" where
  "ei_move over a s pc =
     (case a of
        EiContinue \<Rightarrow>
          (case pc of
             EiLoop b \<Rightarrow> if b then None else Some (s, EiLeft)
           | _ \<Rightarrow>
               (case eventIO_insertQueued s pc of
                  Some r \<Rightarrow> Some r
                | None \<Rightarrow> (case eventIO_doEvents s pc of Some r \<Rightarrow> Some r | None \<Rightarrow> eventIO_dispatch over s pc)))
      | EiPost f \<Rightarrow> if pc = EiIdle then Some (eventIO_postQueued s f) else None
      | EiStop \<Rightarrow> if pc = EiIdle then Some (s\<lparr>ei_bLoopRunning := False\<rparr>, EiIdle) else None
      | EiPolled \<Rightarrow> (case pc of EiLoop b \<Rightarrow> if ei_hQueuedEvent s > 0 then Some (s, EiRead b) else None | _ \<Rightarrow> None)
      | EiStopped \<Rightarrow> (case pc of EiLoop b \<Rightarrow> if ei_bLoopRunning s then None else Some (s, EiLoop False) | _ \<Rightarrow> None)
      | EiFailed \<Rightarrow> (case pc of EiLoop b \<Rightarrow> Some (s, EiLeft) | _ \<Rightarrow> None))"

record ei_state =
  ei_shared :: event_io
  ei_threads :: "ei_pc list"

fun ei_looping :: "ei_pc \<Rightarrow> bool" where
  "ei_looping (EiLoop b) = True" | "ei_looping (EiRead b) = True" | "ei_looping (EiMove b) = True" | "ei_looping (EiRun b fs) = True"
| "ei_looping _ = False"

definition ei_over :: "ei_state \<Rightarrow> bool" where
  "ei_over c \<longleftrightarrow> (\<forall>p \<in> set (ei_threads c). \<not> ei_looping p)"

definition ei_next :: "nat \<Rightarrow> ei_action \<Rightarrow> ei_state \<Rightarrow> ei_state option" where
  "ei_next i a c =
     (if i < length (ei_threads c)
      then map_option (\<lambda>(s, pc). c\<lparr>ei_shared := s, ei_threads := (ei_threads c)[i := pc]\<rparr>)
        (ei_move (ei_over c) a (ei_shared c) (ei_threads c ! i))
      else None)"

definition ei_step :: "ei_state \<Rightarrow> ei_state \<Rightarrow> bool" where
  "ei_step c c' \<longleftrightarrow> (\<exists>i a. ei_next i a c = Some c')"

text \<open>\<open>n\<close> threads that post, \<open>m\<close> loops, and the one in \<open>eventIO_dispatch\<close>.\<close>

definition ei_first :: "nat \<Rightarrow> nat \<Rightarrow> ei_state" where
  "ei_first n m = \<lparr>ei_shared = \<lparr>ei_queuedEvent = [], ei_hQueuedEvent = 0, ei_bLoopRunning = True, ei_posted = [], ei_done = [],
       ei_drained = False, ei_late = []\<rparr>,
     ei_threads = replicate n EiIdle @ replicate m (EiLoop True) @ [EiDispatch]\<rparr>"

text \<open>What a thread holds that is neither in the queue nor done.\<close>

fun ei_hands :: "ei_pc \<Rightarrow> nat multiset" where
  "ei_hands (EiInsert f) = {#f#}" | "ei_hands (EiRun b fs) = mset fs" | "ei_hands (EiCancel fs) = mset fs" | "ei_hands _ = {#}"

definition ei_wakes :: "ei_state \<Rightarrow> bool" where
  "ei_wakes c \<longleftrightarrow> (ei_queuedEvent (ei_shared c) \<noteq> [] \<and> ei_hQueuedEvent (ei_shared c) = 0 \<longrightarrow>
     EiWrite \<in> set (ei_threads c) \<or> EiMove True \<in> set (ei_threads c) \<or> EiMove False \<in> set (ei_threads c))"

definition ei_counts :: "ei_state \<Rightarrow> bool" where
  "ei_counts c \<longleftrightarrow> mset (ei_posted (ei_shared c)) = mset (map fst (ei_done (ei_shared c))) + mset (ei_queuedEvent (ei_shared c)) +
     sum_list (map ei_hands (ei_threads c))"

definition ei_draining :: "ei_pc \<Rightarrow> bool" where
  "ei_draining p \<longleftrightarrow> p \<in> {EiDispatch, EiDrain}"

definition ei_ends :: "ei_state \<Rightarrow> bool" where
  "ei_ends c \<longleftrightarrow> length (filter ei_draining (ei_threads c)) = of_bool (\<not> ei_drained (ei_shared c)) \<and>
     (ei_drained (ei_shared c) \<longrightarrow> ei_over c \<and> ei_queuedEvent (ei_shared c) = ei_late (ei_shared c)) \<and>
     (\<not> ei_drained (ei_shared c) \<longrightarrow> ei_late (ei_shared c) = []) \<and>
     (EiDrain \<in> set (ei_threads c) \<longrightarrow> ei_over c)"

definition ei_inv :: "ei_state \<Rightarrow> bool" where
  "ei_inv c \<longleftrightarrow> ei_wakes c \<and> ei_counts c \<and> ei_ends c"

lemma hands_update:
  "i < length ps \<Longrightarrow> sum_list (map ei_hands (ps[i := p])) + ei_hands (ps ! i) = sum_list (map ei_hands ps) + ei_hands p"
proof (induction ps arbitrary: i)
  case (Cons q ps)
  then show ?case by (cases i) (simp_all add: ac_simps)
qed simp

lemma count_update:
  "i < length ps \<Longrightarrow> length (filter P (ps[i := p])) + of_bool (P (ps ! i)) = length (filter P ps) + of_bool (P p)"
proof (induction ps arbitrary: i)
  case (Cons q ps)
  then show ?case by (cases i) auto
qed simp

text \<open>What a thread does that is inside one of the functions.\<close>

inductive ei_does :: "bool \<Rightarrow> event_io \<Rightarrow> ei_pc \<Rightarrow> event_io \<Rightarrow> ei_pc \<Rightarrow> bool" for over s where
  does_post: "ei_bLoopRunning s \<Longrightarrow> ei_does over s EiIdle (s\<lparr>ei_posted := ei_posted s @ [f]\<rparr>) (EiInsert f)"
| does_refuse: "\<not> ei_bLoopRunning s \<Longrightarrow>
    ei_does over s EiIdle (s\<lparr>ei_posted := ei_posted s @ [f], ei_done := ei_done s @ [(f, False)]\<rparr>) EiIdle"
| does_stop: "ei_does over s EiIdle (s\<lparr>ei_bLoopRunning := False\<rparr>) EiIdle"
| does_insert: "ei_does over s (EiInsert f) (s\<lparr>ei_queuedEvent := ei_queuedEvent s @ [f],
    ei_late := (if ei_drained s then ei_late s @ [f] else ei_late s)\<rparr>) EiWrite"
| does_write: "ei_does over s EiWrite (s\<lparr>ei_hQueuedEvent := Suc (ei_hQueuedEvent s)\<rparr>) EiIdle"
| does_loop: "p \<in> {EiLoop b, EiRead b} \<Longrightarrow> pc \<in> {EiLoop b, EiLoop False, EiRead b, EiLeft} \<Longrightarrow> ei_does over s p s pc"
| does_read: "ei_does over s (EiRead b) (s\<lparr>ei_hQueuedEvent := 0\<rparr>) (EiMove b)"
| does_move: "ei_does over s (EiMove b) (s\<lparr>ei_queuedEvent := []\<rparr>) (EiRun b (ei_queuedEvent s))"
| does_batch: "ei_does over s (EiRun b []) s (EiLoop b)"
| does_run: "ei_does over s (EiRun b (f # fs)) (s\<lparr>ei_done := ei_done s @ [(f, ei_bLoopRunning s)]\<rparr>) (EiRun b fs)"
| does_dispatch: "over \<Longrightarrow> ei_does over s EiDispatch s EiDrain"
| does_drain: "ei_does over s EiDrain (s\<lparr>ei_queuedEvent := [], ei_drained := True\<rparr>) (EiCancel (ei_queuedEvent s))"
| does_cancel: "ei_does over s (EiCancel (f # fs)) (s\<lparr>ei_done := ei_done s @ [(f, False)]\<rparr>) (EiCancel fs)"
| does_return: "ei_does over s (EiCancel []) s EiReturned"

lemma insert_does: "eventIO_insertQueued s p = Some (s', pc) \<Longrightarrow> ei_does over s p s' pc"
  by (cases p) (auto intro: does_insert does_write)

lemma events_does: "eventIO_doEvents s p = Some (s', pc) \<Longrightarrow> ei_does over s p s' pc"
proof (cases p)
  case (EiRun b fs)
  assume "eventIO_doEvents s p = Some (s', pc)"
  with EiRun show ?thesis by (cases fs) (auto intro: does_batch does_run)
qed (auto split: if_splits intro: does_loop does_read does_move)

lemma dispatch_does: "eventIO_dispatch over s p = Some (s', pc) \<Longrightarrow> ei_does over s p s' pc"
proof (cases p)
  case (EiCancel fs)
  assume "eventIO_dispatch over s p = Some (s', pc)"
  with EiCancel show ?thesis by (cases fs) (auto intro: does_cancel does_return)
qed (auto split: if_splits intro: does_dispatch does_drain)

lemma ei_move_does:
  assumes "ei_move over a s p = Some (s', pc)"
  shows "ei_does over s p s' pc"
proof (cases a)
  case EiContinue
  show ?thesis
  proof (cases "\<exists>b. p = EiLoop b")
    case True
    with assms EiContinue show ?thesis by (auto simp: ei_move_def split: if_splits intro: does_loop)
  next
    case False
    with assms EiContinue have "eventIO_insertQueued s p = Some (s', pc) \<or> eventIO_doEvents s p = Some (s', pc) \<or>
        eventIO_dispatch over s p = Some (s', pc)"
      by (auto simp: ei_move_def split: ei_pc.splits option.splits)
    with insert_does events_does dispatch_does show ?thesis by blast
  qed
qed (use assms in \<open>auto simp: ei_move_def Let_def split: if_splits ei_pc.splits intro: does_post does_refuse does_stop does_loop\<close>)

lemma ei_step_inv:
  assumes "ei_inv c" "ei_step c c'"
  shows "ei_inv c'"
proof -
  from assms(2) obtain i a s pc where i: "i < length (ei_threads c)" and
    m: "ei_move (ei_over c) a (ei_shared c) (ei_threads c ! i) = Some (s, pc)"
    and c': "c' = c\<lparr>ei_shared := s, ei_threads := (ei_threads c)[i := pc]\<rparr>"
    by (auto simp: ei_step_def ei_next_def split: if_splits)
  let ?p = "ei_threads c ! i"
  let ?s = "ei_shared c"
  let ?ts = "(ei_threads c)[i := pc]"
  from m have d: "ei_does (ei_over c) ?s ?p s pc" by (rule ei_move_does)
  have p: "?p \<in> set (ei_threads c)" using i by simp
  note keep = threads_keep [OF i, of _ pc]
  have new: "pc \<in> set ?ts" by (rule threads_new [OF i])
  have wakes: "ei_wakes c" and counts: "ei_counts c" and ends: "ei_ends c" using assms(1) by (simp_all add: ei_inv_def)
  have over: "ei_over c'" if "ei_over c"
  proof -
    have "\<not> ei_looping pc" using d that p by (cases rule: ei_does.cases) (auto simp: ei_over_def)
    with that show ?thesis by (auto simp: ei_over_def c' dest!: set_update_subset_insert [THEN subsetD])
  qed
  have no_drain: "\<not> ei_drained ?s" if "ei_draining ?p"
    using that ends p by (auto simp: ei_ends_def filter_empty_conv split: if_splits)
  have looping: "\<not> ei_drained ?s" if "ei_looping ?p"
    using that ends p by (auto simp: ei_ends_def ei_over_def)
  have "ei_wakes c'"
    using d
  proof (cases rule: ei_does.cases)
    case (does_read b)
    with new show ?thesis by (cases b) (auto simp: ei_wakes_def c')
  qed (use wakes new keep [of EiWrite] keep [of "EiMove True"] keep [of "EiMove False"] in \<open>auto simp: ei_wakes_def c'\<close>)
  moreover have "mset (ei_posted s) + ei_hands ?p + mset (map fst (ei_done ?s)) + mset (ei_queuedEvent ?s) =
      mset (ei_posted ?s) + ei_hands pc + mset (map fst (ei_done s)) + mset (ei_queuedEvent s)"
    using d by (cases rule: ei_does.cases) auto
  with counts hands_update [OF i, of pc] have "ei_counts c'"
    unfolding ei_counts_def c' by simp (smt (verit) add.assoc add.commute add_right_imp_eq)
  moreover have "ei_ends c'"
  proof -
    have f: "length (filter ei_draining ?ts) + of_bool (ei_draining ?p) = of_bool (\<not> ei_drained ?s) + of_bool (ei_draining pc)"
      using count_update [OF i, of ei_draining pc] ends by (simp add: ei_ends_def)
    have dr: "EiDrain \<in> set ?ts \<Longrightarrow> EiDrain \<in> set (ei_threads c) \<or> pc = EiDrain"
      by (auto dest!: set_update_subset_insert [THEN subsetD])
    have same: "ei_ends c'" if "ei_drained s = ei_drained ?s" "ei_queuedEvent s = ei_queuedEvent ?s" "ei_late s = ei_late ?s"
      "\<not> ei_draining ?p" "\<not> ei_draining pc"
      using that f ends over dr by (auto simp: ei_ends_def c' ei_draining_def)
    show ?thesis
      using d
    proof (cases rule: ei_does.cases)
      case does_dispatch
      then show ?thesis using f ends over dr by (auto simp: ei_ends_def c' ei_draining_def)
    next
      case does_drain
      with no_drain have "\<not> ei_drained ?s" by (simp add: ei_draining_def)
      with does_drain show ?thesis using f ends over dr p by (auto simp: ei_ends_def c' ei_draining_def)
    next
      case (does_loop b)
      then show ?thesis using f ends over dr by (auto simp: ei_ends_def c' ei_draining_def)
    next
      case (does_insert g)
      then show ?thesis using f ends over dr by (auto simp: ei_ends_def c' ei_draining_def)
    next
      case (does_move b)
      then show ?thesis using f ends over dr looping by (auto simp: ei_ends_def c' ei_draining_def)
    qed (use same in \<open>simp_all add: ei_draining_def\<close>)
  qed
  ultimately show ?thesis by (simp add: ei_inv_def)
qed

text \<open>No thread is inside a function, no loop has something to read or to leave for, and \<open>eventIO_dispatch\<close> has returned or waits for a
  loop.\<close>

definition ei_quiet :: "ei_state \<Rightarrow> bool" where
  "ei_quiet c \<longleftrightarrow> (\<forall>p \<in> set (ei_threads c). p \<in> {EiIdle, EiLoop True, EiLeft, EiDispatch, EiReturned}) \<and>
     (EiLoop True \<in> set (ei_threads c) \<longrightarrow> ei_hQueuedEvent (ei_shared c) = 0) \<and>
     (EiDispatch \<in> set (ei_threads c) \<longrightarrow> EiLoop True \<in> set (ei_threads c))"

definition ei_delivers :: "ei_state \<Rightarrow> bool" where
  "ei_delivers c \<longleftrightarrow> mset (map fst (ei_done (ei_shared c))) \<subseteq># mset (ei_posted (ei_shared c)) \<and>
     (EiLoop True \<in> set (ei_threads c) \<longrightarrow> ei_late (ei_shared c) = []) \<and>
     (ei_quiet c \<longrightarrow> mset (ei_posted (ei_shared c)) = mset (map fst (ei_done (ei_shared c))) + mset (ei_late (ei_shared c)))"

lemma quiet_hands: "\<forall>p \<in> set ps. p \<in> {EiIdle, EiLoop True, EiLeft, EiDispatch, EiReturned} \<Longrightarrow> sum_list (map ei_hands ps) = {#}"
proof (induction ps)
  case (Cons p ps)
  then have "ei_hands p = {#}" by (cases p) simp_all
  with Cons show ?case by simp
qed simp

lemma ei_inv_delivers:
  assumes "ei_inv c"
  shows "ei_delivers c"
proof -
  have wakes: "ei_wakes c" and counts: "ei_counts c" and ends: "ei_ends c" using assms by (simp_all add: ei_inv_def)
  have alive: "\<not> ei_drained (ei_shared c)" if "EiLoop True \<in> set (ei_threads c)"
    using that ends by (auto simp: ei_ends_def ei_over_def)
  have "ei_queuedEvent (ei_shared c) = ei_late (ei_shared c)" if q: "ei_quiet c"
  proof (cases "EiLoop True \<in> set (ei_threads c)")
    case True
    with q wakes have "ei_queuedEvent (ei_shared c) = []" by (auto simp: ei_quiet_def ei_wakes_def)
    with alive [OF True] ends show ?thesis by (simp add: ei_ends_def)
  next
    case False
    with q have "\<forall>p \<in> set (ei_threads c). \<not> ei_draining p" by (auto simp: ei_quiet_def ei_draining_def)
    then have "filter ei_draining (ei_threads c) = []" by (simp add: filter_empty_conv)
    with ends show ?thesis by (auto simp: ei_ends_def)
  qed
  with counts alive ends quiet_hands [of "ei_threads c"] show ?thesis
    by (auto simp: ei_delivers_def ei_counts_def ei_ends_def ei_quiet_def union_assoc)
qed

interpretation ev_posted: step_invariant "\<lambda>c. c = ei_first n m" ei_step ei_inv ei_delivers
proof
  show "ei_inv c" if "c = ei_first n m" for c
  proof -
    have "sum_list (map ei_hands (ei_threads c)) = {#}"
      by (rule quiet_hands) (use that in \<open>auto simp: ei_first_def\<close>)
    then show ?thesis using that by (auto simp: ei_inv_def ei_wakes_def ei_counts_def ei_ends_def ei_first_def ei_draining_def)
  qed
  show "ei_inv c \<Longrightarrow> ei_step c c' \<Longrightarrow> ei_inv c'" for c c' by (rule ei_step_inv)
  show "ei_inv c \<Longrightarrow> ei_delivers c" for c by (rule ei_inv_delivers)
qed

text \<open>C8: Whatever threads post while several loops poll the one eventfd, fail, or leave after a stop, each posted function is run
  or cancelled at most once; and when no thread is at work, each was exactly once, by a loop or by the end of \<open>eventIO_dispatch\<close>, except
  those that a thread inserted after \<open>eventIO_dispatch\<close> had taken the queue for the last time, which stay in it.  While a
  loop polls there are none of these.  This is what the watcher of a service relies on.
\<close>

theorem postQueued_once:
  assumes "reachable (\<lambda>c. c = ei_first n m) ei_step c"
  shows "mset (map fst (ei_done (ei_shared c))) \<subseteq># mset (ei_posted (ei_shared c)) \<and>
    (EiLoop True \<in> set (ei_threads c) \<longrightarrow> ei_late (ei_shared c) = []) \<and>
    (ei_quiet c \<longrightarrow> mset (ei_posted (ei_shared c)) = mset (map fst (ei_done (ei_shared c))) + mset (ei_late (ei_shared c)))"
  using ev_posted.always [OF assms] unfolding ei_delivers_def .

section \<open>The loop of a connection\<close>

text \<open>\<open>eventIO_connectionLoop\<close>: the counts of the loops, the number of threads; the index and the counts afterwards.\<close>

fun least_loop :: "int list \<Rightarrow> nat \<Rightarrow> nat \<Rightarrow> nat \<Rightarrow> int \<Rightarrow> nat" where
  "least_loop cs 0 i uiIndex iCount = uiIndex"
| "least_loop cs (Suc k) i uiIndex iCount =
     (if cs ! i < iCount then least_loop cs k (i + 1) i (cs ! i) else least_loop cs k (i + 1) uiIndex iCount)"

definition eventIO_connectionLoop :: "nat \<Rightarrow> int list \<Rightarrow> (nat \<times> int list) option" where
  "eventIO_connectionLoop uiCocurrentThreads cs =
     (if cs = [] \<or> length cs < uiCocurrentThreads then None
      else let uiIndex = (if uiCocurrentThreads = 0 then 0 else least_loop cs (uiCocurrentThreads - 1) 1 0 (cs ! 0))
        in Some (uiIndex, cs[uiIndex := cs ! uiIndex + 1]))"

lemma least_loop_least:
  "i + k \<le> length cs \<Longrightarrow> uiIndex < i \<Longrightarrow> iCount = cs ! uiIndex \<Longrightarrow> \<forall>j < i. iCount \<le> cs ! j \<and> (j < uiIndex \<longrightarrow> iCount < cs ! j) \<Longrightarrow>
   (let m = least_loop cs k i uiIndex iCount in m < i + k \<and> (\<forall>j < i + k. cs ! m \<le> cs ! j \<and> (j < m \<longrightarrow> cs ! m < cs ! j)))"
proof (induction k arbitrary: i uiIndex iCount)
  case 0
  then show ?case by (simp add: Let_def)
next
  case (Suc k)
  show ?case
  proof (cases "cs ! i < iCount")
    case True
    have "\<forall>j < i + 1. cs ! i \<le> cs ! j \<and> (j < i \<longrightarrow> cs ! i < cs ! j)"
      using Suc.prems(4) True by (auto simp: less_Suc_eq intro: less_le_trans less_imp_le)
    with Suc.IH [of "i + 1" i "cs ! i"] Suc.prems True show ?thesis by simp
  next
    case False
    have "\<forall>j < i + 1. iCount \<le> cs ! j \<and> (j < uiIndex \<longrightarrow> iCount < cs ! j)"
      using Suc.prems(2,4) False by (auto simp: less_Suc_eq)
    with Suc.IH [of "i + 1" uiIndex iCount] Suc.prems False show ?thesis by simp
  qed
qed

text \<open>A new connection goes to the first of the loops that have the fewest connections.
\<close>

theorem connectionLoop_least:
  assumes "0 < n" "n \<le> length cs"
  shows "\<exists>m. eventIO_connectionLoop n cs = Some (m, cs[m := cs ! m + 1]) \<and> m < n \<and>
    (\<forall>j < n. cs ! m \<le> cs ! j \<and> (j < m \<longrightarrow> cs ! m < cs ! j))"
proof -
  have "(let m = least_loop cs (n - 1) 1 0 (cs ! 0) in m < 1 + (n - 1) \<and>
      (\<forall>j < 1 + (n - 1). cs ! m \<le> cs ! j \<and> (j < m \<longrightarrow> cs ! m < cs ! j)))"
    by (rule least_loop_least) (use assms in auto)
  with assms show ?thesis by (auto simp: eventIO_connectionLoop_def Let_def)
qed

section \<open>An example\<close>

fun ei_exec :: "ei_state \<Rightarrow> (nat \<times> ei_action) list \<Rightarrow> ei_state option" where
  "ei_exec c [] = Some c"
| "ei_exec c ((i, a) # ts) = (case ei_next i a c of None \<Rightarrow> None | Some c \<Rightarrow> ei_exec c ts)"

lemma ei_exec_reachable: "reachable S ei_step c \<Longrightarrow> ei_exec c ts = Some c' \<Longrightarrow> reachable S ei_step c'"
proof (induction c ts rule: ei_exec.induct)
  case (2 c i a ts)
  then show ?case by (auto split: option.splits simp: ei_step_def intro: reach_step)
qed simp

text \<open>Two loops are told of the same write and one finds the eventfd empty.  Later one thread stops while another, which has found
  \<open>eventIO\<close> running, is about to insert: the loops leave, the queue is taken for the last time, and then it inserts.\<close>

definition ei_turns :: "(nat \<times> ei_action) list" where
  "ei_turns = [(0, EiPost 7), (0, EiContinue), (0, EiContinue), (2, EiPolled), (3, EiPolled), (2, EiContinue), (3, EiContinue),
     (2, EiContinue), (2, EiContinue), (2, EiContinue)]"

definition ei_late_turns :: "(nat \<times> ei_action) list" where
  "ei_late_turns = [(0, EiPost 8), (1, EiStop), (2, EiStopped), (2, EiContinue), (3, EiStopped), (3, EiContinue), (4, EiContinue),
     (4, EiContinue), (4, EiContinue), (0, EiContinue), (0, EiContinue)]"

lemma ei_first_reachable: "reachable (\<lambda>c. c = ei_first n m) ei_step (ei_first n m)"
  by (rule reach_init) simp

theorem postQueued_once_witness:
  "\<exists>c. reachable (\<lambda>c. c = ei_first 2 2) ei_step c \<and> ei_posted (ei_shared c) = [7] \<and> mset (map fst (ei_done (ei_shared c))) = {#7#}"
proof -
  have "case ei_exec (ei_first 2 2) ei_turns of None \<Rightarrow> False
    | Some c \<Rightarrow> ei_threads c = [EiIdle, EiIdle, EiLoop True, EiLoop True, EiDispatch] \<and> ei_hQueuedEvent (ei_shared c) = 0 \<and>
        ei_posted (ei_shared c) = [7]"
    by code_simp
  then obtain c where c: "ei_exec (ei_first 2 2) ei_turns = Some c" "ei_quiet c" "EiLoop True \<in> set (ei_threads c)" "ei_posted (ei_shared c) = [7]"
    by (auto split: option.splits simp: ei_quiet_def)
  from ei_exec_reachable [OF ei_first_reachable c(1)] have r: "reachable (\<lambda>c. c = ei_first 2 2) ei_step c" .
  from postQueued_once [OF r] c r show ?thesis by (intro exI [of _ c]) simp
qed

text \<open>The function that came too late: every thread is through, and it is in the queue for good.\<close>

lemma posted_late_is_lost:
  "\<exists>c. reachable (\<lambda>c. c = ei_first 2 2) ei_step c \<and> ei_threads c = [EiIdle, EiIdle, EiLeft, EiLeft, EiReturned] \<and>
     ei_posted (ei_shared c) = [8] \<and> ei_done (ei_shared c) = [] \<and> ei_queuedEvent (ei_shared c) = [8]"
proof -
  have "case ei_exec (ei_first 2 2) ei_late_turns of None \<Rightarrow> False
    | Some c \<Rightarrow> ei_threads c = [EiIdle, EiIdle, EiLeft, EiLeft, EiReturned] \<and> ei_posted (ei_shared c) = [8] \<and>
        ei_done (ei_shared c) = [] \<and> ei_queuedEvent (ei_shared c) = [8]"
    by code_simp
  then obtain c where c: "ei_exec (ei_first 2 2) ei_late_turns = Some c" "ei_threads c = [EiIdle, EiIdle, EiLeft, EiLeft, EiReturned]"
    "ei_posted (ei_shared c) = [8]" "ei_done (ei_shared c) = []" "ei_queuedEvent (ei_shared c) = [8]" by (auto split: option.splits)
  from ei_exec_reachable [OF ei_first_reachable c(1)] c show ?thesis by blast
qed

theorem connectionLoop_least_witness:
  "eventIO_connectionLoop 3 [4, 2, 2] = Some (1, [4, 3, 2])"
proof -
  from connectionLoop_least [of 3 "[4, 2, 2]"] obtain m where m: "eventIO_connectionLoop 3 [4, 2, 2] = Some (m, [4, 2, 2][m := [4, 2, 2] ! m + 1])"
    "m < 3" "\<forall>j < 3. [4, 2, 2::int] ! m \<le> [4, 2, 2] ! j \<and> (j < m \<longrightarrow> [4, 2, 2::int] ! m < [4, 2, 2] ! j)" by auto
  from m(2) consider "m = 0" | "m = 1" | "m = 2" by linarith
  then show ?thesis
  proof cases
    case 1
    with m(3) [rule_format, of 1] show ?thesis by simp
  next
    case 2
    with m(1) show ?thesis by simp
  next
    case 3
    with m(3) [rule_format, of 1] show ?thesis by simp
  qed
qed

end
