(* ===== verification/MysqlStream.thy ===== *)
theory MysqlStream
  imports Transport
begin

text \<open>
  The stream of MySQL packets, \<open>service/source/stream/mysqlStream_t.c\<close>: a packet is three bytes of length, the least
  significant first, a sequence number and the payload; longer messages are cut into packets of
  \<open>MAX_MYSQL_PAYLOAD\<close> bytes.  There is no receive function: a channel hands the bytes to the service as they are.
\<close>

section \<open>Encoding\<close>

record mysqlStream =
  ms_uiSeqid :: u8
  ms_iRefCount :: int

definition MAX_MYSQL_PAYLOAD :: nat where
  "MAX_MYSQL_PAYLOAD = 2 ^ 24 - 1"

text \<open>The length is not used.\<close>

definition mysql_encodeBufCount :: "nat \<Rightarrow> nat" where
  "mysql_encodeBufCount nLength = ((MAX_MYSQL_PAYLOAD - 1) + 0xfffe) div MAX_MYSQL_PAYLOAD"

definition mysql_encodeVecBufCount :: "bytes list \<Rightarrow> nat" where
  "mysql_encodeVecBufCount pInBufVec = (sum_list (map length pInBufVec) + (MAX_MYSQL_PAYLOAD - 1)) div MAX_MYSQL_PAYLOAD"

definition mysql_fill_head :: "block \<Rightarrow> nat \<Rightarrow> u8 \<Rightarrow> block option" where
  "mysql_fill_head pPackBuffer nPackLength uiSeqid =
     mem_store pPackBuffer 0 [Some (of_nat nPackLength), Some (of_nat (nPackLength div 2 ^ 8)),
       Some (of_nat (nPackLength div 2 ^ 16)), Some uiSeqid]"

text \<open>One packet with the first \<open>nPackLength\<close> bytes of \<open>pBuffer\<close>; the source has no other offset, for any fragment.\<close>

definition mysql_packet :: "bytes \<Rightarrow> nat \<Rightarrow> u8 \<Rightarrow> (block \<times> nat) option" where
  "mysql_packet pBuffer nPackLength uiSeqid = do {
     b \<leftarrow> mysql_fill_head (mem_malloc (4 + nPackLength)) nPackLength uiSeqid;
     xs \<leftarrow> mem_load (map Some pBuffer) 0 nPackLength;
     b \<leftarrow> mem_store b 4 xs;
     Some (b, 4 + nPackLength) }"

definition mysql_fragment :: "bytes \<Rightarrow> nat \<Rightarrow> u8 \<Rightarrow> nat \<Rightarrow> nat \<Rightarrow> nat \<Rightarrow> (block \<times> nat) option" where
  "mysql_fragment pBuffer nLength uiSeqid nOutBufVec iFragmentCount j = do {
     guard (j < nOutBufVec);
     mysql_packet pBuffer (if j = iFragmentCount - 1 then nLength - j * MAX_MYSQL_PAYLOAD else MAX_MYSQL_PAYLOAD) (uiSeqid + of_nat j) }"

text \<open>\<open>pOutBufVec\<close> has \<open>nOutBufVec\<close> entries.  The sum that gives the number of fragments is one of \<open>int\<close>s.\<close>

definition mysql_encode :: "bytes \<Rightarrow> int \<Rightarrow> u8 \<Rightarrow> nat \<Rightarrow> (block \<times> nat) list option" where
  "mysql_encode pBuffer iLength uiSeqid nOutBufVec = do {
     guard (0 < iLength \<and> nat iLength \<le> length pBuffer \<and> iLength + (int MAX_MYSQL_PAYLOAD - 1) < 2 ^ 31);
     let nLength = nat iLength;
     let iFragmentCount = (nLength + (MAX_MYSQL_PAYLOAD - 1)) div MAX_MYSQL_PAYLOAD;
     if iFragmentCount = 1 then do {
       guard (0 < nOutBufVec);
       f \<leftarrow> mysql_packet pBuffer nLength uiSeqid;
       Some [f] }
     else tp_fragments (mysql_fragment pBuffer nLength uiSeqid nOutBufVec iFragmentCount) [0..<iFragmentCount] }"

text \<open>A vector: the loop that gathers a fragment is, statement by statement, the one of \<open>tpack_t.c\<close>.  The product that gives the length of the last
  fragment is one of \<open>int\<close>s.\<close>

definition mysql_vec_fragment ::
  "nat \<Rightarrow> u8 \<Rightarrow> nat \<Rightarrow> nat \<Rightarrow> bytes list \<times> nat \<Rightarrow> nat \<Rightarrow> ((block \<times> nat) \<times> bytes list \<times> nat) option" where
  "mysql_vec_fragment nLength uiSeqid nOutBufVec iFragmentCount src j =
     (let nPackLength = (if j = iFragmentCount - 1 then nLength - j * MAX_MYSQL_PAYLOAD else MAX_MYSQL_PAYLOAD)
      in do {
        guard (j = iFragmentCount - 1 \<longrightarrow> j * MAX_MYSQL_PAYLOAD < 2 ^ 31);
        b \<leftarrow> mysql_fill_head (mem_malloc (4 + nPackLength)) nPackLength (uiSeqid + of_nat j);
        guard (j < nOutBufVec);
        (b, src) \<leftarrow> tp_gather (fst src) (snd src) b 4 (4 + nPackLength);
        Some ((b, 4 + nPackLength), src) })"

definition mysql_encodeVec :: "bytes list \<Rightarrow> u8 \<Rightarrow> nat \<Rightarrow> (block \<times> nat) list option" where
  "mysql_encodeVec pInBufVec uiSeqid nOutBufVec =
     (let nLength = sum_list (map length pInBufVec);
          iFragmentCount = (nLength + (MAX_MYSQL_PAYLOAD - 1)) div MAX_MYSQL_PAYLOAD
      in if iFragmentCount = 1 then do {
           guard (0 < nOutBufVec);
           b \<leftarrow> mysql_fill_head (mem_malloc (4 + nLength)) nLength uiSeqid;
           b \<leftarrow> tp_copy_all pInBufVec b 4;
           Some [(b, 4 + nLength)] }
         else map_option fst (run_ops (mysql_vec_fragment nLength uiSeqid nOutBufVec iFragmentCount)
           (pInBufVec, 0) [0..<iFragmentCount]))"

section \<open>The stream\<close>

definition mysqlStreamCreate :: mysqlStream where
  "mysqlStreamCreate = \<lparr>ms_uiSeqid = 1, ms_iRefCount = 1\<rparr>"

definition mysqlStream_addref :: "mysqlStream \<Rightarrow> mysqlStream" where
  "mysqlStream_addref s = s\<lparr>ms_iRefCount := ms_iRefCount s + 1\<rparr>"

text \<open>\<open>None\<close>: the stream is freed.\<close>

definition mysqlStream_release :: "mysqlStream \<Rightarrow> mysqlStream option" where
  "mysqlStream_release s = (if ms_iRefCount s = 1 then None else Some (s\<lparr>ms_iRefCount := ms_iRefCount s - 1\<rparr>))"

definition mysqlStream_write ::
  "bool \<Rightarrow> sysret \<Rightarrow> mysqlStream \<Rightarrow> eventConnection \<Rightarrow> bytes \<Rightarrow> int \<Rightarrow> u32 \<Rightarrow> u32 \<Rightarrow> (int \<times> mysqlStream \<times> eventConnection) option" where
  "mysqlStream_write inLoop r s c pBuffer iLength uiFlag uiToken = do {
     let iBufCount = mysql_encodeBufCount (nat iLength);
     fs \<leftarrow> mysql_encode pBuffer iLength (ms_uiSeqid s) iBufCount;
     bufVec \<leftarrow> iov_bytes fs;
     (b, _) \<leftarrow> createEventBuf_move bufVec (int iBufCount) False 0;
     (x, c) \<leftarrow> eventConnection_send inLoop r b c;
     Some (x, s\<lparr>ms_uiSeqid := 0\<rparr>, c) }"

text \<open>The buffers of the caller are freed and its vector is emptied.  An array without entries is undefined.\<close>

definition mysqlStream_writeMove ::
  "bool \<Rightarrow> sysret \<Rightarrow> mysqlStream \<Rightarrow> eventConnection \<Rightarrow> bytes list \<Rightarrow> int \<Rightarrow> u32 \<Rightarrow> u32 \<Rightarrow>
     (int \<times> bytes list \<times> mysqlStream \<times> eventConnection) option" where
  "mysqlStream_writeMove inLoop r s c pInBufVec iCount uiFlag uiToken = do {
     guard (0 < iCount \<and> nat iCount \<le> length pInBufVec);
     let vec = take (nat iCount) pInBufVec;
     let iBufCount = mysql_encodeVecBufCount vec;
     guard (0 < iBufCount);
     fs \<leftarrow> mysql_encodeVec vec (ms_uiSeqid s) iBufCount;
     bufVec \<leftarrow> iov_bytes fs;
     (b, _) \<leftarrow> createEventBuf_move bufVec iCount False 0;
     (x, c) \<leftarrow> eventConnection_send inLoop r b c;
     Some (x, replicate (nat iCount) [] @ drop (nat iCount) pInBufVec, s\<lparr>ms_uiSeqid := 0\<rparr>, c) }"

section \<open>The format\<close>

definition mysql_wire :: "u8 \<Rightarrow> bytes \<Rightarrow> bytes" where
  "mysql_wire uiSeqid p = [of_nat (length p), of_nat (length p div 2 ^ 8), of_nat (length p div 2 ^ 16), uiSeqid] @ p"

text \<open>The reader of a packet.\<close>

definition mysql_parse :: "bytes \<Rightarrow> ((u8 \<times> bytes) \<times> bytes) option" where
  "mysql_parse bs =
     (case bs of
        b0 # b1 # b2 # seq # rest \<Rightarrow>
          (let n = unat b0 + unat b1 * 2 ^ 8 + unat b2 * 2 ^ 16 in
           if n \<le> length rest then Some ((seq, take n rest), drop n rest) else None)
      | _ \<Rightarrow> None)"

text \<open>The reader of a message, which ends with the first packet that is not of the maximal size; \<open>None\<close>: the end is not there yet.\<close>

lemma mysql_parse_shorter: "mysql_parse bs = Some (p, rest) \<Longrightarrow> length rest < length bs"
  by (auto simp: mysql_parse_def Let_def split: list.splits if_splits)

function mysql_message :: "bytes \<Rightarrow> ((u8 \<times> bytes) list \<times> bytes) option" where
  "mysql_message bs =
     (case mysql_parse bs of
        None \<Rightarrow> None
      | Some (p, rest) \<Rightarrow>
          if length (snd p) < MAX_MYSQL_PAYLOAD then Some ([p], rest)
          else map_option (\<lambda>(ps, rest). (p # ps, rest)) (mysql_message rest))"
  by pat_completeness auto
termination by (relation "measure length") (auto dest: mysql_parse_shorter)

declare mysql_message.simps [simp del]

lemma length_digits:
  fixes n :: nat
  assumes "n < 2 ^ 24"
  shows "unat (of_nat n :: u8) + unat (of_nat (n div 2 ^ 8) :: u8) * 2 ^ 8 + unat (of_nat (n div 2 ^ 16) :: u8) * 2 ^ 16 = n"
proof -
  have d: "n div 2 ^ 16 = n div 2 ^ 8 div 2 ^ 8" by (simp add: div_mult2_eq [symmetric])
  have "n div 2 ^ 16 < 2 ^ 8" using assms by simp
  then have m: "(n div 2 ^ 16) mod 2 ^ 8 = n div 2 ^ 16" by simp
  have "256 * (n div 256 mod 256) + 65536 * (n div 256 div 256) = 256 * (n div 256 mod 256 + 256 * (n div 256 div 256))"
    by (simp only: distrib_left mult.assoc [symmetric])
  also have "\<dots> = 256 * (n div 256)" by (simp only: mod_mult_div_eq)
  finally have "n mod 256 + (256 * (n div 256 mod 256) + 65536 * (n div 256 div 256)) = n" by (simp only: mod_mult_div_eq)
  with m show ?thesis unfolding unat_of_nat d by simp
qed

lemma mysql_parse_wire: "length p < 2 ^ 24 \<Longrightarrow> mysql_parse (mysql_wire uiSeqid p @ rest) = Some ((uiSeqid, p), rest)"
  using length_digits [of "length p"] by (simp add: mysql_parse_def mysql_wire_def)

lemma mysql_message_wires:
  assumes "\<forall>(q, p) \<in> set ps. length p = MAX_MYSQL_PAYLOAD"
  shows "mysql_message (concat (map (\<lambda>(q, p). mysql_wire q p) ps)) = None"
    and "length (snd l) < MAX_MYSQL_PAYLOAD \<Longrightarrow>
      mysql_message (concat (map (\<lambda>(q, p). mysql_wire q p) (ps @ [l])) @ rest) = Some (ps @ [l], rest)"
proof -
  have m: "length p \<le> MAX_MYSQL_PAYLOAD \<Longrightarrow> mysql_parse (mysql_wire q p @ rest) = Some ((q, p), rest)" for q p rest
    by (rule mysql_parse_wire) (simp add: MAX_MYSQL_PAYLOAD_def)
  show "mysql_message (concat (map (\<lambda>(q, p). mysql_wire q p) ps)) = None" using assms
  proof (induction ps)
    case Nil
    show ?case by (subst mysql_message.simps) (simp add: mysql_parse_def)
  next
    case (Cons x ps)
    then show ?case by (subst mysql_message.simps) (auto simp: m)
  qed
  assume "length (snd l) < MAX_MYSQL_PAYLOAD"
  then show "mysql_message (concat (map (\<lambda>(q, p). mysql_wire q p) (ps @ [l])) @ rest) = Some (ps @ [l], rest)" using assms
  proof (induction ps)
    case Nil
    then show ?case by (subst mysql_message.simps) (auto simp: m split: prod.splits)
  next
    case (Cons x ps)
    then show ?case by (subst mysql_message.simps) (auto simp: m)
  qed
qed

section \<open>What is encoded\<close>

text \<open>The fragments of a message.\<close>

definition mysql_chunk :: "bytes \<Rightarrow> nat \<Rightarrow> bytes" where
  "mysql_chunk p j = take MAX_MYSQL_PAYLOAD (drop (j * MAX_MYSQL_PAYLOAD) p)"

definition mysql_count :: "nat \<Rightarrow> nat" where
  "mysql_count n = (n + (MAX_MYSQL_PAYLOAD - 1)) div MAX_MYSQL_PAYLOAD"

lemma MAX_pos [simp]: "0 < MAX_MYSQL_PAYLOAD" "MAX_MYSQL_PAYLOAD \<noteq> 0" "MAX_MYSQL_PAYLOAD < 2 ^ 24"
  by (simp_all add: MAX_MYSQL_PAYLOAD_def)

lemma MAX_Suc: "\<exists>m. MAX_MYSQL_PAYLOAD = Suc m"
  using MAX_pos(1) gr0_implies_Suc by blast

lemma count_within: "j < mysql_count n \<Longrightarrow> j * MAX_MYSQL_PAYLOAD < n"
proof -
  assume "j < mysql_count n"
  then have "(j + 1) * MAX_MYSQL_PAYLOAD \<le> n + (MAX_MYSQL_PAYLOAD - 1)"
    unfolding mysql_count_def by (metis Suc_eq_plus1 Suc_leI less_eq_div_iff_mult_less_eq MAX_pos(1))
  then show ?thesis using MAX_Suc by (auto simp: algebra_simps)
qed

lemma count_covers: "n \<le> mysql_count n * MAX_MYSQL_PAYLOAD"
proof -
  have "n + (MAX_MYSQL_PAYLOAD - 1) < (mysql_count n + 1) * MAX_MYSQL_PAYLOAD"
    unfolding mysql_count_def by (metis Suc_eq_plus1 add.commute dividend_less_div_times mult_Suc MAX_pos(1))
  then show ?thesis using MAX_Suc by (auto simp: algebra_simps)
qed

lemma count_one: "0 < n \<Longrightarrow> mysql_count n = 1 \<longleftrightarrow> n \<le> MAX_MYSQL_PAYLOAD"
  using count_covers [of n] count_within [of 1 n] count_within [of 0 n]
  by (cases "mysql_count n = 0"; cases "mysql_count n = 1") auto

lemma chunk_length:
  assumes "j < mysql_count (length p)"
  shows "(if j = mysql_count (length p) - 1 then length p - j * MAX_MYSQL_PAYLOAD else MAX_MYSQL_PAYLOAD) = length (mysql_chunk p j)"
proof (cases "j = mysql_count (length p) - 1")
  case True
  then have "mysql_count (length p) = j + 1" using assms by simp
  with count_covers [of "length p"] have "length p \<le> (j + 1) * MAX_MYSQL_PAYLOAD" by simp
  then show ?thesis using True by (simp add: mysql_chunk_def)
next
  case False
  then have "(j + 1) * MAX_MYSQL_PAYLOAD < length p" using count_within [of "j + 1" "length p"] assms by simp
  then show ?thesis using False by (simp add: mysql_chunk_def)
qed

lemma chunks_concat: "concat (map (mysql_chunk p) [0..<k]) = take (k * MAX_MYSQL_PAYLOAD) p"
  by (induction k) (simp_all add: mysql_chunk_def take_add [symmetric] add.commute)

lemma chunks_all: "concat (map (mysql_chunk p) [0..<mysql_count (length p)]) = p"
  using count_covers [of "length p"] by (simp add: chunks_concat)

lemma fill_head_wire:
  "mysql_fill_head (mem_malloc (4 + n)) n q = Some (map Some [of_nat n, of_nat (n div 2 ^ 8), of_nat (n div 2 ^ 16), q] @ replicate n None)"
proof -
  have "mem_malloc (4 + n) = [None, None, None, None] @ replicate n None"
    unfolding mem_malloc_def replicate_add by (simp add: numeral_eq_Suc)
  then show ?thesis by (simp add: mysql_fill_head_def mem_store_def)
qed

text \<open>A packet of a contiguous buffer, and of a vector.\<close>

abbreviation wire_block :: "bytes \<Rightarrow> block \<times> nat" where
  "wire_block w \<equiv> (map Some w, length w)"

lemma packet_wire:
  "n \<le> length p \<Longrightarrow> mysql_packet p n q = Some (wire_block (mysql_wire q (take n p)))"
  by (simp add: mysql_packet_def fill_head_wire mem_load_def mem_store_def mysql_wire_def take_map)

lemma vec_fragment_wire:
  assumes "tp_source bufs (drop (j * MAX_MYSQL_PAYLOAD) p) src" "j < mysql_count (length p)" "j < k" "mysql_count (length p) \<le> 129"
  shows "\<exists>src'. mysql_vec_fragment (length p) q k (mysql_count (length p)) src j =
      Some (wire_block (mysql_wire (q + of_nat j) (mysql_chunk p j)), src') \<and>
    tp_source bufs (drop (Suc j * MAX_MYSQL_PAYLOAD) p) src'"
proof -
  let ?S = "drop (j * MAX_MYSQL_PAYLOAD) p" and ?c = "mysql_chunk p j"
  let ?h = "[of_nat (length ?c), of_nat (length ?c div 2 ^ 8), of_nat (length ?c div 2 ^ 16), q + of_nat j] :: bytes"
  have small: "j * MAX_MYSQL_PAYLOAD < 2 ^ 31" using assms(2,4) by (simp add: MAX_MYSQL_PAYLOAD_def)
  have S: "?S \<noteq> []" using count_within [OF assms(2)] by simp
  then have m: "0 < length ?c" by (simp add: mysql_chunk_def)
  have ne: "fst src \<noteq> []" using assms(1) S by (auto simp: tp_source_def split: prod.splits)
  have l: "length ?c \<le> length ?S" "take (length ?c) ?S = ?c" by (simp_all add: mysql_chunk_def min_def)
  have d: "drop (length ?c) ?S = drop (Suc j * MAX_MYSQL_PAYLOAD) p"
  proof (cases "MAX_MYSQL_PAYLOAD \<le> length ?S")
    case True
    then have "length ?c = MAX_MYSQL_PAYLOAD" by (simp add: mysql_chunk_def)
    then show ?thesis by (simp add: add.commute)
  next
    case False
    then have "length ?c = length ?S" "length p \<le> Suc j * MAX_MYSQL_PAYLOAD" by (simp_all add: mysql_chunk_def)
    then show ?thesis by simp
  qed
  have "tp_source bufs ?S (fst src, snd src)" "length ?h = 4" using assms(1) by simp_all
  from gather [OF this(1) ne this(2) l(1)] m l(2) d obtain src' where
    "tp_gather (fst src) (snd src) (map Some ?h @ replicate (length ?c) None) 4 (4 + length ?c) = Some (map Some (?h @ ?c), src')"
    "tp_source bufs (drop (Suc j * MAX_MYSQL_PAYLOAD) p) src'" by auto
  moreover have "guard (j = mysql_count (length p) - 1 \<longrightarrow> j * MAX_MYSQL_PAYLOAD < 2 ^ 31) = Some ()"
    using small by (auto simp: guard_def simp del: One_nat_def)
  ultimately show ?thesis using assms(3)
    unfolding mysql_vec_fragment_def chunk_length [OF assms(2)] Let_def fill_head_wire by (auto simp: mysql_wire_def)
qed

lemma vec_fragments_wire:
  assumes "tp_source bufs p src" "i \<le> mysql_count (length p)" "i \<le> k" and few: "mysql_count (length p) \<le> 129"
  shows "\<exists>src'. run_ops (mysql_vec_fragment (length p) q k (mysql_count (length p))) src [0..<i] =
      Some (map (\<lambda>j. wire_block (mysql_wire (q + of_nat j) (mysql_chunk p j))) [0..<i], src') \<and>
    tp_source bufs (drop (i * MAX_MYSQL_PAYLOAD) p) src'"
  using assms(2,3)
proof (induction i)
  case 0
  then show ?case using assms(1) by simp
next
  case (Suc i)
  then obtain src1 where s1: "run_ops (mysql_vec_fragment (length p) q k (mysql_count (length p))) src [0..<i] =
      Some (map (\<lambda>j. wire_block (mysql_wire (q + of_nat j) (mysql_chunk p j))) [0..<i], src1)"
    "tp_source bufs (drop (i * MAX_MYSQL_PAYLOAD) p) src1" by auto
  from vec_fragment_wire [OF s1(2) _ _ few, of k q] Suc.prems s1(1) show ?case by (auto simp: run_ops_append)
qed

definition mysql_wires :: "u8 \<Rightarrow> bytes \<Rightarrow> bytes list" where
  "mysql_wires q p = map (\<lambda>j. mysql_wire (q + of_nat j) (mysql_chunk p j)) [0..<mysql_count (length p)]"

lemma wires_one: "p \<noteq> [] \<Longrightarrow> length p \<le> MAX_MYSQL_PAYLOAD \<Longrightarrow> mysql_wires q p = [mysql_wire q p]"
  using count_one [of "length p"] by (simp add: mysql_wires_def mysql_chunk_def)

lemma encodeVec_wires:
  assumes "concat bufs \<noteq> []" "mysql_count (length (concat bufs)) \<le> k" "mysql_count (length (concat bufs)) \<le> 129"
  shows "mysql_encodeVec bufs q k = Some (map wire_block (mysql_wires q (concat bufs)))"
proof -
  let ?p = "concat bufs"
  have l: "sum_list (map length bufs) = length ?p" by (simp add: length_concat)
  show ?thesis
  proof (cases "mysql_count (length ?p) = 1")
    case True
    then have one: "mysql_wires q ?p = [mysql_wire q ?p]" using count_one [of "length ?p"] assms(1) by (simp add: wires_one)
    let ?h = "[of_nat (length ?p), of_nat (length ?p div 2 ^ 8), of_nat (length ?p div 2 ^ 16), q] :: bytes"
    have "tp_copy_all bufs (map Some ?h @ replicate (length ?p) None) 4 = Some (map Some (?h @ ?p))"
      by (rule copy_all) simp
    with True assms(2) one show ?thesis
      unfolding mysql_encodeVec_def l mysql_count_def [symmetric] Let_def fill_head_wire by (simp add: mysql_wire_def)
  next
    case False
    have "bufs \<noteq> []" using assms(1) by auto
    then have "tp_source bufs ?p (bufs, 0)" by (cases bufs) (simp_all add: tp_source_def)
    from vec_fragments_wire [OF this le_refl assms(2,3), of q] False show ?thesis
      unfolding mysql_encodeVec_def l mysql_count_def [symmetric] Let_def by (auto simp: mysql_wires_def comp_def)
  qed
qed

lemma encode_result:
  assumes "0 < n" "nat n \<le> length p" "n + (int MAX_MYSQL_PAYLOAD - 1) < 2 ^ 31"
  shows "mysql_encode p n q 1 =
    (if nat n \<le> MAX_MYSQL_PAYLOAD then Some [wire_block (mysql_wire q (take (nat n) p))] else None)"
proof -
  have n: "0 < nat n" using assms(1) by simp
  have e: "mysql_encode p n q 1 =
      (if mysql_count (nat n) = 1 then map_option (\<lambda>f. [f]) (mysql_packet p (nat n) q)
       else tp_fragments (mysql_fragment p (nat n) q 1 (mysql_count (nat n))) [0..<mysql_count (nat n)])"
    unfolding mysql_encode_def Let_def mysql_count_def [symmetric]
    using assms by (cases "mysql_packet p (nat n) q") simp_all
  show ?thesis
  proof (cases "nat n \<le> MAX_MYSQL_PAYLOAD")
    case True
    then show ?thesis unfolding e using count_one [OF n] packet_wire [OF assms(2)] by simp
  next
    case False
    then have "mysql_count (nat n) \<noteq> 1" "mysql_count (nat n) \<noteq> 0"
      using count_one [OF n] count_covers [of "nat n"] n by (auto intro!: gr0I)
    then have "1 \<in> set [0..<mysql_count (nat n)]" by auto
    from fragments_None [OF this] have "tp_fragments (mysql_fragment p (nat n) q 1 (mysql_count (nat n))) [0..<mysql_count (nat n)] = None"
      by (simp add: mysql_fragment_def)
    then show ?thesis using False \<open>mysql_count (nat n) \<noteq> 1\<close> unfolding e by simp
  qed
qed

lemma encodeBufCount_one: "mysql_encodeBufCount n = 1"
  by (simp add: mysql_encodeBufCount_def MAX_MYSQL_PAYLOAD_def)

lemma iov_wires: "iov_bytes (map wire_block ws) = Some ws"
  by simp

section \<open>The properties\<close>

lemma count_few: "mysql_count n \<le> 129 \<longleftrightarrow> n \<le> 129 * MAX_MYSQL_PAYLOAD"
  using count_covers [of n] count_within [of 129 n] mult_le_mono1 [of "mysql_count n" 129 MAX_MYSQL_PAYLOAD] by linarith

lemma last_full: "0 < r \<Longrightarrow> r \<le> K \<Longrightarrow> (a * K + r) mod K = 0 \<longleftrightarrow> r = K" for a r K :: nat
  by (cases "r = K") auto

text \<open>C26: A vector of buffers of up to 129 times \<open>MAX_MYSQL_PAYLOAD\<close> bytes is encoded as the packets of its message, as many as \<open>mysql_encodeVecBufCount\<close>
  says.  Unless its length is a multiple of \<open>MAX_MYSQL_PAYLOAD\<close>, the reader of the protocol, which reads until a packet that is not of this size, gets from them the pieces of
  the message, with consecutive sequence numbers, and together the bytes of the buffers, and leaves what follows.  If it is such a multiple, the packets lack the empty one at the
  end, and the reader goes on to wait.
\<close>

theorem mysql_encodeVec_readable:
  assumes "concat bufs \<noteq> []" "length (concat bufs) \<le> 129 * MAX_MYSQL_PAYLOAD"
  shows "\<exists>fs. mysql_encodeVec bufs uiSeqid (mysql_encodeVecBufCount bufs) = Some (map wire_block fs) \<and>
    length fs = mysql_encodeVecBufCount bufs \<and>
    (if length (concat bufs) mod MAX_MYSQL_PAYLOAD = 0 then mysql_message (concat fs) = None
     else \<exists>ps. (\<forall>rest. mysql_message (concat fs @ rest) = Some (ps, rest)) \<and>
       concat (map snd ps) = concat bufs \<and> map fst ps = map (\<lambda>j. uiSeqid + of_nat j) [0..<length fs])"
proof -
  let ?p = "concat bufs" and ?n = "mysql_count (length (concat bufs))"
  let ?ps = "map (\<lambda>j. (uiSeqid + of_nat j, mysql_chunk ?p j)) [0..<?n]"
  have c: "mysql_encodeVecBufCount bufs = ?n"
    by (simp add: mysql_encodeVecBufCount_def mysql_count_def length_concat)
  have n0: "0 < ?n" using count_covers [of "length ?p"] assms(1) by (cases "?n = 0") auto
  have w: "mysql_wires uiSeqid ?p = map (\<lambda>(q, p). mysql_wire q p) ?ps" by (simp add: mysql_wires_def)
  have s: "concat (map snd ?ps) = ?p" using chunks_all [of ?p] by (simp add: comp_def)
  have full: "length (mysql_chunk ?p j) = MAX_MYSQL_PAYLOAD" if "j < ?n - 1" for j
    using chunk_length [of j ?p] that by simp
  let ?l = "(uiSeqid + of_nat (?n - 1), mysql_chunk ?p (?n - 1))"
  let ?qs = "map (\<lambda>j. (uiSeqid + of_nat j, mysql_chunk ?p j)) [0..<?n - 1]"
  have qs: "?ps = ?qs @ [?l]" using n0 by (cases ?n) simp_all
  have fulls: "\<forall>(q, p) \<in> set ?qs. length p = MAX_MYSQL_PAYLOAD" using full by auto
  have last: "length (mysql_chunk ?p (?n - 1)) = length ?p - (?n - 1) * MAX_MYSQL_PAYLOAD" using chunk_length [of "?n - 1" ?p] n0 by simp
  have p: "length ?p = (?n - 1) * MAX_MYSQL_PAYLOAD + length (mysql_chunk ?p (?n - 1))"
    using last count_within [of "?n - 1" "length ?p"] n0 by simp
  have b: "length (mysql_chunk ?p (?n - 1)) \<le> MAX_MYSQL_PAYLOAD" "0 < length (mysql_chunk ?p (?n - 1))"
    using last count_within [of "?n - 1" "length ?p"] n0 by (simp_all add: mysql_chunk_def)
  have m: "length ?p mod MAX_MYSQL_PAYLOAD = 0 \<longleftrightarrow> length (mysql_chunk ?p (?n - 1)) = MAX_MYSQL_PAYLOAD"
    using last_full [OF b(2,1), of "?n - 1"] p by metis
  have e: "mysql_encodeVec bufs uiSeqid ?n = Some (map wire_block (mysql_wires uiSeqid ?p))"
    by (rule encodeVec_wires [OF assms(1) le_refl]) (use assms(2) count_few in blast)
  show ?thesis
  proof (cases "length ?p mod MAX_MYSQL_PAYLOAD = 0")
    case True
    then have "\<forall>(q, p) \<in> set ?ps. length p = MAX_MYSQL_PAYLOAD" using fulls m unfolding qs by auto
    from mysql_message_wires(1) [OF this] True e show ?thesis
      unfolding c by (intro exI [of _ "mysql_wires uiSeqid ?p"]) (simp add: w)
  next
    case False
    have "mysql_message (concat (map (\<lambda>(q, p). mysql_wire q p) ?ps) @ rest) = Some (?ps, rest)" for rest
      unfolding qs by (rule mysql_message_wires(2) [OF fulls]) (use False m b(1) in simp)
    with False e s show ?thesis
      unfolding c by (intro exI [of _ "mysql_wires uiSeqid ?p"]) (auto simp: w comp_def)
  qed
qed

text \<open>What the two write functions queue on a connected socket, for every length: a message of up to
  \<open>MAX_MYSQL_PAYLOAD\<close> bytes is one packet with the sequence number 1 in the first write and 0 in all later ones; a longer one is written behind
  the array of one entry that the stream made for its packets; and of a vector as many packets are queued as it has
  buffers, those that are missing being read from entries that were not set.
\<close>

theorem mysqlStream_sends:
  assumes "ec_iStatus c = eConnected"
    "0 < n" "nat n \<le> length p" "n + (int MAX_MYSQL_PAYLOAD - 1) < 2 ^ 31"
    "concat bufs \<noteq> []" "length bufs < 2 ^ 31" "length (concat bufs) \<le> 129 * MAX_MYSQL_PAYLOAD"
  shows "(nat n \<le> MAX_MYSQL_PAYLOAD \<longrightarrow> (\<exists>b. mysqlStream_write False r s c p n uiFlag uiToken =
        Some (0, s\<lparr>ms_uiSeqid := 0\<rparr>, (eventConnection_addref c)\<lparr>ec_async := ec_async c @ [AsyncSend b]\<rparr>) \<and>
        payload b = mysql_wire (ms_uiSeqid s) (take (nat n) p))) \<and>
    (MAX_MYSQL_PAYLOAD < nat n \<longrightarrow> mysqlStream_write False r s c p n uiFlag uiToken = None) \<and>
    (length bufs \<le> mysql_encodeVecBufCount bufs \<longrightarrow>
      (\<exists>b. mysqlStream_writeMove False r s c bufs (int (length bufs)) uiFlag uiToken =
        Some (0, replicate (length bufs) [], s\<lparr>ms_uiSeqid := 0\<rparr>,
          (eventConnection_addref c)\<lparr>ec_async := ec_async c @ [AsyncSend b]\<rparr>) \<and>
        payload b = concat (take (length bufs) (mysql_wires (ms_uiSeqid s) (concat bufs))))) \<and>
    (mysql_encodeVecBufCount bufs < length bufs \<longrightarrow>
      mysqlStream_writeMove False r s c bufs (int (length bufs)) uiFlag uiToken = None)"
proof -
  note q = queue_count [where r = r, OF _ _ assms(1)]
  have e: "mysqlStream_write False r s c p n uiFlag uiToken =
    (if nat n \<le> MAX_MYSQL_PAYLOAD then map_option (\<lambda>(x, c). (x, s\<lparr>ms_uiSeqid := 0\<rparr>, c))
       (Option.bind (map_option fst (createEventBuf_move [mysql_wire (ms_uiSeqid s) (take (nat n) p)] (int 1) False 0))
         (\<lambda>b. eventConnection_send False r b c)) else None)"
    using encode_result [OF assms(2-4)] iov_wires [of "[mysql_wire (ms_uiSeqid s) (take (nat n) p)]"]
    by (auto simp: mysqlStream_write_def encodeBufCount_one Let_def map_option_case split: option.splits)
  have w: "\<exists>b. mysqlStream_write False r s c p n uiFlag uiToken =
      Some (0, s\<lparr>ms_uiSeqid := 0\<rparr>, (eventConnection_addref c)\<lparr>ec_async := ec_async c @ [AsyncSend b]\<rparr>) \<and>
      payload b = mysql_wire (ms_uiSeqid s) (take (nat n) p)" if "nat n \<le> MAX_MYSQL_PAYLOAD"
    using q(2) [of 1 "[mysql_wire (ms_uiSeqid s) (take (nat n) p)]"] that by (auto simp: e)
  have b: "bufs \<noteq> []" using assms(5) by auto
  have k: "mysql_encodeVecBufCount bufs = mysql_count (length (concat bufs))"
    by (simp add: mysql_encodeVecBufCount_def mysql_count_def length_concat)
  have k0: "0 < mysql_encodeVecBufCount bufs" using count_covers [of "length (concat bufs)"] assms(5) k by (cases "mysql_encodeVecBufCount bufs") auto
  let ?ws = "mysql_wires (ms_uiSeqid s) (concat bufs)"
  have l: "length ?ws = mysql_encodeVecBufCount bufs" by (simp add: mysql_wires_def k)
  have v: "mysqlStream_writeMove False r s c bufs (int (length bufs)) uiFlag uiToken =
    map_option (\<lambda>(x, c). (x, replicate (length bufs) [], s\<lparr>ms_uiSeqid := 0\<rparr>, c))
      (Option.bind (map_option fst (createEventBuf_move ?ws (int (length bufs)) False 0)) (\<lambda>b. eventConnection_send False r b c))"
    using encodeVec_wires [OF assms(5), of "mysql_encodeVecBufCount bufs" "ms_uiSeqid s"] assms(7) count_few iov_wires [of ?ws] b k0
    by (auto simp: mysqlStream_writeMove_def k Let_def map_option_case split: option.splits)
  show ?thesis using w q [of "length bufs" ?ws] b assms(6) l unfolding v by (auto simp: e)
qed

section \<open>Examples\<close>

theorem mysql_encodeVec_readable_witness:
  "\<exists>fs ps. mysql_encodeVec [[3, 1], [], [7]] 1 1 = Some (map wire_block fs) \<and> mysql_message (concat fs @ [9]) = Some (ps, [9]) \<and>
     concat (map snd ps) = [3, 1, 7]"
proof -
  have k: "mysql_encodeVecBufCount [[3, 1], [], [7]] = 1"
    by (simp add: mysql_encodeVecBufCount_def MAX_MYSQL_PAYLOAD_def)
  have "length (concat [[3, 1], [], [7 :: u8]]) \<le> 129 * MAX_MYSQL_PAYLOAD" "length (concat [[3, 1], [], [7 :: u8]]) mod MAX_MYSQL_PAYLOAD \<noteq> 0"
    by (simp_all add: MAX_MYSQL_PAYLOAD_def)
  with mysql_encodeVec_readable [of "[[3, 1], [], [7]]" 1] k obtain fs ps where
    "mysql_encodeVec [[3, 1], [], [7]] 1 1 = Some (map wire_block fs)" "\<forall>rest. mysql_message (concat fs @ rest) = Some (ps, rest)"
    "concat (map snd ps) = concat [[3, 1], [], [7]]" by auto
  then show ?thesis by auto
qed

theorem mysqlStream_sends_witness:
  "(\<exists>b. mysqlStream_write False (None, 0) mysqlStreamCreate example_connection [3, 0x53] 2 0 0 =
     Some (0, mysqlStreamCreate\<lparr>ms_uiSeqid := 0\<rparr>, (eventConnection_addref example_connection)\<lparr>ec_async := [AsyncSend b]\<rparr>) \<and>
     payload b = [2, 0, 0, 1, 3, 0x53]) \<and>
   mysqlStream_writeMove False (None, 0) mysqlStreamCreate example_connection [[1], [2]] 2 0 0 = None \<and>
   mysqlStream_write False (None, 0) mysqlStreamCreate example_connection (replicate 16777216 0) 16777216 0 0 = None"
proof -
  have k: "mysql_encodeVecBufCount [[1], [2]] = 1" by (simp add: mysql_encodeVecBufCount_def MAX_MYSQL_PAYLOAD_def)
  have c: "ec_iStatus example_connection = eConnected" "ec_async example_connection = []"
    by (simp_all add: example_connection_def acceptEventConnection_def createEventConnection_def)
  have s: "ms_uiSeqid mysqlStreamCreate = 1" by (simp add: mysqlStreamCreate_def)
  have b: "concat [[1], [2]] \<noteq> ([] :: bytes)" by simp
  have few: "length (concat [[1], [2 :: u8]]) \<le> 129 * MAX_MYSQL_PAYLOAD" by (simp add: MAX_MYSQL_PAYLOAD_def)
  note m = mysqlStream_sends [OF c(1) _ _ _ b _ few, where s = mysqlStreamCreate and r = "(None, 0)" and uiFlag = 0 and uiToken = 0]
  from m [of 2 "[3, 0x53]"] k c s have 1: "(\<exists>b. mysqlStream_write False (None, 0) mysqlStreamCreate example_connection [3, 0x53] 2 0 0 =
     Some (0, mysqlStreamCreate\<lparr>ms_uiSeqid := 0\<rparr>, (eventConnection_addref example_connection)\<lparr>ec_async := [AsyncSend b]\<rparr>) \<and>
     payload b = [2, 0, 0, 1, 3, 0x53])" "mysqlStream_writeMove False (None, 0) mysqlStreamCreate example_connection [[1], [2]] 2 0 0 = None"
    by (simp_all add: MAX_MYSQL_PAYLOAD_def mysql_wire_def)
  have "length (replicate 16777216 0 :: bytes) = 16777216" by (rule length_replicate)
  with m [of 16777216 "replicate 16777216 0"]
  have "mysqlStream_write False (None, 0) mysqlStreamCreate example_connection (replicate 16777216 0) 16777216 0 0 = None"
    by (simp add: MAX_MYSQL_PAYLOAD_def)
  with 1 show ?thesis by blast
qed

end
