(* ===== verification/TimeSpan.thy ===== *)
theory TimeSpan
  imports Prelude
begin

text \<open>
  The arithmetic on times of \<open>core/include/time_t.h\<close>: seconds and nanoseconds in 32 bit signed integers.  A macro
  whose sum leaves the range of its type has no value (\<open>None\<close>); the results in milliseconds and nanoseconds are
  64 bit integers that no time of this type can exceed.
\<close>

record timespec =
  ts_iSec :: "32 word"
  ts_iNsec :: "32 word"

text \<open>A signed result of 32 bits, and the division of C, which cuts towards 0.\<close>

definition w32 :: "int \<Rightarrow> 32 word" where
  "w32 i = of_int i"

definition int32 :: "int \<Rightarrow> 32 word option" where
  "int32 i = (if - (2 ^ 31) \<le> i \<and> i < 2 ^ 31 then Some (w32 i) else None)"

definition c_div :: "int \<Rightarrow> int \<Rightarrow> int" where
  "c_div a b = (if a < 0 then - ((- a) div b) else a div b)"

definition timespec_cmp :: "timespec \<Rightarrow> timespec \<Rightarrow> (int \<Rightarrow> int \<Rightarrow> bool) \<Rightarrow> bool" where
  "timespec_cmp t u cmp =
     (if ts_iSec t = ts_iSec u then cmp (sint (ts_iNsec t)) (sint (ts_iNsec u)) else cmp (sint (ts_iSec t)) (sint (ts_iSec u)))"

definition timespec_add :: "timespec \<Rightarrow> timespec \<Rightarrow> timespec option" where
  "timespec_add t u = do {
     s \<leftarrow> int32 (sint (ts_iSec t) + sint (ts_iSec u));
     n \<leftarrow> int32 (sint (ts_iNsec t) + sint (ts_iNsec u));
     if sint n > 1000000000 then do {
       s \<leftarrow> int32 (sint s + 1);
       Some \<lparr>ts_iSec = s, ts_iNsec = w32 (sint n - 1000000000)\<rparr> }
     else Some \<lparr>ts_iSec = s, ts_iNsec = n\<rparr> }"

definition timespec_sub :: "timespec \<Rightarrow> timespec \<Rightarrow> timespec option" where
  "timespec_sub t u = do {
     s \<leftarrow> int32 (sint (ts_iSec t) - sint (ts_iSec u));
     n \<leftarrow> int32 (sint (ts_iNsec t) - sint (ts_iNsec u));
     if sint n < 0 then do {
       s \<leftarrow> int32 (sint s - 1);
       Some \<lparr>ts_iSec = s, ts_iNsec = w32 (sint n + 1000000000)\<rparr> }
     else Some \<lparr>ts_iSec = s, ts_iNsec = n\<rparr> }"

definition timespec_clear :: timespec where
  "timespec_clear = \<lparr>ts_iSec = 0, ts_iNsec = 0\<rparr>"

definition timespec_zero :: "timespec \<Rightarrow> bool" where
  "timespec_zero t \<longleftrightarrow> ts_iSec t = 0 \<and> ts_iNsec t = 0"

definition timespec_toMsec :: "timespec \<Rightarrow> int option" where
  "timespec_toMsec t = do {
     n \<leftarrow> int32 (sint (ts_iNsec t) + 999999);
     Some (sint (ts_iSec t) * 1000 + c_div (sint n) 1000000) }"

definition timespec_toNsec :: "timespec \<Rightarrow> int" where
  "timespec_toNsec t = sint (ts_iSec t) * 1000000000 + sint (ts_iNsec t)"

definition timespec_addToMs :: "timespec \<Rightarrow> timespec \<Rightarrow> int option" where
  "timespec_addToMs t u = do {
     n \<leftarrow> int32 (sint (ts_iNsec t) + sint (ts_iNsec u));
     n \<leftarrow> int32 (sint n + 999999);
     Some ((sint (ts_iSec t) + sint (ts_iSec u)) * 1000 + c_div (sint n) 1000000) }"

definition timespec_subToMs :: "timespec \<Rightarrow> timespec \<Rightarrow> int option" where
  "timespec_subToMs t u = do {
     n \<leftarrow> int32 (sint (ts_iNsec t) - sint (ts_iNsec u));
     n \<leftarrow> int32 (sint n + 999999);
     Some ((sint (ts_iSec t) - sint (ts_iSec u)) * 1000 + c_div (sint n) 1000000) }"

definition timespec_addToNs :: "timespec \<Rightarrow> timespec \<Rightarrow> int option" where
  "timespec_addToNs t u = do {
     n \<leftarrow> int32 (sint (ts_iNsec t) + sint (ts_iNsec u));
     Some ((sint (ts_iSec t) + sint (ts_iSec u)) * 1000000000 + sint n) }"

definition timespec_subToNs :: "timespec \<Rightarrow> timespec \<Rightarrow> int option" where
  "timespec_subToNs t u = do {
     n \<leftarrow> int32 (sint (ts_iNsec t) - sint (ts_iNsec u));
     Some ((sint (ts_iSec t) - sint (ts_iSec u)) * 1000000000 + sint n) }"

section \<open>What they compute\<close>

text \<open>A time as the clocks give it.\<close>

definition normal :: "timespec \<Rightarrow> bool" where
  "normal t \<longleftrightarrow> 0 \<le> sint (ts_iNsec t) \<and> sint (ts_iNsec t) < 1000000000"

lemma sint_w32 [simp]: "- (2 ^ 31) \<le> i \<Longrightarrow> i < 2 ^ 31 \<Longrightarrow> sint (w32 i) = i"
  by (simp add: w32_def signed_of_int signed_take_bit_int_eq_self)

lemma int32_bind: "Option.bind (int32 i) f = (if - (2 ^ 31) \<le> i \<and> i < 2 ^ 31 then f (w32 i) else None)"
  by (simp add: int32_def)

lemma sint32_bounds: "- (2 ^ 31) \<le> sint (x :: 32 word)" "sint (x :: 32 word) < 2 ^ 31"
  using sint_greater_eq [of x] sint_less [of x] by simp_all

lemma split_timespec:
  assumes "normal t"
  shows "\<exists>s m. t = \<lparr>ts_iSec = w32 s, ts_iNsec = w32 m\<rparr> \<and> - (2 ^ 31) \<le> s \<and> s < 2 ^ 31 \<and> 0 \<le> m \<and> m < 1000000000"
  using assms sint32_bounds [of "ts_iSec t"]
  by (intro exI [of _ "sint (ts_iSec t)"] exI [of _ "sint (ts_iNsec t)"]) (simp add: normal_def w32_def)

text \<open>Cutting towards 0 is one more than rounding down, below 0 and unless it divides.\<close>

lemma c_div_trunc: "0 < b \<Longrightarrow> a < 0 \<Longrightarrow> - ((- a) div b) = a div b + (if a mod b \<noteq> 0 then 1 else 0)" for a b :: int
  using zdiv_zminus1_eq_if [of b a] by simp

text \<open>The milliseconds of a number of nanoseconds, rounded up.\<close>

definition msec_up :: "int \<Rightarrow> int" where
  "msec_up n = - ((- n) div 1000000)"

lemma msec_up_shift: "msec_up n = (n + 999999) div 1000000"
proof -
  have "(n + 999999) div 1000000 * 1000000 + (n + 999999) mod 1000000 = n + 999999" by (rule div_mult_mod_eq)
  then have "- n = 1000000 * (- ((n + 999999) div 1000000)) + (999999 - (n + 999999) mod 1000000)" by linarith
  from int_div_pos_eq [OF this] show ?thesis by (simp add: msec_up_def)
qed

lemma msec_up_sec: "msec_up (s * 1000000000 + n) = s * 1000 + msec_up n"
proof -
  have "- (s * 1000000000 + n) = (- s * 1000) * 1000000 + - n" by simp
  then have "(- (s * 1000000000 + n)) div 1000000 = - s * 1000 + (- n) div 1000000"
    by (simp only: div_mult_self3 numeral_neq_zero)
  then show ?thesis by (simp add: msec_up_def)
qed

text \<open>For times as the clocks give them: the comparison is that of the nanoseconds; a sum or a difference that has a value
  is exact, and a difference is normal again, while a sum whose nanoseconds add up to one second exactly keeps
  \<open>iNsec = 1000000000\<close>; what was added can be subtracted again.
\<close>

theorem timespec_exact:
  assumes "normal t" "normal u"
  shows "(timespec_cmp t u (<) \<longleftrightarrow> timespec_toNsec t < timespec_toNsec u) \<and>
    (\<forall>v. timespec_add t u = Some v \<longrightarrow> timespec_toNsec v = timespec_toNsec t + timespec_toNsec u \<and>
       (normal v \<longleftrightarrow> sint (ts_iNsec t) + sint (ts_iNsec u) \<noteq> 1000000000) \<and> (\<forall>w. timespec_sub v u = Some w \<longrightarrow> w = t)) \<and>
    (\<forall>v. timespec_sub t u = Some v \<longrightarrow> timespec_toNsec v = timespec_toNsec t - timespec_toNsec u \<and> normal v)"
proof -
  obtain s m where t: "t = \<lparr>ts_iSec = w32 s, ts_iNsec = w32 m\<rparr>" "- (2 ^ 31) \<le> s" "s < 2 ^ 31" "0 \<le> m" "m < 1000000000"
    using split_timespec [OF assms(1)] by blast
  obtain s' m' where u: "u = \<lparr>ts_iSec = w32 s', ts_iNsec = w32 m'\<rparr>" "- (2 ^ 31) \<le> s'" "s' < 2 ^ 31" "0 \<le> m'" "m' < 1000000000"
    using split_timespec [OF assms(2)] by blast
  have eq: "w32 s = w32 s' \<longleftrightarrow> s = s'" using t u by (metis sint_w32)
  show ?thesis
  proof (intro conjI allI impI)
    show "timespec_cmp t u (<) \<longleftrightarrow> timespec_toNsec t < timespec_toNsec u"
      using t u eq by (auto simp: timespec_cmp_def timespec_toNsec_def)
  next
    fix v assume v: "timespec_add t u = Some v"
    then have b: "- (2 ^ 31) \<le> s + s'" "s + s' < 2 ^ 31" "m + m' > 1000000000 \<Longrightarrow> s + s' + 1 < 2 ^ 31"
      "v = (if m + m' > 1000000000 then \<lparr>ts_iSec = w32 (s + s' + 1), ts_iNsec = w32 (m + m' - 1000000000)\<rparr>
            else \<lparr>ts_iSec = w32 (s + s'), ts_iNsec = w32 (m + m')\<rparr>)"
      using t u by (auto simp: timespec_add_def int32_bind split: if_splits)
    show "timespec_toNsec v = timespec_toNsec t + timespec_toNsec u"
      using b t u by (auto simp: timespec_toNsec_def)
    show "normal v \<longleftrightarrow> sint (ts_iNsec t) + sint (ts_iNsec u) \<noteq> 1000000000"
      using b t u by (auto simp: normal_def)
    show "w = t" if "timespec_sub v u = Some w" for w
      using that b t u by (auto simp: timespec_sub_def int32_bind split: if_splits)
  next
    fix v assume v: "timespec_sub t u = Some v"
    then have b: "- (2 ^ 31) \<le> s - s'" "s - s' < 2 ^ 31" "m - m' < 0 \<Longrightarrow> - (2 ^ 31) \<le> s - s' - 1"
      "v = (if m - m' < 0 then \<lparr>ts_iSec = w32 (s - s' - 1), ts_iNsec = w32 (m - m' + 1000000000)\<rparr>
            else \<lparr>ts_iSec = w32 (s - s'), ts_iNsec = w32 (m - m')\<rparr>)"
      using t u by (auto simp: timespec_sub_def int32_bind split: if_splits)
    show "timespec_toNsec v = timespec_toNsec t - timespec_toNsec u"
      using b t u by (auto simp: timespec_toNsec_def)
    show "normal v" using b t u by (auto simp: normal_def)
  qed
qed

text \<open>The conversions of a normal time, of a sum and of a difference to nanoseconds are exact and those of a time and of a
  sum to milliseconds round up; so does the difference in milliseconds, unless the
  nanoseconds of the second time exceed those of the first by a million or more and not by a multiple of a million less one:
  then C's division cuts towards 0 and the result is one too large.
\<close>

theorem timespec_conversions:
  assumes "normal t" "normal u"
  shows "timespec_toMsec t = Some (msec_up (timespec_toNsec t)) \<and>
    timespec_addToMs t u = Some (msec_up (timespec_toNsec t + timespec_toNsec u)) \<and>
    timespec_addToNs t u = Some (timespec_toNsec t + timespec_toNsec u) \<and>
    timespec_subToNs t u = Some (timespec_toNsec t - timespec_toNsec u) \<and>
    (let d = sint (ts_iNsec t) - sint (ts_iNsec u) + 999999 in
     timespec_subToMs t u = Some (msec_up (timespec_toNsec t - timespec_toNsec u) + (if d < 0 \<and> d mod 1000000 \<noteq> 0 then 1 else 0)))"
proof -
  obtain s m where t: "t = \<lparr>ts_iSec = w32 s, ts_iNsec = w32 m\<rparr>" "- (2 ^ 31) \<le> s" "s < 2 ^ 31" "0 \<le> m" "m < 1000000000"
    using split_timespec [OF assms(1)] by blast
  obtain s' m' where u: "u = \<lparr>ts_iSec = w32 s', ts_iNsec = w32 m'\<rparr>" "- (2 ^ 31) \<le> s'" "s' < 2 ^ 31" "0 \<le> m'" "m' < 1000000000"
    using split_timespec [OF assms(2)] by blast
  have n: "timespec_toNsec t = s * 1000000000 + m" "timespec_toNsec u = s' * 1000000000 + m'"
    using t u by (simp_all add: timespec_toNsec_def)
  have p: "timespec_toNsec t + timespec_toNsec u = (s + s') * 1000000000 + (m + m')"
    "timespec_toNsec t - timespec_toNsec u = (s - s') * 1000000000 + (m - m')" by (simp_all add: n algebra_simps)
  have "timespec_toMsec t = Some (msec_up (timespec_toNsec t))"
    using t unfolding n msec_up_sec msec_up_shift by (simp add: timespec_toMsec_def int32_bind c_div_def)
  moreover have "timespec_addToMs t u = Some (msec_up (timespec_toNsec t + timespec_toNsec u))"
    using t u unfolding p msec_up_sec msec_up_shift by (simp add: timespec_addToMs_def int32_bind c_div_def)
  moreover have "timespec_addToNs t u = Some (timespec_toNsec t + timespec_toNsec u)"
    "timespec_subToNs t u = Some (timespec_toNsec t - timespec_toNsec u)"
    using t u unfolding p by (simp_all add: timespec_addToNs_def timespec_subToNs_def int32_bind)
  moreover have "timespec_subToMs t u = Some (msec_up (timespec_toNsec t - timespec_toNsec u) +
      (if m - m' + 999999 < 0 \<and> (m - m' + 999999) mod 1000000 \<noteq> 0 then 1 else 0))"
  proof -
    have "timespec_subToMs t u = Some ((s - s') * 1000 + c_div (m - m' + 999999) 1000000)"
      using t u by (simp add: timespec_subToMs_def int32_bind)
    moreover have "c_div (m - m' + 999999) 1000000 =
        (m - m' + 999999) div 1000000 + (if m - m' + 999999 < 0 \<and> (m - m' + 999999) mod 1000000 \<noteq> 0 then 1 else 0)"
      using c_div_trunc [of 1000000 "m - m' + 999999"] by (simp only: c_div_def) simp
    ultimately show ?thesis unfolding p msec_up_sec msec_up_shift by simp
  qed
  ultimately show ?thesis using t u by (simp add: Let_def)
qed

section \<open>Examples\<close>

theorem timespec_exact_witness:
  "timespec_add \<lparr>ts_iSec = 1, ts_iNsec = 600000000\<rparr> \<lparr>ts_iSec = 2, ts_iNsec = 400000000\<rparr> = Some \<lparr>ts_iSec = 3, ts_iNsec = 1000000000\<rparr> \<and>
   \<not> normal \<lparr>ts_iSec = 3, ts_iNsec = 1000000000\<rparr>"
proof -
  let ?t = "\<lparr>ts_iSec = 1, ts_iNsec = 600000000\<rparr>" and ?u = "\<lparr>ts_iSec = 2, ts_iNsec = 400000000\<rparr>"
  have n: "normal ?t" "normal ?u" by (simp_all add: normal_def)
  have a: "timespec_add ?t ?u = Some \<lparr>ts_iSec = 3, ts_iNsec = 1000000000\<rparr>" by (simp add: timespec_add_def int32_bind w32_def)
  from timespec_exact [OF n] a show ?thesis by auto
qed

theorem timespec_conversions_witness:
  "timespec_subToMs \<lparr>ts_iSec = 1, ts_iNsec = 0\<rparr> \<lparr>ts_iSec = 0, ts_iNsec = 5000000\<rparr> = Some 996 \<and>
   timespec_subToNs \<lparr>ts_iSec = 1, ts_iNsec = 0\<rparr> \<lparr>ts_iSec = 0, ts_iNsec = 5000000\<rparr> = Some 995000000"
proof -
  have n: "normal \<lparr>ts_iSec = 1, ts_iNsec = 0\<rparr>" "normal \<lparr>ts_iSec = 0, ts_iNsec = 5000000\<rparr>" by (simp_all add: normal_def)
  from timespec_conversions [OF n] show ?thesis by (simp add: Let_def timespec_toNsec_def msec_up_def)
qed

end
