(* ===== verification/StringUtil.thy ===== *)
theory StringUtil
  imports Prelude
begin

text \<open>
  The string helpers of \<open>core/source/detail/utility_t.c\<close> and \<open>core/include/utility_t.h\<close>.  A C string is a block of
  memory up to its NUL; to read a cell that is not initialised, or past the end of the block, is undefined, and so
  is a loop that does not end.  Allocations by \<open>mem_malloc\<close> succeed.
\<close>

section \<open>The functions of the C library\<close>

fun c_strlen :: "block \<Rightarrow> nat option" where
  "c_strlen [] = None"
| "c_strlen (None # b) = None"
| "c_strlen (Some c # b) = (if c = 0 then Some 0 else map_option Suc (c_strlen b))"

fun c_strnlen :: "block \<Rightarrow> nat \<Rightarrow> nat option" where
  "c_strnlen b 0 = Some 0"
| "c_strnlen [] (Suc n) = None"
| "c_strnlen (None # b) (Suc n) = None"
| "c_strnlen (Some c # b) (Suc n) = (if c = 0 then Some 0 else map_option Suc (c_strnlen b n))"

text \<open>Whether \<open>strncmp\<close> is 0.\<close>

fun c_strncmp :: "block \<Rightarrow> block \<Rightarrow> nat \<Rightarrow> bool option" where
  "c_strncmp a b 0 = Some True"
| "c_strncmp (Some x # a) (Some y # b) (Suc n) = (if x \<noteq> y then Some False else if x = 0 then Some True else c_strncmp a b n)"
| "c_strncmp _ _ (Suc n) = None"

definition c_strcat :: "block \<Rightarrow> block \<Rightarrow> block option" where
  "c_strcat dst src = do {
     d \<leftarrow> c_strlen dst;
     n \<leftarrow> c_strlen src;
     xs \<leftarrow> mem_load src 0 (n + 1);
     mem_store dst d xs }"

definition c_strncat :: "block \<Rightarrow> block \<Rightarrow> nat \<Rightarrow> block option" where
  "c_strncat dst src n = do {
     d \<leftarrow> c_strlen dst;
     m \<leftarrow> c_strnlen src n;
     xs \<leftarrow> mem_load src 0 m;
     mem_store dst d (xs @ [Some 0]) }"

text \<open>The place of a string in another, if any; \<open>strstr\<close> of two strings in memory.\<close>

definition str_pos :: "'a list \<Rightarrow> 'a list \<Rightarrow> nat option" where
  "str_pos s d = List.find (\<lambda>j. take (length d) (drop j s) = d) [0..<length s + 1 - length d]"

definition c_strstr :: "block \<Rightarrow> block \<Rightarrow> nat option option" where
  "c_strstr hay needle = do {
     n \<leftarrow> c_strlen hay;
     k \<leftarrow> c_strlen needle;
     Some (str_pos (take n hay) (take k needle)) }"

section \<open>The helpers\<close>

text \<open>A NULL pointer is \<open>None\<close>.\<close>

definition mem_strdup :: "block option \<Rightarrow> block option option" where
  "mem_strdup s =
     (case s of
        None \<Rightarrow> Some None
      | Some s \<Rightarrow> do {
          n \<leftarrow> c_strlen s;
          xs \<leftarrow> mem_load s 0 (n + 1);
          buf \<leftarrow> mem_store (mem_malloc (n + 1)) 0 xs;
          Some (Some buf) })"

definition mem_strndup :: "block option \<Rightarrow> nat \<Rightarrow> block option option" where
  "mem_strndup s n =
     (case s of
        None \<Rightarrow> Some None
      | Some s \<Rightarrow> do {
          m \<leftarrow> c_strnlen s n;
          guard (m \<le> n);
          xs \<leftarrow> mem_load s 0 m;
          buf \<leftarrow> mem_store (mem_malloc (m + 1)) 0 xs;
          buf \<leftarrow> mem_store buf m [Some 0];
          Some (Some buf) })"

definition strlncat :: "block \<Rightarrow> nat \<Rightarrow> block \<Rightarrow> nat \<Rightarrow> (nat \<times> block) option" where
  "strlncat dst len src n = do {
     slen \<leftarrow> c_strnlen src n;
     dlen \<leftarrow> c_strnlen dst len;
     if len \<le> slen + dlen then Some (0, dst)
     else if dlen < len then do {
       let rlen = len - dlen;
       let ncpy = (if slen < rlen then slen else rlen - 1);
       xs \<leftarrow> mem_load src 0 ncpy;
       dst \<leftarrow> mem_store dst dlen xs;
       dst \<leftarrow> mem_store dst (dlen + ncpy) [Some 0];
       Some (slen + dlen, dst) }
     else Some (slen + dlen, dst) }"

text \<open>The index is an \<open>int\<close>; \<open>i += strlen(sub) - 1\<close> with the increment of the loop adds the length, also when it is 0.\<close>

partial_function (option) replace_loop :: "block \<Rightarrow> block \<Rightarrow> block \<Rightarrow> nat \<Rightarrow> block \<Rightarrow> block option" where
  "replace_loop str sub replace i bstr = do {
     n \<leftarrow> c_strlen str;
     if i < n then do {
       k \<leftarrow> c_strlen sub;
       eq \<leftarrow> c_strncmp (drop i str) sub k;
       if eq then do {
         bstr \<leftarrow> c_strcat bstr replace;
         replace_loop str sub replace (i + k) bstr }
       else do {
         bstr \<leftarrow> c_strncat bstr (drop i str) 1;
         replace_loop str sub replace (i + 1) bstr } }
     else Some bstr }"

definition str_replace_all :: "block \<Rightarrow> block \<Rightarrow> block \<Rightarrow> block option" where
  "str_replace_all str sub replace = do {
     n \<leftarrow> c_strlen str;
     guard (0 < n \<and> n < 2 ^ 31);
     let bstr = replicate n (Some 0);
     bstr \<leftarrow> replace_loop str sub replace 0 bstr;
     m \<leftarrow> c_strlen bstr;
     xs \<leftarrow> mem_load bstr 0 (m + 1);
     mem_store str 0 xs }"

text \<open>The words that are counted, and the pointers to them, as offsets in the copy of the string.\<close>

partial_function (option) split_count :: "block \<Rightarrow> block \<Rightarrow> nat \<Rightarrow> nat \<Rightarrow> nat \<Rightarrow> nat option" where
  "split_count s delim delimLen off nbWords = do {
     r \<leftarrow> c_strstr (drop off s) delim;
     case r of
       None \<Rightarrow> Some nbWords
     | Some j \<Rightarrow> split_count s delim delimLen (off + j + delimLen) (nbWords + 1) }"

partial_function (option) split_loop ::
  "block \<Rightarrow> nat \<Rightarrow> nat \<Rightarrow> block \<Rightarrow> nat \<Rightarrow> nat list \<Rightarrow> (nat list \<times> block) option" where
  "split_loop delim delimLen nPtrs s off ptrs = do {
     r \<leftarrow> c_strstr (drop off s) delim;
     case r of
       None \<Rightarrow> Some (ptrs, s)
     | Some j \<Rightarrow> do {
         s \<leftarrow> mem_store s (off + j) [Some 0];
         guard (length ptrs < nPtrs);
         split_loop delim delimLen nPtrs s (off + j + delimLen) (ptrs @ [off + j + delimLen]) } }"

text \<open>\<open>allocated\<close>: whether \<open>malloc\<close> succeeds.  The last pointer is NULL.\<close>

definition strsplit :: "bool \<Rightarrow> block \<Rightarrow> block \<Rightarrow> ((nat list \<times> block) option \<times> nat) option" where
  "strsplit allocated s delim = do {
     sLen \<leftarrow> c_strlen s;
     delimLen \<leftarrow> c_strlen delim;
     nbWords \<leftarrow> split_count s delim delimLen 0 1;
     if allocated then do {
       xs \<leftarrow> mem_load s 0 (sLen + 1);
       (ptrs, xs) \<leftarrow> (if nbWords > 1 then split_loop delim delimLen (nbWords + 1) xs 0 [0] else Some ([0], xs));
       guard (length ptrs < nbWords + 1);
       Some (Some (ptrs, xs), nbWords) }
     else Some (None, 0) }"

section \<open>Strings in memory\<close>

definition c_str :: "bytes \<Rightarrow> block" where
  "c_str s = map Some s @ [Some 0]"

definition c_read :: "block \<Rightarrow> nat \<Rightarrow> bytes option" where
  "c_read b p = do { n \<leftarrow> c_strlen (drop p b); those (take n (drop p b)) }"

lemma c_strlen_str: "0 \<notin> set s \<Longrightarrow> c_strlen (map Some s @ Some 0 # z) = Some (length s)"
  by (induction s) auto

lemma c_strnlen_str: "0 \<notin> set s \<Longrightarrow> c_strnlen (map Some s @ Some 0 # z) n = Some (min n (length s))"
proof (induction s arbitrary: n)
  case Nil
  then show ?case by (cases n) auto
next
  case (Cons c s)
  then show ?case by (cases n) auto
qed

lemma c_strncmp_str:
  "0 \<notin> set s \<Longrightarrow> 0 \<notin> set d \<Longrightarrow> c_strncmp (map Some s @ Some 0 # z) (map Some d @ z') (length d) = Some (take (length d) s = d)"
proof (induction d arbitrary: s)
  case (Cons c d)
  then show ?case by (cases s) auto
qed simp

lemma those_some [simp]: "those (map Some xs) = Some xs"
  by (induction xs) auto

lemma c_read_str: "0 \<notin> set s \<Longrightarrow> c_read (b @ map Some s @ Some 0 # z) (length b) = Some s"
  by (simp add: c_read_def c_strlen_str)

lemma c_strlen_c_str: "0 \<notin> set s \<Longrightarrow> c_strlen (c_str s @ z) = Some (length s)" "0 \<notin> set s \<Longrightarrow> c_strlen (c_str s) = Some (length s)"
  by (simp_all add: c_str_def c_strlen_str)

text \<open>The copies are exact and safe: \<open>mem_strdup\<close> copies the string, \<open>mem_strndup\<close> at most \<open>n\<close> bytes of it, also of a block
  without a NUL in its first \<open>n\<close> bytes, and \<open>strlncat\<close> appends at most \<open>n\<close> bytes if they fit into \<open>len\<close> bytes with the NUL,
  and otherwise leaves the buffer as it is and returns 0.
\<close>

theorem string_copies:
  assumes "0 \<notin> set s" "0 \<notin> set d" "len \<le> length (c_str d @ z)"
  shows "mem_strdup (Some (c_str s @ z')) = Some (Some (c_str s)) \<and>
    mem_strndup (Some (c_str s @ z')) n = Some (Some (c_str (take n s))) \<and>
    mem_strndup (Some (map Some s)) (length s) = Some (Some (c_str s)) \<and>
    strlncat (c_str d @ z) len (c_str s @ z') n =
      (if length d + min n (length s) < len
       then Some (length d + min n (length s), c_str (d @ take n s) @ drop (min n (length s)) z) else Some (0, c_str d @ z))"
proof -
  have "c_strnlen (map Some s) (length s) = Some (length s)" using assms(1) by (induction s) auto
  then have 3: "mem_strndup (Some (map Some s)) (length s) = Some (Some (c_str s))"
    by (simp add: mem_strndup_def c_str_def mem_defs)
  have 4: "strlncat (c_str d @ z) len (c_str s @ z') n =
      (if length d + min n (length s) < len
       then Some (length d + min n (length s), c_str (d @ take n s) @ drop (min n (length s)) z) else Some (0, c_str d @ z))"
    using assms by (auto simp: strlncat_def c_str_def c_strnlen_str mem_defs min_def not_le not_less Let_def take_map)
  show ?thesis
    using assms(1) 3 4
    by (auto simp: mem_strdup_def mem_strndup_def c_str_def c_strlen_str c_strnlen_str mem_defs min_def take_map)
qed

section \<open>Replacing\<close>

text \<open>What is asked for: the occurrences from the left are replaced.\<close>

function replaced :: "bytes \<Rightarrow> bytes \<Rightarrow> bytes \<Rightarrow> bytes" where
  "replaced sub rep [] = []"
| "replaced sub rep (c # s) =
     (if sub \<noteq> [] \<and> take (length sub) (c # s) = sub then rep @ replaced sub rep (drop (length sub) (c # s)) else c # replaced sub rep s)"
  by pat_completeness auto
termination by (relation "measure (\<lambda>(sub, rep, s). length s)") auto

text \<open>The buffer: what was collected, and zeros behind.\<close>

definition zeros :: "nat \<Rightarrow> bytes \<Rightarrow> block" where
  "zeros n s = map Some s @ replicate (n - length s) (Some 0)"

lemma zeros_room: "length s < n \<Longrightarrow> zeros n s = map Some s @ Some 0 # replicate (n - length s - 1) (Some 0)"
  by (cases "n - length s") (auto simp: zeros_def)

lemma zeros_store:
  assumes "length s < n"
  shows "mem_store (zeros n s) (length s) (map Some t @ [Some 0]) =
    (if length s + length t < n then Some (zeros n (s @ t)) else None)"
proof -
  have l: "length (zeros n s) = n" using assms by (simp add: zeros_def)
  show ?thesis
  proof (cases "length s + length t < n")
    case True
    then have "n - (length s + length t) = Suc (n - Suc (length s + length t))" by simp
    then show ?thesis using True l by (simp add: mem_store_def zeros_def)
  qed (use l in \<open>simp add: mem_store_def\<close>)
qed

lemma c_strcat_zeros:
  assumes "0 \<notin> set s" "0 \<notin> set t" "length s < n"
  shows "c_strcat (zeros n s) (c_str t) = (if length s + length t < n then Some (zeros n (s @ t)) else None)"
proof -
  have "c_strlen (zeros n s) = Some (length s)" using assms by (simp add: zeros_room c_strlen_str)
  moreover have "mem_load (c_str t) 0 (length t + 1) = Some (map Some t @ [Some 0])" by (simp add: mem_load_def c_str_def)
  ultimately show ?thesis using assms c_strlen_c_str(2) [of t] zeros_store [of s n t] by (simp add: c_strcat_def)
qed

lemma c_strncat_zeros:
  assumes "0 \<notin> set s" "c \<noteq> 0" "length s < n"
  shows "c_strncat (zeros n s) (Some c # z) 1 = (if length s + 1 < n then Some (zeros n (s @ [c])) else None)"
proof -
  have "c_strlen (zeros n s) = Some (length s)" using assms by (simp add: zeros_room c_strlen_str)
  moreover have "c_strnlen (Some c # z) 1 = Some 1" "mem_load (Some c # z) 0 1 = Some [Some c]" using assms(2) by (simp_all add: mem_load_def)
  ultimately show ?thesis using assms zeros_store [of s n "[c]"] by (simp only: c_strncat_def bind.simps) simp
qed

lemma replace_loop_step:
  assumes "0 \<notin> set p" "0 \<notin> set (c # t)" "0 \<notin> set sub" "sub \<noteq> []"
  shows "replace_loop (c_str (p @ c # t) @ z) (c_str sub) rep (length p) b =
    (if take (length sub) (c # t) = sub
     then Option.bind (c_strcat b rep) (replace_loop (c_str (p @ c # t) @ z) (c_str sub) rep (length p + length sub))
     else Option.bind (c_strncat b (Some c # map Some t @ Some 0 # z) 1) (replace_loop (c_str (p @ c # t) @ z) (c_str sub) rep (length p + 1)))"
proof -
  have d: "drop (length p) (c_str (p @ c # t) @ z) = map Some (c # t) @ Some 0 # z" by (simp add: c_str_def)
  have l: "c_strlen (c_str (p @ c # t) @ z) = Some (length p + length t + 1)"
    using c_strlen_c_str(1) [of "p @ c # t" z] assms(1,2) by simp
  have lt: "length p < length p + length t + 1" by simp
  have m: "c_strncmp (map Some (c # t) @ Some 0 # z) (c_str sub) (length sub) = Some (take (length sub) (c # t) = sub)"
    using c_strncmp_str [OF assms(2,3)] by (simp add: c_str_def)
  show ?thesis
    by (subst replace_loop.simps) (simp only: l d m c_strlen_c_str(2) [OF assms(3)] bind.simps if_True if_False lt, simp)
qed

lemma replace_loop_result:
  assumes "0 \<notin> set p" "0 \<notin> set t" "0 \<notin> set sub" "sub \<noteq> []" "0 \<notin> set rep" "0 \<notin> set out" "length out < n"
  shows "replace_loop (c_str (p @ t) @ z) (c_str sub) (c_str rep) (length p) (zeros n out) =
    (let r = out @ replaced sub rep t in if length r < n then Some (zeros n r) else None)"
  using assms
proof (induction "length t" arbitrary: p t out rule: less_induct)
  case less
  show ?case
  proof (cases t)
    case Nil
    then show ?thesis using less.prems c_strlen_c_str(1) [of p z] by (subst replace_loop.simps) simp
  next
    case (Cons c u)
    have t0: "0 \<notin> set (c # u)" "c \<noteq> 0" using less.prems(2) Cons by auto
    show ?thesis
    proof (cases "take (length sub) (c # u) = sub")
      case True
      let ?a = "take (length sub) t" and ?b = "drop (length sub) t"
      have lp: "length (p @ ?a) = length p + length sub" using True Cons by (metis length_append)
      have sh: "length ?b < length t" using Cons less.prems(4) by simp
      have z: "0 \<notin> set (p @ ?a)" "0 \<notin> set ?b" using less.prems(1,2) by (auto dest: in_set_takeD in_set_dropD)
      have ih: "replace_loop (c_str (p @ t) @ z) (c_str sub) (c_str rep) (length p + length sub) (zeros n (out @ rep)) =
        (let r = (out @ rep) @ replaced sub rep ?b in if length r < n then Some (zeros n r) else None)" if "length (out @ rep) < n"
        using less.hyps [OF sh z less.prems(3-5) _ that] less.prems(5,6) by (simp only: lp append_take_drop_id append_assoc set_append Un_iff simp_thms)
      have "replaced sub rep t = rep @ replaced sub rep (drop (length sub) t)" using True Cons less.prems(4) by simp
      with True ih Cons less.prems t0 show ?thesis
        by (simp add: replace_loop_step c_strcat_zeros Let_def)
    next
      case False
      have sh: "length u < length t" using Cons by simp
      have ih: "length (out @ [c]) < n \<Longrightarrow> replace_loop (c_str (p @ t) @ z) (c_str sub) (c_str rep) (length p + 1) (zeros n (out @ [c])) =
        (let r = (out @ [c]) @ replaced sub rep u in if length r < n then Some (zeros n r) else None)"
        using less.hyps [OF sh, of "p @ [c]" "out @ [c]"] less.prems Cons by auto
      have "replaced sub rep t = c # replaced sub rep u" using False Cons by simp
      with False ih Cons less.prems t0 show ?thesis
        by (simp add: replace_loop_step c_strncat_zeros [simplified] Let_def)
    qed
  qed
qed

text \<open>An empty string is found everywhere, and the loop does not advance.\<close>

lemma replace_loop_stays:
  "replace_loop str sub rep i b = Some r \<Longrightarrow> sub = c_str [] \<Longrightarrow> c_strlen str = Some n \<Longrightarrow> n \<le> i"
proof (induction str sub rep i b r rule: replace_loop.raw_induct [rotated, consumes 1, case_names 1])
  case (1 f str sub rep i b r)
  show ?case
  proof (rule ccontr)
    assume "\<not> n \<le> i"
    with 1(2-4) obtain b' where "f str sub rep i b' = Some r"
      by (auto simp: c_str_def bind_eq_Some_conv split: if_splits)
    from 1(1) [OF this 1(3,4)] \<open>\<not> n \<le> i\<close> show False by simp
  qed
qed

lemma replace_loop_empty:
  "c_strlen str = Some n \<Longrightarrow> i < n \<Longrightarrow> replace_loop str (c_str []) rep i b = None"
  using replace_loop_stays [of str "c_str []" rep i b _ n] by (cases "replace_loop str (c_str []) rep i b") auto

lemma replaced_no_zero: "0 \<notin> set rep \<Longrightarrow> 0 \<notin> set s \<Longrightarrow> 0 \<notin> set (replaced sub rep s)"
proof (induction sub rep s rule: replaced.induct)
  case (2 sub rep c s)
  have "0 \<notin> set (drop (length sub) (c # s))" using 2(4) set_drop_subset by fast
  with 2 show ?case by auto
qed simp

text \<open>\<open>str_replace_all\<close> replaces the occurrences from the left, but only if the result is shorter than the string: when
  it is as long, as without any occurrence, or longer it writes behind its buffer; and with an empty string to
  replace it does not return either way.
\<close>

theorem str_replace_all_exact:
  assumes "0 \<notin> set s" "0 \<notin> set sub" "0 \<notin> set rep" "length s < 2 ^ 31"
  shows "str_replace_all (c_str s @ z) (c_str sub) (c_str rep) =
    (let r = replaced sub rep s in
     if sub \<noteq> [] \<and> length r < length s then Some (c_str r @ drop (length r + 1) (c_str s @ z)) else None)"
proof (cases "s = [] \<or> sub = []")
  case True
  then show ?thesis
    using assms c_strlen_c_str(1) [OF assms(1), of z] replace_loop_empty [OF c_strlen_c_str(1) [OF assms(1)], of 0 z "c_str rep"]
    by (cases "s = []") (auto simp: str_replace_all_def Let_def)
next
  case False
  let ?r = "replaced sub rep s" and ?n = "length s"
  have z0: "replicate ?n (Some 0) = zeros ?n []" by (simp add: zeros_def)
  have loop: "replace_loop (c_str s @ z) (c_str sub) (c_str rep) 0 (zeros ?n []) = (if length ?r < ?n then Some (zeros ?n ?r) else None)"
    using replace_loop_result [of "[]" s sub rep "[]" ?n z] assms False by (simp add: Let_def)
  have r0: "0 \<notin> set ?r" using replaced_no_zero assms by blast
  have "c_strlen (zeros ?n ?r) = Some (length ?r)" "mem_load (zeros ?n ?r) 0 (length ?r + 1) = Some (c_str ?r)" if "length ?r < ?n"
    using that r0 by (simp_all add: zeros_room c_strlen_str mem_load_def c_str_def)
  moreover have "length ?r < ?n \<Longrightarrow> mem_store (c_str s @ z) 0 (c_str ?r) = Some (c_str ?r @ drop (length ?r + 1) (c_str s @ z))"
    by (simp add: mem_store_def c_str_def)
  ultimately show ?thesis using False assms loop c_strlen_c_str(1) [OF assms(1), of z]
    by (simp add: str_replace_all_def z0 Let_def)
qed

section \<open>Splitting\<close>

lemma str_pos_Some:
  "str_pos s d = Some j \<Longrightarrow> take (length d) (drop j s) = d \<and> j + length d \<le> length s"
  by (auto simp: str_pos_def find_Some_iff)

lemma str_pos_less: "str_pos s d = Some j \<Longrightarrow> d \<noteq> [] \<Longrightarrow> length s - (j + length d) < length s"
  using str_pos_Some [of s d j] by (cases d) auto

function split :: "bytes \<Rightarrow> bytes \<Rightarrow> bytes list" where
  "split d s =
     (case str_pos s d of
        None \<Rightarrow> [s]
      | Some j \<Rightarrow> take j s # (if d = [] then [] else split d (drop (j + length d) s)))"
  by pat_completeness auto
termination by (relation "measure (\<lambda>(d, s). length s)") (auto dest: str_pos_less)

declare split.simps [simp del]

lemma split_None: "str_pos s d = None \<Longrightarrow> split d s = [s]"
  by (subst split.simps) simp

lemma split_Some: "str_pos s d = Some j \<Longrightarrow> d \<noteq> [] \<Longrightarrow> split d s = take j s # split d (drop (j + length d) s)"
  by (subst split.simps) simp

lemma split_ne: "split d s \<noteq> []"
  by (subst split.simps) (simp split: option.split)

lemma split_induct [consumes 1, case_names None Some]:
  assumes "d \<noteq> []" "\<And>s. str_pos s d = None \<Longrightarrow> P s"
    "\<And>s j. str_pos s d = Some j \<Longrightarrow> P (drop (j + length d) s) \<Longrightarrow> P s"
  shows "P s"
proof (induction "length s" arbitrary: s rule: less_induct)
  case less
  show ?case
  proof (cases "str_pos s d")
    case (Some j)
    then have "length (drop (j + length d) s) < length s" using str_pos_less [OF Some assms(1)] by simp
    then show ?thesis using assms(3) [OF Some] less by blast
  qed (use assms(2) in blast)
qed

text \<open>\<open>d\<close> occurs in a word followed by \<open>d\<close> at its end first.\<close>

lemma pos_word:
  assumes "str_pos s d = Some j"
  shows "str_pos (take j s @ d) d = Some j"
proof -
  have j: "take (length d) (drop j s) = d" "j + length d \<le> length s" using str_pos_Some [OF assms] by auto
  have before: "take (length d) (drop i s) \<noteq> d" if "i < j" for i
    using assms that by (auto simp: str_pos_def find_Some_iff)
  have t: "take j s @ d = take (j + length d) s" using j by (metis take_add)
  have "take (length d) (drop i (take j s @ d)) = take (length d) (drop i s)" if "i \<le> j" for i
    using that j(2) unfolding t drop_take take_take by (simp add: min_def)
  then show ?thesis using j before
    by (auto simp: str_pos_def find_Some_iff nth_append intro!: exI [of _ j])
qed

text \<open>Strings joined with a delimiter.\<close>

fun joined :: "bytes \<Rightarrow> bytes list \<Rightarrow> bytes" where
  "joined d [] = []" | "joined d [w] = w" | "joined d (w # v # ws) = w @ d @ joined d (v # ws)"

definition split_of :: "bytes \<Rightarrow> bytes \<Rightarrow> bytes list \<Rightarrow> bool" where
  "split_of d s ws \<longleftrightarrow> ws \<noteq> [] \<and> joined d ws = s \<and> str_pos (last ws) d = None \<and>
     (\<forall>w \<in> set (butlast ws). str_pos (w @ d) d = Some (length w))"

lemma split_split_of:
  assumes "d \<noteq> []"
  shows "split_of d s (split d s)"
  using assms
proof (induction s rule: split_induct)
  case (None s)
  then show ?case by (simp add: split_of_def split_None)
next
  case (Some s j)
  obtain v vs where v: "split d (drop (j + length d) s) = v # vs" using split_ne by (metis neq_Nil_conv)
  have "take j s @ d @ drop (j + length d) s = s"
    using str_pos_Some [OF Some(1)] by (metis append_take_drop_id drop_drop add.commute)
  then show ?case using Some(2) pos_word [OF Some(1)] str_pos_Some [OF Some(1)] v
    by (simp add: split_of_def split_Some [OF Some(1) assms])
qed

lemma c_strstr_str:
  "0 \<notin> set s \<Longrightarrow> 0 \<notin> set d \<Longrightarrow> c_strstr (c_str s) (c_str d) = Some (str_pos s d)"
proof -
  have m: "str_pos (map Some s) (map Some d) = str_pos s d"
    unfolding str_pos_def by (simp add: take_map drop_map inj_map_eq_map [OF inj_Some])
  assume "0 \<notin> set s" "0 \<notin> set d"
  then show ?thesis by (simp add: c_strstr_def c_strlen_c_str) (simp add: c_str_def m)
qed

lemma no_zero: "0 \<notin> set s \<Longrightarrow> 0 \<notin> set (take j s)" "0 \<notin> set s \<Longrightarrow> 0 \<notin> set (drop j s)"
  by (auto dest: in_set_takeD in_set_dropD)

lemma count_words:
  assumes "d \<noteq> []" "0 \<notin> set s" "0 \<notin> set d" "drop off b = c_str s"
  shows "split_count b (c_str d) (length d) off n = Some (n + length (split d s) - 1)"
  using assms
proof (induction s arbitrary: off n rule: split_induct)
  case (None s)
  then show ?case by (subst split_count.simps) (simp add: c_strstr_str split_None)
next
  case (Some s j)
  let ?t = "drop (j + length d) s"
  have "drop (off + j + length d) b = drop (j + length d) (c_str s)"
    using Some.prems(3) by (metis drop_drop add.assoc add.commute)
  then have "drop (off + j + length d) b = c_str ?t" using str_pos_Some [OF Some(1)] by (simp add: c_str_def drop_map)
  from Some.IH [OF no_zero(2) [OF Some.prems(1)] Some.prems(2) this] show ?case
    using Some.prems Some(1) split_ne [of d ?t] assms(1)
    by (subst split_count.simps) (simp add: c_strstr_str split_Some)
qed

text \<open>The loop: \<open>b\<close> is what is behind it, with the pointers so far.\<close>

lemma split_words:
  assumes "d \<noteq> []" "0 \<notin> set s" "0 \<notin> set d" "length ptrs + length (split d s) \<le> n + 1"
  shows "\<exists>qs b'. split_loop (c_str d) (length d) n (b @ c_str s) (length b) ptrs = Some (ptrs @ qs, b @ b') \<and>
    map (c_read (b @ b')) (length b # qs) = map Some (split d s)"
  using assms
proof (induction s arbitrary: b ptrs rule: split_induct)
  case (None s)
  then have "split_loop (c_str d) (length d) n (b @ c_str s) (length b) ptrs = Some (ptrs, b @ c_str s)"
    by (subst split_loop.simps) (simp add: c_strstr_str)
  moreover have "c_read (b @ c_str s) (length b) = Some s" using c_read_str [of s b "[]"] None by (simp add: c_str_def)
  ultimately show ?case using None(1) by (intro exI [of _ "[]"] exI [of _ "c_str s"]) (simp add: split_None)
next
  case (Some s j)
  let ?t = "drop (j + length d) s"
  define B where "B = b @ map Some (take j s) @ Some 0 # map Some (take (length d - 1) (drop (j + 1) s))"
  have j: "take (length d) (drop j s) = d" "j + length d \<le> length s" "0 < length d" using str_pos_Some [OF Some(1)] assms(1) by auto
  have lb: "length B = length b + j + length d" using j unfolding B_def by simp
  have "?t = drop (length d - 1) (drop (j + 1) s)" using assms(1) by (cases d) (simp_all add: add.commute)
  then have "drop (j + 1) s = take (length d - 1) (drop (j + 1) s) @ ?t" by (metis append_take_drop_id)
  from arg_cong [OF this, of "map Some"]
  have e: "map Some (drop (j + 1) s) = map Some (take (length d - 1) (drop (j + 1) s)) @ map Some ?t" by (simp only: map_append)
  have le: "j + 1 \<le> length s" using j(2,3) by linarith
  have "drop (length b + j + 1) (b @ c_str s) = map Some (drop (j + 1) s) @ [Some 0]" using le by (simp add: c_str_def drop_map)
  then have dr: "drop (length b + j + 1) (b @ c_str s) = map Some (take (length d - 1) (drop (j + 1) s)) @ c_str ?t"
    unfolding e c_str_def by (simp only: append_assoc)
  have tk: "take (length b + j) (b @ c_str s) = b @ map Some (take j s)" using le by (simp add: c_str_def take_map)
  have st: "mem_store (b @ c_str s) (length b + j) [Some 0] = Some (B @ c_str ?t)"
    using le unfolding mem_store_def tk by (simp only: length_Cons list.size dr One_nat_def [symmetric] plus_1_eq_Suc) (simp add: c_str_def B_def)
  have room: "length ptrs < n" "length (ptrs @ [length B]) + length (split d ?t) \<le> n + 1"
    using Some.prems(3) split_ne [of d ?t] by (simp_all add: split_Some [OF Some(1) assms(1)] Suc_le_eq [symmetric]) (cases "split d ?t"; simp)
  from Some.IH [OF no_zero(2) [OF Some.prems(1)] Some.prems(2) room(2), of B] obtain qs b' where
    ih: "split_loop (c_str d) (length d) n (B @ c_str ?t) (length B) (ptrs @ [length B]) = Some ((ptrs @ [length B]) @ qs, B @ b')"
    "map (c_read (B @ b')) (length B # qs) = map Some (split d ?t)" by blast
  have "c_read (B @ b') (length b) = Some (take j s)"
    using c_read_str [OF no_zero(1) [OF Some.prems(1)]] unfolding B_def by simp
  then have "map (c_read (B @ b')) (length b # length B # qs) = map Some (split d s)"
    using ih(2) by (simp add: split_Some [OF Some(1) assms(1)])
  moreover have "split_loop (c_str d) (length d) n (b @ c_str s) (length b) ptrs = Some (ptrs @ length B # qs, B @ b')"
    using ih(1) room(1) by (subst split_loop.simps) (simp add: c_strstr_str Some st lb)
  ultimately show ?case
    by (intro exI [of _ "length B # qs"] exI [of _ "map Some (take j s) @ Some 0 # map Some (take (length d - 1) (drop (j + 1) s)) @ b'"]) (simp add: B_def)
qed

text \<open>An empty delimiter is found at once, again and again.\<close>

lemma split_count_empty:
  "split_count s dl k off n = Some r \<Longrightarrow> dl = c_str [] \<Longrightarrow> k = 0 \<Longrightarrow> False"
proof (induction s dl k off n r rule: split_count.raw_induct [rotated, consumes 1, case_names 1])
  case (1 f s dl k off n r)
  have "str_pos xs [] = Some 0" for xs :: block by (simp add: str_pos_def upt_conv_Cons del: upt_Suc)
  with 1(2-4) show ?case by (auto simp: c_strstr_def c_str_def bind_eq_Some_conv intro: 1(1))
qed

text \<open>C27: \<open>_strsplit\<close> returns: the words it points to are those the string falls into when it is cut at the
  delimiters from the left (joined they are the string, and the delimiter occurs in each word followed by it only at
  the end), the count is theirs, the pointers and the copy stay inside the allocation; with an empty delimiter it never returns, and
  without memory it says so.
\<close>

theorem strsplit_exact:
  assumes "0 \<notin> set s" "0 \<notin> set d"
  shows "(d \<noteq> [] \<longrightarrow> (\<exists>ws ptrs b. strsplit True (c_str s) (c_str d) = Some (Some (ptrs, b), length ws) \<and>
       map (c_read b) ptrs = map Some ws \<and> split_of d s ws) \<and> strsplit False (c_str s) (c_str d) = Some (None, 0)) \<and>
    (d = [] \<longrightarrow> strsplit a (c_str s) (c_str d) = None)"
proof (intro conjI impI)
  assume d: "d \<noteq> []"
  let ?ws = "split d s"
  have ne: "0 < length ?ws" using split_ne [of d s] by simp
  have n: "split_count (c_str s) (c_str d) (length d) 0 1 = Some (length ?ws)"
    using count_words [OF d assms, of 0 "c_str s" 1] by simp
  from split_words [OF d assms, of "[0]" "length ?ws + 1" "[]"] obtain qs b where
    w: "split_loop (c_str d) (length d) (length ?ws + 1) (c_str s) 0 [0] = Some (0 # qs, b)" "map (c_read b) (0 # qs) = map Some ?ws" by auto
  have l: "length (0 # qs) = length ?ws" using w(2) by (metis length_map)
  have m: "mem_load (c_str s) 0 (length s + 1) = Some (c_str s)" by (simp add: mem_load_def c_str_def)
  show "\<exists>ws ptrs b. strsplit True (c_str s) (c_str d) = Some (Some (ptrs, b), length ws) \<and> map (c_read b) ptrs = map Some ws \<and> split_of d s ws"
  proof (cases "length ?ws > 1")
    case True
    then show ?thesis using w n l m assms split_split_of [OF d, of s]
      by (intro exI [of _ ?ws] exI [of _ "0 # qs"] exI [of _ b]) (simp add: strsplit_def c_strlen_c_str del: list.map)
  next
    case False
    then have one: "length ?ws = 1" using ne by linarith
    then have "?ws = [s]" by (subst split.simps, subst (asm) split.simps) (auto split: option.splits simp: d split_ne)
    then show ?thesis using n m one assms split_split_of [OF d, of s] c_read_str [OF assms(1), of "[]" "[]"]
      by (intro exI [of _ ?ws] exI [of _ "[0]"] exI [of _ "c_str s"]) (simp add: strsplit_def c_strlen_c_str, simp add: c_str_def)
  qed
  show "strsplit False (c_str s) (c_str d) = Some (None, 0)" using n assms by (simp add: strsplit_def c_strlen_c_str)
next
  assume "d = []"
  then show "strsplit a (c_str s) (c_str d) = None"
    using split_count_empty [of "c_str s" "c_str d" 0 0 1] assms
    by (cases "split_count (c_str s) (c_str d) 0 0 1") (auto simp: strsplit_def c_strlen_c_str)
qed

section \<open>Examples\<close>

theorem string_copies_witness:
  "strlncat (c_str [97] @ [None, None]) 3 (c_str [98, 99]) 1 = Some (2, c_str [97, 98] @ [None]) \<and>
   mem_strndup (Some (map Some [97, 98])) (Suc (Suc 0)) = Some (Some (c_str [97, 98]))"
  using string_copies [of "[98, 99]" "[97]" 3 "[None, None]" "[]" 1] string_copies [of "[97, 98]" "[]" 0 "[]" "[]" 0]
  by (simp add: c_str_def)

theorem str_replace_all_exact_witness:
  "str_replace_all (c_str [97, 98, 97]) (c_str [97, 98]) (c_str [99]) = Some (c_str [99, 97] @ [Some 0]) \<and>
   str_replace_all (c_str [97, 98, 97]) (c_str [120]) (c_str [99]) = None"
  using str_replace_all_exact [of "[97, 98, 97]" "[97, 98]" "[99]" "[]"] str_replace_all_exact [of "[97, 98, 97]" "[120]" "[99]" "[]"]
  by (simp add: c_str_def)

theorem strsplit_exact_witness:
  "\<exists>ws ptrs b. strsplit True (c_str [97, 44, 44, 98]) (c_str [44]) = Some (Some (ptrs, b), length ws) \<and>
     map (c_read b) ptrs = map Some ws \<and> joined [44] ws = [97, 44, 44, 98]"
  using strsplit_exact [of "[97, 44, 44, 98]" "[44]"] by (auto simp: split_of_def)

end
