(* ===== verification/Semaphore.thy ===== *)
theory Semaphore
  imports Prelude Interfaces
begin

text \<open>
  The semaphore that \<open>core/source/thread/pthread/thread_t.c\<close> makes of a mutex and a condition (\<open>__custom_sem_post\<close>,
  \<open>__custom_sem_wait\<close>, \<open>__custom_sem_trywait\<close>), for the versions of glibc before 2.21 and for MVS.  A section under the mutex is a step.  The mutex is
  recursive, as \<open>mutex_init\<close> makes it; a thread that waits for the condition may wake up by itself, and a signal wakes one
  that waits, if there is one.  To unlock a mutex that another thread has ends the program.
\<close>

section \<open>Mutex\<close>

text \<open>The owner and how often it has locked it.\<close>

type_synonym mutex = "(nat \<times> nat) option"

definition mutex_trylock :: "nat \<Rightarrow> mutex \<Rightarrow> bool \<times> mutex" where
  "mutex_trylock i m =
     (case m of
        None \<Rightarrow> (True, Some (i, 1))
      | Some (j, n) \<Rightarrow> if i = j then (True, Some (j, n + 1)) else (False, m))"

text \<open>\<open>None\<close>: the thread has to wait.\<close>

definition mutex_lock :: "nat \<Rightarrow> mutex \<Rightarrow> mutex option" where
  "mutex_lock i m = (case mutex_trylock i m of (ok, m) \<Rightarrow> if ok then Some m else None)"

text \<open>\<open>None\<close>: \<open>abort\<close>.\<close>

definition mutex_unlock :: "nat \<Rightarrow> mutex \<Rightarrow> mutex option" where
  "mutex_unlock i m =
     (case m of
        None \<Rightarrow> None
      | Some (j, n) \<Rightarrow> if i \<noteq> j then None else Some (if n = 1 then None else Some (j, n - 1)))"

section \<open>Semaphore\<close>

text \<open>A thread before its next step: it wants to post, to wait (also after it woke up) or to try, or sleeps on the condition.
  \<open>sm_posts\<close> and \<open>sm_takes\<close> record who posted and who was let through.\<close>

datatype sm_pc = SmIdle | SmPost | SmWait | SmTry | SmBlocked | SmAborted

record sem =
  sm_mutex :: mutex
  sm_uiValue :: u32
  sm_posts :: "nat list"
  sm_takes :: "nat list"

text \<open>When the mutex and the condition can be made; otherwise \<open>__custom_sem_init\<close> returns false and there is no semaphore.\<close>

definition custom_sem_init :: "u32 \<Rightarrow> sem" where
  "custom_sem_init uiValue = \<lparr>sm_mutex = None, sm_uiValue = uiValue, sm_posts = [], sm_takes = []\<rparr>"

text \<open>With the flag whether the condition is signalled.\<close>

definition custom_sem_post :: "nat \<Rightarrow> sem \<Rightarrow> (sem \<times> bool) option" where
  "custom_sem_post i s = do {
     m \<leftarrow> mutex_lock i (sm_mutex s);
     let v = sm_uiValue s + 1;
     m \<leftarrow> mutex_unlock i m;
     Some (s\<lparr>sm_mutex := m, sm_uiValue := v, sm_posts := sm_posts s @ [i]\<rparr>, v = 1) }"

text \<open>A round of the loop; \<open>cond_wait\<close> unlocks the mutex once.\<close>

definition custom_sem_wait :: "nat \<Rightarrow> sem \<Rightarrow> (sem \<times> sm_pc) option" where
  "custom_sem_wait i s = do {
     m \<leftarrow> mutex_lock i (sm_mutex s);
     m \<leftarrow> mutex_unlock i m;
     Some (if sm_uiValue s = 0 then (s\<lparr>sm_mutex := m\<rparr>, SmBlocked)
           else (s\<lparr>sm_mutex := m, sm_uiValue := sm_uiValue s - 1, sm_takes := sm_takes s @ [i]\<rparr>, SmIdle)) }"

definition custom_sem_trywait :: "nat \<Rightarrow> sem \<Rightarrow> (sem \<times> bool) option" where
  "custom_sem_trywait i s =
     (case mutex_trylock i (sm_mutex s) of (ok, m) \<Rightarrow>
        if ok then Some (s\<lparr>sm_mutex := m\<rparr>, False)
        else if sm_uiValue s = 0 then do {
          m \<leftarrow> mutex_unlock i m;
          Some (s\<lparr>sm_mutex := m\<rparr>, False) }
        else do {
          m \<leftarrow> mutex_unlock i m;
          Some (s\<lparr>sm_mutex := m, sm_uiValue := sm_uiValue s - 1, sm_takes := sm_takes s @ [i]\<rparr>, True) })"

section \<open>Threads\<close>

record sm_state =
  sm_sem :: sem
  sm_pcs :: "sm_pc list"

datatype sm_action = SmCall sm_pc | SmGo nat | SmWake

text \<open>The signal wakes thread \<open>k\<close>.\<close>

definition sm_signal :: "nat \<Rightarrow> sm_pc list \<Rightarrow> sm_pc list option" where
  "sm_signal k pcs =
     (if SmBlocked \<in> set pcs then if k < length pcs \<and> pcs ! k = SmBlocked then Some (pcs[k := SmWait]) else None
      else Some pcs)"

definition sm_go :: "nat \<Rightarrow> nat \<Rightarrow> sm_state \<Rightarrow> sm_state option" where
  "sm_go i k c =
     (case sm_pcs c ! i of
        SmPost \<Rightarrow> do {
          (s, signal) \<leftarrow> custom_sem_post i (sm_sem c);
          pcs \<leftarrow> (if signal then sm_signal k ((sm_pcs c)[i := SmIdle]) else Some ((sm_pcs c)[i := SmIdle]));
          Some (c\<lparr>sm_sem := s, sm_pcs := pcs\<rparr>) }
      | SmWait \<Rightarrow> do {
          (s, pc) \<leftarrow> custom_sem_wait i (sm_sem c);
          Some (c\<lparr>sm_sem := s, sm_pcs := (sm_pcs c)[i := pc]\<rparr>) }
      | SmTry \<Rightarrow>
          (case custom_sem_trywait i (sm_sem c) of
             None \<Rightarrow> Some (c\<lparr>sm_pcs := (sm_pcs c)[i := SmAborted]\<rparr>)
           | Some (s, ok) \<Rightarrow> Some (c\<lparr>sm_sem := s, sm_pcs := (sm_pcs c)[i := SmIdle]\<rparr>))
      | _ \<Rightarrow> None)"

text \<open>\<open>allow\<close>: which calls which thread makes.\<close>

definition sm_next :: "(nat \<Rightarrow> sm_pc \<Rightarrow> bool) \<Rightarrow> nat \<Rightarrow> sm_action \<Rightarrow> sm_state \<Rightarrow> sm_state option" where
  "sm_next allow i a c =
     (if i < length (sm_pcs c) then
        (case a of
           SmCall pc \<Rightarrow> if sm_pcs c ! i = SmIdle \<and> pc \<in> {SmPost, SmWait, SmTry} \<and> allow i pc
             then Some (c\<lparr>sm_pcs := (sm_pcs c)[i := pc]\<rparr>) else None
         | SmWake \<Rightarrow> if sm_pcs c ! i = SmBlocked then Some (c\<lparr>sm_pcs := (sm_pcs c)[i := SmWait]\<rparr>) else None
         | SmGo k \<Rightarrow> sm_go i k c)
      else None)"

definition sm_step :: "(nat \<Rightarrow> sm_pc \<Rightarrow> bool) \<Rightarrow> sm_state \<Rightarrow> sm_state \<Rightarrow> bool" where
  "sm_step allow c c' \<longleftrightarrow> (\<exists>i a. sm_next allow i a c = Some c')"

definition sm_start :: "u32 \<Rightarrow> nat \<Rightarrow> sm_state \<Rightarrow> bool" where
  "sm_start uiValue n c \<longleftrightarrow> c = \<lparr>sm_sem = custom_sem_init uiValue, sm_pcs = replicate n SmIdle\<rparr>"

section \<open>Posts and waits\<close>

definition only_post_wait :: "(nat \<Rightarrow> sm_pc \<Rightarrow> bool) \<Rightarrow> bool" where
  "only_post_wait allow \<longleftrightarrow> (\<forall>i. \<not> allow i SmTry)"

definition one_waits :: "(nat \<Rightarrow> sm_pc \<Rightarrow> bool) \<Rightarrow> bool" where
  "one_waits allow \<longleftrightarrow> (\<forall>i. allow i SmWait \<longrightarrow> i = 0)"

definition sm_counts :: "u32 \<Rightarrow> sem \<Rightarrow> bool" where
  "sm_counts uiValue s \<longleftrightarrow> (unat uiValue + length (sm_posts s) < 2 ^ 32 \<longrightarrow>
     unat (sm_uiValue s) + length (sm_takes s) = unat uiValue + length (sm_posts s))"

definition sm_waiter :: "sm_state \<Rightarrow> bool" where
  "sm_waiter c \<longleftrightarrow> (\<forall>i < length (sm_pcs c). sm_pcs c ! i \<in> {SmWait, SmBlocked} \<longrightarrow> i = 0) \<and>
     (SmBlocked \<in> set (sm_pcs c) \<longrightarrow> sm_uiValue (sm_sem c) = 0)"

definition sm_inv :: "(nat \<Rightarrow> sm_pc \<Rightarrow> bool) \<Rightarrow> u32 \<Rightarrow> sm_state \<Rightarrow> bool" where
  "sm_inv allow uiValue c \<longleftrightarrow> only_post_wait allow \<and> sm_mutex (sm_sem c) = None \<and> SmTry \<notin> set (sm_pcs c) \<and>
     SmAborted \<notin> set (sm_pcs c) \<and> sm_counts uiValue (sm_sem c) \<and> (one_waits allow \<longrightarrow> sm_waiter c)"

lemma free_post: "sm_mutex s = None \<Longrightarrow>
    custom_sem_post i s = Some (s\<lparr>sm_uiValue := sm_uiValue s + 1, sm_posts := sm_posts s @ [i]\<rparr>, sm_uiValue s = 0)"
  by (simp add: custom_sem_post_def mutex_lock_def mutex_trylock_def mutex_unlock_def Let_def)

lemma free_wait: "sm_mutex s = None \<Longrightarrow> custom_sem_wait i s =
    Some (if sm_uiValue s = 0 then (s, SmBlocked) else (s\<lparr>sm_uiValue := sm_uiValue s - 1, sm_takes := sm_takes s @ [i]\<rparr>, SmIdle))"
  by (simp add: custom_sem_wait_def mutex_lock_def mutex_trylock_def mutex_unlock_def)

lemma counts_post: "sm_counts v s \<Longrightarrow> sm_counts v (s\<lparr>sm_uiValue := sm_uiValue s + 1, sm_posts := sm_posts s @ [i]\<rparr>)"
  by (auto simp: sm_counts_def unat_word_ariths)

lemma counts_take: "sm_counts v s \<Longrightarrow> sm_uiValue s \<noteq> 0 \<Longrightarrow>
    sm_counts v (s\<lparr>sm_uiValue := sm_uiValue s - 1, sm_takes := sm_takes s @ [i]\<rparr>)"
  using unat_gt_0 [of "sm_uiValue s"] by (auto simp: sm_counts_def unat_minus_one)

lemma in_update: "x \<in> set (xs[i := y]) \<Longrightarrow> x = y \<or> x \<in> set xs"
  using set_update_subset_insert by fast

lemma sm_step_inv:
  assumes "sm_step allow c c'" "sm_inv allow v c"
  shows "sm_inv allow v c'"
proof -
  obtain i a where n: "sm_next allow i a c = Some c'" using assms(1) by (auto simp: sm_step_def)
  then have i: "i < length (sm_pcs c)" by (auto simp: sm_next_def split: if_splits)
  have inv: "only_post_wait allow" "sm_mutex (sm_sem c) = None" "SmTry \<notin> set (sm_pcs c)" "SmAborted \<notin> set (sm_pcs c)"
    "sm_counts v (sm_sem c)" "one_waits allow \<Longrightarrow> sm_waiter c" using assms(2) by (simp_all add: sm_inv_def)
  show ?thesis
  proof (cases a)
    case (SmCall pc)
    then have c': "c' = c\<lparr>sm_pcs := (sm_pcs c)[i := pc]\<rparr>" "pc \<in> {SmPost, SmWait}" "allow i pc"
      using n i inv(1) by (auto simp: sm_next_def only_post_wait_def split: if_splits)
    have "sm_waiter c'" if "one_waits allow"
      using inv(6) [OF that] that c' i by (auto simp: sm_waiter_def one_waits_def nth_list_update dest: in_update)
    then show ?thesis using inv c' by (auto simp: sm_inv_def dest!: in_update)
  next
    case SmWake
    then have c': "c' = c\<lparr>sm_pcs := (sm_pcs c)[i := SmWait]\<rparr>" "sm_pcs c ! i = SmBlocked"
      using n i by (auto simp: sm_next_def split: if_splits)
    have "sm_waiter c'" if "one_waits allow"
      using inv(6) [OF that] c' i by (auto simp: sm_waiter_def nth_list_update dest: in_update)
    then show ?thesis using inv c' by (auto simp: sm_inv_def dest!: in_update)
  next
    case (SmGo k)
    then have g: "sm_go i k c = Some c'" using n i by (simp add: sm_next_def)
    have "sm_pcs c ! i \<in> set (sm_pcs c)" using i by simp
    with g inv consider "sm_pcs c ! i = SmPost" | "sm_pcs c ! i = SmWait" by (cases "sm_pcs c ! i") (auto simp: sm_go_def)
    then show ?thesis
    proof cases
      case 1
      let ?pcs = "(sm_pcs c)[i := SmIdle]"
      obtain pcs where p: "(if sm_uiValue (sm_sem c) = 0 then sm_signal k ?pcs else Some ?pcs) = Some pcs"
        "c' = c\<lparr>sm_sem := (sm_sem c)\<lparr>sm_uiValue := sm_uiValue (sm_sem c) + 1, sm_posts := sm_posts (sm_sem c) @ [i]\<rparr>, sm_pcs := pcs\<rparr>"
        using g 1 inv(2) by (auto simp: sm_go_def free_post bind_eq_Some_conv)
      have pcs: "x \<in> set pcs \<Longrightarrow> x = SmIdle \<or> x = SmWait \<or> x \<in> set (sm_pcs c)" for x
        using p(1) by (auto simp: sm_signal_def split: if_splits dest!: in_update)
      have "sm_waiter c'" if w: "one_waits allow"
      proof -
        have w1: "\<forall>j < length (sm_pcs c). sm_pcs c ! j \<in> {SmWait, SmBlocked} \<longrightarrow> j = 0"
          and w2: "SmBlocked \<in> set (sm_pcs c) \<longrightarrow> sm_uiValue (sm_sem c) = 0" using inv(6) [OF w] by (auto simp: sm_waiter_def)
        have 2: "\<forall>j < length ?pcs. ?pcs ! j \<in> {SmWait, SmBlocked} \<longrightarrow> j = 0" using w1 i by (auto simp: nth_list_update split: if_splits)
        have "(\<forall>j < length pcs. pcs ! j \<in> {SmWait, SmBlocked} \<longrightarrow> j = 0) \<and> SmBlocked \<notin> set pcs"
        proof (cases "sm_uiValue (sm_sem c) = 0 \<and> SmBlocked \<in> set ?pcs")
          case True
          then have k: "k < length ?pcs" "?pcs ! k = SmBlocked" "pcs = ?pcs[k := SmWait]"
            using p(1) by (auto simp: sm_signal_def split: if_splits)
          then have "k = 0" using 2 by auto
          with k 2 show ?thesis by (auto simp: in_set_conv_nth nth_list_update split: if_splits)
        next
          case False
          then have "pcs = ?pcs" "SmBlocked \<notin> set ?pcs" using p(1) w2 by (auto simp: sm_signal_def split: if_splits dest: in_update)
          with 2 show ?thesis by simp
        qed
        then show ?thesis by (auto simp: sm_waiter_def p(2))
      qed
      then show ?thesis using inv p(2) counts_post [OF inv(5)] by (auto simp: sm_inv_def dest: pcs)
    next
      case 2
      show ?thesis
      proof (cases "sm_uiValue (sm_sem c) = 0")
        case True
        then have c': "c' = c\<lparr>sm_pcs := (sm_pcs c)[i := SmBlocked]\<rparr>" using g 2 inv(2) by (simp add: sm_go_def free_wait)
        have "sm_waiter c'" if "one_waits allow"
          using inv(6) [OF that] c' 2 i True by (auto simp: sm_waiter_def nth_list_update)
        then show ?thesis using inv c' by (auto simp: sm_inv_def dest!: in_update)
      next
        case False
        then have c': "c' = c\<lparr>sm_sem := (sm_sem c)\<lparr>sm_uiValue := sm_uiValue (sm_sem c) - 1, sm_takes := sm_takes (sm_sem c) @ [i]\<rparr>,
            sm_pcs := (sm_pcs c)[i := SmIdle]\<rparr>" using g 2 inv(2) by (simp add: sm_go_def free_wait)
        have "sm_waiter c'" if "one_waits allow"
          using inv(6) [OF that] c' 2 i False by (auto simp: sm_waiter_def nth_list_update dest: in_update)
        then show ?thesis using inv c' counts_take [OF inv(5) False] by (auto simp: sm_inv_def dest!: in_update)
      qed
    qed
  qed
qed

definition sm_good :: "(nat \<Rightarrow> sm_pc \<Rightarrow> bool) \<Rightarrow> u32 \<Rightarrow> sm_state \<Rightarrow> bool" where
  "sm_good allow uiValue c \<longleftrightarrow> sm_counts uiValue (sm_sem c) \<and> sm_mutex (sm_sem c) = None \<and> SmAborted \<notin> set (sm_pcs c) \<and>
     (one_waits allow \<longrightarrow> SmBlocked \<in> set (sm_pcs c) \<longrightarrow> sm_uiValue (sm_sem c) = 0)"

interpretation semaphore: step_invariant "\<lambda>c. only_post_wait allow \<and> sm_start uiValue n c" "sm_step allow" "sm_inv allow uiValue"
  "sm_good allow uiValue"
proof
  show "only_post_wait allow \<and> sm_start uiValue n c \<Longrightarrow> sm_inv allow uiValue c" for c
    by (auto simp: sm_start_def sm_inv_def custom_sem_init_def sm_counts_def sm_waiter_def)
  show "sm_inv allow uiValue c \<Longrightarrow> sm_step allow c c' \<Longrightarrow> sm_inv allow uiValue c'" for c c' using sm_step_inv by blast
  show "sm_inv allow uiValue c \<Longrightarrow> sm_good allow uiValue c" for c by (auto simp: sm_inv_def sm_good_def sm_waiter_def)
qed

text \<open>C29: While threads post and wait, in any interleaving, the value with the waits that were let through is the
  first value with the posts, nobody is let through without one, and no mutex stays locked; and if only one
  thread waits it never sleeps while the semaphore is positive.
\<close>

theorem semaphore_counts:
  assumes "only_post_wait allow" "reachable (sm_start uiValue n) (sm_step allow) c"
  shows "(unat uiValue + length (sm_posts (sm_sem c)) < 2 ^ 32 \<longrightarrow>
      unat (sm_uiValue (sm_sem c)) + length (sm_takes (sm_sem c)) = unat uiValue + length (sm_posts (sm_sem c))) \<and>
    sm_mutex (sm_sem c) = None \<and> SmAborted \<notin> set (sm_pcs c) \<and>
    (one_waits allow \<longrightarrow> SmBlocked \<in> set (sm_pcs c) \<longrightarrow> sm_uiValue (sm_sem c) = 0)"
proof -
  have "reachable (\<lambda>c. only_post_wait allow \<and> sm_start uiValue n c) (sm_step allow) c" using assms by simp
  from semaphore.always [OF this] show ?thesis by (simp add: sm_good_def sm_counts_def)
qed

section \<open>Where it goes wrong\<close>

fun sm_exec :: "(nat \<Rightarrow> sm_pc \<Rightarrow> bool) \<Rightarrow> sm_state \<Rightarrow> (nat \<times> sm_action) list \<Rightarrow> sm_state option" where
  "sm_exec allow c [] = Some c"
| "sm_exec allow c ((i, a) # as) = (case sm_next allow i a c of None \<Rightarrow> None | Some c \<Rightarrow> sm_exec allow c as)"

lemma sm_exec_reachable:
  "reachable S (sm_step allow) c \<Longrightarrow> sm_exec allow c as = Some c' \<Longrightarrow> reachable S (sm_step allow) c'"
proof (induction allow c as rule: sm_exec.induct)
  case (2 allow c i a as)
  then show ?case by (auto split: option.splits simp: sm_step_def intro: reach_step)
qed simp

definition post_wait :: "nat \<Rightarrow> sm_pc \<Rightarrow> bool" where
  "post_wait i pc \<longleftrightarrow> pc \<noteq> SmTry"

definition sm_first :: "u32 \<Rightarrow> nat \<Rightarrow> sm_state" where
  "sm_first uiValue n = \<lparr>sm_sem = custom_sem_init uiValue, sm_pcs = replicate n SmIdle\<rparr>"

lemma sm_first_reachable: "reachable (sm_start v n) (sm_step allow) (sm_first v n)"
  by (rule reach_init) (simp add: sm_start_def sm_first_def)

text \<open>Two threads sleep, two posts follow, and the thread that the first of them woke goes on.\<close>

definition lost_post :: "sm_state option" where
  "lost_post = sm_exec post_wait (sm_first 0 3) [(0, SmCall SmWait), (0, SmGo 0), (1, SmCall SmWait), (1, SmGo 0), (2, SmCall SmPost), (2, SmGo 0),
     (2, SmCall SmPost), (2, SmGo 0), (0, SmGo 0)]"

text \<open>From there on threads only post, and nobody wakes up by itself.\<close>

definition sm_posting :: "sm_state \<Rightarrow> sm_state \<Rightarrow> bool" where
  "sm_posting c c' \<longleftrightarrow> (\<exists>i a. a \<noteq> SmWake \<and> sm_next (\<lambda>i pc. pc = SmPost) i a c = Some c')"

definition sm_lost :: "sm_state \<Rightarrow> bool" where
  "sm_lost c \<longleftrightarrow> (length (sm_posts (sm_sem c)) < 2 ^ 32 \<longrightarrow> sm_mutex (sm_sem c) = None \<and> length (sm_pcs c) = 3 \<and> sm_pcs c ! 1 = SmBlocked \<and>
     SmWait \<notin> set (sm_pcs c) \<and> SmTry \<notin> set (sm_pcs c) \<and> 2 \<le> length (sm_posts (sm_sem c)) \<and>
     unat (sm_uiValue (sm_sem c)) + 1 = length (sm_posts (sm_sem c)))"

lemma posting_lost:
  assumes l: "sm_lost c" and s: "sm_posting c c'"
  shows "sm_lost c'"
proof -
  obtain i a where a: "a \<noteq> SmWake" and n: "sm_next (\<lambda>i pc. pc = SmPost) i a c = Some c'" using s by (auto simp: sm_posting_def)
  then have i: "i < length (sm_pcs c)" by (auto simp: sm_next_def split: if_splits)
  then have m: "sm_pcs c ! i \<in> set (sm_pcs c)" by simp
  show ?thesis
  proof (cases a)
    case (SmCall pc)
    then have "c' = c\<lparr>sm_pcs := (sm_pcs c)[i := SmPost]\<rparr>" "sm_pcs c ! i = SmIdle" using n i by (auto simp: sm_next_def split: if_splits)
    with l show ?thesis by (cases "i = 1") (auto simp: sm_lost_def nth_list_update dest!: in_update)
  next
    case (SmGo k)
    then have g: "sm_go i k c = Some c'" using n i by (simp add: sm_next_def)
    show ?thesis
    proof (cases "length (sm_posts (sm_sem c')) < 2 ^ 32")
      case True
      have "length (sm_posts (sm_sem c)) \<le> length (sm_posts (sm_sem c'))"
        using g by (auto simp: sm_go_def custom_sem_post_def custom_sem_wait_def custom_sem_trywait_def Let_def bind_eq_Some_conv
            split: sm_pc.splits option.splits prod.splits if_splits)
      with True l have h: "sm_mutex (sm_sem c) = None" "length (sm_pcs c) = 3" "sm_pcs c ! 1 = SmBlocked" "SmWait \<notin> set (sm_pcs c)"
        "SmTry \<notin> set (sm_pcs c)" "2 \<le> length (sm_posts (sm_sem c))" "unat (sm_uiValue (sm_sem c)) + 1 = length (sm_posts (sm_sem c))"
        by (auto simp: sm_lost_def)
      then have v: "sm_uiValue (sm_sem c) \<noteq> 0" by (auto simp flip: unat_eq_0)
      have "sm_pcs c ! i = SmPost" using g h m by (cases "sm_pcs c ! i") (auto simp: sm_go_def)
      moreover from this h(3) have "i \<noteq> 1" by auto
      ultimately have c': "c' = c\<lparr>sm_sem := (sm_sem c)\<lparr>sm_uiValue := sm_uiValue (sm_sem c) + 1, sm_posts := sm_posts (sm_sem c) @ [i]\<rparr>, sm_pcs := (sm_pcs c)[i := SmIdle]\<rparr>"
        "i \<noteq> 1" using g h(1) v by (auto simp: sm_go_def free_post)
      have "unat (sm_uiValue (sm_sem c) + 1) = unat (sm_uiValue (sm_sem c)) + 1"
        using h(7) True c'(1) by (intro unat_plus_simple [THEN iffD1, THEN trans]) (auto simp: unat_word_ariths word_le_nat_alt)
      with h c' show ?thesis by (auto simp: sm_lost_def dest!: in_update)
    qed (simp add: sm_lost_def)
  qed (use a in simp)
qed

text \<open>C40: With two threads that wait a post is lost: the second of two posts does not signal, because the value is not
  1 any more.  One of the two is let through, and the other sleeps on, however many threads post after that (up to \<open>2 ^ 32\<close> posts), with a value that
  grows with each, as long as nobody begins another wait and it does not wake up by itself.
\<close>

theorem semaphore_loses_post:
  assumes "lost_post = Some c" "reachable (\<lambda>x. x = c) sm_posting c'" "length (sm_posts (sm_sem c')) < 2 ^ 32"
  shows "reachable (sm_start 0 3) (sm_step post_wait) c \<and> sm_posts (sm_sem c) = [2, 2] \<and> sm_takes (sm_sem c) = [0] \<and>
    sm_pcs c' ! 1 = SmBlocked \<and> unat (sm_uiValue (sm_sem c')) + 1 = length (sm_posts (sm_sem c'))"
proof -
  have "case lost_post of None \<Rightarrow> False
    | Some c \<Rightarrow> sm_pcs c = [SmIdle, SmBlocked, SmIdle] \<and> sm_uiValue (sm_sem c) = 1 \<and> sm_mutex (sm_sem c) = None \<and> sm_posts (sm_sem c) = [2, 2] \<and>
        sm_takes (sm_sem c) = [0]" by code_simp
  then have c: "sm_pcs c = [SmIdle, SmBlocked, SmIdle]" "sm_uiValue (sm_sem c) = 1" "sm_mutex (sm_sem c) = None" "sm_posts (sm_sem c) = [2, 2]"
    "sm_takes (sm_sem c) = [0]" unfolding assms(1) by simp_all
  have "sm_lost c'" using assms(2)
  proof induction
    case (reach_init x)
    with c show ?case by (simp add: sm_lost_def)
  qed (rule posting_lost)
  with assms(3) c(4,5) sm_exec_reachable [OF sm_first_reachable assms(1) [unfolded lost_post_def]] show ?thesis by (simp add: sm_lost_def)
qed

theorem semaphore_loses_post_witness:
  "\<exists>c c'. lost_post = Some c \<and> sm_exec (\<lambda>i pc. pc = SmPost) c [(2, SmCall SmPost), (2, SmGo 1)] = Some c' \<and> sm_pcs c' ! 1 = SmBlocked \<and>
     sm_uiValue (sm_sem c') = 2"
proof -
  have "case lost_post of None \<Rightarrow> False
    | Some c \<Rightarrow> (case sm_next (\<lambda>i pc. pc = SmPost) 2 (SmCall SmPost) c of None \<Rightarrow> False
      | Some d \<Rightarrow> (case sm_next (\<lambda>i pc. pc = SmPost) 2 (SmGo 1) d of None \<Rightarrow> False
        | Some e \<Rightarrow> length (sm_posts (sm_sem e)) = 3 \<and> sm_uiValue (sm_sem e) = 2))" by code_simp
  then obtain c d e where c: "lost_post = Some c" and d: "sm_next (\<lambda>i pc. pc = SmPost) 2 (SmCall SmPost) c = Some d"
    and e: "sm_next (\<lambda>i pc. pc = SmPost) 2 (SmGo 1) d = Some e" "length (sm_posts (sm_sem e)) = 3" "sm_uiValue (sm_sem e) = 2"
    by (auto split: option.splits)
  have "reachable (\<lambda>x. x = c) sm_posting c" by (rule reach_init) simp
  moreover have s: "sm_posting c d" "sm_posting d e" unfolding sm_posting_def using d e(1) by blast+
  ultimately have r: "reachable (\<lambda>x. x = c) sm_posting e" by (blast intro: reach_step)
  from semaphore_loses_post [OF c r] e(2) have "sm_pcs e ! 1 = SmBlocked" by simp
  with c d e show ?thesis by auto
qed

text \<open>A thread that keeps the mutex keeps it, and nobody else posts or is let through.\<close>

definition others :: "nat \<Rightarrow> sem \<Rightarrow> nat list \<times> nat list" where
  "others i s = (filter (\<lambda>j. j \<noteq> i) (sm_posts s), filter (\<lambda>j. j \<noteq> i) (sm_takes s))"

lemma held_step:
  assumes "sm_step allow c c'" "sm_mutex (sm_sem c) = Some (i, n)" "0 < n"
  shows "(\<exists>n' > 0. sm_mutex (sm_sem c') = Some (i, n')) \<and> others i (sm_sem c') = others i (sm_sem c)"
proof -
  obtain j a where n: "sm_next allow j a c = Some c'" using assms(1) by (auto simp: sm_step_def)
  show ?thesis
  proof (cases a)
    case (SmGo k)
    then have "sm_go j k c = Some c'" using n by (auto simp: sm_next_def split: if_splits)
    with assms(2,3) show ?thesis
      by (cases "j = i"; cases "sm_pcs c ! j")
        (auto simp: sm_go_def custom_sem_post_def custom_sem_wait_def custom_sem_trywait_def mutex_lock_def mutex_trylock_def
          mutex_unlock_def others_def Let_def bind_eq_Some_conv split: if_splits)
  qed (use n assms(2,3) in \<open>auto simp: sm_next_def split: if_splits\<close>)
qed

lemma held_forever:
  assumes "reachable (\<lambda>x. x = c) (sm_step allow) c'" "sm_mutex (sm_sem c) = Some (i, n)" "0 < n"
  shows "(\<exists>n' > 0. sm_mutex (sm_sem c') = Some (i, n')) \<and> others i (sm_sem c') = others i (sm_sem c)"
  using assms(1)
proof induction
  case (reach_step x y)
  then show ?case using held_step [of allow x y i] by auto
qed (use assms(2,3) in auto)

text \<open>Trying to wait never succeeds: on a free semaphore, whatever its value, it fails and keeps the mutex, and from then on no other
  thread posts or is let through, ever; on one that another thread has locked it ends the program.
\<close>

theorem trywait_keeps_mutex:
  assumes "i < length (sm_pcs c)" "sm_pcs c ! i = SmTry" "sm_mutex (sm_sem c) = None"
  shows "custom_sem_trywait i (sm_sem c) = Some ((sm_sem c)\<lparr>sm_mutex := Some (i, 1)\<rparr>, False) \<and>
    (\<exists>c1. sm_next allow i (SmGo k) c = Some c1 \<and>
      (\<forall>c2. reachable (\<lambda>x. x = c1) (sm_step allow) c2 \<longrightarrow>
         others i (sm_sem c2) = others i (sm_sem c) \<and> (\<exists>n. sm_mutex (sm_sem c2) = Some (i, n)) \<and>
         (\<forall>j. j \<noteq> i \<longrightarrow> custom_sem_trywait j (sm_sem c2) = None)))"
proof -
  have t: "custom_sem_trywait i (sm_sem c) = Some ((sm_sem c)\<lparr>sm_mutex := Some (i, 1)\<rparr>, False)"
    using assms(3) by (simp add: custom_sem_trywait_def mutex_trylock_def)
  let ?c1 = "c\<lparr>sm_sem := (sm_sem c)\<lparr>sm_mutex := Some (i, 1)\<rparr>, sm_pcs := (sm_pcs c)[i := SmIdle]\<rparr>"
  have s: "sm_next allow i (SmGo k) c = Some ?c1" using assms t by (simp add: sm_next_def sm_go_def)
  have "others i (sm_sem c2) = others i (sm_sem c) \<and> (\<exists>n. sm_mutex (sm_sem c2) = Some (i, n)) \<and>
      (\<forall>j. j \<noteq> i \<longrightarrow> custom_sem_trywait j (sm_sem c2) = None)"
    if "reachable (\<lambda>x. x = ?c1) (sm_step allow) c2" for c2
  proof -
    have "(\<exists>n' > 0. sm_mutex (sm_sem c2) = Some (i, n')) \<and> others i (sm_sem c2) = others i (sm_sem ?c1)"
      using held_forever [OF that, of i 1] by simp
    then obtain n where n: "sm_mutex (sm_sem c2) = Some (i, n)" "others i (sm_sem c2) = others i (sm_sem c)"
      by (auto simp: others_def)
    then have "custom_sem_trywait j (sm_sem c2) = None" if "j \<noteq> i" for j
      using that by (simp add: custom_sem_trywait_def mutex_trylock_def mutex_unlock_def)
    with n show ?thesis by blast
  qed
  with t s show ?thesis by blast
qed

section \<open>Examples\<close>

theorem semaphore_counts_witness:
  "\<exists>c. reachable (sm_start 1 2) (sm_step post_wait) c \<and> sm_takes (sm_sem c) = [0] \<and> sm_uiValue (sm_sem c) = 1"
proof -
  let ?as = "[(0, SmCall SmWait), (0, SmGo 0), (1, SmCall SmPost), (1, SmGo 0)]"
  have "case sm_exec post_wait (sm_first 1 2) ?as of None \<Rightarrow> False
    | Some c \<Rightarrow> sm_posts (sm_sem c) = [1] \<and> sm_takes (sm_sem c) = [0]" by code_simp
  then obtain c where c: "sm_exec post_wait (sm_first 1 2) ?as = Some c" "sm_posts (sm_sem c) = [1]" "sm_takes (sm_sem c) = [0]"
    by (auto split: option.splits)
  have r: "reachable (sm_start 1 2) (sm_step post_wait) c" by (rule sm_exec_reachable [OF sm_first_reachable c(1)])
  have "unat (sm_uiValue (sm_sem c)) = unat (1 :: u32)"
    using semaphore_counts [OF _ r] c by (simp add: only_post_wait_def post_wait_def)
  then have "sm_uiValue (sm_sem c) = 1" by (rule word_unat_eq_iff [THEN iffD2])
  with r c show ?thesis by blast
qed

theorem trywait_keeps_mutex_witness:
  "\<exists>c c1. reachable (sm_start 5 2) (sm_step (\<lambda>_ _. True)) c \<and> sm_next (\<lambda>_ _. True) 0 (SmGo 0) c = Some c1 \<and>
     custom_sem_trywait 1 (sm_sem c1) = None"
proof -
  have "case sm_exec (\<lambda>_ _. True) (sm_first 5 2) [(0, SmCall SmTry)] of None \<Rightarrow> False
    | Some c \<Rightarrow> sm_pcs c = [SmTry, SmIdle] \<and> sm_mutex (sm_sem c) = None" by code_simp
  then obtain c where c: "sm_exec (\<lambda>_ _. True) (sm_first 5 2) [(0, SmCall SmTry)] = Some c" "sm_pcs c = [SmTry, SmIdle]"
    "sm_mutex (sm_sem c) = None" by (auto split: option.splits)
  have r: "reachable (sm_start 5 2) (sm_step (\<lambda>_ _. True)) c" by (rule sm_exec_reachable [OF sm_first_reachable c(1)])
  have "0 < length (sm_pcs c)" "sm_pcs c ! 0 = SmTry" using c(2) by simp_all
  from trywait_keeps_mutex [OF this c(3), of "\<lambda>_ _. True" 0] obtain c1 where
    c1: "sm_next (\<lambda>_ _. True) 0 (SmGo 0) c = Some c1"
    "\<forall>c2. reachable (\<lambda>x. x = c1) (sm_step (\<lambda>_ _. True)) c2 \<longrightarrow> (\<forall>j. j \<noteq> 0 \<longrightarrow> custom_sem_trywait j (sm_sem c2) = None)" by blast
  have "reachable (\<lambda>x. x = c1) (sm_step (\<lambda>_ _. True)) c1" by (rule reach_init) simp
  with c1(2) have "custom_sem_trywait 1 (sm_sem c1) = None" by simp
  with r c1(1) show ?thesis by blast
qed

end
