(* ===== verification/ThreadLocal.thy ===== *)
theory ThreadLocal
  imports Prelude Interfaces
begin

text \<open>
  Thread local values, \<open>setTlsValue\<close> and \<open>getTlsValue\<close> of \<open>core/source/thread/pthread/thread_t.c\<close>, in one thread: a tree of
  nodes with a key, a value and the function that cleans the value up, which the thread reaches through a key of
  pthreads.  The red-black tree of \<open>rbtree_t.h\<close>, macros taken over from BSD, is not translated: it
  appears by its contract, the list of its nodes in the order of their keys.  A key is the address it is; what
  \<open>pthread_key_create\<close> returns as the key and whether \<open>pthread_setspecific\<close> succeeds are parameters.
\<close>

section \<open>State\<close>

record tlsDataNode =
  tn_pKey :: nat
  tn_fn :: "nat option"
  tn_pTlsValue :: "nat option"

text \<open>The key of pthreads with the flag of \<open>callOnce\<close>, and what is stored under it.  The calls of clean-up functions are recorded with
  their arguments.\<close>

record tls =
  tl_sTlsKey :: u32
  tl_initFlag :: bool
  tl_specific :: "tlsDataNode list option"
  tl_calls :: "(nat \<times> nat) list"

record tls_env =
  te_key :: u32
  te_setspecific :: bool

definition tls_init :: tls where
  "tls_init = \<lparr>tl_sTlsKey = 0, tl_initFlag = False, tl_specific = None, tl_calls = []\<rparr>"

definition rb_find :: "nat \<Rightarrow> tlsDataNode list \<Rightarrow> tlsDataNode option" where
  "rb_find k t = List.find (\<lambda>n. tn_pKey n = k) t"

definition rb_insert :: "tlsDataNode \<Rightarrow> tlsDataNode list \<Rightarrow> tlsDataNode list" where
  "rb_insert n t = (if rb_find (tn_pKey n) t = None then insort_key tn_pKey n t else t)"

definition rb_remove :: "nat \<Rightarrow> tlsDataNode list \<Rightarrow> tlsDataNode list" where
  "rb_remove k t = filter (\<lambda>n. tn_pKey n \<noteq> k) t"

section \<open>Functions\<close>

definition cleanup :: "nat option \<Rightarrow> nat option \<Rightarrow> (nat \<times> nat) list" where
  "cleanup fn v = (case (fn, v) of (Some f, Some x) \<Rightarrow> [(f, x)] | _ \<Rightarrow> [])"

definition tls_destructor :: "tlsDataNode list option \<Rightarrow> (nat \<times> nat) list" where
  "tls_destructor d = (case d of None \<Rightarrow> [] | Some t \<Rightarrow> concat (map (\<lambda>n. cleanup (tn_fn n) (tn_pTlsValue n)) t))"

definition setThreadTlsData :: "tls_env \<Rightarrow> tlsDataNode list \<Rightarrow> tls \<Rightarrow> bool \<times> tls" where
  "setThreadTlsData env d s =
     (let s = (if tl_initFlag s then s else s\<lparr>tl_initFlag := True, tl_sTlsKey := te_key env\<rparr>) in
      if te_setspecific env then (True, s\<lparr>tl_specific := Some d\<rparr>) else (False, s))"

definition getThreadTlsData :: "tls \<Rightarrow> tlsDataNode list option" where
  "getThreadTlsData s = (if tl_sTlsKey s = 0 then None else tl_specific s)"

definition getCurrentThreadData :: "tls_env \<Rightarrow> tls \<Rightarrow> tlsDataNode list option \<times> tls" where
  "getCurrentThreadData env s =
     (case getThreadTlsData s of
        Some d \<Rightarrow> (Some d, s)
      | None \<Rightarrow> (case setThreadTlsData env [] s of (ok, s) \<Rightarrow> if ok then (Some [], s) else (None, s)))"

definition findTlsDataNode :: "nat \<Rightarrow> tls \<Rightarrow> tlsDataNode option" where
  "findTlsDataNode pKey s = (case getThreadTlsData s of Some d \<Rightarrow> rb_find pKey d | None \<Rightarrow> None)"

definition getTlsValue :: "nat \<Rightarrow> tls \<Rightarrow> nat option" where
  "getTlsValue pKey s = (case findTlsDataNode pKey s of Some n \<Rightarrow> tn_pTlsValue n | None \<Rightarrow> None)"

text \<open>The data that is returned is the one the thread has just been given, so a change of it is one of \<open>tl_specific\<close>.\<close>

definition addTlsDataNode :: "tls_env \<Rightarrow> nat \<Rightarrow> nat option \<Rightarrow> nat option \<Rightarrow> tls \<Rightarrow> tls option" where
  "addTlsDataNode env pKey fn pTlsData s =
     (case getCurrentThreadData env s of
        (Some d, s) \<Rightarrow> Some (s\<lparr>tl_specific := Some (rb_insert \<lparr>tn_pKey = pKey, tn_fn = fn, tn_pTlsValue = pTlsData\<rparr> d)\<rparr>)
      | (None, s) \<Rightarrow> None)"

definition eraseTlsDataNode :: "tls_env \<Rightarrow> nat \<Rightarrow> tls \<Rightarrow> tls option" where
  "eraseTlsDataNode env pKey s =
     (case getCurrentThreadData env s of
        (Some d, s) \<Rightarrow> Some (if rb_find pKey d \<noteq> None then s\<lparr>tl_specific := Some (rb_remove pKey d)\<rparr> else s)
      | (None, s) \<Rightarrow> None)"

definition rb_update :: "(tlsDataNode \<Rightarrow> tlsDataNode) \<Rightarrow> nat \<Rightarrow> tlsDataNode list \<Rightarrow> tlsDataNode list" where
  "rb_update f k t = map (\<lambda>n. if tn_pKey n = k then f n else n) t"

definition setTlsValue :: "tls_env \<Rightarrow> nat \<Rightarrow> nat option \<Rightarrow> nat option \<Rightarrow> bool \<Rightarrow> tls \<Rightarrow> tls option" where
  "setTlsValue env pKey fn pTlsData bExitCleanup s =
     (case findTlsDataNode pKey s of
        Some n \<Rightarrow>
          let s = (if bExitCleanup then s\<lparr>tl_calls := tl_calls s @ cleanup (tn_fn n) (tn_pTlsValue n)\<rparr> else s) in
          if fn \<noteq> None \<or> pTlsData \<noteq> None
          then Some (s\<lparr>tl_specific := map_option (rb_update (\<lambda>n. n\<lparr>tn_fn := fn, tn_pTlsValue := pTlsData\<rparr>) pKey) (tl_specific s)\<rparr>)
          else eraseTlsDataNode env pKey s
      | None \<Rightarrow> if fn \<noteq> None \<or> pTlsData \<noteq> None then addTlsDataNode env pKey fn pTlsData s else Some s)"

text \<open>The end of the thread: pthreads hands what is stored to the destructor.\<close>

definition tls_exit :: "tls \<Rightarrow> (nat \<times> nat) list" where
  "tls_exit s = tl_calls s @ tls_destructor (tl_specific s)"

section \<open>The values are a map\<close>

text \<open>What the calls are meant to do: a map from keys to functions and values, the clean-ups that a call makes, and those at the end,
  in the order of the keys.\<close>

type_synonym tls_map = "nat \<rightharpoonup> nat option \<times> nat option"
type_synonym tls_op = "nat \<times> nat option \<times> nat option \<times> bool"

fun spec_set :: "tls_map \<Rightarrow> tls_op \<Rightarrow> ((nat \<times> nat) list \<times> tls_map) option" where
  "spec_set m (k, fn, v, b) =
     Some (case m k of Some (f, x) \<Rightarrow> if b then cleanup f x else [] | None \<Rightarrow> [],
       m(k := if fn \<noteq> None \<or> v \<noteq> None then Some (fn, v) else None))"

definition spec_exit :: "tls_map \<Rightarrow> (nat \<times> nat) list" where
  "spec_exit m = concat (map (\<lambda>k. case m k of Some (f, x) \<Rightarrow> cleanup f x | None \<Rightarrow> []) (sorted_list_of_set (dom m)))"

fun tls_set :: "tls_env \<Rightarrow> tls \<Rightarrow> tls_op \<Rightarrow> ((nat \<times> nat) list \<times> tls) option" where
  "tls_set env s (k, fn, v, b) =
     map_option (\<lambda>s'. (drop (length (tl_calls s)) (tl_calls s'), s')) (setTlsValue env k fn v b s)"

definition tree_map :: "tlsDataNode list \<Rightarrow> tls_map" where
  "tree_map t k = map_option (\<lambda>n. (tn_fn n, tn_pTlsValue n)) (rb_find k t)"

definition tree_ok :: "tlsDataNode list \<Rightarrow> bool" where
  "tree_ok t \<longleftrightarrow> sorted (map tn_pKey t) \<and> distinct (map tn_pKey t)"

definition tls_rel :: "tls_env \<Rightarrow> tls \<Rightarrow> tls_map \<Rightarrow> bool" where
  "tls_rel env s m \<longleftrightarrow> te_key env \<noteq> 0 \<and> te_setspecific env \<and>
     (case tl_specific s of
        None \<Rightarrow> m = Map.empty \<and> \<not> tl_initFlag s \<and> tl_sTlsKey s = 0
      | Some t \<Rightarrow> tl_initFlag s \<and> tl_sTlsKey s \<noteq> 0 \<and> tree_ok t \<and> m = tree_map t)"

lemma find_key: "rb_find k t = Some n \<Longrightarrow> tn_pKey n = k \<and> n \<in> set t"
  by (auto simp: rb_find_def find_Some_iff)

lemma find_none: "rb_find k t = None \<longleftrightarrow> k \<notin> tn_pKey ` set t"
  by (auto simp: rb_find_def find_None_iff)

lemma find_Cons: "rb_find k (n # t) = (if tn_pKey n = k then Some n else rb_find k t)"
  by (simp add: rb_find_def)

lemma insort_nodes:
  "tree_ok t \<Longrightarrow> tn_pKey n \<notin> tn_pKey ` set t \<Longrightarrow> tree_ok (insort_key tn_pKey n t) \<and>
    rb_find k (insort_key tn_pKey n t) = (if tn_pKey n = k then Some n else rb_find k t)"
  by (induction t) (auto simp: tree_ok_def find_Cons set_insort_key)

lemma update_nodes:
  "(\<And>n. tn_pKey (f n) = tn_pKey n) \<Longrightarrow> map tn_pKey (rb_update f k t) = map tn_pKey t \<and>
    rb_find j (rb_update f k t) = (if j = k then map_option f (rb_find j t) else rb_find j t)"
  by (induction t) (auto simp: rb_update_def rb_find_def)

lemma remove_nodes: "rb_find j (rb_remove k t) = (if j = k then None else rb_find j t)"
  by (induction t) (auto simp: rb_remove_def rb_find_def)

lemma remove_ok: "tree_ok t \<Longrightarrow> tree_ok (rb_remove k t)"
  unfolding tree_ok_def rb_remove_def by (simp add: distinct_map_filter sorted_filter)

lemma tree_map_simps:
  "tree_map [] = Map.empty" "tree_map t k = None \<longleftrightarrow> rb_find k t = None"
  by (auto simp: tree_map_def rb_find_def)

lemma tree_find: "tree_map t k = (case rb_find k t of None \<Rightarrow> None | Some n \<Rightarrow> Some (tn_fn n, tn_pTlsValue n))"
  by (simp add: tree_map_def split: option.split)

lemma tls_sim:
  assumes "tls_rel env s m" "spec_set m op = Some (r, m')"
  shows "\<exists>s'. tls_set env s op = Some (r, s') \<and> tls_rel env s' m'"
proof -
  obtain k fn v b where op: "op = (k, fn, v, b)" by (metis prod_cases4)
  have env: "te_key env \<noteq> 0" "te_setspecific env" using assms(1) by (simp_all add: tls_rel_def)
  have m': "m' = m(k := if fn \<noteq> None \<or> v \<noteq> None then Some (fn, v) else None)"
    and r: "r = (case m k of Some (f, x) \<Rightarrow> if b then cleanup f x else [] | None \<Rightarrow> [])" using assms(2) op by simp_all
  show ?thesis
  proof (cases "tl_specific s")
    case None
    then have s: "m = Map.empty" "\<not> tl_initFlag s" "tl_sTlsKey s = 0" using assms(1) by (simp_all add: tls_rel_def)
    have g: "findTlsDataNode k s = None" using s by (simp add: findTlsDataNode_def getThreadTlsData_def)
    show ?thesis
    proof (cases "fn \<noteq> None \<or> v \<noteq> None")
      case True
      let ?n = "\<lparr>tn_pKey = k, tn_fn = fn, tn_pTlsValue = v\<rparr>"
      let ?s = "s\<lparr>tl_initFlag := True, tl_sTlsKey := te_key env, tl_specific := Some [?n]\<rparr>"
      have "setTlsValue env k fn v b s = Some ?s"
        using True s env g by (simp add: setTlsValue_def addTlsDataNode_def getCurrentThreadData_def getThreadTlsData_def
            setThreadTlsData_def rb_insert_def rb_find_def)
      moreover have "tls_rel env ?s m'"
        using True m' s env by (auto simp: tls_rel_def tree_ok_def tree_map_def rb_find_def fun_eq_iff)
      ultimately show ?thesis using r op s by (intro exI [of _ ?s]) simp
    qed (use g s assms op in \<open>simp add: setTlsValue_def\<close>)
  next
    case (Some t)
    then have s: "tl_initFlag s" "tl_sTlsKey s \<noteq> 0" "tree_ok t" "m = tree_map t" using assms(1) by (simp_all add: tls_rel_def)
    have g: "getThreadTlsData s = Some t" "findTlsDataNode k s = rb_find k t"
      using s Some by (simp_all add: getThreadTlsData_def findTlsDataNode_def)
    show ?thesis
    proof (cases "rb_find k t")
      case None
      show ?thesis
      proof (cases "fn \<noteq> None \<or> v \<noteq> None")
        case True
        let ?n = "\<lparr>tn_pKey = k, tn_fn = fn, tn_pTlsValue = v\<rparr>"
        let ?t = "insort_key tn_pKey ?n t"
        have i: "tree_ok ?t" "rb_find j ?t = (if k = j then Some ?n else rb_find j t)" for j
          using insort_nodes [of t ?n] s(3) None by (simp_all add: find_none)
        have "setTlsValue env k fn v b s = Some (s\<lparr>tl_specific := Some ?t\<rparr>)"
          using True g None by (simp add: setTlsValue_def addTlsDataNode_def getCurrentThreadData_def rb_insert_def)
        moreover have "tree_map ?t = (tree_map t)(k \<mapsto> (fn, v))" by (rule ext) (simp add: tree_map_def i(2))
        then have "tls_rel env (s\<lparr>tl_specific := Some ?t\<rparr>) m'" using True m' s env i(1) by (simp add: tls_rel_def)
        ultimately show ?thesis using r op s None by (intro exI [of _ "s\<lparr>tl_specific := Some ?t\<rparr>"]) (simp add: tree_find)
      next
        case False
        then have "m' = m" "r = []" using m' r s None by (auto simp: tree_find fun_upd_idem)
        with False show ?thesis using g None assms(1) op by (simp add: setTlsValue_def)
      qed
    next
      case n: (Some n)
      let ?c = "if b then cleanup (tn_fn n) (tn_pTlsValue n) else []"
      have r: "r = ?c" using r s n by (simp add: tree_find)
      show ?thesis
      proof (cases "fn \<noteq> None \<or> v \<noteq> None")
        case True
        let ?t = "rb_update (\<lambda>n. n\<lparr>tn_fn := fn, tn_pTlsValue := v\<rparr>) k t"
        let ?s = "s\<lparr>tl_calls := tl_calls s @ ?c, tl_specific := Some ?t\<rparr>"
        have "setTlsValue env k fn v b s = Some ?s" using True g n Some by (auto simp: setTlsValue_def Let_def)
        moreover have u: "map tn_pKey ?t = map tn_pKey t" "rb_find j ?t = (if j = k then map_option (\<lambda>n. n\<lparr>tn_fn := fn, tn_pTlsValue := v\<rparr>) (rb_find j t) else rb_find j t)" for j
          using update_nodes [of "\<lambda>n. n\<lparr>tn_fn := fn, tn_pTlsValue := v\<rparr>" k t] by simp_all
        have "tree_map ?t = (tree_map t)(k \<mapsto> (fn, v))" by (rule ext) (simp add: tree_map_def u(2) n)
        then have "tls_rel env ?s m'" using True m' s env u(1) by (simp add: tls_rel_def tree_ok_def)
        ultimately show ?thesis using op r by (intro exI [of _ ?s]) simp
      next
        case False
        let ?s = "s\<lparr>tl_calls := tl_calls s @ ?c, tl_specific := Some (rb_remove k t)\<rparr>"
        have "setTlsValue env k fn v b s = Some ?s"
          using False g n Some s by (auto simp: setTlsValue_def Let_def eraseTlsDataNode_def getCurrentThreadData_def getThreadTlsData_def)
        moreover have "tls_rel env ?s m'"
        proof -
          have "tree_map (rb_remove k t) = (tree_map t)(k := None)" by (rule ext) (simp add: tree_map_def remove_nodes)
          then show ?thesis using False m' s env remove_ok by (simp add: tls_rel_def)
        qed
        ultimately show ?thesis using op r by (intro exI [of _ ?s]) simp
      qed
    qed
  qed
qed

interpretation tls: op_refinement "tls_set env" spec_set "tls_rel env" "\<lambda>r. r"
  by unfold_locales (rule tls_sim)

lemma node_found: "distinct (map tn_pKey t) \<Longrightarrow> n \<in> set t \<Longrightarrow> rb_find (tn_pKey n) t = Some n"
  by (induction t) (auto simp: find_Cons)

lemma exit_order:
  assumes "tree_ok t"
  shows "tls_destructor (Some t) = spec_exit (tree_map t)"
proof -
  have "dom (tree_map t) = set (map tn_pKey t)" using find_none by (auto simp: tree_map_def dom_def)
  then have "sorted_list_of_set (dom (tree_map t)) = map tn_pKey t"
    using assms by (simp add: tree_ok_def sorted_list_of_set.idem_if_sorted_distinct del: set_map)
  moreover have "\<forall>n \<in> set t. tree_map t (tn_pKey n) = Some (tn_fn n, tn_pTlsValue n)"
    using assms node_found by (simp add: tree_map_def tree_ok_def)
  ultimately show ?thesis by (auto simp: tls_destructor_def spec_exit_def intro!: arg_cong [where f = concat])
qed

text \<open>When pthreads gives a key other than 0, any calls of \<open>setTlsValue\<close> make the values a map from keys:
  \<open>getTlsValue\<close> is the look-up, a value that is replaced or dropped is cleaned up if the call says so, by the function that came with it, and those
  that are left are cleaned up at the end of the thread, in the order of the keys.
\<close>

theorem tls_is_map:
  assumes "te_key env \<noteq> 0" "te_setspecific env" "run_ops spec_set Map.empty ops = Some (rs, m)"
  shows "\<exists>s. run_ops (tls_set env) tls_init ops = Some (rs, s) \<and>
    (\<forall>k. getTlsValue k s = Option.bind (m k) snd) \<and> tls_destructor (tl_specific s) = spec_exit m"
proof -
  have "tls_rel env tls_init Map.empty" using assms(1,2) by (simp add: tls_rel_def tls_init_def)
  from tls.run_sim [OF this assms(3)] obtain s where s: "run_ops (tls_set env) tls_init ops = Some (rs, s)" "tls_rel env s m"
    by auto
  have "getTlsValue k s = Option.bind (m k) snd" for k
    using s(2) by (cases "tl_specific s") (auto simp: tls_rel_def getTlsValue_def findTlsDataNode_def getThreadTlsData_def tree_map_def
        split: option.splits)
  moreover have "tls_destructor (tl_specific s) = spec_exit m"
    using s(2) exit_order by (cases "tl_specific s") (auto simp: tls_rel_def tls_destructor_def spec_exit_def)
  ultimately show ?thesis using s(1) by blast
qed

section \<open>The key 0\<close>

lemma zero_key_set:
  assumes "te_key env = 0" "te_setspecific env" "tl_sTlsKey s = 0"
  shows "\<exists>s'. setTlsValue env k fn v b s = Some s' \<and> tl_sTlsKey s' = 0 \<and> tl_calls s' = tl_calls s \<and>
    (fn \<noteq> None \<or> v \<noteq> None \<longrightarrow> tl_specific s' = Some [\<lparr>tn_pKey = k, tn_fn = fn, tn_pTlsValue = v\<rparr>])"
  using assms by (auto simp: setTlsValue_def findTlsDataNode_def getThreadTlsData_def addTlsDataNode_def getCurrentThreadData_def
      setThreadTlsData_def rb_insert_def rb_find_def Let_def)

text \<open>When pthreads gives the key 0, which POSIX allows and glibc gives first, every look-up finds nothing, and of the
  values that were set only the last one is ever cleaned up.
\<close>

theorem tls_key_zero:
  assumes "te_key env = 0" "te_setspecific env" "v \<noteq> None" "ops = pre @ [(k, fn, v, b)]"
  shows "\<exists>rs s. run_ops (tls_set env) tls_init ops = Some (rs, s) \<and> concat rs = [] \<and> (\<forall>j. getTlsValue j s = None) \<and>
    tls_exit s = cleanup fn v"
proof -
  have one: "\<exists>s'. tls_set env s op = Some ([], s') \<and> tl_sTlsKey s' = 0 \<and> tl_calls s' = tl_calls s" if "tl_sTlsKey s = 0" for s op
  proof -
    obtain k fn v b where op: "op = (k, fn, v, b)" by (metis prod_cases4)
    from zero_key_set [OF assms(1,2) that, of k fn v b] show ?thesis unfolding op by auto
  qed
  have run: "\<exists>rs s'. run_ops (tls_set env) s xs = Some (rs, s') \<and> concat rs = [] \<and> tl_sTlsKey s' = 0 \<and> tl_calls s' = tl_calls s"
    if "tl_sTlsKey s = 0" for s xs
    using that
  proof (induction xs arbitrary: s)
    case (Cons x xs)
    from one [OF Cons.prems, of x] obtain s1 where s1: "tls_set env s x = Some ([], s1)" "tl_sTlsKey s1 = 0" "tl_calls s1 = tl_calls s" by blast
    from Cons.IH [OF s1(2)] s1 show ?case by auto
  qed simp
  from run [of tls_init pre] obtain rs s1 where r: "run_ops (tls_set env) tls_init pre = Some (rs, s1)" "concat rs = []"
    "tl_sTlsKey s1 = 0" "tl_calls s1 = []" by (auto simp: tls_init_def)
  from zero_key_set [OF assms(1,2) r(3), of k fn v b] assms(3) obtain s where s: "setTlsValue env k fn v b s1 = Some s"
    "tl_sTlsKey s = 0" "tl_calls s = []" "tl_specific s = Some [\<lparr>tn_pKey = k, tn_fn = fn, tn_pTlsValue = v\<rparr>]"
    using r(4) by auto
  have "run_ops (tls_set env) tls_init ops = Some (rs @ [[]], s)"
    using r s unfolding assms(4) by (simp add: run_ops_append)
  moreover have "getTlsValue j s = None" for j using s(2) by (simp add: getTlsValue_def findTlsDataNode_def getThreadTlsData_def)
  moreover have "tls_exit s = cleanup fn v" using s by (simp add: tls_exit_def tls_destructor_def)
  ultimately show ?thesis using r(2) by auto
qed

section \<open>Examples\<close>

definition example_ops :: "tls_op list" where
  "example_ops = [(8, Some 1, Some 100, False), (4, Some 2, Some 200, False), (8, Some 1, Some 101, True)]"

theorem tls_is_map_witness:
  "\<exists>s. run_ops (tls_set \<lparr>te_key = 1, te_setspecific = True\<rparr>) tls_init example_ops = Some ([[], [], [(1, 100)]], s) \<and>
     getTlsValue 8 s = Some 101 \<and> getTlsValue 4 s = Some 200"
proof -
  have "run_ops spec_set Map.empty example_ops = Some ([[], [], [(1, 100)]], [8 \<mapsto> (Some 1, Some 101), 4 \<mapsto> (Some 2, Some 200)])"
    by (simp add: example_ops_def cleanup_def fun_upd_twist)
  from tls_is_map [OF _ _ this, of "\<lparr>te_key = 1, te_setspecific = True\<rparr>"] show ?thesis by auto
qed

theorem tls_key_zero_witness:
  "\<exists>rs s. run_ops (tls_set \<lparr>te_key = 0, te_setspecific = True\<rparr>) tls_init [(8, Some 1, Some 100, False), (4, Some 2, Some 200, False)] = Some (rs, s) \<and>
     getTlsValue 8 s = None \<and> tls_exit s = [(2, 200)]"
  using tls_key_zero [of "\<lparr>te_key = 0, te_setspecific = True\<rparr>" "Some 200" "[(8, Some 1, Some 100, False), (4, Some 2, Some 200, False)]"
      "[(8, Some 1, Some 100, False)]" 4 "Some 2" False]
  by (auto simp: cleanup_def)

end
