(* ===== verification/ServiceMonitor.thy ===== *)
theory ServiceMonitor
  imports TimerTime Interfaces
begin

text \<open>
  The monitor of \<open>service/source/serviceMonitor_t.c\<close>: each thread that runs services has a slot, in which it notes the
  service it enters and counts up a version when it enters and leaves; a timer compares the versions with those of its
  last round and reports a service that is still in the same call.
\<close>

section \<open>State\<close>

record monitor =
  mo_iVersion :: "32 word"
  mo_iCheckVersion :: "32 word"
  mo_uiSourceID :: u32
  mo_uiDestinationID :: u32

record serviceMonitor =
  mn_uiMonitorID :: u32
  mn_pMonitorSlot :: "monitor list"
  mn_pEventTimer :: "nat option"
  mn_bRunning :: bool
  mn_iIndex :: nat

text \<open>Everything: the monitor, if there is one, the index that each thread keeps for good, the timers of the loop, and the reports, each
  the service that is reported.  The events for the monitor's service are its reports; whether it exists is a parameter of
  the check.\<close>

record monWorld =
  mw_monitor :: "serviceMonitor option"
  mw_iThreadIndex :: "nat \<rightharpoonup> nat"
  mw_timers :: timerIO
  mw_reports :: "u32 list"

definition put_monitor :: "serviceMonitor \<Rightarrow> monWorld \<Rightarrow> monWorld" where
  "put_monitor m w = w\<lparr>mw_monitor := Some m\<rparr>"

section \<open>Functions\<close>

definition monitor_init :: monitor where
  "monitor_init = \<lparr>mo_iVersion = 0, mo_iCheckVersion = 0, mo_uiSourceID = 0, mo_uiDestinationID = 0\<rparr>"

definition serviceMonitor_init :: "u32 \<Rightarrow> monWorld \<Rightarrow> monWorld" where
  "serviceMonitor_init uiNumberOfConcurrentThreads w =
     (case mw_monitor w of
        None \<Rightarrow>
          let uiMonitorSlotCount = (if uiNumberOfConcurrentThreads \<le> 0 then 1 else unat uiNumberOfConcurrentThreads) in
          put_monitor \<lparr>mn_uiMonitorID = 0, mn_pMonitorSlot = replicate uiMonitorSlotCount monitor_init, mn_pEventTimer = None,
             mn_bRunning = False, mn_iIndex = 0\<rparr> w
      | Some _ \<Rightarrow> w)"

text \<open>The timer is made at the address \<open>p\<close>; \<open>inLoop\<close>: on the thread of the timers.\<close>

definition serviceMonitor_start :: "bool \<Rightarrow> timer_cb \<Rightarrow> nat \<Rightarrow> u32 \<Rightarrow> u32 \<Rightarrow> monWorld \<Rightarrow> (bool \<times> monWorld) option" where
  "serviceMonitor_start inLoop cb p uiMonitorID uiIntervalMs w =
     (case mw_monitor w of
        Some m \<Rightarrow>
          if \<not> mn_bRunning m then do {
            (ok, t) \<leftarrow> eventTimer_start inLoop cb p (createEventTimer p False uiIntervalMs (mw_timers w));
            Some (True, put_monitor (m\<lparr>mn_uiMonitorID := uiMonitorID, mn_pEventTimer := Some p, mn_bRunning := True\<rparr>) (w\<lparr>mw_timers := t\<rparr>)) }
          else Some (False, w)
      | None \<Rightarrow> Some (False, w))"

definition serviceMonitor_stop :: "bool \<Rightarrow> timer_cb \<Rightarrow> monWorld \<Rightarrow> monWorld option" where
  "serviceMonitor_stop inLoop cb w =
     (case mw_monitor w of
        None \<Rightarrow> Some w
      | Some m \<Rightarrow>
          if mn_bRunning m then
            (case mn_pEventTimer m of
               Some p \<Rightarrow> do {
                 t \<leftarrow> eventTimer_stop inLoop cb p (mw_timers w);
                 t \<leftarrow> eventTimer_release p t;
                 Some (put_monitor (m\<lparr>mn_bRunning := False, mn_pEventTimer := None\<rparr>) (w\<lparr>mw_timers := t\<rparr>)) }
             | None \<Rightarrow> Some (put_monitor (m\<lparr>mn_bRunning := False\<rparr>) w))
          else Some w)"

definition serviceMonitor_clear :: "monWorld \<Rightarrow> monWorld" where
  "serviceMonitor_clear w = w\<lparr>mw_monitor := None\<rparr>"

text \<open>A store in a slot behind the array is undefined.\<close>

definition slot_do :: "(monitor \<Rightarrow> monitor) \<Rightarrow> nat \<Rightarrow> serviceMonitor \<Rightarrow> serviceMonitor option" where
  "slot_do f i m =
     (if i < length (mn_pMonitorSlot m) then Some (m\<lparr>mn_pMonitorSlot := (mn_pMonitorSlot m)[i := f (mn_pMonitorSlot m ! i)]\<rparr>) else None)"

definition slot_set :: "u32 \<Rightarrow> u32 \<Rightarrow> monitor \<Rightarrow> monitor" where
  "slot_set uiSourceID uiDestinationID sl =
     sl\<lparr>mo_uiSourceID := uiSourceID, mo_uiDestinationID := uiDestinationID, mo_iVersion := mo_iVersion sl + 1\<rparr>"

definition serviceMonitor_enter :: "nat \<Rightarrow> u32 \<Rightarrow> u32 \<Rightarrow> monWorld \<Rightarrow> (int \<times> monWorld) option" where
  "serviceMonitor_enter thread uiSourceID uiDestinationID w =
     (case mw_monitor w of
        None \<Rightarrow> Some (-1, w)
      | Some m \<Rightarrow> do {
          let (i, m) = (case mw_iThreadIndex w thread of
                          None \<Rightarrow> (mn_iIndex m, m\<lparr>mn_iIndex := mn_iIndex m + 1\<rparr>)
                        | Some i \<Rightarrow> (i, m));
          m \<leftarrow> slot_do (slot_set uiSourceID uiDestinationID) i m;
          Some (int i, put_monitor m (w\<lparr>mw_iThreadIndex := (mw_iThreadIndex w)(thread \<mapsto> i)\<rparr>)) })"

definition serviceMonitor_leave :: "nat \<Rightarrow> monWorld \<Rightarrow> monWorld option" where
  "serviceMonitor_leave iIndex w =
     (case mw_monitor w of
        None \<Rightarrow> Some w
      | Some m \<Rightarrow> do { m \<leftarrow> slot_do (slot_set 0 0) iIndex m; Some (put_monitor m w) })"

text \<open>The check of a slot, with what it reports, when nobody comes between; \<open>found\<close>: whether the center has the service of the monitor.\<close>

definition check_slot :: "bool \<Rightarrow> monitor \<Rightarrow> u32 list \<times> monitor" where
  "check_slot found sl =
     (let iVersion = mo_iVersion sl in
      if iVersion = mo_iCheckVersion sl then
        if mo_uiDestinationID sl \<noteq> 0 then (if found then [mo_uiDestinationID sl] else [], sl\<lparr>mo_uiDestinationID := 0\<rparr>) else ([], sl)
      else ([], sl\<lparr>mo_iCheckVersion := iVersion\<rparr>))"

definition serviceMonitor_check :: "bool \<Rightarrow> monWorld \<Rightarrow> monWorld" where
  "serviceMonitor_check found w =
     (case mw_monitor w of
        Some m \<Rightarrow>
          if mn_bRunning m then
            (let rs = map (check_slot found) (mn_pMonitorSlot m) in
             put_monitor (m\<lparr>mn_pMonitorSlot := map snd rs\<rparr>) (w\<lparr>mw_reports := mw_reports w @ concat (map fst rs)\<rparr>))
          else w
      | None \<Rightarrow> w)"

section \<open>What is reported\<close>

datatype mon_op = MonEnter nat u32 u32 | MonLeave nat

text \<open>A call of a thread, with the index of the slot it changes.\<close>

fun mon_do :: "monWorld \<Rightarrow> mon_op \<Rightarrow> (nat \<times> monWorld) option" where
  "mon_do w (MonEnter thread src dst) = map_option (\<lambda>(i, w). (nat i, w)) (serviceMonitor_enter thread src dst w)"
| "mon_do w (MonLeave i) = map_option (Pair i) (serviceMonitor_leave i w)"

definition mon_slots :: "monWorld \<Rightarrow> monitor list" where
  "mon_slots w = (case mw_monitor w of Some m \<Rightarrow> mn_pMonitorSlot m | None \<Rightarrow> [])"

definition monitoring :: "monWorld \<Rightarrow> bool" where
  "monitoring w \<longleftrightarrow> (case mw_monitor w of Some m \<Rightarrow> mn_bRunning m | None \<Rightarrow> False)"

lemma mon_do_slots:
  assumes "mon_do w op = Some (i, w')" "monitoring w"
  shows "monitoring w' \<and> mw_reports w' = mw_reports w \<and> i < length (mon_slots w) \<and>
    (\<exists>src dst. mon_slots w' = (mon_slots w)[i := slot_set src dst (mon_slots w ! i)])"
proof (cases op)
  case (MonEnter thread src dst)
  then show ?thesis using assms
    by (auto simp: serviceMonitor_enter_def slot_do_def mon_slots_def monitoring_def put_monitor_def Let_def bind_eq_Some_conv
        split: option.splits prod.splits if_splits) blast+
next
  case (MonLeave j)
  then show ?thesis using assms
    by (auto simp: serviceMonitor_leave_def slot_do_def mon_slots_def monitoring_def put_monitor_def bind_eq_Some_conv
        split: option.splits if_splits) blast+
qed

text \<open>The version of a slot counts the calls; a slot without calls stays as it is.\<close>

lemma mon_run_slots:
  assumes "run_ops mon_do w ops = Some (is, w')" "monitoring w"
  shows "monitoring w' \<and> mw_reports w' = mw_reports w \<and> length (mon_slots w') = length (mon_slots w) \<and>
    (\<forall>i < length (mon_slots w). mo_iCheckVersion (mon_slots w' ! i) = mo_iCheckVersion (mon_slots w ! i) \<and>
       mo_iVersion (mon_slots w' ! i) = mo_iVersion (mon_slots w ! i) + of_nat (count_list is i) \<and>
       (i \<notin> set is \<longrightarrow> mon_slots w' ! i = mon_slots w ! i))"
  using assms
proof (induction ops arbitrary: w "is")
  case (Cons op ops)
  from Cons.prems(1) obtain j w1 js where s: "mon_do w op = Some (j, w1)" "run_ops mon_do w1 ops = Some (js, w')" "is = j # js"
    by (auto split: Option.bind_splits)
  from mon_do_slots [OF s(1) Cons.prems(2)] obtain src dst where
    d: "monitoring w1" "mw_reports w1 = mw_reports w" "j < length (mon_slots w)" "mon_slots w1 = (mon_slots w)[j := slot_set src dst (mon_slots w ! j)]" by blast
  from Cons.IH [OF s(2) d(1)] d show ?case
    unfolding s(3) by (auto simp: nth_list_update slot_set_def)
qed simp

lemma check_slots:
  assumes "monitoring w"
  shows "monitoring (serviceMonitor_check found w)"
    "mon_slots (serviceMonitor_check found w) = map (\<lambda>sl. snd (check_slot found sl)) (mon_slots w)"
    "mw_reports (serviceMonitor_check found w) = mw_reports w @ concat (map (\<lambda>sl. fst (check_slot found sl)) (mon_slots w))"
  using assms by (auto simp: monitoring_def mon_slots_def serviceMonitor_check_def put_monitor_def Let_def comp_def split: option.splits)

lemma checked_version: "mo_iVersion (snd (check_slot found sl)) = mo_iCheckVersion (snd (check_slot found sl))"
  by (simp add: check_slot_def Let_def)

lemma concat_if: "concat (map (\<lambda>i. if P i then [f i] else []) xs) = map f (filter P xs)"
  by (induction xs) auto

lemma of_nat_moves:
  assumes "0 < k" "k < 2 ^ 32"
  shows "v + of_nat k \<noteq> (v :: 32 word)"
proof
  assume "v + of_nat k = v"
  then have "unat (of_nat k :: 32 word) = 0" by simp
  with assms show False by (simp add: unat_of_nat)
qed

text \<open>Without a thread in a call while the check runs: after any calls since the last check it reports exactly the services whose thread has
  neither left nor entered one since, in the order of the slots, and each once.\<close>

lemma undisturbed_check_reports:
  assumes "monitoring w0" "w1 = serviceMonitor_check b w0" "run_ops mon_do w1 ops = Some (is, w2)" "\<forall>i. count_list is i < 2 ^ 32"
  shows "let reported = filter (\<lambda>i. i \<notin> set is \<and> mo_uiDestinationID (mon_slots w1 ! i) \<noteq> 0) [0..<length (mon_slots w1)];
      w3 = serviceMonitor_check True w2 in
    mw_reports w3 = mw_reports w1 @ map (\<lambda>i. mo_uiDestinationID (mon_slots w1 ! i)) reported \<and>
    (\<forall>i \<in> set reported. mo_uiDestinationID (mon_slots w3 ! i) = 0)"
proof -
  note c1 = check_slots [OF assms(1), of b, folded assms(2)]
  from mon_run_slots [OF assms(3) c1(1)] have r: "monitoring w2" "mw_reports w2 = mw_reports w1" "length (mon_slots w2) = length (mon_slots w1)"
    and e: "\<And>i. i < length (mon_slots w1) \<Longrightarrow> mo_iCheckVersion (mon_slots w2 ! i) = mo_iCheckVersion (mon_slots w1 ! i) \<and>
       mo_iVersion (mon_slots w2 ! i) = mo_iVersion (mon_slots w1 ! i) + of_nat (count_list is i) \<and>
       (i \<notin> set is \<longrightarrow> mon_slots w2 ! i = mon_slots w1 ! i)" by blast+
  have v: "mo_iVersion (mon_slots w1 ! i) = mo_iCheckVersion (mon_slots w1 ! i)" if "i < length (mon_slots w1)" for i
    using that checked_version by (simp add: c1(2))
  let ?hangs = "\<lambda>i. i \<notin> set is \<and> mo_uiDestinationID (mon_slots w1 ! i) \<noteq> 0"
  have f: "fst (check_slot True (mon_slots w2 ! i)) = (if ?hangs i then [mo_uiDestinationID (mon_slots w1 ! i)] else [])"
    "?hangs i \<Longrightarrow> mo_uiDestinationID (snd (check_slot True (mon_slots w2 ! i))) = 0" if "i < length (mon_slots w1)" for i
  proof -
    have "mo_iVersion (mon_slots w2 ! i) \<noteq> mo_iCheckVersion (mon_slots w2 ! i)" if "i \<in> set is"
    proof -
      have "0 < count_list is i" using that count_list_0_iff [of "is" i] by (cases "count_list is i") auto
      then show ?thesis using e [OF \<open>i < length (mon_slots w1)\<close>] v [OF \<open>i < length (mon_slots w1)\<close>] of_nat_moves assms(4) by simp
    qed
    moreover have "mon_slots w2 ! i = mon_slots w1 ! i" if "i \<notin> set is" using e [OF \<open>i < length (mon_slots w1)\<close>] that by blast
    ultimately show "fst (check_slot True (mon_slots w2 ! i)) = (if ?hangs i then [mo_uiDestinationID (mon_slots w1 ! i)] else [])"
      "?hangs i \<Longrightarrow> mo_uiDestinationID (snd (check_slot True (mon_slots w2 ! i))) = 0"
      using v [OF that] by (cases "i \<in> set is"; simp add: check_slot_def Let_def)+
  qed
  have "map (\<lambda>sl. fst (check_slot True sl)) (mon_slots w2) = map (\<lambda>i. fst (check_slot True (mon_slots w2 ! i))) [0..<length (mon_slots w1)]"
    using map_nth [of "mon_slots w2"] unfolding r(3) by (metis (no_types, lifting) map_map comp_def map_cong)
  also have "\<dots> = map (\<lambda>i. if ?hangs i then [mo_uiDestinationID (mon_slots w1 ! i)] else []) [0..<length (mon_slots w1)]"
    by (rule map_cong [OF refl], rule f(1)) simp
  finally have rep: "concat (map (\<lambda>sl. fst (check_slot True sl)) (mon_slots w2)) =
      map (\<lambda>i. mo_uiDestinationID (mon_slots w1 ! i)) (filter ?hangs [0..<length (mon_slots w1)])"
    by (simp only: concat_if)
  have "mo_uiDestinationID (mon_slots (serviceMonitor_check True w2) ! i) = 0" if "i < length (mon_slots w1)" "?hangs i" for i
    using f(2) [OF that] that(1) r(3) by (simp add: check_slots(2) [OF r(1)])
  then show ?thesis using rep unfolding Let_def check_slots(3) [OF r(1)] r(2) by simp
qed

section \<open>Between a thread and the check\<close>

text \<open>The stores of \<open>serviceMonitor_enter\<close> to a slot, and the loads and stores of the check, one by one.\<close>

datatype en_pc = EnSource u32 u32 | EnDestination u32 | EnVersion | EnDone
datatype ck_pc = CkLoad | CkTest "32 word" | CkSend | CkClear | CkDone

fun enter_step :: "monitor \<Rightarrow> en_pc \<Rightarrow> monitor \<times> en_pc" where
  "enter_step sl (EnSource src dst) = (sl\<lparr>mo_uiSourceID := src\<rparr>, EnDestination dst)"
| "enter_step sl (EnDestination dst) = (sl\<lparr>mo_uiDestinationID := dst\<rparr>, EnVersion)"
| "enter_step sl EnVersion = (sl\<lparr>mo_iVersion := mo_iVersion sl + 1\<rparr>, EnDone)"
| "enter_step sl EnDone = (sl, EnDone)"

fun check_step :: "monitor \<Rightarrow> ck_pc \<Rightarrow> u32 list \<times> monitor \<times> ck_pc" where
  "check_step sl CkLoad = ([], sl, CkTest (mo_iVersion sl))"
| "check_step sl (CkTest iVersion) =
     (if iVersion = mo_iCheckVersion sl then ([], sl, if mo_uiDestinationID sl \<noteq> 0 then CkSend else CkDone)
      else ([], sl\<lparr>mo_iCheckVersion := iVersion\<rparr>, CkDone))"
| "check_step sl CkSend = ([mo_uiDestinationID sl], sl, CkClear)"
| "check_step sl CkClear = ([], sl\<lparr>mo_uiDestinationID := 0\<rparr>, CkDone)"
| "check_step sl CkDone = ([], sl, CkDone)"

text \<open>\<open>True\<close>: the thread; \<open>False\<close>: the check.\<close>

fun interleave :: "bool list \<Rightarrow> monitor \<Rightarrow> en_pc \<Rightarrow> ck_pc \<Rightarrow> u32 list \<times> monitor \<times> en_pc \<times> ck_pc" where
  "interleave [] sl e c = ([], sl, e, c)"
| "interleave (True # bs) sl e c = (case enter_step sl e of (sl, e) \<Rightarrow> interleave bs sl e c)"
| "interleave (False # bs) sl e c =
     (case check_step sl c of (rs, sl, c) \<Rightarrow> case interleave bs sl e c of (rs', r) \<Rightarrow> (rs @ rs', r))"

text \<open>Without the thread the steps are the check, and without the check those of the call.\<close>

lemma check_steps: "interleave [False, False, False, False] sl e CkLoad = (case check_slot True sl of (rs, sl') \<Rightarrow> (rs, sl', e, CkDone))"
  by (simp add: check_slot_def Let_def)

lemma enter_steps: "interleave [True, True, True] sl (EnSource src dst) c = ([], slot_set src dst sl, EnDone, c)"
  by (simp add: slot_set_def)

text \<open>A check that comes between the stores of a thread that enters a service reports the service, although it has just been
  entered, and then takes it out of the slot: if the call then hangs, no later check reports it.
\<close>

theorem monitor_race:
  assumes "mo_iVersion sl = mo_iCheckVersion sl" "dst \<noteq> 0"
  shows "\<exists>sl'. interleave [True, True, False, False, False, False, True] sl (EnSource src dst) CkLoad = ([dst], sl', EnDone, CkDone) \<and>
    (\<forall>n. fst (check_slot True (((\<lambda>x. snd (check_slot True x)) ^^ n) sl')) = [])"
proof -
  let ?sl = "sl\<lparr>mo_uiSourceID := src, mo_uiDestinationID := 0, mo_iVersion := mo_iVersion sl + 1\<rparr>"
  have r: "interleave [True, True, False, False, False, False, True] sl (EnSource src dst) CkLoad = ([dst], ?sl, EnDone, CkDone)"
    using assms by simp
  have "mo_uiDestinationID (((\<lambda>x. snd (check_slot True x)) ^^ n) ?sl) = 0" for n
    by (induction n) (simp_all add: check_slot_def Let_def)
  then have "fst (check_slot True (((\<lambda>x. snd (check_slot True x)) ^^ n) ?sl)) = []" for n
    by (simp add: check_slot_def Let_def)
  with r show ?thesis by blast
qed

section \<open>All threads and the check together\<close>

text \<open>The slots with the threads that own them, each out of the functions of the monitor (\<open>EnDone\<close>) or in a call; leaving is entering the
  service 0 from 0.  The check is at a slot, or behind the last one until the timer fires again.  Recorded besides: how many calls of a slot are through,
  how many were when the check loaded the version in this and in its last visit of the slot, the visits, and with each report the slot and the calls that were
  through between these two loads.\<close>

record mon_state =
  mk_slots :: "monitor list"
  mk_threads :: "en_pc list"
  mk_pos :: nat
  mk_pc :: ck_pc
  mk_reports :: "(nat \<times> u32 \<times> nat) list"
  mk_calls :: "nat list"
  mk_loaded :: nat
  mk_seen :: "nat list"
  mk_visits :: "nat list"

text \<open>The thread of a slot begins a call or makes its next store; the check makes its next load or store, \<open>found\<close> as before.\<close>

datatype mon_move = MkCall nat u32 u32 | MkGo nat | MkCheck bool

definition mk_thread :: "nat \<Rightarrow> mon_state \<Rightarrow> mon_state" where
  "mk_thread i c = (case enter_step (mk_slots c ! i) (mk_threads c ! i) of (sl, e) \<Rightarrow>
     c\<lparr>mk_slots := (mk_slots c)[i := sl], mk_threads := (mk_threads c)[i := e],
       mk_calls := (if mk_threads c ! i = EnVersion then (mk_calls c)[i := mk_calls c ! i + 1] else mk_calls c)\<rparr>)"

definition mk_check :: "bool \<Rightarrow> mon_state \<Rightarrow> mon_state" where
  "mk_check found c = (let i = mk_pos c; m = (if mk_pc c = CkLoad then mk_calls c ! i else mk_loaded c) in
     case check_step (mk_slots c ! i) (mk_pc c) of (rs, sl, pc) \<Rightarrow>
     let c = c\<lparr>mk_slots := (mk_slots c)[i := sl], mk_loaded := m,
               mk_reports := mk_reports c @ (if found then map (\<lambda>r. (i, r, m - mk_seen c ! i)) rs else [])\<rparr> in
     if pc = CkDone then c\<lparr>mk_pos := i + 1, mk_pc := CkLoad, mk_seen := (mk_seen c)[i := m], mk_visits := (mk_visits c)[i := mk_visits c ! i + 1]\<rparr>
     else c\<lparr>mk_pc := pc\<rparr>)"

fun mk_next :: "mon_move \<Rightarrow> mon_state \<Rightarrow> mon_state option" where
  "mk_next (MkCall i src dst) c =
     (if i < length (mk_slots c) \<and> mk_threads c ! i = EnDone then Some (c\<lparr>mk_threads := (mk_threads c)[i := EnSource src dst]\<rparr>) else None)"
| "mk_next (MkGo i) c = (if i < length (mk_slots c) \<and> mk_threads c ! i \<noteq> EnDone then Some (mk_thread i c) else None)"
| "mk_next (MkCheck found) c =
     Some (if mk_pos c < length (mk_slots c) then mk_check found c else c\<lparr>mk_pos := 0, mk_pc := CkLoad\<rparr>)"

fun mk_run :: "mon_move list \<Rightarrow> mon_state \<Rightarrow> mon_state option" where
  "mk_run [] c = Some c"
| "mk_run (m # ms) c = Option.bind (mk_next m c) (mk_run ms)"

definition mk_first :: "nat \<Rightarrow> mon_state" where
  "mk_first n = \<lparr>mk_slots = replicate n monitor_init, mk_threads = replicate n EnDone, mk_pos = 0, mk_pc = CkLoad, mk_reports = [],
     mk_calls = replicate n 0, mk_loaded = 0, mk_seen = replicate n 0, mk_visits = replicate n 0\<rparr>"

definition mk_step :: "mon_state \<Rightarrow> mon_state \<Rightarrow> bool" where
  "mk_step c c' \<longleftrightarrow> (\<exists>m. mk_next m c = Some c')"

text \<open>Between its visits the check has seen the calls that it loaded last; the version of a slot counts its calls.\<close>

definition mk_inv :: "mon_state \<Rightarrow> bool" where
  "mk_inv c \<longleftrightarrow> length (mk_threads c) = length (mk_slots c) \<and> length (mk_calls c) = length (mk_slots c) \<and> length (mk_seen c) = length (mk_slots c) \<and>
     length (mk_visits c) = length (mk_slots c) \<and>
     (\<forall>i < length (mk_slots c). mo_iVersion (mk_slots c ! i) = of_nat (mk_calls c ! i) \<and> mo_iCheckVersion (mk_slots c ! i) = of_nat (mk_seen c ! i) \<and>
        mk_seen c ! i \<le> mk_calls c ! i) \<and>
     (mk_pos c < length (mk_slots c) \<longrightarrow>
        (case mk_pc c of
           CkLoad \<Rightarrow> True
         | CkTest v \<Rightarrow> v = of_nat (mk_loaded c) \<and> mk_seen c ! mk_pos c \<le> mk_loaded c \<and> mk_loaded c \<le> mk_calls c ! mk_pos c
         | CkDone \<Rightarrow> False
         | _ \<Rightarrow> (of_nat (mk_loaded c) :: 32 word) = of_nat (mk_seen c ! mk_pos c) \<and> mk_seen c ! mk_pos c \<le> mk_loaded c \<and> mk_loaded c \<le> mk_calls c ! mk_pos c)) \<and>
     (\<forall>(i, d, n) \<in> set (mk_reports c). 2 ^ 32 dvd n)"

lemma enter_keeps: "enter_step sl e = (sl', e') \<Longrightarrow>
    mo_iCheckVersion sl' = mo_iCheckVersion sl \<and> mo_iVersion sl' = (if e = EnVersion then mo_iVersion sl + 1 else mo_iVersion sl)"
  by (cases e) auto

lemma same_word: "(of_nat m :: 32 word) = of_nat n \<Longrightarrow> n \<le> m \<Longrightarrow> 2 ^ 32 dvd m - n"
proof -
  assume "(of_nat m :: 32 word) = of_nat n" "n \<le> m"
  then have "(of_nat (m - n) :: 32 word) = 0" by (simp add: of_nat_diff)
  then show ?thesis by (simp add: word_of_nat_eq_0_iff)
qed

lemma mk_thread_inv:
  assumes inv: "mk_inv c" and i: "i < length (mk_slots c)"
  shows "mk_inv (mk_thread i c)"
proof -
  obtain sl e where se: "enter_step (mk_slots c ! i) (mk_threads c ! i) = (sl, e)" by fastforce
  note k = enter_keeps [OF se]
  have n: "of_nat (Suc m) = of_nat m + (1 :: 32 word)" for m by (simp add: add.commute)
  show ?thesis using inv i k unfolding mk_inv_def
    by (auto simp: mk_thread_def se nth_list_update n split: ck_pc.splits)
qed

lemma mk_check_inv:
  assumes inv: "mk_inv c" and p: "mk_pos c < length (mk_slots c)"
  shows "mk_inv (mk_check found c)"
proof (cases "mk_pc c")
  case CkLoad
  with inv p show ?thesis unfolding mk_inv_def by (auto simp: mk_check_def Let_def)
next
  case (CkTest v)
  with inv p show ?thesis unfolding mk_inv_def by (auto simp: mk_check_def Let_def nth_list_update)
next
  case CkSend
  with inv p same_word show ?thesis unfolding mk_inv_def by (auto simp: mk_check_def Let_def nth_list_update)
next
  case CkClear
  with inv p show ?thesis unfolding mk_inv_def by (auto simp: mk_check_def Let_def nth_list_update)
next
  case CkDone
  with inv p show ?thesis by (simp add: mk_inv_def)
qed

lemma mk_step_inv:
  assumes inv: "mk_inv c" and s: "mk_next m c = Some c'"
  shows "mk_inv c'"
proof (cases m)
  case (MkCall i src dst)
  with s have "c' = c\<lparr>mk_threads := (mk_threads c)[i := EnSource src dst]\<rparr>" by (simp split: if_splits)
  with inv show ?thesis by (simp add: mk_inv_def cong: ck_pc.case_cong)
next
  case (MkGo i)
  with s mk_thread_inv [OF inv] show ?thesis by (auto split: if_splits)
next
  case (MkCheck found)
  with s mk_check_inv [OF inv, of found] inv show ?thesis by (cases "mk_pos c < length (mk_slots c)") (auto simp: mk_inv_def)
qed

lemma mk_first_inv: "mk_inv (mk_first n)"
  by (simp add: mk_inv_def mk_first_def monitor_init_def)

interpretation monitored: step_invariant "\<lambda>c. c = mk_first n" mk_step mk_inv "\<lambda>c. \<forall>(i, d, m) \<in> set (mk_reports c). 2 ^ 32 dvd m" for n
proof
  show "c = mk_first n \<Longrightarrow> mk_inv c" for c using mk_first_inv by simp
  show "mk_inv c \<Longrightarrow> mk_step c c' \<Longrightarrow> mk_inv c'" for c c' using mk_step_inv by (auto simp: mk_step_def)
  show "mk_inv c \<Longrightarrow> \<forall>(i, d, m) \<in> set (mk_reports c). 2 ^ 32 dvd m" for c by (simp add: mk_inv_def)
qed

lemma mk_run_reachable: "mk_run ms c = Some c' \<Longrightarrow> reachable (\<lambda>c. c = c0) mk_step c \<Longrightarrow> reachable (\<lambda>c. c = c0) mk_step c'"
proof (induction ms arbitrary: c)
  case (Cons m ms)
  then obtain c1 where c1: "mk_next m c = Some c1" "mk_run ms c1 = Some c'" by (auto simp: bind_eq_Some_conv)
  from c1(1) have "reachable (\<lambda>c. c = c0) mk_step c1" by (intro reach_step [OF Cons.prems(2)]) (auto simp: mk_step_def)
  with Cons.IH c1(2) show ?case by blast
qed simp

section \<open>A thread that hangs\<close>

text \<open>The thread of the slot makes no step, and the service of the monitor is there.\<close>

fun mk_hangs :: "nat \<Rightarrow> mon_move \<Rightarrow> bool" where
  "mk_hangs i (MkCall j src dst) = (j \<noteq> i)"
| "mk_hangs i (MkGo j) = (j \<noteq> i)"
| "mk_hangs i (MkCheck found) = found"

text \<open>What the check sent for a slot, and where it is with it.\<close>

definition mk_sent :: "nat \<Rightarrow> mon_state \<Rightarrow> u32 list" where
  "mk_sent i c = map (\<lambda>(j, d, n). d) (filter (\<lambda>(j, d, n). j = i) (mk_reports c))"

definition mk_at :: "nat \<Rightarrow> mon_state \<Rightarrow> ck_pc" where
  "mk_at i c = (if mk_pos c = i then mk_pc c else CkLoad)"

text \<open>The service \<open>d\<close> in the slot, after the reports \<open>rs\<close> and \<open>k\<close> visits: still there, the visits' version seen; or reported.\<close>

definition hung_still :: "monitor \<Rightarrow> u32 \<Rightarrow> u32 list \<Rightarrow> u32 list \<Rightarrow> nat \<Rightarrow> bool" where
  "hung_still sl d rs sent n \<longleftrightarrow>
     mo_uiDestinationID sl = d \<and> sent = rs \<and> (n = 0 \<or> n = 1 \<and> mo_iCheckVersion sl = mo_iVersion sl) \<or>
     mo_uiDestinationID sl = 0 \<and> sent = rs @ [d] \<and> mo_iCheckVersion sl = mo_iVersion sl"

fun hung_at :: "ck_pc \<Rightarrow> monitor \<Rightarrow> u32 \<Rightarrow> u32 list \<Rightarrow> u32 list \<Rightarrow> nat \<Rightarrow> bool" where
  "hung_at CkLoad sl d rs sent n = hung_still sl d rs sent n"
| "hung_at (CkTest v) sl d rs sent n = (v = mo_iVersion sl \<and> hung_still sl d rs sent n)"
| "hung_at CkSend sl d rs sent n = (mo_iCheckVersion sl = mo_iVersion sl \<and> mo_uiDestinationID sl = d \<and> sent = rs \<and> n \<le> 1)"
| "hung_at CkClear sl d rs sent n = (mo_iCheckVersion sl = mo_iVersion sl \<and> sent = rs @ [d] \<and> n \<le> 1)"
| "hung_at CkDone sl d rs sent n = False"

definition mk_hung :: "nat \<Rightarrow> u32 \<Rightarrow> u32 list \<Rightarrow> nat \<Rightarrow> mon_state \<Rightarrow> bool" where
  "mk_hung i d rs k c \<longleftrightarrow> mk_inv c \<and> i < length (mk_slots c) \<and> k \<le> mk_visits c ! i \<and>
     hung_at (mk_at i c) (mk_slots c ! i) d rs (mk_sent i c) (mk_visits c ! i - k)"

lemma hung_other:
  assumes "mk_hung i d rs k c" "mk_inv c'" "length (mk_slots c') = length (mk_slots c)" "mk_slots c' ! i = mk_slots c ! i"
    "mk_visits c' ! i = mk_visits c ! i" "mk_sent i c' = mk_sent i c" "mk_at i c' = mk_at i c"
  shows "mk_hung i d rs k c'"
  using assms unfolding mk_hung_def by simp

text \<open>A step of the check at the slot.\<close>

lemma check_at:
  assumes "mk_pos c = i" "i < length (mk_slots c)" "i < length (mk_visits c)" "check_step (mk_slots c ! i) (mk_pc c) = (rs, sl, pc)"
  shows "mk_slots (mk_check True c) ! i = sl" "length (mk_slots (mk_check True c)) = length (mk_slots c)"
    "mk_sent i (mk_check True c) = mk_sent i c @ rs"
    "mk_at i (mk_check True c) = (if pc = CkDone then CkLoad else pc)"
    "mk_visits (mk_check True c) ! i = mk_visits c ! i + of_bool (pc = CkDone)"
  using assms by (auto simp: mk_check_def Let_def mk_sent_def mk_at_def filter_map comp_def)

lemma hung_check_step:
  assumes "hung_at pc sl d rs sent n" "check_step sl pc = (rs', sl', pc')" "d \<noteq> 0"
  shows "hung_at (if pc' = CkDone then CkLoad else pc') sl' d rs (sent @ rs') (n + of_bool (pc' = CkDone))"
proof (cases pc)
  case (CkTest v)
  with assms show ?thesis
    by (cases "mo_uiDestinationID sl = 0"; cases "v = mo_iCheckVersion sl") (auto simp: hung_still_def)
qed (use assms in \<open>auto simp: hung_still_def\<close>)

lemma hung_check:
  assumes h: "mk_hung i d rs k c" and d: "d \<noteq> 0" and p: "mk_pos c = i"
  shows "mk_hung i d rs k (mk_check True c)"
proof -
  have inv: "mk_inv c" and i: "i < length (mk_slots c)" using h by (simp_all add: mk_hung_def)
  then have l: "i < length (mk_visits c)" by (simp add: mk_inv_def)
  have inv': "mk_inv (mk_check True c)" by (rule mk_check_inv [OF inv]) (use p i in simp)
  obtain rs' sl' pc' where st: "check_step (mk_slots c ! i) (mk_pc c) = (rs', sl', pc')" using prod_cases3 by blast
  have "hung_at (mk_pc c) (mk_slots c ! i) d rs (mk_sent i c) (mk_visits c ! i - k)" "k \<le> mk_visits c ! i"
    using h p by (simp_all add: mk_hung_def mk_at_def)
  with hung_check_step [OF _ st d] show ?thesis
    using inv' i unfolding mk_hung_def check_at [OF p i l st] by fastforce
qed

lemma check_other:
  assumes "mk_pos c \<noteq> i"
  shows "length (mk_slots (mk_check f c)) = length (mk_slots c)" "mk_slots (mk_check f c) ! i = mk_slots c ! i"
    "mk_visits (mk_check f c) ! i = mk_visits c ! i" "mk_sent i (mk_check f c) = mk_sent i c" "mk_at i (mk_check f c) = CkLoad"
  using assms by (auto simp: mk_check_def Let_def mk_sent_def mk_at_def split: prod.splits)

lemma hung_step:
  assumes h: "mk_hung i d rs k c" and d: "d \<noteq> 0" and m: "mk_hangs i m" and s: "mk_next m c = Some c'"
  shows "mk_hung i d rs k c'"
proof -
  have inv': "mk_inv c'" using mk_step_inv [OF _ s] h by (simp add: mk_hung_def)
  show ?thesis
  proof (cases m)
    case (MkCall j src dst)
    with s have c': "c' = c\<lparr>mk_threads := (mk_threads c)[j := EnSource src dst]\<rparr>" by (simp split: if_splits)
    show ?thesis by (rule hung_other [OF h inv']) (simp_all add: c' mk_sent_def mk_at_def)
  next
    case (MkGo j)
    with s m have c': "c' = mk_thread j c" "j \<noteq> i" by (simp_all split: if_splits)
    show ?thesis by (rule hung_other [OF h inv']) (use c'(2) in \<open>simp_all add: c'(1) mk_thread_def mk_sent_def mk_at_def split: prod.splits\<close>)
  next
    case (MkCheck f)
    with m have f: "f = True" by simp
    show ?thesis
    proof (cases "mk_pos c < length (mk_slots c)")
      case True
      with s MkCheck f have c': "c' = mk_check True c" by simp
      show ?thesis
      proof (cases "mk_pos c = i")
        case True
        with hung_check [OF h d] c' show ?thesis by simp
      next
        case False
        show ?thesis by (rule hung_other [OF h inv']) (use check_other [OF False, of True] False in \<open>simp_all add: c'\<close>, simp add: mk_at_def)
      qed
    next
      case False
      with s MkCheck have c': "c' = c\<lparr>mk_pos := 0, mk_pc := CkLoad\<rparr>" by simp
      have "mk_pos c \<noteq> i" using False h by (auto simp: mk_hung_def)
      then show ?thesis by (intro hung_other [OF h inv']) (simp_all add: c' mk_sent_def mk_at_def)
    qed
  qed
qed

lemma hung_run: "mk_run ms c = Some c' \<Longrightarrow> mk_hung i d rs k c \<Longrightarrow> d \<noteq> 0 \<Longrightarrow> \<forall>m \<in> set ms. mk_hangs i m \<Longrightarrow> mk_hung i d rs k c'"
proof (induction ms arbitrary: c)
  case (Cons m ms)
  then show ?case using hung_step [OF Cons.prems(2,3)] by (auto simp: bind_eq_Some_conv)
qed simp

text \<open>C28: Threads that enter and leave services, each store on its own, and the check, each load and store on its own, in any order.  A
  slot is reported only if its thread finished no call (or a multiple of \<open>2 ^ 32\<close> calls) between the loads of the version in this visit of the check and the
  one before.  And when a thread makes no step while its service \<open>d\<close> stands in the slot, and the check is not between its loads and stores of the slot, then from
  there on the check sends at most one report for the slot, of \<open>d\<close>, and it has sent it when it has been through the slot twice, if the service of the
  monitor is in the center.
\<close>

theorem monitor_reports_hang:
  assumes "reachable (\<lambda>c. c = mk_first n) mk_step c" "mk_run ms c = Some c'"
    and "i < length (mk_slots c)" "mo_uiDestinationID (mk_slots c ! i) = d" "d \<noteq> 0" "mk_at i c = CkLoad" "\<forall>m \<in> set ms. mk_hangs i m"
  shows "(\<forall>(j, e, calls) \<in> set (mk_reports c'). 2 ^ 32 dvd calls) \<and>
    (mk_sent i c' = mk_sent i c \<or> mk_sent i c' = mk_sent i c @ [d]) \<and>
    (mk_visits c ! i + 2 \<le> mk_visits c' ! i \<longrightarrow> mk_sent i c' = mk_sent i c @ [d])"
proof -
  have "mk_inv c" by (rule monitored.reachable_inv [OF assms(1)])
  then have "mk_hung i d (mk_sent i c) (mk_visits c ! i) c" using assms(3-6) by (simp add: mk_hung_def hung_still_def)
  from hung_run [OF assms(2) this assms(5,7)] have h: "mk_hung i d (mk_sent i c) (mk_visits c ! i) c'" .
  from monitored.always [OF mk_run_reachable [OF assms(2,1)]] h show ?thesis
    unfolding mk_hung_def by (cases "mk_at i c'") (auto simp: hung_still_def)
qed

section \<open>Examples\<close>

text \<open>The thread of the first slot enters the service 5 while the check is there; later another thread enters the service 6 between two steps of the check.\<close>

definition hang_before :: "mon_move list" where
  "hang_before = [MkCall 0 1 5, MkGo 0, MkCheck True, MkCheck True, MkGo 0, MkGo 0]"

definition hang_after :: "mon_move list" where
  "hang_after = replicate 5 (MkCheck True) @ [MkCall 1 1 6, MkGo 1, MkCheck True, MkGo 1, MkGo 1] @ replicate 8 (MkCheck True)"

theorem monitor_reports_hang_witness:
  "\<exists>c c'. mk_run hang_before (mk_first 2) = Some c \<and> mk_run hang_after c = Some c' \<and> mk_sent 0 c = [] \<and> mk_sent 0 c' = [5]"
proof -
  have "case mk_run hang_before (mk_first 2) of None \<Rightarrow> False
    | Some c \<Rightarrow> mk_slots c \<noteq> [] \<and> mo_uiDestinationID (mk_slots c ! 0) = 5 \<and> mk_at 0 c = CkLoad \<and> mk_sent 0 c = [] \<and>
       (case mk_run hang_after c of None \<Rightarrow> False | Some c' \<Rightarrow> mk_visits c ! 0 + 2 \<le> mk_visits c' ! 0)"
    by code_simp
  then obtain c c' where c: "mk_run hang_before (mk_first 2) = Some c" "mk_run hang_after c = Some c'" "mk_slots c \<noteq> []"
    "mo_uiDestinationID (mk_slots c ! 0) = 5" "mk_at 0 c = CkLoad" "mk_sent 0 c = []" "mk_visits c ! 0 + 2 \<le> mk_visits c' ! 0"
    by (auto split: option.splits)
  have r: "reachable (\<lambda>c. c = mk_first 2) mk_step c" by (rule mk_run_reachable [OF c(1) reach_init]) simp
  have "\<forall>m \<in> set hang_after. mk_hangs 0 m" by (simp add: hang_after_def)
  from monitor_reports_hang [OF r c(2) _ c(4) _ c(5) this] c show ?thesis by auto
qed

theorem monitor_race_witness:
  "fst (interleave [True, True, False, False, False, False, True] monitor_init (EnSource 1 5) CkLoad) = [5]"
  using monitor_race [of monitor_init 5 1] by (auto simp: monitor_init_def)

end
