(* ===== verification/TimerConc.thy ===== *)
theory TimerConc
  imports TimerTime "HOL-Library.Multiset"
begin

text \<open>
  The functions of timers cut at each atomic operation, run by any number of threads and the loop: a thread is in \<open>eventTimer_start\<close> or
  \<open>eventTimer_stop\<close> after its exchange of \<open>bRunning\<close>, before the reference it takes or before it queues its function; the thread of the loop has a
  stack of what it still has to do, and in a callback it makes any calls.  What only the thread of the loop touches (the heap,
  \<open>bActive\<close>, the times) is part of the step of the atomic operation beside it.
\<close>

section \<open>The thread of the loop\<close>

text \<open>A function from the queue, the start after its test of \<open>bLoopRunning\<close>, the call of \<open>fnCloseCallback\<close>, a release, the reference that a start or
  stop takes in a callback, and a callback of the user.\<close>

datatype loop_op = TlTask timer_task | TlStart nat | TlClose nat | TlRelease nat | TlRef timer_task | TlCallback

text \<open>One step; it is replaced by what remains of it.\<close>

fun tl_step :: "loop_op \<Rightarrow> timerIO \<Rightarrow> (loop_op list \<times> timerIO) option" where
  "tl_step (TlTask (TimerStart p)) s = Some (if io_bLoopRunning s then [TlStart p] else [TlRelease p], s)"
| "tl_step (TlTask (TimerStop p)) s = do {
     t \<leftarrow> io_timers s p;
     if tm_bActive t then do {
       s \<leftarrow> set_active p False s;
       s \<leftarrow> timer_remove p s;
       Some ([TlClose p, TlRelease p, TlRelease p], s) }
     else Some ([TlRelease p], s) }"
| "tl_step (TlStart p) s = do {
     t \<leftarrow> io_timers s p;
     if tm_uiIntervalMs t = 0 then
       if tm_bRunning t
       then Some ([TlCallback, TlClose p, TlRelease p], log_event (Fired p) (put_timer p (t\<lparr>tm_bRunning := False\<rparr>) s))
       else Some ([TlClose p, TlRelease p], s)
     else if tm_bRunning t then do {
       s \<leftarrow> timer_schedule p s;
       s \<leftarrow> set_active p True s;
       Some ([], s) }
     else Some ([TlClose p, TlRelease p], s) }"
| "tl_step (TlClose p) s = do {
     t \<leftarrow> io_timers s p;
     Some (if tm_fnCloseCallback t then ([TlCallback], log_event (TimerClosed p) s) else ([], s)) }"
| "tl_step (TlRelease p) s = map_option (Pair []) (eventTimer_release p s)"
| "tl_step (TlRef k) s = map_option (Pair [TlTask k]) (eventTimer_addref (task_timer k) s)"
| "tl_step TlCallback s = Some ([], s)"

text \<open>\<open>eventTimer_run\<close> up to its access of \<open>bRunning\<close>.\<close>

definition tl_run :: "nat \<Rightarrow> timerIO \<Rightarrow> (loop_op list \<times> timerIO) option" where
  "tl_run p s = do {
     t \<leftarrow> io_timers s p;
     s \<leftarrow> timer_remove p s;
     if tm_bOnce t then do {
       s \<leftarrow> set_active p False s;
       t \<leftarrow> io_timers s p;
       Some (if tm_bRunning t
             then ([TlCallback, TlClose p, TlRelease p], log_event (Fired p) (put_timer p (t\<lparr>tm_bRunning := False\<rparr>) s))
             else ([TlClose p, TlRelease p], s)) }
     else if tm_bRunning t then do {
       s \<leftarrow> timer_schedule p s;
       Some ([TlCallback], log_event (Fired p) s) }
     else do {
       s \<leftarrow> set_active p False s;
       Some ([TlClose p, TlRelease p], s) } }"

text \<open>With nobody in between and callbacks that do nothing, the steps are the functions.\<close>

fun tl_alone :: "nat \<Rightarrow> loop_op list \<Rightarrow> timerIO \<Rightarrow> timerIO option" where
  "tl_alone n [] s = Some s"
| "tl_alone 0 (x # L) s = None"
| "tl_alone (Suc n) (x # L) s = do { (xs, s) \<leftarrow> tl_step x s; tl_alone n (filter (\<lambda>x. x \<noteq> TlCallback) xs @ L) s }"

lemma alone_nil: "tl_alone n [] = Some" by (rule ext) simp

lemma alone_release: "tl_alone (Suc n) (TlRelease p # L) = (\<lambda>s. Option.bind (eventTimer_release p s) (tl_alone n L))"
proof (rule ext)
  show "tl_alone (Suc n) (TlRelease p # L) s = Option.bind (eventTimer_release p s) (tl_alone n L)" for s
    by (cases "eventTimer_release p s") simp_all
qed

lemma alone_close: "tl_alone (Suc n) (TlClose p # L) = (\<lambda>s. Option.bind (call_close quiet p s) (tl_alone n L))"
proof (rule ext)
  show "tl_alone (Suc n) (TlClose p # L) s = Option.bind (call_close quiet p s) (tl_alone n L)" for s
    by (cases "io_timers s p") (simp_all add: call_close_def quiet_def)
qed

lemma alone_once: "io_timers s p = Some t \<Longrightarrow>
    (if tm_bRunning t then f (log_event (Fired p) (put_timer p (t\<lparr>tm_bRunning := False\<rparr>) s)) else f s) = Option.bind (run_once quiet p s) f"
  by (simp add: run_once_def call_fn_def quiet_def)

lemmas alone_simps = alone_nil alone_release alone_close

lemma alone_start:
  "tl_alone (Suc (Suc (Suc 0))) [TlStart p] s = inLoop_eventTimer_start quiet p s"
proof (cases "io_timers s p")
  case (Some t)
  show ?thesis
  proof (cases "tm_uiIntervalMs t = 0")
    case True
    let ?f = "\<lambda>s. Option.bind (call_close quiet p s) (eventTimer_release p)"
    have f: "tl_alone (Suc (Suc 0)) [TlClose p, TlRelease p] s = ?f s" for s by (simp add: alone_simps del: tl_alone.simps(3))
    have "tl_alone (Suc (Suc (Suc 0))) [TlStart p] s =
        (if tm_bRunning t then ?f (log_event (Fired p) (put_timer p (t\<lparr>tm_bRunning := False\<rparr>) s)) else ?f s)"
      using Some True f by (subst tl_alone.simps(3)) (simp del: tl_alone.simps(3))
    also have "\<dots> = Option.bind (run_once quiet p s) ?f" by (rule alone_once [OF Some])
    finally show ?thesis using Some True by (simp add: inLoop_eventTimer_start_def)
  next
    case False
    show ?thesis
    proof (cases "tm_bRunning t")
      case True
      with Some False show ?thesis by (simp add: inLoop_eventTimer_start_def split: Option.bind_split)
    next
      case no: False
      have "tl_alone (Suc (Suc 0)) [TlClose p, TlRelease p] s = Option.bind (call_close quiet p s) (eventTimer_release p)"
        by (simp add: alone_simps del: tl_alone.simps(3))
      then show ?thesis using Some False no
        by (subst tl_alone.simps(3)) (simp add: inLoop_eventTimer_start_def del: tl_alone.simps(3))
    qed
  qed
qed (simp add: inLoop_eventTimer_start_def)

lemma alone_stop:
  "tl_alone (Suc (Suc (Suc (Suc 0)))) [TlTask (TimerStop p)] s = inLoop_eventTimer_stop quiet p s"
proof (cases "io_timers s p")
  case (Some t)
  have f: "tl_alone (Suc (Suc (Suc 0))) [TlClose p, TlRelease p, TlRelease p] s =
      Option.bind (call_close quiet p s) (\<lambda>s. Option.bind (eventTimer_release p s) (eventTimer_release p))"
    "tl_alone (Suc (Suc (Suc 0))) [TlRelease p] s = eventTimer_release p s" for s
    by (simp_all add: alone_simps del: tl_alone.simps(3))
  show ?thesis using Some f
    by (subst tl_alone.simps(3)) (cases "tm_bActive t"; simp add: inLoop_eventTimer_stop_def del: tl_alone.simps(3))
qed (simp add: inLoop_eventTimer_stop_def)

lemma alone_task: "tl_alone 4 [TlTask k] s = timer_task_run quiet k s"
proof (cases k)
  case (TimerStart p)
  have n: "tl_alone 4 [TlTask k] s = tl_alone (Suc (Suc (Suc 0))) (if io_bLoopRunning s then [TlStart p] else [TlRelease p]) s"
    using TimerStart by (subst numeral_eq_Suc, subst tl_alone.simps(3)) (simp add: eval_nat_numeral del: tl_alone.simps(3))
  show ?thesis
  proof (cases "io_bLoopRunning s")
    case True
    with TimerStart show ?thesis unfolding n by (simp add: alone_start del: tl_alone.simps(3))
  next
    case False
    with TimerStart show ?thesis unfolding n by (simp add: alone_simps inLoop_eventTimer_cancel_def del: tl_alone.simps(3))
  qed
next
  case (TimerStop p)
  have "4 = Suc (Suc (Suc (Suc 0)))" by simp
  with TimerStop alone_stop show ?thesis by (metis timer_task_run.simps(2))
qed

lemma alone_run: "Option.bind (tl_run p s) (\<lambda>(xs, s). tl_alone 2 (filter (\<lambda>x. x \<noteq> TlCallback) xs) s) = eventTimer_run quiet p s"
proof (cases "io_timers s p")
  case (Some t)
  have n: "2 = Suc (Suc 0)" by simp
  let ?f = "\<lambda>s. Option.bind (call_close quiet p s) (eventTimer_release p)"
  have f: "tl_alone 2 [TlClose p, TlRelease p] s = ?f s" for s unfolding n by (simp add: alone_simps del: tl_alone.simps(3))
  show ?thesis
  proof (cases "timer_remove p s")
    case None
    with Some show ?thesis by (simp add: tl_run_def eventTimer_run_def)
  next
    case (Some s1)
    with \<open>io_timers s p = Some t\<close> have t1: "io_timers s1 p = Some t" by (auto dest: remove_due)
    let ?s = "put_timer p (t\<lparr>tm_bActive := False\<rparr>) s1"
    have a: "set_active p False s1 = Some ?s" using t1 by (simp add: set_active_def)
    show ?thesis
    proof (cases "tm_bOnce t")
      case True
      have "Option.bind (tl_run p s) (\<lambda>(xs, s). tl_alone 2 (filter (\<lambda>x. x \<noteq> TlCallback) xs) s) =
          (if tm_bRunning (t\<lparr>tm_bActive := False\<rparr>) then ?f (log_event (Fired p) (put_timer p (t\<lparr>tm_bActive := False, tm_bRunning := False\<rparr>) ?s)) else ?f ?s)"
        using True Some a f \<open>io_timers s p = Some t\<close> by (simp add: tl_run_def)
      also have "\<dots> = Option.bind (run_once quiet p ?s) ?f" by (rule alone_once) simp
      finally show ?thesis using True Some a \<open>io_timers s p = Some t\<close> by (simp add: eventTimer_run_def)
    next
      case False
      show ?thesis
      proof (cases "tm_bRunning t")
        case True
        have "call_fn quiet p s2 = Some (log_event (Fired p) s2)" if "timer_schedule p s1 = Some s2" for s2
          using that t1 by (auto simp: call_fn_def quiet_def timer_schedule_def timer_insert_def Let_def put_timer_def)
        with True False Some \<open>io_timers s p = Some t\<close> show ?thesis
          by (cases "timer_schedule p s1") (simp_all add: tl_run_def eventTimer_run_def)
      next
        case no: False
        with False Some a f \<open>io_timers s p = Some t\<close> show ?thesis by (simp add: tl_run_def eventTimer_run_def)
      qed
    qed
  qed
qed (simp add: tl_run_def eventTimer_run_def)

section \<open>The threads of the users\<close>

text \<open>A call of a user; \<open>eventTimer_start\<close> and \<open>eventTimer_stop\<close> are cut after their exchange of \<open>bRunning\<close>, which gives the function that is
  to be queued.\<close>

datatype user_call = UcCreate nat bool u32 | UcAddref nat | UcRelease nat | UcSetClose nat bool | UcStart nat | UcStop nat

fun user_act :: "user_call \<Rightarrow> timerIO \<Rightarrow> (timer_task list \<times> timerIO) option" where
  "user_act (UcCreate p once ms) s = Some ([], createEventTimer p once ms s)"
| "user_act (UcAddref p) s = map_option (Pair []) (eventTimer_addref p s)"
| "user_act (UcRelease p) s = map_option (Pair []) (eventTimer_release p s)"
| "user_act (UcSetClose p b) s = map_option (Pair []) (eventTimer_setCloseCallback p b s)"
| "user_act (UcStart p) s = do {
     t \<leftarrow> io_timers s p;
     Some (if \<not> tm_bRunning t then ([TimerStart p], put_timer p (t\<lparr>tm_bRunning := True\<rparr>) s) else ([], s)) }"
| "user_act (UcStop p) s = do {
     t \<leftarrow> io_timers s p;
     Some (if tm_bRunning t then ([TimerStop p], put_timer p (t\<lparr>tm_bRunning := False\<rparr>) s) else ([], s)) }"

text \<open>Where a call that succeeded in its exchange is, on a thread that is not the loop's: before it takes its reference, or before it puts its
  function into the queue.\<close>

datatype call_pc = TcRef timer_task | TcQueue timer_task

fun call_step :: "call_pc \<Rightarrow> timerIO \<Rightarrow> (call_pc list \<times> timerIO) option" where
  "call_step (TcRef k) s = map_option (Pair [TcQueue k]) (eventTimer_addref (task_timer k) s)"
| "call_step (TcQueue k) s = do {
     t \<leftarrow> io_timers s (task_timer k);
     Some ([], s\<lparr>io_pending := io_pending s @ [k]\<rparr>) }"

text \<open>Undisturbed, the steps are the functions.\<close>

definition call_alone :: "user_call \<Rightarrow> timerIO \<Rightarrow> timerIO option" where
  "call_alone u s = do {
     (ks, s) \<leftarrow> user_act u s;
     case ks of [] \<Rightarrow> Some s
     | k # _ \<Rightarrow> do { (_, s) \<leftarrow> call_step (TcRef k) s; (_, s) \<leftarrow> call_step (TcQueue k) s; Some s } }"

definition loop_call_alone :: "user_call \<Rightarrow> timerIO \<Rightarrow> timerIO option" where
  "loop_call_alone u s = do { (ks, s) \<leftarrow> user_act u s; tl_alone 5 (map TlRef ks) s }"

lemma start_alone: "call_alone (UcStart p) s = map_option snd (eventTimer_start False quiet p s)"
  by (cases "io_timers s p") (simp_all add: call_alone_def eventTimer_start_def eventTimer_addref_def timer_runInLoop_def put_timer_def)

lemma stop_alone: "call_alone (UcStop p) s = eventTimer_stop False quiet p s"
  by (cases "io_timers s p") (simp_all add: call_alone_def eventTimer_stop_def eventTimer_addref_def timer_runInLoop_def put_timer_def)

lemma alone_ref: "tl_alone 5 [TlRef k] s = Option.bind (eventTimer_addref (task_timer k) s) (timer_task_run quiet k)"
proof -
  have "tl_alone (Suc n) [TlRef k] s = Option.bind (eventTimer_addref (task_timer k) s) (tl_alone n [TlTask k])" for n
    by (cases "eventTimer_addref (task_timer k) s") simp_all
  from this [of 4] have "tl_alone 5 [TlRef k] s = Option.bind (eventTimer_addref (task_timer k) s) (tl_alone 4 [TlTask k])" by simp
  moreover have "tl_alone 4 [TlTask k] = timer_task_run quiet k" by (rule ext) (rule alone_task)
  ultimately show ?thesis by simp
qed

lemma loop_start_alone: "loop_call_alone (UcStart p) s = map_option snd (eventTimer_start True quiet p s)"
  by (cases "io_timers s p")
    (simp_all add: loop_call_alone_def eventTimer_start_def timer_runInLoop_def alone_ref eventTimer_addref_def option.map_comp comp_def option.map_ident put_timer_def)

lemma loop_stop_alone: "loop_call_alone (UcStop p) s = eventTimer_stop True quiet p s"
  by (cases "io_timers s p")
    (simp_all add: loop_call_alone_def eventTimer_stop_def timer_runInLoop_def alone_ref eventTimer_addref_def put_timer_def)

section \<open>All threads together\<close>

text \<open>The timers, what the thread of the loop has to do, and the calls in progress on other threads.\<close>

type_synonym timer_conc = "timerIO \<times> loop_op list \<times> call_pc list"

text \<open>A user of any other thread makes a call; a call in progress goes on; a callback on the thread of the loop makes a call; the thread of the loop
  goes on with what it has to do; with nothing to do it takes the first timer that is due, or the queue, or runs code of the user; the time and the
  flag \<open>bLoopRunning\<close> change.\<close>

datatype timer_move = MvUser user_call | MvCall nat | MvCallback user_call | MvLoop | MvFirst | MvEvents | MvOther | MvTime u64 | MvRunning bool

fun tc_move :: "timer_move \<Rightarrow> timer_conc \<Rightarrow> timer_conc option" where
  "tc_move (MvUser u) (s, L, C) = do { (ks, s) \<leftarrow> user_act u s; Some (s, L, C @ map TcRef ks) }"
| "tc_move (MvCall i) (s, L, C) = do { (cs, s) \<leftarrow> call_step (C ! i) s; Some (s, L, take i C @ cs @ drop (Suc i) C) }"
| "tc_move (MvCallback u) (s, L, C) = do { (ks, s) \<leftarrow> user_act u s; Some (s, map TlRef ks @ L, C) }"
| "tc_move MvLoop (s, L, C) = do { (xs, s) \<leftarrow> tl_step (hd L) s; Some (s, xs @ tl L, C) }"
| "tc_move MvFirst (s, L, C) =
     (case heap_min (io_timerHeap s) of
        None \<Rightarrow> Some (s, L, C)
      | Some p \<Rightarrow> do {
          t \<leftarrow> io_timers s p;
          if io_uiLoopTime s < tm_uiTimeout t then Some (s, L, C)
          else do { (xs, s) \<leftarrow> tl_run p s; Some (s, xs @ L, C) } })"
| "tc_move MvEvents (s, L, C) = Some (s\<lparr>io_pending := []\<rparr>, map TlTask (io_pending s) @ L, C)"
| "tc_move MvOther (s, L, C) = Some (s, TlCallback # L, C)"
| "tc_move (MvTime t) (s, L, C) = Some (s\<lparr>io_uiLoopTime := t\<rparr>, L, C)"
| "tc_move (MvRunning b) (s, L, C) = Some (s\<lparr>io_bLoopRunning := b\<rparr>, L, C)"

text \<open>The functions of timers that are not finished: in the queue, on the way to it, or taken from it; and the references that the thread of the loop
  will release.\<close>

fun call_task :: "call_pc \<Rightarrow> timer_task" where
  "call_task (TcRef k) = k" | "call_task (TcQueue k) = k"

fun lp_tasks :: "loop_op list \<Rightarrow> timer_task list" where
  "lp_tasks [] = []"
| "lp_tasks (TlTask k # L) = k # lp_tasks L"
| "lp_tasks (TlRef k # L) = k # lp_tasks L"
| "lp_tasks (TlStart p # L) = TimerStart p # lp_tasks L"
| "lp_tasks (_ # L) = lp_tasks L"

definition lp_held :: "loop_op list \<Rightarrow> nat \<Rightarrow> nat" where
  "lp_held L p = count_list L (TlRelease p)"

definition tc_tasks :: "timer_conc \<Rightarrow> timer_task list" where
  "tc_tasks = (\<lambda>(s, L, C). lp_tasks L @ map call_task C @ io_pending s)"

text \<open>What users keep to: who makes a call has a reference of its own, and a timer is started only while none of its functions is unfinished.\<close>

definition user_holds :: "timer_conc \<Rightarrow> nat \<Rightarrow> bool" where
  "user_holds c p = (case io_timers (fst c) p of None \<Rightarrow> False
     | Some t \<Rightarrow> int (lp_held (fst (snd c)) p + task_refs (tc_tasks c) p + of_bool (tm_bActive t)) < tm_iRefCount t)"

fun user_ok :: "timer_conc \<Rightarrow> user_call \<Rightarrow> bool" where
  "user_ok c (UcCreate p once ms) = (io_timers (fst c) p = None \<and> card (dom (io_timers (fst c))) < 2 ^ 32 - 1)"
| "user_ok c (UcAddref p) = user_holds c p"
| "user_ok c (UcRelease p) = user_holds c p"
| "user_ok c (UcSetClose p b) = user_holds c p"
| "user_ok c (UcStart p) = (user_holds c p \<and> TimerStart p \<notin> set (tc_tasks c) \<and> TimerStop p \<notin> set (tc_tasks c))"
| "user_ok c (UcStop p) = user_holds c p"

fun tc_allowed :: "timer_conc \<Rightarrow> timer_move \<Rightarrow> bool" where
  "tc_allowed c (MvUser u) = user_ok c u"
| "tc_allowed c (MvCall i) = (i < length (snd (snd c)))"
| "tc_allowed c (MvCallback u) = (user_ok c u \<and> (case fst (snd c) of TlCallback # L \<Rightarrow> True | _ \<Rightarrow> False))"
| "tc_allowed c MvLoop = (fst (snd c) \<noteq> [])"
| "tc_allowed c MvFirst = (fst (snd c) = [])"
| "tc_allowed c MvEvents = (fst (snd c) = [])"
| "tc_allowed c MvOther = (fst (snd c) = [])"
| "tc_allowed c _ = True"

inductive tc_step :: "timer_conc \<Rightarrow> timer_conc \<Rightarrow> bool" where
  tc_move: "tc_allowed c m \<Longrightarrow> tc_move m c = Some c' \<Longrightarrow> tc_step c c'"

inductive_simps tc_step_iff: "tc_step c c'"

text \<open>A loop as \<open>createEventIO\<close> leaves it.\<close>

definition tc_init :: "timer_conc \<Rightarrow> bool" where
  "tc_init = (\<lambda>(s, L, C). io_timers s = (\<lambda>_. None) \<and> (\<exists>h. io_timerHeap s = heap_init h) \<and> io_pending s = [] \<and> L = [] \<and> C = [])"

section \<open>The invariant\<close>

lemma entry_mset: "mset ks = mset ks' \<Longrightarrow> entry_ok h ks p e = entry_ok h ks' p e"
proof -
  assume m: "mset ks = mset ks'"
  then have "count_list ks x = count_list ks' x" for x by (metis count_mset)
  then show ?thesis using mset_eq_setD [OF m] by (cases e) (simp_all add: timer_ok_def task_refs_def)
qed

lemma inv_mset: "mset ks = mset ks' \<Longrightarrow> timers_inv held ks s = timers_inv held ks' s"
  using entry_mset [of "ks @ io_pending s" "ks' @ io_pending s"] by (simp add: timers_inv_def)

lemma inv_moved: "timers_inv held ks s = timers_inv held (io_pending s @ ks) (s\<lparr>io_pending := []\<rparr>)"
  unfolding inv_pending using entry_mset [of "ks @ io_pending s" "(io_pending s @ ks) @ []"] by (simp add: timers_inv_def)

text \<open>Every \<open>fnCloseCallback\<close> that is to be called has a release after it.\<close>

fun lp_ok :: "loop_op list \<Rightarrow> bool" where
  "lp_ok [] = True"
| "lp_ok (TlClose p # L) = (TlRelease p \<in> set L \<and> lp_ok L)"
| "lp_ok (_ # L) = lp_ok L"

definition tc_inv :: "timer_conc \<Rightarrow> bool" where
  "tc_inv = (\<lambda>(s, L, C). timers_inv (lp_held L) (lp_tasks L @ map call_task C) s \<and> lp_ok L)"

lemma held_simps [simp]:
  "lp_held [] = (\<lambda>p. 0)" "lp_held (TlRelease p # L) = (lp_held L)(p := lp_held L p + 1)" "lp_held (TlTask k # L) = lp_held L"
  "lp_held (TlStart p # L) = lp_held L" "lp_held (TlClose p # L) = lp_held L" "lp_held (TlRef k # L) = lp_held L" "lp_held (TlCallback # L) = lp_held L"
  by (auto simp: lp_held_def fun_eq_iff)

lemma held_pos: "TlRelease p \<in> set L \<Longrightarrow> 0 < lp_held L p"
  by (auto simp: lp_held_def count_list_0_iff intro: Nat.gr0I)

lemma tl_start_inv:
  assumes inv: "timers_inv held (TimerStart p # ks) s" and h: "held = lp_held L" and l: "lp_ok L"
  shows "\<exists>xs s'. tl_step (TlStart p) s = Some (xs, s') \<and> timers_inv (lp_held (xs @ L)) (lp_tasks xs @ ks) s' \<and> lp_ok (xs @ L) \<and> lp_tasks (xs @ L) = lp_tasks xs @ lp_tasks L"
proof -
  have q: "TimerStart p \<notin> set (ks @ io_pending s)" "\<not> timer_active s p" and i1: "timers_inv (held(p := held p + 1)) ks s"
    using pop_inv [OF inv] by auto
  then obtain t where t: "io_timers s p = Some t" using inv_timer by fastforce
  with q have na: "\<not> tm_bActive t" by (simp add: timer_active_def)
  have "timer_ok ((held(p := held p + 1)) p) (ks @ io_pending s) p (t\<lparr>tm_bRunning := False\<rparr>)"
    using inv_ok [OF i1 t] na by (auto simp: timer_ok_def)
  from inv_put [OF i1 t, where held' = "held(p := held p + 1)" and ks' = ks, OF this]
  have off: "timers_inv (held(p := held p + 1)) ks (put_timer p (t\<lparr>tm_bRunning := False\<rparr>) s)" by simp
  show ?thesis
  proof (cases "tm_uiIntervalMs t = 0 \<or> \<not> tm_bRunning t")
    case True
    with t off i1 h l show ?thesis by auto
  next
    case False
    from activate_inv [OF i1 t na _ _ _ q(1)] False obtain s2 where
      "Option.bind (timer_schedule p s) (set_active p True) = Some s2" "timers_inv held ks s2" by auto
    with t False h l show ?thesis by (auto simp: bind_eq_Some_conv)
  qed
qed

lemma tl_stop_inv:
  assumes inv: "timers_inv (lp_held L) (TimerStop p # ks) s" and l: "lp_ok L"
  shows "\<exists>xs s'. tl_step (TlTask (TimerStop p)) s = Some (xs, s') \<and> timers_inv (lp_held (xs @ L)) (lp_tasks xs @ ks) s' \<and> lp_ok (xs @ L) \<and> lp_tasks (xs @ L) = lp_tasks xs @ lp_tasks L"
proof -
  obtain t where t: "io_timers s p = Some t" using inv_timer [OF inv, of p] by auto
  show ?thesis
  proof (cases "tm_bActive t")
    case False
    then have "timers_inv ((lp_held L)(p := lp_held L p + 1)) ks s" using pop_inv(1) [OF inv] t by (simp add: timer_active_def)
    with t False l show ?thesis by auto
  next
    case True
    from deactivate_inv [OF inv t True] obtain s1 where
      s1: "Option.bind (set_active p False s) (timer_remove p) = Some s1" "timers_inv ((lp_held L)(p := lp_held L p + 1)) (TimerStop p # ks) s1" "\<not> timer_active s1 p" .
    from pop_inv(1) [OF s1(2)] s1(3) have "timers_inv ((lp_held L)(p := lp_held L p + 2)) ks s1" by simp
    with t True s1(1) l show ?thesis by (auto simp: bind_eq_Some_conv)
  qed
qed

lemma tl_step_inv:
  assumes inv: "timers_inv (lp_held (x # L)) (lp_tasks (x # L) @ K) s" and l: "lp_ok (x # L)"
  shows "\<exists>xs s'. tl_step x s = Some (xs, s') \<and> timers_inv (lp_held (xs @ L)) (lp_tasks (xs @ L) @ K) s' \<and> lp_ok (xs @ L)"
proof (cases x)
  case (TlTask k)
  show ?thesis
  proof (cases k)
    case (TimerStart p)
    have "timers_inv ((lp_held L)(p := lp_held L p + 1)) (lp_tasks L @ K) s"
      by (rule pop_inv(1) [where k = "TimerStart p"]) (use inv TlTask TimerStart in simp_all)
    with inv l TlTask TimerStart show ?thesis by auto
  next
    case (TimerStop p)
    from tl_stop_inv [of L p "lp_tasks L @ K" s] inv l TlTask TimerStop show ?thesis by auto
  qed
next
  case (TlStart p)
  with tl_start_inv [of _ p "lp_tasks L @ K" s L] inv l show ?thesis by auto
next
  case (TlClose p)
  with inv_timer [OF inv, of p] held_pos [of p L] l obtain t where "io_timers s p = Some t" by auto
  with TlClose inv l show ?thesis by auto
next
  case (TlRelease p)
  with release_held [OF inv, of p] l show ?thesis by auto
next
  case (TlRef k)
  have "0 < task_refs ((lp_tasks (x # L) @ K) @ io_pending s) (task_timer k)" using TlRef by (cases k) auto
  with inv_timer [OF inv] obtain t where t: "io_timers s (task_timer k) = Some t" by blast
  have "timer_ok (lp_held (x # L) (task_timer k)) ((lp_tasks (x # L) @ K) @ io_pending s) (task_timer k) (t\<lparr>tm_iRefCount := tm_iRefCount t + 1\<rparr>)"
    using inv_ok [OF inv t] by (auto simp: timer_ok_def)
  from inv_put [OF inv t, where held' = "lp_held (x # L)" and ks' = "lp_tasks (x # L) @ K", OF this] t TlRef l
  show ?thesis by (auto simp: eventTimer_addref_def)
next
  case TlCallback
  with inv l show ?thesis by simp
qed

lemma tl_run_inv:
  assumes inv: "timers_inv (\<lambda>_. 0) K s" and a: "timer_active s p"
  shows "\<exists>xs s'. tl_run p s = Some (xs, s') \<and> timers_inv (lp_held xs) (lp_tasks xs @ K) s' \<and> lp_ok xs"
proof -
  from a obtain t where t: "io_timers s p = Some t" "tm_bActive t" by (auto simp: timer_active_def split: option.splits)
  from deactivate_inv [OF inv t] obtain s1 where
    s1: "Option.bind (timer_remove p s) (set_active p False) = Some s1" "timers_inv ((\<lambda>_. 0)(p := 1)) K s1" "\<not> timer_active s1 p" by auto
  have "\<exists>u. io_timers s1 p = Some u" using inv_timer [OF s1(2), of p] by simp
  then obtain u where u: "io_timers s1 p = Some u" by blast
  with s1(3) have "\<not> tm_bActive u" by (simp add: timer_active_def)
  then have "timer_ok (((\<lambda>_. 0)(p := 1)) p) (K @ io_pending s1) p (u\<lparr>tm_bRunning := False\<rparr>)"
    using inv_ok [OF s1(2) u] by (auto simp: timer_ok_def)
  from inv_put [OF s1(2) u, where held' = "(\<lambda>_. 0)(p := 1)" and ks' = K, OF this]
  have off: "timers_inv ((\<lambda>_. 0)(p := 1)) K (put_timer p (u\<lparr>tm_bRunning := False\<rparr>) s1)" by simp
  show ?thesis
  proof (cases "\<not> tm_bOnce t \<and> tm_bRunning t")
    case True
    from reschedule_inv [OF inv t] obtain s2 where
      "Option.bind (timer_remove p s) (timer_schedule p) = Some s2" "timers_inv (\<lambda>_. 0) K s2" by blast
    with t(1) True show ?thesis by (auto simp: tl_run_def bind_eq_Some_conv)
  next
    case False
    from s1(1) obtain y where y: "timer_remove p s = Some y" "set_active p False y = Some s1" by (auto simp: bind_eq_Some_conv)
    have "tl_run p s = Some (if tm_bOnce t \<and> tm_bRunning u
        then ([TlCallback, TlClose p, TlRelease p], log_event (Fired p) (put_timer p (u\<lparr>tm_bRunning := False\<rparr>) s1)) else ([TlClose p, TlRelease p], s1))"
      using False t(1) y u by (cases "tm_bOnce t") (simp_all add: tl_run_def)
    with s1(2) off show ?thesis by (cases "tm_bOnce t \<and> tm_bRunning u") simp_all
  qed
qed

section \<open>No thread touches a freed timer\<close>

lemma tc_count: "timers_inv h (lp_tasks L @ map call_task C) s \<Longrightarrow> user_holds (s, L, C) p \<Longrightarrow> h = lp_held L \<Longrightarrow>
    \<exists>t. io_timers s p = Some t \<and>
      int (h p + task_refs ((lp_tasks L @ map call_task C) @ io_pending s) p + of_bool (tm_bActive t)) < tm_iRefCount t"
  by (auto simp: user_holds_def tc_tasks_def split: option.splits)

text \<open>A call adds its function, if any, to those that are unfinished.\<close>

lemma user_act_inv:
  assumes inv: "timers_inv (lp_held L) (lp_tasks L @ map call_task C) s" and ok: "user_ok (s, L, C) u"
  shows "\<exists>ks s'. user_act u s = Some (ks, s') \<and> timers_inv (lp_held L) (ks @ lp_tasks L @ map call_task C) s'"
proof -
  let ?K = "lp_tasks L @ map call_task C"
  note holds = tc_count [OF inv _ refl]
  show ?thesis
  proof (cases u)
    case (UcCreate p once ms)
    with create_inv [OF inv] ok show ?thesis by simp
  next
    case (UcAddref p)
    with ok holds obtain t where t: "io_timers s p = Some t" by fastforce
    have "timer_ok (lp_held L p) (?K @ io_pending s) p (t\<lparr>tm_iRefCount := tm_iRefCount t + 1\<rparr>)" using inv_ok [OF inv t] by (auto simp: timer_ok_def)
    from inv_put [OF inv t, where held' = "lp_held L" and ks' = ?K, OF this] UcAddref t show ?thesis by (simp add: eventTimer_addref_def)
  next
    case (UcRelease p)
    with ok holds obtain t where t: "io_timers s p = Some t"
      "int (lp_held L p + task_refs (?K @ io_pending s) p + of_bool (tm_bActive t)) < tm_iRefCount t" by fastforce
    from release_inv [OF inv t(1), of "lp_held L"] t(2) UcRelease show ?thesis by auto
  next
    case (UcSetClose p b)
    with ok holds obtain t where t: "io_timers s p = Some t" by fastforce
    have "timer_ok (lp_held L p) (?K @ io_pending s) p (t\<lparr>tm_fnCloseCallback := b\<rparr>)" using inv_ok [OF inv t] by (auto simp: timer_ok_def)
    from inv_put [OF inv t, where held' = "lp_held L" and ks' = ?K, OF this] UcSetClose t show ?thesis by (simp add: eventTimer_setCloseCallback_def)
  next
    case (UcStart p)
    with ok holds obtain t where t: "io_timers s p = Some t"
      "int (lp_held L p + task_refs (?K @ io_pending s) p + of_bool (tm_bActive t)) < tm_iRefCount t" by fastforce
    have n: "TimerStart p \<notin> set (?K @ io_pending s)" "TimerStop p \<notin> set (?K @ io_pending s)"
      using ok UcStart by (auto simp: tc_tasks_def)
    show ?thesis
    proof (cases "tm_bRunning t")
      case False
      have "timer_ok (lp_held L p) ((TimerStart p # ?K) @ io_pending s) p (t\<lparr>tm_bRunning := True\<rparr>)"
        using inv_ok [OF inv t(1)] t(2) n False by (auto simp: timer_ok_def count_list_0_iff)
      from inv_put [OF inv t(1), where held' = "lp_held L" and ks' = "TimerStart p # ?K", OF this] UcStart t False show ?thesis by simp
    qed (use UcStart t inv in simp)
  next
    case (UcStop p)
    with ok holds obtain t where t: "io_timers s p = Some t"
      "int (lp_held L p + task_refs (?K @ io_pending s) p + of_bool (tm_bActive t)) < tm_iRefCount t" by fastforce
    show ?thesis
    proof (cases "tm_bRunning t")
      case True
      have "timer_ok (lp_held L p) ((TimerStop p # ?K) @ io_pending s) p (t\<lparr>tm_bRunning := False\<rparr>)"
        using inv_ok [OF inv t(1)] t(2) True by (cases "tm_bActive t") (auto simp: timer_ok_def)
      from inv_put [OF inv t(1), where held' = "lp_held L" and ks' = "TimerStop p # ?K", OF this] UcStop t True show ?thesis by simp
    qed (use UcStop t inv in simp)
  qed
qed

lemma tasks_ref [simp]: "lp_tasks (map TlRef ks @ L) = ks @ lp_tasks L" "lp_held (map TlRef ks @ L) = lp_held L" "lp_ok (map TlRef ks @ L) = lp_ok L"
  "map (call_task \<circ> TcRef) ks = ks"
  by (induction ks) auto

lemma tasks_task [simp]: "lp_tasks (map TlTask ks @ L) = ks @ lp_tasks L" "lp_held (map TlTask ks @ L) = lp_held L" "lp_ok (map TlTask ks @ L) = lp_ok L"
  by (induction ks) auto

lemma call_step_inv:
  assumes inv: "timers_inv held (call_task c # K) s"
  shows "\<exists>cs s'. call_step c s = Some (cs, s') \<and> timers_inv held (map call_task cs @ K) s'"
proof -
  have "0 < task_refs ((call_task c # K) @ io_pending s) (task_timer (call_task c))" by (cases "call_task c") auto
  with inv_timer [OF inv] obtain t where t: "io_timers s (task_timer (call_task c)) = Some t" by blast
  show ?thesis
  proof (cases c)
    case (TcRef k)
    have "timer_ok (held (task_timer k)) ((k # K) @ io_pending s) (task_timer k) (t\<lparr>tm_iRefCount := tm_iRefCount t + 1\<rparr>)"
      using inv_ok [OF inv t] TcRef by (auto simp: timer_ok_def)
    moreover have i: "timers_inv held (k # K) s" and t': "io_timers s (task_timer k) = Some t" using inv t TcRef by simp_all
    ultimately have "timers_inv held (k # K) (put_timer (task_timer k) (t\<lparr>tm_iRefCount := tm_iRefCount t + 1\<rparr>) s)"
      using inv_put [OF i t', where held' = held and ks' = "k # K"] by simp
    with t TcRef show ?thesis by (simp add: eventTimer_addref_def)
  next
    case (TcQueue k)
    with inv t push_pending [of held k K s] show ?thesis by simp
  qed
qed

lemma tc_step_inv:
  assumes inv: "tc_inv c" and ok: "tc_allowed c m"
  shows "\<exists>c'. tc_move m c = Some c' \<and> tc_inv c'"
proof -
  obtain s L C where c: "c = (s, L, C)" by (cases c)
  let ?K = "lp_tasks L @ map call_task C"
  have i: "timers_inv (lp_held L) ?K s" and l: "lp_ok L" using inv c by (simp_all add: tc_inv_def)
  show ?thesis
  proof (cases m)
    case (MvUser u)
    with user_act_inv [OF i, of u] ok c obtain ks s' where u: "user_act u s = Some (ks, s')" "timers_inv (lp_held L) (ks @ ?K) s'" by auto
    have "timers_inv (lp_held L) (ks @ ?K) s' = timers_inv (lp_held L) (lp_tasks L @ map call_task C @ ks) s'" by (rule inv_mset) simp
    with u l MvUser c show ?thesis by (simp add: tc_inv_def)
  next
    case (MvCallback u)
    with user_act_inv [OF i, of u] ok c obtain ks s' where u: "user_act u s = Some (ks, s')" "timers_inv (lp_held L) (ks @ ?K) s'" by auto
    with l MvCallback c show ?thesis by (simp add: tc_inv_def)
  next
    case (MvCall n)
    with ok c have n: "n < length C" by simp
    let ?K' = "lp_tasks L @ map call_task (take n C @ drop (Suc n) C)"
    have "C = take n C @ C ! n # drop (Suc n) C" using n by (rule id_take_nth_drop)
    then have "mset (map call_task C) = mset (map call_task (take n C @ C ! n # drop (Suc n) C))" by simp
    then have "timers_inv (lp_held L) ?K s = timers_inv (lp_held L) (call_task (C ! n) # ?K') s" by (intro inv_mset) simp
    with i call_step_inv obtain cs s' where cs: "call_step (C ! n) s = Some (cs, s')" "timers_inv (lp_held L) (map call_task cs @ ?K') s'" by blast
    have "timers_inv (lp_held L) (map call_task cs @ ?K') s' = timers_inv (lp_held L) (lp_tasks L @ map call_task (take n C @ cs @ drop (Suc n) C)) s'"
      by (rule inv_mset) simp
    with cs l MvCall c show ?thesis by (simp add: tc_inv_def)
  next
    case MvLoop
    with ok c obtain x L1 where L: "L = x # L1" by (cases L) auto
    from tl_step_inv [of x L1 "map call_task C" s] i l L MvLoop c show ?thesis by (auto simp: tc_inv_def)
  next
    case MvFirst
    with ok c have L: "L = []" by simp
    show ?thesis
    proof (cases "heap_min (io_timerHeap s)")
      case (Some p)
      with heap_queue.front_Some [OF inv_heap [OF i]] have a: "timer_active s p" by blast
      then obtain t where "io_timers s p = Some t" by (auto simp: timer_active_def split: option.splits)
      with Some tl_run_inv [of ?K s p] a i inv L MvFirst c show ?thesis by (auto simp: tc_inv_def)
    qed (use MvFirst c inv in simp)
  next
    case MvEvents
    with i l c inv_moved [of "lp_held L" ?K s] show ?thesis by (simp add: tc_inv_def)
  next
    case MvOther
    with i l c show ?thesis by (simp add: tc_inv_def)
  next
    case (MvTime t)
    have "timer_key (s\<lparr>io_uiLoopTime := t\<rparr>) = timer_key s" "timer_active (s\<lparr>io_uiLoopTime := t\<rparr>) = timer_active s"
      by (auto simp: timer_key_def timer_active_def fun_eq_iff)
    with i l MvTime c show ?thesis by (simp add: timers_inv_def tc_inv_def)
  next
    case (MvRunning b)
    have "timer_key (s\<lparr>io_bLoopRunning := b\<rparr>) = timer_key s" "timer_active (s\<lparr>io_bLoopRunning := b\<rparr>) = timer_active s"
      by (auto simp: timer_key_def timer_active_def fun_eq_iff)
    with i l MvRunning c show ?thesis by (simp add: timers_inv_def tc_inv_def)
  qed
qed

lemma tc_init_inv: "tc_init c \<Longrightarrow> tc_inv c"
proof -
  assume i: "tc_init c"
  obtain s L C where c: "c = (s, L, C)" by (cases c)
  from i c have "heap_holds (timer_key s) (io_timerHeap s) {}" by (auto simp: tc_init_def heap_init_holds)
  with i c show ?thesis by (auto simp: tc_init_def tc_inv_def timers_inv_def timer_active_def)
qed

interpretation timer_threads: step_invariant tc_init tc_step tc_inv "\<lambda>c. \<forall>m. tc_allowed c m \<longrightarrow> (\<exists>c'. tc_move m c = Some c')"
proof
  show "tc_inv c" if "tc_init c" for c using that by (rule tc_init_inv)
  show "tc_inv c'" if "tc_inv c" "tc_step c c'" for c c' using that tc_step_inv [of c] by (fastforce simp: tc_step_iff)
  show "\<forall>m. tc_allowed c m \<longrightarrow> (\<exists>c'. tc_move m c = Some c')" if "tc_inv c" for c using tc_step_inv [OF that] by blast
qed

text \<open>C9: Calls from any threads and from callbacks, cut after their exchange of \<open>bRunning\<close> and before they queue their function, mixed with the steps of the
  loop in any order, when who calls has a reference and a timer is started only while none of its functions is unfinished (queued, on its way to the queue, or
  taken from it): no step touches a freed timer, follows a broken link of the heap or hangs, and a timer is in the heap exactly while it is active.\<close>

theorem timers_never_touch_freed:
  assumes "reachable tc_init tc_step c"
  shows "(tc_allowed c m \<longrightarrow> (\<exists>c'. tc_move m c = Some c')) \<and>
    (\<exists>f n. heap_rep (io_timerHeap (fst c)) f n \<and> f ` {1..n} = {p. timer_active (fst c) p})"
proof -
  have "tc_inv c" by (rule timer_threads.reachable_inv [OF assms])
  then have "heap_holds (timer_key (fst c)) (io_timerHeap (fst c)) {p. timer_active (fst c) p}"
    by (cases c) (auto simp: tc_inv_def intro: inv_heap)
  then show ?thesis using timer_threads.always [OF assms] by (auto simp: heap_holds_def)
qed

text \<open>A timer of five milliseconds: one thread is in its start, with the reference taken, when another stops the timer; then the queue is moved.\<close>

fun tc_run :: "timer_move list \<Rightarrow> timer_conc \<Rightarrow> timer_conc option" where
  "tc_run [] c = Some c"
| "tc_run (m # ms) c = (if tc_allowed c m then Option.bind (tc_move m c) (tc_run ms) else None)"

lemma tc_run_reachable: "tc_run ms c = Some c' \<Longrightarrow> reachable tc_init tc_step c \<Longrightarrow> reachable tc_init tc_step c'"
proof (induction ms arbitrary: c)
  case (Cons m ms)
  then obtain c1 where c1: "tc_allowed c m" "tc_move m c = Some c1" "tc_run ms c1 = Some c'" by (auto simp: bind_eq_Some_conv split: if_splits)
  from c1 have "reachable tc_init tc_step c1" by (intro reach_step [OF Cons.prems(2)]) (auto simp: tc_step_iff)
  with Cons.IH c1(3) show ?case by blast
qed simp

definition threads_example :: "timer_conc option" where
  "threads_example = tc_run [MvUser (UcCreate 1 True 5), MvUser (UcStart 1), MvCall 0, MvUser (UcStop 1), MvCall 1, MvCall 0, MvCall 0, MvEvents] (loop0, [], [])"

theorem timers_never_touch_freed_witness:
  "\<exists>c c'. threads_example = Some c \<and> fst (snd c) = [TlTask (TimerStart 1), TlTask (TimerStop 1)] \<and> tc_move MvLoop c = Some c'"
proof -
  obtain c where c: "threads_example = Some c" "fst (snd c) = [TlTask (TimerStart 1), TlTask (TimerStop 1)]"
    by (simp add: threads_example_def timer_eval loop0_def user_holds_def tc_tasks_def lp_held_def eventTimer_addref_def)
  have "reachable tc_init tc_step (loop0, [], [])" by (rule reach_init) (auto simp: tc_init_def loop0_def)
  with c(1) tc_run_reachable have "reachable tc_init tc_step c" unfolding threads_example_def by blast
  from timers_never_touch_freed [OF this, of MvLoop] c obtain c' where "tc_move MvLoop c = Some c'" by auto
  with c show ?thesis by blast
qed

end
