(* ===== verification/Spec2Isabelle.thy ===== *)
theory Spec2Isabelle
  imports ByteQueue Buffers Msgpack WebSocket Hash Locks ChannelCenter ServiceCenter Queue ServiceQueue Service
    Poller Connection ConnectionSend ConnectionStream Stream StreamConnection Transport HeapOrder TimerTime
    ChannelFaults EventIO MysqlStream TimeSpan StringUtil Semaphore ThreadLocal
    ServiceMonitor TimerConc
begin

text \<open>
  A verification development for the frog game framework, a server framework in C.  All paths below
  are relative to \<open>src/src/\<close>.

  The program.  A server is a set of services (\<open>service/source/service_t.c\<close>), actors that each own a
  queue of events and run on the threads of event loops (\<open>core/source/eventIO/\<close>).  A service sends to
  another by id (\<open>serviceCenter_t.c\<close> turns ids and names into services) and talks to peers over
  channels (\<open>service/source/channel/\<close>), which frame the bytes of a connection with a codec
  (\<open>core/source/codec/\<close>).  Payloads are MessagePack (\<open>core/source/msgpack/\<close>), read and written through
  byte queues (\<open>byteQueue_t\<close>).  Under all of this are the queues, locks and hashes of \<open>core/include/\<close>.

  The layers of the development, from the bottom:

  \<^item> \<open>Prelude\<close>: machine words, blocks of C memory as byte lists with bounds-checked reads and writes,
    little and big endian numbers.  \<open>Interfaces\<close>: the contracts, as locales: a machine that simulates
    an abstract one along sequences of operations, a step relation with an invariant, a table of
    handles that answers like a map, a queue of nodes that is first in, first out.  Every locale is
    interpreted on the definitions of the components that provide it.
  \<^item> \<open>ByteQueue\<close>: \<open>core/include/byteQueue_t.h\<close> and \<open>core/source/detail/byteQueue_t.c\<close>, the growing ring
    buffer.  The record \<open>byteQueue\<close> has the fields of the struct and the block it points to.  Its
    invariant is preserved by every operation within its contract, and the ring refines a first in,
    first out queue of bytes.  The rest of the development uses it through that refinement.
  \<^item> \<open>Buffers\<close>: \<open>slice_t.h\<close> and \<open>cbuf_t.h\<close>, views and owned blocks.
  \<^item> \<open>MsgpackEncode\<close>, \<open>MsgpackDecode\<close>, \<open>Msgpack\<close>: the encoder that grows its block, the decoder with its
    offset, and the two composed: what is written is read back, the decoder is safe on any bytes, a
    skip is a read, and the exceptions (a read past the end, an append that never returns).
  \<^item> \<open>Tpack\<close>, \<open>WebSocket\<close>: the two frame codecs, \<open>core/source/codec/\<close>.  Decoding is proved against an
    abstract parser of the frames, for any cut of the stream; encoding against the decoder.  For WebSocket the parser is also compared with
    the layout of RFC 6455, \<open>ws_rfc_parse\<close> and \<open>ws_rfc_enc\<close>: the decoder reads a length of 16 bits with its bytes exchanged and refuses one of 64.
  \<^item> \<open>Hash\<close>: \<open>hash_t.h\<close>; the mixers are bijections, the FNV functions against the published FNV-1.
  \<^item> \<open>Locks\<close>: \<open>rwSpinLock_t.h\<close> and \<open>spinLock_t.h\<close>; one step per atomic operation, interleaved over any
    number of threads.
  \<^item> \<open>HandleSlots\<close>, \<open>ChannelCenter\<close>, \<open>ServiceCenter\<close>: the registries of handles.  \<open>HandleSlots\<close> is the slot
    array with its stack of free indices that \<open>channelCenter_t.c\<close> and \<open>serviceCenter_t.c\<close> repeat.
  \<^item> \<open>Queue\<close>: the macros of \<open>queue_t.h\<close> on a memory of linked nodes.
  \<^item> \<open>ServiceQueue\<close>, \<open>Service\<close>: the queue of a service with the event watcher that wakes it
    (\<open>service_t.c\<close>, \<open>service-inl.h\<close>, \<open>core/source/eventIO/posix/eventWatcher_t.c\<close>), as an interleaving of
    senders, a stopping thread and the loop; and the packing of a message into an event and its
    dispatch to the callback of the service.
  \<^item> \<open>Poller\<close>: \<open>core/source/eventIO/posix/poller/\<close>, the epoll and the kqueue poller over a map of the interests of
    the kernel; both implement one contract, so a user cannot tell them apart.
  \<^item> \<open>Connection\<close>: \<open>eventConnection_t.c\<close>, the record of a connection with its poller, the functions queued for
    it in its loop and what it did to the outside; every function is a step, with what the system calls return as
    its parameter.  \<open>ConnectionSend\<close> has the invariants of sending, \<open>ConnectionStream\<close> its properties: what is on
    the wire, what is called back, and where the code loses or repeats bytes.
  \<^item> \<open>Stream\<close>, \<open>StreamConnection\<close>, \<open>Transport\<close>: the codec streams of \<open>service/source/stream/\<close>, a connection that
    feeds them, and the whole way of a message from \<open>tpackStream_write\<close> over two connections and the codec to the
    callback of the service at the other end.
  \<^item> \<open>MysqlStream\<close>: the stream of MySQL packets, \<open>mysqlStream_t.c\<close>: a vector of buffers becomes packets that a reader
    of the format understands; what each write function queues for every length, and where it goes wrong.
  \<^item> \<open>Heap\<close>, \<open>HeapOrder\<close>: \<open>core/include/heap_t.h\<close>, the binary heap of linked nodes, statement by statement on a memory
    of nodes, and that it is a priority queue.
  \<^item> \<open>EventTimer\<close>, \<open>TimerInv\<close>, \<open>TimerRun\<close>, \<open>TimerTime\<close>, \<open>TimerConc\<close>: \<open>eventTimer_t.h\<close> and \<open>eventTimer_t.c\<close> with the functions
    they queue in the loop and \<open>eventIO_runTimers\<close> of \<open>eventIO_t.c\<close>, over that heap.  \<open>TimerInv\<close> has the invariant of
    references and activity, \<open>TimerRun\<close> what runs, when and in which order, \<open>TimerTime\<close> the waiting time and
    the order of calls that puts a timer into the heap twice: in these three a call is one step.  \<open>TimerConc\<close> cuts the calls and the functions of the
    loop at their atomic operations, for any number of threads and callbacks that call anything.
  \<^item> \<open>EventLoop\<close>, \<open>EventIO\<close>: \<open>eventIOLoop_t.c\<close>, \<open>eventIOLoop_t.h\<close> and \<open>eventIO-inl.h\<close>: the queue of a loop with the event that wakes
    it, and the queue that all loops of an \<open>eventIO\<close> share, as interleavings of any number of threads: no function
    is lost or run twice while the loops run, a stop ends the loop, the loops leave and \<open>eventIO_dispatch\<close> cancels what is left in the shared
    queue, and what is queued after that is lost.
  \<^item> \<open>Channel\<close>: \<open>service/source/channel/channel_t.c\<close> on the models of the connection, the timers and the center, with its
    callers in \<open>lservice_t.c\<close> and \<open>service_t.c\<close>; freed memory is explicit.  \<open>ChannelLife\<close> has the invariant that the
    reference counts are the numbers of those who hold references, \<open>ChannelUse\<close> that no order of calls breaks it, with
    the calls of users cut at each atomic access of the channel, and that a write may still use a connection that the loop has freed;
    \<open>ChannelFaults\<close> has the callers that break it.
  \<^item> \<open>TimeSpan\<close>: the arithmetic of \<open>time_t.h\<close>.  \<open>StringUtil\<close>: the string helpers of \<open>utility_t.c\<close> and \<open>utility_t.h\<close> on
    blocks of memory.
  \<^item> \<open>Semaphore\<close>, \<open>ThreadLocal\<close>: of \<open>core/source/thread/pthread/thread_t.c\<close> the semaphore that is made of a mutex and a
    condition, over any interleaving of threads, with the posts it loses; and the thread local values,
    with their red-black tree by its contract, a sorted list (\<open>rbtree_t.h\<close> is a copy of the macros of BSD).
  \<^item> \<open>ServiceMonitor\<close>: \<open>service/source/serviceMonitor_t.c\<close>: what the check reports after any calls of the threads when nothing comes between, and,
    with the threads and the check cut at each load and store of a slot, when a service that hangs is reported.

  How the code is translated.  A C function that can have undefined behaviour or not return is a
  function into \<open>option\<close>, \<open>None\<close> being exactly that; a function that fails returns what the C function
  returns, as a flag or a sum.  Structs are records, integers are words of their width (sizes and
  offsets of blocks are natural numbers where the code cannot reach the wrap-around, and the theory
  says so).  Allocation succeeds: the code does not test it, and a failed allocation is outside the
  model.  A function that runs under a lock from its first to its last access of shared state is one
  step.  What several threads run without one is cut at each atomic operation and each locked section, with sequentially consistent
  memory: in \<open>Locks\<close>, \<open>ServiceQueue\<close>, \<open>EventLoop\<close>, \<open>EventIO\<close>, \<open>Semaphore\<close>, \<open>TimerConc\<close>, in \<open>ServiceMonitor\<close> for the slots, and in
  \<open>ChannelUse\<close> for the calls of users.  What only the thread of a loop touches belongs there to the step of the atomic operation beside it.
  The other theories have one caller at a time, and say what a step is: the sends of \<open>ConnectionStream\<close> are those that the loop takes from its queue, and
  a function of a connection or of a timer outside \<open>TimerConc\<close> is one step.

  Bounds.  The proof of \<open>rwSpinLock_excludes\<close> is for fewer than 2^29 threads, the number of
  reader units that fit in the 32 bit word of the lock above its flag bits.  A channel id is unique until
  2046 further registrations have used up the sequence numbers.  Loops with a measure are total
  functions; the loop of the encoder that doubles a capacity, which may not end, has fuel, and both
  its fuel being enough and its divergence for capacity 0 are proved.

  Findings.  Where the code does something other than it means to, the property states what it does,
  so that the property fails when the code is repaired; the manifest lists them.

  Not modelled.  System calls and what depends only on them: listening ports, the wrappers of pthreads (the semaphore and the thread local values apart), the reading of clocks,
  the file system and the log.  Of \<open>eventIO_dispatch\<close> its
  waiting on a condition variable for the loops to leave, which is a condition of its next step.  Of a channel and a connection the socket options, the addresses and the memory of
  its buffers.  The poller on select, which includes a header that does not exist.  Libraries that are not under \<open>src/\<close>: OpenSSL, Lua, the allocator,
  the parsers of HTTP, multipart, MySQL and redis; with Lua, the bindings of \<open>runtime/source/\<close>, which move values between the Lua stack
  and the functions modelled here.  Floating point items of MessagePack (\<open>writeReal\<close>, \<open>readReal\<close>) and
  \<open>printJson\<close>.  The implementation for Windows, a second one of the same interfaces.  The sources
  under \<open>runtime/source/llockStep\<close>, \<open>lockStepPack\<close> and \<open>lockstep\<close>, which the build leaves out.
\<close>

end
